(* ===== verification/Prelude.thy ===== *)
theory Prelude
  imports Main "HOL-Library.Word" "HOL-Library.Multiset"
begin

text \<open>
  Shared vocabulary of the development: Go's 64-bit integers and decimal formatting, the
  answers a database gives to a call, transactions as \<open>pgx.BeginFunc\<close> runs them, and the
  lemmas on lists and maps that several components use.

  Every program of the repository talks to servers it does not contain. A call to a server
  has an \<open>outcome\<close>, which is a parameter of each operation: the statement was applied and
  acknowledged, it was refused, or it was applied and the acknowledgement was lost.
\<close>

named_theorems tx_simps \<open>evaluation of database calls and transactions\<close>

unbundle bit_operations_syntax

section \<open>Go integers\<close>

text \<open>The value a Go \<open>int\<close> or \<open>int64\<close> holds after an arithmetic operation.\<close>

definition wrap64 :: "int \<Rightarrow> int" where
  "wrap64 x = (x + 2 ^ 63) mod 2 ^ 64 - 2 ^ 63"

lemma wrap64_id: "- (2 ^ 63) \<le> x \<Longrightarrow> x < 2 ^ 63 \<Longrightarrow> wrap64 x = x"
  by (simp add: wrap64_def)

lemma wrap64_range: "- (2 ^ 63) \<le> wrap64 x \<and> wrap64 x < 2 ^ 63"
  by (simp add: wrap64_def)

lemma wrap64_wrap64_add [simp]: "wrap64 (wrap64 x + y) = wrap64 (x + y)"
proof -
  have "(wrap64 x + y + 2 ^ 63) mod 2 ^ 64 = ((x + 2 ^ 63) mod 2 ^ 64 + y) mod 2 ^ 64"
    by (simp add: wrap64_def)
  also have "\<dots> = (x + y + 2 ^ 63) mod 2 ^ 64"
    by (simp only: mod_add_left_eq) (simp add: ac_simps)
  finally show ?thesis by (simp add: wrap64_def)
qed

text \<open>Go's \<open>%\<close> truncates towards zero; on a slice index a negative remainder panics.\<close>

definition go_rem :: "int \<Rightarrow> int \<Rightarrow> int" where
  "go_rem a b = sgn a * (\<bar>a\<bar> mod \<bar>b\<bar>)"

definition at_index :: "'a list \<Rightarrow> int \<Rightarrow> 'a option" where
  "at_index xs i = (if 0 \<le> i \<and> nat i < length xs then Some (xs ! nat i) else None)"

lemma go_rem_pos: "0 \<le> a \<Longrightarrow> 0 < b \<Longrightarrow> go_rem a b = a mod b"
  by (cases "a = 0") (simp_all add: go_rem_def)

lemma at_index_in: "at_index xs i = Some x \<Longrightarrow> x \<in> set xs"
  by (auto simp: at_index_def split: if_splits)

section \<open>Decimal formatting (verb d of the fmt package)\<close>

definition digit :: "nat \<Rightarrow> char" where
  "digit d = char_of (48 + d)"

fun dec :: "nat \<Rightarrow> string" where
  "dec n = (if n < 10 then [digit n] else dec (n div 10) @ [digit (n mod 10)])"

declare dec.simps [simp del]

definition dec_int :: "int \<Rightarrow> string" where
  "dec_int i = (if i < 0 then CHR ''-'' # dec (nat (- i)) else dec (nat i))"

definition undec :: "string \<Rightarrow> nat" where
  "undec s = foldl (\<lambda>a c. 10 * a + (of_char c - 48)) 0 s"

lemma of_char_digit: "d < 10 \<Longrightarrow> of_char (digit d) = 48 + (d :: nat)"
  by (simp add: digit_def)

lemma undec_snoc: "undec (s @ [c]) = 10 * undec s + (of_char c - 48)"
  by (simp add: undec_def)

lemma undec_dec [simp]: "undec (dec n) = n"
proof (induction n rule: dec.induct)
  case (1 n)
  show ?case
  proof (cases "n < 10")
    case True
    then show ?thesis by (simp add: dec.simps [of n] undec_def of_char_digit)
  next
    case False
    then have "undec (dec n) = undec (dec (n div 10) @ [digit (n mod 10)])"
      by (simp add: dec.simps [of n])
    with "1" False show ?thesis by (simp add: undec_snoc of_char_digit)
  qed
qed

lemma dec_inject [simp]: "dec m = dec n \<longleftrightarrow> m = n"
  by (metis undec_dec)

definition is_digit :: "char \<Rightarrow> bool" where
  "is_digit c \<longleftrightarrow> 48 \<le> (of_char c :: nat) \<and> (of_char c :: nat) \<le> 57"

lemma is_digit_digit: "d < 10 \<Longrightarrow> is_digit (digit d)"
  by (simp add: is_digit_def of_char_digit)

lemma dec_digits: "c \<in> set (dec n) \<Longrightarrow> is_digit c"
proof (induction n rule: dec.induct)
  case (1 n)
  show ?case
  proof (cases "n < 10")
    case True
    with "1.prems" show ?thesis by (simp add: dec.simps [of n] is_digit_digit)
  next
    case False
    with "1.prems" have "c \<in> set (dec (n div 10)) \<or> c = digit (n mod 10)"
      by (auto simp: dec.simps [of n])
    with "1.IH" False show ?thesis by (auto simp: is_digit_digit)
  qed
qed

section \<open>Calls to a database\<close>

text \<open>
  \<open>Sqlstate\<close> is a \<open>pgconn.PgError\<close> with its code, \<open>NoRows\<close> is \<open>pgx.ErrNoRows\<close>, and
  \<open>Transport\<close> stands for everything else (connection refused, timeout, cancellation).
\<close>

datatype db_error = Sqlstate string | NoRows | Transport

datatype outcome = Done | Refused db_error | Lost db_error

primrec err_of :: "outcome \<Rightarrow> db_error option" where
  "err_of Done = None"
| "err_of (Refused e) = Some e"
| "err_of (Lost e) = Some e"

primrec applied :: "outcome \<Rightarrow> bool" where
  "applied Done = True"
| "applied (Refused e) = False"
| "applied (Lost e) = True"

text \<open>An autocommitted statement: its effect on the tables and what the client sees.\<close>

definition exec :: "outcome \<Rightarrow> ('s \<Rightarrow> 's) \<Rightarrow> 's \<Rightarrow> db_error option \<times> 's" where
  "exec r f s = (err_of r, if applied r then f s else s)"

text \<open>A query: no effect, so a lost answer is only an error.\<close>

definition query :: "outcome \<Rightarrow> 'a \<Rightarrow> db_error + 'a" where
  "query r x = (case err_of r of None \<Rightarrow> Inr x | Some e \<Rightarrow> Inl e)"

text \<open>
  \<open>pgx.BeginFunc\<close>, and the \<open>Begin\<close> / \<open>defer Rollback\<close> / \<open>Commit\<close> pattern: the body works
  on the tables of the transaction, an error of the body rolls everything back, and only a
  commit that the server applied makes the new tables visible. \<open>rb\<close> and \<open>rc\<close> are the
  outcomes of BEGIN and COMMIT.
\<close>

definition begin_func ::
  "outcome \<Rightarrow> outcome \<Rightarrow> ('s \<Rightarrow> (db_error + 'a) \<times> 's) \<Rightarrow> 's \<Rightarrow> (db_error + 'a) \<times> 's" where
  "begin_func rb rc f s =
     (case err_of rb of
        Some e \<Rightarrow> (Inl e, s)
      | None \<Rightarrow>
          (case f s of
             (Inl e, _) \<Rightarrow> (Inl e, s)
           | (Inr x, s') \<Rightarrow>
               (case err_of rc of
                  None \<Rightarrow> (Inr x, s')
                | Some e \<Rightarrow> (Inl e, if applied rc then s' else s))))"

lemma err_of_None [simp]: "err_of r = None \<longleftrightarrow> r = Done" "None = err_of r \<longleftrightarrow> r = Done"
  by (cases r; simp)+

lemma exec_simps [tx_simps]:
  "exec Done f s = (None, f s)"
  "exec (Refused e) f s = (Some e, s)"
  "exec (Lost e) f s = (Some e, f s)"
  by (simp_all add: exec_def)

lemma query_simps [tx_simps]:
  "query Done x = Inr x"
  "query (Refused e) x = Inl e"
  "query (Lost e) x = Inl e"
  by (simp_all add: query_def)

lemma query_Inr [tx_simps]: "query r x = Inr y \<longleftrightarrow> r = Done \<and> y = x"
  by (cases r) (auto simp: query_def)

lemma exec_ok: "exec r f s = (None, s') \<Longrightarrow> r = Done \<and> s' = f s"
  by (cases r) (auto simp: exec_def)

lemma exec_cases: "snd (exec r f s) = s \<or> snd (exec r f s) = f s"
  by (simp add: exec_def)

text \<open>
  The contract of a transaction runner, which the clients' invariants rest on: success means
  the body ran to its end and its tables are installed; after an error the tables are either
  the old ones, or those of a body that succeeded but whose commit was not acknowledged.
\<close>

locale txn_runner =
  fixes run :: "outcome \<Rightarrow> outcome \<Rightarrow> ('s \<Rightarrow> (db_error + 'a) \<times> 's) \<Rightarrow> 's \<Rightarrow> (db_error + 'a) \<times> 's"
  assumes run_ok: "run rb rc f s = (Inr x, s') \<Longrightarrow> f s = (Inr x, s')"
    and run_err: "run rb rc f s = (Inl e, s') \<Longrightarrow> s' = s \<or> (\<exists>x. f s = (Inr x, s'))"
    and run_done: "f s = (Inr x, s') \<Longrightarrow> run Done Done f s = (Inr x, s')"
    and run_abort: "f s = (Inl e, s') \<Longrightarrow> snd (run rb rc f s) = s"
begin

lemma run_state: "snd (run rb rc f s) = s \<or> (\<exists>x. f s = (Inr x, snd (run rb rc f s)))"
  by (metis prod.collapse run_err run_ok sum.exhaust)

text \<open>A property of the tables that every successful body keeps is kept by the runner.\<close>

lemma run_invariant:
  assumes "P s" and "\<And>x s'. f s = (Inr x, s') \<Longrightarrow> P s'"
  shows "P (snd (run rb rc f s))"
  using run_state [of rb rc f s] assms by metis

lemma run_relation:
  assumes "R s s" and "\<And>x s'. f s = (Inr x, s') \<Longrightarrow> R s s'"
  shows "R s (snd (run rb rc f s))"
  using run_state [of rb rc f s] assms by metis

end

interpretation tx: txn_runner begin_func
  by unfold_locales
    (auto simp: begin_func_def split: option.splits prod.splits sum.splits if_splits)

lemma begin_func_Done [tx_simps]:
  "begin_func Done Done f s =
     (case f s of (Inl e, _) \<Rightarrow> (Inl e, s) | (Inr x, s') \<Rightarrow> (Inr x, s'))"
  by (auto simp: begin_func_def split: prod.splits sum.splits)

text \<open>
  The body of a transaction: statements in sequence, the first error ends it (the deferred
  \<open>Rollback\<close> undoes what it did, so only the error matters).
\<close>

definition bind_tx :: "('s \<Rightarrow> ('e + 'a) \<times> 's) \<Rightarrow> ('a \<Rightarrow> 's \<Rightarrow> ('e + 'b) \<times> 's) \<Rightarrow> 's \<Rightarrow> ('e + 'b) \<times> 's" where
  "bind_tx f g s = (case f s of (Inl e, s') \<Rightarrow> (Inl e, s') | (Inr x, s') \<Rightarrow> g x s')"

definition stmt :: "outcome \<Rightarrow> ('s \<Rightarrow> (db_error + 'a) \<times> 's) \<Rightarrow> 's \<Rightarrow> (db_error + 'a) \<times> 's" where
  "stmt r f s = (case err_of r of None \<Rightarrow> f s | Some e \<Rightarrow> (Inl e, s))"

lemma bind_tx_Inr [tx_simps]:
  "bind_tx f g s = (Inr y, s'') \<longleftrightarrow> (\<exists>x s'. f s = (Inr x, s') \<and> g x s' = (Inr y, s''))"
  by (auto simp: bind_tx_def split: prod.splits sum.splits)

lemma stmt_Inr [tx_simps]: "stmt r f s = (Inr x, s') \<longleftrightarrow> r = Done \<and> f s = (Inr x, s')"
  by (cases r) (auto simp: stmt_def)

lemma stmt_Done [tx_simps]: "stmt Done f s = f s"
  by (simp add: stmt_def)

text \<open>
  A program whose errors are fatal: \<open>None\<close> is \<open>log.Fatal\<close> or a panic, and what was done so far stays.
\<close>

definition and_then :: "('s \<Rightarrow> 'a option \<times> 's) \<Rightarrow> ('a \<Rightarrow> 's \<Rightarrow> 'b option \<times> 's) \<Rightarrow> 's \<Rightarrow> 'b option \<times> 's" where
  "and_then f g s = (case f s of (None, s') \<Rightarrow> (None, s') | (Some x, s') \<Rightarrow> g x s')"

definition give :: "'a \<Rightarrow> 's \<Rightarrow> 'a option \<times> 's" where
  "give x s = (Some x, s)"

definition must :: "outcome \<Rightarrow> ('s \<Rightarrow> 's) \<Rightarrow> 's \<Rightarrow> unit option \<times> 's" where
  "must r f s = (if err_of r = None then Some () else None, if applied r then f s else s)"

lemma and_then_Some [tx_simps]: "and_then f g s = (Some y, s'') \<longleftrightarrow> (\<exists>x s'. f s = (Some x, s') \<and> g x s' = (Some y, s''))"
  by (auto simp: and_then_def split: prod.splits option.splits)

lemma give_Some [tx_simps]: "give x s = (Some y, s') \<longleftrightarrow> y = x \<and> s' = s"
  by (auto simp: give_def)

lemma must_Some [tx_simps]: "must r f s = (Some u, s') \<longleftrightarrow> r = Done \<and> s' = f s"
  by (cases r) (auto simp: must_def)

lemma and_then_eq: "f s = (Some x, s') \<Longrightarrow> and_then f g s = g x s'"
  by (simp add: and_then_def)

text \<open>
  Invariants of such programs: \<open>leads P f Q\<close> says that a run of \<open>f\<close> from a state with \<open>P\<close>, finished or
  broken off, leaves a state with \<open>Q\<close>.
\<close>

definition leads :: "('s \<Rightarrow> bool) \<Rightarrow> ('s \<Rightarrow> 'a option \<times> 's) \<Rightarrow> ('s \<Rightarrow> bool) \<Rightarrow> bool" where
  "leads P f Q \<longleftrightarrow> (\<forall>s. P s \<longrightarrow> Q (snd (f s)))"

lemma leadsD: "leads P f Q \<Longrightarrow> P s \<Longrightarrow> Q (snd (f s))"
  by (simp add: leads_def)

lemma leads_and_then:
  assumes "leads P f R" and "\<And>x. leads R (g x) Q" and "\<And>s. R s \<Longrightarrow> Q s"
  shows "leads P (and_then f g) Q"
  unfolding leads_def
proof (intro allI impI)
  fix s assume "P s"
  obtain x s' where f: "f s = (x, s')" by fastforce
  from leadsD [OF assms(1) \<open>P s\<close>] have "R s'" by (simp add: f)
  with assms(3) leadsD [OF assms(2)] show "Q (snd (and_then f g s))"
    by (cases x) (simp_all add: and_then_def f)
qed

lemma leads_same: "(\<And>s. snd (f s) = s) \<Longrightarrow> leads P f P"
  by (simp add: leads_def)

lemma leads_give: "leads P (give x) P"
  by (simp add: leads_def give_def)

lemma leads_must: "(\<And>s. P s \<Longrightarrow> P (f s)) \<Longrightarrow> leads P (must r f) P"
  by (simp add: leads_def must_def)

text \<open>\<open>yields P f Q\<close>: a run of \<open>f\<close> from a state with \<open>P\<close> that returns, returns an \<open>x\<close> and a state with \<open>Q x\<close>.\<close>

definition yields :: "('s \<Rightarrow> bool) \<Rightarrow> ('s \<Rightarrow> 'a option \<times> 's) \<Rightarrow> ('a \<Rightarrow> 's \<Rightarrow> bool) \<Rightarrow> bool" where
  "yields P f Q \<longleftrightarrow> (\<forall>s x s'. P s \<longrightarrow> f s = (Some x, s') \<longrightarrow> Q x s')"

lemma yieldsD: "yields P f Q \<Longrightarrow> P s \<Longrightarrow> f s = (Some x, s') \<Longrightarrow> Q x s'"
  unfolding yields_def by blast

lemma yieldsI: "(\<And>s x s'. P s \<Longrightarrow> f s = (Some x, s') \<Longrightarrow> Q x s') \<Longrightarrow> yields P f Q"
  unfolding yields_def by blast

lemma yields_and_then:
  assumes "yields P f R" and "\<And>x. yields (R x) (g x) Q"
  shows "yields P (and_then f g) Q"
proof (rule yieldsI)
  fix s y t
  assume "P s" "and_then f g s = (Some y, t)"
  then obtain x s' where "f s = (Some x, s')" "g x s' = (Some y, t)" by (auto simp: and_then_Some)
  with \<open>P s\<close> assms show "Q y t" by (meson yieldsD)
qed

lemma yields_give: "(\<And>s. P s \<Longrightarrow> Q x s) \<Longrightarrow> yields P (give x) Q"
  by (simp add: yields_def give_def)

lemma yields_must: "(\<And>s. P s \<Longrightarrow> r = Done \<Longrightarrow> Q () (f s)) \<Longrightarrow> yields P (must r f) Q"
  by (simp add: yields_def must_Some)

lemma leads_yields:
  assumes "leads P f Q" and "yields P f R" and "\<And>x. leads (R x) (g x) Q"
  shows "leads P (and_then f g) Q"
  unfolding leads_def
proof (intro allI impI)
  fix s assume "P s"
  obtain x s' where f: "f s = (x, s')" by fastforce
  show "Q (snd (and_then f g s))"
  proof (cases x)
    case None
    with leadsD [OF assms(1) \<open>P s\<close>] show ?thesis by (simp add: and_then_def f)
  next
    case (Some y)
    with yieldsD [OF assms(2) \<open>P s\<close>] f leadsD [OF assms(3)] show ?thesis by (simp add: and_then_def)
  qed
qed

text \<open>Values of an INT column (the encoder of the driver rejects others).\<close>

definition int4 :: "int \<Rightarrow> bool" where
  "int4 x \<longleftrightarrow> - (2 ^ 31) \<le> x \<and> x < 2 ^ 31"

section \<open>Delivery at least once\<close>

text \<open>
  The contract of a sink that a relay may feed twice: a delivered event stays delivered, and
  delivering it again changes nothing.
\<close>

locale at_least_once =
  fixes deliver :: "'e \<Rightarrow> 's \<Rightarrow> 's"
    and delivered :: "'e \<Rightarrow> 's \<Rightarrow> bool"
  assumes done_after: "delivered e (deliver e s)"
    and done_stays: "delivered e s \<Longrightarrow> delivered e (deliver e' s)"
    and done_again: "delivered e s \<Longrightarrow> deliver e s = s"
begin

definition deliver_all :: "'s \<Rightarrow> 'e list \<Rightarrow> 's" where
  "deliver_all s es = foldl (\<lambda>s e. deliver e s) s es"

lemma deliver_all_simps [simp]:
  "deliver_all s [] = s"
  "deliver_all s (e # es) = deliver_all (deliver e s) es"
  "deliver_all s (es @ fs) = deliver_all (deliver_all s es) fs"
  by (simp_all add: deliver_all_def)

lemma delivered_stays: "delivered e s \<Longrightarrow> delivered e (deliver_all s es)"
  by (induction es arbitrary: s) (simp_all add: done_stays)

lemma all_delivered: "e \<in> set es \<Longrightarrow> delivered e (deliver_all s es)"
  by (induction es arbitrary: s) (auto intro: delivered_stays done_after)

lemma deliver_delivered: "\<forall>e \<in> set es. delivered e s \<Longrightarrow> deliver_all s es = s"
  by (induction es) (simp_all add: done_again)

lemma redeliver_prefix: "deliver_all (deliver_all s (take m es)) es = deliver_all s es"
proof -
  have "deliver_all (deliver_all s (take m es)) (take m es @ drop m es)
      = deliver_all (deliver_all s (take m es)) (drop m es)"
    by (simp add: deliver_delivered all_delivered del: append_take_drop_id)
  also have "\<dots> = deliver_all s (take m es @ drop m es)"
    by (simp only: deliver_all_simps)
  finally show ?thesis by simp
qed

text \<open>A restart at position \<open>j\<close> after the sink got everything before \<open>j'\<close>.\<close>

lemma redeliver:
  assumes "j \<le> j'"
  shows "deliver_all (deliver_all s (take j' es)) (drop j es) = deliver_all s es"
proof -
  have "take j' es = take j es @ take (j' - j) (drop j es)"
    using assms by (metis le_add_diff_inverse take_add)
  then have "deliver_all (deliver_all s (take j' es)) (drop j es) =
      deliver_all (deliver_all s (take j es)) (drop j es)"
    by (simp only: deliver_all_simps redeliver_prefix)
  also have "\<dots> = deliver_all s (take j es @ drop j es)"
    by (simp only: deliver_all_simps)
  finally show ?thesis by simp
qed

end

section \<open>Lists and maps\<close>

lemma foldl_invariant:
  assumes "P a" and "\<And>b x. P b \<Longrightarrow> x \<in> set xs \<Longrightarrow> P (f b x)"
  shows "P (foldl f a xs)"
  using assms by (induction xs arbitrary: a) auto

lemma image_set_map: "(\<And>x. f (g x) = f x) \<Longrightarrow> f ` set (map g xs) = f ` set xs"
  by (induction xs) simp_all

lemma filter_notin_take:
  assumes "distinct (map f xs)"
  shows "filter (\<lambda>x. f x \<notin> set (take m (map f xs))) xs = drop m xs"
  using assms
proof (induction xs arbitrary: m)
  case (Cons x xs)
  show ?case
  proof (cases m)
    case (Suc k)
    have "f y \<noteq> f x" if "y \<in> set xs" for y
      using Cons.prems that by (metis distinct.simps(2) image_eqI list.simps(9) set_map)
    then have "filter (\<lambda>y. f y \<notin> insert (f x) (set (take k (map f xs)))) xs =
        filter (\<lambda>y. f y \<notin> set (take k (map f xs))) xs"
      by (intro filter_cong) auto
    with Cons show ?thesis by (simp add: Suc)
  qed simp
qed simp

lemma map_upd_dom_eq: "dom (m(k \<mapsto> v)) = insert k (dom m)"
  by (auto simp: dom_def)

lemma sum_list_filter_split:
  "sum_list (map f xs) = sum_list (map f (filter P xs)) + sum_list (map f (filter (\<lambda>x. \<not> P x) xs))"
  for f :: "'a \<Rightarrow> 'b::comm_monoid_add"
  by (induction xs) (simp_all add: ac_simps)

lemma filter_mset_partition: "mset (filter P xs) + mset (filter (\<lambda>x. \<not> P x) xs) = mset xs"
  by (induction xs) simp_all

end
