(* ===== verification/GoStd.thy ===== *)
theory GoStd
  imports Prelude
begin

text \<open>
  The parts of Go's standard library whose results the routing code depends on:
  \<open>crc32.ChecksumIEEE\<close>, \<open>fnv.New32a\<close>, \<open>slices.BinarySearch\<close>, \<open>slices.Contains\<close>,
  \<open>slices.IndexFunc\<close> and a few functions of the \<open>strings\<close> package.
\<close>

section \<open>Checksums\<close>

text \<open>CRC-32 with the reflected IEEE polynomial, one input bit at a time.\<close>

definition crc_bit :: "32 word \<Rightarrow> 32 word" where
  "crc_bit c = (if c AND 1 = 1 then drop_bit 1 c XOR 0xEDB88320 else drop_bit 1 c)"

definition crc_byte :: "32 word \<Rightarrow> char \<Rightarrow> 32 word" where
  "crc_byte c b =
     crc_bit (crc_bit (crc_bit (crc_bit (crc_bit (crc_bit (crc_bit (crc_bit
       (c XOR word_of_nat (of_char b)))))))))"

definition crc_update :: "32 word \<Rightarrow> string \<Rightarrow> 32 word" where
  "crc_update c s = foldl crc_byte c s"

definition checksum_ieee :: "string \<Rightarrow> 32 word" where
  "checksum_ieee s = NOT (crc_update (NOT 0) s)"

lemma crc_update_append: "crc_update c (s @ t) = crc_update (crc_update c s) t"
  by (simp add: crc_update_def)

text \<open>A checksum collision survives any common suffix.\<close>

lemma checksum_ieee_append_cong:
  assumes "checksum_ieee s = checksum_ieee t"
  shows "checksum_ieee (s @ u) = checksum_ieee (t @ u)"
proof -
  from assms have "NOT (NOT (crc_update (NOT 0) s)) = NOT (NOT (crc_update (NOT 0) t))"
    by (simp only: checksum_ieee_def)
  then show ?thesis by (simp add: checksum_ieee_def crc_update_append)
qed

text \<open>FNV-1a, 32 bits.\<close>

definition fnv_byte :: "32 word \<Rightarrow> char \<Rightarrow> 32 word" where
  "fnv_byte h b = (h XOR word_of_nat (of_char b)) * 16777619"

definition fnv32a :: "string \<Rightarrow> 32 word" where
  "fnv32a s = foldl fnv_byte 2166136261 s"

section \<open>Slices\<close>

text \<open>
  \<open>slices.BinarySearch\<close>: the loop keeps \<open>lo \<le> hi\<close> and halves the interval; the result is
  the first index whose element is not below the target.
\<close>

function bsearch :: "'a::linorder list \<Rightarrow> 'a \<Rightarrow> nat \<Rightarrow> nat \<Rightarrow> nat" where
  "bsearch xs x lo hi =
     (if lo < hi
      then let m = (lo + hi) div 2 in
           if xs ! m < x then bsearch xs x (m + 1) hi else bsearch xs x lo m
      else lo)"
  by pat_completeness auto
termination
  by (relation "measure (\<lambda>(xs, x, lo, hi). hi - lo)") (auto simp: Let_def)

declare bsearch.simps [simp del]

lemma bsearch_done: "\<not> lo < hi \<Longrightarrow> bsearch xs x lo hi = lo"
  by (subst bsearch.simps) simp

definition binary_search :: "'a::linorder list \<Rightarrow> 'a \<Rightarrow> nat \<times> bool" where
  "binary_search xs x =
     (let i = bsearch xs x 0 (length xs) in (i, i < length xs \<and> xs ! i = x))"

lemma bsearch_bounds:
  assumes "sorted xs" and "lo \<le> hi" and "hi \<le> length xs"
    and "\<forall>i < lo. xs ! i < x" and "\<forall>i. hi \<le> i \<and> i < length xs \<longrightarrow> x \<le> xs ! i"
  shows "bsearch xs x lo hi \<le> hi \<and> (\<forall>i < bsearch xs x lo hi. xs ! i < x) \<and>
    (\<forall>i. bsearch xs x lo hi \<le> i \<and> i < length xs \<longrightarrow> x \<le> xs ! i)"
  using assms
proof (induction xs x lo hi rule: bsearch.induct)
  case (1 xs x lo hi)
  define m where "m = (lo + hi) div 2"
  show ?case
  proof (cases "lo < hi")
    case False
    with "1.prems" show ?thesis by (simp add: bsearch_done)
  next
    case lt: True
    then have m: "lo \<le> m" "m < hi" by (auto simp: m_def)
    with "1.prems" have mlen: "m < length xs" by simp
    show ?thesis
    proof (cases "xs ! m < x")
      case True
      have below: "\<forall>i < m + 1. xs ! i < x"
        using True mlen sorted_nth_mono [OF "1.prems"(1)] by (metis less_Suc_eq_le Suc_eq_plus1 order_le_less_trans)
      have "bsearch xs x lo hi = bsearch xs x (m + 1) hi"
        using lt True by (simp add: bsearch.simps [of _ _ lo hi] m_def Let_def)
      with "1.IH"(1) [OF lt m_def True] below "1.prems" m show ?thesis by simp
    next
      case False
      have above: "\<forall>i. m \<le> i \<and> i < length xs \<longrightarrow> x \<le> xs ! i"
        using False mlen sorted_nth_mono [OF "1.prems"(1)] by (metis linorder_not_less order_trans)
      have "bsearch xs x lo hi = bsearch xs x lo m"
        using lt False by (simp add: bsearch.simps [of _ _ lo hi] m_def Let_def)
      with "1.IH"(2) [OF lt m_def False] above "1.prems" m mlen show ?thesis by simp
    qed
  qed
qed

lemma bsearch_whole:
  assumes "sorted xs"
  shows "bsearch xs x 0 (length xs) \<le> length xs \<and> (\<forall>i < bsearch xs x 0 (length xs). xs ! i < x) \<and>
    (\<forall>i. bsearch xs x 0 (length xs) \<le> i \<and> i < length xs \<longrightarrow> x \<le> xs ! i)"
  by (rule bsearch_bounds [OF assms]) auto

lemma binary_search_spec:
  assumes "sorted xs"
  shows "fst (binary_search xs x) \<le> length xs"
    and "i < fst (binary_search xs x) \<Longrightarrow> xs ! i < x"
    and "fst (binary_search xs x) \<le> i \<Longrightarrow> i < length xs \<Longrightarrow> x \<le> xs ! i"
  using bsearch_whole [OF assms, of x] by (auto simp: binary_search_def Let_def)

text \<open>\<open>slices.IndexFunc\<close>: the first index, or \<open>None\<close> for Go's \<open>-1\<close>.\<close>

fun index_func :: "('a \<Rightarrow> bool) \<Rightarrow> 'a list \<Rightarrow> nat option" where
  "index_func p [] = None"
| "index_func p (x # xs) = (if p x then Some 0 else map_option Suc (index_func p xs))"

lemma index_func_Some:
  "index_func p xs = Some i \<Longrightarrow> i < length xs \<and> p (xs ! i) \<and> (\<forall>j < i. \<not> p (xs ! j))"
proof (induction xs arbitrary: i)
  case Nil
  then show ?case by simp
next
  case (Cons x xs)
  then show ?case
    by (fastforce split: if_splits simp: less_Suc_eq_0_disj)
qed

lemma index_func_None: "index_func p xs = None \<longleftrightarrow> (\<forall>x \<in> set xs. \<not> p x)"
  by (induction xs) auto

text \<open>\<open>slices.Chunk\<close>: consecutive pieces of at most \<open>n\<close> elements (\<open>n \<ge> 1\<close>).\<close>

function chunk :: "nat \<Rightarrow> 'a list \<Rightarrow> 'a list list" where
  "chunk n xs = (if xs = [] then [] else take (max 1 n) xs # chunk n (drop (max 1 n) xs))"
  by pat_completeness auto
termination
  by (relation "measure (\<lambda>(n, xs). length xs)") auto

declare chunk.simps [simp del]

lemma chunk_Nil [simp]: "chunk n [] = []"
  by (simp add: chunk.simps)

lemma concat_chunk: "concat (chunk n xs) = xs"
proof (induction n xs rule: chunk.induct)
  case (1 n xs)
  show ?case
  proof (cases "xs = []")
    case True
    then show ?thesis by simp
  next
    case False
    with "1" show ?thesis by (simp add: chunk.simps [of n xs])
  qed
qed

section \<open>Strings\<close>

fun has_prefix :: "string \<Rightarrow> string \<Rightarrow> bool" where
  "has_prefix s [] = True"
| "has_prefix [] (p # ps) = False"
| "has_prefix (c # cs) (p # ps) = (c = p \<and> has_prefix cs ps)"

lemma has_prefix_iff: "has_prefix s p \<longleftrightarrow> (\<exists>t. s = p @ t)"
  by (induction s p rule: has_prefix.induct) auto

text \<open>\<open>strings.TrimPrefix\<close>.\<close>

definition trim_prefix :: "string \<Rightarrow> string \<Rightarrow> string" where
  "trim_prefix s p = (if has_prefix s p then drop (length p) s else s)"

lemma trim_prefix_append [simp]: "trim_prefix (p @ t) p = t"
  by (simp add: trim_prefix_def has_prefix_iff)

text \<open>\<open>strings.Contains\<close>.\<close>

fun contains_str :: "string \<Rightarrow> string \<Rightarrow> bool" where
  "contains_str [] p = (p = [])"
| "contains_str (c # cs) p = (has_prefix (c # cs) p \<or> contains_str cs p)"

lemma contains_str_iff: "contains_str s p \<longleftrightarrow> (\<exists>a b. s = a @ p @ b)"
proof (induction s)
  case Nil
  then show ?case by simp
next
  case (Cons c cs)
  have "(\<exists>a b. c # cs = a @ p @ b) \<longleftrightarrow> (\<exists>b. c # cs = p @ b) \<or> (\<exists>a b. cs = a @ p @ b)"
    by (metis append_Cons append_Nil append_eq_Cons_conv)
  with Cons show ?case by (simp add: has_prefix_iff)
qed

text \<open>\<open>strings.Fields\<close>, for ASCII white space.\<close>

definition is_space :: "char \<Rightarrow> bool" where
  "is_space c \<longleftrightarrow> c = CHR '' '' \<or> c = CHR 0x09 \<or> c = CHR 0x0A \<or> c = CHR 0x0B \<or> c = CHR 0x0C \<or> c = CHR 0x0D"

function str_fields :: "string \<Rightarrow> string list" where
  "str_fields [] = []"
| "str_fields (c # cs) =
     (if is_space c then str_fields cs
      else (c # takeWhile (\<lambda>c. \<not> is_space c) cs) # str_fields (dropWhile (\<lambda>c. \<not> is_space c) cs))"
  by pat_completeness auto
termination
  by (relation "measure length") (simp_all add: less_Suc_eq_le length_dropWhile_le)

lemma str_fields_Nil: "str_fields s = [] \<longleftrightarrow> (\<forall>c \<in> set s. is_space c)"
  by (induction s rule: str_fields.induct) auto

text \<open>A word, then white space or nothing, reads back as the word.\<close>

lemma str_fields_first:
  assumes "w \<noteq> []" "\<forall>c \<in> set w. \<not> is_space c" "s = [] \<or> is_space (hd s)"
  shows "str_fields (w @ s) = w # str_fields s"
proof -
  from assms(1) obtain c cs where w: "w = c # cs" by (cases w) auto
  with assms(2) have "\<forall>c \<in> set cs. \<not> is_space c" by simp
  moreover from this have "takeWhile (\<lambda>c. \<not> is_space c) (cs @ s) = cs" "dropWhile (\<lambda>c. \<not> is_space c) (cs @ s) = s"
    using assms(3) by (cases s; simp)+
  ultimately show ?thesis using assms(2) by (simp add: w)
qed

section \<open>JSON numbers\<close>

text \<open>
  \<open>json.Unmarshal\<close> into \<open>any\<close> reads a number as a \<open>float64\<close>. For an integer that is the
  nearest integer with at most 53 significant bits, ties to even; \<open>int(f)\<close> then gives it back
  as an \<open>int\<close> (2 to the 63rd, which does not fit, wraps as on amd64).
\<close>

fun bit_length :: "nat \<Rightarrow> nat" where
  "bit_length n = (if n = 0 then 0 else Suc (bit_length (n div 2)))"

declare bit_length.simps [simp del]

definition f64_of_int :: "int \<Rightarrow> int" where
  "f64_of_int n =
     (if \<bar>n\<bar> \<le> 2 ^ 53 then n
      else let u = 2 ^ (bit_length (nat \<bar>n\<bar>) - 53); q = \<bar>n\<bar> div u; r = \<bar>n\<bar> mod u
           in sgn n * u * (if 2 * r < u \<or> (2 * r = u \<and> even q) then q else q + 1))"

definition int_of_json :: "int \<Rightarrow> int" where
  "int_of_json n = wrap64 (f64_of_int n)"

lemma int_of_json_exact: "\<bar>n\<bar> \<le> 2 ^ 53 \<Longrightarrow> int_of_json n = n"
  by (simp add: int_of_json_def f64_of_int_def wrap64_id)

lemma int4_json: "int4 n \<Longrightarrow> int_of_json n = n"
  by (rule int_of_json_exact) (auto simp: int4_def)

section \<open>JSON objects decoded into map[string]any\<close>

datatype json = JString string | JNumber int

type_synonym payload = "(string \<times> json) list"

text \<open>\<open>None\<close> is the panic of a failed type assertion.\<close>

definition json_string :: "payload \<Rightarrow> string \<Rightarrow> string option" where
  "json_string p k = (case map_of p k of Some (JString s) \<Rightarrow> Some s | _ \<Rightarrow> None)"

definition json_int :: "payload \<Rightarrow> string \<Rightarrow> int option" where
  "json_int p k = (case map_of p k of Some (JNumber n) \<Rightarrow> Some (int_of_json n) | _ \<Rightarrow> None)"

section \<open>Polling with a deadline\<close>

text \<open>
  A loop that polls a condition until it holds or a deadline passes, as \<open>waitFor\<close> in several
  programs: each attempt takes some time and is followed by a sleep. Attempts are given as pairs of
  the duration and the answer, the result counts them; \<open>None\<close> is the timeout.
\<close>

fun poll_until :: "nat \<Rightarrow> nat \<Rightarrow> nat \<Rightarrow> (nat \<times> bool) list \<Rightarrow> nat option" where
  "poll_until deadline pause t [] = None"
| "poll_until deadline pause t ((d, ok) # cs) =
     (if deadline \<le> t then None
      else if ok then Some 0
      else map_option Suc (poll_until deadline pause (t + d + pause) cs))"

lemma poll_until_Some:
  "poll_until deadline pause t cs = Some n \<Longrightarrow>
   n < length cs \<and> snd (cs ! n) \<and> (\<forall>i < n. \<not> snd (cs ! i)) \<and> t + n * pause < deadline"
proof (induction deadline pause t cs arbitrary: n rule: poll_until.induct)
  case (2 deadline pause t d ok cs)
  show ?case
  proof (cases "ok \<or> deadline \<le> t")
    case True
    with 2 show ?thesis by (auto split: if_splits)
  next
    case False
    with "2.prems" obtain m where m: "n = Suc m" "poll_until deadline pause (t + d + pause) cs = Some m"
      by auto
    from "2.IH" [OF _ _ m(2)] False m(1) show ?thesis
      by (auto simp: less_Suc_eq_0_disj)
  qed
qed simp

text \<open>The condition is seen when it starts to hold soon enough.\<close>

lemma poll_until_sees:
  assumes "n < length cs" "snd (cs ! n)" "t + (\<Sum>c \<leftarrow> take n cs. fst c + pause) < deadline"
  shows "poll_until deadline pause t cs \<noteq> None"
  using assms
proof (induction cs arbitrary: n t)
  case (Cons c cs)
  obtain d ok where c: "c = (d, ok)" by force
  show ?case
  proof (cases n)
    case 0
    with Cons.prems show ?thesis by (simp add: c)
  next
    case (Suc m)
    with Cons.prems have "poll_until deadline pause (t + d + pause) cs \<noteq> None"
      by (intro Cons.IH [of m]) (simp_all add: c)
    with Cons.prems Suc show ?thesis by (simp add: c)
  qed
qed simp

end
