(* ===== verification/HashRing.thy ===== *)
theory HashRing
  imports GoStd "HOL-Library.AList"
begin

text \<open>
  \<open>simulate_consistent_hashing/main.go\<close>: the consistent-hashing ring with virtual nodes, the
  placement of keys it gives, and the comparison with modulo sharding.
\<close>

section \<open>State\<close>

record hash_ring =
  replicas :: nat
  ring :: "32 word list"
  owners :: "32 word \<rightharpoonup> string"
  nodes :: "string set"

definition new_hash_ring :: "nat \<Rightarrow> hash_ring" where
  "new_hash_ring r = \<lparr>replicas = r, ring = [], owners = Map.empty, nodes = {}\<rparr>"

definition hash_key :: "string \<Rightarrow> 32 word" where
  "hash_key s = checksum_ieee s"

definition vnode_key :: "string \<Rightarrow> nat \<Rightarrow> string" where
  "vnode_key node i = node @ ''#'' @ dec i"

text \<open>Go's \<open>m[k]\<close> on a missing key is the zero value, here the empty string.\<close>

definition owner_of :: "('k \<rightharpoonup> string) \<Rightarrow> 'k \<Rightarrow> string" where
  "owner_of m k = (case m k of None \<Rightarrow> [] | Some n \<Rightarrow> n)"

section \<open>Operations\<close>

fun add_vnodes :: "string \<Rightarrow> nat list \<Rightarrow> 32 word list \<times> (32 word \<rightharpoonup> string)
    \<Rightarrow> 32 word list \<times> (32 word \<rightharpoonup> string)" where
  "add_vnodes node [] (r, ow) = (r, ow)"
| "add_vnodes node (i # is) (r, ow) =
     (let h = hash_key (vnode_key node i) in add_vnodes node is (r @ [h], ow(h \<mapsto> node)))"

definition add_node :: "hash_ring \<Rightarrow> string \<Rightarrow> hash_ring" where
  "add_node h node =
     (if node \<in> nodes h then h
      else let (r, ow) = add_vnodes node [0..<replicas h] (ring h, owners h)
           in h\<lparr>nodes := insert node (nodes h), ring := sort r, owners := ow\<rparr>)"

fun remove_vnodes :: "string \<Rightarrow> 32 word list \<Rightarrow> (32 word \<rightharpoonup> string)
    \<Rightarrow> 32 word list \<times> (32 word \<rightharpoonup> string)" where
  "remove_vnodes node [] ow = ([], ow)"
| "remove_vnodes node (x # xs) ow =
     (if owner_of ow x = node then remove_vnodes node xs (ow(x := None))
      else (let (kept, ow') = remove_vnodes node xs ow in (x # kept, ow')))"

definition remove_node :: "hash_ring \<Rightarrow> string \<Rightarrow> hash_ring" where
  "remove_node h node =
     (if node \<notin> nodes h then h
      else let (kept, ow) = remove_vnodes node (ring h) (owners h)
           in h\<lparr>nodes := nodes h - {node}, ring := kept, owners := ow\<rparr>)"

definition get_node :: "hash_ring \<Rightarrow> string \<Rightarrow> string" where
  "get_node h key =
     (if ring h = [] then []
      else let idx = fst (binary_search (ring h) (hash_key key));
               idx' = (if idx = length (ring h) then 0 else idx)
           in owner_of (owners h) (ring h ! idx'))"

text \<open>Go maps with string keys are association lists with distinct keys.\<close>

definition placement :: "hash_ring \<Rightarrow> string list \<Rightarrow> (string \<times> string) list" where
  "placement h keys = foldl (\<lambda>m k. AList.update k (get_node h k) m) [] keys"

definition modulo_node :: "nat \<Rightarrow> string \<Rightarrow> string" where
  "modulo_node n k = ''node'' @ dec (unat (hash_key k) mod n + 1)"

definition modulo_placement :: "string list \<Rightarrow> nat \<Rightarrow> (string \<times> string) list" where
  "modulo_placement keys n = foldl (\<lambda>m k. AList.update k (modulo_node n k) m) [] keys"

definition count_moved :: "(string \<times> string) list \<Rightarrow> (string \<times> string) list \<Rightarrow> nat" where
  "count_moved before after =
     foldl (\<lambda>moved (k, b). if owner_of (map_of after) k \<noteq> b then moved + 1 else moved) 0 before"

section \<open>The ring invariant\<close>

definition point :: "string \<Rightarrow> nat \<Rightarrow> 32 word" where
  "point n i = hash_key (vnode_key n i)"

definition points :: "hash_ring \<Rightarrow> string \<Rightarrow> 32 word set" where
  "points h n = point n ` {..<replicas h}"

definition ring_ok :: "hash_ring \<Rightarrow> bool" where
  "ring_ok h \<longleftrightarrow> sorted (ring h) \<and> distinct (ring h) \<and> dom (owners h) = set (ring h) \<and>
     set (ring h) = (\<Union>n \<in> nodes h. points h n) \<and>
     (\<forall>x n. owners h x = Some n \<longrightarrow> n \<in> nodes h \<and> x \<in> points h n) \<and>
     finite (nodes h) \<and> [] \<notin> nodes h"

text \<open>No two virtual nodes of the node set share a point of the ring.\<close>

definition collision_free :: "nat \<Rightarrow> string set \<Rightarrow> bool" where
  "collision_free r N \<longleftrightarrow> inj_on (\<lambda>(n, i). point n i) (N \<times> {..<r})"

text \<open>
  The keys of virtual nodes are distinct: \<open>#\<close> is no digit, so the last \<open>#\<close> splits a key
  into node and index again.
\<close>

lemma split_at_unique:
  assumes "xs @ c # ys = xs' @ c # ys'" and "c \<notin> set xs" and "c \<notin> set xs'"
  shows "xs = xs' \<and> ys = ys'"
proof -
  have t: "takeWhile (\<lambda>x. x \<noteq> c) (zs @ c # ws) = zs" if "c \<notin> set zs" for zs ws
    using that by (induction zs) auto
  from arg_cong [OF assms(1), of "takeWhile (\<lambda>x. x \<noteq> c)"] have "xs = xs'"
    by (simp only: t [OF assms(2)] t [OF assms(3)])
  with assms(1) show ?thesis by simp
qed

lemma dec_no_hash: "CHR ''#'' \<notin> set (rev (dec k))"
  using dec_digits [of "CHR ''#''" k] by (auto simp: is_digit_def)

lemma vnode_key_inject: "vnode_key n i = vnode_key m j \<Longrightarrow> n = m \<and> i = j"
proof -
  assume "vnode_key n i = vnode_key m j"
  then have "rev (dec i) @ CHR ''#'' # rev n = rev (dec j) @ CHR ''#'' # rev m"
    by (metis append_Cons append_Nil append_assoc rev.simps(2) rev_append rev_rev_ident vnode_key_def)
  from split_at_unique [OF this dec_no_hash dec_no_hash] show ?thesis by simp
qed

section \<open>What the loops compute\<close>

lemma add_vnodes_ring: "fst (add_vnodes n is (r, ow)) = r @ map (point n) is"
  by (induction "is" arbitrary: r ow) (simp_all add: point_def Let_def)

lemma add_vnodes_owners:
  "snd (add_vnodes n is (r, ow)) x = (if x \<in> point n ` set is then Some n else ow x)"
  by (induction "is" arbitrary: r ow) (auto simp: point_def Let_def)

lemma add_node_ring:
  "n \<notin> nodes h \<Longrightarrow> ring (add_node h n) = sort (ring h @ map (point n) [0..<replicas h])"
  by (simp add: add_node_def split_beta add_vnodes_ring)

lemma add_node_owners:
  "n \<notin> nodes h \<Longrightarrow>
     owners (add_node h n) x = (if x \<in> points h n then Some n else owners h x)"
  by (simp add: add_node_def split_beta add_vnodes_owners points_def lessThan_atLeast0)

lemma add_node_fields [simp]:
  "replicas (add_node h n) = replicas h" "nodes (add_node h n) = insert n (nodes h)"
  by (auto simp: add_node_def split_beta)

lemma owner_of_eq: "n \<noteq> [] \<Longrightarrow> owner_of ow y = n \<longleftrightarrow> ow y = Some n"
  by (auto simp: owner_of_def split: option.splits)

lemma remove_vnodes_ring:
  "distinct xs \<Longrightarrow> n \<noteq> [] \<Longrightarrow> fst (remove_vnodes n xs ow) = filter (\<lambda>x. ow x \<noteq> Some n) xs"
proof (induction xs arbitrary: ow)
  case (Cons y ys)
  then have "filter (\<lambda>x. (ow(y := None)) x \<noteq> Some n) ys = filter (\<lambda>x. ow x \<noteq> Some n) ys"
    by (intro filter_cong) auto
  with Cons show ?case by (simp add: split_beta owner_of_eq)
qed simp

lemma remove_vnodes_owners:
  "n \<noteq> [] \<Longrightarrow> distinct xs \<Longrightarrow>
     snd (remove_vnodes n xs ow) x = (if x \<in> set xs \<and> ow x = Some n then None else ow x)"
  by (induction xs arbitrary: ow) (auto simp: split_beta owner_of_eq)

lemma remove_node_fields [simp]:
  "replicas (remove_node h n) = replicas h" "nodes (remove_node h n) = nodes h - {n}"
  by (auto simp: remove_node_def split_beta)

lemma ring_ok_name: "ring_ok h \<Longrightarrow> n \<in> nodes h \<Longrightarrow> n \<noteq> []"
  by (auto simp: ring_ok_def)

lemma ring_ok_distinct: "ring_ok h \<Longrightarrow> distinct (ring h)"
  by (simp add: ring_ok_def)

lemma ring_ok_sorted: "ring_ok h \<Longrightarrow> sorted (ring h)"
  by (simp add: ring_ok_def)

lemma ring_ok_dom: "ring_ok h \<Longrightarrow> dom (owners h) = set (ring h)"
  by (simp add: ring_ok_def)

lemma ring_ok_owner: "ring_ok h \<Longrightarrow> owners h x = Some n \<Longrightarrow> n \<in> nodes h \<and> x \<in> points h n"
  by (simp add: ring_ok_def)

lemma remove_node_ring:
  assumes "ring_ok h" and "n \<in> nodes h"
  shows "ring (remove_node h n) = filter (\<lambda>x. owners h x \<noteq> Some n) (ring h)"
  using remove_vnodes_ring [OF ring_ok_distinct ring_ok_name] assms
  by (simp add: remove_node_def split_beta)

lemma remove_node_owners:
  assumes "ring_ok h" and "n \<in> nodes h"
  shows "owners (remove_node h n) x = (if owners h x = Some n then None else owners h x)"
proof -
  have "owners h x = Some n \<Longrightarrow> x \<in> set (ring h)"
    using ring_ok_dom [OF assms(1)] by blast
  then show ?thesis
    using remove_vnodes_owners [OF ring_ok_name [OF assms] ring_ok_distinct [OF assms(1)]] assms(2)
    by (auto simp: remove_node_def split_beta)
qed

section \<open>The invariant is kept\<close>

lemma ring_ok_new: "ring_ok (new_hash_ring r)"
  by (simp add: ring_ok_def new_hash_ring_def)

lemma collision_free_mono: "collision_free r N \<Longrightarrow> M \<subseteq> N \<Longrightarrow> collision_free r M"
  unfolding collision_free_def by (erule inj_on_subset) auto

lemma collision_free_points:
  assumes "collision_free (replicas h) N" and "x \<in> points h n" and "x \<in> points h m"
    and "n \<in> N" and "m \<in> N"
  shows "n = m"
proof -
  from assms obtain i j where "i < replicas h" "j < replicas h" "point n i = point m j"
    by (auto simp: points_def)
  then show ?thesis
    using assms inj_onD [of "\<lambda>(n, i). point n i" "N \<times> {..<replicas h}" "(n, i)" "(m, j)"]
    by (auto simp: collision_free_def)
qed

lemma collision_free_inj: "collision_free r N \<Longrightarrow> n \<in> N \<Longrightarrow> inj_on (point n) {..<r}"
  by (fastforce simp: collision_free_def inj_on_def)

lemma add_node_ok:
  assumes ok: "ring_ok h" and cf: "collision_free (replicas h) (insert n (nodes h))" and "n \<noteq> []"
  shows "ring_ok (add_node h n)"
proof (cases "n \<in> nodes h")
  case True
  with ok show ?thesis by (simp add: add_node_def)
next
  case False
  let ?P = "map (point n) [0..<replicas h]"
  have P: "set ?P = points h n" by (auto simp: points_def)
  have fresh: "points h n \<inter> set (ring h) = {}"
    using ok False collision_free_points [OF cf, of _ n] by (auto simp: ring_ok_def)
  have "distinct ?P"
    using collision_free_inj [OF cf, of n] by (simp add: distinct_map lessThan_atLeast0)
  then have "distinct (ring h @ ?P)"
    using ok fresh P by (auto simp: ring_ok_def)
  moreover have "points (add_node h n) m = points h m" for m by (simp add: points_def)
  ultimately show ?thesis
    using ok False fresh \<open>n \<noteq> []\<close> P
    by (auto simp: ring_ok_def add_node_ring add_node_owners dom_def split: if_splits)
qed

lemma owners_iff:
  assumes ok: "ring_ok h" and cf: "collision_free (replicas h) (nodes h)"
  shows "owners h x = Some m \<longleftrightarrow> m \<in> nodes h \<and> x \<in> points h m"
proof
  assume m: "m \<in> nodes h \<and> x \<in> points h m"
  then have "x \<in> dom (owners h)" using ok by (auto simp: ring_ok_def)
  then obtain m' where m': "owners h x = Some m'" by auto
  with ring_ok_owner [OF ok m'] m collision_free_points [OF cf, of x m m'] show "owners h x = Some m"
    by simp
qed (use ring_ok_owner [OF ok] in blast)

lemma remove_node_ok:
  assumes ok: "ring_ok h" and cf: "collision_free (replicas h) (nodes h)"
  shows "ring_ok (remove_node h n)"
proof (cases "n \<in> nodes h")
  case False
  with ok show ?thesis by (simp add: remove_node_def)
next
  case True
  note r = remove_node_ring [OF ok True] and o = remove_node_owners [OF ok True]
  have pts: "points (remove_node h n) m = points h m" for m by (simp add: points_def)
  have mem: "x \<in> set (ring h) \<longleftrightarrow> (\<exists>m. owners h x = Some m)" for x
    using ring_ok_dom [OF ok] by blast
  have set: "set (ring (remove_node h n)) = (\<Union>m \<in> nodes h - {n}. points h m)"
  proof (rule set_eqI)
    fix x
    have "x \<in> set (ring (remove_node h n)) \<longleftrightarrow> (\<exists>m. owners h x = Some m \<and> m \<noteq> n)"
      unfolding r by (auto simp: mem)
    then show "x \<in> set (ring (remove_node h n)) \<longleftrightarrow> x \<in> (\<Union>m \<in> nodes h - {n}. points h m)"
      by (auto simp: owners_iff [OF ok cf])
  qed
  have dom: "dom (owners (remove_node h n)) = set (ring (remove_node h n))"
    using mem by (auto simp: r o dom_def)
  have own: "\<forall>x m. owners (remove_node h n) x = Some m \<longrightarrow> m \<in> nodes h - {n} \<and> x \<in> points h m"
    using ring_ok_owner [OF ok] by (auto simp: o)
  have fin: "finite (nodes h - {n})" "[] \<notin> nodes h - {n}"
    using ok by (simp_all add: ring_ok_def)
  have srt: "sorted (ring (remove_node h n))" "distinct (ring (remove_node h n))"
    using ring_ok_sorted [OF ok] ring_ok_distinct [OF ok] unfolding r
    by (simp_all add: sorted_wrt_filter)
  show ?thesis
    unfolding ring_ok_def remove_node_fields pts
    by (intro conjI srt dom set own fin)
qed

section \<open>The clockwise successor\<close>

text \<open>
  What \<open>Get\<close> promises, independently of the sorted array: the first point at or after the
  key's hash, wrapping around to the smallest point.
\<close>

definition successor :: "'a::linorder set \<Rightarrow> 'a \<Rightarrow> 'a" where
  "successor S x = (if \<exists>y \<in> S. x \<le> y then Min {y \<in> S. x \<le> y} else Min S)"

lemma successor_in: "finite S \<Longrightarrow> S \<noteq> {} \<Longrightarrow> successor S x \<in> S"
proof -
  assume S: "finite S" "S \<noteq> {}"
  show "successor S x \<in> S"
  proof (cases "\<exists>y \<in> S. x \<le> y")
    case True
    then have "Min {y \<in> S. x \<le> y} \<in> {y \<in> S. x \<le> y}" using S by (intro Min_in) auto
    with True show ?thesis by (simp add: successor_def)
  next
    case False
    with S show ?thesis by (simp add: successor_def)
  qed
qed

lemma Min_union_cases:
  "finite A \<Longrightarrow> finite B \<Longrightarrow> A \<noteq> {} \<Longrightarrow> Min (A \<union> B) \<in> B \<or> Min (A \<union> B) = Min A"
  by (cases "B = {}") (auto simp: Min_Un min_def)

text \<open>More points can only take keys over; they never move a key between old points.\<close>

lemma successor_union:
  assumes "finite S" and "finite P" and "S \<noteq> {}"
  shows "successor (S \<union> P) x \<in> P \<or> successor (S \<union> P) x = successor S x"
proof -
  have split: "{y \<in> S \<union> P. x \<le> y} = {y \<in> S. x \<le> y} \<union> {y \<in> P. x \<le> y}" by auto
  show ?thesis
  proof (cases "\<exists>y \<in> S. x \<le> y")
    case True
    then have "{y \<in> S. x \<le> y} \<noteq> {}" by auto
    from Min_union_cases [OF _ _ this, of "{y \<in> P. x \<le> y}"] assms
    have "Min {y \<in> S \<union> P. x \<le> y} \<in> P \<or> Min {y \<in> S \<union> P. x \<le> y} = Min {y \<in> S. x \<le> y}"
      unfolding split by auto
    with True show ?thesis unfolding successor_def by auto
  next
    case False
    show ?thesis
    proof (cases "\<exists>y \<in> P. x \<le> y")
      case True
      then have ne: "{y \<in> P. x \<le> y} \<noteq> {}" by auto
      have "{y \<in> S. x \<le> y} = {}" using False by auto
      with True split have "successor (S \<union> P) x = Min {y \<in> P. x \<le> y}"
        by (auto simp: successor_def)
      with Min_in [OF _ ne] assms show ?thesis by auto
    next
      case F: False
      with False Min_union_cases [of S P] assms show ?thesis by (auto simp: successor_def)
    qed
  qed
qed

lemma get_node_successor:
  assumes srt: "sorted (ring h)" and ne: "ring h \<noteq> []"
  shows "get_node h k = owner_of (owners h) (successor (set (ring h)) (hash_key k))"
proof -
  let ?r = "ring h" and ?x = "hash_key k"
  define i where "i = fst (binary_search ?r ?x)"
  note bs = binary_search_spec [OF srt, where x = ?x, folded i_def]
  show ?thesis
  proof (cases "i = length ?r")
    case True
    have none: "\<not> (\<exists>y \<in> set ?r. ?x \<le> y)"
      using bs(2) unfolding True by (metis in_set_conv_nth linorder_not_less)
    have "Min (set ?r) = ?r ! 0"
      by (rule Min_eqI) (use srt ne in \<open>auto simp: in_set_conv_nth sorted_nth_mono\<close>)
    with True none ne show ?thesis
      by (simp add: get_node_def successor_def Let_def i_def [symmetric])
  next
    case False
    with bs(1) have i: "i < length ?r" by simp
    have some: "\<exists>y \<in> set ?r. ?x \<le> y" using bs(3) [of i] i by auto
    have "Min {y \<in> set ?r. ?x \<le> y} = ?r ! i"
    proof (rule Min_eqI)
      fix y assume "y \<in> {y \<in> set ?r. ?x \<le> y}"
      then obtain j where "j < length ?r" "y = ?r ! j" "?x \<le> ?r ! j"
        by (auto simp: in_set_conv_nth)
      moreover have "i \<le> j" using bs(2) [of j] calculation by (metis linorder_not_less)
      ultimately show "?r ! i \<le> y" using srt by (simp add: sorted_nth_mono)
    qed (use bs(3) [of i] i in auto)
    with False some ne show ?thesis
      by (simp add: get_node_def successor_def Let_def i_def [symmetric])
  qed
qed

section \<open>Ownership\<close>

lemma ring_ok_nonempty:
  assumes "ring_ok h" and "nodes h \<noteq> {}" and "replicas h \<noteq> 0"
  shows "ring h \<noteq> []"
proof -
  obtain n where "n \<in> nodes h" using assms by auto
  then have "point n 0 \<in> set (ring h)" using assms by (auto simp: ring_ok_def points_def)
  then show ?thesis by auto
qed

lemma get_node_owner:
  assumes ok: "ring_ok h" and "nodes h \<noteq> {}" and "replicas h \<noteq> 0"
  shows "owners h (successor (set (ring h)) (hash_key k)) = Some (get_node h k)"
    and "get_node h k \<in> nodes h"
proof -
  note ne = ring_ok_nonempty [OF assms]
  then have "successor (set (ring h)) (hash_key k) \<in> set (ring h)" by (intro successor_in) auto
  then obtain n where n: "owners h (successor (set (ring h)) (hash_key k)) = Some n"
    using ring_ok_dom [OF ok] by blast
  with get_node_successor [OF ring_ok_sorted [OF ok] ne, of k] have "get_node h k = n"
    by (simp add: owner_of_def)
  with n ring_ok_owner [OF ok n]
  show "owners h (successor (set (ring h)) (hash_key k)) = Some (get_node h k)"
    "get_node h k \<in> nodes h" by auto
qed

lemma ring_add_node: "n \<notin> nodes h \<Longrightarrow> set (ring (add_node h n)) = set (ring h) \<union> points h n"
  by (auto simp: add_node_ring points_def)

lemma ring_remove_node:
  "ring_ok h \<Longrightarrow> n \<in> nodes h \<Longrightarrow>
     set (ring h) = set (ring (remove_node h n)) \<union> {x. owners h x = Some n}"
  using ring_ok_dom by (fastforce simp: remove_node_ring)

text \<open>Adding a node never moves a key between two old nodes.\<close>

lemma add_node_disruption:
  assumes ok: "ring_ok h" and cf: "collision_free (replicas h) (insert n (nodes h))"
    and "n \<noteq> []" and "nodes h \<noteq> {}" and "replicas h \<noteq> 0"
  shows "get_node (add_node h n) k = n \<or> get_node (add_node h n) k = get_node h k"
proof (cases "n \<in> nodes h")
  case True
  then show ?thesis by (simp add: add_node_def)
next
  case False
  let ?x = "hash_key k"
  note ok' = add_node_ok [OF ok cf \<open>n \<noteq> []\<close>]
  have S: "finite (set (ring h))" "finite (points h n)" "set (ring h) \<noteq> {}"
    using ring_ok_nonempty [OF ok assms(4,5)] by (auto simp: points_def)
  have new: "owners (add_node h n) (successor (set (ring h) \<union> points h n) ?x)
      = Some (get_node (add_node h n) k)"
    using get_node_owner(1) [OF ok', of k] assms(5) ring_add_node [OF False] by simp
  from successor_union [OF S, of ?x] show ?thesis
  proof
    assume "successor (set (ring h) \<union> points h n) ?x \<in> points h n"
    with new show ?thesis by (simp add: add_node_owners [OF False])
  next
    assume eq: "successor (set (ring h) \<union> points h n) ?x = successor (set (ring h)) ?x"
    have "owners h (successor (set (ring h)) ?x) = Some (get_node h k)"
      by (rule get_node_owner(1) [OF ok assms(4,5)])
    with new eq show ?thesis by (simp add: add_node_owners [OF False] split: if_splits)
  qed
qed

text \<open>Removing a node re-homes only the keys it owned.\<close>

lemma remove_node_disruption:
  assumes ok: "ring_ok h" and cf: "collision_free (replicas h) (nodes h)"
    and "n \<in> nodes h" and "nodes h - {n} \<noteq> {}" and "replicas h \<noteq> 0" and "get_node h k \<noteq> n"
  shows "get_node (remove_node h n) k = get_node h k"
proof -
  let ?x = "hash_key k" and ?S = "set (ring (remove_node h n))" and ?P = "{x. owners h x = Some n}"
  note ok' = remove_node_ok [OF ok cf, of n]
  have ne: "nodes h \<noteq> {}" using assms(3) by auto
  have old: "owners h (successor (?S \<union> ?P) ?x) = Some (get_node h k)"
    using get_node_owner(1) [OF ok ne assms(5), of k] ring_remove_node [OF ok assms(3)] by simp
  have new: "owners (remove_node h n) (successor ?S ?x) = Some (get_node (remove_node h n) k)"
    using get_node_owner(1) [OF ok', of k] assms(4,5) by simp
  have S: "finite ?S" "finite ?P" "?S \<noteq> {}"
    using ring_ok_nonempty [OF ok'] assms(4,5)
    by (auto intro: finite_subset [OF _ finite_set [of "ring h"]] simp: ring_remove_node [OF ok assms(3)])
  have "successor (?S \<union> ?P) ?x = successor ?S ?x"
    using successor_union [OF S, of ?x] old assms(6) by auto
  with old new show ?thesis by (simp add: remove_node_owners [OF ok assms(3)] split: if_splits)
qed

section \<open>Placements and churn\<close>

lemma foldl_update:
  "map_of (foldl (\<lambda>m k. AList.update k (f k) m) al keys) k =
     (if k \<in> set keys then Some (f k) else map_of al k)"
  "distinct (map fst al) \<Longrightarrow> distinct (map fst (foldl (\<lambda>m k. AList.update k (f k) m) al keys))"
proof -
  show "map_of (foldl (\<lambda>m k. AList.update k (f k) m) al keys) k =
     (if k \<in> set keys then Some (f k) else map_of al k)"
    by (induction keys arbitrary: al) (auto simp: update_conv')
  show "distinct (map fst al) \<Longrightarrow> distinct (map fst (foldl (\<lambda>m k. AList.update k (f k) m) al keys))"
    by (induction keys arbitrary: al) (auto simp: distinct_update)
qed

lemma map_of_placement: "map_of (placement h keys) k = (if k \<in> set keys then Some (get_node h k) else None)"
  by (simp add: placement_def foldl_update(1))

lemma placement_entry: "(k, b) \<in> set (placement h keys) \<Longrightarrow> k \<in> set keys \<and> b = get_node h k"
proof -
  assume "(k, b) \<in> set (placement h keys)"
  then have "map_of (placement h keys) k = Some b"
    by (simp add: placement_def foldl_update(2))
  then show ?thesis by (simp add: map_of_placement split: if_splits)
qed

lemma placement_keys: "map fst (placement h keys) = map fst (placement h' keys)"
proof -
  have "map fst (foldl (\<lambda>m k. AList.update k (f k) m) al keys) =
      map fst (foldl (\<lambda>m k. AList.update k (g k) m) bl keys)"
    if "map fst al = map fst bl" for f g :: "string \<Rightarrow> string" and al bl
    using that by (induction keys arbitrary: al bl) (simp_all add: update_keys)
  then show ?thesis by (simp add: placement_def)
qed

lemma placement_eq_map: "placement h keys = map (\<lambda>k. (k, get_node h k)) (map fst (placement h keys))"
  by (auto simp: map_idI dest: placement_entry intro!: sym [OF map_idI])

lemma count_moved_filter:
  "count_moved before after = length (filter (\<lambda>(k, b). owner_of (map_of after) k \<noteq> b) before)"
proof -
  have "foldl (\<lambda>moved (k, b). if owner_of (map_of after) k \<noteq> b then moved + 1 else moved) a before
      = a + length (filter (\<lambda>(k, b). owner_of (map_of after) k \<noteq> b) before)" for a
    by (induction before arbitrary: a) auto
  then show ?thesis by (simp add: count_moved_def)
qed

text \<open>The keys that moved when a node joined are exactly the keys the new node owns.\<close>

lemma count_moved_add_node:
  assumes "ring_ok h" and "collision_free (replicas h) (insert n (nodes h))"
    and "n \<noteq> []" and "nodes h \<noteq> {}" and "replicas h \<noteq> 0" and "n \<notin> nodes h"
  shows "count_moved (placement h keys) (placement (add_node h n) keys) =
    length (filter (\<lambda>(k, b). b = n) (placement (add_node h n) keys))"
proof -
  define ks where "ks = map fst (placement h keys)"
  have pre: "placement h keys = map (\<lambda>k. (k, get_node h k)) ks"
    unfolding ks_def by (rule placement_eq_map)
  have post: "placement (add_node h n) keys = map (\<lambda>k. (k, get_node (add_node h n) k)) ks"
    unfolding ks_def placement_keys [of h keys "add_node h n"] by (rule placement_eq_map)
  have "owner_of (map_of (placement (add_node h n) keys)) k \<noteq> get_node h k \<longleftrightarrow>
      get_node (add_node h n) k = n" if "k \<in> set ks" for k
  proof -
    have "k \<in> set keys" using that by (auto simp: ks_def dest: placement_entry)
    then have "owner_of (map_of (placement (add_node h n) keys)) k = get_node (add_node h n) k"
      by (simp add: owner_of_def map_of_placement)
    moreover have "get_node h k \<noteq> n"
      using get_node_owner(2) [OF assms(1,4,5), of k] assms(6) by auto
    ultimately show ?thesis using add_node_disruption [OF assms(1-5), of k] by auto
  qed
  then have "filter (\<lambda>k. owner_of (map_of (placement (add_node h n) keys)) k \<noteq> get_node h k) ks =
      filter (\<lambda>k. get_node (add_node h n) k = n) ks"
    by (intro filter_cong) auto
  then have "length (filter (\<lambda>k. owner_of (map_of (placement (add_node h n) keys)) k \<noteq> get_node h k) ks) =
      length (filter (\<lambda>k. get_node (add_node h n) k = n) ks)"
    by (rule arg_cong)
  moreover have "count_moved (placement h keys) (placement (add_node h n) keys) =
      length (filter (\<lambda>k. owner_of (map_of (placement (add_node h n) keys)) k \<noteq> get_node h k) ks)"
    unfolding count_moved_filter by (subst pre) (simp add: filter_map comp_def)
  moreover have "length (filter (\<lambda>(k, b). b = n) (placement (add_node h n) keys)) =
      length (filter (\<lambda>k. get_node (add_node h n) k = n) ks)"
    by (subst post) (simp add: filter_map comp_def)
  ultimately show ?thesis by simp
qed

section \<open>Storing the keys\<close>

text \<open>
  The table \<open>kv\<close> of every node, and the loop of \<open>main\<close> that inserts each key on its owner
  (\<open>ON CONFLICT (key) DO NOTHING\<close>). An error of a statement is logged and the loop goes on;
  an owner without a pool is a nil pointer, which panics (\<open>None\<close>).
\<close>

type_synonym stores = "string \<Rightarrow> string \<rightharpoonup> string"

definition insert_kv :: "string \<Rightarrow> string \<Rightarrow> (string \<rightharpoonup> string) \<Rightarrow> (string \<rightharpoonup> string)" where
  "insert_kv k v t = (case t k of None \<Rightarrow> t(k \<mapsto> v) | Some _ \<Rightarrow> t)"

fun write_keys :: "(string \<Rightarrow> outcome) \<Rightarrow> string set \<Rightarrow> hash_ring \<Rightarrow> stores \<Rightarrow> string list \<Rightarrow> stores option"
where
  "write_keys env pools h st [] = Some st"
| "write_keys env pools h st (k # ks) =
     (let owner = get_node h k in
      if owner \<notin> pools then None
      else write_keys env pools h
             (st(owner := snd (exec (env k) (insert_kv k owner) (st owner)))) ks)"

lemma insert_kv_apply:
  "insert_kv k v t x = (if x = k \<and> t k = None then Some v else t x)"
  by (auto simp: insert_kv_def split: option.splits)

lemma write_keys_all:
  assumes "\<forall>k \<in> set keys. get_node h k \<in> pools" and "\<forall>k. env k = Done"
  shows "\<exists>st'. write_keys env pools h st keys = Some st' \<and>
    (\<forall>n k. st' n k = (if st n k = None \<and> k \<in> set keys \<and> get_node h k = n then Some n else st n k))"
  using assms(1)
proof (induction keys arbitrary: st)
  case Nil
  then show ?case by simp
next
  case (Cons k ks)
  let ?st = "st(get_node h k := insert_kv k (get_node h k) (st (get_node h k)))"
  have "\<forall>k \<in> set ks. get_node h k \<in> pools" using Cons.prems by simp
  from Cons.IH [OF this, of ?st] obtain st' where
    st': "write_keys env pools h ?st ks = Some st'" and
    spec: "\<forall>n x. st' n x =
      (if ?st n x = None \<and> x \<in> set ks \<and> get_node h x = n then Some n else ?st n x)"
    by blast
  have "write_keys env pools h st (k # ks) = Some st'"
    using st' Cons.prems assms(2) by (simp add: Let_def exec_simps)
  moreover have "st' n x =
      (if st n x = None \<and> x \<in> set (k # ks) \<and> get_node h x = n then Some n else st n x)" for n x
    using spec by (auto simp: insert_kv_apply)
  ultimately show ?case by blast
qed

text \<open>The churn figures \<open>main\<close> prints: keys moved by the ring and by modulo sharding.\<close>

definition demo_ring :: "nat \<Rightarrow> hash_ring" where
  "demo_ring vnodes =
     add_node (add_node (add_node (new_hash_ring vnodes) ''node1'') ''node2'') ''node3''"

definition demo_churn :: "nat \<Rightarrow> string list \<Rightarrow> nat \<times> nat" where
  "demo_churn vnodes keys =
     (let before = placement (demo_ring vnodes) keys;
          after = placement (add_node (demo_ring vnodes) ''node4'') keys
      in (count_moved before after,
          count_moved (modulo_placement keys 3) (modulo_placement keys 4)))"

lemma demo_ring_fields [simp]:
  "replicas (demo_ring v) = v" "nodes (demo_ring v) = {''node3'', ''node2'', ''node1''}"
  by (simp_all add: demo_ring_def new_hash_ring_def)

lemma demo_ring_ok:
  assumes "collision_free v {''node1'', ''node2'', ''node3'', ''node4''}"
  shows "ring_ok (demo_ring v)"
proof -
  let ?N = "{''node1'', ''node2'', ''node3'', ''node4''}"
  let ?h0 = "new_hash_ring v" let ?h1 = "add_node ?h0 ''node1''" let ?h2 = "add_node ?h1 ''node2''"
  have n0: "nodes ?h0 = {}" "replicas ?h0 = v" by (simp_all add: new_hash_ring_def)
  have cf: "collision_free v M" if "M \<subseteq> ?N" for M
    using collision_free_mono [OF assms that] .
  have "ring_ok ?h1" by (rule add_node_ok [OF ring_ok_new]) (simp_all add: n0 cf)
  then have "ring_ok ?h2" by (rule add_node_ok) (simp_all add: n0 cf)
  then have "ring_ok (add_node ?h2 ''node3'')" by (rule add_node_ok) (simp_all add: n0 cf)
  then show ?thesis by (simp add: demo_ring_def)
qed

section \<open>Two names with the same checksum\<close>

lemma same_checksum: "point ''plumless'' i = point ''buckeroo'' i"
proof -
  have "checksum_ieee ''plumless'' = checksum_ieee ''buckeroo''"
    by (simp add: checksum_ieee_def crc_update_def crc_byte_def crc_bit_def)
  from checksum_ieee_append_cong [OF this] show ?thesis
    by (simp only: point_def hash_key_def vnode_key_def)
qed

lemma sample_hashes:
  "point ''node1'' 0 = 1658080159" "point ''node2'' 0 = 1620243910" "hash_key ''user:176'' = 1656423842"
  by (simp_all add: point_def hash_key_def vnode_key_def checksum_ieee_def crc_update_def
      crc_byte_def crc_bit_def dec.simps digit_def)

lemma one_vnode_free: "collision_free 1 {''node1'', ''node2''}"
proof -
  have "point ''node1'' 0 \<noteq> point ''node2'' 0" by (simp add: sample_hashes)
  then show ?thesis by (auto simp: collision_free_def inj_on_def)
qed

definition one_ring :: hash_ring where
  "one_ring = add_node (new_hash_ring 1) ''node1''"

lemma one_ring_ok:
  "ring_ok one_ring" "replicas one_ring = 1" "nodes one_ring = {''node1''}"
proof -
  have cf: "collision_free 1 {''node1''}"
    by (rule collision_free_mono [OF one_vnode_free]) auto
  show "ring_ok one_ring" unfolding one_ring_def
    by (rule add_node_ok [OF ring_ok_new]) (simp_all add: new_hash_ring_def cf del: One_nat_def)
qed (simp_all add: one_ring_def new_hash_ring_def)

definition two_ring :: hash_ring where
  "two_ring = add_node one_ring ''node2''"

lemma two_ring_ok:
  "ring_ok two_ring" "replicas two_ring = 1" "nodes two_ring = {''node1'', ''node2''}"
  "collision_free 1 {''node1'', ''node2''}"
proof -
  show "ring_ok two_ring" unfolding two_ring_def
    by (rule add_node_ok) (use one_ring_ok one_vnode_free in \<open>auto simp: insert_commute\<close>)
qed (use one_ring_ok one_vnode_free in \<open>auto simp: two_ring_def insert_commute\<close>)

lemma owned_by_node1: "get_node two_ring ''user:176'' \<noteq> ''node2''"
proof -
  have pts: "points two_ring ''node1'' = {1658080159}" "points two_ring ''node2'' = {1620243910}"
    by (auto simp: points_def two_ring_ok sample_hashes)
  have "set (ring two_ring) = {1658080159, 1620243910}"
    using two_ring_ok(1) by (auto simp: ring_ok_def two_ring_ok pts)
  moreover have "{y. (y = 1658080159 \<or> y = 1620243910) \<and> 1656423842 \<le> y} = {1658080159 :: 32 word}"
    by auto
  ultimately have "owners two_ring 1658080159 = Some (get_node two_ring ''user:176'')"
    using get_node_owner(1) [OF two_ring_ok(1), of "''user:176''"]
    by (simp add: two_ring_ok successor_def sample_hashes)
  from ring_ok_owner [OF two_ring_ok(1) this] show ?thesis by (auto simp: pts)
qed

section \<open>Properties\<close>

text \<open>\<open>AddNode\<close> and \<open>RemoveNode\<close> keep the ring sorted and duplicate-free, with exactly the
  points of the current nodes, each owned by its node, as long as no two virtual nodes hash to
  the same point.\<close>

theorem ring_invariant:
  assumes "ring_ok h" and "collision_free (replicas h) (insert n (nodes h))" and "n \<noteq> []"
  shows "ring_ok (add_node h n) \<and> ring_ok (remove_node h n)"
  using add_node_ok [OF assms] remove_node_ok [OF assms(1)] collision_free_mono [OF assms(2)]
  by blast

theorem ring_invariant_witness:
  "ring_ok (add_node one_ring ''node2'') \<and> ring_ok (remove_node one_ring ''node2'')"
  by (rule ring_invariant) (use one_ring_ok one_vnode_free in \<open>auto simp: insert_commute\<close>)

text \<open>\<open>Get\<close> is total on a non-empty ring and returns the node that owns the clockwise
  successor of the key's hash among all points of all nodes.\<close>

theorem get_clockwise:
  assumes "ring_ok h" and "nodes h \<noteq> {}" and "replicas h \<noteq> 0"
  shows "get_node h k \<in> nodes h \<and>
    successor (\<Union>m \<in> nodes h. points h m) (hash_key k) \<in> points h (get_node h k)"
  using get_node_owner [OF assms, of k] ring_ok_owner [OF assms(1)] assms(1)
  by (auto simp: ring_ok_def)

theorem get_clockwise_witness:
  "get_node one_ring ''user:7'' \<in> nodes one_ring \<and>
    successor (\<Union>m \<in> nodes one_ring. points one_ring m) (hash_key ''user:7'')
      \<in> points one_ring (get_node one_ring ''user:7'')"
  by (rule get_clockwise) (simp_all add: one_ring_ok)

text \<open>C10: Adding a node re-homes exactly the keys the new node now owns (\<open>countMoved\<close> counts
  no other key), so no key moves between two old nodes.\<close>

theorem add_node_churn:
  assumes "ring_ok h" and "collision_free (replicas h) (insert n (nodes h))"
    and "n \<noteq> []" and "nodes h \<noteq> {}" and "replicas h \<noteq> 0" and "n \<notin> nodes h"
  shows "(get_node (add_node h n) k = n \<or> get_node (add_node h n) k = get_node h k) \<and>
    count_moved (placement h keys) (placement (add_node h n) keys) =
      length (filter (\<lambda>(k, b). b = n) (placement (add_node h n) keys))"
  using add_node_disruption [OF assms(1-5)] count_moved_add_node [OF assms] by blast

theorem add_node_churn_witness:
  "count_moved (placement one_ring [''user:1'', ''user:2''])
      (placement (add_node one_ring ''node2'') [''user:1'', ''user:2'']) =
    length (filter (\<lambda>(k, b). b = ''node2'')
      (placement (add_node one_ring ''node2'') [''user:1'', ''user:2'']))"
  by (rule conjunct2 [OF add_node_churn])
    (use one_ring_ok one_vnode_free in \<open>auto simp: insert_commute\<close>)

text \<open>Removing a node leaves every key that it did not own where it was.\<close>

theorem remove_node_churn:
  assumes "ring_ok h" and "collision_free (replicas h) (nodes h)"
    and "n \<in> nodes h" and "nodes h - {n} \<noteq> {}" and "replicas h \<noteq> 0" and "get_node h k \<noteq> n"
  shows "get_node (remove_node h n) k = get_node h k"
  by (rule remove_node_disruption [OF assms])

theorem remove_node_churn_witness:
  "get_node (remove_node two_ring ''node2'') ''user:176'' = get_node two_ring ''user:176''"
  by (rule remove_node_churn) (simp_all add: two_ring_ok owned_by_node1 del: One_nat_def)

text \<open>After a run of the write loop without database errors on truncated tables, every key
  is stored on the node \<open>Get\<close> names, with that name as its value, and on no other node.\<close>

theorem keys_on_their_owner:
  assumes "\<forall>k \<in> set keys. get_node h k \<in> pools" and "\<forall>k. env k = Done"
  shows "\<exists>st. write_keys env pools h (\<lambda>_. Map.empty) keys = Some st \<and>
    (\<forall>n k. st n k = (if k \<in> set keys \<and> get_node h k = n then Some n else None))"
  using write_keys_all [OF assms, of "\<lambda>_. Map.empty"] by simp

theorem keys_on_their_owner_witness:
  "\<exists>st. write_keys (\<lambda>_. Done) {''node1''} one_ring (\<lambda>_. Map.empty) [''user:1''] = Some st \<and>
    (\<forall>n k. st n k = (if k \<in> set [''user:1''] \<and> get_node one_ring k = n then Some n else None))"
  by (rule keys_on_their_owner)
    (use get_node_owner(2) [OF one_ring_ok(1)] one_ring_ok in auto)

text \<open>Without the collision hypothesis the ring breaks: two nodes whose names have the same
  checksum share every point, and removing the one that joined last leaves a point without an
  owner, so \<open>Get\<close> answers the empty string although a node is left.\<close>

theorem collision_orphans_ring:
  "let h = remove_node (add_node (add_node (new_hash_ring 1) ''plumless'') ''buckeroo'') ''buckeroo''
   in nodes h = {''plumless''} \<and> get_node h k = []"
proof -
  let ?p = "point ''buckeroo'' 0"
  have "hash_key (vnode_key ''plumless'' 0) = ?p" "hash_key (vnode_key ''buckeroo'' 0) = ?p"
    using same_checksum [of 0] by (simp_all add: point_def)
  then have "remove_node (add_node (add_node (new_hash_ring 1) ''plumless'') ''buckeroo'') ''buckeroo''
      = \<lparr>replicas = 1, ring = [?p], owners = Map.empty, nodes = {''plumless''}\<rparr>"
    by (auto simp: add_node_def remove_node_def new_hash_ring_def owner_of_def Let_def)
  then show ?thesis by (auto simp: get_node_def owner_of_def Let_def)
qed

end
