(* ===== verification/EventSourcing.thy ===== *)
theory EventSourcing
  imports GoStd
begin

text \<open>
  \<open>simulate_event_sourcing/main.go\<close>: the event store of a bank account. The tables are those
  of \<open>init/\<close>: \<open>events\<close> with \<open>UNIQUE (aggregate_id, version)\<close> and \<open>snapshots\<close> with the
  primary key \<open>(aggregate_id, version)\<close>.
\<close>

section \<open>Domain: state and events\<close>

record account =
  acc_id :: string
  owner :: string
  balance :: int
  is_open :: bool
  version :: nat

definition zero_account :: "string \<Rightarrow> account" where
  "zero_account i = \<lparr>acc_id = i, owner = [], balance = 0, is_open = False, version = 0\<rparr>"

definition apply_event :: "account \<Rightarrow> string \<Rightarrow> payload \<Rightarrow> account option" where
  "apply_event a t p =
     map_option (\<lambda>a'. a'\<lparr>version := version a' + 1\<rparr>)
       (if t = ''AccountOpened'' then
          map_option (\<lambda>s. a\<lparr>owner := s, is_open := True\<rparr>) (json_string p ''owner'')
        else if t = ''Deposited'' then
          map_option (\<lambda>n. a\<lparr>balance := wrap64 (balance a + n)\<rparr>) (json_int p ''amount'')
        else if t = ''Withdrew'' then
          map_option (\<lambda>n. a\<lparr>balance := wrap64 (balance a - n)\<rparr>) (json_int p ''amount'')
        else if t = ''AccountClosed'' then Some (a\<lparr>is_open := False\<rparr>)
        else Some a)"

section \<open>The event store\<close>

record event_row =
  aggregate :: string
  ev_version :: nat
  ev_type :: string
  ev_payload :: payload

record snapshot_row =
  snap_aggregate :: string
  snap_version :: nat
  snap_state :: account

record store =
  events :: "event_row list"
  snapshots :: "snapshot_row list"

datatype es_error =
  ErrConcurrency | DbErr db_error | AlreadyOpen string | NotOpen string | InsufficientFunds int int

fun replay :: "account \<Rightarrow> event_row list \<Rightarrow> account option" where
  "replay a [] = Some a"
| "replay a (r # rs) =
     (case apply_event a (ev_type r) (ev_payload r) of None \<Rightarrow> None | Some a' \<Rightarrow> replay a' rs)"

definition latest_snapshot :: "store \<Rightarrow> string \<Rightarrow> snapshot_row option" where
  "latest_snapshot st i =
     (case sort_key snap_version (filter (\<lambda>s. snap_aggregate s = i) (snapshots st)) of
        [] \<Rightarrow> None | s # ss \<Rightarrow> Some (last (s # ss)))"

definition events_after :: "store \<Rightarrow> string \<Rightarrow> nat \<Rightarrow> event_row list" where
  "events_after st i v =
     sort_key ev_version (filter (\<lambda>r. aggregate r = i \<and> v < ev_version r) (events st))"

text \<open>
  \<open>load\<close>: \<open>r1\<close> and \<open>r2\<close> are the outcomes of the two queries. \<open>None\<close> is a panic; an
  \<open>Inr\<close> carries the account and the number of events replayed. \<open>json.Unmarshal\<close> of a snapshot
  written by \<open>json.Marshal\<close> of an \<open>Account\<close> restores every field.
\<close>

definition load :: "outcome \<Rightarrow> outcome \<Rightarrow> store \<Rightarrow> string \<Rightarrow> (es_error + account \<times> nat) option" where
  "load r1 r2 st i =
     (case (case query r1 (latest_snapshot st i) of
              Inl NoRows \<Rightarrow> Inr (zero_account i, 0)
            | Inl e \<Rightarrow> Inl (DbErr e)
            | Inr None \<Rightarrow> Inr (zero_account i, 0)
            | Inr (Some s) \<Rightarrow> Inr (snap_state s, snap_version s)) of
        Inl e \<Rightarrow> Some (Inl e)
      | Inr (acc, from) \<Rightarrow>
          (case query r2 (events_after st i from) of
             Inl e \<Rightarrow> Some (Inl (DbErr e))
           | Inr rs \<Rightarrow> map_option (\<lambda>a. Inr (a, length rs)) (replay acc rs)))"

definition classify :: "db_error \<Rightarrow> es_error" where
  "classify e = (if e = Sqlstate ''23505'' then ErrConcurrency else DbErr e)"

definition version_taken :: "store \<Rightarrow> string \<Rightarrow> nat \<Rightarrow> bool" where
  "version_taken st i v \<longleftrightarrow> (\<exists>r \<in> set (events st). aggregate r = i \<and> ev_version r = v)"

text \<open>
  \<open>append\<close>: the server runs the INSERT at \<open>expectedVersion + 1\<close> under the UNIQUE constraint and
  answers SQLSTATE 23505 when the version is there; the program only sees the error and
  classifies it.
\<close>

definition insert_event :: "string \<Rightarrow> nat \<Rightarrow> string \<Rightarrow> payload \<Rightarrow> store \<Rightarrow> db_error option \<times> store" where
  "insert_event i v t p st =
     (if version_taken st i v then (Some (Sqlstate ''23505''), st)
      else (None, st\<lparr>events := events st @
              [\<lparr>aggregate = i, ev_version = v, ev_type = t, ev_payload = p\<rparr>]\<rparr>))"

definition send_insert :: "outcome \<Rightarrow> string \<Rightarrow> nat \<Rightarrow> string \<Rightarrow> payload \<Rightarrow> store
    \<Rightarrow> db_error option \<times> store" where
  "send_insert r i v t p st =
     (if \<not> applied r then (err_of r, st)
      else (case err_of r of None \<Rightarrow> insert_event i v t p st
            | Some e \<Rightarrow> (Some e, snd (insert_event i v t p st))))"

definition append_event :: "outcome \<Rightarrow> string \<Rightarrow> nat \<Rightarrow> string \<Rightarrow> payload \<Rightarrow> store
    \<Rightarrow> es_error option \<times> store" where
  "append_event r i expected t p st =
     (case send_insert r i (expected + 1) t p st of
        (None, st') \<Rightarrow> (None, st')
      | (Some e, st') \<Rightarrow> (Some (classify e), st'))"

lemmas append_event_simps = append_event_def send_insert_def insert_event_def

definition snapshot :: "outcome \<Rightarrow> account \<Rightarrow> store \<Rightarrow> es_error option \<times> store" where
  "snapshot r acc st =
     (map_option DbErr (err_of r),
      if applied r \<and> \<not> (\<exists>s \<in> set (snapshots st).
           snap_aggregate s = acc_id acc \<and> snap_version s = version acc)
      then st\<lparr>snapshots := snapshots st @
             [\<lparr>snap_aggregate = acc_id acc, snap_version = version acc, snap_state = acc\<rparr>]\<rparr>
      else st)"

section \<open>Commands: load, validate, append\<close>

datatype command = OpenAccount string | Deposit int | Withdraw int

text \<open>The checks each command makes on the derived state, and the event it appends.\<close>

fun decide :: "command \<Rightarrow> string \<Rightarrow> account \<Rightarrow> es_error + string \<times> payload" where
  "decide (OpenAccount own) i acc =
     (if is_open acc then Inl (AlreadyOpen i) else Inr (''AccountOpened'', [(''owner'', JString own)]))"
| "decide (Deposit n) i acc =
     (if \<not> is_open acc then Inl (NotOpen i) else Inr (''Deposited'', [(''amount'', JNumber n)]))"
| "decide (Withdraw n) i acc =
     (if \<not> is_open acc then Inl (NotOpen i)
      else if balance acc < n then Inl (InsufficientFunds (balance acc) n)
      else Inr (''Withdrew'', [(''amount'', JNumber n)]))"

definition run_command :: "outcome \<Rightarrow> outcome \<Rightarrow> outcome \<Rightarrow> command \<Rightarrow> string \<Rightarrow> store
    \<Rightarrow> (es_error option \<times> store) option" where
  "run_command r1 r2 r3 c i st =
     (case load r1 r2 st i of
        None \<Rightarrow> None
      | Some (Inl e) \<Rightarrow> Some (Some e, st)
      | Some (Inr (acc, _)) \<Rightarrow>
          (case decide c i acc of
             Inl e \<Rightarrow> Some (Some e, st)
           | Inr (t, p) \<Rightarrow> Some (append_event r3 i (version acc) t p st)))"

section \<open>The store invariant\<close>

definition log_of :: "store \<Rightarrow> string \<Rightarrow> event_row list" where
  "log_of st i = filter (\<lambda>r. aggregate r = i) (events st)"

definition state_at :: "store \<Rightarrow> string \<Rightarrow> nat \<Rightarrow> account option" where
  "state_at st i v = replay (zero_account i) (take v (log_of st i))"

definition store_ok :: "store \<Rightarrow> bool" where
  "store_ok st \<longleftrightarrow>
     (\<forall>i. map ev_version (log_of st i) = [1..<Suc (length (log_of st i))]) \<and>
     (\<forall>r \<in> set (events st). \<forall>a. apply_event a (ev_type r) (ev_payload r) \<noteq> None) \<and>
     (\<forall>s \<in> set (snapshots st). snap_version s \<le> length (log_of st (snap_aggregate s)) \<and>
        state_at st (snap_aggregate s) (snap_version s) = Some (snap_state s))"

lemma apply_event_fields:
  "apply_event a t p = Some a' \<Longrightarrow> version a' = Suc (version a) \<and> acc_id a' = acc_id a"
  by (auto simp: apply_event_def split: if_splits)

lemma replay_append:
  "replay a (xs @ ys) = (case replay a xs of None \<Rightarrow> None | Some a' \<Rightarrow> replay a' ys)"
  by (induction xs arbitrary: a) (auto split: option.splits)

lemma replay_fields:
  "replay a rs = Some a' \<Longrightarrow> version a' = version a + length rs \<and> acc_id a' = acc_id a"
  by (induction rs arbitrary: a) (fastforce dest: apply_event_fields split: option.splits)+

lemma replay_total:
  "\<forall>r \<in> set rs. \<forall>a. apply_event a (ev_type r) (ev_payload r) \<noteq> None \<Longrightarrow> \<exists>a'. replay a rs = Some a'"
  by (induction rs arbitrary: a) (auto split: option.splits)

lemma store_okD:
  assumes "store_ok st"
  shows "map ev_version (log_of st i) = [1..<Suc (length (log_of st i))]"
    and "r \<in> set (events st) \<Longrightarrow> apply_event a (ev_type r) (ev_payload r) \<noteq> None"
    and "s \<in> set (snapshots st) \<Longrightarrow> snap_version s \<le> length (log_of st (snap_aggregate s)) \<and>
        state_at st (snap_aggregate s) (snap_version s) = Some (snap_state s)"
  using assms by (auto simp: store_ok_def)

lemma log_version_nth:
  assumes "store_ok st" and "j < length (log_of st i)"
  shows "ev_version (log_of st i ! j) = Suc j"
proof -
  have "ev_version (log_of st i ! j) = map ev_version (log_of st i) ! j" using assms(2) by simp
  then show ?thesis using assms(2) unfolding store_okD(1) [OF assms(1), of i] by (simp add: nth_upt del: upt_Suc)
qed

lemma filter_versions:
  assumes "map f xs = [Suc k..<Suc k + length xs]"
  shows "filter (\<lambda>r. k + v < f r) xs = drop v xs"
  using assms
proof (induction xs arbitrary: k v)
  case Nil
  then show ?case by simp
next
  case (Cons x xs)
  then have x: "f x = Suc k" and xs: "map f xs = [Suc (Suc k)..<Suc (Suc k) + length xs]"
    by (auto simp: upt_conv_Cons simp del: upt_Suc)
  show ?case
  proof (cases v)
    case 0
    have "k < f y" if "y \<in> set xs" for y
    proof -
      have "f y \<in> set (map f xs)" using that by simp
      then have "f y \<in> set [Suc (Suc k)..<Suc (Suc k) + length xs]" unfolding xs .
      then show ?thesis by (auto simp del: upt_Suc)
    qed
    then show ?thesis using 0 x by (auto intro: filter_True)
  next
    case (Suc w)
    with Cons.IH [OF xs, of w] x show ?thesis by simp
  qed
qed

lemma events_after_drop:
  assumes "store_ok st"
  shows "events_after st i v = drop v (log_of st i)"
proof -
  have "map ev_version (log_of st i) = [Suc 0..<Suc 0 + length (log_of st i)]"
    using store_okD(1) [OF assms, of i] by simp
  from filter_versions [OF this, of v]
  have eq: "filter (\<lambda>r. aggregate r = i \<and> v < ev_version r) (events st) = drop v (log_of st i)"
    by (simp add: log_of_def conj_commute)
  have "sorted (map ev_version (log_of st i))"
    using store_okD(1) [OF assms, of i] by (metis sorted_upt)
  then have "sorted (map ev_version (drop v (log_of st i)))"
    by (simp add: drop_map [symmetric] sorted_wrt_drop)
  then show ?thesis by (simp add: events_after_def eq sort_key_id_if_sorted)
qed

lemma latest_snapshot_Some:
  "latest_snapshot st i = Some s \<Longrightarrow> s \<in> set (snapshots st) \<and> snap_aggregate s = i"
proof -
  assume a: "latest_snapshot st i = Some s"
  let ?ss = "sort_key snap_version (filter (\<lambda>s. snap_aggregate s = i) (snapshots st))"
  from a have "?ss \<noteq> []" "s = last ?ss" by (auto simp: latest_snapshot_def split: list.splits)
  then have "s \<in> set ?ss" using last_in_set by blast
  then show ?thesis by simp
qed

lemma state_at_exists:
  assumes "store_ok st"
  shows "\<exists>a. state_at st i v = Some a"
proof -
  have "\<forall>r \<in> set (take v (log_of st i)). \<forall>a. apply_event a (ev_type r) (ev_payload r) \<noteq> None"
    using store_okD(2) [OF assms] by (auto simp: log_of_def dest!: in_set_takeD)
  then show ?thesis unfolding state_at_def by (rule replay_total)
qed

lemma state_at_fields:
  "state_at st i v = Some a \<Longrightarrow> version a = min v (length (log_of st i)) \<and> acc_id a = i"
  using replay_fields [of "zero_account i"] by (fastforce simp: state_at_def zero_account_def)

text \<open>Whatever snapshot it starts from, \<open>load\<close> returns the replay of the whole log.\<close>

lemma load_full:
  assumes ok: "store_ok st"
  shows "\<exists>a k. load Done Done st i = Some (Inr (a, k)) \<and>
    state_at st i (length (log_of st i)) = Some a \<and>
    k = length (log_of st i) - (case latest_snapshot st i of None \<Rightarrow> 0 | Some s \<Rightarrow> snap_version s)"
proof -
  let ?l = "log_of st i"
  obtain a where a: "replay (zero_account i) ?l = Some a"
    using state_at_exists [OF ok, of i "length ?l"] by (auto simp: state_at_def)
  show ?thesis
  proof (cases "latest_snapshot st i")
    case None
    with a show ?thesis
      by (simp add: load_def query_simps events_after_drop [OF ok] state_at_def)
  next
    case (Some s)
    note s = latest_snapshot_Some [OF Some]
    with store_okD(3) [OF ok, of s]
    have "replay (zero_account i) (take (snap_version s) ?l) = Some (snap_state s)"
      by (simp add: state_at_def)
    then have "replay (zero_account i) (take (snap_version s) ?l @ drop (snap_version s) ?l) =
        replay (snap_state s) (drop (snap_version s) ?l)"
      unfolding replay_append by simp
    with a have "replay (snap_state s) (drop (snap_version s) ?l) = Some a" by simp
    with a Some show ?thesis
      by (simp add: load_def query_simps events_after_drop [OF ok] state_at_def)
  qed
qed

lemma load_Inr: "load r1 r2 st i = Some (Inr x) \<Longrightarrow>
    r2 = Done \<and> (r1 = Done \<or> err_of r1 = Some NoRows)"
  by (cases r1; cases r2)
    (auto simp: load_def query_def split: option.splits sum.splits db_error.splits)

lemma load_no_snapshot:
  assumes "err_of r1 = Some NoRows" and ok: "store_ok st"
  shows "load r1 Done st i = map_option (\<lambda>a. Inr (a, length (log_of st i)))
    (state_at st i (length (log_of st i)))"
  using assms by (simp add: load_def query_def events_after_drop [OF ok] state_at_def)

lemma load_state:
  assumes ok: "store_ok st" and "load r1 r2 st i = Some (Inr (a, k))"
  shows "state_at st i (length (log_of st i)) = Some a"
  using load_Inr [OF assms(2)] load_full [OF ok, of i] load_no_snapshot [OF _ ok, of r1 i] assms(2)
  by auto

section \<open>Appending keeps the invariant\<close>

lemma version_taken_iff:
  assumes "store_ok st"
  shows "version_taken st i (Suc v) \<longleftrightarrow> v < length (log_of st i)"
proof -
  have "version_taken st i (Suc v) \<longleftrightarrow> Suc v \<in> set (map ev_version (log_of st i))"
    by (force simp: version_taken_def log_of_def)
  then show ?thesis unfolding store_okD(1) [OF assms, of i] by auto
qed

definition add_event :: "store \<Rightarrow> string \<Rightarrow> nat \<Rightarrow> string \<Rightarrow> payload \<Rightarrow> store" where
  "add_event st i v t p =
     st\<lparr>events := events st @ [\<lparr>aggregate = i, ev_version = v, ev_type = t, ev_payload = p\<rparr>]\<rparr>"

lemma append_event_cases:
  assumes "store_ok st" and "v \<le> length (log_of st i)"
  shows "append_event r i v t p st =
    (if applied r \<and> v = length (log_of st i) then (map_option classify (err_of r), add_event st i (Suc v) t p)
     else (Some (classify (case err_of r of None \<Rightarrow> Sqlstate ''23505'' | Some e \<Rightarrow> e)), st))"
  using assms version_taken_iff [OF assms(1), of i v]
  by (cases r) (auto simp: append_event_simps add_event_def)

lemma log_of_add_event:
  "log_of (add_event st i v t p) j =
     (if i = j then log_of st i @ [\<lparr>aggregate = i, ev_version = v, ev_type = t, ev_payload = p\<rparr>]
      else log_of st j)"
  by (simp add: log_of_def add_event_def)

lemma state_at_add_event:
  "v \<le> length (log_of st j) \<Longrightarrow> state_at (add_event st i n t p) j v = state_at st j v"
  by (simp add: state_at_def log_of_add_event)

lemma store_ok_add_event:
  assumes ok: "store_ok st" and wt: "\<And>a. apply_event a t p \<noteq> None"
  shows "store_ok (add_event st i (Suc (length (log_of st i))) t p)"
proof -
  let ?st = "add_event st i (Suc (length (log_of st i))) t p"
  have "map ev_version (log_of ?st j) = [1..<Suc (length (log_of ?st j))]" for j
    using store_okD(1) [OF ok, of j] by (cases "i = j") (simp_all add: log_of_add_event)
  moreover have "\<forall>r \<in> set (events ?st). \<forall>a. apply_event a (ev_type r) (ev_payload r) \<noteq> None"
    using store_okD(2) [OF ok] wt by (auto simp: add_event_def)
  moreover have "snap_version s \<le> length (log_of ?st (snap_aggregate s)) \<and>
      state_at ?st (snap_aggregate s) (snap_version s) = Some (snap_state s)"
    if "s \<in> set (snapshots ?st)" for s
  proof -
    from that have "s \<in> set (snapshots st)" by (simp add: add_event_def)
    from store_okD(3) [OF ok this] show ?thesis by (auto simp: state_at_add_event log_of_add_event)
  qed
  ultimately show ?thesis by (simp add: store_ok_def)
qed

lemma apply_event_simps:
  "apply_event a ''AccountOpened'' [(''owner'', JString s)] =
     Some (a\<lparr>owner := s, is_open := True, version := version a + 1\<rparr>)"
  "apply_event a ''Deposited'' [(''amount'', JNumber n)] =
     Some (a\<lparr>balance := wrap64 (balance a + int_of_json n), version := version a + 1\<rparr>)"
  "apply_event a ''Withdrew'' [(''amount'', JNumber n)] =
     Some (a\<lparr>balance := wrap64 (balance a - int_of_json n), version := version a + 1\<rparr>)"
  by (simp_all add: apply_event_def json_string_def json_int_def)

lemma decide_events:
  assumes "decide c i acc = Inr (t, p)"
  shows "(\<exists>s. t = ''AccountOpened'' \<and> p = [(''owner'', JString s)]) \<or>
    (\<exists>n. c = Deposit n \<and> t = ''Deposited'' \<and> p = [(''amount'', JNumber n)]) \<or>
    (\<exists>n. c = Withdraw n \<and> n \<le> balance acc \<and> t = ''Withdrew'' \<and> p = [(''amount'', JNumber n)])"
  using assms by (cases c) (auto split: if_splits)

lemma decide_well_typed: "decide c i acc = Inr (t, p) \<Longrightarrow> apply_event a t p \<noteq> None"
  using decide_events [of c i acc t p] apply_event_simps [of a] by fastforce

lemma store_ok_append:
  assumes "store_ok st" and "v \<le> length (log_of st i)" and "\<And>a. apply_event a t p \<noteq> None"
  shows "store_ok (snd (append_event r i v t p st))"
  using store_ok_add_event [OF assms(1,3)] assms(1)
  by (auto simp: append_event_cases [OF assms(1,2)])

lemma snapshot_tables:
  "events (snd (snapshot r acc st)) = events st"
  "s \<in> set (snapshots (snd (snapshot r acc st))) \<Longrightarrow> s \<in> set (snapshots st) \<or>
     s = \<lparr>snap_aggregate = acc_id acc, snap_version = version acc, snap_state = acc\<rparr>"
  by (auto simp: snapshot_def split: if_splits)

lemma log_of_cong: "events st = events st' \<Longrightarrow> log_of st i = log_of st' i \<and> state_at st i v = state_at st' i v"
  by (simp add: log_of_def state_at_def)

lemma store_ok_snapshot:
  assumes ok: "store_ok st" and acc: "state_at st (acc_id acc) (version acc) = Some acc"
    and le: "version acc \<le> length (log_of st (acc_id acc))"
  shows "store_ok (snd (snapshot r acc st))"
proof -
  note same = log_of_cong [OF snapshot_tables(1) [of r acc st]]
  have "snap_version s \<le> length (log_of st (snap_aggregate s)) \<and>
      state_at st (snap_aggregate s) (snap_version s) = Some (snap_state s)"
    if "s \<in> set (snapshots (snd (snapshot r acc st)))" for s
    using snapshot_tables(2) [OF that] store_okD(3) [OF ok, of s] acc le by auto
  then show ?thesis
    using ok by (simp add: store_ok_def same snapshot_tables(1))
qed

section \<open>Concurrent clients\<close>

text \<open>
  Any number of clients run commands against one store. A client that has loaded and validated
  holds the event it is about to append; other clients may append in between. \<open>seen\<close> holds a
  state a client loaded and may later snapshot.
\<close>

record system =
  db :: store
  pend :: "nat \<Rightarrow> (string \<times> nat \<times> string \<times> payload) option"
  seen :: "nat \<Rightarrow> account option"

definition init_system :: system where
  "init_system = \<lparr>db = \<lparr>events = [], snapshots = []\<rparr>, pend = (\<lambda>_. None), seen = (\<lambda>_. None)\<rparr>"

text \<open>Amounts a real client sends: not negative, and exact as JSON numbers.\<close>

fun fair_amount :: "command \<Rightarrow> bool" where
  "fair_amount (OpenAccount _) = True"
| "fair_amount (Deposit n) = (0 \<le> n \<and> n \<le> 2 ^ 53)"
| "fair_amount (Withdraw n) = (0 \<le> n \<and> n \<le> 2 ^ 53)"

inductive es_step :: "system \<Rightarrow> system \<Rightarrow> bool" where
  validated: "load r1 r2 (db s) i = Some (Inr (acc, k)) \<Longrightarrow> decide c i acc = Inr (t, p) \<Longrightarrow>
     fair_amount c \<Longrightarrow> es_step s (s\<lparr>pend := (pend s)(cl := Some (i, version acc, t, p))\<rparr>)"
| appended: "pend s cl = Some (i, v, t, p) \<Longrightarrow>
     es_step s (s\<lparr>db := snd (append_event r i v t p (db s)), pend := (pend s)(cl := None)\<rparr>)"
| looked: "load r1 r2 (db s) i = Some (Inr (acc, k)) \<Longrightarrow>
     es_step s (s\<lparr>seen := (seen s)(cl := Some acc)\<rparr>)"
| snapped: "seen s cl = Some acc \<Longrightarrow>
     es_step s (s\<lparr>db := snd (snapshot r acc (db s))\<rparr>)"

inductive es_reachable :: "system \<Rightarrow> bool" where
  start: "es_reachable init_system"
| step: "es_reachable s \<Longrightarrow> es_step s s' \<Longrightarrow> es_reachable s'"

definition amount :: "string \<Rightarrow> event_row \<Rightarrow> int" where
  "amount t r =
     (if ev_type r = t then (case json_int (ev_payload r) ''amount'' of None \<Rightarrow> 0 | Some n \<Rightarrow> n) else 0)"

definition deposited :: "store \<Rightarrow> string \<Rightarrow> nat \<Rightarrow> int" where
  "deposited st i k = sum_list (map (amount ''Deposited'') (take k (log_of st i)))"

definition withdrawn :: "store \<Rightarrow> string \<Rightarrow> nat \<Rightarrow> int" where
  "withdrawn st i k = sum_list (map (amount ''Withdrew'') (take k (log_of st i)))"

text \<open>Every prefix of the log whose deposits fit an \<open>int64\<close> has the ledger's balance.\<close>

definition ledger_ok :: "store \<Rightarrow> bool" where
  "ledger_ok st \<longleftrightarrow> (\<forall>i.
     (\<forall>r \<in> set (log_of st i). 0 \<le> amount ''Deposited'' r \<and> 0 \<le> amount ''Withdrew'' r) \<and>
     (\<forall>k a. k \<le> length (log_of st i) \<longrightarrow> deposited st i k < 2 ^ 63 \<longrightarrow> state_at st i k = Some a \<longrightarrow>
        balance a = deposited st i k - withdrawn st i k \<and> 0 \<le> balance a))"

definition pending_ok :: "store \<Rightarrow> string \<times> nat \<times> string \<times> payload \<Rightarrow> bool" where
  "pending_ok st = (\<lambda>(i, v, t, p). v \<le> length (log_of st i) \<and>
     (\<exists>c acc. state_at st i v = Some acc \<and> decide c i acc = Inr (t, p) \<and> fair_amount c))"

definition seen_ok :: "store \<Rightarrow> account \<Rightarrow> bool" where
  "seen_ok st acc \<longleftrightarrow> version acc \<le> length (log_of st (acc_id acc)) \<and>
     state_at st (acc_id acc) (version acc) = Some acc"

definition system_ok :: "system \<Rightarrow> bool" where
  "system_ok s \<longleftrightarrow> store_ok (db s) \<and> ledger_ok (db s) \<and>
     (\<forall>cl x. pend s cl = Some x \<longrightarrow> pending_ok (db s) x) \<and>
     (\<forall>cl acc. seen s cl = Some acc \<longrightarrow> seen_ok (db s) acc)"

lemma load_seen:
  assumes ok: "store_ok st" and l: "load r1 r2 st i = Some (Inr (acc, k))"
  shows "seen_ok st acc \<and> acc_id acc = i \<and> version acc = length (log_of st i)"
  using load_state [OF assms] state_at_fields [of st i _ acc] by (fastforce simp: seen_ok_def)

lemma take_sums:
  assumes "ledger_ok st"
  shows "0 \<le> withdrawn st i k" "0 \<le> deposited st i k"
  using assms
  by (auto simp: withdrawn_def deposited_def ledger_ok_def dest!: in_set_takeD intro!: sum_list_nonneg)

lemma amount_simps:
  "amount t \<lparr>aggregate = i, ev_version = v, ev_type = t', ev_payload = [(''amount'', JNumber n)]\<rparr> =
     (if t' = t then int_of_json n else 0)"
  "t' \<noteq> t \<Longrightarrow> amount t \<lparr>aggregate = i, ev_version = v, ev_type = t', ev_payload = p\<rparr> = 0"
  by (simp_all add: amount_def json_int_def)

lemma fair_json: "0 \<le> n \<Longrightarrow> n \<le> 2 ^ 53 \<Longrightarrow> int_of_json n = n"
  by (simp add: int_of_json_exact)

lemma amounts_of_decided:
  fixes v :: nat
  assumes dec: "decide c i acc = Inr (t, p)" and fair: "fair_amount c"
    and r: "r = \<lparr>aggregate = i, ev_version = v, ev_type = t, ev_payload = p\<rparr>"
  shows "0 \<le> amount ''Deposited'' r \<and> 0 \<le> amount ''Withdrew'' r \<and>
    (0 \<le> balance acc \<longrightarrow> balance acc + amount ''Deposited'' r < 2 ^ 63 \<longrightarrow> apply_event acc t p = Some a
      \<longrightarrow> balance a = balance acc + amount ''Deposited'' r - amount ''Withdrew'' r \<and> 0 \<le> balance a)"
  using decide_events [OF dec]
proof (elim disjE exE conjE)
  fix s assume "t = ''AccountOpened''" "p = [(''owner'', JString s)]"
  then show ?thesis by (auto simp: r amount_simps apply_event_simps)
next
  fix n assume "c = Deposit n" "t = ''Deposited''" "p = [(''amount'', JNumber n)]"
  moreover from this fair have "0 \<le> n" "int_of_json n = n" by (simp_all add: fair_json)
  ultimately show ?thesis by (auto simp: r amount_simps apply_event_simps wrap64_id)
next
  fix n assume "c = Withdraw n" "n \<le> balance acc" "t = ''Withdrew''" "p = [(''amount'', JNumber n)]"
  moreover from this fair have "0 \<le> n" "int_of_json n = n" by (simp_all add: fair_json)
  ultimately show ?thesis by (auto simp: r amount_simps apply_event_simps wrap64_id)
qed

lemma ledger_okD:
  assumes "ledger_ok st"
  shows "k \<le> length (log_of st i) \<Longrightarrow> deposited st i k < 2 ^ 63 \<Longrightarrow> state_at st i k = Some a \<Longrightarrow>
      balance a = deposited st i k - withdrawn st i k \<and> 0 \<le> balance a"
    and "r \<in> set (log_of st i) \<Longrightarrow> 0 \<le> amount ''Deposited'' r \<and> 0 \<le> amount ''Withdrew'' r"
  using assms unfolding ledger_ok_def by blast+

lemma ledger_ok_add_event:
  assumes ok: "ledger_ok st" and acc: "state_at st i (length (log_of st i)) = Some acc"
    and dec: "decide c i acc = Inr (t, p)" and fair: "fair_amount c"
  shows "ledger_ok (add_event st i (Suc (length (log_of st i))) t p)"
proof -
  let ?n = "length (log_of st i)" let ?st = "add_event st i (Suc ?n) t p"
  let ?r = "\<lparr>aggregate = i, ev_version = Suc ?n, ev_type = t, ev_payload = p\<rparr>"
  note am = amounts_of_decided [OF dec fair refl, of "Suc ?n"]
  have old: "deposited ?st j k = deposited st j k \<and> withdrawn ?st j k = withdrawn st j k"
    if "k \<le> length (log_of st j)" for j k
    using that by (simp add: deposited_def withdrawn_def log_of_add_event)
  have new: "deposited ?st i (Suc ?n) = deposited st i ?n + amount ''Deposited'' ?r"
    "withdrawn ?st i (Suc ?n) = withdrawn st i ?n + amount ''Withdrew'' ?r"
    by (simp_all add: deposited_def withdrawn_def log_of_add_event)
  have st: "state_at ?st i (Suc ?n) = apply_event acc t p"
    using acc by (simp add: state_at_def log_of_add_event replay_append split: option.splits)
  have last: "balance a = deposited ?st i (Suc ?n) - withdrawn ?st i (Suc ?n) \<and> 0 \<le> balance a"
    if d: "deposited ?st i (Suc ?n) < 2 ^ 63" and a: "state_at ?st i (Suc ?n) = Some a" for a
  proof -
    have "0 \<le> amount ''Deposited'' ?r" using am by blast
    then have "deposited st i ?n < 2 ^ 63" using d by (simp add: new)
    from ledger_okD(1) [OF ok order_refl this acc]
    have b: "balance acc = deposited st i ?n - withdrawn st i ?n" "0 \<le> balance acc" by auto
    moreover have "balance acc + amount ''Deposited'' ?r < 2 ^ 63"
      using b(1) d take_sums(1) [OF ok, of i ?n] by (simp add: new)
    moreover have "apply_event acc t p = Some a" using a by (simp only: st)
    ultimately have "balance a = balance acc + amount ''Deposited'' ?r - amount ''Withdrew'' ?r \<and> 0 \<le> balance a"
      using am [of a] by blast
    then show ?thesis unfolding new b(1) by linarith
  qed
  have pos: "\<forall>r \<in> set (log_of ?st j). 0 \<le> amount ''Deposited'' r \<and> 0 \<le> amount ''Withdrew'' r" for j
    using ledger_okD(2) [OF ok] am by (auto simp: log_of_add_event)
  have "balance a = deposited ?st j k - withdrawn ?st j k \<and> 0 \<le> balance a"
    if "k \<le> length (log_of ?st j)" "deposited ?st j k < 2 ^ 63" "state_at ?st j k = Some a" for j k a
  proof (cases "k \<le> length (log_of st j)")
    case True
    then have "state_at st j k = Some a" using that(3) by (simp add: state_at_add_event)
    moreover have "deposited st j k < 2 ^ 63" using that(2) old [OF True] by simp
    ultimately show ?thesis using ledger_okD(1) [OF ok True, of a] old [OF True] by presburger
  next
    case False
    with that(1) have "j = i" "k = Suc ?n" by (auto simp: log_of_add_event split: if_splits)
    with last [of a] that(2,3) show ?thesis by simp
  qed
  with pos show ?thesis unfolding ledger_ok_def by blast
qed

lemma ok_mono_add_event:
  "pending_ok st x \<Longrightarrow> pending_ok (add_event st i v t p) x"
  "seen_ok st acc \<Longrightarrow> seen_ok (add_event st i v t p) acc"
  by (auto simp: pending_ok_def seen_ok_def state_at_add_event log_of_add_event)

lemma ok_cong_events:
  assumes "events st' = events st"
  shows "pending_ok st' x = pending_ok st x" "seen_ok st' acc = seen_ok st acc" "ledger_ok st' = ledger_ok st"
  using log_of_cong [OF assms]
  by (simp_all add: pending_ok_def seen_ok_def ledger_ok_def deposited_def withdrawn_def)

lemma system_ok_append:
  assumes ok: "system_ok s" and pd: "pend s cl = Some (i, v, t, p)"
  shows "system_ok (s\<lparr>db := snd (append_event r i v t p (db s)), pend := (pend s)(cl := None)\<rparr>)"
proof -
  from ok have store: "store_ok (db s)" and "pending_ok (db s) (i, v, t, p)"
    using pd by (auto simp: system_ok_def)
  then obtain c acc where v: "v \<le> length (log_of (db s) i)" and acc: "state_at (db s) i v = Some acc"
    and dec: "decide c i acc = Inr (t, p)" and fair: "fair_amount c"
    by (auto simp: pending_ok_def)
  show ?thesis
  proof (cases "applied r \<and> v = length (log_of (db s) i)")
    case True
    then have "snd (append_event r i v t p (db s)) = add_event (db s) i (Suc (length (log_of (db s) i))) t p"
      using append_event_cases [OF store v, of r t p] by simp
    with True ok store_ok_add_event [OF store decide_well_typed [OF dec]]
      ledger_ok_add_event [OF _ _ dec fair] acc
    show ?thesis by (auto simp: system_ok_def ok_mono_add_event)
  next
    case False
    then have "snd (append_event r i v t p (db s)) = db s"
      by (auto simp: append_event_cases [OF store v])
    with ok show ?thesis by (auto simp: system_ok_def)
  qed
qed

inductive_cases es_stepE: "es_step s s'"

lemma system_ok_step: "es_step s s' \<Longrightarrow> system_ok s \<Longrightarrow> system_ok s'"
proof (induction rule: es_step.induct)
  case (validated r1 r2 s i acc k c t p cl)
  then have "seen_ok (db s) acc \<and> acc_id acc = i \<and> version acc = length (log_of (db s) i)"
    by (auto simp: system_ok_def intro!: load_seen)
  with validated show ?case
    by (auto simp: system_ok_def pending_ok_def seen_ok_def)
next
  case (appended s cl i v t p r)
  then show ?case by (intro system_ok_append)
next
  case (looked r1 r2 s i acc k cl)
  then have "seen_ok (db s) acc" using load_seen [of "db s"] by (auto simp: system_ok_def)
  with looked show ?case by (auto simp: system_ok_def)
next
  case (snapped s cl acc r)
  then have "seen_ok (db s) acc" by (auto simp: system_ok_def)
  with snapped store_ok_snapshot [of "db s" acc r] ok_cong_events [OF snapshot_tables(1)]
  show ?case by (auto simp: system_ok_def seen_ok_def)
qed

lemma system_ok_init: "system_ok init_system"
  by (auto simp: system_ok_def init_system_def store_ok_def ledger_ok_def log_of_def state_at_def
      deposited_def withdrawn_def zero_account_def)

lemma reachable_ok: "es_reachable s \<Longrightarrow> system_ok s"
  by (induction rule: es_reachable.induct) (simp_all add: system_ok_init system_ok_step)

section \<open>The demonstration in main\<close>

text \<open>
  The scenario of \<open>main\<close> after its two DELETEs, on a server that answers every call: four
  commands, a rebuild, a refused withdrawal, a snapshot, one more deposit, a second rebuild and
  two writers that loaded the same version. The result lists what is printed: replayed events,
  balance and version of both rebuilds, the rejection, and what the two writers got.
\<close>

definition cmd :: "command \<Rightarrow> store \<Rightarrow> es_error option \<times> store" where
  "cmd c s = (case run_command Done Done Done c ''acct-1001'' s of
     None \<Rightarrow> (None, s) | Some x \<Rightarrow> x)"

definition rebuilt :: "store \<Rightarrow> account \<times> nat" where
  "rebuilt s = (case load Done Done s ''acct-1001'' of
     Some (Inr x) \<Rightarrow> x | _ \<Rightarrow> (zero_account ''acct-1001'', 0))"

definition demo_main :: "(nat \<times> int \<times> nat) \<times> es_error option \<times> (nat \<times> int \<times> nat)
    \<times> es_error option \<times> es_error option" where
  "demo_main =
     (let s0 = \<lparr>events = [], snapshots = []\<rparr>;
          s1 = snd (cmd (OpenAccount ''Alice Wong'') s0);
          s2 = snd (cmd (Deposit 10000) s1);
          s3 = snd (cmd (Deposit 5000) s2);
          s4 = snd (cmd (Withdraw 3000) s3);
          (a4, n4) = rebuilt s4;
          rejected = fst (cmd (Withdraw 999999) s4);
          s5 = snd (snapshot Done a4 s4);
          s6 = snd (cmd (Deposit 2500) s5);
          (a6, n6) = rebuilt s6;
          (wa, s7) = append_event Done ''acct-1001'' (version a6) ''Deposited''
                       [(''amount'', JNumber 100)] s6;
          (wb, s8) = append_event Done ''acct-1001'' (version a6) ''Deposited''
                       [(''amount'', JNumber 200)] s7
      in ((n4, balance a4, version a4), rejected, (n6, balance a6, version a6), wa, wb))"

section \<open>Properties\<close>

definition sample_system :: system where
  "sample_system = init_system\<lparr>db := \<lparr>events =
     [\<lparr>aggregate = ''a'', ev_version = 1, ev_type = ''AccountOpened'',
       ev_payload = [(''owner'', JString ''o'')]\<rparr>], snapshots = []\<rparr>,
     pend := (\<lambda>cl. if cl \<in> {0, 1} then
       Some (''a'', 1, ''Deposited'', [(''amount'', JNumber 5)]) else None)\<rparr>"

lemma sample_reachable: "es_reachable sample_system"
proof -
  let ?open = "init_system\<lparr>pend := (pend init_system)(0 := Some (''a'', 0, ''AccountOpened'', [(''owner'', JString ''o'')]))\<rparr>"
  let ?opened = "?open\<lparr>db := db sample_system, pend := (\<lambda>_. None)\<rparr>"
  let ?one = "?opened\<lparr>pend := (pend ?opened)(0 := Some (''a'', 1, ''Deposited'', [(''amount'', JNumber 5)]))\<rparr>"
  have l0: "load Done Done (db init_system) ''a'' = Some (Inr (zero_account ''a'', 0))"
    by (simp add: load_def init_system_def latest_snapshot_def events_after_def query_simps)
  have l1: "load Done Done (db sample_system) ''a'' = Some (Inr
      (\<lparr>acc_id = ''a'', owner = ''o'', balance = 0, is_open = True, version = 1\<rparr>, 1))"
    by (simp add: load_def sample_system_def latest_snapshot_def events_after_def query_simps
        apply_event_simps zero_account_def)
  have "es_reachable ?open"
    by (rule es_reachable.step [OF es_reachable.start])
      (use es_step.validated [OF l0, of "OpenAccount ''o''" "''AccountOpened''" _ 0] in
        \<open>simp add: zero_account_def\<close>)
  moreover have "es_step ?open ?opened"
    using es_step.appended [of ?open 0 "''a''" 0 "''AccountOpened''" "[(''owner'', JString ''o'')]" Done]
    by (simp add: append_event_simps version_taken_def init_system_def sample_system_def)
  ultimately have "es_reachable ?opened" by (rule es_reachable.step)
  moreover have "es_step ?opened ?one"
    using es_step.validated [of Done Done ?opened "''a''" _ _ "Deposit 5" "''Deposited''" "[(''amount'', JNumber 5)]" 0] l1
    by simp
  ultimately have "es_reachable ?one" by (rule es_reachable.step)
  moreover have "es_step ?one (?one\<lparr>pend := (pend ?one)(1 := Some (''a'', 1, ''Deposited'', [(''amount'', JNumber 5)]))\<rparr>)"
    using es_step.validated [of Done Done ?one "''a''" _ _ "Deposit 5" "''Deposited''" "[(''amount'', JNumber 5)]" 1] l1
    by simp
  ultimately have r: "es_reachable (?one\<lparr>pend := (pend ?one)(1 := Some (''a'', 1, ''Deposited'', [(''amount'', JNumber 5)]))\<rparr>)"
    by (rule es_reachable.step)
  moreover have "?one\<lparr>pend := (pend ?one)(1 := Some (''a'', 1, ''Deposited'', [(''amount'', JNumber 5)]))\<rparr> = sample_system"
    by (auto simp: sample_system_def init_system_def fun_eq_iff)
  ultimately show ?thesis by simp
qed

text \<open>C7: In every reachable state \<open>load\<close> returns the replay of the whole log: deleting all
  snapshots changes only the number of events replayed, never the account.\<close>

theorem snapshots_only_speed:
  assumes "es_reachable s"
  shows "\<exists>a k. load Done Done (db s) i = Some (Inr (a, k)) \<and>
    load Done Done ((db s)\<lparr>snapshots := []\<rparr>) i = Some (Inr (a, length (log_of (db s) i))) \<and>
    k \<le> length (log_of (db s) i) \<and>
    replay (zero_account i) (log_of (db s) i) = Some a"
proof -
  from reachable_ok [OF assms] have ok: "store_ok (db s)" by (simp add: system_ok_def)
  then have bare: "store_ok ((db s)\<lparr>snapshots := []\<rparr>)"
    by (simp add: store_ok_def log_of_def)
  have l: "log_of ((db s)\<lparr>snapshots := []\<rparr>) i = log_of (db s) i" by (simp add: log_of_def)
  from load_full [OF ok, of i] load_full [OF bare, of i] show ?thesis
    by (auto simp: l state_at_def latest_snapshot_def)
qed

theorem snapshots_only_speed_witness:
  "\<exists>a k. load Done Done (db sample_system) ''a'' = Some (Inr (a, k))"
  using snapshots_only_speed [OF sample_reachable, of "''a''"] by blast

text \<open>However clients interleave, crash or lose acknowledgements, the log of an account has
  the versions 1, 2, ..., n without gap or duplicate, and no event makes a reload panic.\<close>

theorem log_contiguous:
  assumes "es_reachable s"
  shows "map ev_version (log_of (db s) i) = [1..<Suc (length (log_of (db s) i))] \<and>
    load r1 r2 (db s) i \<noteq> None"
proof -
  from reachable_ok [OF assms] have ok: "store_ok (db s)" by (simp add: system_ok_def)
  have "load r1 r2 (db s) i \<noteq> None"
  proof (cases "r2 = Done \<and> (r1 = Done \<or> err_of r1 = Some NoRows)")
    case True
    then show ?thesis
      using load_full [OF ok, of i] load_no_snapshot [OF _ ok, of r1 i] state_at_exists [OF ok, of i]
      by auto
  next
    case False
    then show ?thesis
      by (cases r1; cases r2) (auto simp: load_def query_def split: option.splits sum.splits db_error.splits)
  qed
  with store_okD(1) [OF ok, of i] show ?thesis by simp
qed

theorem log_contiguous_witness:
  "map ev_version (log_of (db sample_system) ''a'') = [1..<Suc (length (log_of (db sample_system) ''a''))]"
  by (rule conjunct1 [OF log_contiguous [OF sample_reachable]])

text \<open>C6: Optimistic concurrency: when two clients validated against the same version, after an
  acknowledged append of the first the answered INSERT of the second is classified as
  ErrConcurrency and changes nothing; the log holds the first client's event alone.\<close>

theorem one_writer_wins:
  assumes "es_reachable s" and "pend s c1 = Some (i, v, t1, p1)" and "pend s c2 = Some (i, v, t2, p2)"
    and "append_event r i v t1 p1 (db s) = (None, s')"
  shows "append_event Done i v t2 p2 s' = (Some ErrConcurrency, s') \<and>
    log_of s' i = log_of (db s) i @ [\<lparr>aggregate = i, ev_version = v + 1, ev_type = t1, ev_payload = p1\<rparr>]"
proof -
  from reachable_ok [OF assms(1)] have ok: "store_ok (db s)" and "pending_ok (db s) (i, v, t1, p1)"
    using assms(2) by (auto simp: system_ok_def)
  then have v: "v \<le> length (log_of (db s) i)" by (simp add: pending_ok_def)
  from assms(4) have "v = length (log_of (db s) i)" "s' = add_event (db s) i (Suc v) t1 p1"
    by (auto simp: append_event_cases [OF ok v] split: if_splits option.splits)
  then show ?thesis
    by (auto simp: append_event_simps classify_def version_taken_def add_event_def log_of_def)
qed

theorem one_writer_wins_witness:
  "\<exists>s'. append_event Done ''a'' 1 ''Deposited'' [(''amount'', JNumber 5)] (db sample_system) = (None, s') \<and>
    append_event Done ''a'' 1 ''Deposited'' [(''amount'', JNumber 5)] s' = (Some ErrConcurrency, s')"
proof -
  obtain s' where s': "append_event Done ''a'' 1 ''Deposited'' [(''amount'', JNumber 5)] (db sample_system) = (None, s')"
    by (simp add: append_event_simps version_taken_def sample_system_def)
  with one_writer_wins [OF sample_reachable _ _ s', of 0 1] show ?thesis
    by (auto simp: sample_system_def)
qed

text \<open>C8: Under every interleaving, when all amounts clients send are between 0 and 2 to the 53rd
  and the account's total deposits are below 2 to the 63rd, its balance is deposits minus withdrawals and never
  negative: validating a withdrawal against a loaded state is safe without locks.\<close>

theorem balance_is_ledger:
  assumes "es_reachable s" and "deposited (db s) i (length (log_of (db s) i)) < 2 ^ 63"
    and "load Done Done (db s) i = Some (Inr (a, k))"
  shows "balance a = deposited (db s) i (length (log_of (db s) i)) - withdrawn (db s) i (length (log_of (db s) i))
    \<and> 0 \<le> balance a"
proof -
  from reachable_ok [OF assms(1)] have ok: "store_ok (db s)" and led: "ledger_ok (db s)"
    by (simp_all add: system_ok_def)
  from ledger_okD(1) [OF led order_refl assms(2) load_state [OF ok assms(3)]] show ?thesis .
qed

theorem balance_is_ledger_witness:
  "\<exists>a k. load Done Done (db sample_system) ''a'' = Some (Inr (a, k)) \<and> 0 \<le> balance a"
proof -
  obtain a k where l: "load Done Done (db sample_system) ''a'' = Some (Inr (a, k))"
    using reachable_ok [OF sample_reachable] load_full [of "db sample_system" "''a''"]
    by (auto simp: system_ok_def)
  have "deposited (db sample_system) ''a'' (length (log_of (db sample_system) ''a'')) < 2 ^ 63"
    by (simp add: deposited_def log_of_def sample_system_def amount_def)
  from balance_is_ledger [OF sample_reachable this l] l show ?thesis by blast
qed

text \<open>\<open>Deposit\<close> checks no sign: on a fresh account a deposit of -500 is accepted and the
  rebuilt balance is negative, which \<open>Withdraw\<close> would have refused.\<close>

theorem negative_deposit_accepted:
  "let s1 = snd (cmd (OpenAccount ''Eve'') \<lparr>events = [], snapshots = []\<rparr>);
       (err, s2) = cmd (Deposit (- 500)) s1
   in err = None \<and> balance (fst (rebuilt s2)) = - 500 \<and>
      fst (cmd (Withdraw 500) s1) = Some (InsufficientFunds 0 500)"
  by code_simp

text \<open>The demonstration of \<open>main\<close> prints: 4 events replayed to a balance of 12000 at version
  4; the large withdrawal refused; after the snapshot only 1 event replayed, balance 14500 at
  version 5; writer A commits, writer B gets ErrConcurrency.\<close>

theorem demo_main_output:
  "demo_main = ((4, 12000, 4), Some (InsufficientFunds 12000 999999), (1, 14500, 5), None, Some ErrConcurrency)"
  by code_simp

end
