(* ===== verification/Cqrs.thy ===== *)
theory Cqrs
  imports GoStd
begin

text \<open>
  \<open>simulate_cqrs/main.go\<close>: commands write a normalized store and an outbox in one transaction,
  the projector rebuilds rows of the read store from unprocessed outbox events, queries read
  that store. Identifiers drawn from a sequence are parameters (a sequence hands out any value
  not used before, in any order relative to commits); the primary keys reject taken ones.
\<close>

section \<open>The two stores\<close>

record customer =
  cust_name :: string
  cust_email :: string

record item =
  product :: string
  qty :: int
  price_cents :: int

record order =
  customer_id :: int
  status :: string
  created_at :: nat

record outbox_event =
  event_id :: int
  ev_body :: payload
  processed :: bool

record write_store =
  customers :: "int \<rightharpoonup> customer"
  orders :: "int \<rightharpoonup> order"
  order_items :: "(int \<times> item) list"
  outbox :: "outbox_event list"

record summary =
  customer_name :: string
  customer_email :: string
  item_count :: int
  total_cents :: int
  sum_status :: string
  placed_at :: nat

type_synonym read_store = "int \<rightharpoonup> summary"

section \<open>Commands\<close>

definition insert_order :: "int \<Rightarrow> int \<Rightarrow> nat \<Rightarrow> write_store \<Rightarrow> (db_error + int) \<times> write_store" where
  "insert_order oid cust now w =
     (if \<not> int4 cust then (Inl Transport, w)
      else if \<not> int4 oid then (Inl (Sqlstate ''22003''), w)
      else if orders w oid \<noteq> None then (Inl (Sqlstate ''23505''), w)
      else if customers w cust = None then (Inl (Sqlstate ''23503''), w)
      else (Inr oid, w\<lparr>orders := (orders w)
              (oid \<mapsto> \<lparr>customer_id = cust, status = ''placed'', created_at = now\<rparr>)\<rparr>))"

definition insert_item :: "int \<Rightarrow> item \<Rightarrow> write_store \<Rightarrow> (db_error + unit) \<times> write_store" where
  "insert_item oid it w =
     (if \<not> int4 (qty it) \<or> \<not> int4 (price_cents it) then (Inl Transport, w)
      else (Inr (), w\<lparr>order_items := order_items w @ [(oid, it)]\<rparr>))"

fun insert_items :: "(nat \<Rightarrow> outcome) \<Rightarrow> int \<Rightarrow> item list \<Rightarrow> write_store
    \<Rightarrow> (db_error + unit) \<times> write_store" where
  "insert_items env oid [] w = (Inr (), w)"
| "insert_items env oid (it # its) w =
     bind_tx (stmt (env 0) (insert_item oid it)) (\<lambda>_. insert_items (env \<circ> Suc) oid its) w"

definition append_event :: "int \<Rightarrow> string \<Rightarrow> int \<Rightarrow> write_store \<Rightarrow> (db_error + unit) \<times> write_store" where
  "append_event eid kind oid w =
     (if eid \<in> event_id ` set (outbox w) then (Inl (Sqlstate ''23505''), w)
      else (Inr (), w\<lparr>outbox := outbox w @ [\<lparr>event_id = eid,
              ev_body = [(''type'', JString kind), (''order_id'', JNumber oid)], processed = False\<rparr>]\<rparr>))"

text \<open>
  \<open>oid\<close> and \<open>eid\<close> are what the sequences return, \<open>now\<close> the server's clock; \<open>rb\<close>, \<open>rc\<close> and
  \<open>env\<close> the outcomes of BEGIN, COMMIT and of the statements between them.
\<close>

definition place_order :: "outcome \<Rightarrow> outcome \<Rightarrow> (nat \<Rightarrow> outcome) \<Rightarrow> int \<Rightarrow> int \<Rightarrow> nat \<Rightarrow> int \<Rightarrow> item list
    \<Rightarrow> write_store \<Rightarrow> (db_error + int) \<times> write_store" where
  "place_order rb rc env oid eid now cust its =
     begin_func rb rc
       (bind_tx (stmt (env 0) (insert_order oid cust now)) (\<lambda>oid.
        bind_tx (insert_items (env \<circ> (+) 2) oid its) (\<lambda>_.
        bind_tx (stmt (env 1) (append_event eid ''order_placed'' oid)) (\<lambda>_ w.
        (Inr oid, w)))))"

definition set_status :: "string \<Rightarrow> int \<Rightarrow> write_store \<Rightarrow> (db_error + unit) \<times> write_store" where
  "set_status s oid w =
     (if \<not> int4 oid then (Inl Transport, w)
      else (Inr (), case orders w oid of
               None \<Rightarrow> w
             | Some ord \<Rightarrow> w\<lparr>orders := (orders w)(oid \<mapsto> ord\<lparr>status := s\<rparr>)\<rparr>))"

definition update_status :: "outcome \<Rightarrow> outcome \<Rightarrow> (nat \<Rightarrow> outcome) \<Rightarrow> int \<Rightarrow> int \<Rightarrow> string
    \<Rightarrow> write_store \<Rightarrow> (db_error + unit) \<times> write_store" where
  "update_status rb rc env eid oid s =
     begin_func rb rc
       (bind_tx (stmt (env 0) (set_status s oid)) (\<lambda>_.
        stmt (env 1) (append_event eid ''order_status_changed'' oid)))"

section \<open>Projection\<close>

datatype proj_error = DbErr db_error | Malformed int

definition event_order :: "outbox_event \<Rightarrow> int option" where
  "event_order e = json_int (ev_body e) ''order_id''"

definition unprocessed :: "write_store \<Rightarrow> outbox_event list" where
  "unprocessed w = sort_key event_id (filter (\<lambda>e. \<not> processed e) (outbox w))"

fun parse_batch :: "outbox_event list \<Rightarrow> proj_error + (int \<times> int) list" where
  "parse_batch [] = Inr []"
| "parse_batch (e # es) =
     (case event_order e of
        None \<Rightarrow> Inl (Malformed (event_id e))
      | Some oid \<Rightarrow> (case parse_batch es of Inl er \<Rightarrow> Inl er | Inr b \<Rightarrow> Inr ((event_id e, oid) # b)))"

text \<open>The join and aggregation of \<open>projectOrder\<close>; a product outside INT is error 22003.\<close>

definition items_of :: "write_store \<Rightarrow> int \<Rightarrow> item list" where
  "items_of w oid = map snd (filter (\<lambda>(o', _). o' = oid) (order_items w))"

definition summary_of :: "write_store \<Rightarrow> int \<Rightarrow> db_error + summary" where
  "summary_of w oid =
     (case orders w oid of
        None \<Rightarrow> Inl NoRows
      | Some ord \<Rightarrow>
          (case customers w (customer_id ord) of
             None \<Rightarrow> Inl NoRows
           | Some cu \<Rightarrow>
               if list_ex (\<lambda>it. \<not> int4 (qty it * price_cents it)) (items_of w oid)
               then Inl (Sqlstate ''22003'')
               else Inr \<lparr>customer_name = cust_name cu, customer_email = cust_email cu,
                         item_count = int (length (items_of w oid)),
                         total_cents = (\<Sum>it \<leftarrow> items_of w oid. qty it * price_cents it),
                         sum_status = status ord, placed_at = created_at ord\<rparr>))"

definition row_fits :: "summary \<Rightarrow> bool" where
  "row_fits row \<longleftrightarrow> int4 (item_count row) \<and> int4 (total_cents row)"

text \<open>\<open>projectOrder\<close>: \<open>q\<close> and \<open>r\<close> are the outcomes of the query and of the upsert.\<close>

definition project_order :: "outcome \<Rightarrow> outcome \<Rightarrow> int \<Rightarrow> write_store \<Rightarrow> read_store
    \<Rightarrow> db_error option \<times> read_store" where
  "project_order q r oid w rd =
     (case query q (summary_of w oid) of
        Inl e \<Rightarrow> (Some e, rd)
      | Inr (Inl e) \<Rightarrow> (Some e, rd)
      | Inr (Inr row) \<Rightarrow>
          if \<not> row_fits row then (Some Transport, rd)
          else exec r (\<lambda>rd. rd(oid \<mapsto> row)) rd)"

definition mark :: "int \<Rightarrow> write_store \<Rightarrow> write_store" where
  "mark eid w = w\<lparr>outbox := map (\<lambda>e. if event_id e = eid then e\<lparr>processed := True\<rparr> else e) (outbox w)\<rparr>"

text \<open>The loop over the batch; it returns the number of events done and the error that ended it.\<close>

type_synonym event_env = "nat \<Rightarrow> outcome \<times> outcome \<times> outcome"

fun project_loop :: "event_env \<Rightarrow> nat \<Rightarrow> (int \<times> int) list \<Rightarrow> write_store \<Rightarrow> read_store
    \<Rightarrow> nat \<times> proj_error option \<times> write_store \<times> read_store" where
  "project_loop env n [] w rd = (n, None, w, rd)"
| "project_loop env n ((eid, oid) # es) w rd =
     (let (q, u, m) = env n in
      case project_order q u oid w rd of
        (Some e, rd') \<Rightarrow> (n, Some (DbErr e), w, rd')
      | (None, rd') \<Rightarrow>
          (case exec m (mark eid) w of
             (Some e, w') \<Rightarrow> (n, Some (DbErr e), w', rd')
           | (None, w') \<Rightarrow> project_loop env (Suc n) es w' rd'))"

definition project :: "outcome \<Rightarrow> event_env \<Rightarrow> write_store \<Rightarrow> read_store
    \<Rightarrow> nat \<times> proj_error option \<times> write_store \<times> read_store" where
  "project q env w rd =
     (case query q (unprocessed w) of
        Inl e \<Rightarrow> (0, Some (DbErr e), w, rd)
      | Inr rows \<Rightarrow>
          (case parse_batch rows of
             Inl e \<Rightarrow> (0, Some e, w, rd)
           | Inr batch \<Rightarrow> project_loop env 0 batch w rd))"

section \<open>Queries\<close>

definition get_order_summary :: "outcome \<Rightarrow> int \<Rightarrow> read_store \<Rightarrow> db_error + summary option" where
  "get_order_summary q oid rd =
     (case query q (rd oid) of Inl NoRows \<Rightarrow> Inr None | Inl e \<Rightarrow> Inl e | Inr s \<Rightarrow> Inr s)"

text \<open>
  The scenario of \<open>main\<close> on answering servers, with the identifiers a fresh database hands out:
  what the four queries show (items, total and status), and how many events the first call of
  \<open>Project\<close> handled.
\<close>

definition shown :: "int \<Rightarrow> read_store \<Rightarrow> (int \<times> int \<times> string) option" where
  "shown oid r = (case get_order_summary Done oid r of
     Inr (Some s) \<Rightarrow> Some (item_count s, total_cents s, sum_status s) | _ \<Rightarrow> None)"

definition demo_main :: "nat \<Rightarrow> write_store \<Rightarrow> read_store
    \<Rightarrow> (int \<times> int \<times> string) option \<times> nat \<times> (int \<times> int \<times> string) option
       \<times> (int \<times> int \<times> string) option \<times> (int \<times> int \<times> string) option" where
  "demo_main now w0 r0 =
     (let ok = (\<lambda>_. Done);
          (placed, w1) = place_order Done Done ok 1 1 now 1
            [\<lparr>product = ''Keyboard'', qty = 1, price_cents = 7999\<rparr>,
             \<lparr>product = ''Mouse'', qty = 2, price_cents = 2599\<rparr>] w0;
          before = shown 1 r0;
          (n, e, w2, r2) = project Done (\<lambda>_. (Done, Done, Done)) w1 r0;
          (u, w3) = update_status Done Done ok 2 1 ''shipped'' w2;
          (n', e', w4, r4) = project Done (\<lambda>_. (Done, Done, Done)) w3 r2
      in (before, n, shown 1 r2, shown 1 r2, shown 1 r4))"

section \<open>The system: commands and projectors that interleave\<close>

text \<open>
  A projector is somewhere in \<open>Project\<close>: it holds the rest of its batch, and for the head event
  it has fetched the row, or written it to the read store but not yet marked the event.
  A statement whose acknowledgement is lost is the statement followed by a crash.
\<close>

datatype proj_state =
    Idle
  | Batch "(int \<times> int) list"
  | Fetched summary "(int \<times> int) list"
  | Wrote "(int \<times> int) list"

record cqrs_sys =
  wr :: write_store
  rd :: read_store
  proj :: "nat \<Rightarrow> proj_state"

definition init_sys :: "(int \<rightharpoonup> customer) \<Rightarrow> cqrs_sys" where
  "init_sys cs = \<lparr>wr = \<lparr>customers = cs, orders = Map.empty, order_items = [], outbox = []\<rparr>,
     rd = Map.empty, proj = (\<lambda>_. Idle)\<rparr>"

inductive cqrs_step :: "nat \<Rightarrow> cqrs_sys \<Rightarrow> cqrs_sys \<Rightarrow> bool" for projectors :: nat where
  placing: "cqrs_step projectors s (s\<lparr>wr := snd (place_order rb rc env oid eid now cust its (wr s))\<rparr>)"
| updating: "cqrs_step projectors s (s\<lparr>wr := snd (update_status rb rc env eid oid st (wr s))\<rparr>)"
| polling: "p < projectors \<Longrightarrow> parse_batch (unprocessed (wr s)) = Inr b \<Longrightarrow>
    cqrs_step projectors s (s\<lparr>proj := (proj s)(p := Batch b)\<rparr>)"
| fetching: "p < projectors \<Longrightarrow> proj s p = Batch ((eid, oid) # es) \<Longrightarrow>
    summary_of (wr s) oid = Inr row \<Longrightarrow> row_fits row \<Longrightarrow>
    cqrs_step projectors s (s\<lparr>proj := (proj s)(p := Fetched row ((eid, oid) # es))\<rparr>)"
| upserting: "p < projectors \<Longrightarrow> proj s p = Fetched row ((eid, oid) # es) \<Longrightarrow>
    cqrs_step projectors s
      (s\<lparr>rd := (rd s)(oid \<mapsto> row), proj := (proj s)(p := Wrote ((eid, oid) # es))\<rparr>)"
| marking: "p < projectors \<Longrightarrow> proj s p = Wrote ((eid, oid) # es) \<Longrightarrow>
    cqrs_step projectors s
      (s\<lparr>wr := mark eid (wr s), proj := (proj s)(p := Batch es)\<rparr>)"
| crashing: "p < projectors \<Longrightarrow> cqrs_step projectors s (s\<lparr>proj := (proj s)(p := Idle)\<rparr>)"

inductive cqrs_reachable :: "nat \<Rightarrow> cqrs_sys \<Rightarrow> bool" for projectors :: nat where
  start: "cqrs_reachable projectors (init_sys cs)"
| step: "cqrs_reachable projectors s \<Longrightarrow> cqrs_step projectors s s' \<Longrightarrow> cqrs_reachable projectors s'"

section \<open>The outbox invariant\<close>

definition pending :: "write_store \<Rightarrow> int \<Rightarrow> int option \<Rightarrow> bool" where
  "pending w oid x \<longleftrightarrow> (\<exists>e \<in> set (outbox w).
     \<not> processed e \<and> event_order e = Some oid \<and> Some (event_id e) \<noteq> x)"

definition synced :: "write_store \<Rightarrow> read_store \<Rightarrow> int \<Rightarrow> bool" where
  "synced w r oid \<longleftrightarrow> (\<exists>row. summary_of w oid = Inr row \<and> r oid = Some row)"

definition outbox_ok :: "write_store \<Rightarrow> bool" where
  "outbox_ok w \<longleftrightarrow> distinct (map event_id (outbox w)) \<and> (\<forall>e \<in> set (outbox w). event_order e \<noteq> None)"

definition known :: "write_store \<Rightarrow> (int \<times> int) list \<Rightarrow> bool" where
  "known w es \<longleftrightarrow> (\<forall>(eid, oid) \<in> set es. \<exists>e \<in> set (outbox w). event_id e = eid \<and> event_order e = Some oid)"

fun proj_ok :: "write_store \<Rightarrow> read_store \<Rightarrow> proj_state \<Rightarrow> bool" where
  "proj_ok w r Idle \<longleftrightarrow> True"
| "proj_ok w r (Batch es) \<longleftrightarrow> known w es"
| "proj_ok w r (Fetched row es) \<longleftrightarrow> known w es \<and>
     (case es of [] \<Rightarrow> True | (eid, oid) # _ \<Rightarrow> summary_of w oid = Inr row \<or> pending w oid (Some eid))"
| "proj_ok w r (Wrote es) \<longleftrightarrow> known w es \<and>
     (case es of [] \<Rightarrow> True | (eid, oid) # _ \<Rightarrow> synced w r oid \<or> pending w oid (Some eid))"

definition sys_ok :: "cqrs_sys \<Rightarrow> bool" where
  "sys_ok s \<longleftrightarrow> outbox_ok (wr s) \<and>
     (\<forall>oid \<in> dom (orders (wr s)). synced (wr s) (rd s) oid \<or> pending (wr s) oid None) \<and>
     proj_ok (wr s) (rd s) (proj s 0)"

text \<open>What a command does to the write store, as far as the read side can tell.\<close>

definition evolves :: "int \<Rightarrow> int \<Rightarrow> write_store \<Rightarrow> write_store \<Rightarrow> bool" where
  "evolves eid oid w w' \<longleftrightarrow> w' = w \<or> (\<exists>e. outbox w' = outbox w @ [e] \<and>
     event_id e = eid \<and> eid \<notin> event_id ` set (outbox w) \<and> \<not> processed e \<and> event_order e = Some oid \<and>
     dom (orders w') \<subseteq> insert oid (dom (orders w)) \<and>
     (\<forall>o'. o' \<noteq> oid \<longrightarrow> summary_of w' o' = summary_of w o'))"

lemma event_order_body [simp]:
  "int4 oid \<Longrightarrow> event_order \<lparr>event_id = i, ev_body = [(''type'', JString k), (''order_id'', JNumber oid)],
     processed = b\<rparr> = Some oid"
  by (simp add: event_order_def json_int_def int4_json)

lemma insert_items_ok:
  assumes "insert_items env oid its w = (Inr u, w')"
  shows "\<exists>xs. w' = w\<lparr>order_items := order_items w @ map (Pair oid) xs\<rparr>"
  using assms
proof (induction its arbitrary: env w)
  case Nil
  then have "w' = w\<lparr>order_items := order_items w @ map (Pair oid) []\<rparr>" by simp
  then show ?case by blast
next
  case (Cons it its)
  then obtain w1 where "insert_item oid it w = (Inr (), w1)" "insert_items (env \<circ> Suc) oid its w1 = (Inr u, w')"
    by (auto simp: tx_simps)
  moreover from this(2) obtain xs where "w' = w1\<lparr>order_items := order_items w1 @ map (Pair oid) xs\<rparr>"
    using Cons.IH by blast
  ultimately have "w' = w\<lparr>order_items := order_items w @ map (Pair oid) (it # xs)\<rparr>"
    by (auto simp: insert_item_def split: if_splits)
  then show ?case by blast
qed

lemma summary_of_other:
  assumes "customers w' = customers w" "orders w' oid = orders w oid" "items_of w' oid = items_of w oid"
  shows "summary_of w' oid = summary_of w oid"
  unfolding summary_of_def assms ..

lemma place_order_evolves: "evolves eid oid w (snd (place_order rb rc env oid eid now cust its w))"
  unfolding place_order_def
proof (rule tx.run_relation [where R = "evolves eid oid"])
  show "evolves eid oid w w" by (simp add: evolves_def)
next
  fix x w'
  assume "bind_tx (stmt (env 0) (insert_order oid cust now)) (\<lambda>oid.
      bind_tx (insert_items (env \<circ> (+) 2) oid its) (\<lambda>_.
      bind_tx (stmt (env 1) (append_event eid ''order_placed'' oid)) (\<lambda>_ w. (Inr oid, w)))) w = (Inr x, w')"
  then obtain w1 w2 where 1: "insert_order oid cust now w = (Inr x, w1)"
    and 2: "insert_items (env \<circ> (+) 2) x its w1 = (Inr (), w2)"
    and 3: "append_event eid ''order_placed'' x w2 = (Inr (), w')"
    by (auto simp: tx_simps)
  from 1 have x: "x = oid" "int4 oid" "orders w oid = None"
    and w1: "w1 = w\<lparr>orders := (orders w)(oid \<mapsto> \<lparr>customer_id = cust, status = ''placed'', created_at = now\<rparr>)\<rparr>"
    by (auto simp: insert_order_def split: if_splits)
  from insert_items_ok [OF 2] obtain xs where
    w2: "w2 = w1\<lparr>order_items := order_items w1 @ map (Pair x) xs\<rparr>" by blast
  have keep: "items_of w' o' = items_of w o'" if "o' \<noteq> oid" for o'
    using 3 that by (auto simp: w1 w2 x append_event_def items_of_def filter_map comp_def split: if_splits)
  have "summary_of w' o' = summary_of w o'" if "o' \<noteq> oid" for o'
    using 3 that keep [OF that]
    by (intro summary_of_other) (auto simp: w1 w2 x append_event_def split: if_splits)
  then show "evolves eid oid w w'"
    using 3 x(2) by (auto simp: evolves_def append_event_def w1 w2 x(1) split: if_splits)
qed

lemma update_status_evolves: "evolves eid oid w (snd (update_status rb rc env eid oid st w))"
  unfolding update_status_def
proof (rule tx.run_relation [where R = "evolves eid oid"])
  show "evolves eid oid w w" by (simp add: evolves_def)
next
  fix x w'
  assume "bind_tx (stmt (env 0) (set_status st oid))
    (\<lambda>_. stmt (env 1) (append_event eid ''order_status_changed'' oid)) w = (Inr x, w')"
  then obtain w1 where 1: "set_status st oid w = (Inr (), w1)"
    and 2: "append_event eid ''order_status_changed'' oid w1 = (Inr (), w')"
    by (auto simp: tx_simps)
  from 1 have 4: "int4 oid" and w1: "customers w1 = customers w" "outbox w1 = outbox w"
    "order_items w1 = order_items w" "dom (orders w1) = dom (orders w)"
    "\<And>o'. o' \<noteq> oid \<Longrightarrow> orders w1 o' = orders w o'"
    by (auto simp: set_status_def split: if_splits option.splits)
  have "summary_of w' o' = summary_of w o'" if "o' \<noteq> oid" for o'
    using 2 w1 that
    by (intro summary_of_other) (auto simp: append_event_def items_of_def split: if_splits)
  then show "evolves eid oid w w'"
    using 2 4 w1(1-4) by (auto simp: evolves_def append_event_def split: if_splits)
qed

lemma evolves_pending:
  assumes "evolves k n w w'" "pending w oid x"
  shows "pending w' oid x"
  using assms by (auto simp: evolves_def pending_def)

lemma evolves_known: "evolves k n w w' \<Longrightarrow> known w es \<Longrightarrow> known w' es"
  by (fastforce simp: evolves_def known_def)

lemma evolves_or_pending:
  assumes "evolves k n w w'" and "x = None \<or> (\<exists>e \<in> set (outbox w). x = Some (event_id e))"
  shows "summary_of w' oid = summary_of w oid \<or> pending w' oid x"
  using assms by (fastforce simp: evolves_def pending_def)

lemma evolves_proj_ok:
  assumes ev: "evolves k n w w'" and ok: "proj_ok w r p"
  shows "proj_ok w' r p"
proof (cases p)
  case (Fetched row es)
  show ?thesis
  proof (cases es)
    case (Cons h t)
    obtain eid oid where h: "h = (eid, oid)" by (cases h)
    have "Some eid = None \<or> (\<exists>e \<in> set (outbox w). Some eid = Some (event_id e))"
      using ok by (auto simp: Fetched Cons h known_def)
    from evolves_or_pending [OF ev this, of oid] show ?thesis
      using ok evolves_pending [OF ev] evolves_known [OF ev] by (auto simp: Fetched Cons h)
  qed (simp add: Fetched known_def)
next
  case (Wrote es)
  show ?thesis
  proof (cases es)
    case (Cons h t)
    obtain eid oid where h: "h = (eid, oid)" by (cases h)
    have "Some eid = None \<or> (\<exists>e \<in> set (outbox w). Some eid = Some (event_id e))"
      using ok by (auto simp: Wrote Cons h known_def)
    from evolves_or_pending [OF ev this, of oid] show ?thesis
      using ok evolves_pending [OF ev] evolves_known [OF ev] by (auto simp: Wrote Cons h synced_def)
  qed (simp add: Wrote known_def)
qed (use ok evolves_known [OF ev] in simp_all)

lemma evolves_outbox_ok: "evolves k n w w' \<Longrightarrow> outbox_ok w \<Longrightarrow> outbox_ok w'"
  by (auto simp: evolves_def outbox_ok_def)

lemma evolves_sys_ok:
  assumes ev: "evolves k n (wr s) w'" and ok: "sys_ok s"
  shows "sys_ok (s\<lparr>wr := w'\<rparr>)"
proof -
  have "synced w' (rd s) oid \<or> pending w' oid None" if "oid \<in> dom (orders w')" for oid
  proof (cases "oid \<in> dom (orders (wr s))")
    case True
    with ok have "synced (wr s) (rd s) oid \<or> pending (wr s) oid None" by (simp add: sys_ok_def)
    with evolves_or_pending [OF ev, of None oid] evolves_pending [OF ev] show ?thesis
      by (auto simp: synced_def)
  next
    case False
    with that ev show ?thesis by (fastforce simp: evolves_def pending_def)
  qed
  with ok show ?thesis
    using evolves_outbox_ok [OF ev] evolves_proj_ok [OF ev] by (simp add: sys_ok_def)
qed

lemma mark_tables [simp]:
  "orders (mark eid w) = orders w" "customers (mark eid w) = customers w"
  "order_items (mark eid w) = order_items w"
  by (simp_all add: mark_def)

lemma mark_views [simp]: "items_of (mark eid w) oid = items_of w oid" "summary_of (mark eid w) = summary_of w"
proof -
  show i: "items_of (mark eid w) oid = items_of w oid" for oid by (simp add: items_of_def)
  show "summary_of (mark eid w) = summary_of w"
    by (rule ext, rule summary_of_other) (simp_all add: i)
qed

lemma mark_outbox:
  "outbox (mark eid w) = map (\<lambda>e. if event_id e = eid then e\<lparr>processed := True\<rparr> else e) (outbox w)"
  by (simp add: mark_def)

lemma mark_event [simp]:
  "event_id (if event_id e = i then e\<lparr>processed := True\<rparr> else e) = event_id e"
  "event_order (if event_id e = i then e\<lparr>processed := True\<rparr> else e) = event_order e"
  "event_order (e\<lparr>processed := b\<rparr>) = event_order e"
  by (simp_all add: event_order_def)

lemma mark_maps:
  "map event_id (outbox (mark eid w)) = map event_id (outbox w)"
  "event_order ` set (outbox (mark eid w)) = event_order ` set (outbox w)"
  "(\<lambda>e. (event_id e, event_order e)) ` set (outbox (mark eid w)) = (\<lambda>e. (event_id e, event_order e)) ` set (outbox w)"
proof -
  show "map event_id (outbox (mark eid w)) = map event_id (outbox w)" by (simp add: mark_outbox comp_def)
qed (simp_all only: mark_outbox image_set_map mark_event)

lemma ok_maps:
  "outbox_ok w \<longleftrightarrow> distinct (map event_id (outbox w)) \<and> None \<notin> event_order ` set (outbox w)"
  "known w es \<longleftrightarrow> (\<forall>(eid, oid) \<in> set es. (eid, Some oid) \<in> (\<lambda>e. (event_id e, event_order e)) ` set (outbox w))"
  by (force simp: outbox_ok_def known_def)+

lemma mark_ok [simp]: "outbox_ok (mark eid w) = outbox_ok w" "known (mark eid w) es = known w es"
  unfolding ok_maps mark_maps by simp_all

lemma known_Cons: "known w (h # es) \<Longrightarrow> known w es"
  by (simp add: known_def)

lemma mark_pending:
  "pending w o' (Some eid) \<Longrightarrow> pending (mark eid w) o' None"
  by (force simp: pending_def mark_outbox)

lemma pending_other:
  assumes "outbox_ok w" "known w ((eid, oid) # es)" "o' \<noteq> oid" "pending w o' None"
  shows "pending w o' (Some eid)"
proof -
  from assms(4) obtain e where e: "e \<in> set (outbox w)" "\<not> processed e" "event_order e = Some o'"
    by (auto simp: pending_def)
  from assms(2) obtain e' where e': "e' \<in> set (outbox w)" "event_id e' = eid" "event_order e' = Some oid"
    by (auto simp: known_def)
  have "event_id e \<noteq> event_id e'"
    using assms(1,3) e e' by (auto simp: outbox_ok_def distinct_map inj_on_def)
  with e e'(2) show ?thesis by (auto simp: pending_def)
qed

lemma mark_sys_ok:
  assumes ok: "sys_ok s" and w: "proj s 0 = Wrote ((eid, oid) # es)"
  shows "sys_ok (s\<lparr>wr := mark eid (wr s), proj := (proj s)(0 := Batch es)\<rparr>)"
proof -
  from ok have o: "outbox_ok (wr s)" and k: "known (wr s) ((eid, oid) # es)"
    and h: "synced (wr s) (rd s) oid \<or> pending (wr s) oid (Some eid)"
    using w by (simp_all add: sys_ok_def)
  have "synced (mark eid (wr s)) (rd s) o' \<or> pending (mark eid (wr s)) o' None"
    if "o' \<in> dom (orders (wr s))" for o'
  proof -
    have "synced (wr s) (rd s) o' \<or> pending (wr s) o' (Some eid)"
      using that ok h pending_other [OF o k] by (cases "o' = oid") (auto simp: sys_ok_def)
    then show ?thesis using mark_pending by (auto simp: synced_def)
  qed
  with o known_Cons [OF k] show ?thesis by (simp add: sys_ok_def)
qed

lemma parse_batch_event:
  "parse_batch es = Inr b \<Longrightarrow> (eid, oid) \<in> set b \<Longrightarrow> \<exists>e \<in> set es. event_id e = eid \<and> event_order e = Some oid"
  by (induction es arbitrary: b) (auto split: option.splits sum.splits)

lemma unprocessed_set: "set (unprocessed w) = {e \<in> set (outbox w). \<not> processed e}"
  by (auto simp: unprocessed_def)

lemma poll_known: "parse_batch (unprocessed w) = Inr b \<Longrightarrow> known w b"
  by (auto simp: known_def dest!: parse_batch_event simp: unprocessed_set)

inductive_cases cqrs_stepE: "cqrs_step projectors s s'"

lemma sys_ok_step:
  assumes "cqrs_step 1 s s'" and ok: "sys_ok s"
  shows "sys_ok s'"
  using assms(1)
proof (cases rule: cqrs_step.cases)
  case placing
  then show ?thesis using evolves_sys_ok [OF place_order_evolves ok] by simp
next
  case updating
  then show ?thesis using evolves_sys_ok [OF update_status_evolves ok] by simp
next
  case (polling p b)
  then show ?thesis using ok poll_known by (simp add: sys_ok_def)
next
  case (fetching p eid oid es row)
  then show ?thesis using ok by (simp add: sys_ok_def)
next
  case (upserting p row eid oid es)
  with ok have k: "known (wr s) ((eid, oid) # es)"
    and h: "summary_of (wr s) oid = Inr row \<or> pending (wr s) oid (Some eid)"
    by (simp_all add: sys_ok_def)
  have "synced (wr s) ((rd s)(oid \<mapsto> row)) o' \<or> pending (wr s) o' None"
    if "o' \<in> dom (orders (wr s))" for o'
    using that ok h by (cases "o' = oid") (auto simp: sys_ok_def synced_def pending_def)
  with upserting ok k h show ?thesis by (auto simp: sys_ok_def synced_def)
next
  case (marking p eid oid es)
  then show ?thesis using mark_sys_ok [OF ok] by simp
next
  case (crashing p)
  then show ?thesis using ok by (simp add: sys_ok_def)
qed

lemma cqrs_reachable_ok: "cqrs_reachable 1 s \<Longrightarrow> sys_ok s"
proof (induction rule: cqrs_reachable.induct)
  case (start cs)
  show ?case by (simp add: sys_ok_def init_sys_def outbox_ok_def)
next
  case (step s s')
  then show ?case using sys_ok_step by blast
qed

section \<open>Runs of the projector\<close>

definition deliver_row :: "write_store \<Rightarrow> int \<Rightarrow> read_store \<Rightarrow> read_store" where
  "deliver_row w oid r = (case summary_of w oid of Inl _ \<Rightarrow> r | Inr row \<Rightarrow> r(oid \<mapsto> row))"

definition row_delivered :: "write_store \<Rightarrow> int \<Rightarrow> read_store \<Rightarrow> bool" where
  "row_delivered w oid r = (case summary_of w oid of Inl _ \<Rightarrow> True | Inr row \<Rightarrow> r oid = Some row)"

text \<open>The upsert of \<open>projectOrder\<close> is a sink that tolerates redelivery.\<close>

interpretation feed: at_least_once "deliver_row w" "row_delivered w" for w
  by unfold_locales (auto simp: deliver_row_def row_delivered_def split: sum.splits)

definition marks :: "int list \<Rightarrow> write_store \<Rightarrow> write_store" where
  "marks ids w = foldl (\<lambda>w i. mark i w) w ids"

definition poison :: "write_store \<Rightarrow> int \<Rightarrow> bool" where
  "poison w oid = (case summary_of w oid of Inl _ \<Rightarrow> True | Inr row \<Rightarrow> \<not> row_fits row)"

definition all_done :: event_env where
  "all_done = (\<lambda>_. (Done, Done, Done))"

lemma marks_simps [simp]:
  "marks [] w = w" "marks (i # is) w = marks is (mark i w)"
  by (simp_all add: marks_def)

lemma marks_views [simp]:
  "summary_of (marks is w) = summary_of w" "orders (marks is w) = orders w"
  by (induction "is" arbitrary: w) simp_all

lemma deliver_mark: "deliver_row (mark i w) = deliver_row w"
  by (simp add: deliver_row_def fun_eq_iff)

lemma deliver_all_mark: "feed.deliver_all (mark i w) = feed.deliver_all w"
  by (simp add: feed.deliver_all_def fun_eq_iff deliver_mark)

lemma deliver_all_marks: "feed.deliver_all (marks is w) = feed.deliver_all w"
  by (induction "is" arbitrary: w) (simp_all add: deliver_all_mark)

lemma poison_mark [simp]: "poison (mark i w) = poison w" "poison (marks is w) = poison w"
  by (simp_all add: poison_def fun_eq_iff)

lemma project_order_cases:
  assumes "project_order q r oid w s = (er, s')"
  shows "s' = s \<or> s' = deliver_row w oid s"
    and "er = None \<Longrightarrow> \<not> poison w oid \<and> s' = deliver_row w oid s"
  using assms
  by (cases r; auto simp: project_order_def deliver_row_def poison_def query_def exec_simps
      split: option.splits sum.splits if_splits)+

lemma project_order_done:
  "\<not> poison w oid \<Longrightarrow> project_order Done Done oid w s = (None, deliver_row w oid s)"
  by (auto simp: project_order_def deliver_row_def poison_def tx_simps split: sum.splits)

text \<open>Every run, disturbed or not, marks a prefix of its batch and delivers a longer prefix.\<close>

lemma project_loop_trace:
  "project_loop env n b w s = (k, er, w', s') \<Longrightarrow>
   \<exists>m m'. m \<le> m' \<and> w' = marks (take m (map fst b)) w \<and>
     s' = feed.deliver_all w s (take m' (map snd b)) \<and>
     (er = None \<longrightarrow> length b \<le> m \<and> (\<forall>(_, oid) \<in> set b. \<not> poison w oid))"
proof (induction b arbitrary: n w s)
  case Nil
  then show ?case by (intro exI [of _ 0]) auto
next
  case (Cons h b)
  obtain eid oid where h: "h = (eid, oid)" by (cases h)
  obtain q u m where e: "env n = (q, u, m)" by (cases "env n")
  obtain er1 s1 where p: "project_order q u oid w s = (er1, s1)" by (cases "project_order q u oid w s")
  have one: "s1 = feed.deliver_all w s (take 0 (map snd (h # b))) \<or>
      s1 = feed.deliver_all w s (take 1 (map snd (h # b)))"
    using project_order_cases(1) [OF p] by (simp add: h)
  show ?case
  proof (cases er1)
    case (Some x)
    with Cons.prems e p have "er \<noteq> None" "w' = marks (take 0 (map fst (h # b))) w" "s' = s1"
      by (auto simp: h)
    with one show ?thesis by blast
  next
    case None
    with project_order_cases(2) [OF p] have np: "\<not> poison w oid" and s1: "s1 = deliver_row w oid s" by auto
    show ?thesis
    proof (cases "err_of m")
      case (Some x)
      with Cons.prems e p None have er: "er \<noteq> None" "s' = feed.deliver_all w s (take 1 (map snd (h # b)))"
        and "w' = marks (take 0 (map fst (h # b))) w \<or> w' = marks (take 1 (map fst (h # b))) w"
        by (auto simp: h s1 exec_def)
      then show ?thesis by (metis le_numeral_extra(4) zero_le)
    next
      case None
      with Cons.prems e p \<open>er1 = None\<close> have "project_loop env (Suc n) b (mark eid w) s1 = (k, er, w', s')"
        by (simp add: h exec_def)
      from Cons.IH [OF this] obtain i i' where "i \<le> i'" "w' = marks (take i (map fst b)) (mark eid w)"
        "s' = feed.deliver_all w s1 (take i' (map snd b))"
        "er = None \<longrightarrow> length b \<le> i \<and> (\<forall>(_, oid) \<in> set b. \<not> poison w oid)"
        by (auto simp: deliver_all_mark)
      then show ?thesis using np
        by (intro exI [of _ "Suc i"] exI [of _ "Suc i'"]) (auto simp: h s1)
    qed
  qed
qed

lemma project_loop_done:
  "\<forall>(_, oid) \<in> set b. \<not> poison w oid \<Longrightarrow> project_loop all_done n b w s =
     (n + length b, None, marks (map fst b) w, feed.deliver_all w s (map snd b))"
  by (induction b arbitrary: n w s)
    (auto simp: all_done_def project_order_done exec_simps deliver_all_mark)

lemma parse_batch_fst: "parse_batch es = Inr b \<Longrightarrow> map fst b = map event_id es \<and> map (Some \<circ> snd) b = map event_order es"
  by (induction es arbitrary: b) (auto split: option.splits sum.splits)

lemma parse_batch_drop: "parse_batch es = Inr b \<Longrightarrow> parse_batch (drop m es) = Inr (drop m b)"
proof (induction es arbitrary: b m)
  case (Cons e es)
  then show ?case by (cases m) (auto split: option.splits sum.splits)
qed simp

lemma parse_batch_ok: "None \<notin> event_order ` set es \<Longrightarrow> \<exists>b. parse_batch es = Inr b"
  by (induction es) (auto split: option.splits)

lemma filter_marked:
  "filter (\<lambda>e. \<not> processed e) (map (\<lambda>e. if event_id e = i then e\<lparr>processed := True\<rparr> else e) es) =
   filter (\<lambda>e. event_id e \<noteq> i) (filter (\<lambda>e. \<not> processed e) es)"
  by (induction es) simp_all

lemma unprocessed_mark: "unprocessed (mark i w) = filter (\<lambda>e. event_id e \<noteq> i) (unprocessed w)"
  unfolding unprocessed_def mark_outbox filter_marked by (simp only: filter_sort)

lemma unprocessed_marks: "unprocessed (marks is w) = filter (\<lambda>e. event_id e \<notin> set is) (unprocessed w)"
  by (induction "is" arbitrary: w) (simp_all add: unprocessed_mark conj_commute)

lemma unprocessed_distinct: "outbox_ok w \<Longrightarrow> distinct (map event_id (unprocessed w))"
  by (auto simp: outbox_ok_def unprocessed_def distinct_map distinct_sort inj_on_def)

lemma rest_of_batch:
  assumes ok: "outbox_ok w" and b: "parse_batch (unprocessed w) = Inr b"
  shows "parse_batch (unprocessed (marks (take m (map fst b)) w)) = Inr (drop m b)"
proof -
  have "unprocessed (marks (take m (map fst b)) w) = drop m (unprocessed w)"
    using parse_batch_fst [OF b] unprocessed_distinct [OF ok]
    by (simp add: unprocessed_marks filter_notin_take)
  with parse_batch_drop [OF b] show ?thesis by simp
qed

section \<open>Properties\<close>

definition shop :: cqrs_sys where
  "shop = init_sys [1 \<mapsto> \<lparr>cust_name = ''Alice Wong'', cust_email = ''alice@example.com''\<rparr>]"

definition keyboard_order :: "int \<Rightarrow> int \<Rightarrow> write_store \<Rightarrow> write_store" where
  "keyboard_order oid eid w = snd (place_order Done Done (\<lambda>_. Done) oid eid 0 1
     [\<lparr>product = ''Keyboard'', qty = 1, price_cents = 7999\<rparr>, \<lparr>product = ''Mouse'', qty = 2, price_cents = 2599\<rparr>] w)"

lemma shop_order:
  "rd shop = Map.empty"
  "keyboard_order 1 1 (wr shop) =
     \<lparr>customers = [1 \<mapsto> \<lparr>cust_name = ''Alice Wong'', cust_email = ''alice@example.com''\<rparr>],
      orders = [1 \<mapsto> \<lparr>customer_id = 1, status = ''placed'', created_at = 0\<rparr>],
      order_items = [(1, \<lparr>product = ''Keyboard'', qty = 1, price_cents = 7999\<rparr>),
                     (1, \<lparr>product = ''Mouse'', qty = 2, price_cents = 2599\<rparr>)],
      outbox = [\<lparr>event_id = 1, ev_body = [(''type'', JString ''order_placed''), (''order_id'', JNumber 1)],
                 processed = False\<rparr>]\<rparr>"
  by (simp_all add: shop_def init_sys_def keyboard_order_def place_order_def begin_func_Done bind_tx_def
      stmt_Done insert_order_def insert_item_def append_event_def int4_def comp_def)

lemma shop_reachable: "cqrs_reachable n (shop\<lparr>wr := keyboard_order 1 1 (wr shop)\<rparr>)"
  unfolding keyboard_order_def
  by (rule cqrs_reachable.step [OF _ cqrs_step.placing]) (simp add: shop_def cqrs_reachable.start)

text \<open>C2: With one projector, whatever commands, crashes and lost acknowledgements happen, an order
  whose read-model row is missing or out of date still has an unprocessed outbox event.\<close>

theorem stale_row_has_event:
  assumes "cqrs_reachable 1 s" and "oid \<in> dom (orders (wr s))"
    and stale: "\<nexists>row. summary_of (wr s) oid = Inr row \<and> get_order_summary Done oid (rd s) = Inr (Some row)"
  shows "\<exists>e \<in> set (unprocessed (wr s)). event_order e = Some oid"
proof -
  from cqrs_reachable_ok [OF assms(1)] assms(2)
  have "synced (wr s) (rd s) oid \<or> pending (wr s) oid None" by (simp add: sys_ok_def)
  with stale show ?thesis
    by (auto simp: synced_def pending_def unprocessed_set get_order_summary_def query_simps)
qed

theorem stale_row_has_event_witness:
  "\<exists>e \<in> set (unprocessed (keyboard_order 1 1 (wr shop))). event_order e = Some 1"
  using stale_row_has_event [OF shop_reachable, of 1]
  by (simp add: shop_order get_order_summary_def query_simps)

text \<open>C14: From every reachable state one call of \<open>Project\<close> on answering servers drains the outbox,
  unless some event is for an order that has no projectable row; then every order is served as
  the join over the write store computes it.\<close>

theorem project_drains:
  assumes "cqrs_reachable 1 s"
    and "\<forall>e \<in> set (unprocessed (wr s)). \<forall>oid. event_order e = Some oid \<longrightarrow> \<not> poison (wr s) oid"
  shows "\<exists>w r. project Done all_done (wr s) (rd s) = (length (unprocessed (wr s)), None, w, r) \<and>
    unprocessed w = [] \<and> orders w = orders (wr s) \<and>
    (\<forall>oid \<in> dom (orders w). \<exists>row. summary_of w oid = Inr row \<and> get_order_summary Done oid r = Inr (Some row))"
proof -
  from cqrs_reachable_ok [OF assms(1)] have ok: "outbox_ok (wr s)"
    and row: "\<And>oid. oid \<in> dom (orders (wr s)) \<Longrightarrow> synced (wr s) (rd s) oid \<or> pending (wr s) oid None"
    by (simp_all add: sys_ok_def)
  from ok parse_batch_ok [of "unprocessed (wr s)"] obtain b where b: "parse_batch (unprocessed (wr s)) = Inr b"
    by (force simp: outbox_ok_def unprocessed_set)
  let ?w = "marks (map fst b) (wr s)" let ?r = "feed.deliver_all (wr s) (rd s) (map snd b)"
  have np: "\<not> poison (wr s) oid" if "(eid, oid) \<in> set b" for eid oid
    using parse_batch_event [OF b that] assms(2) by blast
  have len: "length b = length (unprocessed (wr s))"
    using parse_batch_fst [OF b] by (metis length_map)
  have run: "project Done all_done (wr s) (rd s) = (length (unprocessed (wr s)), None, ?w, ?r)"
    using project_loop_done [of b "wr s" 0 "rd s"] np len by (auto simp: project_def query_simps b)
  have empty: "unprocessed ?w = []"
    using parse_batch_fst [OF b] by (auto simp: unprocessed_marks filter_empty_conv)
  have del: "row_delivered (wr s) oid ?r" if "pending (wr s) oid None" for oid
  proof -
    from that have "Some oid \<in> set (map event_order (unprocessed (wr s)))"
      by (force simp: pending_def unprocessed_set)
    then have "Some oid \<in> set (map (Some \<circ> snd) b)"
      using parse_batch_fst [OF b] by simp
    then have "oid \<in> set (map snd b)" by auto
    then show ?thesis by (rule feed.all_delivered)
  qed
  have "synced (wr s) ?r oid" if "oid \<in> dom (orders (wr s))" for oid
    using row [OF that]
  proof
    assume "synced (wr s) (rd s) oid"
    then obtain x where x: "summary_of (wr s) oid = Inr x" "rd s oid = Some x" by (auto simp: synced_def)
    then have "row_delivered (wr s) oid ?r"
      by (intro feed.delivered_stays) (simp add: row_delivered_def)
    with x show ?thesis by (simp add: synced_def row_delivered_def)
  next
    assume p: "pending (wr s) oid None"
    then obtain e where "e \<in> set (unprocessed (wr s))" "event_order e = Some oid"
      by (auto simp: pending_def unprocessed_set)
    with assms(2) del [OF p] show ?thesis
      by (auto simp: synced_def row_delivered_def poison_def split: sum.splits)
  qed
  with run empty show ?thesis
    by (force simp: synced_def get_order_summary_def query_simps)
qed

theorem project_drains_witness:
  "\<exists>w r. project Done all_done (keyboard_order 1 1 (wr shop)) Map.empty = (1, None, w, r)"
proof -
  let ?s = "shop\<lparr>wr := keyboard_order 1 1 (wr shop)\<rparr>"
  have u: "unprocessed (keyboard_order 1 1 (wr shop)) = [\<lparr>event_id = 1,
      ev_body = [(''type'', JString ''order_placed''), (''order_id'', JNumber 1)], processed = False\<rparr>]"
    by (simp add: shop_order unprocessed_def)
  have "\<forall>e \<in> set (unprocessed (wr ?s)). \<forall>oid. event_order e = Some oid \<longrightarrow> \<not> poison (wr ?s) oid"
    by (simp add: u) (simp add: int4_def shop_order poison_def summary_of_def items_of_def row_fits_def)
  from project_drains [OF shop_reachable this] show ?thesis
    by (auto simp: u shop_order(1))
qed

text \<open>C15: A run of \<open>Project\<close> that is interrupted anywhere, by an error or a lost acknowledgement, and
  then repeated leaves both stores exactly as one undisturbed run would have.\<close>

theorem retry_equals_undisturbed:
  assumes "outbox_ok w"
    and "project q env w r = (k, er, w1, r1)"
    and "project Done all_done w r = (n, None, w2, r2)"
  shows "\<exists>n'. project Done all_done w1 r1 = (n', None, w2, r2)"
proof -
  from parse_batch_ok [of "unprocessed w"] assms(1) obtain b where b: "parse_batch (unprocessed w) = Inr b"
    by (force simp: outbox_ok_def unprocessed_set)
  have loop: "project_loop all_done 0 b w r = (n, None, w2, r2)"
    using assms(3) by (simp add: project_def query_simps b)
  from project_loop_trace [OF this] have np: "\<forall>(_, oid) \<in> set b. \<not> poison w oid" by blast
  from loop project_loop_done [OF np, of 0 r]
  have w2: "w2 = marks (map fst b) w" and r2: "r2 = feed.deliver_all w r (map snd b)" by auto
  show ?thesis
  proof (cases "w1 = w \<and> r1 = r")
    case True
    with assms(3) show ?thesis by blast
  next
    case False
    with assms(2) have "project_loop env 0 b w r = (k, er, w1, r1)"
      by (auto simp: project_def query_def b split: option.splits)
    from project_loop_trace [OF this] obtain m m' where m: "m \<le> m'"
      and w1: "w1 = marks (take m (map fst b)) w" and r1: "r1 = feed.deliver_all w r (take m' (map snd b))"
      by blast
    have np1: "\<forall>(_, oid) \<in> set (drop m b). \<not> poison w1 oid"
      using np by (auto simp: w1 dest: in_set_dropD)
    have "parse_batch (unprocessed w1) = Inr (drop m b)"
      unfolding w1 by (rule rest_of_batch [OF assms(1) b])
    then have run: "project Done all_done w1 r1 = (length (drop m b), None,
        marks (map fst (drop m b)) w1, feed.deliver_all w1 r1 (map snd (drop m b)))"
      using project_loop_done [OF np1, of 0 r1] by (simp add: project_def query_simps)
    have "marks (map fst (drop m b)) w1 = marks (take m (map fst b) @ drop m (map fst b)) w"
      by (simp only: w1 marks_def foldl_append drop_map)
    moreover have "feed.deliver_all w1 r1 (map snd (drop m b)) = r2"
      using feed.redeliver [OF m, of w r "map snd b"]
      by (simp add: r1 r2 w1 deliver_all_marks drop_map)
    ultimately show ?thesis using run by (simp add: w2)
  qed
qed

definition flaky :: event_env where
  "flaky = (\<lambda>_. (Done, Lost Transport, Done))"

theorem retry_equals_undisturbed_witness:
  "\<exists>n w r w1 r1. project Done flaky (keyboard_order 1 1 (wr shop)) Map.empty = (0, Some (DbErr Transport), w1, r1) \<and>
     project Done all_done w1 r1 = (n, None, w, r)"
proof -
  let ?w = "keyboard_order 1 1 (wr shop)"
  have ok: "outbox_ok ?w" using cqrs_reachable_ok [OF shop_reachable] by (simp add: sys_ok_def)
  have b: "parse_batch (unprocessed ?w) = Inr [(1, 1)]"
    by (simp add: shop_order unprocessed_def int4_def)
  have np: "\<not> poison ?w 1"
    by (simp add: int4_def shop_order poison_def summary_of_def items_of_def row_fits_def)
  then obtain row where row: "summary_of ?w 1 = Inr row" "row_fits row"
    by (auto simp: poison_def split: sum.splits)
  have 1: "project Done flaky ?w Map.empty = (0, Some (DbErr Transport), ?w, [1 \<mapsto> row])"
    by (simp add: project_def query_simps b flaky_def project_order_def row exec_simps)
  have 2: "\<exists>n w r. project Done all_done ?w Map.empty = (n, None, w, r)"
    using np by (simp add: project_def query_simps b all_done_def project_order_done exec_simps)
  from 2 obtain n w r where "project Done all_done ?w Map.empty = (n, None, w, r)" by blast
  from retry_equals_undisturbed [OF ok 1 this] 1 show ?thesis by blast
qed

text \<open>\<open>UpdateStatus\<close> for an order that does not exist reports success and queues an event; from
  then on every call of \<open>Project\<close> fails at that event before doing anything, also for orders
  placed later.\<close>

theorem missing_order_blocks_projection:
  assumes "orders w oid = None" and "int4 oid" and "eid \<notin> event_id ` set (outbox w)"
    and "\<forall>e \<in> set (outbox w). processed e"
    and "oid' \<noteq> oid" and "eid < eid'"
  shows "\<exists>w1. update_status Done Done (\<lambda>_. Done) eid oid st w = (Inr (), w1) \<and>
    (let w2 = snd (place_order rb rc env oid' eid' now cust its w1)
     in \<exists>er. project q penv w2 r = (0, Some er, w2, r))"
proof -
  let ?e = "\<lparr>event_id = eid, ev_body = [(''type'', JString ''order_status_changed''), (''order_id'', JNumber oid)],
    processed = False\<rparr>"
  let ?w1 = "w\<lparr>outbox := outbox w @ [?e]\<rparr>"
  have 1: "update_status Done Done (\<lambda>_. Done) eid oid st w = (Inr (), ?w1)"
    using assms(1-3)
    by (simp add: update_status_def begin_func_Done bind_tx_def stmt_Done set_status_def append_event_def)
  define w2 where "w2 = snd (place_order rb rc env oid' eid' now cust its ?w1)"
  have none: "filter (\<lambda>e. \<not> processed e) (outbox w) = []"
    using assms(4) by (simp add: filter_empty_conv)
  have "evolves eid' oid' ?w1 w2" unfolding w2_def by (rule place_order_evolves)
  then have "\<exists>es. unprocessed w2 = ?e # es \<and> orders w2 oid = None \<and> None \<notin> event_order ` set es"
    unfolding evolves_def
  proof (elim disjE exE conjE)
    assume "w2 = ?w1"
    with none assms(1) show ?thesis by (simp add: unprocessed_def)
  next
    fix e assume "outbox w2 = outbox ?w1 @ [e]" "event_id e = eid'" "\<not> processed e"
      "event_order e = Some oid'" "dom (orders w2) \<subseteq> insert oid' (dom (orders ?w1))"
    moreover from this(5) assms(1,5) have "orders w2 oid = None" by (cases "orders w2 oid") (auto simp: subset_iff)
    ultimately show ?thesis using none assms(6) by (intro exI [of _ "[e]"]) (simp add: unprocessed_def)
  qed
  then obtain es where h: "unprocessed w2 = ?e # es" "orders w2 oid = None" and "None \<notin> event_order ` set es"
    by blast
  then obtain b where b: "parse_batch (unprocessed w2) = Inr b"
    using parse_batch_ok [of "unprocessed w2"] assms(2) by auto
  from h b assms(2) obtain b' where b': "b = (eid, oid) # b'"
    by (auto split: sum.splits)
  have "\<exists>er. project q penv w2 r = (0, Some er, w2, r)"
    using h(2) b by (cases "penv 0")
      (auto simp: project_def query_def b' project_order_def summary_of_def split: option.splits)
  with 1 show ?thesis by (auto simp: w2_def Let_def)
qed

theorem missing_order_blocks_projection_witness:
  "\<exists>w1. update_status Done Done (\<lambda>_. Done) 1 99 ''shipped'' (wr shop) = (Inr (), w1) \<and>
    (\<exists>er. project Done all_done (keyboard_order 1 2 w1) Map.empty = (0, Some er, keyboard_order 1 2 w1, Map.empty))"
proof -
  have "orders (wr shop) 99 = None" "outbox (wr shop) = []" by (simp_all add: shop_def init_sys_def)
  then show ?thesis
    using missing_order_blocks_projection [of "wr shop" 99 1 1 2, where rb = Done and rc = Done
        and env = "\<lambda>_. Done" and q = Done and penv = all_done and r = Map.empty and now = 0]
    unfolding keyboard_order_def Let_def by (simp add: int4_def del: fun_upd_apply)
qed

text \<open>The steps of a projector on explicit states.\<close>

lemma runs:
  assumes "cqrs_reachable n \<lparr>wr = w, rd = r, proj = f\<rparr>" and "p < n"
  shows run_poll: "parse_batch (unprocessed w) = Inr b \<Longrightarrow>
      cqrs_reachable n \<lparr>wr = w, rd = r, proj = f(p := Batch b)\<rparr>"
    and run_fetch: "f p = Batch ((eid, oid) # es) \<Longrightarrow> summary_of w oid = Inr row \<Longrightarrow> row_fits row \<Longrightarrow>
      cqrs_reachable n \<lparr>wr = w, rd = r, proj = f(p := Fetched row ((eid, oid) # es))\<rparr>"
    and run_upsert: "f p = Fetched row ((eid, oid) # es) \<Longrightarrow>
      cqrs_reachable n \<lparr>wr = w, rd = r(oid \<mapsto> row), proj = f(p := Wrote ((eid, oid) # es))\<rparr>"
    and run_mark: "f p = Wrote ((eid, oid) # es) \<Longrightarrow>
      cqrs_reachable n \<lparr>wr = mark eid w, rd = r, proj = f(p := Batch es)\<rparr>"
  using cqrs_reachable.step [OF assms(1)] assms(2)
    cqrs_step.polling [of p n "\<lparr>wr = w, rd = r, proj = f\<rparr>" b]
    cqrs_step.fetching [of p n "\<lparr>wr = w, rd = r, proj = f\<rparr>" eid oid es row]
    cqrs_step.upserting [of p n "\<lparr>wr = w, rd = r, proj = f\<rparr>" row eid oid es]
    cqrs_step.marking [of p n "\<lparr>wr = w, rd = r, proj = f\<rparr>" eid oid es]
  by simp_all

text \<open>The guarantee needs the single projector: with two of them, one can fetch a row, and write it
  after the other has projected and marked a later update. The order is then out of date in the
  read model and no event is left that would repair it.\<close>

theorem two_projectors_lose_update:
  "\<exists>s row. cqrs_reachable 2 s \<and> unprocessed (wr s) = [] \<and>
     map_option status (orders (wr s) 1) = Some ''shipped'' \<and>
     get_order_summary Done 1 (rd s) = Inr (Some row) \<and> sum_status row = ''placed''"
proof -
  define w1 where "w1 = keyboard_order 1 1 (wr shop)"
  obtain placed where row: "summary_of w1 1 = Inr placed" "row_fits placed" "sum_status placed = ''placed''"
    by (simp add: w1_def shop_order summary_of_def items_of_def int4_def row_fits_def)
  define w2 where "w2 = snd (update_status Done Done (\<lambda>_. Done) 2 1 ''shipped'' w1)"
  have w2: "w2 = w1\<lparr>orders := (orders w1)(1 \<mapsto> \<lparr>customer_id = 1, status = ''shipped'', created_at = 0\<rparr>),
      outbox := outbox w1 @ [\<lparr>event_id = 2, ev_body = [(''type'', JString ''order_status_changed''),
        (''order_id'', JNumber 1)], processed = False\<rparr>]\<rparr>"
    by (simp add: w2_def w1_def update_status_def begin_func_Done bind_tx_def stmt_Done set_status_def append_event_def
        int4_def shop_order)
  obtain shipped where row2: "summary_of w2 1 = Inr shipped" "row_fits shipped"
    by (simp add: w2 w1_def shop_order summary_of_def items_of_def int4_def row_fits_def)
  have b1: "parse_batch (unprocessed w1) = Inr [(1, 1)]"
    by (simp add: w1_def shop_order unprocessed_def int4_def)
  have b2: "parse_batch (unprocessed w2) = Inr [(1, 1), (2, 1)]"
    by (simp add: w2 w1_def shop_order unprocessed_def int4_def)
  have "shop\<lparr>wr := w1\<rparr> = \<lparr>wr = w1, rd = Map.empty, proj = (\<lambda>_. Idle)\<rparr>"
    by (simp add: shop_def init_sys_def)
  then have "cqrs_reachable 2 \<lparr>wr = w1, rd = Map.empty, proj = (\<lambda>_. Idle)\<rparr>"
    using shop_reachable [of 2] by (simp add: w1_def)
  from run_poll [OF this _ b1, of 0]
  have "cqrs_reachable 2 \<lparr>wr = w1, rd = Map.empty, proj = (\<lambda>_. Idle)(0 := Batch [(1, 1)])\<rparr>" by simp
  from run_fetch [OF this _ _ row(1,2), of 0]
  have "cqrs_reachable 2 \<lparr>wr = w1, rd = Map.empty, proj = (\<lambda>_. Idle)(0 := Fetched placed [(1, 1)])\<rparr>" by simp
  from cqrs_reachable.step [OF this cqrs_step.updating [of 2 _ Done Done "\<lambda>_. Done" 2 1 "''shipped''"]]
  have "cqrs_reachable 2 \<lparr>wr = w2, rd = Map.empty, proj = (\<lambda>_. Idle)(0 := Fetched placed [(1, 1)])\<rparr>"
    by (simp add: w2_def)
  from run_poll [OF this _ b2, of 1]
  have "cqrs_reachable 2 \<lparr>wr = w2, rd = Map.empty, proj = (\<lambda>_. Idle)
    (0 := Fetched placed [(1, 1)], 1 := Batch [(1, 1), (2, 1)])\<rparr>" by simp
  from run_fetch [OF this _ _ row2, of 1]
  have "cqrs_reachable 2 \<lparr>wr = w2, rd = Map.empty, proj = (\<lambda>_. Idle)
    (0 := Fetched placed [(1, 1)], 1 := Fetched shipped [(1, 1), (2, 1)])\<rparr>" by simp
  from run_upsert [OF this, of 1]
  have "cqrs_reachable 2 \<lparr>wr = w2, rd = [1 \<mapsto> shipped], proj = (\<lambda>_. Idle)
    (0 := Fetched placed [(1, 1)], 1 := Wrote [(1, 1), (2, 1)])\<rparr>" by simp
  from run_mark [OF this, of 1]
  have "cqrs_reachable 2 \<lparr>wr = mark 1 w2, rd = [1 \<mapsto> shipped], proj = (\<lambda>_. Idle)
    (0 := Fetched placed [(1, 1)], 1 := Batch [(2, 1)])\<rparr>" by simp
  from run_fetch [OF this, of 1] row2
  have "cqrs_reachable 2 \<lparr>wr = mark 1 w2, rd = [1 \<mapsto> shipped], proj = (\<lambda>_. Idle)
    (0 := Fetched placed [(1, 1)], 1 := Fetched shipped [(2, 1)])\<rparr>" by simp
  from run_upsert [OF this, of 1]
  have "cqrs_reachable 2 \<lparr>wr = mark 1 w2, rd = [1 \<mapsto> shipped], proj = (\<lambda>_. Idle)
    (0 := Fetched placed [(1, 1)], 1 := Wrote [(2, 1)])\<rparr>" by simp
  from run_mark [OF this, of 1]
  have "cqrs_reachable 2 \<lparr>wr = mark 2 (mark 1 w2), rd = [1 \<mapsto> shipped], proj = (\<lambda>_. Idle)
    (0 := Fetched placed [(1, 1)], 1 := Batch [])\<rparr>" by simp
  from run_upsert [OF this, of 0]
  have r: "cqrs_reachable 2 \<lparr>wr = mark 2 (mark 1 w2), rd = [1 \<mapsto> placed], proj = (\<lambda>_. Idle)
    (1 := Batch [], 0 := Wrote [(1, 1)])\<rparr>" by (simp add: fun_upd_twist)
  moreover have "unprocessed (mark 2 (mark 1 w2)) = []"
    unfolding unprocessed_mark by (simp add: w2 w1_def shop_order unprocessed_def)
  moreover have "map_option status (orders (mark 2 (mark 1 w2)) 1) = Some ''shipped''"
    by (simp add: w2)
  moreover have "get_order_summary Done 1 [1 \<mapsto> placed] = Inr (Some placed)"
    by (simp add: get_order_summary_def query_simps)
  ultimately show ?thesis using row(3)
    by (intro exI [of _ "\<lparr>wr = mark 2 (mark 1 w2), rd = [1 \<mapsto> placed], proj = (\<lambda>_. Idle)
        (1 := Batch [], 0 := Wrote [(1, 1)])\<rparr>"] exI [of _ placed]) simp
qed

lemma cqrs_demo_output:
  "demo_main 0 (wr shop) (rd shop) =
     (None, 1, Some (2, 13197, ''placed''), Some (2, 13197, ''placed''), Some (2, 13197, ''shipped''))"
proof -
  have o: "place_order Done Done (\<lambda>_. Done) 1 1 0 1
      [\<lparr>product = ''Keyboard'', qty = 1, price_cents = 7999\<rparr>, \<lparr>product = ''Mouse'', qty = 2, price_cents = 2599\<rparr>]
      (wr shop) = (Inr 1, keyboard_order 1 1 (wr shop))"
    unfolding keyboard_order_def
    by (simp add: shop_def init_sys_def place_order_def begin_func_Done bind_tx_def
      stmt_Done insert_order_def insert_item_def append_event_def int4_def comp_def)
  show ?thesis
    unfolding demo_main_def
    by (simp add: o shop_order project_def unprocessed_def query_simps int4_def project_order_def summary_of_def
        items_of_def row_fits_def exec_simps mark_def update_status_def begin_func_Done bind_tx_def stmt_Done
        set_status_def append_event_def shown_def get_order_summary_def Let_def)
qed

end
