(* ===== verification/RangeSharding.thy ===== *)
theory RangeSharding
  imports GoStd
begin

text \<open>
  \<open>simulate_range_based_sharding/main.go\<close>: the range map from order dates to shards, routing,
  range queries, bulk loading and the split of a range. Instants are nanoseconds (\<open>int\<close>), a zero
  \<open>To\<close> is \<open>None\<close>. \<open>log.Fatal\<close> and panics end the process: the result is \<open>None\<close>, with the
  state of the databases at that point.
\<close>

section \<open>Ranges\<close>

record range =
  from_time :: int
  to_time :: "int option"
  shards :: "string list"

definition contains :: "range \<Rightarrow> int \<Rightarrow> bool" where
  "contains r t \<longleftrightarrow> \<not> t < from_time r \<and> (case to_time r of None \<Rightarrow> True | Some u \<Rightarrow> t < u)"

definition overlaps :: "range \<Rightarrow> int \<Rightarrow> int \<Rightarrow> bool" where
  "overlaps r from to \<longleftrightarrow> (case to_time r of None \<Rightarrow> True | Some u \<Rightarrow> from < u) \<and> from_time r < to"

record order_row =
  row_id :: nat
  customer :: int
  amount :: int
  placed_on :: int

record cluster =
  pools :: "string \<rightharpoonup> order_row list"
  ranges :: "range list"

section \<open>Routing\<close>

fun route_in :: "range list \<Rightarrow> int \<Rightarrow> int \<Rightarrow> string option" where
  "route_in [] t cust = None"
| "route_in (r # rs) t cust =
     (if contains r t
      then (if shards r = [] then None else at_index (shards r) (go_rem cust (int (length (shards r)))))
      else route_in rs t cust)"

definition route :: "cluster \<Rightarrow> int \<Rightarrow> int \<Rightarrow> string option" where
  "route c t cust = route_in (ranges c) t cust"

definition add_new :: "string list \<Rightarrow> string \<Rightarrow> string list" where
  "add_new out s = (if s \<in> set out then out else out @ [s])"

definition shards_for :: "cluster \<Rightarrow> int \<Rightarrow> int \<Rightarrow> string list" where
  "shards_for c from to =
     foldl (\<lambda>out r. if overlaps r from to then foldl add_new out (shards r) else out) [] (ranges c)"

text \<open>The revenue query of \<open>main\<close>: one sum per shard that \<open>shardsFor\<close> names.\<close>

definition revenue_on :: "cluster \<Rightarrow> int \<Rightarrow> int \<Rightarrow> string \<Rightarrow> int option" where
  "revenue_on c from to s =
     map_option (\<lambda>t. \<Sum>r \<leftarrow> filter (\<lambda>r. from \<le> placed_on r \<and> placed_on r < to) t. amount r) (pools c s)"

fun revenue :: "cluster \<Rightarrow> int \<Rightarrow> int \<Rightarrow> string list \<Rightarrow> int option" where
  "revenue c from to [] = Some 0"
| "revenue c from to (s # ss) =
     (case revenue_on c from to s of
        None \<Rightarrow> None
      | Some x \<Rightarrow> map_option ((+) x) (revenue c from to ss))"

section \<open>Loading\<close>

text \<open>
  \<open>insert\<close> groups the orders by shard and copies one group per shard, in the order \<open>ks\<close> in which
  Go happens to iterate over the map. A COPY is atomic; the database fills in the id.
\<close>

fun by_shard :: "cluster \<Rightarrow> order_row list \<Rightarrow> (string \<Rightarrow> order_row list) \<Rightarrow> (string \<Rightarrow> order_row list) option" where
  "by_shard c [] m = Some m"
| "by_shard c (o1 # os) m =
     (case route c (placed_on o1) (customer o1) of
        None \<Rightarrow> None
      | Some s \<Rightarrow> by_shard c os (m(s := m s @ [o1])))"

definition ids_of :: "order_row list \<Rightarrow> nat set" where
  "ids_of rows = row_id ` set rows"

definition copy_from :: "outcome \<Rightarrow> string \<Rightarrow> order_row list \<Rightarrow> cluster \<Rightarrow> unit option \<times> cluster" where
  "copy_from r s rows c =
     (case pools c s of
        None \<Rightarrow> (None, c)
      | Some t \<Rightarrow>
          if \<not> applied r \<or> ids_of rows \<inter> ids_of t \<noteq> {} \<or> \<not> distinct (map row_id rows) then (None, c)
          else ((case err_of r of None \<Rightarrow> Some () | Some _ \<Rightarrow> None),
                c\<lparr>pools := (pools c)(s \<mapsto> t @ rows)\<rparr>))"

fun copy_groups :: "(string \<Rightarrow> outcome) \<Rightarrow> (string \<Rightarrow> order_row list) \<Rightarrow> string list \<Rightarrow> cluster
    \<Rightarrow> (string \<times> nat) list option \<times> cluster" where
  "copy_groups env m [] c = (Some [], c)"
| "copy_groups env m (s # ss) c =
     (case copy_from (env s) s (m s) c of
        (None, c') \<Rightarrow> (None, c')
      | (Some _, c') \<Rightarrow>
          (case copy_groups env m ss c' of
             (None, c'') \<Rightarrow> (None, c'')
           | (Some counts, c'') \<Rightarrow> (Some ((s, length (m s)) # counts), c'')))"

definition insert_orders :: "(string \<Rightarrow> outcome) \<Rightarrow> string list \<Rightarrow> order_row list \<Rightarrow> cluster
    \<Rightarrow> (string \<times> nat) list option \<times> cluster" where
  "insert_orders env ks os c =
     (case by_shard c os (\<lambda>_. []) of None \<Rightarrow> (None, c) | Some m \<Rightarrow> copy_groups env m ks c)"

section \<open>Splitting a range\<close>

text \<open>
  \<open>rb\<close>, \<open>rd\<close>, \<open>rc\<close>, \<open>rm\<close> are the outcomes of BEGIN, DELETE, COPY and COMMIT. The copy commits
  first; the delete becomes visible with the commit on the source shard. (Copying onto the source
  itself would wait for the deleting transaction: the ids clash, no result.)
\<close>

definition split_range :: "outcome \<times> outcome \<times> outcome \<times> outcome \<Rightarrow> int \<Rightarrow> string \<Rightarrow> cluster
    \<Rightarrow> nat option \<times> cluster" where
  "split_range env at new_shard c =
     (let (rb, rd, rc, rm) = env in
      case index_func (\<lambda>r. contains r at) (ranges c) of
        None \<Rightarrow> (None, c)
      | Some i \<Rightarrow>
          (let old = ranges c ! i in
           case shards old of
             [] \<Rightarrow> (None, c)
           | src # _ \<Rightarrow>
               (case pools c src of
                  None \<Rightarrow> (None, c)
                | Some t \<Rightarrow>
                    if err_of rb \<noteq> None \<or> err_of rd \<noteq> None then (None, c)
                    else
                      (let moved = filter (\<lambda>r. at \<le> placed_on r) t;
                           kept = filter (\<lambda>r. \<not> at \<le> placed_on r) t in
                       case copy_from rc new_shard moved c of
                         (None, c1) \<Rightarrow> (None, c1)
                       | (Some _, c1) \<Rightarrow>
                           (let c2 = (if applied rm then c1\<lparr>pools := (pools c1)(src \<mapsto> kept)\<rparr> else c1) in
                            case err_of rm of
                              Some _ \<Rightarrow> (None, c2)
                            | None \<Rightarrow>
                                (let lower = \<lparr>from_time = from_time old, to_time = Some at, shards = shards old\<rparr>;
                                     upper = \<lparr>from_time = at, to_time = to_time old, shards = [new_shard]\<rparr>
                                 in (Some (length moved),
                                     c2\<lparr>ranges := take i (ranges c) @ [lower, upper] @ drop (Suc i) (ranges c)\<rparr>)))))))"

text \<open>The mitigation of \<open>main\<close>: close the last range at \<open>till\<close> and spread what follows over shards.\<close>

definition spread_current :: "int \<Rightarrow> string list \<Rightarrow> cluster \<Rightarrow> cluster" where
  "spread_current till ss c =
     c\<lparr>ranges := butlast (ranges c) @ [(last (ranges c))\<lparr>to_time := Some till\<rparr>,
                                       \<lparr>from_time = till, to_time = None, shards = ss\<rparr>]\<rparr>"

section \<open>Invariant\<close>

definition before :: "range \<Rightarrow> range \<Rightarrow> bool" where
  "before r r' \<longleftrightarrow> (case to_time r of None \<Rightarrow> False | Some u \<Rightarrow> u \<le> from_time r') \<and> from_time r \<le> from_time r'"

definition map_ok :: "cluster \<Rightarrow> bool" where
  "map_ok c \<longleftrightarrow> sorted_wrt before (ranges c) \<and>
     (\<forall>r \<in> set (ranges c). shards r \<noteq> [] \<and> set (shards r) \<subseteq> dom (pools c))"

definition placed :: "cluster \<Rightarrow> bool" where
  "placed c \<longleftrightarrow> (\<forall>s t. pools c s = Some t \<longrightarrow>
     (\<forall>r \<in> set t. route c (placed_on r) (customer r) = Some s))"

lemma contains_unique:
  "sorted_wrt before (r # rs) \<Longrightarrow> contains r t \<Longrightarrow> r' \<in> set rs \<Longrightarrow> \<not> contains r' t"
  by (auto simp: before_def contains_def split: option.splits)

lemma route_in_shards:
  "route_in rs t cust = Some s \<Longrightarrow> \<exists>r \<in> set rs. contains r t \<and> s \<in> set (shards r)"
  by (induction rs) (auto split: if_splits dest: at_index_in)

lemma route_in_append:
  "route_in (xs @ ys) t cust =
     (if \<exists>r \<in> set xs. contains r t then route_in xs t cust else route_in ys t cust)"
  by (induction xs) auto

lemma add_new_set [simp]: "set (foldl add_new out ss) = set out \<union> set ss"
  by (induction ss arbitrary: out) (auto simp: add_new_def)

lemma add_new_distinct: "distinct out \<Longrightarrow> distinct (foldl add_new out ss)"
  by (induction ss arbitrary: out) (simp_all add: add_new_def)

lemma shards_for_set: "set (shards_for c from to) = (\<Union>r \<in> {r \<in> set (ranges c). overlaps r from to}. set (shards r))"
proof -
  have "set (foldl (\<lambda>out r. if overlaps r from to then foldl add_new out (shards r) else out) acc rs) =
      set acc \<union> (\<Union>r \<in> {r \<in> set rs. overlaps r from to}. set (shards r))" for acc rs
    by (induction rs arbitrary: acc) auto
  then show ?thesis by (simp add: shards_for_def)
qed

lemma shards_for_distinct: "distinct (shards_for c from to)"
  unfolding shards_for_def by (rule foldl_invariant) (auto intro: add_new_distinct)

lemma revenue_sum:
  assumes "set ss \<subseteq> dom (pools c)"
  shows "revenue c from to ss = Some (\<Sum>s \<leftarrow> ss. the (revenue_on c from to s))"
  using assms by (induction ss) (auto simp: revenue_on_def)

lemma overlaps_contains: "contains r t \<Longrightarrow> from \<le> t \<Longrightarrow> t < to \<Longrightarrow> overlaps r from to"
  by (auto simp: contains_def overlaps_def split: option.splits)

lemma revenue_elsewhere:
  assumes "placed c" and "pools c s = Some t" and "s \<notin> set (shards_for c from to)"
  shows "revenue_on c from to s = Some 0"
proof -
  have "\<not> (from \<le> placed_on r \<and> placed_on r < to)" if "r \<in> set t" for r
  proof
    assume w: "from \<le> placed_on r \<and> placed_on r < to"
    from assms(1,2) that have "route c (placed_on r) (customer r) = Some s" by (simp add: placed_def)
    then obtain g where "g \<in> set (ranges c)" "contains g (placed_on r)" "s \<in> set (shards g)"
      unfolding route_def by (blast dest: route_in_shards)
    with w assms(3) overlaps_contains show False by (force simp: shards_for_set)
  qed
  then have "filter (\<lambda>r. from \<le> placed_on r \<and> placed_on r < to) t = []"
    by (simp add: filter_empty_conv)
  with assms(2) show ?thesis by (simp add: revenue_on_def)
qed

section \<open>A split keeps rows where the map says\<close>

lemma split_rangeD:
  assumes "split_range env at new_shard c = (Some n, c')"
  shows "\<exists>i src rest t u. i < length (ranges c) \<and> contains (ranges c ! i) at \<and>
    shards (ranges c ! i) = src # rest \<and> pools c src = Some t \<and>
    (pools c)(new_shard) = Some u \<and> ids_of (filter (\<lambda>r. at \<le> placed_on r) t) \<inter> ids_of u = {} \<and>
    n = length (filter (\<lambda>r. at \<le> placed_on r) t) \<and>
    pools c' = (pools c)(new_shard \<mapsto> u @ filter (\<lambda>r. at \<le> placed_on r) t,
                         src \<mapsto> filter (\<lambda>r. \<not> at \<le> placed_on r) t) \<and>
    ranges c' = take i (ranges c) @
      [\<lparr>from_time = from_time (ranges c ! i), to_time = Some at, shards = src # rest\<rparr>,
       \<lparr>from_time = at, to_time = to_time (ranges c ! i), shards = [new_shard]\<rparr>] @ drop (Suc i) (ranges c)"
proof -
  obtain rb rd rc rm where env: "env = (rb, rd, rc, rm)" by (cases env)
  from assms obtain i where i: "index_func (\<lambda>r. contains r at) (ranges c) = Some i"
    by (auto simp: split_range_def env split: option.splits)
  from index_func_Some [OF i] have "i < length (ranges c)" "contains (ranges c ! i) at" by auto
  with assms i show ?thesis
    by (auto simp: split_range_def env Let_def copy_from_def split: option.splits list.splits if_splits)
qed

lemma sorted_wrt_before_iff:
  "sorted_wrt before (xs @ r # ys) \<longleftrightarrow> sorted_wrt before xs \<and> sorted_wrt before ys \<and>
     (\<forall>x \<in> set xs. before x r) \<and> (\<forall>y \<in> set ys. before r y) \<and> (\<forall>x \<in> set xs. \<forall>y \<in> set ys. before x y)"
  by (auto simp: sorted_wrt_append)

lemma route_around:
  assumes s: "sorted_wrt before (xs @ r # ys)"
  shows "route_in (xs @ r # ys) t cust =
    (if contains r t then route_in [r] t cust else route_in (xs @ ys) t cust)"
proof -
  have "\<not> contains x t" if "contains r t" "x \<in> set xs" for x
    using s that by (auto simp: sorted_wrt_before_iff before_def contains_def split: option.splits)
  then show ?thesis by (auto simp: route_in_append)
qed

lemma split_sorted:
  assumes s: "sorted_wrt before (xs @ r # ys)" and at: "contains r at"
  shows "sorted_wrt before (xs @ [\<lparr>from_time = from_time r, to_time = Some at, shards = ss\<rparr>,
    \<lparr>from_time = at, to_time = to_time r, shards = ss'\<rparr>] @ ys)"
  using s at
  by (fastforce simp: sorted_wrt_append before_def contains_def split: option.splits)

lemma split_route:
  assumes s: "sorted_wrt before (xs @ r # ys)" and at: "contains r at"
  shows "route_in (xs @ [\<lparr>from_time = from_time r, to_time = Some at, shards = shards r\<rparr>,
      \<lparr>from_time = at, to_time = to_time r, shards = [n]\<rparr>] @ ys) t cust =
    (if contains r t \<and> at \<le> t then route_in [\<lparr>from_time = at, to_time = to_time r, shards = [n]\<rparr>] t cust
     else route_in (xs @ r # ys) t cust)"
proof -
  let ?lo = "\<lparr>from_time = from_time r, to_time = Some at, shards = shards r\<rparr>"
  let ?hi = "\<lparr>from_time = at, to_time = to_time r, shards = [n]\<rparr>"
  have no: "\<not> contains x t" if "contains r t" "x \<in> set xs" for x
    using s that by (auto simp: sorted_wrt_before_iff before_def contains_def split: option.splits)
  have lo: "contains ?lo t \<longleftrightarrow> contains r t \<and> t < at" and hi: "contains ?hi t \<longleftrightarrow> contains r t \<and> at \<le> t"
    using at by (auto simp: contains_def split: option.splits)
  show ?thesis using no by (auto simp: route_in_append lo hi)
qed

lemma only_route: "route_in [\<lparr>from_time = f, to_time = u, shards = [n]\<rparr>] t cust = Some s \<Longrightarrow> s = n"
  by (frule route_in_shards) auto

lemma route_single:
  "contains r t \<Longrightarrow> shards r = [n] \<Longrightarrow> route_in [r] t cust = Some n"
  by (simp add: go_rem_def at_index_def)

lemma contains_position:
  assumes "sorted_wrt before (xs @ g # ys)" and "contains g at"
    and "i < length (xs @ g # ys)" and "contains ((xs @ g # ys) ! i) at"
  shows "i = length xs"
proof (rule ccontr)
  assume "i \<noteq> length xs"
  then consider "i < length xs" | "length xs < i" by linarith
  then show False
  proof cases
    case 1
    then have "before (xs ! i) g" using assms(1) by (simp add: sorted_wrt_before_iff)
    with 1 assms(2,4) show False by (auto simp: nth_append before_def contains_def split: option.splits)
  next
    case 2
    then have "(xs @ g # ys) ! i \<in> set ys" using assms(3) by (auto simp: nth_append nth_Cons')
    with assms(1) have "before g ((xs @ g # ys) ! i)" by (simp add: sorted_wrt_before_iff)
    with assms(2,4) show False by (auto simp: before_def contains_def split: option.splits)
  qed
qed

lemma split_result:
  assumes ok: "map_ok c" and g: "ranges c = xs @ g # ys" "contains g at" "shards g = [src]"
    and new: "new_shard \<noteq> src" and run: "split_range env at new_shard c = (Some n, c')"
  obtains t u where "pools c src = Some t" "pools c new_shard = Some u"
    "n = length (filter (\<lambda>r. at \<le> placed_on r) t)"
    "pools c' = (pools c)(new_shard \<mapsto> u @ filter (\<lambda>r. at \<le> placed_on r) t,
                          src \<mapsto> filter (\<lambda>r. \<not> at \<le> placed_on r) t)"
    "ranges c' = xs @ [\<lparr>from_time = from_time g, to_time = Some at, shards = shards g\<rparr>,
       \<lparr>from_time = at, to_time = to_time g, shards = [new_shard]\<rparr>] @ ys"
proof -
  from ok have s: "sorted_wrt before (xs @ g # ys)" by (simp add: map_ok_def g)
  from split_rangeD [OF run] obtain i s' rest t u where i: "i < length (ranges c)" "contains (ranges c ! i) at"
    and sh: "shards (ranges c ! i) = s' # rest" and p: "pools c s' = Some t" "pools c new_shard = Some u"
    and n: "n = length (filter (\<lambda>r. at \<le> placed_on r) t)"
    and po: "pools c' = (pools c)(new_shard \<mapsto> u @ filter (\<lambda>r. at \<le> placed_on r) t,
        s' \<mapsto> filter (\<lambda>r. \<not> at \<le> placed_on r) t)"
    and ra: "ranges c' = take i (ranges c) @
      [\<lparr>from_time = from_time (ranges c ! i), to_time = Some at, shards = s' # rest\<rparr>,
       \<lparr>from_time = at, to_time = to_time (ranges c ! i), shards = [new_shard]\<rparr>] @ drop (Suc i) (ranges c)"
    by blast
  have "i = length xs" using contains_position [OF s g(2)] i by (simp add: g(1))
  with sh g have e: "s' = src" "rest = []" "ranges c ! i = g" "take i (ranges c) = xs" "drop (Suc i) (ranges c) = ys"
    by auto
  show ?thesis by (rule that [of t u]) (use p n po ra e g(3) in simp_all)
qed

lemma in_upper_half:
  assumes "map_ok c" and "placed c" and "ranges c = xs @ g # ys" "contains g at"
    and "\<forall>r \<in> set ys. src \<notin> set (shards r)"
    and "pools c src = Some t" "r \<in> set t" "at \<le> placed_on r"
  shows "contains g (placed_on r)"
proof -
  from assms(2,6,7) have "route c (placed_on r) (customer r) = Some src" by (simp add: placed_def)
  then obtain h where h: "h \<in> set (ranges c)" "contains h (placed_on r)" "src \<in> set (shards h)"
    unfolding route_def by (blast dest: route_in_shards)
  have "before x g" if "x \<in> set xs" for x
    using assms(1,3) that by (simp add: map_ok_def sorted_wrt_before_iff)
  then have "h \<notin> set xs"
    using h(2) assms(4,8) by (fastforce simp: before_def contains_def split: option.splits)
  with h assms(3,5) show ?thesis by auto
qed

section \<open>Properties\<close>

text \<open>C11: Splitting a range that one shard hosts, when that shard hosts no later range, moves exactly
  the rows from the cut on, loses none, and leaves every row of the cluster on the shard that
  the new map routes it to.\<close>

theorem split_keeps_placement:
  assumes ok: "map_ok c" and pl: "placed c" and g: "ranges c = xs @ g # ys" "contains g at" "shards g = [src]"
    and later: "\<forall>r \<in> set ys. src \<notin> set (shards r)" and new: "new_shard \<noteq> src"
    and run: "split_range env at new_shard c = (Some n, c')"
  shows "map_ok c' \<and> placed c' \<and>
    (\<forall>s. s \<noteq> src \<and> s \<noteq> new_shard \<longrightarrow> pools c' s = pools c s) \<and>
    mset (the (pools c' src)) + mset (the (pools c' new_shard)) = mset (the (pools c src)) + mset (the (pools c new_shard)) \<and>
    n = length (filter (\<lambda>r. at \<le> placed_on r) (the (pools c src)))"
proof -
  from split_result [OF ok g new run] obtain t u where p: "pools c src = Some t" "pools c new_shard = Some u"
    and n: "n = length (filter (\<lambda>r. at \<le> placed_on r) t)"
    and po: "pools c' = (pools c)(new_shard \<mapsto> u @ filter (\<lambda>r. at \<le> placed_on r) t,
                          src \<mapsto> filter (\<lambda>r. \<not> at \<le> placed_on r) t)"
    and ra: "ranges c' = xs @ [\<lparr>from_time = from_time g, to_time = Some at, shards = shards g\<rparr>,
       \<lparr>from_time = at, to_time = to_time g, shards = [new_shard]\<rparr>] @ ys" .
  from ok have s: "sorted_wrt before (xs @ g # ys)" by (simp add: map_ok_def g)
  have "map_ok c'"
    using ok split_sorted [OF s g(2)] p by (auto simp: map_ok_def ra po g)
  moreover have to: "route c' d cust = (if contains g d \<and> at \<le> d
      then route_in [\<lparr>from_time = at, to_time = to_time g, shards = [new_shard]\<rparr>] d cust else route c d cust)" for d cust
    by (simp only: route_def ra split_route [OF s g(2)] g(1))
  have own: "s' = src" if "route c d cust = Some s'" "contains g d" for d cust s'
    using that route_around [OF s, of d cust] route_single [OF that(2) g(3)] by (simp add: route_def g(1))
  have old: "route c' (placed_on r) (customer r) = Some s'"
    if "pools c s' = Some v" "r \<in> set v" "s' \<noteq> src \<or> \<not> at \<le> placed_on r" for s' v r
  proof -
    have "route c (placed_on r) (customer r) = Some s'" using pl that by (simp add: placed_def)
    with own that(3) show ?thesis by (auto simp: to)
  qed
  have moved: "route c' (placed_on r) (customer r) = Some new_shard" if "r \<in> set t" "at \<le> placed_on r" for r
  proof -
    have c: "contains g (placed_on r)" by (rule in_upper_half [OF ok pl g(1,2) later p(1) that])
    then have "contains \<lparr>from_time = at, to_time = to_time g, shards = [new_shard]\<rparr> (placed_on r)"
      using that(2) by (simp add: contains_def)
    from route_single [OF this] c that(2) show ?thesis by (simp only: to) simp
  qed
  have "placed c'"
    unfolding placed_def
  proof (intro allI impI ballI)
    fix s' v r assume v: "pools c' s' = Some v" "r \<in> set v"
    consider "s' = src" | "s' = new_shard" "s' \<noteq> src" | "s' \<noteq> src" "s' \<noteq> new_shard" by blast
    then show "route c' (placed_on r) (customer r) = Some s'"
      using v new p old moved by cases (auto simp: po)
  qed
  moreover have "mset (the (pools c' src)) + mset (the (pools c' new_shard)) =
      mset (the (pools c src)) + mset (the (pools c new_shard))"
    using new p by (simp add: po ac_simps filter_mset_partition del: mset_filter)
  ultimately show ?thesis using p n new by (auto simp: po)
qed

definition two_years :: cluster where
  "two_years = \<lparr>pools = [''shard1'' \<mapsto> [\<lparr>row_id = 1, customer = 7, amount = 100, placed_on = 10\<rparr>],
      ''shard2'' \<mapsto> [\<lparr>row_id = 2, customer = 8, amount = 200, placed_on = 110\<rparr>,
                     \<lparr>row_id = 3, customer = 9, amount = 400, placed_on = 190\<rparr>], ''shard3'' \<mapsto> []],
    ranges = [\<lparr>from_time = 0, to_time = Some 100, shards = [''shard1'']\<rparr>,
              \<lparr>from_time = 100, to_time = None, shards = [''shard2'']\<rparr>]\<rparr>"

lemma two_years_ok: "map_ok two_years" "placed two_years"
  by (auto simp: two_years_def map_ok_def before_def placed_def route_def contains_def at_index_def go_rem_def
      split: if_splits)

theorem split_keeps_placement_witness:
  "\<exists>c'. split_range (Done, Done, Done, Done) 150 ''shard3'' two_years = (Some 1, c') \<and> placed c'"
proof -
  have r: "ranges two_years = [\<lparr>from_time = 0, to_time = Some 100, shards = [''shard1'']\<rparr>] @
      \<lparr>from_time = 100, to_time = None, shards = [''shard2'']\<rparr> # []" by (simp add: two_years_def)
  obtain c' where c': "split_range (Done, Done, Done, Done) 150 ''shard3'' two_years = (Some 1, c')"
    by (simp add: split_range_def two_years_def contains_def copy_from_def ids_of_def Let_def)
  from split_keeps_placement [OF two_years_ok r _ _ _ _ c'] c' show ?thesis
    by (simp add: contains_def)
qed

definition all_rows :: "cluster \<Rightarrow> order_row set" where
  "all_rows c = (\<Union>t \<in> ran (pools c). set t)"

lemma all_rows_split:
  assumes "pools c a = Some t" and "pools c b = Some u"
  shows "(\<Union>v \<in> ran ((pools c)(b \<mapsto> u @ filter P t, a \<mapsto> filter (\<lambda>r. \<not> P r) t)). set v) \<subseteq> all_rows c"
    and "a \<noteq> b \<Longrightarrow> all_rows c \<subseteq> (\<Union>v \<in> ran ((pools c)(b \<mapsto> u @ filter P t, a \<mapsto> filter (\<lambda>r. \<not> P r) t)). set v)"
    and "(\<Union>v \<in> ran ((pools c)(b \<mapsto> u @ filter P t)). set v) = all_rows c"
proof -
  show "(\<Union>v \<in> ran ((pools c)(b \<mapsto> u @ filter P t, a \<mapsto> filter (\<lambda>r. \<not> P r) t)). set v) \<subseteq> all_rows c"
    using assms by (fastforce simp: all_rows_def ran_def split: if_splits)
  show "(\<Union>v \<in> ran ((pools c)(b \<mapsto> u @ filter P t)). set v) = all_rows c" (is "?l = _")
  proof
    show "?l \<subseteq> all_rows c" using assms by (fastforce simp: all_rows_def ran_def split: if_splits)
    show "all_rows c \<subseteq> ?l"
    proof
      fix r assume "r \<in> all_rows c"
      then obtain s v where "pools c s = Some v" "r \<in> set v" by (auto simp: all_rows_def ran_def)
      with assms show "r \<in> ?l" by (cases "s = b") (auto simp: ran_def)
    qed
  qed
  assume "a \<noteq> b"
  show "all_rows c \<subseteq> (\<Union>v \<in> ran ((pools c)(b \<mapsto> u @ filter P t, a \<mapsto> filter (\<lambda>r. \<not> P r) t)). set v)" (is "_ \<subseteq> ?l")
  proof
    fix r assume "r \<in> all_rows c"
    then obtain s v where v: "pools c s = Some v" "r \<in> set v" by (auto simp: all_rows_def ran_def)
    have "((pools c)(b \<mapsto> u @ filter P t, a \<mapsto> filter (\<lambda>r. \<not> P r) t)) b = Some (u @ filter P t)"
      "((pools c)(b \<mapsto> u @ filter P t, a \<mapsto> filter (\<lambda>r. \<not> P r) t)) a = Some (filter (\<lambda>r. \<not> P r) t)"
      using \<open>a \<noteq> b\<close> by simp_all
    with v assms \<open>a \<noteq> b\<close> show "r \<in> ?l"
      by (cases "s = a"; cases "s = b"; cases "P r") (auto simp: ran_def)
  qed
qed

lemma copy_from_result:
  assumes "copy_from r s rows c = (x, c')"
  shows "(x = None \<and> c' = c) \<or> (\<exists>u. pools c s = Some u \<and> ids_of rows \<inter> ids_of u = {} \<and>
    c' = c\<lparr>pools := (pools c)(s \<mapsto> u @ rows)\<rparr>)"
  using assms by (auto simp: copy_from_def split: option.splits if_splits)

lemma all_rows_ranges [simp]: "all_rows (c\<lparr>ranges := rs\<rparr>) = all_rows c"
  by (simp add: all_rows_def)

lemma split_range_pools:
  assumes "split_range env at new_shard c = (x, c')"
  shows "pools c' = pools c \<or> (\<exists>src t u. let P = (\<lambda>r. at \<le> placed_on r) in
     pools c src = Some t \<and> pools c new_shard = Some u \<and> ids_of (filter P t) \<inter> ids_of u = {} \<and>
     (pools c' = (pools c)(new_shard \<mapsto> u @ filter P t) \<or>
      pools c' = (pools c)(new_shard \<mapsto> u @ filter P t, src \<mapsto> filter (\<lambda>r. \<not> P r) t)))"
proof -
  obtain rb rd rc rm where env: "env = (rb, rd, rc, rm)" by (cases env)
  show ?thesis
  proof (cases "pools c' = pools c")
    case False
    with assms obtain i where i: "index_func (\<lambda>r. contains r at) (ranges c) = Some i"
      by (auto simp: split_range_def env split: option.splits)
    from False assms i obtain src rest where sh: "shards (ranges c ! i) = src # rest"
      by (auto simp: split_range_def env Let_def split: list.splits)
    from False assms i sh obtain t where t: "pools c src = Some t"
      by (auto simp: split_range_def env Let_def split: option.splits)
    let ?P = "\<lambda>r. at \<le> placed_on r"
    obtain y c1 where cp: "copy_from rc new_shard (filter ?P t) c = (y, c1)" by fastforce
    from False assms i sh t cp have "pools c' = pools c1 \<or> pools c' = (pools c1)(src \<mapsto> filter (\<lambda>r. \<not> ?P r) t)"
      and "y = None \<Longrightarrow> c' = c1"
      by (auto simp: split_range_def env Let_def split: option.splits if_splits)
    with False copy_from_result [OF cp] t show ?thesis unfolding Let_def by (auto 0 3)
  qed simp
qed

text \<open>Whatever the outcome of the four calls of a split, including a commit that is refused or not
  acknowledged, no row of the cluster disappears (at worst a row is on both shards).\<close>

theorem split_never_loses_rows:
  "all_rows (snd (split_range env at new_shard c)) = all_rows c"
proof -
  obtain x c' where run: "split_range env at new_shard c = (x, c')" by fastforce
  let ?P = "\<lambda>r. at \<le> placed_on r"
  from split_range_pools [OF run] consider "pools c' = pools c"
    | src t u where "pools c src = Some t" "pools c new_shard = Some u" "ids_of (filter ?P t) \<inter> ids_of u = {}"
      "pools c' = (pools c)(new_shard \<mapsto> u @ filter ?P t) \<or>
       pools c' = (pools c)(new_shard \<mapsto> u @ filter ?P t, src \<mapsto> filter (\<lambda>r. \<not> ?P r) t)"
    unfolding Let_def by blast
  then have "all_rows c' = all_rows c"
  proof cases
    case (2 src t u)
    show ?thesis
    proof (cases "src = new_shard")
      case False
      then show ?thesis
        using 2(4) all_rows_split(1) [OF 2(1,2), of ?P] all_rows_split(2) [OF 2(1,2), of ?P]
          all_rows_split(3) [OF 2(1,2), of ?P] unfolding all_rows_def [of c'] by (metis subset_antisym)
    next
      case True
      with 2(1,2) have "u = t" by simp
      have "filter ?P t = []"
      proof (rule ccontr)
        assume "filter ?P t \<noteq> []"
        then have "set (filter ?P t) \<noteq> {}" by (simp only: set_empty not_False_eq_True)
        then obtain r where "r \<in> set (filter ?P t)" by (metis all_not_in_conv)
        with 2(3) \<open>u = t\<close> show False by (auto simp: ids_of_def)
      qed
      then have "filter (\<lambda>r. \<not> ?P r) t = t" by (auto simp: filter_empty_conv)
      with 2 True \<open>filter ?P t = []\<close> \<open>u = t\<close> have "pools c' = pools c" by auto
      then show ?thesis by (simp add: all_rows_def)
    qed
  qed (simp add: all_rows_def)
  with run show ?thesis by simp
qed

text \<open>C12: On a cluster whose ranges lie in order without overlap, each with at least one shard, whose shards are all
  connected (\<open>map_ok\<close>), and where every row lies on the shard the map routes it to now (\<open>placed\<close>; a split that takes over a
  later range breaks this, see \<open>split_takes_later_range\<close>): a range query that visits only the shards \<open>shardsFor\<close> names
  returns the revenue of all shards.\<close>

theorem range_query_complete:
  assumes "map_ok c" and "placed c" and "dom (pools c) = set names" and "distinct names"
  shows "revenue c from to (shards_for c from to) = revenue c from to names"
proof -
  have sub: "set (shards_for c from to) \<subseteq> dom (pools c)"
    using assms(1) by (auto simp: shards_for_set map_ok_def)
  let ?f = "\<lambda>s. the (revenue_on c from to s)"
  have "(\<Sum>s \<leftarrow> names. ?f s) = sum ?f (set names)"
    using assms(4) by (simp add: sum_list_distinct_conv_sum_set)
  also have "\<dots> = sum ?f (set (shards_for c from to))"
  proof (rule sum.mono_neutral_right)
    show "\<forall>s \<in> set names - set (shards_for c from to). ?f s = 0"
    proof
      fix s assume s: "s \<in> set names - set (shards_for c from to)"
      with assms(3) obtain t where "pools c s = Some t" by blast
      from revenue_elsewhere [OF assms(2) this] s show "?f s = 0" by simp
    qed
  qed (use sub assms(3) in simp_all)
  also have "\<dots> = (\<Sum>s \<leftarrow> shards_for c from to. ?f s)"
    using shards_for_distinct by (simp add: sum_list_distinct_conv_sum_set)
  finally show ?thesis using sub assms(3) by (simp add: revenue_sum)
qed

theorem range_query_complete_witness:
  "revenue two_years 105 200 (shards_for two_years 105 200) = Some 600"
proof -
  have "dom (pools two_years) = set [''shard1'', ''shard2'', ''shard3'']" by (auto simp: two_years_def)
  from range_query_complete [OF two_years_ok this] show ?thesis
    by (simp add: two_years_def revenue_on_def)
qed

definition spread_cluster :: cluster where
  "spread_cluster = spread_current 200 [''shard3'', ''shard4'']
     \<lparr>pools = [''shard3'' \<mapsto> [\<lparr>row_id = 1, customer = 7, amount = 100, placed_on = 60\<rparr>,
                             \<lparr>row_id = 2, customer = 8, amount = 500, placed_on = 210\<rparr>],
               ''shard4'' \<mapsto> [], ''shard5'' \<mapsto> []],
      ranges = [\<lparr>from_time = 0, to_time = None, shards = [''shard3'']\<rparr>]\<rparr>"

text \<open>A split after the mitigation of \<open>main\<close> goes wrong: the DELETE is bounded only from below, so
  it also takes the rows of a later range that the source shard hosts. They land on a shard to
  which the map does not route them, and the range query no longer counts them.\<close>

theorem split_takes_later_range:
  "map_ok spread_cluster \<and> placed spread_cluster \<and>
   (case split_range (Done, Done, Done, Done) 50 ''shard5'' spread_cluster of
      (n, c') \<Rightarrow> n = Some 2 \<and> \<not> placed c' \<and> route c' 210 8 = Some ''shard3'' \<and>
        revenue spread_cluster 200 300 (shards_for spread_cluster 200 300) = Some 500 \<and>
        revenue c' 200 300 (shards_for c' 200 300) = Some 0)"
proof -
  have e: "split_range (Done, Done, Done, Done) 50 ''shard5'' spread_cluster = (Some 2,
    \<lparr>pools = [''shard3'' \<mapsto> [], ''shard4'' \<mapsto> [],
       ''shard5'' \<mapsto> [\<lparr>row_id = 1, customer = 7, amount = 100, placed_on = 60\<rparr>,
                    \<lparr>row_id = 2, customer = 8, amount = 500, placed_on = 210\<rparr>]],
     ranges = [\<lparr>from_time = 0, to_time = Some 50, shards = [''shard3'']\<rparr>,
       \<lparr>from_time = 50, to_time = Some 200, shards = [''shard5'']\<rparr>,
       \<lparr>from_time = 200, to_time = None, shards = [''shard3'', ''shard4'']\<rparr>]\<rparr>)"
    by (simp add: split_range_def spread_cluster_def spread_current_def contains_def copy_from_def ids_of_def
        Let_def fun_upd_twist)
  have ok: "map_ok spread_cluster" "placed spread_cluster"
    by (auto simp: spread_cluster_def spread_current_def map_ok_def before_def placed_def route_def contains_def
        at_index_def go_rem_def split: if_splits)
  show ?thesis
    unfolding e
    using ok
    by (simp add: placed_def route_def contains_def at_index_def go_rem_def shards_for_def overlaps_def
        revenue_on_def add_new_def spread_cluster_def spread_current_def)
       (auto intro!: exI [of _ "''shard5''"])
qed

end
