(* ===== verification/RangeMain.thy ===== *)
theory RangeMain
  imports RangeSharding
begin

text \<open>
  \<open>main\<close> of \<open>simulate_range_based_sharding/main.go\<close>: the history of two years and more, the query for March, three
  bursts of new orders, the split of the newest range and the mitigation. An instant is a number of nanoseconds
  since Go's zero time (January 1, year 1, UTC). The random customers and amounts, the ids that the databases
  generate and the order in which Go iterates over a map are parameters.
\<close>

section \<open>The calendar\<close>

definition millis :: int where "millis = 10 ^ 6"
definition minute :: int where "minute = 60 * 10 ^ 9"
definition hour :: int where "hour = 60 * minute"
definition day :: int where "day = 24 * hour"

definition leap :: "int \<Rightarrow> bool" where
  "leap y \<longleftrightarrow> y mod 4 = 0 \<and> (y mod 100 \<noteq> 0 \<or> y mod 400 = 0)"

definition days_before :: "int \<Rightarrow> int" where
  "days_before k = 365 * k + k div 4 - k div 100 + k div 400"

definition jan1 :: "int \<Rightarrow> int" where
  "jan1 y = days_before (y - 1) * day"

definition march1 :: "int \<Rightarrow> int" where
  "march1 y = jan1 y + (if leap y then 60 else 59) * day"

text \<open>\<open>Time.Year\<close>: the guess is at most one year off.\<close>

definition year_of :: "int \<Rightarrow> int" where
  "year_of t =
     (let y = (400 * (t div day)) div 146097 + 1
      in if t < jan1 y then y - 1 else if jan1 (y + 1) \<le> t then y + 1 else y)"

text \<open>\<open>Time.Truncate\<close> rounds down to a multiple of the duration since the zero time.\<close>

definition truncate_to :: "int \<Rightarrow> int \<Rightarrow> int" where
  "truncate_to d t = t - t mod d"

lemma day_pos: "0 < day"
  by (simp add: day_def hour_def minute_def)

lemma jan1_le_iff: "jan1 y \<le> t \<longleftrightarrow> days_before (y - 1) \<le> t div day"
proof -
  have "jan1 y \<le> t \<longleftrightarrow> days_before (y - 1) * day \<le> t div day * day + t mod day" by (simp add: jan1_def)
  also have "\<dots> \<longleftrightarrow> days_before (y - 1) \<le> t div day"
  proof
    assume "days_before (y - 1) * day \<le> t div day * day + t mod day"
    moreover have "t mod day < day" using day_pos by simp
    ultimately have "days_before (y - 1) * day < (t div day + 1) * day"
      using div_mult_mod_eq [of t day] unfolding distrib_right by linarith
    then show "days_before (y - 1) \<le> t div day" using day_pos by (simp add: mult_less_cancel_right)
  next
    assume "days_before (y - 1) \<le> t div day"
    then have "days_before (y - 1) * day \<le> t div day * day" using day_pos by (simp add: mult_right_mono)
    moreover have "0 \<le> t mod day" using day_pos by simp
    ultimately show "days_before (y - 1) * day \<le> t div day * day + t mod day" by linarith
  qed
  finally show ?thesis .
qed

lemma div_window: "0 < d \<Longrightarrow> d * (k div d) \<le> k \<and> k < d * (k div d) + d" for d k :: int
  using mult_div_mod_eq [of d k] pos_mod_bound [of d k] pos_mod_sign [of d k] by linarith

lemma days_before_bounds:
  "400 * days_before k \<le> 146097 * k + 399 \<and> 146097 * k - 700 \<le> 400 * days_before k"
proof -
  obtain a b c where abc: "k div 4 = a" "k div 100 = b" "k div 400 = c" by simp
  then have "4 * a \<le> k" "k < 4 * a + 4" "100 * b \<le> k" "k < 100 * b + 100" "400 * c \<le> k" "k < 400 * c + 400"
    using div_window [of 4 k] div_window [of 100 k] div_window [of 400 k] by simp_all
  then show ?thesis unfolding days_before_def abc by (simp add: algebra_simps)
qed

lemma year_guess:
  fixes n :: int
  defines "k \<equiv> (400 * n) div 146097"
  shows "days_before (k - 1) \<le> n \<and> n < days_before (k + 2)"
proof -
  have "146097 * k \<le> 400 * n \<and> 400 * n < 146097 * k + 146097"
    unfolding k_def by (rule div_window) simp
  moreover have "400 * days_before (k - 1) \<le> 146097 * (k - 1) + 399" "146097 * (k + 2) - 700 \<le> 400 * days_before (k + 2)"
    using days_before_bounds by blast+
  ultimately show ?thesis by (auto simp: algebra_simps)
qed

lemma year_of_bounds: "jan1 (year_of t) \<le> t \<and> t < jan1 (year_of t + 1)"
proof -
  let ?k = "(400 * (t div day)) div 146097"
  have a: "jan1 ?k \<le> t"
    using year_guess [of "t div day"] by (simp add: jan1_le_iff)
  have "\<not> jan1 (?k + 3) \<le> t"
    using year_guess [of "t div day"] by (simp add: jan1_le_iff add.commute)
  then have b: "t < jan1 (?k + 1 + 1 + 1)" by (simp add: add.commute add.left_commute)
  show ?thesis using a b by (auto simp: year_of_def Let_def)
qed

lemma year_length: "jan1 y + 365 * day \<le> jan1 (y + 1)"
proof -
  have skip: "m - m div 25 \<le> m' - m' div 25" if "m \<le> m'" for m m' :: int using that by linarith
  have hundred: "k div 100 = k div 4 div 25" for k :: int using zdiv_zmult2_eq [of 25 k 4] by simp
  have a: "(y - 1) div 4 - (y - 1) div 100 \<le> y div 4 - y div 100"
    unfolding hundred by (rule skip, rule zdiv_mono1) simp_all
  have b: "(y - 1) div 400 \<le> y div 400" by (rule zdiv_mono1) simp_all
  obtain p q r p' q' r' where g: "(y - 1) div 4 = p" "(y - 1) div 100 = q" "(y - 1) div 400 = r" "y div 4 = p'" "y div 100 = q'" "y div 400 = r'"
    by simp
  have "days_before (y - 1) + 365 \<le> days_before y" using a b by (simp add: days_before_def g algebra_simps)
  then have "(days_before (y - 1) + 365) * day \<le> days_before y * day" using day_pos by (simp add: mult_right_mono)
  then show ?thesis by (simp add: jan1_def distrib_right)
qed

section \<open>The program\<close>

text \<open>The answers to the calls of \<open>main\<close> and what it draws. Orders are numbered in the order in which they are made.\<close>

record rmain_env =
  clock :: int
  leftover :: "string \<Rightarrow> order_row list"         \<comment> \<open>what the shards hold from an earlier run\<close>
  pings :: "string \<Rightarrow> outcome"
  truncates :: "string \<Rightarrow> outcome"
  customers :: "nat \<Rightarrow> int"
  amounts :: "nat \<Rightarrow> int"
  uuids :: "nat \<Rightarrow> nat"
  copies :: "nat \<Rightarrow> string \<Rightarrow> outcome"          \<comment> \<open>for the four calls of \<open>insert\<close>\<close>
  map_order :: "nat \<Rightarrow> string list \<Rightarrow> string list"
  sums :: "string \<Rightarrow> outcome"
  counting :: "nat \<Rightarrow> string \<Rightarrow> outcome"
  splitting :: "outcome \<times> outcome \<times> outcome \<times> outcome"

definition all_shards :: "string list" where
  "all_shards = [''shard1'', ''shard2'', ''shard3'', ''shard4'']"

fun open_pools :: "rmain_env \<Rightarrow> string list \<Rightarrow> cluster \<Rightarrow> unit option \<times> cluster" where
  "open_pools e [] = give ()"
| "open_pools e (s # ss) =
     and_then (must (case err_of (pings e s) of None \<Rightarrow> Done | Some x \<Rightarrow> Refused x)
       (\<lambda>c. c\<lparr>pools := (pools c)(s \<mapsto> leftover e s)\<rparr>)) (\<lambda>_.
     and_then (must (truncates e s) (\<lambda>c. c\<lparr>pools := (pools c)(s \<mapsto> [])\<rparr>)) (\<lambda>_.
     open_pools e ss))"

definition year_ranges :: "int \<Rightarrow> range list" where
  "year_ranges y =
     [\<lparr>from_time = jan1 (y - 2), to_time = Some (jan1 (y - 1)), shards = [''shard1'']\<rparr>,
      \<lparr>from_time = jan1 (y - 1), to_time = Some (jan1 y), shards = [''shard2'']\<rparr>,
      \<lparr>from_time = jan1 y, to_time = None, shards = [''shard3'']\<rparr>]"

definition new_order :: "rmain_env \<Rightarrow> nat \<Rightarrow> int \<Rightarrow> order_row" where
  "new_order e i t = \<lparr>row_id = uuids e i, customer = customers e i, amount = amounts e i, placed_on = t\<rparr>"

function history :: "rmain_env \<Rightarrow> nat \<Rightarrow> int \<Rightarrow> order_row list" where
  "history e i t = (if t < clock e then new_order e i t # history e (Suc i) (t + 4 * hour) else [])"
  by pat_completeness auto
termination
  by (relation "measure (\<lambda>(e, i, t). nat (clock e - t))") (simp_all add: hour_def minute_def)

declare history.simps [simp del]

definition burst :: "rmain_env \<Rightarrow> nat \<Rightarrow> int \<Rightarrow> nat \<Rightarrow> order_row list" where
  "burst e i t n = map (\<lambda>k. new_order e (i + k) (t + int k * millis)) [0..<n]"

text \<open>\<open>insert\<close> with the map that its loops share: its keys are the shards that got a row, in the order of the iteration.\<close>

definition insert_all :: "(string \<Rightarrow> outcome) \<Rightarrow> (string list \<Rightarrow> string list) \<Rightarrow> order_row list \<Rightarrow> cluster
    \<Rightarrow> (string \<times> nat) list option \<times> cluster" where
  "insert_all env ord os c =
     (case by_shard c os (\<lambda>_. []) of
        None \<Rightarrow> (None, c)
      | Some m \<Rightarrow> insert_orders env (ord (filter (\<lambda>s. m s \<noteq> []) all_shards)) os c)"

definition sizes :: "(string \<Rightarrow> outcome) \<Rightarrow> cluster \<Rightarrow> (string \<times> nat) list option \<times> cluster" where
  "sizes env c =
     ((if \<forall>s \<in> set all_shards. pools c s \<noteq> None \<and> err_of (env s) = None
       then Some (map (\<lambda>s. (s, length (the (pools c s)))) all_shards) else None), c)"

text \<open>\<open>printBurst\<close>: writes and percentage per shard; an empty burst divides by zero.\<close>

definition print_burst :: "(string \<times> nat) list \<Rightarrow> (string \<times> nat \<times> nat) list option" where
  "print_burst counts =
     (let total = sum_list (map snd counts)
      in if total = 0 then None
         else Some (map (\<lambda>s. let n = (case map_of counts s of None \<Rightarrow> 0 | Some n \<Rightarrow> n) in (s, n, n * 100 div total)) all_shards))"

definition query_revenue :: "(string \<Rightarrow> outcome) \<Rightarrow> int \<Rightarrow> int \<Rightarrow> cluster \<Rightarrow> (string list \<times> int) option \<times> cluster" where
  "query_revenue env from to c =
     (let targets = shards_for c from to
      in ((if \<forall>s \<in> set targets. err_of (env s) = None
           then map_option (Pair targets) (revenue c from to targets) else None), c))"

definition insert_burst :: "rmain_env \<Rightarrow> nat \<Rightarrow> order_row list \<Rightarrow> cluster \<Rightarrow> (string \<times> nat \<times> nat) list option \<times> cluster" where
  "insert_burst e k os = and_then (insert_all (copies e k) (map_order e k) os) (\<lambda>counts c. (print_burst counts, c))"

record rmain_result =
  loaded :: nat
  sizes_loaded :: "(string \<times> nat) list"
  march :: "string list \<times> int"
  burst1 :: "(string \<times> nat \<times> nat) list"
  sizes_before :: "(string \<times> nat) list"
  moved_rows :: nat
  sizes_after :: "(string \<times> nat) list"
  burst2 :: "(string \<times> nat \<times> nat) list"
  burst3 :: "(string \<times> nat \<times> nat) list"
  recent :: "string list"

definition no_pools :: cluster where
  "no_pools = \<lparr>pools = Map.empty, ranges = []\<rparr>"

definition loaded_history :: "rmain_env \<Rightarrow> order_row list" where
  "loaded_history e = history e 0 (jan1 (year_of (clock e) - 2))"

text \<open>The three bursts: now, one minute later, and one minute after the cut of the mitigation.\<close>

definition first_burst :: "rmain_env \<Rightarrow> order_row list" where
  "first_burst e = burst e (length (loaded_history e)) (clock e) 1500"

definition second_burst :: "rmain_env \<Rightarrow> order_row list" where
  "second_burst e = burst e (length (loaded_history e) + 1500) (clock e + minute) 1500"

definition third_burst :: "rmain_env \<Rightarrow> order_row list" where
  "third_burst e = burst e (length (loaded_history e) + 3000) (clock e + 2 * minute + minute) 1500"

definition split_point :: "rmain_env \<Rightarrow> int" where
  "split_point e =
     (let now = clock e; start = jan1 (year_of now) in truncate_to day (start + (now - start) div 2))"

definition range_main :: "rmain_env \<Rightarrow> rmain_result option \<times> cluster" where
  "range_main e =
     (let now = clock e; y = year_of now; hist = loaded_history e; n = length hist; cut = now + 2 * minute
      in and_then (open_pools e all_shards) (\<lambda>_.
         and_then (must Done (\<lambda>c. c\<lparr>ranges := year_ranges y\<rparr>)) (\<lambda>_.
         and_then (insert_all (copies e 0) (map_order e 0) hist) (\<lambda>_.
         and_then (sizes (counting e 0)) (\<lambda>sz0.
         and_then (query_revenue (sums e) (march1 (y - 1)) (march1 (y - 1) + 31 * day)) (\<lambda>mr.
         and_then (insert_burst e 1 (first_burst e)) (\<lambda>b1.
         and_then (sizes (counting e 1)) (\<lambda>sz1.
         and_then (split_range (splitting e) (split_point e) ''shard4'') (\<lambda>moved.
         and_then (sizes (counting e 2)) (\<lambda>sz2.
         and_then (insert_burst e 2 (second_burst e)) (\<lambda>b2.
         and_then (must Done (spread_current cut [''shard3'', ''shard4''])) (\<lambda>_.
         and_then (insert_burst e 3 (third_burst e)) (\<lambda>b3 c.
         (Some \<lparr>loaded = n, sizes_loaded = sz0, march = mr, burst1 = b1, sizes_before = sz1, moved_rows = moved,
            sizes_after = sz2, burst2 = b2, burst3 = b3, recent = shards_for c cut (cut + hour)\<rparr>, c))))))))))))) no_pools)"

section \<open>Servers that answer\<close>

definition answers :: "rmain_env \<Rightarrow> bool" where
  "answers e \<longleftrightarrow> (\<forall>s. pings e s = Done \<and> truncates e s = Done \<and> sums e s = Done) \<and>
     (\<forall>k. copies e k = (\<lambda>_. Done) \<and> counting e k = (\<lambda>_. Done)) \<and> splitting e = (Done, Done, Done, Done)"

text \<open>A cluster whose four shards hold the rows \<open>t\<close>.\<close>

definition holding :: "(string \<Rightarrow> order_row list) \<Rightarrow> range list \<Rightarrow> cluster" where
  "holding t rs = \<lparr>pools = (\<lambda>s. if s \<in> set all_shards then Some (t s) else None), ranges = rs\<rparr>"

lemma holding_sel [simp]:
  "ranges (holding t rs) = rs" "(holding t rs)\<lparr>ranges := rs'\<rparr> = holding t rs'"
  "pools (holding t rs) s = (if s \<in> set all_shards then Some (t s) else None)"
  by (simp_all add: holding_def)

lemma route_holding [simp]: "route (holding t rs) d cust = route_in rs d cust"
  by (simp add: route_def)

lemma all_distinct: "distinct all_shards"
  by (simp add: all_shards_def)

lemma open_pools_Done:
  assumes "answers e"
  shows "open_pools e ss c = (Some (), c\<lparr>pools := (\<lambda>s. if s \<in> set ss then Some [] else pools c s)\<rparr>)"
proof (induction ss arbitrary: c)
  case (Cons s ss)
  with assms show ?case
    by (auto simp: and_then_def must_def answers_def fun_eq_iff intro!: cluster.equality)
qed (simp add: give_def)

lemma opened: "answers e \<Longrightarrow> open_pools e all_shards no_pools = (Some (), holding (\<lambda>_. []) [])"
  by (auto simp: open_pools_Done holding_def no_pools_def fun_eq_iff)

lemma by_shard_owner:
  assumes "\<forall>r \<in> set os. route c (placed_on r) (customer r) = Some (f r)"
  shows "by_shard c os m = Some (\<lambda>s. m s @ filter (\<lambda>r. f r = s) os)"
  using assms by (induction os arbitrary: m) (auto simp: fun_eq_iff)

lemma copy_groups_Done:
  assumes "distinct ss" and "set ss \<subseteq> set all_shards"
    and "\<forall>s. ids_of (m s) \<inter> ids_of (t s) = {} \<and> distinct (map row_id (m s))"
  shows "copy_groups (\<lambda>_. Done) m ss (holding t rs) =
    (Some (map (\<lambda>s. (s, length (m s))) ss), holding (\<lambda>s. if s \<in> set ss then t s @ m s else t s) rs)"
  using assms
proof (induction ss arbitrary: t m)
  case (Cons s ss)
  then have c: "copy_from Done s (m s) (holding t rs) = (Some (), holding (t(s := t s @ m s)) rs)"
    by (auto simp: copy_from_def holding_def fun_eq_iff)
  have "copy_groups (\<lambda>_. Done) (m(s := [])) ss (holding (t(s := t s @ m s)) rs) =
    (Some (map (\<lambda>s'. (s', length ((m(s := [])) s'))) ss),
     holding (\<lambda>s'. if s' \<in> set ss then (t(s := t s @ m s)) s' @ (m(s := [])) s' else (t(s := t s @ m s)) s') rs)"
    by (rule Cons.IH) (use Cons.prems in \<open>auto simp: ids_of_def\<close>)
  moreover have "copy_groups (\<lambda>_. Done) (m(s := [])) ss' c = copy_groups (\<lambda>_. Done) m ss' c" if "s \<notin> set ss'" for ss' c
    using that by (induction ss' arbitrary: c) (auto split: prod.splits option.splits)
  ultimately show ?case using Cons.prems(1) c
    by (auto simp: fun_eq_iff holding_def cong: map_cong)
qed (simp add: holding_def)

lemma kept_none: "\<forall>r \<in> set os. f r \<in> set ss \<Longrightarrow> s \<notin> set ss \<Longrightarrow> filter (\<lambda>r. f r = s) os = []"
  by (auto simp: filter_empty_conv)

lemma insert_all_Done:
  fixes f :: "order_row \<Rightarrow> string"
  assumes own: "\<forall>r \<in> set os. route_in rs (placed_on r) (customer r) = Some (f r) \<and> f r \<in> set all_shards"
    and ids: "\<forall>s. ids_of os \<inter> ids_of (t s) = {}" "distinct (map row_id os)" and perm: "\<forall>xs. mset (ord xs) = mset xs"
  defines "m \<equiv> \<lambda>s. filter (\<lambda>r. f r = s) os"
  shows "insert_all (\<lambda>_. Done) ord os (holding t rs) =
    (Some (map (\<lambda>s. (s, length (m s))) (ord (filter (\<lambda>s. m s \<noteq> []) all_shards))), holding (\<lambda>s. t s @ m s) rs)"
proof -
  let ?ss = "ord (filter (\<lambda>s. m s \<noteq> []) all_shards)"
  have g: "by_shard (holding t rs) os (\<lambda>_. []) = Some m"
    using by_shard_owner [of os "holding t rs" f] own by (simp add: m_def)
  have set: "set ?ss = {s \<in> set all_shards. m s \<noteq> []}" using perm by (metis set_filter set_mset_mset)
  have "distinct ?ss" using perm by (metis distinct_filter all_distinct mset_eq_imp_distinct_iff)
  moreover have "ids_of (m s) \<inter> ids_of (t s) = {} \<and> distinct (map row_id (m s))" for s
    using ids by (auto simp: m_def ids_of_def distinct_map_filter)
  ultimately have "copy_groups (\<lambda>_. Done) m ?ss (holding t rs) =
      (Some (map (\<lambda>s. (s, length (m s))) ?ss), holding (\<lambda>s. if s \<in> set ?ss then t s @ m s else t s) rs)"
    by (intro copy_groups_Done) (auto simp: set)
  moreover have "holding (\<lambda>s. if s \<in> set ?ss then t s @ m s else t s) rs = holding (\<lambda>s. t s @ m s) rs"
    by (auto simp: holding_def set fun_eq_iff)
  ultimately show ?thesis by (simp add: insert_all_def insert_orders_def g)
qed

lemma sum_owned:
  assumes "distinct ss" and "\<forall>r \<in> set os. f r \<in> set ss"
  shows "(\<Sum>s \<leftarrow> ss. length (filter (\<lambda>r. f r = s) os)) = length os"
  using assms(2)
proof (induction os)
  case (Cons r os)
  have "(\<Sum>s \<leftarrow> ss. length (filter (\<lambda>r. f r = s) (r # os))) =
      (\<Sum>s \<leftarrow> ss. if s = f r then 1 else 0) + (\<Sum>s \<leftarrow> ss. length (filter (\<lambda>r. f r = s) os))"
    by (auto simp: sum_list_addf [symmetric] intro!: arg_cong [where f = sum_list])
  also have "(\<Sum>s \<leftarrow> ss. if s = f r then 1 else 0) = (1 :: nat)"
    using assms(1) Cons.prems by (simp add: sum_list_distinct_conv_sum_set)
  finally show ?case using Cons by simp
qed simp

lemma map_of_counts: "map_of (map (\<lambda>s. (s, g s)) ss) x = (if x \<in> set ss then Some (g x) else None)"
  by (induction ss) auto

lemma insert_burst_Done:
  fixes f :: "order_row \<Rightarrow> string"
  assumes "answers e" and own: "\<forall>r \<in> set os. route_in rs (placed_on r) (customer r) = Some (f r) \<and> f r \<in> set all_shards"
    and ids: "\<forall>s. ids_of os \<inter> ids_of (t s) = {}" "distinct (map row_id os)" and perm: "\<forall>xs. mset (map_order e k xs) = mset xs"
    and "os \<noteq> []"
  defines "m \<equiv> \<lambda>s. filter (\<lambda>r. f r = s) os"
  shows "insert_burst e k os (holding t rs) =
    (Some (map (\<lambda>s. (s, length (m s), length (m s) * 100 div length os)) all_shards), holding (\<lambda>s. t s @ m s) rs)"
proof -
  let ?ss = "map_order e k (filter (\<lambda>s. m s \<noteq> []) all_shards)"
  have set: "set ?ss = {s \<in> set all_shards. m s \<noteq> []}" using perm by (metis set_filter set_mset_mset)
  have dist: "distinct ?ss" using perm by (metis distinct_filter all_distinct mset_eq_imp_distinct_iff)
  have "m (f r) \<noteq> []" if "r \<in> set os" for r using that by (auto simp: m_def filter_empty_conv)
  then have "\<forall>r \<in> set os. f r \<in> set ?ss" using own by (simp add: set)
  from sum_owned [OF dist this] have "(\<Sum>s \<leftarrow> ?ss. length (m s)) = length os" by (simp add: m_def)
  with \<open>os \<noteq> []\<close> have "print_burst (map (\<lambda>s. (s, length (m s))) ?ss) =
      Some (map (\<lambda>s. (s, length (m s), length (m s) * 100 div length os)) all_shards)"
    by (auto simp: print_burst_def Let_def o_def map_of_counts set)
  with insert_all_Done [OF own ids perm] assms(1) show ?thesis
    by (simp add: insert_burst_def and_then_def answers_def m_def)
qed

section \<open>The orders\<close>

lemma history_ids: "map row_id (history e i t) = map (uuids e) [i..<i + length (history e i t)]"
proof (induction e i t rule: history.induct)
  case (1 e i t)
  show ?case
  proof (cases "t < clock e")
    case True
    then have h: "history e i t = new_order e i t # history e (Suc i) (t + 4 * hour)" by (simp add: history.simps [of e i t])
    show ?thesis using "1.IH" [OF True] unfolding h by (simp add: upt_conv_Cons new_order_def del: upt_Suc)
  qed (simp add: history.simps [of e i t])
qed

lemma history_in: "r \<in> set (history e i t) \<Longrightarrow> t \<le> placed_on r \<and> placed_on r < clock e \<and> (\<exists>j. customer r = customers e j)"
proof (induction e i t rule: history.induct)
  case (1 e i t)
  then have "t < clock e" by (simp add: history.simps [of e i t] split: if_splits)
  with 1 have "r = new_order e i t \<or> r \<in> set (history e (Suc i) (t + 4 * hour))"
    by (simp add: history.simps [of e i t])
  moreover have "0 \<le> 4 * hour" by (simp add: hour_def minute_def)
  ultimately show ?case using "1.IH" [OF \<open>t < clock e\<close>] \<open>t < clock e\<close> by (fastforce simp: new_order_def)
qed

lemma burst_ids: "map row_id (burst e i t n) = map (uuids e) [i..<i + n]"
  by (rule nth_equalityI) (simp_all add: burst_def new_order_def)

lemma burst_length [simp]: "length (burst e i t n) = n"
  by (simp add: burst_def)

lemma burst_in:
  assumes "r \<in> set (burst e i t 1500)"
  shows "t \<le> placed_on r \<and> placed_on r < t + minute \<and> (\<exists>j. customer r = customers e j)"
proof -
  from assms obtain k where k: "k < 1500" "r = new_order e (i + k) (t + int k * millis)" by (auto simp: burst_def)
  then have "int k * millis < minute" by (simp add: millis_def minute_def)
  with k show ?thesis by (auto simp: new_order_def millis_def)
qed

lemma ids_numbered: "map row_id os = map (uuids e) ns \<Longrightarrow> ids_of os = uuids e ` set ns"
  by (metis ids_of_def list.set_map)

lemma fresh_ids:
  assumes "inj (uuids e)" and "map row_id os = map (uuids e) [i..<j]"
  shows "distinct (map row_id os)" "ids_of (filter P os) \<subseteq> uuids e ` {i..<j}"
    "A \<subseteq> uuids e ` {..<i} \<Longrightarrow> ids_of os \<inter> A = {}"
proof -
  show "distinct (map row_id os)" using assms by (simp add: distinct_map inj_on_subset [OF assms(1)])
  have i: "ids_of os = uuids e ` {i..<j}" using ids_numbered [OF assms(2)] by simp
  then show "ids_of (filter P os) \<subseteq> uuids e ` {i..<j}" by (auto simp: ids_of_def)
  show "A \<subseteq> uuids e ` {..<i} \<Longrightarrow> ids_of os \<inter> A = {}"
    unfolding i using assms(1) by (fastforce dest: injD)
qed

section \<open>The range maps of the run\<close>

definition split_ranges :: "int \<Rightarrow> int \<Rightarrow> range list" where
  "split_ranges y at =
     [\<lparr>from_time = jan1 (y - 2), to_time = Some (jan1 (y - 1)), shards = [''shard1'']\<rparr>,
      \<lparr>from_time = jan1 (y - 1), to_time = Some (jan1 y), shards = [''shard2'']\<rparr>,
      \<lparr>from_time = jan1 y, to_time = Some at, shards = [''shard3'']\<rparr>,
      \<lparr>from_time = at, to_time = None, shards = [''shard4'']\<rparr>]"

definition final_ranges :: "int \<Rightarrow> int \<Rightarrow> int \<Rightarrow> range list" where
  "final_ranges y at till =
     [\<lparr>from_time = jan1 (y - 2), to_time = Some (jan1 (y - 1)), shards = [''shard1'']\<rparr>,
      \<lparr>from_time = jan1 (y - 1), to_time = Some (jan1 y), shards = [''shard2'']\<rparr>,
      \<lparr>from_time = jan1 y, to_time = Some at, shards = [''shard3'']\<rparr>,
      \<lparr>from_time = at, to_time = Some till, shards = [''shard4'']\<rparr>,
      \<lparr>from_time = till, to_time = None, shards = [''shard3'', ''shard4'']\<rparr>]"

definition year_owner :: "int \<Rightarrow> order_row \<Rightarrow> string" where
  "year_owner y r =
     (if placed_on r < jan1 (y - 1) then ''shard1'' else if placed_on r < jan1 y then ''shard2'' else ''shard3'')"

lemma years_increase: "jan1 (y - 2) < jan1 (y - 1)" "jan1 (y - 1) < jan1 y"
  using year_length [of "y - 2"] year_length [of "y - 1"] day_pos by (simp_all add: algebra_simps)

lemma only_shard: "at_index [s] (go_rem cust 1) = Some s"
  by (simp add: at_index_def go_rem_def)

lemma two_shards: "0 \<le> cust \<Longrightarrow> at_index [s, s'] (go_rem cust 2) = Some (if cust mod 2 = 0 then s else s')"
  by (auto simp: at_index_def go_rem_pos)

lemma route_years:
  "jan1 (y - 2) \<le> placed_on r \<Longrightarrow> route_in (year_ranges y) (placed_on r) (customer r) = Some (year_owner y r)"
  using years_increase [of y] by (auto simp: year_ranges_def contains_def only_shard year_owner_def)

lemma route_split_ranges:
  assumes "jan1 y \<le> at" "jan1 (y - 2) \<le> d"
  shows "route_in (split_ranges y at) d cust = Some (if d < jan1 (y - 1) then ''shard1'' else if d < jan1 y then ''shard2''
    else if d < at then ''shard3'' else ''shard4'')"
  using years_increase [of y] assms by (auto simp: split_ranges_def contains_def only_shard)

lemma route_final_ranges:
  assumes "jan1 y \<le> at" "at < till" "jan1 (y - 2) \<le> d" "0 \<le> cust"
  shows "route_in (final_ranges y at till) d cust = Some (if d < jan1 (y - 1) then ''shard1'' else if d < jan1 y then ''shard2''
    else if d < at then ''shard3'' else if d < till \<or> cust mod 2 \<noteq> 0 then ''shard4'' else ''shard3'')"
  using years_increase [of y] assms by (auto simp: final_ranges_def contains_def only_shard two_shards)

lemma spread_split: "spread_current till [''shard3'', ''shard4''] (holding t (split_ranges y at)) = holding t (final_ranges y at till)"
  by (simp add: spread_current_def split_ranges_def final_ranges_def)

lemma split_years:
  assumes "jan1 y \<le> at" and "t ''shard4'' = []" and "distinct (map row_id (t ''shard3''))"
  shows "split_range (Done, Done, Done, Done) at ''shard4'' (holding t (year_ranges y)) =
    (Some (length (filter (\<lambda>r. at \<le> placed_on r) (t ''shard3''))),
     holding (t(''shard3'' := filter (\<lambda>r. \<not> at \<le> placed_on r) (t ''shard3''),
       ''shard4'' := filter (\<lambda>r. at \<le> placed_on r) (t ''shard3''))) (split_ranges y at))"
proof -
  have "index_func (\<lambda>r. contains r at) (year_ranges y) = Some 2"
    using assms(1) years_increase [of y] by (simp add: year_ranges_def contains_def)
  moreover have "year_ranges y ! 2 = \<lparr>from_time = jan1 y, to_time = None, shards = [''shard3'']\<rparr>"
    by (simp add: year_ranges_def)
  ultimately show ?thesis
    using assms(2,3)
    by (simp add: split_range_def Let_def copy_from_def ids_of_def distinct_map_filter all_shards_def)
      (auto simp: holding_def all_shards_def fun_eq_iff year_ranges_def split_ranges_def)
qed

lemma march_query:
  assumes "answers e"
  shows "query_revenue (sums e) (march1 (y - 1)) (march1 (y - 1) + 31 * day) (holding t (year_ranges y)) =
    (Some ([''shard2''], \<Sum>r \<leftarrow> filter (\<lambda>r. march1 (y - 1) \<le> placed_on r \<and> placed_on r < march1 (y - 1) + 31 * day) (t ''shard2''). amount r),
     holding t (year_ranges y))"
proof -
  have "jan1 (y - 1) < march1 (y - 1)" "march1 (y - 1) + 31 * day < jan1 y"
    using year_length [of "y - 1"] day_pos by (simp_all add: march1_def)
  then have "shards_for (holding t (year_ranges y)) (march1 (y - 1)) (march1 (y - 1) + 31 * day) = [''shard2'']"
    using day_pos years_increase [of y] by (simp add: shards_for_def year_ranges_def overlaps_def add_new_def)
  then show ?thesis using assms by (simp add: query_revenue_def Let_def revenue_on_def answers_def all_shards_def)
qed

lemma sizes_Done: "answers e \<Longrightarrow> sizes (counting e k) (holding t rs) = (Some (map (\<lambda>s. (s, length (t s))) all_shards), holding t rs)"
  by (simp add: sizes_def answers_def)

section \<open>The whole run\<close>

lemma split_point_bounds: "jan1 (year_of (clock e)) \<le> split_point e \<and> split_point e \<le> clock e"
proof -
  let ?s = "jan1 (year_of (clock e))" and ?m = "jan1 (year_of (clock e)) + (clock e - jan1 (year_of (clock e))) div 2"
  have half: "x div 2 \<le> x" if "0 \<le> x" for x :: int using that by linarith
  have m: "?s \<le> ?m" "?m \<le> clock e"
    using year_of_bounds [of "clock e"] half [of "clock e - ?s"] by simp_all
  have "days_before (year_of (clock e) - 1) \<le> ?m div day" using m(1) jan1_le_iff by blast
  then have "?s \<le> ?m div day * day" unfolding jan1_def using day_pos by (simp add: mult_right_mono)
  then have "?s \<le> ?m - ?m mod day" by (simp add: minus_mod_eq_div_mult)
  moreover have "?m - ?m mod day \<le> ?m" using day_pos by simp
  ultimately show ?thesis using m(2) by (simp add: split_point_def Let_def truncate_to_def)
qed

text \<open>What the four shards hold in the end: the history by year, the newest year cut at the split point, the first two
  bursts on shard4 and the third by customer on shard3 and shard4.\<close>

definition final_content :: "rmain_env \<Rightarrow> string \<Rightarrow> order_row list" where
  "final_content e s =
     (let now = clock e; y = year_of now; hist = loaded_history e; at = split_point e
      in if s = ''shard1'' then filter (\<lambda>r. placed_on r < jan1 (y - 1)) hist
         else if s = ''shard2'' then filter (\<lambda>r. jan1 (y - 1) \<le> placed_on r \<and> placed_on r < jan1 y) hist
         else if s = ''shard3'' then filter (\<lambda>r. jan1 y \<le> placed_on r \<and> placed_on r < at) hist @ filter (\<lambda>r. customer r mod 2 = 0) (third_burst e)
         else filter (\<lambda>r. at \<le> placed_on r) hist @ first_burst e @ second_burst e @ filter (\<lambda>r. customer r mod 2 \<noteq> 0) (third_burst e))"

definition range_report :: "rmain_env \<Rightarrow> rmain_result" where
  "range_report e =
     (let now = clock e; y = year_of now; hist = loaded_history e; at = split_point e;
          n1 = length (filter (\<lambda>r. placed_on r < jan1 (y - 1)) hist);
          n2 = length (filter (\<lambda>r. jan1 (y - 1) \<le> placed_on r \<and> placed_on r < jan1 y) hist);
          n3 = length (filter (\<lambda>r. jan1 y \<le> placed_on r) hist); up = length (filter (\<lambda>r. at \<le> placed_on r) hist);
          even = length (filter (\<lambda>r. customer r mod 2 = 0) (third_burst e))
      in \<lparr>loaded = length hist,
          sizes_loaded = [(''shard1'', n1), (''shard2'', n2), (''shard3'', n3), (''shard4'', 0)],
          march = ([''shard2''], \<Sum>r \<leftarrow> filter (\<lambda>r. march1 (y - 1) \<le> placed_on r \<and> placed_on r < march1 (y - 1) + 31 * day) hist. amount r),
          burst1 = [(''shard1'', 0, 0), (''shard2'', 0, 0), (''shard3'', 1500, 100), (''shard4'', 0, 0)],
          sizes_before = [(''shard1'', n1), (''shard2'', n2), (''shard3'', n3 + 1500), (''shard4'', 0)],
          moved_rows = up + 1500,
          sizes_after = [(''shard1'', n1), (''shard2'', n2),
                         (''shard3'', length (filter (\<lambda>r. jan1 y \<le> placed_on r \<and> placed_on r < at) hist)), (''shard4'', up + 1500)],
          burst2 = [(''shard1'', 0, 0), (''shard2'', 0, 0), (''shard3'', 0, 0), (''shard4'', 1500, 100)],
          burst3 = [(''shard1'', 0, 0), (''shard2'', 0, 0), (''shard3'', even, even * 100 div 1500),
                    (''shard4'', 1500 - even, (1500 - even) * 100 div 1500)],
          recent = [''shard3'', ''shard4'']\<rparr>)"

lemma recent_query:
  assumes "jan1 y \<le> at" "at < till"
  shows "shards_for (holding t (final_ranges y at till)) till (till + hour) = [''shard3'', ''shard4'']"
  using assms years_increase [of y] by (simp add: shards_for_def final_ranges_def overlaps_def add_new_def hour_def minute_def)

lemma ids_append: "ids_of (xs @ ys) = ids_of xs \<union> ids_of ys"
  by (auto simp: ids_of_def)

definition legal_draws :: "rmain_env \<Rightarrow> bool" where
  "legal_draws e \<longleftrightarrow> inj (uuids e) \<and> (\<forall>i. 0 \<le> customers e i) \<and> (\<forall>k xs. mset (map_order e k xs) = mset xs)"

text \<open>The contents of the shards at the stages of the run.\<close>

definition by_year :: "rmain_env \<Rightarrow> string \<Rightarrow> order_row list" where
  "by_year e s = filter (\<lambda>r. year_owner (year_of (clock e)) r = s) (loaded_history e)"

definition before_split :: "rmain_env \<Rightarrow> string \<Rightarrow> order_row list" where
  "before_split e s = by_year e s @ filter (\<lambda>r. ''shard3'' = s) (first_burst e)"

definition after_split :: "rmain_env \<Rightarrow> string \<Rightarrow> order_row list" where
  "after_split e = (before_split e)
     (''shard3'' := filter (\<lambda>r. \<not> split_point e \<le> placed_on r) (before_split e ''shard3''),
      ''shard4'' := filter (\<lambda>r. split_point e \<le> placed_on r) (before_split e ''shard3''))"

definition after_second :: "rmain_env \<Rightarrow> string \<Rightarrow> order_row list" where
  "after_second e s = after_split e s @ filter (\<lambda>r. ''shard4'' = s) (second_burst e)"

definition half_owner :: "order_row \<Rightarrow> string" where
  "half_owner r = (if customer r mod 2 = 0 then ''shard3'' else ''shard4'')"

definition after_third :: "rmain_env \<Rightarrow> string \<Rightarrow> order_row list" where
  "after_third e s = after_second e s @ filter (\<lambda>r. half_owner r = s) (third_burst e)"

lemma history_facts:
  assumes "legal_draws e"
  shows "map row_id (loaded_history e) = map (uuids e) [0..<length (loaded_history e)]"
    and "r \<in> set (loaded_history e) \<Longrightarrow> jan1 (year_of (clock e) - 2) \<le> placed_on r \<and> placed_on r < clock e \<and> 0 \<le> customer r"
proof -
  show "map row_id (loaded_history e) = map (uuids e) [0..<length (loaded_history e)]"
    using history_ids [of e 0] by (simp add: loaded_history_def)
  assume "r \<in> set (loaded_history e)"
  with history_in [of r e 0] obtain j where
    "jan1 (year_of (clock e) - 2) \<le> placed_on r" "placed_on r < clock e" "customer r = customers e j"
    unfolding loaded_history_def by blast
  with assms show "jan1 (year_of (clock e) - 2) \<le> placed_on r \<and> placed_on r < clock e \<and> 0 \<le> customer r"
    by (simp add: legal_draws_def)
qed

lemma burst_ids_of_run:
  "map row_id (first_burst e) = map (uuids e) [length (loaded_history e)..<length (loaded_history e) + 1500]"
  "map row_id (second_burst e) = map (uuids e) [length (loaded_history e) + 1500..<length (loaded_history e) + 3000]"
  "map row_id (third_burst e) = map (uuids e) [length (loaded_history e) + 3000..<length (loaded_history e) + 4500]"
  by (simp_all add: first_burst_def second_burst_def third_burst_def burst_ids add.commute [of _ "length (loaded_history e)"])

lemma burst_lengths [simp]: "length (first_burst e) = 1500" "length (second_burst e) = 1500" "length (third_burst e) = 1500"
  by (simp_all add: first_burst_def second_burst_def third_burst_def)

lemma burst_times:
  "r \<in> set (first_burst e) \<Longrightarrow> clock e \<le> placed_on r \<and> placed_on r < clock e + minute"
  "r \<in> set (second_burst e) \<Longrightarrow> clock e + minute \<le> placed_on r \<and> placed_on r < clock e + 2 * minute"
  "r \<in> set (third_burst e) \<Longrightarrow> clock e + 3 * minute \<le> placed_on r"
  by (auto simp: first_burst_def second_burst_def third_burst_def dest: burst_in)

lemma burst_customers:
  assumes "legal_draws e" and "r \<in> set (first_burst e) \<union> set (second_burst e) \<union> set (third_burst e)"
  shows "0 \<le> customer r"
  using assms by (auto simp: first_burst_def second_burst_def third_burst_def legal_draws_def dest!: burst_in)

lemma history_inserted:
  assumes "answers e" and "legal_draws e"
  shows "\<exists>counts. insert_all (copies e 0) (map_order e 0) (loaded_history e) (holding (\<lambda>_. []) (year_ranges (year_of (clock e)))) =
    (Some counts, holding (by_year e) (year_ranges (year_of (clock e))))"
proof -
  let ?y = "year_of (clock e)"
  have "\<forall>r \<in> set (loaded_history e). route_in (year_ranges ?y) (placed_on r) (customer r) = Some (year_owner ?y r) \<and> year_owner ?y r \<in> set all_shards"
    using history_facts(2) [OF assms(2)] by (simp add: route_years) (simp add: year_owner_def all_shards_def)
  from insert_all_Done [OF this, of "\<lambda>_. []" "map_order e 0"] assms fresh_ids(1) [OF _ history_facts(1) [OF assms(2)]]
  show ?thesis by (simp add: answers_def legal_draws_def ids_of_def by_year_def [abs_def])
qed

text \<open>The bursts bring fresh ids.\<close>

lemma stage_ids:
  assumes "legal_draws e"
  shows "ids_of (by_year e s) \<subseteq> uuids e ` {..<length (loaded_history e)}"
    and "ids_of (after_split e s) \<subseteq> uuids e ` {..<length (loaded_history e) + 1500}"
    and "ids_of (after_second e s) \<subseteq> uuids e ` {..<length (loaded_history e) + 3000}"
proof -
  let ?n = "length (loaded_history e)"
  have u: "inj (uuids e)" using assms by (simp add: legal_draws_def)
  have y: "ids_of (by_year e s) \<subseteq> uuids e ` {..<?n}" for s
    using fresh_ids(2) [OF u history_facts(1) [OF assms]] unfolding by_year_def by fastforce
  then show "ids_of (by_year e s) \<subseteq> uuids e ` {..<?n}" .
  have "ids_of (filter (\<lambda>r. ''shard3'' = s) (first_burst e)) \<subseteq> uuids e ` {?n..<?n + 1500}" for s
    by (rule fresh_ids(2) [OF u burst_ids_of_run(1)])
  with y have b: "ids_of (before_split e s) \<subseteq> uuids e ` {..<?n + 1500}" for s
    unfolding before_split_def ids_append by fastforce
  then have sp: "ids_of (after_split e s) \<subseteq> uuids e ` {..<?n + 1500}" for s
    using b [of s] b [of "''shard3''"] by (auto simp: after_split_def ids_of_def)
  then show "ids_of (after_split e s) \<subseteq> uuids e ` {..<?n + 1500}" .
  have "ids_of (filter (\<lambda>r. ''shard4'' = s) (second_burst e)) \<subseteq> uuids e ` {?n + 1500..<?n + 3000}"
    by (rule fresh_ids(2) [OF u burst_ids_of_run(2)])
  with sp [of s] show "ids_of (after_second e s) \<subseteq> uuids e ` {..<?n + 3000}"
    unfolding after_second_def ids_append by fastforce
qed

lemma burst_inserted:
  assumes "answers e" "legal_draws e" and own: "\<forall>r \<in> set os. route_in rs (placed_on r) (customer r) = Some (f r) \<and> f r \<in> set all_shards"
    and ids: "map row_id os = map (uuids e) [i..<j]" "\<And>s. ids_of (t s) \<subseteq> uuids e ` {..<i}" and "length os = 1500"
  shows "insert_burst e k os (holding t rs) =
    (Some (map (\<lambda>s. (s, length (filter (\<lambda>r. f r = s) os), length (filter (\<lambda>r. f r = s) os) * 100 div 1500)) all_shards),
     holding (\<lambda>s. t s @ filter (\<lambda>r. f r = s) os) rs)"
proof -
  have "os \<noteq> []" using \<open>length os = 1500\<close> by auto
  then show ?thesis
    using insert_burst_Done [OF assms(1) own, of t k] fresh_ids(1,3) [OF _ ids(1)] ids(2) assms(2) \<open>length os = 1500\<close>
    by (simp add: legal_draws_def)
qed

lemma bursts_inserted:
  assumes "answers e" "legal_draws e"
  defines "y \<equiv> year_of (clock e)" and "at \<equiv> split_point e" and "till \<equiv> clock e + 2 * minute"
  shows "insert_burst e 1 (first_burst e) (holding (by_year e) (year_ranges y)) =
      (Some [(''shard1'', 0, 0), (''shard2'', 0, 0), (''shard3'', 1500, 100), (''shard4'', 0, 0)], holding (before_split e) (year_ranges y))"
    and "insert_burst e 2 (second_burst e) (holding (after_split e) (split_ranges y at)) =
      (Some [(''shard1'', 0, 0), (''shard2'', 0, 0), (''shard3'', 0, 0), (''shard4'', 1500, 100)], holding (after_second e) (split_ranges y at))"
    and "insert_burst e 3 (third_burst e) (holding (after_second e) (final_ranges y at till)) =
      (Some (map (\<lambda>s. (s, length (filter (\<lambda>r. half_owner r = s) (third_burst e)), length (filter (\<lambda>r. half_owner r = s) (third_burst e)) * 100 div 1500)) all_shards),
       holding (after_third e) (final_ranges y at till))"
proof -
  have at: "jan1 y \<le> at" "at \<le> clock e" using split_point_bounds [of e] by (simp_all add: y_def at_def)
  have mi: "0 < minute" by (simp add: minute_def)
  note yi = years_increase [of y]
  have "\<forall>r \<in> set (first_burst e). route_in (year_ranges y) (placed_on r) (customer r) = Some ''shard3'' \<and> ''shard3'' \<in> set all_shards"
    using burst_times(1) at yi by (fastforce simp: route_years year_owner_def all_shards_def)
  from burst_inserted [OF assms(1,2) this burst_ids_of_run(1) stage_ids(1) [OF assms(2)] burst_lengths(1)]
  show "insert_burst e 1 (first_burst e) (holding (by_year e) (year_ranges y)) =
      (Some [(''shard1'', 0, 0), (''shard2'', 0, 0), (''shard3'', 1500, 100), (''shard4'', 0, 0)], holding (before_split e) (year_ranges y))"
    by (simp add: all_shards_def before_split_def [abs_def])
  have "\<forall>r \<in> set (second_burst e). route_in (split_ranges y at) (placed_on r) (customer r) = Some ''shard4'' \<and> ''shard4'' \<in> set all_shards"
    using burst_times(2) at yi mi by (fastforce simp: route_split_ranges all_shards_def)
  from burst_inserted [OF assms(1,2) this burst_ids_of_run(2) stage_ids(2) [OF assms(2)] burst_lengths(2)]
  show "insert_burst e 2 (second_burst e) (holding (after_split e) (split_ranges y at)) =
      (Some [(''shard1'', 0, 0), (''shard2'', 0, 0), (''shard3'', 0, 0), (''shard4'', 1500, 100)], holding (after_second e) (split_ranges y at))"
    by (simp add: all_shards_def after_second_def [abs_def])
  have "route_in (final_ranges y at till) (placed_on r) (customer r) = Some (half_owner r) \<and> half_owner r \<in> set all_shards"
    if "r \<in> set (third_burst e)" for r
  proof -
    from burst_times(3) [OF that] burst_customers [OF assms(2)] that have "clock e + 3 * minute \<le> placed_on r" "0 \<le> customer r"
      by blast+
    with at yi mi show ?thesis by (simp add: route_final_ranges all_shards_def till_def half_owner_def)
  qed
  then have "\<forall>r \<in> set (third_burst e). route_in (final_ranges y at till) (placed_on r) (customer r) = Some (half_owner r) \<and> half_owner r \<in> set all_shards"
    by blast
  from burst_inserted [OF assms(1,2) this burst_ids_of_run(3) stage_ids(3) [OF assms(2)] burst_lengths(3)]
  show "insert_burst e 3 (third_burst e) (holding (after_second e) (final_ranges y at till)) =
      (Some (map (\<lambda>s. (s, length (filter (\<lambda>r. half_owner r = s) (third_burst e)), length (filter (\<lambda>r. half_owner r = s) (third_burst e)) * 100 div 1500)) all_shards),
       holding (after_third e) (final_ranges y at till))"
    by (simp add: after_third_def [abs_def])
qed

lemma newest_year_split:
  assumes "answers e" "legal_draws e"
  defines "y \<equiv> year_of (clock e)" and "at \<equiv> split_point e"
  shows "split_range (splitting e) at ''shard4'' (holding (before_split e) (year_ranges y)) =
    (Some (length (filter (\<lambda>r. at \<le> placed_on r) (before_split e ''shard3''))), holding (after_split e) (split_ranges y at))"
proof -
  have u: "inj (uuids e)" using assms(2) by (simp add: legal_draws_def)
  have "map row_id (loaded_history e @ first_burst e) = map (uuids e) [0..<length (loaded_history e) + 1500]"
    using history_facts(1) [OF assms(2)] burst_ids_of_run(1) upt_add_eq_append [of 0 "length (loaded_history e)" 1500] by simp
  then have "distinct (map row_id (loaded_history e @ first_burst e))" by (rule fresh_ids(1) [OF u])
  then have "distinct (map row_id (before_split e ''shard3''))"
    by (auto simp: before_split_def by_year_def distinct_map_filter)
  moreover have "before_split e ''shard4'' = []" by (simp add: before_split_def by_year_def filter_empty_conv year_owner_def)
  moreover have "jan1 y \<le> at" using split_point_bounds [of e] by (simp add: y_def at_def)
  ultimately show ?thesis
    using split_years [of y at "before_split e"] assms(1) unfolding answers_def after_split_def at_def by simp
qed

lemma stage_contents:
  assumes "legal_draws e"
  defines "y \<equiv> year_of (clock e)" and "at \<equiv> split_point e" and "hist \<equiv> loaded_history e"
  shows "by_year e ''shard1'' = filter (\<lambda>r. placed_on r < jan1 (y - 1)) hist"
    and "by_year e ''shard2'' = filter (\<lambda>r. jan1 (y - 1) \<le> placed_on r \<and> placed_on r < jan1 y) hist"
    and "by_year e ''shard3'' = filter (\<lambda>r. jan1 y \<le> placed_on r) hist"
    and "by_year e ''shard4'' = []"
    and "after_split e ''shard3'' = filter (\<lambda>r. jan1 y \<le> placed_on r \<and> placed_on r < at) hist"
    and "after_split e ''shard4'' = filter (\<lambda>r. at \<le> placed_on r) hist @ first_burst e"
proof -
  have at: "jan1 y \<le> at" "at \<le> clock e" using split_point_bounds [of e] by (simp_all add: y_def at_def)
  note yi = years_increase [of y]
  show y: "by_year e ''shard1'' = filter (\<lambda>r. placed_on r < jan1 (y - 1)) hist"
    "by_year e ''shard2'' = filter (\<lambda>r. jan1 (y - 1) \<le> placed_on r \<and> placed_on r < jan1 y) hist"
    "by_year e ''shard3'' = filter (\<lambda>r. jan1 y \<le> placed_on r) hist" "by_year e ''shard4'' = []"
    using yi by (auto simp: by_year_def year_owner_def hist_def y_def [symmetric] filter_empty_conv intro!: filter_cong)
  have b1: "filter (\<lambda>r. \<not> at \<le> placed_on r) (first_burst e) = []" "filter (\<lambda>r. at \<le> placed_on r) (first_burst e) = first_burst e"
    using burst_times(1) at by (fastforce simp: filter_empty_conv intro!: filter_True)+
  show "after_split e ''shard3'' = filter (\<lambda>r. jan1 y \<le> placed_on r \<and> placed_on r < at) hist"
    "after_split e ''shard4'' = filter (\<lambda>r. at \<le> placed_on r) hist @ first_burst e"
    using at by (auto simp: after_split_def before_split_def y at_def [symmetric] b1 intro!: filter_cong)
qed

lemma after_third_final:
  assumes "legal_draws e"
  shows "holding (after_third e) rs = holding (final_content e) rs"
proof -
  have "after_third e s = final_content e s" if "s \<in> set all_shards" for s
    using that stage_contents [OF assms]
    by (auto simp: all_shards_def after_third_def after_second_def final_content_def Let_def half_owner_def after_split_def
        before_split_def filter_empty_conv intro!: filter_cong)
  then show ?thesis by (auto simp: holding_def fun_eq_iff)
qed

lemma march_window: "jan1 y < march1 y" "march1 y + 31 * day < jan1 (y + 1)"
  using year_length [of y] day_pos by (simp_all add: march1_def)

lemma march_of_year:
  assumes "legal_draws e"
  defines "y \<equiv> year_of (clock e)"
  shows "filter (\<lambda>r. march1 (y - 1) \<le> placed_on r \<and> placed_on r < march1 (y - 1) + 31 * day) (by_year e ''shard2'') =
    filter (\<lambda>r. march1 (y - 1) \<le> placed_on r \<and> placed_on r < march1 (y - 1) + 31 * day) (loaded_history e)"
  using stage_contents(2) [OF assms(1)] march_window [of "y - 1"]
  by (auto simp: y_def intro!: filter_cong)

lemma upper_half:
  assumes "legal_draws e"
  shows "length (filter (\<lambda>r. split_point e \<le> placed_on r) (before_split e ''shard3'')) =
    length (filter (\<lambda>r. split_point e \<le> placed_on r) (loaded_history e)) + 1500"
proof -
  have "length (after_split e ''shard4'') = length (filter (\<lambda>r. split_point e \<le> placed_on r) (loaded_history e)) + 1500"
    by (simp add: stage_contents(6) [OF assms])
  then show ?thesis by (simp add: after_split_def)
qed

lemma half_owner_counts:
  "length (filter (\<lambda>r. half_owner r = ''shard3'') rs) = length (filter (\<lambda>r. customer r mod 2 = 0) rs)"
  "length (filter (\<lambda>r. half_owner r = ''shard4'') rs) = length rs - length (filter (\<lambda>r. customer r mod 2 = 0) rs)"
  "filter (\<lambda>r. half_owner r = ''shard1'') rs = []" "filter (\<lambda>r. half_owner r = ''shard2'') rs = []"
  using sum_length_filter_compl [of "\<lambda>r. customer r mod 2 = 0" rs]
  by (simp_all add: half_owner_def filter_empty_conv cong: filter_cong)

lemma recent_shards:
  "shards_for (holding t (final_ranges (year_of (clock e)) (split_point e) (clock e + 2 * minute))) (clock e + 2 * minute)
     (clock e + 2 * minute + hour) = [''shard3'', ''shard4'']"
  using split_point_bounds [of e] by (intro recent_query) (simp_all add: minute_def)

lemma stage_lengths:
  assumes "legal_draws e"
  defines "y \<equiv> year_of (clock e)" and "at \<equiv> split_point e" and "hist \<equiv> loaded_history e"
  shows "length (by_year e ''shard1'') = length (filter (\<lambda>r. placed_on r < jan1 (y - 1)) hist)"
    "length (by_year e ''shard2'') = length (filter (\<lambda>r. jan1 (y - 1) \<le> placed_on r \<and> placed_on r < jan1 y) hist)"
    "length (by_year e ''shard3'') = length (filter (\<lambda>r. jan1 y \<le> placed_on r) hist)" "length (by_year e ''shard4'') = 0"
    "length (before_split e s) = length (by_year e s) + (if s = ''shard3'' then 1500 else 0)"
    "length (after_split e ''shard1'') = length (by_year e ''shard1'')" "length (after_split e ''shard2'') = length (by_year e ''shard2'')"
    "length (after_split e ''shard3'') = length (filter (\<lambda>r. jan1 y \<le> placed_on r \<and> placed_on r < at) hist)"
    "length (after_split e ''shard4'') = length (filter (\<lambda>r. at \<le> placed_on r) hist) + 1500"
  by (simp_all add: stage_contents [OF assms(1)] y_def at_def hist_def before_split_def)
    (simp_all add: after_split_def before_split_def stage_contents [OF assms(1)])

lemma range_main_run:
  assumes "answers e" and "legal_draws e"
  shows "range_main e = (Some (range_report e),
    holding (final_content e) (final_ranges (year_of (clock e)) (split_point e) (clock e + 2 * minute)))"
proof -
  obtain counts where h: "insert_all (copies e 0) (map_order e 0) (loaded_history e) (holding (\<lambda>_. []) (year_ranges (year_of (clock e)))) =
    (Some counts, holding (by_year e) (year_ranges (year_of (clock e))))"
    using history_inserted [OF assms] by blast
  have r: "must Done (\<lambda>c. c\<lparr>ranges := rs\<rparr>) (holding t rs0) = (Some (), holding t rs)"
    "must Done (spread_current till [''shard3'', ''shard4'']) (holding t (split_ranges y at)) = (Some (), holding t (final_ranges y at till))"
    for rs t rs0 till y at
    by (simp_all add: must_def spread_split)
  show ?thesis
    unfolding range_main_def Let_def
    by (simp only: and_then_def opened [OF assms(1)] r h sizes_Done [OF assms(1)] march_query [OF assms(1)] bursts_inserted [OF assms]
          newest_year_split [OF assms] prod.case option.case recent_shards)
      (simp add: range_report_def Let_def after_third_final [OF assms(2)] march_of_year [OF assms(2)] upper_half [OF assms(2)]
        all_shards_def half_owner_counts stage_lengths [OF assms(2)])
qed

lemma final_map_ok: "map_ok (holding t (final_ranges (year_of (clock e)) (split_point e) (clock e + 2 * minute)))"
  using split_point_bounds [of e] years_increase [of "year_of (clock e)"]
  by (auto simp: map_ok_def final_ranges_def before_def all_shards_def minute_def split: if_splits)

lemma final_content_routed:
  assumes "legal_draws e" and s: "s \<in> set all_shards" and r: "r \<in> set (final_content e s)"
  shows "route_in (final_ranges (year_of (clock e)) (split_point e) (clock e + 2 * minute)) (placed_on r) (customer r) = Some s"
proof -
  let ?y = "year_of (clock e)"
  have at: "jan1 ?y \<le> split_point e" "split_point e \<le> clock e" and mi: "0 < minute"
    using split_point_bounds by (simp_all add: minute_def)
  note yi = years_increase [of ?y]
  have "r \<in> set (loaded_history e) \<or> r \<in> set (first_burst e) \<or> r \<in> set (second_burst e) \<or> r \<in> set (third_burst e)"
    using r by (auto simp: final_content_def Let_def split: if_splits)
  then have low: "jan1 (?y - 2) \<le> placed_on r" "0 \<le> customer r"
    using history_facts(2) [OF assms(1), of r] burst_customers [OF assms(1), of r] burst_times [of r e] at yi mi by auto
  from r show ?thesis
    using route_final_ranges [OF at(1) _ low, of "clock e + 2 * minute"] at mi yi s burst_times [of r e] history_facts(2) [OF assms(1), of r]
    by (auto simp: final_content_def Let_def all_shards_def split: if_splits)
qed

text \<open>C19: On servers that answer, \<open>main\<close> ends: it reports \<open>range_report\<close> (March from shard2 alone, the first burst on shard3,
  the second on shard4, the third on both), every row it wrote is on the shard that the final range map routes it to, and
  each shard holds exactly the rows that \<open>final_content\<close> gives it.\<close>

theorem range_main_result:
  assumes "answers e" and "legal_draws e"
  shows "\<exists>c. range_main e = (Some (range_report e), c) \<and> map_ok c \<and> placed c \<and> (\<forall>s \<in> set all_shards. pools c s = Some (final_content e s))"
proof (intro exI conjI)
  let ?c = "holding (final_content e) (final_ranges (year_of (clock e)) (split_point e) (clock e + 2 * minute))"
  show "range_main e = (Some (range_report e), ?c)" by (rule range_main_run [OF assms])
  show "map_ok ?c" by (rule final_map_ok)
  show "placed ?c" using final_content_routed [OF assms(2)] by (auto simp: placed_def split: if_splits)
qed simp

definition july :: rmain_env where
  "july = \<lparr>clock = jan1 2025 + 200 * day, leftover = (\<lambda>_. []), pings = (\<lambda>_. Done), truncates = (\<lambda>_. Done), customers = int, amounts = int,
     uuids = id, copies = (\<lambda>_ _. Done), map_order = (\<lambda>_. rev), sums = (\<lambda>_. Done), counting = (\<lambda>_ _. Done),
     splitting = (Done, Done, Done, Done)\<rparr>"

theorem range_main_result_witness:
  "\<exists>c. range_main july = (Some (range_report july), c) \<and> placed c"
  using range_main_result [of july] by (auto simp: july_def answers_def legal_draws_def)

end
