(* ===== verification/DirectorySharding.thy ===== *)
theory DirectorySharding
  imports GoStd
begin

text \<open>
  \<open>simulate_directory_based_sharding/main.go\<close>: tenants are placed by a directory, routers cache
  its rows, shards fence writes for tenants they do not host, and a tenant moves in five steps.
  \<open>log.Fatal\<close> ends a router: the result is \<open>None\<close>, and what it had committed stays.
\<close>

section \<open>Databases and routers\<close>

record dir_row =
  d_shard :: string
  d_moving :: bool
  d_version :: nat

type_synonym order_row = "string \<times> int \<times> int"  \<comment> \<open>tenant, id, amount\<close>

record shard_db =
  hosted :: "string set"
  orders :: "order_row list"

record world =
  shard_names :: "string \<rightharpoonup> bool"  \<comment> \<open>table shards: name and whether its status is open\<close>
  directory :: "string \<rightharpoonup> dir_row"
  dbs :: "string \<Rightarrow> shard_db"

record router =
  opened :: "string set"
  cache :: "string \<rightharpoonup> string \<times> nat"
  hits :: nat
  misses :: nat

definition new_router :: router where
  "new_router = \<lparr>opened = {}, cache = Map.empty, hits = 0, misses = 0\<rparr>"

definition rows_of :: "shard_db \<Rightarrow> string \<Rightarrow> order_row list" where
  "rows_of db t = filter (\<lambda>r. fst r = t) (orders db)"

text \<open>\<open>shard\<close>: open a pool for a shard the directory knows.\<close>

definition shard :: "outcome \<Rightarrow> world \<Rightarrow> string \<Rightarrow> router \<Rightarrow> unit option \<times> router" where
  "shard q w s r =
     (if s \<in> opened r then (Some (), r)
      else if err_of q \<noteq> None \<or> shard_names w s = None then (None, r)
      else (Some (), r\<lparr>opened := insert s (opened r)\<rparr>))"

definition lookup :: "outcome \<Rightarrow> world \<Rightarrow> string \<Rightarrow> router \<Rightarrow> (string \<times> nat) option \<times> router" where
  "lookup q w t r =
     (case cache r t of
        Some e \<Rightarrow> (Some e, r\<lparr>hits := hits r + 1\<rparr>)
      | None \<Rightarrow>
          (let r = r\<lparr>misses := misses r + 1\<rparr> in
           case (if err_of q = None then directory w t else None) of
             None \<Rightarrow> (None, r)
           | Some d \<Rightarrow>
               (let e = (d_shard d, d_version d) in
                (Some e, if d_moving d then r else r\<lparr>cache := (cache r)(t \<mapsto> e)\<rparr>))))"

section \<open>Onboarding\<close>

text \<open>
  The scan of \<open>Onboard\<close> over the open shards in name order, opening each of them. \<open>env\<close> gives the
  outcomes of opening a shard and of its count; a failed count leaves \<open>n\<close> at 0 (the error of
  \<open>Scan\<close> is not looked at). \<open>best < 0\<close> is \<open>None\<close>.
\<close>

fun least_loaded :: "(string \<Rightarrow> outcome \<times> outcome) \<Rightarrow> world \<Rightarrow> string list \<Rightarrow> (string \<times> nat) option \<Rightarrow> router
    \<Rightarrow> (string \<times> nat) option option \<times> router" where
  "least_loaded env w [] best r = (Some best, r)"
| "least_loaded env w (s # ss) best r =
     (case shard (fst (env s)) w s r of
        (None, r') \<Rightarrow> (None, r')
      | (Some _, r') \<Rightarrow>
          (let n = (if err_of (snd (env s)) = None then length (orders (dbs w s)) else 0) in
           least_loaded env w ss
             (case best of None \<Rightarrow> Some (s, n) | Some (b, m) \<Rightarrow> if n < m then Some (s, n) else best) r'))"

definition insert_hosted :: "string \<Rightarrow> shard_db \<Rightarrow> (db_error + unit) \<times> shard_db" where
  "insert_hosted t db =
     (if t \<in> hosted db then (Inl (Sqlstate ''23505''), db)
      else (Inr (), db\<lparr>hosted := insert t (hosted db)\<rparr>))"

text \<open>\<open>names\<close> is the answer to the query for open shards; \<open>rh\<close> and \<open>rd\<close> are the outcomes of the INSERTs.\<close>

definition onboard :: "outcome \<Rightarrow> (string \<Rightarrow> outcome \<times> outcome) \<Rightarrow> outcome \<Rightarrow> outcome \<Rightarrow> string list \<Rightarrow> string
    \<Rightarrow> router \<Rightarrow> world \<Rightarrow> string option \<times> router \<times> world" where
  "onboard q env rh rd names t r w =
     (if err_of q \<noteq> None then (None, r, w)
      else case least_loaded env w names None r of
        (Some (Some (s, _)), r') \<Rightarrow>
          (case insert_hosted t (dbs w s) of
             (Inl _, _) \<Rightarrow> (None, r', w)
           | (Inr _, db) \<Rightarrow>
               (let w1 = (if applied rh then w\<lparr>dbs := (dbs w)(s := db)\<rparr> else w) in
                if err_of rh \<noteq> None then (None, r', w1)
                else if \<not> applied rd \<or> directory w t \<noteq> None then (None, r', w1)
                else (if err_of rd = None then Some s else None, r',
                      w1\<lparr>directory := (directory w)(t \<mapsto> \<lparr>d_shard = s, d_moving = False, d_version = 1\<rparr>)\<rparr>)))
      | (_, r') \<Rightarrow> (None, r', w))"

section \<open>Writes\<close>

text \<open>The fenced INSERT: ids continue from the largest id of the tenant on this shard.\<close>

definition next_id :: "shard_db \<Rightarrow> string \<Rightarrow> int" where
  "next_id db t = (if rows_of db t = [] then 0 else Max (set (map (fst \<circ> snd) (rows_of db t))))"

fun numbered :: "string \<Rightarrow> int \<Rightarrow> int list \<Rightarrow> order_row list" where
  "numbered t i [] = []"
| "numbered t i (a # as) = (t, i + 1, a) # numbered t (i + 1) as"

definition insert_stmt :: "string \<Rightarrow> int list \<Rightarrow> shard_db \<Rightarrow> nat \<times> shard_db" where
  "insert_stmt t amounts db =
     (if t \<in> hosted db
      then (length amounts, db\<lparr>orders := orders db @ numbered t (next_id db t) amounts\<rparr>)
      else (0, db))"

text \<open>
  \<open>InsertOrders\<close>, two attempts; per attempt the outcomes of the directory query, of opening the
  shard and of the INSERT. The result is the shard and whether it was a retry.
\<close>

fun insert_loop :: "(nat \<Rightarrow> outcome \<times> outcome \<times> outcome) \<Rightarrow> nat \<Rightarrow> nat \<Rightarrow> string \<Rightarrow> int list
    \<Rightarrow> router \<Rightarrow> world \<Rightarrow> (string \<times> bool) option \<times> router \<times> world" where
  "insert_loop env 0 attempt t amounts r w = (None, r, w)"
| "insert_loop env (Suc left) attempt t amounts r w =
     (let (q, p, x) = env attempt in
      case lookup q w t r of
        (None, r1) \<Rightarrow> (None, r1, w)
      | (Some (s, v), r1) \<Rightarrow>
          (case shard p w s r1 of
             (None, r2) \<Rightarrow> (None, r2, w)
           | (Some _, r2) \<Rightarrow>
               (let (n, db) = insert_stmt t amounts (dbs w s);
                    w1 = (if applied x then w\<lparr>dbs := (dbs w)(s := db)\<rparr> else w) in
                if err_of x \<noteq> None then (None, r2, w1)
                else if 0 < n then (Some (s, 0 < attempt), r2, w1)
                else insert_loop env left (Suc attempt) t amounts (r2\<lparr>cache := (cache r2)(t := None)\<rparr>) w1)))"

definition insert_orders :: "(nat \<Rightarrow> outcome \<times> outcome \<times> outcome) \<Rightarrow> string \<Rightarrow> int list \<Rightarrow> router \<Rightarrow> world
    \<Rightarrow> (string \<times> bool) option \<times> router \<times> world" where
  "insert_orders env t amounts r w = insert_loop env 2 0 t amounts r w"

text \<open>\<open>CountOrders\<close>: a failed count reads as 0.\<close>

definition count_orders :: "outcome \<Rightarrow> outcome \<Rightarrow> outcome \<Rightarrow> string \<Rightarrow> router \<Rightarrow> world \<Rightarrow> nat option \<times> router" where
  "count_orders q p x t r w =
     (case lookup q w t r of
        (None, r1) \<Rightarrow> (None, r1)
      | (Some (s, v), r1) \<Rightarrow>
          (case shard p w s r1 of
             (None, r2) \<Rightarrow> (None, r2)
           | (Some _, r2) \<Rightarrow>
               (Some (if err_of x = None then length (rows_of (dbs w s) t) else 0), r2)))"

section \<open>Moving a tenant\<close>

definition mark_moving :: "string \<Rightarrow> world \<Rightarrow> string option \<times> world" where
  "mark_moving t w =
     (case directory w t of
        None \<Rightarrow> (None, w)
      | Some d \<Rightarrow>
          if d_moving d then (None, w)
          else (Some (d_shard d), w\<lparr>directory := (directory w)(t \<mapsto> d\<lparr>d_moving := True\<rparr>)\<rparr>))"

definition copy_rows :: "order_row list \<Rightarrow> shard_db \<Rightarrow> (db_error + unit) \<times> shard_db" where
  "copy_rows data db =
     (if (\<lambda>(t, i, _). (t, i)) ` set data \<inter> (\<lambda>(t, i, _). (t, i)) ` set (orders db) \<noteq> {}
      then (Inl (Sqlstate ''23505''), db)
      else (Inr (), db\<lparr>orders := orders db @ data\<rparr>))"

definition copy_tenant :: "string \<Rightarrow> order_row list \<Rightarrow> shard_db \<Rightarrow> (db_error + unit) \<times> shard_db" where
  "copy_tenant t data = bind_tx (copy_rows data) (\<lambda>_. insert_hosted t)"

definition release :: "string \<Rightarrow> shard_db \<Rightarrow> shard_db" where
  "release t db = db\<lparr>hosted := hosted db - {t}, orders := filter (\<lambda>r. fst r \<noteq> t) (orders db)\<rparr>"

definition repoint :: "string \<Rightarrow> string \<Rightarrow> world \<Rightarrow> world" where
  "repoint t target w =
     (case directory w t of
        None \<Rightarrow> w
      | Some d \<Rightarrow> w\<lparr>directory := (directory w)
          (t \<mapsto> \<lparr>d_shard = target, d_moving = False, d_version = d_version d + 1\<rparr>)\<rparr>)"

text \<open>
  \<open>MoveTenant\<close> with the outcomes of its calls: \<open>rm\<close> marking, \<open>ps\<close> opening the two shards, \<open>rs\<close> the
  statements of the source transaction, \<open>tgt\<close> BEGIN and COMMIT on the target, \<open>rc\<close> COMMIT on the
  source, \<open>rd\<close> the last update of the directory. Until its commit, nothing of the source
  transaction is visible. A move onto the source itself never gets past the copy: the ids exist
  already, or the second insert into \<open>hosted_tenants\<close> waits for the open transaction.
\<close>

definition move_tenant :: "outcome \<Rightarrow> outcome \<times> outcome \<Rightarrow> outcome \<Rightarrow> outcome \<times> outcome \<Rightarrow> outcome \<Rightarrow> outcome
    \<Rightarrow> string \<Rightarrow> string \<Rightarrow> router \<Rightarrow> world \<Rightarrow> nat option \<times> router \<times> world" where
  "move_tenant rm ps rs tgt rc rd t target r w =
     (case mark_moving t w of
        (None, _) \<Rightarrow> (None, r, w)
      | (Some source, wm) \<Rightarrow>
          (let w1 = (if applied rm then wm else w) in
           if err_of rm \<noteq> None then (None, r, w1)
           else case shard (fst ps) w1 source r of
             (None, r1) \<Rightarrow> (None, r1, w1)
           | (Some _, r1) \<Rightarrow>
               if err_of rs \<noteq> None then (None, r1, w1)
               else case shard (snd ps) w1 target r1 of
                 (None, r2) \<Rightarrow> (None, r2, w1)
               | (Some _, r2) \<Rightarrow>
                   (let data = rows_of (dbs w1 source) t in
                    if target = source then (None, r2, w1)
                    else case begin_func (fst tgt) (snd tgt) (copy_tenant t data) (dbs w1 target) of
                      (Inl _, db) \<Rightarrow> (None, r2, w1\<lparr>dbs := (dbs w1)(target := db)\<rparr>)
                    | (Inr _, db) \<Rightarrow>
                        (let w2 = w1\<lparr>dbs := (dbs w1)(target := db)\<rparr>;
                             w3 = (if applied rc then w2\<lparr>dbs := (dbs w2)(source := release t (dbs w2 source))\<rparr> else w2);
                             w4 = (if applied rd then repoint t target w3 else w3)
                         in if err_of rc \<noteq> None then (None, r2, w3)
                            else if err_of rd \<noteq> None then (None, r2, w4)
                            else (Some (length data), r2\<lparr>cache := (cache r2)(t := None)\<rparr>, w4)))))"

text \<open>\<open>compareWithHash\<close>: tenants whose FNV-1a bucket changes from 2 to 3 shards.\<close>

definition hash_moves :: "string list \<Rightarrow> nat" where
  "hash_moves ts = length (filter (\<lambda>t. unat (fnv32a t) mod 2 \<noteq> unat (fnv32a t) mod 3) ts)"

section \<open>Writers and movers that interleave\<close>

text \<open>
  A writer may try any shard, since its cache may be arbitrarily old; the fence is a row lock, so
  it waits while a mover holds it. A mover may die at any point except between the commit on the
  target and the commit on the source (that case is \<open>crashed_move_splits_tenant\<close> below).
  \<open>written\<close> records every row that some INSERT added.
\<close>

datatype move_state =
  Idle | Marked string string | Fenced string string | Copied string string | Released string string | Dead

record dsys =
  wd :: world
  written :: "string \<Rightarrow> order_row list"
  mover :: "string \<Rightarrow> move_state"

definition put_db :: "string \<Rightarrow> shard_db \<Rightarrow> world \<Rightarrow> world" where
  "put_db s db w = w\<lparr>dbs := (dbs w)(s := db)\<rparr>"

definition locked :: "dsys \<Rightarrow> string \<Rightarrow> string \<Rightarrow> bool" where
  "locked y t s \<longleftrightarrow> (\<exists>tgt. mover y t = Fenced s tgt \<or> mover y t = Copied s tgt)"

definition exclusive :: "world \<Rightarrow> order_row list \<Rightarrow> string \<Rightarrow> string \<Rightarrow> bool" where
  "exclusive w rows t h \<longleftrightarrow> (\<forall>s. t \<in> hosted (dbs w s) \<longleftrightarrow> s = h) \<and> rows_of (dbs w h) t = rows \<and>
     (\<forall>s. s \<noteq> h \<longrightarrow> rows_of (dbs w s) t = [])"

definition clean :: "dsys \<Rightarrow> bool" where
  "clean y \<longleftrightarrow> (\<forall>t. mover y t = Idle) \<and>
     (\<forall>t. case directory (wd y) t of
        None \<Rightarrow> \<forall>s. t \<notin> hosted (dbs (wd y) s)
      | Some d \<Rightarrow> \<not> d_moving d \<and> exclusive (wd y) (written y t) t (d_shard d))"

inductive dir_step :: "dsys \<Rightarrow> dsys \<Rightarrow> bool" where
  writing: "\<not> locked y t s \<Longrightarrow> insert_stmt t amounts (dbs (wd y) s) = (n, db) \<Longrightarrow>
    dir_step y (y\<lparr>wd := put_db s db (wd y), written := (written y)
      (t := written y t @ (if 0 < n then numbered t (next_id (dbs (wd y) s) t) amounts else []))\<rparr>)"
| marking: "mark_moving t (wd y) = (Some src, w) \<Longrightarrow> src \<noteq> tgt \<Longrightarrow>
    dir_step y (y\<lparr>wd := w, mover := (mover y)(t := Marked src tgt)\<rparr>)"
| fencing: "mover y t = Marked src tgt \<Longrightarrow> dir_step y (y\<lparr>mover := (mover y)(t := Fenced src tgt)\<rparr>)"
| copying: "mover y t = Fenced src tgt \<Longrightarrow>
    copy_tenant t (rows_of (dbs (wd y) src) t) (dbs (wd y) tgt) = (Inr (), db) \<Longrightarrow>
    dir_step y (y\<lparr>wd := put_db tgt db (wd y), mover := (mover y)(t := Copied src tgt)\<rparr>)"
| releasing: "mover y t = Copied src tgt \<Longrightarrow>
    dir_step y (y\<lparr>wd := put_db src (release t (dbs (wd y) src)) (wd y), mover := (mover y)(t := Released src tgt)\<rparr>)"
| repointing: "mover y t = Released src tgt \<Longrightarrow>
    dir_step y (y\<lparr>wd := repoint t tgt (wd y), mover := (mover y)(t := Idle)\<rparr>)"
| dying: "mover y t = Marked src tgt \<or> mover y t = Fenced src tgt \<or> mover y t = Released src tgt \<Longrightarrow>
    dir_step y (y\<lparr>mover := (mover y)(t := Dead)\<rparr>)"

inductive dir_reachable :: "dsys \<Rightarrow> bool" where
  start: "clean y \<Longrightarrow> dir_reachable y"
| step: "dir_reachable y \<Longrightarrow> dir_step y y' \<Longrightarrow> dir_reachable y'"

fun tenant_ok :: "world \<Rightarrow> order_row list \<Rightarrow> string \<Rightarrow> dir_row \<Rightarrow> move_state \<Rightarrow> bool" where
  "tenant_ok w rows t d Idle \<longleftrightarrow> \<not> d_moving d \<and> exclusive w rows t (d_shard d)"
| "tenant_ok w rows t d (Marked s g) \<longleftrightarrow> d_moving d \<and> s \<noteq> g \<and> exclusive w rows t s"
| "tenant_ok w rows t d (Fenced s g) \<longleftrightarrow> d_moving d \<and> s \<noteq> g \<and> exclusive w rows t s"
| "tenant_ok w rows t d (Copied s g) \<longleftrightarrow> d_moving d \<and> s \<noteq> g \<and>
     (\<forall>s'. t \<in> hosted (dbs w s') \<longleftrightarrow> s' = s \<or> s' = g) \<and> rows_of (dbs w g) t = rows \<and>
     (\<forall>s'. s' \<noteq> s \<and> s' \<noteq> g \<longrightarrow> rows_of (dbs w s') t = [])"
| "tenant_ok w rows t d (Released s g) \<longleftrightarrow> d_moving d \<and> exclusive w rows t g"
| "tenant_ok w rows t d Dead \<longleftrightarrow> d_moving d \<and> (\<exists>h. exclusive w rows t h)"

definition dsys_ok :: "dsys \<Rightarrow> bool" where
  "dsys_ok y \<longleftrightarrow> (\<forall>t. case directory (wd y) t of
     None \<Rightarrow> mover y t = Idle \<and> (\<forall>s. t \<notin> hosted (dbs (wd y) s))
   | Some d \<Rightarrow> tenant_ok (wd y) (written y t) t d (mover y t))"

text \<open>A tenant's condition depends only on the part of the databases that is about it.\<close>

definition same_for :: "string \<Rightarrow> world \<Rightarrow> world \<Rightarrow> bool" where
  "same_for t w w' \<longleftrightarrow> directory w' t = directory w t \<and>
     (\<forall>s. (t \<in> hosted (dbs w' s) \<longleftrightarrow> t \<in> hosted (dbs w s)) \<and> rows_of (dbs w' s) t = rows_of (dbs w s) t)"

lemma same_for_tenant_ok:
  assumes "same_for t w w'"
  shows "tenant_ok w' rows t d m = tenant_ok w rows t d m"
  using assms by (cases m) (auto simp: same_for_def exclusive_def)

lemma dsys_okI:
  assumes ok: "dsys_ok y"
    and oth: "\<And>t'. t' \<noteq> t \<Longrightarrow> same_for t' (wd y) (wd y') \<and> written y' t' = written y t' \<and> mover y' t' = mover y t'"
    and here: "case directory (wd y') t of
      None \<Rightarrow> mover y' t = Idle \<and> (\<forall>s. t \<notin> hosted (dbs (wd y') s))
    | Some d \<Rightarrow> tenant_ok (wd y') (written y' t) t d (mover y' t)"
  shows "dsys_ok y'"
  unfolding dsys_ok_def
proof
  fix t'
  show "case directory (wd y') t' of None \<Rightarrow> mover y' t' = Idle \<and> (\<forall>s. t' \<notin> hosted (dbs (wd y') s))
     | Some d \<Rightarrow> tenant_ok (wd y') (written y' t') t' d (mover y' t')"
  proof (cases "t' = t")
    case True
    show ?thesis unfolding True by (rule here)
  next
    case False
    have "case directory (wd y) t' of None \<Rightarrow> mover y t' = Idle \<and> (\<forall>s. t' \<notin> hosted (dbs (wd y) s))
     | Some d \<Rightarrow> tenant_ok (wd y) (written y t') t' d (mover y t')"
      using ok by (simp add: dsys_ok_def)
    moreover from oth [OF False] have sf: "same_for t' (wd y) (wd y')" by simp
    ultimately show ?thesis
      using oth [OF False] same_for_tenant_ok [OF sf] by (simp add: same_for_def split: option.splits)
  qed
qed

lemma put_db_sel [simp]:
  "directory (put_db s db w) = directory w" "dbs (put_db s db w) = (dbs w)(s := db)"
  "shard_names (put_db s db w) = shard_names w"
  by (simp_all add: put_db_def)

lemma numbered_rows [simp]: "filter (\<lambda>r. fst r = t') (numbered t i as) = (if t' = t then numbered t i as else [])"
  by (induction "as" arbitrary: i) auto

lemma insert_stmt_other:
  "t' \<noteq> t \<Longrightarrow> insert_stmt t as db = (n, db') \<Longrightarrow> (t' \<in> hosted db' \<longleftrightarrow> t' \<in> hosted db) \<and> rows_of db' t' = rows_of db t'"
  by (auto simp: insert_stmt_def rows_of_def split: if_splits)

lemma insert_stmt_same:
  "insert_stmt t as db = (n, db') \<Longrightarrow> hosted db' = hosted db \<and>
     rows_of db' t = rows_of db t @ (if 0 < n then numbered t (next_id db t) as else []) \<and> (0 < n \<longrightarrow> t \<in> hosted db)"
  by (cases "as") (auto simp: insert_stmt_def rows_of_def split: if_splits)

lemma rows_of_tenant: "filter (\<lambda>r. fst r = t') (rows_of db t) = (if t' = t then rows_of db t else [])"
  by (auto simp: rows_of_def filter_empty_conv)

lemma copy_tenant_result:
  "copy_tenant t (rows_of sdb t) db = (Inr (), db') \<Longrightarrow> t \<notin> hosted db \<and> hosted db' = insert t (hosted db) \<and>
     rows_of db' t = rows_of db t @ rows_of sdb t \<and>
     (\<forall>t'. t' \<noteq> t \<longrightarrow> rows_of db' t' = rows_of db t')"
  by (auto simp: copy_tenant_def bind_tx_def copy_rows_def insert_hosted_def rows_of_def filter_empty_conv
      split: if_splits)

lemma release_result:
  "hosted (release t db) = hosted db - {t}" "rows_of (release t db) t = []"
  "t' \<noteq> t \<Longrightarrow> rows_of (release t db) t' = rows_of db t'"
  by (auto simp: release_def rows_of_def filter_empty_conv intro!: filter_cong)

lemma dsys_okD:
  "dsys_ok y \<Longrightarrow> directory (wd y) t = Some d \<Longrightarrow> tenant_ok (wd y) (written y t) t d (mover y t)"
  "dsys_ok y \<Longrightarrow> mover y t \<noteq> Idle \<Longrightarrow> \<exists>d. directory (wd y) t = Some d"
  "dsys_ok y \<Longrightarrow> directory (wd y) t = None \<Longrightarrow> t \<notin> hosted (dbs (wd y) s)"
  "dsys_ok y \<Longrightarrow> directory (wd y) t = None \<Longrightarrow> mover y t = Idle"
  unfolding dsys_ok_def by (force dest: spec [of _ t] split: option.splits)+

lemma same_for_mark: "mark_moving t w = (Some src, w') \<Longrightarrow> t' \<noteq> t \<Longrightarrow> same_for t' w w'"
  by (auto simp: mark_moving_def same_for_def split: option.splits if_splits)

lemma same_for_put: "same_for t w (put_db s db w) \<longleftrightarrow>
   (t \<in> hosted db \<longleftrightarrow> t \<in> hosted (dbs w s)) \<and> rows_of db t = rows_of (dbs w s) t"
  by (auto simp: same_for_def)

lemma same_for_refl [simp]: "same_for t w w"
  by (simp add: same_for_def)

lemma same_for_repoint: "t' \<noteq> t \<Longrightarrow> same_for t' w (repoint t g w)"
  by (simp add: same_for_def repoint_def split: option.splits)

lemma repoint_dbs [simp]: "dbs (repoint t g w) = dbs w"
  by (simp add: repoint_def split: option.splits)

lemma repoint_directory [simp]:
  "directory (repoint t g w) t = map_option (\<lambda>d. \<lparr>d_shard = g, d_moving = False, d_version = d_version d + 1\<rparr>) (directory w t)"
  by (simp add: repoint_def split: option.splits)

lemma write_ok:
  assumes ok: "dsys_ok y" and unlocked: "\<not> locked y t s"
    and ins: "insert_stmt t as (dbs (wd y) s) = (n, db)"
  shows "dsys_ok (y\<lparr>wd := put_db s db (wd y), written := (written y)
      (t := written y t @ (if 0 < n then numbered t (next_id (dbs (wd y) s) t) as else []))\<rparr>)" (is "dsys_ok ?y")
proof (rule dsys_okI [OF ok, of t])
  fix t' assume "t' \<noteq> t"
  with insert_stmt_other [OF this ins] show "same_for t' (wd y) (wd ?y) \<and> written ?y t' = written y t' \<and> mover ?y t' = mover y t'"
    by (simp add: same_for_def)
next
  note r = insert_stmt_same [OF ins]
  show "case directory (wd ?y) t of None \<Rightarrow> mover ?y t = Idle \<and> (\<forall>s. t \<notin> hosted (dbs (wd ?y) s))
    | Some d \<Rightarrow> tenant_ok (wd ?y) (written ?y t) t d (mover ?y t)"
  proof (cases "directory (wd y) t")
    case None
    with ok r show ?thesis using dsys_okD(3,4) [OF ok None] by auto
  next
    case (Some d)
    note t = dsys_okD(1) [OF ok Some]
    show ?thesis
    proof (cases "0 < n")
      case False
      with r have "same_for t (wd y) (put_db s db (wd y))" by (simp add: same_for_put)
      from same_for_tenant_ok [OF this] t False show ?thesis by (simp add: Some)
    next
      case True
      let ?new = "numbered t (next_id (dbs (wd y) s) t) as"
      from r True have h: "t \<in> hosted (dbs (wd y) s)" "hosted db = hosted (dbs (wd y) s)"
        "rows_of db t = rows_of (dbs (wd y) s) t @ ?new" by simp_all
      have e: "exclusive (put_db s db (wd y)) (written y t @ ?new) t x" if "exclusive (wd y) (written y t) t x" for x
        using that h by (auto simp: exclusive_def)
      show ?thesis
      proof (cases "mover y t")
        case (Copied src tgt)
        with t unlocked h(1) have "s = tgt" by (auto simp: locked_def)
        with t h Copied show ?thesis by (simp add: Some True)
      qed (use t e in \<open>auto simp: Some True\<close>)
    qed
  qed
qed

inductive_cases dir_stepE: "dir_step y y'"

lemma dir_step_ok:
  assumes "dir_step y y'" and ok: "dsys_ok y"
  shows "dsys_ok y'"
  using assms(1)
proof (cases rule: dir_step.cases)
  case (writing t s as n db)
  then show ?thesis using write_ok [OF ok] by simp
next
  case (marking t src w tgt)
  from marking(2) obtain d where d: "directory (wd y) t = Some d" "\<not> d_moving d" "src = d_shard d"
    and w: "w = (wd y)\<lparr>directory := (directory (wd y))(t \<mapsto> d\<lparr>d_moving := True\<rparr>)\<rparr>"
    by (auto simp: mark_moving_def split: option.splits if_splits)
  from dsys_okD(1) [OF ok d(1)] d(2) have "exclusive (wd y) (written y t) t (d_shard d)"
    by (cases "mover y t") auto
  then show ?thesis
    by (intro dsys_okI [OF ok, of t]) (use marking(1,3) d same_for_mark [OF marking(2)] in \<open>auto simp: w exclusive_def\<close>)
next
  case (fencing t src tgt)
  show ?thesis
    by (rule dsys_okI [OF ok, of t]) (use fencing dsys_okD [OF ok, of t] in \<open>auto split: option.splits\<close>)
next
  case (copying t src tgt db)
  from dsys_okD(2) [OF ok, of t] copying obtain d where d: "directory (wd y) t = Some d" by auto
  note r = copy_tenant_result [OF copying(3)]
  from dsys_okD(1) [OF ok d] copying(2) have "d_moving d" "src \<noteq> tgt" and x: "exclusive (wd y) (written y t) t src"
    by simp_all
  then have "rows_of db t = written y t" using r by (simp add: exclusive_def)
  moreover have "t \<in> hosted (dbs (put_db tgt db (wd y)) s) \<longleftrightarrow> s = src \<or> s = tgt" for s
    using r x by (auto simp: exclusive_def)
  moreover have "same_for t' (wd y) (put_db tgt db (wd y))" if "t' \<noteq> t" for t'
    using r that by (simp add: same_for_put)
  ultimately show ?thesis
    using x \<open>d_moving d\<close> \<open>src \<noteq> tgt\<close> unfolding copying(1)
    by (intro dsys_okI [OF ok, of t]) (simp_all add: d exclusive_def)
next
  case (releasing t src tgt)
  from dsys_okD(2) [OF ok, of t] releasing obtain d where d: "directory (wd y) t = Some d" by auto
  show ?thesis
    by (rule dsys_okI [OF ok, of t])
      (use releasing d dsys_okD(1) [OF ok d] in
        \<open>auto simp: same_for_put exclusive_def release_result split: option.splits\<close>)
next
  case (repointing t src tgt)
  from dsys_okD(2) [OF ok, of t] repointing obtain d where d: "directory (wd y) t = Some d" by auto
  show ?thesis
    by (rule dsys_okI [OF ok, of t])
      (use repointing d dsys_okD(1) [OF ok d] in
        \<open>auto simp: same_for_repoint exclusive_def split: option.splits\<close>)
next
  case (dying t src tgt)
  from dsys_okD(2) [OF ok, of t] dying obtain d where d: "directory (wd y) t = Some d" by auto
  show ?thesis
    by (rule dsys_okI [OF ok, of t])
      (use dying d dsys_okD(1) [OF ok d] in \<open>auto split: option.splits\<close>)
qed

lemma dir_reachable_ok: "dir_reachable y \<Longrightarrow> dsys_ok y"
proof (induction rule: dir_reachable.induct)
  case (start y)
  show ?case
    unfolding dsys_ok_def
  proof
    fix t
    from start show "case directory (wd y) t of None \<Rightarrow> mover y t = Idle \<and> (\<forall>s. t \<notin> hosted (dbs (wd y) s))
      | Some d \<Rightarrow> tenant_ok (wd y) (written y t) t d (mover y t)"
      unfolding clean_def by (cases "directory (wd y) t") (auto dest: spec [of _ t])
  qed
next
  case (step y y')
  then show ?case using dir_step_ok by blast
qed

section \<open>Properties\<close>

definition one_tenant :: dsys where
  "one_tenant =
     \<lparr>wd = \<lparr>shard_names = [''shard1'' \<mapsto> True, ''shard2'' \<mapsto> True],
            directory = [''acme'' \<mapsto> \<lparr>d_shard = ''shard1'', d_moving = False, d_version = 1\<rparr>],
            dbs = (\<lambda>s. if s = ''shard1'' then \<lparr>hosted = {''acme''}, orders = [(''acme'', 1, 500)]\<rparr>
                       else \<lparr>hosted = {}, orders = []\<rparr>)\<rparr>,
      written = (\<lambda>t. if t = ''acme'' then [(''acme'', 1, 500)] else []), mover = (\<lambda>_. Idle)\<rparr>"

lemma one_tenant_clean: "clean one_tenant"
  by (simp add: clean_def one_tenant_def exclusive_def rows_of_def)

lemma one_tenant_moved:
  "dir_reachable (one_tenant\<lparr>wd := (wd one_tenant)\<lparr>directory := [''acme'' \<mapsto> \<lparr>d_shard = ''shard1'', d_moving = True, d_version = 1\<rparr>]\<rparr>,
     mover := (mover one_tenant)(''acme'' := Marked ''shard1'' ''shard2'')\<rparr>)"
  by (rule dir_reachable.step [OF dir_reachable.start [OF one_tenant_clean] dir_step.marking])
    (simp_all add: one_tenant_def mark_moving_def)

text \<open>C3: Moves and fenced writes interleave safely: at any time one shard hosts the tenant and holds
  exactly the rows ever inserted for it, in order; and when no move is under way it is the shard
  the directory names and no other shard hosts the tenant or holds rows of it.\<close>

theorem moves_lose_no_write:
  assumes "dir_reachable y" and "directory (wd y) t = Some d"
  shows "\<exists>h. t \<in> hosted (dbs (wd y) h) \<and> rows_of (dbs (wd y) h) t = written y t \<and>
    (mover y t = Idle \<longrightarrow> h = d_shard d \<and>
      (\<forall>s. s \<noteq> h \<longrightarrow> t \<notin> hosted (dbs (wd y) s) \<and> rows_of (dbs (wd y) s) t = []))"
  using dsys_okD(1) [OF dir_reachable_ok [OF assms(1)] assms(2)]
  by (cases "mover y t") (auto simp: exclusive_def)

theorem moves_lose_no_write_witness:
  "\<exists>h. ''acme'' \<in> hosted (dbs (wd one_tenant) h) \<and> rows_of (dbs (wd one_tenant) h) ''acme'' = [(''acme'', 1, 500)]"
  using moves_lose_no_write [OF one_tenant_moved, of "''acme''"] by (auto simp: one_tenant_def)

text \<open>A router with an arbitrarily old cached mapping writes to the right shard: the fence rejects
  the first attempt, the second one asks the directory, and the rows are inserted exactly once.\<close>

theorem stale_cache_rerouted:
  assumes dir: "directory w t = Some \<lparr>d_shard = h, d_moving = False, d_version = v\<rparr>"
    and host: "\<forall>s. t \<in> hosted (dbs w s) \<longleftrightarrow> s = h"
    and known: "shard_names w h \<noteq> None" "shard_names w s0 \<noteq> None"
    and cached: "cache r t = Some (s0, v0)" and some: "amounts \<noteq> []"
  shows "\<exists>r' w'. insert_orders (\<lambda>_. (Done, Done, Done)) t amounts r w = (Some (h, s0 \<noteq> h), r', w') \<and>
    rows_of (dbs w' h) t = rows_of (dbs w h) t @ numbered t (next_id (dbs w h) t) amounts \<and>
    (\<forall>s. s \<noteq> h \<longrightarrow> dbs w' s = dbs w s) \<and> cache r' t = Some (h, if s0 = h then v0 else v)"
proof -
  have n: "0 < length amounts" using some by simp
  have two: "(2 :: nat) = Suc (Suc 0)" by simp
  show ?thesis
    using assms(1,2) known cached n
    by (cases "s0 = h"; cases "h \<in> opened r"; cases "s0 \<in> opened r")
      (auto simp: insert_orders_def two lookup_def shard_def insert_stmt_def rows_of_def Let_def)
qed

theorem stale_cache_rerouted_witness:
  "\<exists>r' w'. insert_orders (\<lambda>_. (Done, Done, Done)) ''acme'' [700]
     (new_router\<lparr>cache := [''acme'' \<mapsto> (''shard2'', 0)]\<rparr>) (wd one_tenant) = (Some (''shard1'', True), r', w') \<and>
     rows_of (dbs w' ''shard1'') ''acme'' = [(''acme'', 1, 500), (''acme'', 2, 700)]"
proof -
  let ?w = "wd one_tenant" let ?r = "new_router\<lparr>cache := [''acme'' \<mapsto> (''shard2'', 0)]\<rparr>"
  have "directory ?w ''acme'' = Some \<lparr>d_shard = ''shard1'', d_moving = False, d_version = 1\<rparr>"
    "\<forall>s. ''acme'' \<in> hosted (dbs ?w s) \<longleftrightarrow> s = ''shard1''"
    "shard_names ?w ''shard1'' \<noteq> None" "shard_names ?w ''shard2'' \<noteq> None"
    "cache ?r ''acme'' = Some (''shard2'', 0)" "[700::int] \<noteq> []"
    by (simp_all add: one_tenant_def)
  from stale_cache_rerouted [OF this] obtain r' w' where
    1: "insert_orders (\<lambda>_. (Done, Done, Done)) ''acme'' [700] ?r ?w = (Some (''shard1'', True), r', w')"
    and "rows_of (dbs w' ''shard1'') ''acme'' = rows_of (dbs ?w ''shard1'') ''acme'' @
      numbered ''acme'' (next_id (dbs ?w ''shard1'') ''acme'') [700]" by auto
  then have "rows_of (dbs w' ''shard1'') ''acme'' = [(''acme'', 1, 500), (''acme'', 2, 700)]"
    by (simp add: one_tenant_def rows_of_def next_id_def)
  with 1 show ?thesis by blast
qed

text \<open>A move back to a shard that a router still has in its cache, which dies after the commit on the
  target and before the commit on the source.\<close>

definition crashed_move :: "world \<times> router" where
  "crashed_move =
     (let ok = (Done, Done);
          (e, stale) = lookup Done (wd one_tenant) ''acme'' new_router;
          (n1, app, w1) = move_tenant Done ok Done ok Done Done ''acme'' ''shard2'' new_router (wd one_tenant);
          (n2, app, w2) = move_tenant Done ok Done ok (Refused Transport) Done ''acme'' ''shard1'' app w1
      in (w2, stale))"

text \<open>If a mover dies between the two commits of a move, both shards host the tenant: a stale router
  and a fresh one then both succeed, on different shards, with the same order id, and no shard
  holds all orders.\<close>

theorem crashed_move_splits_tenant:
  "let (w, stale) = crashed_move;
       (a, _, wa) = insert_orders (\<lambda>_. (Done, Done, Done)) ''acme'' [700] stale w;
       (b, _, wb) = insert_orders (\<lambda>_. (Done, Done, Done)) ''acme'' [900] new_router wa
   in a = Some (''shard1'', False) \<and> b = Some (''shard2'', False) \<and>
      rows_of (dbs wb ''shard1'') ''acme'' = [(''acme'', 1, 500), (''acme'', 2, 700)] \<and>
      rows_of (dbs wb ''shard2'') ''acme'' = [(''acme'', 1, 500), (''acme'', 2, 900)]"
proof -
  have two: "(2 :: nat) = Suc (Suc 0)" by simp
  show ?thesis
    by (simp add: crashed_move_def one_tenant_def new_router_def lookup_def move_tenant_def mark_moving_def
        shard_def rows_of_def copy_tenant_def begin_func_def bind_tx_def copy_rows_def insert_hosted_def
        release_def repoint_def insert_orders_def two insert_stmt_def next_id_def Let_def)
qed

text \<open>A move that fails after its first step leaves the tenant marked as moving, and then every later
  move of it is refused at its first statement.\<close>

lemma failed_move_sticks:
  assumes "directory w t = Some d" "\<not> d_moving d" "err_of rs \<noteq> None"
    and "move_tenant Done ps rs tgt rc rd t target r w = (x, r', w')"
  shows "x = None \<and> move_tenant rm ps' rs' tgt' rc' rd' t target' r'' w' = (None, r'', w')"
proof -
  let ?w1 = "w\<lparr>directory := (directory w)(t \<mapsto> d\<lparr>d_moving := True\<rparr>)\<rparr>"
  obtain y r1 where s: "shard (fst ps) ?w1 (d_shard d) r = (y, r1)" by fastforce
  have "x = None \<and> w' = ?w1"
    using assms(4) unfolding move_tenant_def mark_moving_def
    by (cases y) (use assms(1-3) s in \<open>auto simp: Let_def\<close>)
  moreover have "move_tenant rm ps' rs' tgt' rc' rd' t target' r'' ?w1 = (None, r'', ?w1)"
    by (simp add: move_tenant_def mark_moving_def)
  ultimately show ?thesis by simp
qed

text \<open>\<open>InsertOrders\<close> takes an INSERT of zero orders for a stale mapping and ends the process.\<close>

lemma insert_nothing_is_fatal: "fst (insert_orders env t [] r w) = None"
proof -
  have two: "(2 :: nat) = Suc (Suc 0)" by simp
  show ?thesis
    by (auto simp: insert_orders_def two insert_stmt_def Let_def split: option.splits prod.splits)
qed

text \<open>Onboarding takes an open shard with the fewest rows, the first by name among equals.\<close>

lemma least_loaded_min:
  assumes "\<forall>s \<in> set names. snd (env s) = Done" and "least_loaded env w names best r = (Some (Some (s, n)), r')"
    and "best \<noteq> None \<Longrightarrow> snd (the best) = length (orders (dbs w (fst (the best))))"
  shows "n = length (orders (dbs w s)) \<and> (best = Some (s, n) \<or> s \<in> set names) \<and>
    (\<forall>x \<in> set names. n \<le> length (orders (dbs w x))) \<and> (best \<noteq> None \<longrightarrow> n \<le> snd (the best))"
  using assms
proof (induction names arbitrary: best r)
  case Nil
  then show ?case by auto
next
  case (Cons x xs)
  let ?m = "length (orders (dbs w x))"
  obtain b r1 where b: "least_loaded env w xs b r1 = (Some (Some (s, n)), r')"
    and bs: "(best = None \<and> b = Some (x, ?m)) \<or> (\<exists>c k. best = Some (c, k) \<and>
        (?m < k \<and> b = Some (x, ?m) \<or> k \<le> ?m \<and> b = best))"
    using Cons.prems(1,2) by (cases best) (auto simp: Let_def split: if_splits option.splits prod.splits)
  have "b \<noteq> None \<Longrightarrow> snd (the b) = length (orders (dbs w (fst (the b))))"
    using bs Cons.prems(3) by auto
  from Cons.IH [OF _ b this] Cons.prems(1) bs show ?case by auto
qed

end
