(* ===== verification/DirectoryMain.thy ===== *)
theory DirectoryMain
  imports DirectorySharding
begin

text \<open>
  \<open>main\<close> of \<open>simulate_directory_based_sharding/main.go\<close> from \<open>reset\<close> on: onboarding by load, cached routing, a new shard, the
  move of a hotspot, a second router with a stale cache, onboarding again. The abstract view of the databases is a
  placement: the shard and the number of rows of each tenant, and the load of each shard.
\<close>

section \<open>The program\<close>

definition truncated :: "shard_db" where
  "truncated = \<lparr>hosted = {}, orders = []\<rparr>"

fun reset_shards :: "(nat \<Rightarrow> outcome \<times> outcome) \<Rightarrow> string list \<Rightarrow> router \<Rightarrow> world \<Rightarrow> unit option \<times> router \<times> world" where
  "reset_shards env [] r w = (Some (), r, w)"
| "reset_shards env (s # ss) r w =
     (case shard (fst (env 0)) w s r of
        (None, r1) \<Rightarrow> (None, r1, w)
      | (Some _, r1) \<Rightarrow>
          (case must (snd (env 0)) (put_db s truncated) w of
             (None, w1) \<Rightarrow> (None, r1, w1)
           | (Some _, w1) \<Rightarrow> reset_shards (env \<circ> Suc) ss r1 w1))"

text \<open>\<open>reset\<close>: shard3 is opened on its own, whether the directory knows it or not.\<close>

definition reset :: "(nat \<Rightarrow> outcome \<times> outcome) \<Rightarrow> router \<Rightarrow> world \<Rightarrow> unit option \<times> router \<times> world" where
  "reset env r w =
     (case reset_shards env [''shard1'', ''shard2''] r w of
        (None, r1, w1) \<Rightarrow> (None, r1, w1)
      | (Some _, r1, w1) \<Rightarrow>
          (case and_then (must (fst (env 2)) id) (\<lambda>_.
                and_then (must (snd (env 2)) (put_db ''shard3'' truncated)) (\<lambda>_.
                and_then (must (fst (env 3)) (\<lambda>w. w\<lparr>directory := Map.empty\<rparr>)) (\<lambda>_.
                must (snd (env 3)) (\<lambda>w. w\<lparr>shard_names := (shard_names w)(''shard3'' := None)\<rparr>)))) w1 of
             (x, w2) \<Rightarrow> (x, r1, w2)))"

text \<open>The answers to the queries for shard names, in the order of the names; the directory knows no others.\<close>

definition all_names :: "world \<Rightarrow> string list" where
  "all_names w = filter (\<lambda>s. shard_names w s \<noteq> None) [''shard1'', ''shard2'', ''shard3'']"

definition open_names :: "world \<Rightarrow> string list" where
  "open_names w = filter (\<lambda>s. shard_names w s = Some True) [''shard1'', ''shard2'', ''shard3'']"

text \<open>\<open>printShardLoad\<close>: a failed list of names is empty, a failed count reads as 0.\<close>

fun load_list :: "(string \<Rightarrow> outcome \<times> outcome) \<Rightarrow> string list \<Rightarrow> router \<Rightarrow> world \<Rightarrow> (string \<times> nat) list option \<times> router \<times> world" where
  "load_list env [] r w = (Some [], r, w)"
| "load_list env (s # ss) r w =
     (case shard (fst (env s)) w s r of
        (None, r1) \<Rightarrow> (None, r1, w)
      | (Some _, r1) \<Rightarrow>
          (case load_list env ss r1 w of
             (None, r2, w2) \<Rightarrow> (None, r2, w2)
           | (Some ys, r2, w2) \<Rightarrow> (Some ((s, if err_of (snd (env s)) = None then length (orders (dbs w s)) else 0) # ys), r2, w2)))"

definition print_shard_load :: "outcome \<times> outcome \<Rightarrow> (string \<Rightarrow> outcome \<times> outcome) \<Rightarrow> router \<Rightarrow> world
    \<Rightarrow> (string \<times> nat) list option \<times> router \<times> world" where
  "print_shard_load q env r w =
     (if err_of (fst q) \<noteq> None then (None, r, w)
      else load_list env (if err_of (snd q) = None then all_names w else []) r w)"

text \<open>The state of \<open>main\<close>: two routers and the databases; the answers to its calls.\<close>

record dmain =
  app :: router
  app2 :: router
  dw :: world

type_synonym onboard_env = "outcome \<times> (string \<Rightarrow> outcome \<times> outcome) \<times> outcome \<times> outcome"
type_synonym insert_env = "nat \<Rightarrow> outcome \<times> outcome \<times> outcome"

record dmain_env =
  resets :: "nat \<Rightarrow> outcome \<times> outcome"
  onboards :: "string \<Rightarrow> onboard_env"
  inserts :: "string \<Rightarrow> insert_env"
  counts :: "nat \<Rightarrow> string \<Rightarrow> outcome \<times> outcome \<times> outcome"
  load_names :: "nat \<Rightarrow> outcome \<times> outcome"
  load_counts :: "nat \<Rightarrow> string \<Rightarrow> outcome \<times> outcome"
  looked_up :: outcome
  shard_added :: outcome
  move_marked :: outcome
  move_pools :: "outcome \<times> outcome"
  move_source :: outcome
  move_target :: "outcome \<times> outcome"
  move_commit :: outcome
  move_repoint :: outcome
  shard_closed :: outcome
  late_insert :: insert_env
  range_order :: "nat \<Rightarrow> string list"    \<comment> \<open>the order in which a range over the map of volumes goes\<close>
  drawn :: "string \<Rightarrow> int list"          \<comment> \<open>the random amounts of a tenant's orders\<close>
  drawn_late :: "int list"

definition with_app :: "(router \<Rightarrow> world \<Rightarrow> 'a option \<times> router \<times> world) \<Rightarrow> dmain \<Rightarrow> 'a option \<times> dmain" where
  "with_app f s = (case f (app s) (dw s) of (x, r, w) \<Rightarrow> (x, s\<lparr>app := r, dw := w\<rparr>))"

definition with_app2 :: "(router \<Rightarrow> world \<Rightarrow> 'a option \<times> router \<times> world) \<Rightarrow> dmain \<Rightarrow> 'a option \<times> dmain" where
  "with_app2 f s = (case f (app2 s) (dw s) of (x, r, w) \<Rightarrow> (x, s\<lparr>app2 := r, dw := w\<rparr>))"

definition with_dw :: "(world \<Rightarrow> 'a option \<times> world) \<Rightarrow> dmain \<Rightarrow> 'a option \<times> dmain" where
  "with_dw f s = (case f (dw s) of (x, w) \<Rightarrow> (x, s\<lparr>dw := w\<rparr>))"

definition onboard_tenant :: "onboard_env \<Rightarrow> string \<Rightarrow> router \<Rightarrow> world \<Rightarrow> string option \<times> router \<times> world" where
  "onboard_tenant e t r w = (case e of (q, env, rh, rd) \<Rightarrow> onboard q env rh rd (open_names w) t r w)"

text \<open>The two loops that onboard tenants and give them orders; the result is the shards they got.\<close>

fun onboard_all :: "dmain_env \<Rightarrow> string list \<Rightarrow> dmain \<Rightarrow> string list option \<times> dmain" where
  "onboard_all e [] = give []"
| "onboard_all e (t # ts) =
     and_then (with_app (onboard_tenant (onboards e t) t)) (\<lambda>sh.
     and_then (with_app (insert_orders (inserts e t) t (drawn e t))) (\<lambda>_.
     and_then (onboard_all e ts) (\<lambda>shs. give (sh # shs))))"

fun count_all :: "(string \<Rightarrow> outcome \<times> outcome \<times> outcome) \<Rightarrow> string list \<Rightarrow> dmain \<Rightarrow> unit option \<times> dmain" where
  "count_all env [] = give ()"
| "count_all env (t # ts) =
     and_then (with_app (\<lambda>r w. case env t of (q, p, x) \<Rightarrow> (case count_orders q p x t r w of (n, r') \<Rightarrow> (n, r', w)))) (\<lambda>_.
     count_all env ts)"

fun count_rounds :: "dmain_env \<Rightarrow> nat \<Rightarrow> dmain \<Rightarrow> unit option \<times> dmain" where
  "count_rounds e 0 = give ()"
| "count_rounds e (Suc k) = and_then (count_rounds e k) (\<lambda>_. count_all (counts e k) (range_order e k))"

definition first_tenants :: "string list" where
  "first_tenants = [''acme'', ''globex'', ''initech'', ''megacorp'', ''hooli'', ''umbrella'']"

record dmain_result =
  first_shards :: "string list"
  first_loads :: "(string \<times> nat) list"
  lookups :: "nat \<times> nat"               \<comment> \<open>misses and hits of the 300 reads\<close>
  moved_rows :: nat
  later_loads :: "(string \<times> nat) list"
  stale_write :: "string \<times> bool"
  later_shards :: "string list"
  hash_would_move :: nat

definition directory_main :: "dmain_env \<Rightarrow> dmain \<Rightarrow> dmain_result option \<times> dmain" where
  "directory_main e =
     and_then (with_app (reset (resets e))) (\<lambda>_.
     and_then (onboard_all e first_tenants) (\<lambda>shards1.
     and_then (with_app (print_shard_load (load_names e 0) (load_counts e 0))) (\<lambda>loads1.
     and_then (\<lambda>s. (Some (), s\<lparr>app := (app s)\<lparr>hits := 0, misses := 0, cache := Map.empty\<rparr>\<rparr>)) (\<lambda>_.
     and_then (count_rounds e 50) (\<lambda>_.
     and_then (\<lambda>s. (Some (misses (app s), hits (app s)), s)) (\<lambda>found.
     and_then (\<lambda>s. (Some (), s\<lparr>app2 := new_router\<rparr>)) (\<lambda>_.
     and_then (with_app2 (\<lambda>r w. case lookup (looked_up e) w ''megacorp'' r of (x, r') \<Rightarrow> (x, r', w))) (\<lambda>_.
     and_then (with_dw (\<lambda>w. must (if shard_names w ''shard3'' = None then shard_added e else Refused (Sqlstate ''23505'')) (\<lambda>w. w\<lparr>shard_names := (shard_names w)(''shard3'' \<mapsto> True)\<rparr>) w)) (\<lambda>_.
     and_then (with_app (move_tenant (move_marked e) (move_pools e) (move_source e) (move_target e) (move_commit e) (move_repoint e)
       ''megacorp'' ''shard3'')) (\<lambda>n.
     and_then (with_dw (must (shard_closed e) (\<lambda>w. w\<lparr>shard_names := (shard_names w)(''shard3'' \<mapsto> False)\<rparr>))) (\<lambda>_.
     and_then (with_app (print_shard_load (load_names e 1) (load_counts e 1))) (\<lambda>loads2.
     and_then (with_app2 (insert_orders (late_insert e) ''megacorp'' (drawn_late e))) (\<lambda>late.
     and_then (onboard_all e [''wayne'', ''stark'']) (\<lambda>shards2.
     give \<lparr>first_shards = shards1, first_loads = loads1, lookups = found, moved_rows = n, later_loads = loads2, stale_write = late,
       later_shards = shards2, hash_would_move = hash_moves first_tenants\<rparr>))))))))))))))"

section \<open>Placements\<close>

text \<open>The abstract view: where a tenant is and with how many rows, and how many rows a shard has.\<close>

record placement =
  place :: "string \<rightharpoonup> string"
  tally :: "string \<Rightarrow> nat"
  load :: "string \<Rightarrow> nat"

definition placed :: "placement \<Rightarrow> string \<Rightarrow> world \<Rightarrow> bool" where
  "placed p t w \<longleftrightarrow> (case place p t of
     None \<Rightarrow> directory w t = None \<and> (\<forall>s. t \<notin> hosted (dbs w s) \<and> rows_of (dbs w s) t = [])
   | Some s \<Rightarrow> (\<exists>v. directory w t = Some \<lparr>d_shard = s, d_moving = False, d_version = v\<rparr>) \<and>
       (\<exists>rows. exclusive w rows t s \<and> length rows = tally p t))"

definition describes :: "placement \<Rightarrow> world \<Rightarrow> bool" where
  "describes p w \<longleftrightarrow> (\<forall>s. length (orders (dbs w s)) = load p s) \<and> (\<forall>t. placed p t w)"

definition cached_ok :: "placement \<Rightarrow> router \<Rightarrow> bool" where
  "cached_ok p r \<longleftrightarrow> (\<forall>t e. cache r t = Some e \<longrightarrow> place p t = Some (fst e))"

definition known :: "placement \<Rightarrow> world \<Rightarrow> bool" where
  "known p w \<longleftrightarrow> (\<forall>t s. place p t = Some s \<longrightarrow> shard_names w s \<noteq> None)"

definition put_tenant :: "string \<Rightarrow> string \<Rightarrow> placement \<Rightarrow> placement" where
  "put_tenant t s p = p\<lparr>place := (place p)(t \<mapsto> s), tally := (tally p)(t := 0)\<rparr>"

definition add_rows :: "string \<Rightarrow> nat \<Rightarrow> placement \<Rightarrow> placement" where
  "add_rows t n p = p\<lparr>tally := (tally p)(t := tally p t + n), load := (load p)(the (place p t) := load p (the (place p t)) + n)\<rparr>"

definition move_to :: "string \<Rightarrow> string \<Rightarrow> placement \<Rightarrow> placement" where
  "move_to t g p = p\<lparr>place := (place p)(t \<mapsto> g),
     load := (load p)(the (place p t) := load p (the (place p t)) - tally p t, g := load p g + tally p t)\<rparr>"

fun least :: "(string \<Rightarrow> nat) \<Rightarrow> string list \<Rightarrow> (string \<times> nat) option \<Rightarrow> (string \<times> nat) option" where
  "least f [] best = best"
| "least f (s # ss) best = least f ss (case best of None \<Rightarrow> Some (s, f s) | Some (b, m) \<Rightarrow> if f s < m then Some (s, f s) else best)"

lemma placed_cong: "same_for t w w' \<Longrightarrow> place p' t = place p t \<Longrightarrow> tally p' t = tally p t \<Longrightarrow> placed p' t w' = placed p t w"
  unfolding placed_def same_for_def exclusive_def by (cases "place p t") auto

lemma describesD: "describes p w \<Longrightarrow> placed p t w"
  by (simp add: describes_def)

lemma describes_names [simp]: "describes p (w\<lparr>shard_names := f\<rparr>) = describes p w"
proof -
  have "same_for t w (w\<lparr>shard_names := f\<rparr>)" for t by (simp add: same_for_def)
  from placed_cong [OF this refl refl] show ?thesis by (simp add: describes_def)
qed

lemma describesI:
  assumes "describes p w" "\<And>s. length (orders (dbs w' s)) = load p' s" "placed p' t w'"
    and "\<And>t'. t' \<noteq> t \<Longrightarrow> same_for t' w w' \<and> place p' t' = place p t' \<and> tally p' t' = tally p t'"
  shows "describes p' w'"
  unfolding describes_def
proof (intro conjI allI)
  show "length (orders (dbs w' s)) = load p' s" for s by (rule assms(2))
  show "placed p' t' w'" for t'
  proof (cases "t' = t")
    case False
    with assms(4) [OF this] placed_cong [of t' w w' p' p] assms(1) show ?thesis by (simp add: describes_def)
  qed (simp add: assms(3))
qed

lemma length_rows: "length (filter (\<lambda>r. fst r \<noteq> t) xs) = length xs - length (filter (\<lambda>r. fst r = t) xs)"
  by (induction xs) (auto simp: Suc_diff_le)

lemma open_names_known: "s \<in> set (open_names w) \<Longrightarrow> shard_names w s = Some True"
  by (simp only: open_names_def set_filter) blast

lemma all_names_known: "s \<in> set (all_names w) \<Longrightarrow> shard_names w s \<noteq> None"
  by (simp only: all_names_def set_filter) blast

section \<open>One operation at a time, on servers that answer\<close>

lemma shard_Done: "shard_names w s \<noteq> None \<Longrightarrow> \<exists>oo. shard Done w s r = (Some (), r\<lparr>opened := oo\<rparr>)"
  by (cases "s \<in> opened r") (auto simp: shard_def intro: exI [of _ "opened r"])

lemma least_loaded_Done:
  "\<forall>s \<in> set names. shard_names w s \<noteq> None \<Longrightarrow>
   \<exists>oo. least_loaded (\<lambda>_. (Done, Done)) w names best r = (Some (least (\<lambda>s. length (orders (dbs w s))) names best), r\<lparr>opened := oo\<rparr>)"
proof (induction names arbitrary: best r)
  case Nil
  show ?case by (auto intro: exI [of _ "opened r"])
next
  case (Cons s names)
  then obtain oo where s: "shard Done w s r = (Some (), r\<lparr>opened := oo\<rparr>)" using shard_Done by fastforce
  from Cons.IH [of _ "r\<lparr>opened := oo\<rparr>"] Cons.prems show ?case by (simp add: s Let_def)
qed

text \<open>Onboarding places the tenant on a least loaded open shard.\<close>

lemma onboard_Done:
  assumes "describes p w" "place p t = None" "least (load p) (open_names w) None = Some (s, n)"
  shows "\<exists>oo w'. onboard_tenant (Done, \<lambda>_. (Done, Done), Done, Done) t r w = (Some s, r\<lparr>opened := oo\<rparr>, w') \<and>
    describes (put_tenant t s p) w' \<and> shard_names w' = shard_names w"
proof -
  have loads: "(\<lambda>s. length (orders (dbs w s))) = load p" using assms(1) by (simp add: describes_def)
  have "\<forall>s \<in> set (open_names w). shard_names w s \<noteq> None" using open_names_known by auto
  from least_loaded_Done [OF this, of None r] obtain oo where
    l: "least_loaded (\<lambda>_. (Done, Done)) w (open_names w) None r = (Some (Some (s, n)), r\<lparr>opened := oo\<rparr>)"
    by (auto simp: loads assms(3))
  have t: "directory w t = None" "\<And>s. t \<notin> hosted (dbs w s)" "\<And>s. rows_of (dbs w s) t = []"
    using describesD [OF assms(1), of t] assms(2) by (auto simp: placed_def)
  let ?db = "(dbs w s)\<lparr>hosted := insert t (hosted (dbs w s))\<rparr>"
  let ?w = "w\<lparr>dbs := (dbs w)(s := ?db), directory := (directory w)(t \<mapsto> \<lparr>d_shard = s, d_moving = False, d_version = 1\<rparr>)\<rparr>"
  have o: "onboard_tenant (Done, \<lambda>_. (Done, Done), Done, Done) t r w = (Some s, r\<lparr>opened := oo\<rparr>, ?w)"
    by (simp add: onboard_tenant_def onboard_def l insert_hosted_def t)
  have "describes (put_tenant t s p) ?w"
  proof (rule describesI [OF assms(1), of _ _ t])
    show "length (orders (dbs ?w s')) = load (put_tenant t s p) s'" for s'
      using fun_cong [OF loads, of s'] by (auto simp: put_tenant_def)
    show "placed (put_tenant t s p) t ?w" using t by (simp add: placed_def put_tenant_def exclusive_def rows_of_def)
  qed (auto simp: same_for_def rows_of_def put_tenant_def)
  with o show ?thesis by (intro exI [of _ oo] exI [of _ ?w]) simp
qed

lemma lookup_Done:
  assumes "describes p w" "place p t = Some s" "cached_ok p r"
  shows "\<exists>v. lookup Done w t r = (Some (s, v),
    if cache r t \<noteq> None then r\<lparr>hits := hits r + 1\<rparr> else r\<lparr>misses := misses r + 1, cache := (cache r)(t \<mapsto> (s, v))\<rparr>)"
proof (cases "cache r t")
  case None
  from assms(1,2) obtain v where "directory w t = Some \<lparr>d_shard = s, d_moving = False, d_version = v\<rparr>"
    using describesD [of p w t] by (auto simp: placed_def)
  with None show ?thesis by (intro exI [of _ v]) (simp add: lookup_def Let_def)
next
  case (Some e)
  with assms(2,3) have "fst e = s" unfolding cached_ok_def by fastforce
  with Some show ?thesis by (cases e) (simp add: lookup_def)
qed

lemma insert_effect:
  assumes "describes p w" "place p t = Some s" "insert_stmt t as (dbs w s) = (n, db)"
  shows "n = length as \<and> describes (add_rows t (length as) p) (put_db s db w)"
proof -
  from assms(1,2) obtain v rows where d: "directory w t = Some \<lparr>d_shard = s, d_moving = False, d_version = v\<rparr>"
    and x: "exclusive w rows t s" "length rows = tally p t"
    using describesD [of p w t] by (auto simp: placed_def)
  then have h: "t \<in> hosted (dbs w s)" by (simp add: exclusive_def)
  have len: "length (numbered t i as) = length as" for i by (induction "as" arbitrary: i) auto
  from h assms(3) have n: "n = length as" and db: "db = (dbs w s)\<lparr>orders := orders (dbs w s) @ numbered t (next_id (dbs w s) t) as\<rparr>"
    by (auto simp: insert_stmt_def)
  have "describes (add_rows t (length as) p) (put_db s db w)"
  proof (rule describesI [OF assms(1), of _ _ t])
    show "length (orders (dbs (put_db s db w) s')) = load (add_rows t (length as) p) s'" for s'
      using assms(1,2) by (simp add: describes_def add_rows_def db len)
    have "exclusive (put_db s db w) (rows @ numbered t (next_id (dbs w s) t) as) t s"
      using x(1) by (auto simp: exclusive_def db rows_of_def)
    then show "placed (add_rows t (length as) p) t (put_db s db w)"
      using d x(2) assms(2) by (auto simp: placed_def add_rows_def len intro!: exI [of _ "rows @ numbered t (next_id (dbs w s) t) as"])
  qed (use insert_stmt_other [OF _ assms(3)] in \<open>auto simp: same_for_put add_rows_def\<close>)
  with n show ?thesis by simp
qed

lemma insert_Done:
  assumes "describes p w" "place p t = Some s" "cached_ok p r" "shard_names w s \<noteq> None" "as \<noteq> []"
  shows "\<exists>r' w'. insert_orders (\<lambda>_. (Done, Done, Done)) t as r w = (Some (s, False), r', w') \<and> cached_ok p r' \<and>
    describes (add_rows t (length as) p) w' \<and> shard_names w' = shard_names w"
proof -
  obtain n db where i: "insert_stmt t as (dbs w s) = (n, db)" by fastforce
  from insert_effect [OF assms(1,2) i] assms(5) have n: "0 < n" and d: "describes (add_rows t (length as) p) (put_db s db w)" by auto
  from lookup_Done [OF assms(1,2,3)] obtain v r1 where l: "lookup Done w t r = (Some (s, v), r1)"
    and r1: "r1 = (if cache r t \<noteq> None then r\<lparr>hits := hits r + 1\<rparr> else r\<lparr>misses := misses r + 1, cache := (cache r)(t \<mapsto> (s, v))\<rparr>)"
    by blast
  from shard_Done [OF assms(4)] obtain oo where sh: "shard Done w s r1 = (Some (), r1\<lparr>opened := oo\<rparr>)" by blast
  have two: "(2 :: nat) = Suc (Suc 0)" by simp
  have "insert_orders (\<lambda>_. (Done, Done, Done)) t as r w = (Some (s, False), r1\<lparr>opened := oo\<rparr>, put_db s db w)"
    using n by (simp add: insert_orders_def two l sh i Let_def put_db_def)
  moreover have "cached_ok p (r1\<lparr>opened := oo\<rparr>)" using assms(2,3) by (auto simp: r1 cached_ok_def)
  ultimately show ?thesis using d by auto
qed

lemma stale_insert_Done:
  assumes "describes p w" "place p t = Some s" "cache r t = Some (s0, v0)" "s0 \<noteq> s" "shard_names w s \<noteq> None" "shard_names w s0 \<noteq> None" "as \<noteq> []"
  shows "\<exists>r' w'. insert_orders (\<lambda>_. (Done, Done, Done)) t as r w = (Some (s, True), r', w') \<and>
    describes (add_rows t (length as) p) w' \<and> shard_names w' = shard_names w"
proof -
  obtain n db where i: "insert_stmt t as (dbs w s) = (n, db)" by fastforce
  from insert_effect [OF assms(1,2) i] assms(7) have n: "0 < n" and d: "describes (add_rows t (length as) p) (put_db s db w)" by auto
  from assms(1,2) obtain v rows where dir: "directory w t = Some \<lparr>d_shard = s, d_moving = False, d_version = v\<rparr>"
    and x: "exclusive w rows t s"
    using describesD [of p w t] by (auto simp: placed_def)
  then have "t \<notin> hosted (dbs w s0)" using assms(4) by (simp add: exclusive_def)
  then have i0: "insert_stmt t as (dbs w s0) = (0, dbs w s0)" by (simp add: insert_stmt_def)
  let ?r = "r\<lparr>hits := hits r + 1\<rparr>"
  from shard_Done [OF assms(6), of ?r] obtain oo where s0: "shard Done w s0 ?r = (Some (), ?r\<lparr>opened := oo\<rparr>)" by blast
  let ?r1 = "?r\<lparr>opened := oo, cache := (cache r)(t := None)\<rparr>"
  let ?r2 = "?r1\<lparr>misses := misses r + 1, cache := (cache r)(t \<mapsto> (s, v))\<rparr>"
  have l2: "lookup Done w t ?r1 = (Some (s, v), ?r2)" by (simp add: lookup_def dir Let_def)
  from shard_Done [OF assms(5), of ?r2] obtain oo2 where s2: "shard Done w s ?r2 = (Some (), ?r2\<lparr>opened := oo2\<rparr>)" by blast
  have two: "(2 :: nat) = Suc (Suc 0)" by simp
  have l1: "lookup Done w t r = (Some (s0, v0), ?r)" by (simp add: lookup_def assms(3))
  have "insert_orders (\<lambda>_. (Done, Done, Done)) t as r w = (Some (s, True), ?r2\<lparr>opened := oo2\<rparr>, put_db s db w)"
    unfolding insert_orders_def two insert_loop.simps Let_def prod.case l1 option.case s0 i0
    using l2 s2 n i by (simp add: put_db_def)
  with d show ?thesis by auto
qed

lemma count_Done:
  assumes "describes p w" "place p t = Some s" "cached_ok p r" "shard_names w s \<noteq> None"
  shows "\<exists>r'. count_orders Done Done Done t r w = (Some (tally p t), r') \<and> cached_ok p r' \<and> dom (cache r') = insert t (dom (cache r)) \<and>
    misses r' = misses r + (if cache r t = None then 1 else 0) \<and> hits r' = hits r + (if cache r t = None then 0 else 1)"
proof -
  from lookup_Done [OF assms(1,2,3)] obtain v r1 where l: "lookup Done w t r = (Some (s, v), r1)"
    and r1: "r1 = (if cache r t \<noteq> None then r\<lparr>hits := hits r + 1\<rparr> else r\<lparr>misses := misses r + 1, cache := (cache r)(t \<mapsto> (s, v))\<rparr>)"
    by blast
  from shard_Done [OF assms(4)] obtain oo where sh: "shard Done w s r1 = (Some (), r1\<lparr>opened := oo\<rparr>)" by blast
  have "length (rows_of (dbs w s) t) = tally p t"
    using describesD [OF assms(1), of t] assms(2) by (auto simp: placed_def exclusive_def)
  then have "count_orders Done Done Done t r w = (Some (tally p t), r1\<lparr>opened := oo\<rparr>)"
    by (simp add: count_orders_def l sh)
  moreover have "cached_ok p (r1\<lparr>opened := oo\<rparr>)" using assms(2,3) by (auto simp: r1 cached_ok_def)
  moreover have "dom (cache r1) = insert t (dom (cache r))" by (auto simp: r1)
  ultimately show ?thesis by (auto simp: r1)
qed

lemma move_Done:
  assumes "describes p w" "place p t = Some s" "s \<noteq> g" "shard_names w s \<noteq> None" "shard_names w g \<noteq> None" "cached_ok p r"
  shows "\<exists>r' w'. move_tenant Done (Done, Done) Done (Done, Done) Done Done t g r w = (Some (tally p t), r', w') \<and>
    cached_ok (move_to t g p) r' \<and> describes (move_to t g p) w' \<and> shard_names w' = shard_names w"
proof -
  from assms(1,2) obtain v rows where dir: "directory w t = Some \<lparr>d_shard = s, d_moving = False, d_version = v\<rparr>"
    and x: "exclusive w rows t s" "length rows = tally p t"
    using describesD [of p w t] by (auto simp: placed_def)
  let ?w1 = "w\<lparr>directory := (directory w)(t \<mapsto> \<lparr>d_shard = s, d_moving = True, d_version = v\<rparr>)\<rparr>"
  have m: "mark_moving t w = (Some s, ?w1)" by (simp add: mark_moving_def dir)
  from shard_Done [of ?w1 s r] assms(4) obtain oo where s1: "shard Done ?w1 s r = (Some (), r\<lparr>opened := oo\<rparr>)" by auto
  from shard_Done [of ?w1 g "r\<lparr>opened := oo\<rparr>"] assms(5) obtain oo2 where
    s2: "shard Done ?w1 g (r\<lparr>opened := oo\<rparr>) = (Some (), r\<lparr>opened := oo2\<rparr>)" by auto
  have rows: "rows_of (dbs w s) t = rows" "rows_of (dbs w g) t = []" "t \<notin> hosted (dbs w g)"
    using x(1) assms(3) by (auto simp: exclusive_def)
  have nodup: "(\<lambda>(t, i, _). (t, i)) ` set rows \<inter> (\<lambda>(t, i, _). (t, i)) ` set (orders (dbs w g)) = {}"
    using rows(1,2) by (force simp: rows_of_def filter_empty_conv)
  let ?db = "(dbs w g)\<lparr>orders := orders (dbs w g) @ rows, hosted := insert t (hosted (dbs w g))\<rparr>"
  have c: "copy_tenant t rows (dbs w g) = (Inr (), ?db)"
    using nodup rows(3) by (simp add: copy_tenant_def bind_tx_def copy_rows_def insert_hosted_def)
  let ?w3 = "?w1\<lparr>dbs := (dbs w)(g := ?db, s := release t (dbs w s))\<rparr>"
  have mv: "move_tenant Done (Done, Done) Done (Done, Done) Done Done t g r w =
      (Some (tally p t), r\<lparr>opened := oo2, cache := (cache r)(t := None)\<rparr>, repoint t g ?w3)"
    using assms(3) x(2) by (simp add: move_tenant_def m s1 s2 rows(1) c begin_func_Done Let_def)
  have "describes (move_to t g p) (repoint t g ?w3)"
  proof (rule describesI [OF assms(1), of _ _ t])
    have loads: "length (orders (dbs w s')) = load p s'" for s' using assms(1) by (simp add: describes_def)
    have rel: "length (orders (release t (dbs w s))) = load p s - tally p t"
      using length_rows [of t "orders (dbs w s)"] rows(1) x(2) loads [of s] by (simp add: release_def rows_of_def)
    show "length (orders (dbs (repoint t g ?w3) s')) = load (move_to t g p) s'" for s'
      using loads x(2) rel assms(2,3) by (simp add: move_to_def)
    have "exclusive (repoint t g ?w3) rows t g"
      using x(1) assms(3) rows release_result(2) [of t "dbs w s"] release_result(1) [of t "dbs w s"]
      by (auto simp: exclusive_def rows_of_def filter_id_conv)
    then show "placed (move_to t g p) t (repoint t g ?w3)"
      using x(2) by (auto simp: placed_def move_to_def)
    fix t' assume t': "t' \<noteq> t"
    have "rows_of ?db t' = rows_of (dbs w g) t'"
      using t' rows(1) rows_of_tenant [of t' "dbs w s" t] by (simp add: rows_of_def)
    then have "same_for t' w ?w3" using t' assms(3) release_result(3) [OF t'] release_result(1) by (simp add: same_for_def)
    moreover have "same_for t' ?w3 (repoint t g ?w3)" by (rule same_for_repoint [OF t'])
    ultimately show "same_for t' w (repoint t g ?w3) \<and> place (move_to t g p) t' = place p t' \<and> tally (move_to t g p) t' = tally p t'"
      using t' by (simp add: same_for_def move_to_def)
  qed
  moreover have "cached_ok (move_to t g p) (r\<lparr>opened := oo2, cache := (cache r)(t := None)\<rparr>)"
    using assms(6) by (auto simp: cached_ok_def move_to_def)
  moreover have "shard_names (repoint t g ?w3) = shard_names w" by (simp add: repoint_def split: option.split)
  ultimately show ?thesis using mv by auto
qed

section \<open>The whole run\<close>

definition calm :: "(string \<Rightarrow> int list) \<Rightarrow> int list \<Rightarrow> (nat \<Rightarrow> string list) \<Rightarrow> dmain_env" where
  "calm amounts late_amounts order = \<lparr>resets = (\<lambda>_. (Done, Done)), onboards = (\<lambda>_. (Done, \<lambda>_. (Done, Done), Done, Done)),
     inserts = (\<lambda>_ _. (Done, Done, Done)), counts = (\<lambda>_ _. (Done, Done, Done)), load_names = (\<lambda>_. (Done, Done)),
     load_counts = (\<lambda>_ _. (Done, Done)), looked_up = Done, shard_added = Done, move_marked = Done, move_pools = (Done, Done),
     move_source = Done, move_target = (Done, Done), move_commit = Done, move_repoint = Done, shard_closed = Done,
     late_insert = (\<lambda>_. (Done, Done, Done)), range_order = order, drawn = amounts, drawn_late = late_amounts\<rparr>"

lemma calm_sel [simp]:
  "resets (calm a b c) = (\<lambda>_. (Done, Done))" "onboards (calm a b c) t = (Done, \<lambda>_. (Done, Done), Done, Done)"
  "inserts (calm a b c) t = (\<lambda>_. (Done, Done, Done))" "counts (calm a b c) k = (\<lambda>_. (Done, Done, Done))"
  "load_names (calm a b c) k = (Done, Done)" "load_counts (calm a b c) k = (\<lambda>_. (Done, Done))" "looked_up (calm a b c) = Done"
  "shard_added (calm a b c) = Done" "move_marked (calm a b c) = Done" "move_pools (calm a b c) = (Done, Done)"
  "move_source (calm a b c) = Done" "move_target (calm a b c) = (Done, Done)" "move_commit (calm a b c) = Done"
  "move_repoint (calm a b c) = Done" "shard_closed (calm a b c) = Done" "late_insert (calm a b c) = (\<lambda>_. (Done, Done, Done))"
  "range_order (calm a b c) = c" "drawn (calm a b c) = a" "drawn_late (calm a b c) = b"
  by (simp_all add: calm_def)

text \<open>The run of a placement through the onboarding loops: the shards chosen and the placement afterwards.\<close>

fun onboard_plan :: "(string \<Rightarrow> nat) \<Rightarrow> string list \<Rightarrow> string list \<Rightarrow> placement \<Rightarrow> string list \<times> placement" where
  "onboard_plan vol names [] p = ([], p)"
| "onboard_plan vol names (t # ts) p =
     (let s = fst (the (least (load p) names None));
          (ss, p') = onboard_plan vol names ts (add_rows t (vol t) (put_tenant t s p))
      in (s # ss, p'))"

lemma least_Some: "names \<noteq> [] \<or> best \<noteq> None \<Longrightarrow> \<exists>s n. least f names best = Some (s, n) \<and> (s \<in> set names \<or> best = Some (s, n))"
proof (induction names arbitrary: best)
  case (Cons x xs)
  let ?b = "case best of None \<Rightarrow> Some (x, f x) | Some (b, m) \<Rightarrow> if f x < m then Some (x, f x) else best"
  have "?b \<noteq> None" by (auto split: option.split)
  from Cons.IH [of ?b] this show ?case by (fastforce split: option.splits if_splits)
qed auto

lemma onboard_all_Done:
  assumes "describes p (dw s)" "cached_ok p (app s)" "open_names (dw s) \<noteq> []"
    and "distinct ts" "\<forall>t \<in> set ts. place p t = None \<and> amounts t \<noteq> []" "known p (dw s)"
  shows "\<exists>s'. onboard_all (calm amounts late ord) ts s = (Some (fst (onboard_plan (\<lambda>t. length (amounts t)) (open_names (dw s)) ts p)), s') \<and>
    describes (snd (onboard_plan (\<lambda>t. length (amounts t)) (open_names (dw s)) ts p)) (dw s') \<and>
    cached_ok (snd (onboard_plan (\<lambda>t. length (amounts t)) (open_names (dw s)) ts p)) (app s') \<and>
    known (snd (onboard_plan (\<lambda>t. length (amounts t)) (open_names (dw s)) ts p)) (dw s') \<and>
    shard_names (dw s') = shard_names (dw s) \<and> app2 s' = app2 s"
  using assms
proof (induction ts arbitrary: p s)
  case Nil
  then show ?case by (simp add: give_def)
next
  case (Cons t ts)
  obtain sh n where l: "least (load p) (open_names (dw s)) None = Some (sh, n)" "sh \<in> set (open_names (dw s))"
    using least_Some [of "open_names (dw s)" None] Cons.prems(3) by fastforce
  from onboard_Done [OF Cons.prems(1) _ l(1), of t "app s"] Cons.prems(5) obtain oo w1 where
    o: "onboard_tenant (Done, \<lambda>_. (Done, Done), Done, Done) t (app s) (dw s) = (Some sh, (app s)\<lparr>opened := oo\<rparr>, w1)"
    and d1: "describes (put_tenant t sh p) w1" and n1: "shard_names w1 = shard_names (dw s)" by auto
  let ?p1 = "put_tenant t sh p" let ?r1 = "(app s)\<lparr>opened := oo\<rparr>"
  have c1: "cached_ok ?p1 ?r1"
    using Cons.prems(2,5) by (auto simp: cached_ok_def put_tenant_def)
  have k: "shard_names w1 sh \<noteq> None" using open_names_known [OF l(2)] n1 by simp
  have pl: "place ?p1 t = Some sh" by (simp add: put_tenant_def)
  have am: "amounts t \<noteq> []" using Cons.prems(5) by simp
  from insert_Done [OF d1 pl c1 k am] obtain r2 w2 where
    i: "insert_orders (\<lambda>_. (Done, Done, Done)) t (amounts t) ?r1 w1 = (Some (sh, False), r2, w2)"
    and c2: "cached_ok ?p1 r2" and d2: "describes (add_rows t (length (amounts t)) ?p1) w2" and n2: "shard_names w2 = shard_names w1"
    by blast
  let ?p2 = "add_rows t (length (amounts t)) ?p1" let ?s2 = "s\<lparr>app := r2, dw := w2\<rparr>"
  have on: "open_names w2 = open_names (dw s)" by (simp add: open_names_def n1 n2)
  have "\<exists>s'. onboard_all (calm amounts late ord) ts ?s2 = (Some (fst (onboard_plan (\<lambda>t. length (amounts t)) (open_names (dw ?s2)) ts ?p2)), s') \<and>
      describes (snd (onboard_plan (\<lambda>t. length (amounts t)) (open_names (dw ?s2)) ts ?p2)) (dw s') \<and>
      cached_ok (snd (onboard_plan (\<lambda>t. length (amounts t)) (open_names (dw ?s2)) ts ?p2)) (app s') \<and>
      known (snd (onboard_plan (\<lambda>t. length (amounts t)) (open_names (dw ?s2)) ts ?p2)) (dw s') \<and>
      shard_names (dw s') = shard_names (dw ?s2) \<and> app2 s' = app2 ?s2"
  proof (rule Cons.IH)
    show "describes ?p2 (dw ?s2)" using d2 by simp
    show "cached_ok ?p2 (app ?s2)" using c2 by (simp add: cached_ok_def add_rows_def)
    show "open_names (dw ?s2) \<noteq> []" using Cons.prems(3) by (simp add: on)
    show "distinct ts" using Cons.prems(4) by simp
    show "\<forall>t' \<in> set ts. place ?p2 t' = None \<and> amounts t' \<noteq> []"
      using Cons.prems(4,5) by (auto simp: add_rows_def put_tenant_def)
    show "known ?p2 (dw ?s2)" using Cons.prems(6) k by (auto simp: known_def add_rows_def put_tenant_def n1 n2)
  qed
  then obtain s' where IH: "onboard_all (calm amounts late ord) ts ?s2 = (Some (fst (onboard_plan (\<lambda>t. length (amounts t)) (open_names (dw s)) ts ?p2)), s')"
    "describes (snd (onboard_plan (\<lambda>t. length (amounts t)) (open_names (dw s)) ts ?p2)) (dw s')"
    "cached_ok (snd (onboard_plan (\<lambda>t. length (amounts t)) (open_names (dw s)) ts ?p2)) (app s')"
    "known (snd (onboard_plan (\<lambda>t. length (amounts t)) (open_names (dw s)) ts ?p2)) (dw s')"
    "shard_names (dw s') = shard_names (dw s)" "app2 s' = app2 s"
    by (auto simp: on n1 n2)
  show ?case
    using IH by (auto simp: and_then_def with_app_def o i give_def l(1) Let_def split_beta)
qed

lemma count_all_Done:
  assumes "describes p (dw s)" "cached_ok p (app s)" "known p (dw s)" "\<forall>t \<in> set ts. place p t \<noteq> None" "distinct ts"
  shows "\<exists>r'. count_all (\<lambda>_. (Done, Done, Done)) ts s = (Some (), s\<lparr>app := r'\<rparr>) \<and> cached_ok p r' \<and>
    dom (cache r') = dom (cache (app s)) \<union> set ts \<and> misses r' = misses (app s) + card (set ts - dom (cache (app s))) \<and>
    misses r' + hits r' = misses (app s) + hits (app s) + length ts"
  using assms
proof (induction ts arbitrary: s)
  case Nil
  then show ?case by (auto simp: give_def intro!: exI [of _ "app s"])
next
  case (Cons t ts)
  from Cons.prems(4) obtain sh where sh: "place p t = Some sh" by auto
  then have "shard_names (dw s) sh \<noteq> None" using Cons.prems(3) by (auto simp: known_def)
  from count_Done [OF Cons.prems(1) sh Cons.prems(2) this] obtain r1 where
    c: "count_orders Done Done Done t (app s) (dw s) = (Some (tally p t), r1)" and c1: "cached_ok p r1"
    and dm: "dom (cache r1) = insert t (dom (cache (app s)))"
    and m: "misses r1 = misses (app s) + (if cache (app s) t = None then 1 else 0)"
      "hits r1 = hits (app s) + (if cache (app s) t = None then 0 else 1)" by blast
  from Cons.IH [of "s\<lparr>app := r1\<rparr>"] Cons.prems c1 obtain r' where
    IH: "count_all (\<lambda>_. (Done, Done, Done)) ts (s\<lparr>app := r1\<rparr>) = (Some (), s\<lparr>app := r'\<rparr>)" "cached_ok p r'"
      "dom (cache r') = insert t (dom (cache (app s))) \<union> set ts" "misses r' = misses r1 + card (set ts - insert t (dom (cache (app s))))"
      "misses r' + hits r' = misses r1 + hits r1 + length ts"
    by (auto simp: dm)
  have "set ts - insert t (dom (cache (app s))) = set ts - dom (cache (app s))" using Cons.prems(5) by auto
  moreover have "card (set (t # ts) - dom (cache (app s))) = (if cache (app s) t = None then 1 else 0) + card (set ts - dom (cache (app s)))"
    using Cons.prems(5) by (auto simp: insert_Diff_if domIff)
  ultimately show ?case
    using IH m by (intro exI [of _ r']) (simp add: and_then_def with_app_def c)
qed

lemma count_rounds_Done:
  assumes "describes p (dw s)" "cached_ok p (app s)" "known p (dw s)" "cache (app s) = Map.empty" "misses (app s) = 0" "hits (app s) = 0"
    and "\<forall>k. distinct (ord k) \<and> set (ord k) = T" "\<forall>t \<in> T. place p t \<noteq> None"
  shows "\<exists>r'. count_rounds (calm a b ord) k s = (Some (), s\<lparr>app := r'\<rparr>) \<and> cached_ok p r' \<and>
    dom (cache r') = (if k = 0 then {} else T) \<and> misses r' = (if k = 0 then 0 else card T) \<and> misses r' + hits r' = k * card T"
proof (induction k)
  case 0
  show ?case using assms by (intro exI [of _ "app s"]) (simp add: give_def)
next
  case (Suc k)
  then obtain r1 where r1: "count_rounds (calm a b ord) k s = (Some (), s\<lparr>app := r1\<rparr>)" "cached_ok p r1"
    "dom (cache r1) = (if k = 0 then {} else T)" "misses r1 = (if k = 0 then 0 else card T)" "misses r1 + hits r1 = k * card T" by blast
  have len: "length (ord k) = card T" using assms(7) distinct_card by metis
  have "\<exists>r'. count_all (\<lambda>_. (Done, Done, Done)) (ord k) (s\<lparr>app := r1\<rparr>) = (Some (), (s\<lparr>app := r1\<rparr>)\<lparr>app := r'\<rparr>) \<and> cached_ok p r' \<and>
    dom (cache r') = dom (cache (app (s\<lparr>app := r1\<rparr>))) \<union> set (ord k) \<and>
    misses r' = misses (app (s\<lparr>app := r1\<rparr>)) + card (set (ord k) - dom (cache (app (s\<lparr>app := r1\<rparr>)))) \<and>
    misses r' + hits r' = misses (app (s\<lparr>app := r1\<rparr>)) + hits (app (s\<lparr>app := r1\<rparr>)) + length (ord k)"
    by (rule count_all_Done) (use assms r1(2) in auto)
  then obtain r' where r': "count_all (\<lambda>_. (Done, Done, Done)) (ord k) (s\<lparr>app := r1\<rparr>) = (Some (), s\<lparr>app := r'\<rparr>)" "cached_ok p r'"
    "dom (cache r') = dom (cache r1) \<union> T" "misses r' = misses r1 + card (T - dom (cache r1))"
    "misses r' + hits r' = misses r1 + hits r1 + card T"
    using assms(7) len by auto
  show ?case using r' r1 by (intro exI [of _ r']) (auto simp: and_then_def)
qed

definition nobody :: placement where
  "nobody = \<lparr>place = Map.empty, tally = (\<lambda>_. 0), load = (\<lambda>_. 0)\<rparr>"

lemma reset_Done:
  assumes "shard_names w ''shard1'' = Some True" "shard_names w ''shard2'' = Some True"
    and "\<forall>s. s \<notin> {''shard1'', ''shard2'', ''shard3''} \<longrightarrow> dbs w s = truncated"
  shows "\<exists>oo w'. reset (\<lambda>_. (Done, Done)) r w = (Some (), r\<lparr>opened := oo\<rparr>, w') \<and> describes nobody w' \<and>
    shard_names w' = (shard_names w)(''shard3'' := None)"
proof -
  let ?w1 = "put_db ''shard1'' truncated w" and ?w2 = "put_db ''shard2'' truncated (put_db ''shard1'' truncated w)"
  from shard_Done [of w "''shard1''" r] assms(1) obtain o1 where o1: "shard Done w ''shard1'' r = (Some (), r\<lparr>opened := o1\<rparr>)" by auto
  from shard_Done [of ?w1 "''shard2''" "r\<lparr>opened := o1\<rparr>"] assms(2) obtain o2 where
    o2: "shard Done ?w1 ''shard2'' (r\<lparr>opened := o1\<rparr>) = (Some (), r\<lparr>opened := o2\<rparr>)" by auto
  let ?w = "(put_db ''shard3'' truncated ?w2)\<lparr>directory := Map.empty, shard_names := (shard_names w)(''shard3'' := None)\<rparr>"
  have "reset (\<lambda>_. (Done, Done)) r w = (Some (), r\<lparr>opened := o2\<rparr>, ?w)"
    using o1 o2 by (simp add: reset_def must_def and_then_def put_db_def)
  moreover have "describes nobody ?w"
    using assms(3) by (auto simp: describes_def placed_def nobody_def truncated_def rows_of_def put_db_def)
  ultimately show ?thesis by auto
qed

lemma load_list_Done:
  assumes "\<forall>s \<in> set names. shard_names w s \<noteq> None"
  shows "\<exists>oo. load_list (\<lambda>_. (Done, Done)) names r w = (Some (map (\<lambda>s. (s, length (orders (dbs w s)))) names), r\<lparr>opened := oo\<rparr>, w)"
  using assms
proof (induction names arbitrary: r)
  case Nil
  show ?case by (auto intro: exI [of _ "opened r"])
next
  case (Cons s names)
  then obtain oo where s: "shard Done w s r = (Some (), r\<lparr>opened := oo\<rparr>)" using shard_Done by fastforce
  from Cons.IH [of "r\<lparr>opened := oo\<rparr>"] Cons.prems obtain o2 where
    "load_list (\<lambda>_. (Done, Done)) names (r\<lparr>opened := oo\<rparr>) w = (Some (map (\<lambda>s. (s, length (orders (dbs w s)))) names), r\<lparr>opened := o2\<rparr>, w)"
    by auto
  then show ?case by (auto simp: s)
qed

lemma print_load_Done:
  assumes "describes p w"
  shows "\<exists>oo. print_shard_load (Done, Done) (\<lambda>_. (Done, Done)) r w = (Some (map (\<lambda>s. (s, load p s)) (all_names w)), r\<lparr>opened := oo\<rparr>, w)"
proof -
  have "\<forall>s \<in> set (all_names w). shard_names w s \<noteq> None" using all_names_known by blast
  from load_list_Done [OF this, of r] assms show ?thesis by (simp add: print_shard_load_def describes_def)
qed

definition placing :: "(string \<Rightarrow> nat) \<Rightarrow> string \<Rightarrow> string \<Rightarrow> placement \<Rightarrow> placement" where
  "placing vol t s p = add_rows t (vol t) (put_tenant t s p)"

lemma placing_sel:
  "load (placing vol t s p) s' = (if s' = s then load p s + vol t else load p s')"
  "place (placing vol t s p) t' = (if t' = t then Some s else place p t')"
  "tally (placing vol t s p) t' = (if t' = t then vol t else tally p t')"
  by (simp_all add: placing_def add_rows_def put_tenant_def)

lemma plan_step:
  assumes "fst (the (least (load p) names None)) = s"
  shows "fst (onboard_plan vol names (t # ts) p) = s # fst (onboard_plan vol names ts (placing vol t s p))"
    and "snd (onboard_plan vol names (t # ts) p) = snd (onboard_plan vol names ts (placing vol t s p))"
  using assms by (simp_all add: placing_def Let_def split_beta)

lemma plan_first:
  fixes vol :: "string \<Rightarrow> nat"
  assumes "map vol first_tenants = [300, 250, 200, 6000, 150, 100]"
  defines "plan \<equiv> onboard_plan vol [''shard1'', ''shard2''] first_tenants nobody"
  shows "fst plan = [''shard1'', ''shard2'', ''shard2'', ''shard1'', ''shard2'', ''shard2'']"
    "\<forall>t \<in> set first_tenants. place (snd plan) t \<noteq> None" "place (snd plan) ''wayne'' = None \<and> place (snd plan) ''stark'' = None"
    "place (snd plan) ''megacorp'' = Some ''shard1''" "tally (snd plan) ''megacorp'' = 6000"
    "load (snd plan) ''shard1'' = 6300" "load (snd plan) ''shard2'' = 700" "load (snd plan) ''shard3'' = 0"
proof -
  have vol: "vol ''acme'' = 300" "vol ''globex'' = 250" "vol ''initech'' = 200" "vol ''megacorp'' = 6000" "vol ''hooli'' = 150" "vol ''umbrella'' = 100"
    using assms(1) by (simp_all add: first_tenants_def)
  have nb: "load nobody s = 0" "place nobody t = None" "tally nobody t = 0" for s t by (simp_all add: nobody_def)
  note defs = plan_def first_tenants_def plan_step [OF refl] placing_sel vol nb
  show fst: "fst plan = [''shard1'', ''shard2'', ''shard2'', ''shard1'', ''shard2'', ''shard2'']"
    by (simp add: defs del: onboard_plan.simps(2))
  have snd: "snd plan = placing vol ''umbrella'' ''shard2'' (placing vol ''hooli'' ''shard2'' (placing vol ''megacorp'' ''shard1''
      (placing vol ''initech'' ''shard2'' (placing vol ''globex'' ''shard2'' (placing vol ''acme'' ''shard1'' nobody)))))"
    by (simp add: defs del: onboard_plan.simps(2))
  show "\<forall>t \<in> set first_tenants. place (snd plan) t \<noteq> None" by (simp add: snd placing_sel first_tenants_def)
  show "place (snd plan) ''wayne'' = None \<and> place (snd plan) ''stark'' = None" by (simp add: snd placing_sel nb)
  show "place (snd plan) ''megacorp'' = Some ''shard1''" "tally (snd plan) ''megacorp'' = 6000"
    "load (snd plan) ''shard1'' = 6300" "load (snd plan) ''shard2'' = 700" "load (snd plan) ''shard3'' = 0"
    by (simp_all add: snd placing_sel nb vol)
qed

definition first_plan :: "(string \<Rightarrow> int list) \<Rightarrow> placement" where
  "first_plan amounts = snd (onboard_plan (\<lambda>t. length (amounts t)) [''shard1'', ''shard2''] first_tenants nobody)"

text \<open>Up to the 300 counts: the tenants are placed by load, found 6 times in the directory and 294 times in the cache.\<close>

lemma first_half:
  assumes names: "shard_names (dw s) ''shard1'' = Some True" "shard_names (dw s) ''shard2'' = Some True"
    and only: "\<forall>x. x \<notin> {''shard1'', ''shard2'', ''shard3''} \<longrightarrow> dbs (dw s) x = truncated"
    and fresh: "app s = new_router"
    and volumes: "map (\<lambda>t. length (amounts t)) first_tenants = [300, 250, 200, 6000, 150, 100]"
    and order: "\<forall>k. distinct (ord k) \<and> set (ord k) = set first_tenants"
  obtains s0 s1 o1 r3 where "with_app (reset (\<lambda>_. (Done, Done))) s = (Some (), s0)"
    "onboard_all (calm amounts late ord) first_tenants s0 = (Some [''shard1'', ''shard2'', ''shard2'', ''shard1'', ''shard2'', ''shard2''], s1)"
    "with_app (print_shard_load (Done, Done) (\<lambda>_. (Done, Done))) s1 = (Some [(''shard1'', 6300), (''shard2'', 700)], s1\<lparr>app := (app s1)\<lparr>opened := o1\<rparr>\<rparr>)"
    "count_rounds (calm amounts late ord) 50 (s1\<lparr>app := (app s1)\<lparr>opened := o1, hits := 0, misses := 0, cache := Map.empty\<rparr>\<rparr>) = (Some (), s1\<lparr>app := r3\<rparr>)"
    "misses r3 = 6" "hits r3 = 294" "cached_ok (first_plan amounts) r3" "describes (first_plan amounts) (dw s1)" "known (first_plan amounts) (dw s1)"
    "shard_names (dw s1) = (shard_names (dw s))(''shard3'' := None)" "app2 s1 = app2 s"
proof -
  let ?e = "calm amounts late ord" and ?plan = "onboard_plan (\<lambda>t. length (amounts t)) [''shard1'', ''shard2''] first_tenants nobody"
  have ne: "\<forall>t \<in> set first_tenants. amounts t \<noteq> []" using volumes by (auto simp: first_tenants_def)
  from reset_Done [OF names only, of "app s"] obtain o0 w0 where
    w0: "reset (\<lambda>_. (Done, Done)) (app s) (dw s) = (Some (), (app s)\<lparr>opened := o0\<rparr>, w0)" "describes nobody w0"
      "shard_names w0 = (shard_names (dw s))(''shard3'' := None)" by blast
  let ?s0 = "s\<lparr>app := (app s)\<lparr>opened := o0\<rparr>, dw := w0\<rparr>"
  have on0: "open_names w0 = [''shard1'', ''shard2'']" "all_names w0 = [''shard1'', ''shard2'']"
    using names by (auto simp: open_names_def all_names_def w0(3))
  have "\<exists>s'. onboard_all ?e first_tenants ?s0 = (Some (fst (onboard_plan (\<lambda>t. length (amounts t)) (open_names (dw ?s0)) first_tenants nobody)), s') \<and>
    describes (snd (onboard_plan (\<lambda>t. length (amounts t)) (open_names (dw ?s0)) first_tenants nobody)) (dw s') \<and>
    cached_ok (snd (onboard_plan (\<lambda>t. length (amounts t)) (open_names (dw ?s0)) first_tenants nobody)) (app s') \<and>
    known (snd (onboard_plan (\<lambda>t. length (amounts t)) (open_names (dw ?s0)) first_tenants nobody)) (dw s') \<and>
    shard_names (dw s') = shard_names (dw ?s0) \<and> app2 s' = app2 ?s0"
    by (rule onboard_all_Done) (use w0(2) on0 ne fresh in \<open>auto simp: cached_ok_def new_router_def nobody_def known_def first_tenants_def\<close>)
  then obtain s1 where s1: "onboard_all ?e first_tenants ?s0 = (Some [''shard1'', ''shard2'', ''shard2'', ''shard1'', ''shard2'', ''shard2''], s1)"
    "describes (first_plan amounts) (dw s1)" "cached_ok (first_plan amounts) (app s1)" "known (first_plan amounts) (dw s1)"
    "shard_names (dw s1) = shard_names w0" "app2 s1 = app2 s"
    by (auto simp: on0 plan_first(1) [OF volumes] first_plan_def)
  note pl1 = plan_first(2-8) [OF volumes, folded first_plan_def]
  have all1: "all_names (dw s1) = [''shard1'', ''shard2'']" using on0(2) by (simp add: all_names_def s1(5))
  from print_load_Done [OF s1(2), of "app s1"] obtain o1 where
    l1: "print_shard_load (Done, Done) (\<lambda>_. (Done, Done)) (app s1) (dw s1) =
      (Some [(''shard1'', 6300), (''shard2'', 700)], (app s1)\<lparr>opened := o1\<rparr>, dw s1)" by (auto simp: all1 pl1)
  let ?s2 = "s1\<lparr>app := (app s1)\<lparr>opened := o1, hits := 0, misses := 0, cache := Map.empty\<rparr>\<rparr>"
  have "\<exists>r'. count_rounds ?e 50 ?s2 = (Some (), ?s2\<lparr>app := r'\<rparr>) \<and> cached_ok (first_plan amounts) r' \<and>
    dom (cache r') = (if (50 :: nat) = 0 then {} else set first_tenants) \<and>
    misses r' = (if (50 :: nat) = 0 then 0 else card (set first_tenants)) \<and> misses r' + hits r' = 50 * card (set first_tenants)"
    by (rule count_rounds_Done [where p = "first_plan amounts"]) (use s1(2,4) pl1(1) order in \<open>auto simp: cached_ok_def\<close>)
  moreover have "card (set first_tenants) = 6" by (simp add: first_tenants_def)
  ultimately obtain r3 where r3: "count_rounds ?e 50 ?s2 = (Some (), s1\<lparr>app := r3\<rparr>)" "cached_ok (first_plan amounts) r3" "misses r3 = 6" "hits r3 = 294"
    by auto
  have "with_app (reset (\<lambda>_. (Done, Done))) s = (Some (), ?s0)"
    "with_app (print_shard_load (Done, Done) (\<lambda>_. (Done, Done))) s1 = (Some [(''shard1'', 6300), (''shard2'', 700)], s1\<lparr>app := (app s1)\<lparr>opened := o1\<rparr>\<rparr>)"
    by (simp_all add: with_app_def w0(1) l1)
  from that [OF this(1) s1(1) this(2) r3(1,3,4,2) s1(2,4) _ s1(6)] s1(5) w0(3) show thesis by simp
qed

text \<open>From the move on: the stale router is sent to the new shard, the last tenants go to the shard that the move has emptied.\<close>

lemma second_half:
  fixes s1 :: dmain
  assumes p1: "describes p1 w" "cached_ok p1 r" "known p1 w" "place p1 ''megacorp'' = Some ''shard1''" "tally p1 ''megacorp'' = 6000"
      "load p1 ''shard1'' = 6300" "load p1 ''shard2'' = 700" "load p1 ''shard3'' = 0" "place p1 ''wayne'' = None \<and> place p1 ''stark'' = None"
    and names: "shard_names w ''shard1'' = Some True" "shard_names w ''shard2'' = Some True"
    and volumes: "length (amounts ''wayne'') = 100" "length (amounts ''stark'') = 100" "length late = 10"
  obtains r4 w4 o5 r6 w6 s7 v where
    "lookup Done w ''megacorp'' new_router = (Some (''shard1'', v), new_router\<lparr>misses := 1, cache := [''megacorp'' \<mapsto> (''shard1'', v)]\<rparr>)"
    "move_tenant Done (Done, Done) Done (Done, Done) Done Done ''megacorp'' ''shard3'' r (w\<lparr>shard_names := (shard_names w)(''shard3'' \<mapsto> True)\<rparr>) = (Some 6000, r4, w4)"
    "print_shard_load (Done, Done) (\<lambda>_. (Done, Done)) r4 (w4\<lparr>shard_names := (shard_names w4)(''shard3'' \<mapsto> False)\<rparr>) =
      (Some [(''shard1'', 300), (''shard2'', 700), (''shard3'', 6000)], r4\<lparr>opened := o5\<rparr>, w4\<lparr>shard_names := (shard_names w4)(''shard3'' \<mapsto> False)\<rparr>)"
    "insert_orders (\<lambda>_. (Done, Done, Done)) ''megacorp'' late (new_router\<lparr>misses := 1, cache := [''megacorp'' \<mapsto> (''shard1'', v)]\<rparr>)
      (w4\<lparr>shard_names := (shard_names w4)(''shard3'' \<mapsto> False)\<rparr>) = (Some (''shard3'', True), r6, w6)"
    "onboard_all (calm amounts late ord) [''wayne'', ''stark''] (s1\<lparr>app := r4\<lparr>opened := o5\<rparr>, app2 := r6, dw := w6\<rparr>) = (Some [''shard1'', ''shard1''], s7)"
proof -
  let ?e = "calm amounts late ord"
  from lookup_Done [OF p1(1,4), of new_router] obtain v where
    lk: "lookup Done w ''megacorp'' new_router =
      (Some (''shard1'', v), new_router\<lparr>misses := 1, cache := [''megacorp'' \<mapsto> (''shard1'', v)]\<rparr>)"
    by (auto simp: cached_ok_def new_router_def)
  let ?st = "new_router\<lparr>misses := 1, cache := [''megacorp'' \<mapsto> (''shard1'', v)]\<rparr>"
  let ?w3 = "w\<lparr>shard_names := (shard_names w)(''shard3'' \<mapsto> True)\<rparr>"
  have d3: "describes p1 ?w3" using p1(1) by simp
  from move_Done [OF d3 p1(4), of "''shard3''" r] p1(2) names obtain r4 w4 where
    m: "move_tenant Done (Done, Done) Done (Done, Done) Done Done ''megacorp'' ''shard3'' r ?w3 = (Some 6000, r4, w4)"
    and c4: "cached_ok (move_to ''megacorp'' ''shard3'' p1) r4" and d4: "describes (move_to ''megacorp'' ''shard3'' p1) w4"
    and n4: "shard_names w4 = shard_names ?w3"
    by (auto simp: p1(5))
  let ?p4 = "move_to ''megacorp'' ''shard3'' p1"
  let ?w5 = "w4\<lparr>shard_names := (shard_names w4)(''shard3'' \<mapsto> False)\<rparr>"
  have d5: "describes ?p4 ?w5" using d4 by simp
  have n5: "shard_names ?w5 ''shard1'' = Some True" "shard_names ?w5 ''shard2'' = Some True" "shard_names ?w5 ''shard3'' = Some False"
    using names by (simp_all add: n4)
  have all5: "all_names ?w5 = [''shard1'', ''shard2'', ''shard3'']" "open_names ?w5 = [''shard1'', ''shard2'']"
    using n5 by (auto simp: all_names_def open_names_def)
  from print_load_Done [OF d5, of r4] obtain o5 where
    l5: "print_shard_load (Done, Done) (\<lambda>_. (Done, Done)) r4 ?w5 =
      (Some [(''shard1'', 300), (''shard2'', 700), (''shard3'', 6000)], r4\<lparr>opened := o5\<rparr>, ?w5)"
    by (auto simp: all5 move_to_def p1)
  have pl4: "place ?p4 ''megacorp'' = Some ''shard3''" by (simp add: move_to_def)
  have lne: "late \<noteq> []" using volumes(3) by auto
  from stale_insert_Done [OF d5 pl4, of ?st "''shard1''" v late] n5 lne obtain r6 w6 where
    st: "insert_orders (\<lambda>_. (Done, Done, Done)) ''megacorp'' late ?st ?w5 = (Some (''shard3'', True), r6, w6)"
    and d6: "describes (add_rows ''megacorp'' (length late) ?p4) w6" and n6: "shard_names w6 = shard_names ?w5"
    by auto
  let ?p6 = "add_rows ''megacorp'' (length late) ?p4"
  let ?s6 = "s1\<lparr>app := r4\<lparr>opened := o5\<rparr>, app2 := r6, dw := w6\<rparr>"
  have on6: "open_names w6 = [''shard1'', ''shard2'']" using all5(2) n6 by (simp add: open_names_def)
  have pl6: "place ?p6 ''wayne'' = None" "place ?p6 ''stark'' = None" "load ?p6 ''shard1'' = 300" "load ?p6 ''shard2'' = 700"
    using p1 pl4 by (auto simp: add_rows_def move_to_def)
  have "cached_ok ?p6 r4" using c4 by (simp add: cached_ok_def add_rows_def)
  then have c6: "cached_ok ?p6 (r4\<lparr>opened := o5\<rparr>)" by (simp add: cached_ok_def)
  have kn6: "known ?p6 w6" using p1(3) by (auto simp: known_def add_rows_def move_to_def n6 n4)
  have am6: "amounts ''wayne'' \<noteq> []" "amounts ''stark'' \<noteq> []" using volumes by auto
  have "\<exists>s'. onboard_all ?e [''wayne'', ''stark''] ?s6 =
      (Some (fst (onboard_plan (\<lambda>t. length (amounts t)) (open_names (dw ?s6)) [''wayne'', ''stark''] ?p6)), s') \<and>
    describes (snd (onboard_plan (\<lambda>t. length (amounts t)) (open_names (dw ?s6)) [''wayne'', ''stark''] ?p6)) (dw s') \<and>
    cached_ok (snd (onboard_plan (\<lambda>t. length (amounts t)) (open_names (dw ?s6)) [''wayne'', ''stark''] ?p6)) (app s') \<and>
    known (snd (onboard_plan (\<lambda>t. length (amounts t)) (open_names (dw ?s6)) [''wayne'', ''stark''] ?p6)) (dw s') \<and>
    shard_names (dw s') = shard_names (dw ?s6) \<and> app2 s' = app2 ?s6"
    by (rule onboard_all_Done) (use d6 on6 pl6(1,2) am6 c6 kn6 in simp_all)
  moreover have "fst (onboard_plan (\<lambda>t. length (amounts t)) [''shard1'', ''shard2''] [''wayne'', ''stark''] ?p6) = [''shard1'', ''shard1'']"
    using pl6(3,4) volumes(1) by (simp add: Let_def split_beta add_rows_def put_tenant_def)
  ultimately obtain s7 where "onboard_all ?e [''wayne'', ''stark''] ?s6 = (Some [''shard1'', ''shard1''], s7)"
    by (auto simp: on6)
  from that [OF lk m l5 st this] show thesis .
qed

text \<open>C40: On servers that answer, \<open>main\<close> places the six tenants by load, makes 6 directory lookups and 294 cache hits in the 300 reads,
  moves the 6000 rows of megacorp and nobody else's, writes through the stale router after one retry to the new shard, and
  places the last two tenants on the shard that the move has emptied.\<close>

theorem directory_main_result:
  assumes names: "shard_names (dw s) ''shard1'' = Some True" "shard_names (dw s) ''shard2'' = Some True"
    and only: "\<forall>x. x \<notin> {''shard1'', ''shard2'', ''shard3''} \<longrightarrow> dbs (dw s) x = truncated"
    and fresh: "app s = new_router"
    and volumes: "map (\<lambda>t. length (amounts t)) first_tenants = [300, 250, 200, 6000, 150, 100]" "length (amounts ''wayne'') = 100"
      "length (amounts ''stark'') = 100" "length late = 10"
    and order: "\<forall>k. distinct (ord k) \<and> set (ord k) = set first_tenants"
  shows "fst (directory_main (calm amounts late ord) s) = Some
    \<lparr>first_shards = [''shard1'', ''shard2'', ''shard2'', ''shard1'', ''shard2'', ''shard2''],
     first_loads = [(''shard1'', 6300), (''shard2'', 700)], lookups = (6, 294), moved_rows = 6000,
     later_loads = [(''shard1'', 300), (''shard2'', 700), (''shard3'', 6000)], stale_write = (''shard3'', True),
     later_shards = [''shard1'', ''shard1''], hash_would_move = hash_moves first_tenants\<rparr>"
proof -
  let ?e = "calm amounts late ord"
  obtain s0 s1 o1 r3 where one: "with_app (reset (\<lambda>_. (Done, Done))) s = (Some (), s0)"
    "onboard_all ?e first_tenants s0 = (Some [''shard1'', ''shard2'', ''shard2'', ''shard1'', ''shard2'', ''shard2''], s1)"
    "with_app (print_shard_load (Done, Done) (\<lambda>_. (Done, Done))) s1 = (Some [(''shard1'', 6300), (''shard2'', 700)], s1\<lparr>app := (app s1)\<lparr>opened := o1\<rparr>\<rparr>)"
    "count_rounds ?e 50 (s1\<lparr>app := (app s1)\<lparr>opened := o1, hits := 0, misses := 0, cache := Map.empty\<rparr>\<rparr>) = (Some (), s1\<lparr>app := r3\<rparr>)"
    and counted: "misses r3 = 6" "hits r3 = 294" "cached_ok (first_plan amounts) r3" "describes (first_plan amounts) (dw s1)" "known (first_plan amounts) (dw s1)"
    "shard_names (dw s1) = (shard_names (dw s))(''shard3'' := None)" "app2 s1 = app2 s"
    by (rule first_half [OF names only fresh volumes(1) order, where late = late])
  note pl = plan_first(2-8) [OF volumes(1), folded first_plan_def]
  have n1: "shard_names (dw s1) ''shard1'' = Some True" "shard_names (dw s1) ''shard2'' = Some True" "shard_names (dw s1) ''shard3'' = None"
    using names by (simp_all add: counted(6))
  obtain r4 w4 o5 r6 w6 s7 v where two:
    "lookup Done (dw s1) ''megacorp'' new_router = (Some (''shard1'', v), new_router\<lparr>misses := 1, cache := [''megacorp'' \<mapsto> (''shard1'', v)]\<rparr>)"
    "move_tenant Done (Done, Done) Done (Done, Done) Done Done ''megacorp'' ''shard3'' r3 ((dw s1)\<lparr>shard_names := (shard_names (dw s1))(''shard3'' \<mapsto> True)\<rparr>) = (Some 6000, r4, w4)"
    "print_shard_load (Done, Done) (\<lambda>_. (Done, Done)) r4 (w4\<lparr>shard_names := (shard_names w4)(''shard3'' \<mapsto> False)\<rparr>) =
      (Some [(''shard1'', 300), (''shard2'', 700), (''shard3'', 6000)], r4\<lparr>opened := o5\<rparr>, w4\<lparr>shard_names := (shard_names w4)(''shard3'' \<mapsto> False)\<rparr>)"
    "insert_orders (\<lambda>_. (Done, Done, Done)) ''megacorp'' late (new_router\<lparr>misses := 1, cache := [''megacorp'' \<mapsto> (''shard1'', v)]\<rparr>)
      (w4\<lparr>shard_names := (shard_names w4)(''shard3'' \<mapsto> False)\<rparr>) = (Some (''shard3'', True), r6, w6)"
    "onboard_all ?e [''wayne'', ''stark''] (s1\<lparr>app := r4\<lparr>opened := o5\<rparr>, app2 := r6, dw := w6\<rparr>) = (Some [''shard1'', ''shard1''], s7)"
    by (rule second_half [OF counted(4,3,5) pl(3-7,2) n1(1,2) volumes(2-4), where ord = ord and ?s1.0 = s1])
  show ?thesis
    unfolding directory_main_def
    by (simp only: and_then_def one prod.case option.case calm_sel)
      (simp add: and_then_def with_app_def with_app2_def with_dw_def one(4) counted(1,2) two n1 must_def two [simplified] give_def
        del: onboard_all.simps count_rounds.simps)
qed

definition two_shards :: dmain where
  "two_shards = \<lparr>app = new_router, app2 = new_router, dw = \<lparr>shard_names = [''shard1'' \<mapsto> True, ''shard2'' \<mapsto> True],
     directory = Map.empty, dbs = (\<lambda>_. truncated)\<rparr>\<rparr>"

definition volume :: "string \<Rightarrow> nat" where
  "volume t = (if t = ''acme'' then 300 else if t = ''globex'' then 250 else if t = ''initech'' then 200
     else if t = ''megacorp'' then 6000 else if t = ''hooli'' then 150 else 100)"

theorem directory_main_result_witness:
  "\<exists>x. fst (directory_main (calm (\<lambda>t. replicate (volume t) 100) (replicate 10 100) (\<lambda>_. first_tenants)) two_shards) = Some x \<and>
     moved_rows x = 6000 \<and> lookups x = (6, 294) \<and> stale_write x = (''shard3'', True)"
proof -
  have "fst (directory_main (calm (\<lambda>t. replicate (volume t) 100) (replicate 10 100) (\<lambda>_. first_tenants)) two_shards) = Some
    \<lparr>first_shards = [''shard1'', ''shard2'', ''shard2'', ''shard1'', ''shard2'', ''shard2''],
     first_loads = [(''shard1'', 6300), (''shard2'', 700)], lookups = (6, 294), moved_rows = 6000,
     later_loads = [(''shard1'', 300), (''shard2'', 700), (''shard3'', 6000)], stale_write = (''shard3'', True),
     later_shards = [''shard1'', ''shard1''], hash_would_move = hash_moves first_tenants\<rparr>"
    by (rule directory_main_result) (simp_all add: two_shards_def volume_def first_tenants_def)
  then show ?thesis by simp
qed

end
