(* ===== verification/HashSharding.thy ===== *)
theory HashSharding
  imports GoStd
begin

text \<open>
  \<open>simulate_database_sharding/main.go\<close>: users and their orders on shards chosen by a hash modulo the
  number of shards, direct reads, scatter-gather reads and aggregation over all shards. Amounts are in
  cents and sums are exact; the rounding of Go's \<open>float64\<close> when it adds and prints them is not modelled.
\<close>

section \<open>The shard manager\<close>

text \<open>
  \<open>NewShardManager\<close>: a pool is opened lazily and then pinged; the first failure closes everything opened
  so far. \<open>opened\<close> is the set of pools that are open, by index.
\<close>

fun connect_shards :: "nat \<Rightarrow> (outcome \<times> outcome) list \<Rightarrow> nat set \<Rightarrow> (nat + nat) \<times> nat set" where
  "connect_shards i [] opened = (Inr i, opened)"
| "connect_shards i ((rn, rp) # cfgs) opened =
     (if err_of rn \<noteq> None then (Inl i, opened - {..<i})
      else if err_of rp \<noteq> None then (Inl i, (insert i opened - {i}) - {..<i})
      else connect_shards (Suc i) cfgs (insert i opened))"

definition new_shard_manager :: "(outcome \<times> outcome) list \<Rightarrow> (nat + nat) \<times> nat set" where
  "new_shard_manager cfgs = connect_shards 0 cfgs {}"

definition close_all :: "nat \<Rightarrow> nat set \<Rightarrow> nat set" where
  "close_all n opened = opened - {..<n}"

text \<open>\<open>GetShardIndex\<close>: the modulo is taken on \<open>uint32\<close>.\<close>

definition get_shard_index :: "nat \<Rightarrow> int \<Rightarrow> nat" where
  "get_shard_index n uid = unat (fnv32a (dec_int uid) mod word_of_nat n)"

section \<open>Shards\<close>

record user =
  uid :: int
  username :: string
  email :: string

record order =
  user_id :: int
  order_date :: int
  amount :: int
  status :: string

record shard =
  users :: "user list"
  orders :: "order list"

type_synonym cluster = "shard list"

definition get_shard :: "cluster \<Rightarrow> int \<Rightarrow> shard" where
  "get_shard c i = c ! get_shard_index (length c) i"

definition get_shard_by_index :: "cluster \<Rightarrow> nat \<Rightarrow> shard option" where
  "get_shard_by_index c i = (if i < length c then Some (c ! i) else None)"

definition at_shard :: "int \<Rightarrow> (shard \<Rightarrow> shard) \<Rightarrow> cluster \<Rightarrow> cluster" where
  "at_shard i f c = c[get_shard_index (length c) i := f (get_shard c i)]"

section \<open>Writes\<close>

definition insert_user_stmt :: "user \<Rightarrow> shard \<Rightarrow> shard" where
  "insert_user_stmt u s = (if list_ex (\<lambda>v. uid v = uid u) (users s) then s else s\<lparr>users := users s @ [u]\<rparr>)"

text \<open>The loop of \<open>demonstrateUserSharding\<close>: an error is logged and the loop goes on.\<close>

fun insert_users :: "(nat \<Rightarrow> outcome) \<Rightarrow> user list \<Rightarrow> cluster \<Rightarrow> cluster" where
  "insert_users env [] c = c"
| "insert_users env (u # us) c =
     insert_users (env \<circ> Suc) us (snd (exec (env 0) (at_shard (uid u) (insert_user_stmt u)) c))"

definition demo_users :: "user list" where
  "demo_users = map (\<lambda>(i, n). \<lparr>uid = i, username = n, email = n @ ''@example.com''\<rparr>)
     [(1, ''alice''), (2, ''bob''), (3, ''charlie''), (4, ''diana''), (5, ''eve''), (6, ''frank''), (7, ''grace''),
      (8, ''henry''), (9, ''ivy''), (10, ''jack'')]"

definition insert_order_stmt :: "order \<Rightarrow> shard \<Rightarrow> shard" where
  "insert_order_stmt r s = s\<lparr>orders := orders s @ [r]\<rparr>"

text \<open>The loops of \<open>demonstrateOrderSharding\<close>: \<open>drawn i\<close> are the random orders drawn for user \<open>i\<close>.\<close>

fun insert_orders_of :: "(nat \<Rightarrow> outcome) \<Rightarrow> int \<Rightarrow> order list \<Rightarrow> cluster \<Rightarrow> cluster" where
  "insert_orders_of env i [] c = c"
| "insert_orders_of env i (r # rs) c =
     insert_orders_of (env \<circ> Suc) i rs (snd (exec (env 0) (at_shard i (insert_order_stmt (r\<lparr>user_id := i\<rparr>))) c))"

fun insert_orders :: "(nat \<Rightarrow> nat \<Rightarrow> outcome) \<Rightarrow> (int \<Rightarrow> order list) \<Rightarrow> int list \<Rightarrow> cluster \<Rightarrow> cluster" where
  "insert_orders env drawn [] c = c"
| "insert_orders env drawn (i # is) c = insert_orders (env \<circ> Suc) drawn is (insert_orders_of (env 0) i (drawn i) c)"

section \<open>Reads\<close>

text \<open>A direct read goes to the shard of the id, \<open>NoRows\<close> when the user is not there.\<close>

definition read_user :: "outcome \<Rightarrow> int \<Rightarrow> cluster \<Rightarrow> db_error + user" where
  "read_user r i c =
     (case query r (filter (\<lambda>u. uid u = i) (users (get_shard c i))) of
        Inl e \<Rightarrow> Inl e
      | Inr [] \<Rightarrow> Inl NoRows
      | Inr (u # us) \<Rightarrow> Inr u)"

definition insert_desc :: "order \<Rightarrow> order list \<Rightarrow> order list" where
  "insert_desc r rs = takeWhile (\<lambda>x. order_date r < order_date x) rs @ r # dropWhile (\<lambda>x. order_date r < order_date x) rs"

definition read_orders :: "outcome \<Rightarrow> int \<Rightarrow> cluster \<Rightarrow> db_error + order list" where
  "read_orders r i c =
     query r (take 3 (foldr insert_desc (filter (\<lambda>x. user_id x = i) (orders (get_shard c i))) []))"

text \<open>
  \<open>demonstrateScatterGather\<close>: one goroutine per shard; \<open>arrival\<close> is the order in which they finish. A shard
  that fails or has no row sends nothing.
\<close>

definition find_user :: "string \<Rightarrow> shard \<Rightarrow> user option" where
  "find_user n s = (case filter (\<lambda>u. username u = n) (users s) of [] \<Rightarrow> None | u # us \<Rightarrow> Some u)"

definition scatter_gather :: "(nat \<Rightarrow> outcome) \<Rightarrow> nat list \<Rightarrow> string \<Rightarrow> cluster \<Rightarrow> (nat \<times> user) list" where
  "scatter_gather env arrival n c =
     List.map_filter (\<lambda>i. case query (env i) (find_user n (c ! i)) of
        Inl e \<Rightarrow> None
      | Inr None \<Rightarrow> None
      | Inr (Some u) \<Rightarrow> Some (i, u)) arrival"

text \<open>\<open>showShardStats\<close>: a count that fails is logged and stays zero.\<close>

definition shard_stats :: "(nat \<Rightarrow> outcome) \<Rightarrow> (nat \<Rightarrow> outcome) \<Rightarrow> cluster \<Rightarrow> (nat \<times> nat) list \<times> nat \<times> nat" where
  "shard_stats eu eo c =
     (let rows = map (\<lambda>i. (case query (eu i) (length (users (c ! i))) of Inl e \<Rightarrow> 0 | Inr n \<Rightarrow> n,
                           case query (eo i) (length (orders (c ! i))) of Inl e \<Rightarrow> 0 | Inr n \<Rightarrow> n)) [0..<length c]
      in (rows, sum_list (map fst rows), sum_list (map snd rows)))"

record sales =
  total_sales :: int
  order_count :: nat

definition sales_of :: "order list \<Rightarrow> sales" where
  "sales_of rs = \<lparr>total_sales = sum_list (map amount rs), order_count = length rs\<rparr>"

text \<open>\<open>demonstrateCrossShardAggregation\<close>: the shards that answer, added in the order of arrival.\<close>

fun collect :: "(nat \<Rightarrow> outcome) \<Rightarrow> cluster \<Rightarrow> nat list \<Rightarrow> sales \<Rightarrow> sales" where
  "collect env c [] g = g"
| "collect env c (i # is) g =
     (case query (env i) (sales_of (orders (c ! i))) of
        Inl e \<Rightarrow> collect env c is g
      | Inr st \<Rightarrow> collect env c is
          \<lparr>total_sales = total_sales g + total_sales st, order_count = order_count g + order_count st\<rparr>)"

definition aggregate :: "(nat \<Rightarrow> outcome) \<Rightarrow> nat list \<Rightarrow> cluster \<Rightarrow> sales" where
  "aggregate env arrival c = collect env c arrival \<lparr>total_sales = 0, order_count = 0\<rparr>"

section \<open>Placement\<close>

lemma shard_index_bound:
  assumes "0 < n" "n < 2 ^ 32"
  shows "get_shard_index n i < n"
proof -
  have l: "LENGTH(32) = (32 :: nat)" by simp
  have "unat (word_of_nat n :: 32 word) = n mod 2 ^ 32" unfolding unat_of_nat l ..
  also have "\<dots> = n" by (rule mod_less [OF assms(2)])
  finally have u: "unat (word_of_nat n :: 32 word) = n" .
  show ?thesis unfolding get_shard_index_def unat_mod_distrib u by (rule mod_less_divisor [OF assms(1)])
qed

definition placed :: "cluster \<Rightarrow> bool" where
  "placed c \<longleftrightarrow> (\<forall>k < length c.
     (\<forall>u \<in> set (users (c ! k)). get_shard_index (length c) (uid u) = k) \<and>
     distinct (map uid (users (c ! k))) \<and>
     (\<forall>r \<in> set (orders (c ! k)). get_shard_index (length c) (user_id r) = k))"

definition shard_ok :: "nat \<Rightarrow> nat \<Rightarrow> shard \<Rightarrow> bool" where
  "shard_ok n k s \<longleftrightarrow> (\<forall>u \<in> set (users s). get_shard_index n (uid u) = k) \<and> distinct (map uid (users s)) \<and>
     (\<forall>r \<in> set (orders s). get_shard_index n (user_id r) = k)"

lemma placed_iff: "placed c \<longleftrightarrow> (\<forall>k < length c. shard_ok (length c) k (c ! k))"
  by (simp add: placed_def shard_ok_def)

lemma at_shard_length [simp]: "length (at_shard i f c) = length c"
  by (simp add: at_shard_def)

lemma at_shard_nth:
  "k < length c \<Longrightarrow> at_shard i f c ! k = (if k = get_shard_index (length c) i then f (c ! k) else c ! k)"
  by (simp add: at_shard_def get_shard_def nth_list_update)

lemma at_shard_placed:
  assumes "placed c" and "\<And>s. shard_ok (length c) (get_shard_index (length c) i) s \<Longrightarrow>
    shard_ok (length c) (get_shard_index (length c) i) (f s)"
  shows "placed (at_shard i f c)"
  using assms by (simp add: placed_iff at_shard_nth)

lemma insert_user_ok: "shard_ok n k s \<Longrightarrow> get_shard_index n (uid u) = k \<Longrightarrow> shard_ok n k (insert_user_stmt u s)"
proof (cases "list_ex (\<lambda>v. uid v = uid u) (users s)")
  case False
  assume a: "shard_ok n k s" "get_shard_index n (uid u) = k"
  from False have "uid u \<notin> uid ` set (users s)" by (metis (mono_tags, lifting) image_iff list_ex_iff)
  with a False show ?thesis by (simp add: shard_ok_def insert_user_stmt_def ball_Un)
qed (simp add: insert_user_stmt_def)

lemma insert_order_ok: "shard_ok n k s \<Longrightarrow> get_shard_index n i = k \<Longrightarrow> shard_ok n k (insert_order_stmt (r\<lparr>user_id := i\<rparr>) s)"
  by (auto simp: shard_ok_def insert_order_stmt_def)

lemma exec_placed:
  assumes "placed c" "placed (f c)" "length (f c) = length c"
  shows "placed (snd (exec r f c)) \<and> length (snd (exec r f c)) = length c"
  using assms by (simp add: exec_def)

lemma insert_users_keeps: "placed c \<Longrightarrow> placed (insert_users env us c) \<and> length (insert_users env us c) = length c"
proof (induction us arbitrary: env c)
  case (Cons u us)
  have "placed (snd (exec (env 0) (at_shard (uid u) (insert_user_stmt u)) c)) \<and>
      length (snd (exec (env 0) (at_shard (uid u) (insert_user_stmt u)) c)) = length c"
    using Cons.prems by (intro exec_placed at_shard_placed) (auto intro: insert_user_ok)
  with Cons.IH show ?case by simp
qed simp

lemma insert_orders_of_keeps:
  "placed c \<Longrightarrow> placed (insert_orders_of env i rs c) \<and> length (insert_orders_of env i rs c) = length c"
proof (induction rs arbitrary: env c)
  case (Cons r rs)
  have "placed (snd (exec (env 0) (at_shard i (insert_order_stmt (r\<lparr>user_id := i\<rparr>))) c)) \<and>
      length (snd (exec (env 0) (at_shard i (insert_order_stmt (r\<lparr>user_id := i\<rparr>))) c)) = length c"
    using Cons.prems by (intro exec_placed at_shard_placed) (auto intro: insert_order_ok)
  with Cons.IH show ?case by simp
qed simp

lemma insert_orders_keeps:
  "placed c \<Longrightarrow> placed (insert_orders env drawn is c) \<and> length (insert_orders env drawn is c) = length c"
  by (induction env drawn "is" c rule: insert_orders.induct) (simp_all add: insert_orders_of_keeps)

section \<open>Properties\<close>

definition empty_shards :: "nat \<Rightarrow> cluster" where
  "empty_shards n = replicate n \<lparr>users = [], orders = []\<rparr>"

lemma empty_shards_placed: "placed (empty_shards n)"
  by (simp add: empty_shards_def placed_def)

text \<open>After the inserts of users and orders, whatever statements failed, every row is on the shard its user
  id hashes to, no shard holds a user twice, and so a user is on one shard only, beside all his orders.\<close>

theorem rows_on_their_shard:
  assumes "placed c" and "c' = insert_orders eo drawn is (insert_users eu us c)"
    and "k < length c'" and "u \<in> set (users (c' ! k))"
  shows "k = get_shard_index (length c') (uid u) \<and>
    (\<forall>j < length c'. \<forall>v \<in> set (users (c' ! j)). uid v = uid u \<longrightarrow> j = k \<and> v = u) \<and>
    (\<forall>j < length c'. \<forall>r \<in> set (orders (c' ! j)). user_id r = uid u \<longrightarrow> j = k)"
proof -
  have p: "placed c'" using assms(1,2) by (simp add: insert_users_keeps insert_orders_keeps)
  then have k: "get_shard_index (length c') (uid v) = j" "distinct (map uid (users (c' ! j)))"
    if "j < length c'" "v \<in> set (users (c' ! j))" for j v
    using that by (auto simp: placed_def)
  have "get_shard_index (length c') (user_id r) = j" if "j < length c'" "r \<in> set (orders (c' ! j))" for j r
    using p that by (auto simp: placed_def)
  with k [OF assms(3,4)] k show ?thesis using assms(4) by (metis eq_key_imp_eq_value inj_on_def distinct_map)
qed

definition alice :: user where
  "alice = \<lparr>uid = 1, username = ''alice'', email = ''alice@example.com''\<rparr>"

theorem rows_on_their_shard_witness:
  "alice \<in> set (users (insert_users (\<lambda>_. Done) [alice] (empty_shards 3) ! get_shard_index 3 1)) \<and>
   (\<forall>j < 3. \<forall>v \<in> set (users (insert_users (\<lambda>_. Done) [alice] (empty_shards 3) ! j)). uid v = 1 \<longrightarrow> j = get_shard_index 3 1)"
proof -
  define c' where "c' = insert_orders (\<lambda>_ _. Done) (\<lambda>_. []) [] (insert_users (\<lambda>_. Done) [alice] (empty_shards 3))"
  have k: "get_shard_index 3 1 < 3" by (rule shard_index_bound) simp_all
  have l: "length c' = 3" by (simp add: c'_def exec_simps empty_shards_def)
  have m: "alice \<in> set (users (c' ! get_shard_index 3 1))"
    using k by (simp add: c'_def exec_simps at_shard_def get_shard_def empty_shards_def insert_user_stmt_def alice_def)
  have "get_shard_index 3 1 < length c'" using k l by simp
  from rows_on_their_shard [OF empty_shards_placed c'_def this m]
  have "\<forall>j < 3. \<forall>v \<in> set (users (c' ! j)). uid v = 1 \<longrightarrow> j = get_shard_index 3 1"
    unfolding l by (simp add: alice_def)
  moreover have "insert_users (\<lambda>_. Done) [alice] (empty_shards 3) = c'" by (simp add: c'_def)
  ultimately show ?thesis using m by simp
qed

lemma users_on_all_shards:
  assumes "placed c" and "0 < length c" and "length c < 2 ^ 32"
  shows "filter (\<lambda>u. uid u = i) (concat (map users c)) = filter (\<lambda>u. uid u = i) (users (get_shard c i))"
proof -
  let ?n = "length c" and ?k = "get_shard_index (length c) i"
  have k: "?k < ?n" by (rule shard_index_bound [OF assms(2,3)])
  have other: "filter (\<lambda>u. uid u = i) (users (c ! j)) = []" if "j < ?n" "j \<noteq> ?k" for j
    using assms(1) that by (auto simp: placed_def filter_empty_conv)
  have "filter (\<lambda>u. uid u = i) (concat (map users c)) = concat (map (\<lambda>j. filter (\<lambda>u. uid u = i) (users (c ! j))) [0..<?n])"
    by (subst map_nth [symmetric, of c]) (simp only: filter_concat map_map comp_def length_map length_upt diff_zero)
  also have "[0..<?n] = [0..<?k] @ ?k # [Suc ?k..<?n]"
    using k by (metis less_imp_add_positive upt_add_eq_append upt_conv_Cons zero_le le_less add_0)
  also have "concat (map (\<lambda>j. filter (\<lambda>u. uid u = i) (users (c ! j))) ([0..<?k] @ ?k # [Suc ?k..<?n])) =
      filter (\<lambda>u. uid u = i) (users (c ! ?k))"
  proof -
    have "concat (map (\<lambda>j. filter (\<lambda>u. uid u = i) (users (c ! j))) js) = []" if "\<forall>j \<in> set js. j < ?n \<and> j \<noteq> ?k" for js
      using that other by (induction js) auto
    from this [of "[0..<?k]"] this [of "[Suc ?k..<?n]"] k
    have "concat (map (\<lambda>j. filter (\<lambda>u. uid u = i) (users (c ! j))) [0..<?k]) = []"
      "concat (map (\<lambda>j. filter (\<lambda>u. uid u = i) (users (c ! j))) [Suc ?k..<?n]) = []" by simp_all
    then show ?thesis by (simp only: map_append concat_append list.map concat.simps append_Nil append_Nil2)
  qed
  finally show ?thesis by (simp add: get_shard_def)
qed

text \<open>Reading a user from the shard of his id finds exactly what a search of all shards would find.\<close>

theorem direct_read_is_complete:
  assumes "placed c" and "0 < length c" and "length c < 2 ^ 32"
  shows "read_user Done i c = (case filter (\<lambda>u. uid u = i) (concat (map users c)) of [] \<Rightarrow> Inl NoRows | u # us \<Rightarrow> Inr u)"
  unfolding users_on_all_shards [OF assms] by (simp add: read_user_def query_simps)

section \<open>One table\<close>

text \<open>The abstract specification: a single table with a primary key, and its insert that leaves a taken key alone.\<close>

definition user_table :: "cluster \<Rightarrow> int \<rightharpoonup> user" where
  "user_table c = map_of (map (\<lambda>u. (uid u, u)) (concat (map users c)))"

definition table_insert :: "user \<Rightarrow> (int \<rightharpoonup> user) \<Rightarrow> (int \<rightharpoonup> user)" where
  "table_insert u m = (if m (uid u) = None then m(uid u \<mapsto> u) else m)"

fun table_inserts :: "(nat \<Rightarrow> outcome) \<Rightarrow> user list \<Rightarrow> (int \<rightharpoonup> user) \<Rightarrow> (int \<rightharpoonup> user)" where
  "table_inserts env [] m = m"
| "table_inserts env (u # us) m = table_inserts (env \<circ> Suc) us (snd (exec (env 0) (table_insert u) m))"

lemma map_of_filter: "map_of (map (\<lambda>u. (uid u, u)) us) i = (case filter (\<lambda>u. uid u = i) us of [] \<Rightarrow> None | u # vs \<Rightarrow> Some u)"
  by (induction us) auto

lemma user_table_local:
  assumes "placed c" and "0 < length c" and "length c < 2 ^ 32"
  shows "user_table c i = map_of (map (\<lambda>u. (uid u, u)) (users (get_shard c i))) i"
  unfolding user_table_def map_of_filter users_on_all_shards [OF assms] ..

lemma get_at_shard:
  assumes "0 < length c" and "length c < 2 ^ 32"
  shows "get_shard (at_shard i f c) j =
    (if get_shard_index (length c) j = get_shard_index (length c) i then f (get_shard c j) else get_shard c j)"
  using shard_index_bound [OF assms, of j] by (simp add: get_shard_def at_shard_nth)

lemma insert_user_map:
  "map_of (map (\<lambda>v. (uid v, v)) (users (insert_user_stmt u s))) = table_insert u (map_of (map (\<lambda>v. (uid v, v)) (users s)))"
proof -
  have "list_ex (\<lambda>v. uid v = uid u) us \<longleftrightarrow> map_of (map (\<lambda>v. (uid v, v)) us) (uid u) \<noteq> None" for us
    by (induction us) auto
  then show ?thesis
    by (auto simp: insert_user_stmt_def table_insert_def fun_eq_iff map_add_def split: option.splits)
qed

lemma insert_user_table:
  assumes "placed c" and "0 < length c" and "length c < 2 ^ 32"
  shows "user_table (at_shard (uid u) (insert_user_stmt u) c) = table_insert u (user_table c)"
proof
  fix i
  let ?c = "at_shard (uid u) (insert_user_stmt u) c"
  have "placed ?c" by (rule at_shard_placed [OF assms(1)]) (simp add: insert_user_ok)
  then have "user_table ?c i = map_of (map (\<lambda>v. (uid v, v)) (users (get_shard ?c i))) i"
    using assms(2,3) by (intro user_table_local) simp_all
  also have "\<dots> = table_insert u (user_table c) i"
    unfolding get_at_shard [OF assms(2,3)] using user_table_local [OF assms]
    by (auto simp: insert_user_map table_insert_def)
  finally show "user_table ?c i = table_insert u (user_table c) i" .
qed

text \<open>C13: The shards refine one table: routed inserts, whatever statements fail, are inserts into the table, and a routed read is a lookup in it.\<close>

theorem shards_refine_table:
  assumes "placed c" and "0 < length c" and "length c < 2 ^ 32"
  shows "user_table (insert_users env us c) = table_inserts env us (user_table c) \<and>
    read_user Done i c = (case user_table c i of None \<Rightarrow> Inl NoRows | Some u \<Rightarrow> Inr u)"
proof
  show "user_table (insert_users env us c) = table_inserts env us (user_table c)"
    using assms
  proof (induction us arbitrary: env c)
    case (Cons u us)
    let ?c = "snd (exec (env 0) (at_shard (uid u) (insert_user_stmt u)) c)"
    have "placed ?c \<and> length ?c = length c"
      using insert_users_keeps [OF Cons.prems(1), of env "[u]"] by simp
    moreover have "user_table ?c = snd (exec (env 0) (table_insert u) (user_table c))"
      using insert_user_table [OF Cons.prems] by (simp add: exec_def)
    ultimately show ?case using Cons.IH [of ?c] Cons.prems by simp
  qed simp
  show "read_user Done i c = (case user_table c i of None \<Rightarrow> Inl NoRows | Some u \<Rightarrow> Inr u)"
    unfolding user_table_local [OF assms] map_of_filter by (simp add: read_user_def query_simps split: list.splits)
qed

lemma shards_refine_table_witness:
  "user_table (insert_users (\<lambda>n. if n = 0 then Refused Transport else Done) [alice, alice] (empty_shards 3)) 1 = Some alice"
proof -
  have "length (empty_shards 3) = 3" by (simp add: empty_shards_def)
  then have "user_table (insert_users (\<lambda>n. if n = 0 then Refused Transport else Done) [alice, alice] (empty_shards 3)) =
      table_inserts (\<lambda>n. if n = 0 then Refused Transport else Done) [alice, alice] (user_table (empty_shards 3))"
    by (intro shards_refine_table [THEN conjunct1] empty_shards_placed) simp_all
  then show ?thesis by (simp add: exec_def table_insert_def user_table_def empty_shards_def numeral_3_eq_3 alice_def)
qed

text \<open>Whatever shard the connections fail on, \<open>NewShardManager\<close> leaves no pool open; when it succeeds one pool
  per shard is open, and \<open>Close\<close> closes them all.\<close>

theorem shard_manager_pools:
  "new_shard_manager cfgs = (res, opened) \<Longrightarrow>
   (case res of Inl i \<Rightarrow> i < length cfgs \<and> opened = {} | Inr n \<Rightarrow> n = length cfgs \<and> opened = {..<n} \<and> close_all n opened = {})"
proof -
  have "connect_shards i cfgs {..<i} = (res, opened) \<Longrightarrow>
      (case res of Inl j \<Rightarrow> j < i + length cfgs \<and> opened = {} | Inr n \<Rightarrow> n = i + length cfgs \<and> opened = {..<n})" for i
  proof (induction cfgs arbitrary: i)
    case (Cons cfg cfgs)
    obtain rn rp where c: "cfg = (rn, rp)" by force
    show ?case
    proof (cases "rn = Done \<and> rp = Done")
      case True
      have "insert i {..<i} = {..<Suc i}" by (rule lessThan_Suc [symmetric])
      with Cons.prems c True have "connect_shards (Suc i) cfgs {..<Suc i} = (res, opened)" by simp
      from Cons.IH [OF this] show ?thesis by (simp split: sum.splits)
    next
      case False
      with Cons.prems c show ?thesis by (auto split: if_splits)
    qed
  qed auto
  from this [of 0] show "new_shard_manager cfgs = (res, opened) \<Longrightarrow> ?thesis"
    by (auto simp: new_shard_manager_def close_all_def split: sum.splits)
qed

theorem shard_manager_pools_witness:
  "new_shard_manager [(Done, Done), (Done, Refused Transport), (Done, Done)] = (Inl 1, {})"
proof -
  obtain res opened where r: "new_shard_manager [(Done, Done), (Done, Refused Transport), (Done, Done)] = (res, opened)" by force
  then have "res = Inl 1" by (simp add: new_shard_manager_def split: if_splits)
  with shard_manager_pools [OF r] r show ?thesis by simp
qed

text \<open>The data the parallel collectors add does not depend on the order in which the shards answer.\<close>

definition answering :: "(nat \<Rightarrow> outcome) \<Rightarrow> nat list \<Rightarrow> nat list" where
  "answering env arrival = filter (\<lambda>i. env i = Done) arrival"

lemma collect_total:
  "collect env c arrival g =
     \<lparr>total_sales = total_sales g + (\<Sum>i \<leftarrow> answering env arrival. sum_list (map amount (orders (c ! i)))),
      order_count = order_count g + (\<Sum>i \<leftarrow> answering env arrival. length (orders (c ! i)))\<rparr>"
proof (induction arrival arbitrary: g)
  case (Cons i arrival)
  then show ?case by (cases "env i") (simp_all add: answering_def query_simps sales_of_def)
qed (simp add: answering_def)

lemma sum_list_mset: "mset xs = mset ys \<Longrightarrow> sum_list (map f xs) = sum_list (map f ys)" for f :: "'a \<Rightarrow> 'b :: comm_monoid_add"
  by (metis mset_map sum_mset_sum_list)

text \<open>The global totals are those of one table with the orders of all shards that answered, in whatever
  order their goroutines finish.\<close>

theorem aggregate_equals_union:
  assumes "mset arrival = mset [0..<length c]"
  shows "aggregate env arrival c = sales_of (concat (map (\<lambda>i. orders (c ! i)) (answering env [0..<length c])))"
proof -
  let ?as = "answering env [0..<length c]"
  have m: "mset (answering env arrival) = mset ?as" unfolding answering_def mset_filter assms ..
  have "sum_list (map amount (concat (map (\<lambda>i. orders (c ! i)) is))) = (\<Sum>i \<leftarrow> is. sum_list (map amount (orders (c ! i))))"
    and "length (concat (map (\<lambda>i. orders (c ! i)) is)) = (\<Sum>i \<leftarrow> is. length (orders (c ! i)))" for "is"
    by (induction "is") simp_all
  with sum_list_mset [OF m, of "\<lambda>i. sum_list (map amount (orders (c ! i)))"] sum_list_mset [OF m, of "\<lambda>i. length (orders (c ! i))"]
  show ?thesis by (simp add: aggregate_def collect_total sales_of_def)
qed

definition two_shards :: cluster where
  "two_shards = [\<lparr>users = [], orders = [\<lparr>user_id = 1, order_date = 3, amount = 1050, status = ''shipped''\<rparr>]\<rparr>,
     \<lparr>users = [], orders = [\<lparr>user_id = 2, order_date = 4, amount = 250, status = ''pending''\<rparr>]\<rparr>]"

theorem aggregate_equals_union_witness:
  "aggregate (\<lambda>_. Done) [1, 0] two_shards = \<lparr>total_sales = 1300, order_count = 2\<rparr>"
proof -
  have "mset [1, 0] = mset [0..<length two_shards]" by (simp add: two_shards_def)
  from aggregate_equals_union [OF this, of "\<lambda>_. Done"] show ?thesis
    by (simp add: two_shards_def answering_def sales_of_def)
qed

text \<open>A shard that fails is left out of the totals: they are reported as global all the same.\<close>

lemma failed_shard_is_left_out:
  "aggregate (\<lambda>i. if i = 0 then Refused Transport else Done) [0, 1] two_shards = \<lparr>total_sales = 250, order_count = 1\<rparr>"
  by (simp add: aggregate_def two_shards_def query_simps sales_of_def)

text \<open>The scatter-gather search finds the same rows in every order of arrival.\<close>

lemma scatter_gather_set:
  "set (scatter_gather env arrival n c) = {(i, u). i \<in> set arrival \<and> env i = Done \<and> find_user n (c ! i) = Some u}"
proof -
  have "(case query (env i) (find_user n (c ! i)) of Inl e \<Rightarrow> None | Inr None \<Rightarrow> None | Inr (Some u) \<Rightarrow> Some (i, u)) =
      (if env i = Done then map_option (Pair i) (find_user n (c ! i)) else None)" for i
    by (cases "env i"; cases "find_user n (c ! i)") (simp_all add: query_simps)
  then have "scatter_gather env arrival n c =
      List.map_filter (\<lambda>i. if env i = Done then map_option (Pair i) (find_user n (c ! i)) else None) arrival"
    by (simp add: scatter_gather_def)
  also have "set \<dots> = {(i, u). i \<in> set arrival \<and> env i = Done \<and> find_user n (c ! i) = Some u}"
    by (induction arrival) (auto simp: List.map_filter_simps split: option.split)
  finally show ?thesis .
qed

text \<open>The witnesses' cluster: the demo users on three shards.\<close>

definition demo_cluster :: cluster where
  "demo_cluster = insert_users (\<lambda>_. Done) demo_users (empty_shards 3)"

lemma demo_cluster_placed: "placed demo_cluster" "length demo_cluster = 3"
  using insert_users_keeps [OF empty_shards_placed [of 3], of "\<lambda>_. Done" demo_users]
  by (simp_all add: demo_cluster_def) (simp add: empty_shards_def)

theorem direct_read_is_complete_witness:
  "read_user Done 5 demo_cluster =
     (case filter (\<lambda>u. uid u = 5) (concat (map users demo_cluster)) of [] \<Rightarrow> Inl NoRows | u # us \<Rightarrow> Inr u)"
proof -
  have "0 < length demo_cluster" "length demo_cluster < 2 ^ 32" by (simp_all add: demo_cluster_placed(2))
  from direct_read_is_complete [OF demo_cluster_placed(1) this] show ?thesis .
qed

text \<open>Modulo hashing remaps most keys when a shard is added: of the ten demo users seven move.\<close>

definition remapped :: "nat \<Rightarrow> nat \<Rightarrow> int list \<Rightarrow> nat" where
  "remapped n m ids = length (filter (\<lambda>i. get_shard_index n i \<noteq> get_shard_index m i) ids)"

lemma adding_a_shard_remaps: "remapped 3 4 [1, 2, 3, 4, 5, 6, 7, 8, 9, 10] = 7"
  by code_simp

end
