(* ===== verification/Archival.thy ===== *)
theory Archival
  imports GoStd
begin

text \<open>
  \<open>simulate_data_archival/main.go\<close>: batches that move old orders from the hot table to the archive
  table, lookup, restore, and the export of the oldest archive rows to a file on the server.
  \<open>None\<close> is \<open>log.Fatal\<close>. Times are counted in units of the caller's choice (\<open>ArchivalMain\<close> takes hundredths of a second),
  and the interval \<open>age\<close> is the number of units it spans.
\<close>

section \<open>Tables and files\<close>

record order =
  oid :: int
  customer :: int
  status :: string
  total :: int
  created :: int
  details :: string

record shop =
  hot :: "order list"
  cold :: "(order \<times> int) list"  \<comment> \<open>with archived_at\<close>
  files :: "string \<rightharpoonup> order list"

definition cold_rows :: "shop \<Rightarrow> order list" where
  "cold_rows s = map fst (cold s)"

section \<open>archive\<close>

definition old_enough :: "int \<Rightarrow> int \<Rightarrow> order \<Rightarrow> bool" where
  "old_enough now age r \<longleftrightarrow> status r = ''delivered'' \<and> created r < now - age"

text \<open>The ids the CTE \<open>batch\<close> selects; rows other sessions have locked are skipped.\<close>

definition batch_of :: "int \<Rightarrow> int set \<Rightarrow> int \<Rightarrow> nat \<Rightarrow> shop \<Rightarrow> order list" where
  "batch_of now locked age n s =
     take n (sort_key oid (filter (\<lambda>r. old_enough now age r \<and> oid r \<notin> locked) (hot s)))"

definition move_batch :: "int \<Rightarrow> int set \<Rightarrow> int \<Rightarrow> nat \<Rightarrow> shop \<Rightarrow> (db_error + nat) \<times> shop" where
  "move_batch now locked age n s =
     (let ids = map oid (batch_of now locked age n s);
          moved = filter (\<lambda>r. oid r \<in> set ids) (hot s)
      in if list_ex (\<lambda>r. oid r \<in> oid ` set (cold_rows s)) moved then (Inl (Sqlstate ''23505''), s)
         else (Inr (length moved),
               s\<lparr>hot := filter (\<lambda>r. oid r \<notin> set ids) (hot s), cold := cold s @ map (\<lambda>r. (r, now)) moved\<rparr>))"

lemma move_batch_shrinks:
  "move_batch now locked age n s = (Inr k, s') \<Longrightarrow> length (hot s') + k = length (hot s)"
  using sum_length_filter_compl [of "\<lambda>r. oid r \<in> set (map oid (batch_of now locked age n s))" "hot s"]
  by (auto simp: move_batch_def Let_def split: if_splits)

text \<open>
  The loop. Batch \<open>i\<close> runs at time \<open>now i\<close>, finds the rows \<open>locked i\<close> locked by others and has the
  outcome \<open>env i\<close>. It ends because every batch that moved something made the hot table smaller.
\<close>

function archive_loop :: "(nat \<Rightarrow> int \<times> int set \<times> outcome) \<Rightarrow> int \<Rightarrow> nat \<Rightarrow> nat \<Rightarrow> nat \<Rightarrow> shop \<Rightarrow> nat option \<times> shop" where
  "archive_loop env age n i tot s =
     (let (now, locked, r) = env i in
      case move_batch now locked age n s of
        (Inl _, _) \<Rightarrow> (None, s)
      | (Inr k, s') \<Rightarrow>
          (let s1 = (if applied r then s' else s) in
           if err_of r \<noteq> None then (None, s1)
           else if k = 0 then (Some tot, s1)
           else archive_loop env age n (Suc i) (tot + k) s1))"
  by pat_completeness auto
termination
  by (relation "measure (\<lambda>(env, age, n, i, tot, s). length (hot s))")
    (auto dest!: sym [of "(Inr _, _)"] move_batch_shrinks)

declare archive_loop.simps [simp del]

definition archive :: "(nat \<Rightarrow> int \<times> int set \<times> outcome) \<Rightarrow> int \<Rightarrow> nat \<Rightarrow> shop \<Rightarrow> nat option \<times> shop" where
  "archive env age n s = archive_loop env age n 1 0 s"

section \<open>findOrder and restore\<close>

definition find_order :: "outcome \<Rightarrow> outcome \<Rightarrow> int \<Rightarrow> shop \<Rightarrow> string" where
  "find_order qh qc i s =
     (if err_of qh = None \<and> i \<in> oid ` set (hot s) then ''hot''
      else if err_of qc = None \<and> i \<in> oid ` set (cold_rows s) then ''archive''
      else ''nowhere'')"

definition restore_stmt :: "int \<Rightarrow> shop \<Rightarrow> (db_error + unit) \<times> shop" where
  "restore_stmt i s =
     (let back = filter (\<lambda>r. oid r = i) (cold_rows s) in
      if back \<noteq> [] \<and> i \<in> oid ` set (hot s) then (Inl (Sqlstate ''23505''), s)
      else (Inr (), s\<lparr>cold := filter (\<lambda>(r, _). oid r \<noteq> i) (cold s),
                     hot := hot s @ map (\<lambda>r. r\<lparr>status := ''disputed''\<rparr>) back\<rparr>))"

text \<open>\<open>Some ()\<close> is the message that the order moved back.\<close>

definition restore :: "outcome \<Rightarrow> outcome \<Rightarrow> outcome \<Rightarrow> int \<Rightarrow> shop \<Rightarrow> unit option \<times> shop" where
  "restore rb rx rc i s =
     (case begin_func rb rc (stmt rx (restore_stmt i)) s of
        (Inl _, s') \<Rightarrow> (None, s')
      | (Inr _, s') \<Rightarrow> (Some (), s'))"

section \<open>export\<close>

text \<open>The file name has the year and month two years before now, whatever the age is.\<close>

definition dec2 :: "nat \<Rightarrow> string" where
  "dec2 n = (if n < 10 then CHR ''0'' # dec n else dec n)"

definition export_file :: "nat \<Rightarrow> nat \<Rightarrow> string" where
  "export_file year month =
     ''/var/lib/postgresql/exports/orders_before_'' @ dec year @ ''_'' @ dec2 month @ ''.csv.gz''"

definition to_export :: "int \<Rightarrow> int \<Rightarrow> shop \<Rightarrow> order list" where
  "to_export now age s = sort_key oid (filter (\<lambda>r. created r < now - age) (cold_rows s))"

text \<open>
  \<open>export\<close>: the program behind COPY writes its file at once, outside the transaction; a refused
  COPY is one that did not start it. \<open>qs\<close> is the outcome of the query for the file's size.
\<close>

definition export :: "outcome \<Rightarrow> outcome \<Rightarrow> outcome \<Rightarrow> outcome \<Rightarrow> outcome \<Rightarrow> outcome \<Rightarrow> string \<Rightarrow> int \<Rightarrow> int \<Rightarrow> shop
    \<Rightarrow> string option \<times> shop" where
  "export rb qn rcopy rdel rc qs file now age s =
     (if err_of rb \<noteq> None \<or> err_of qn \<noteq> None then (None, s)
      else
        (let s1 = (if applied rcopy then s\<lparr>files := (files s)(file \<mapsto> to_export now age s)\<rparr> else s);
             s2 = s1\<lparr>cold := filter (\<lambda>(r, _). \<not> created r < now - age) (cold s1)\<rparr>
         in if err_of rcopy \<noteq> None \<or> err_of rdel \<noteq> None then (None, s1)
            else if err_of rc \<noteq> None then (None, if applied rc then s2 else s1)
            else (if err_of qs = None then Some file else None, s2)))"

text \<open>Retrieval from the file: the temporary table of the last section of \<open>main\<close>.\<close>

definition cold_file_query :: "string \<Rightarrow> int \<Rightarrow> shop \<Rightarrow> (nat \<times> int) option" where
  "cold_file_query file cust s =
     map_option (\<lambda>rs. let mine = filter (\<lambda>r. customer r = cust) rs in (length mine, \<Sum>r \<leftarrow> mine. total r)) (files s file)"

text \<open>The view \<open>orders_all\<close>.\<close>

definition orders_all :: "shop \<Rightarrow> (order \<times> bool) list" where
  "orders_all s = map (\<lambda>r. (r, False)) (hot s) @ map (\<lambda>r. (r, True)) (cold_rows s)"

section \<open>Every order is in one table\<close>

definition one_place :: "shop \<Rightarrow> bool" where
  "one_place s \<longleftrightarrow> distinct (map oid (hot s @ cold_rows s))"

definition in_tables :: "shop \<Rightarrow> order multiset" where
  "in_tables s = mset (hot s) + mset (cold_rows s)"

lemma move_batch_tables:
  assumes "move_batch now locked age n s = (x, s')"
  shows "in_tables s' = in_tables s" "files s' = files s"
proof -
  let ?P = "\<lambda>r. oid r \<in> set (map oid (batch_of now locked age n s))"
  have "mset (filter (\<lambda>r. \<not> ?P r) (hot s)) + (mset (cold_rows s) + mset (filter ?P (hot s)))
      = mset (hot s) + mset (cold_rows s)"
    using filter_mset_partition [of ?P "hot s"] by (simp only: ac_simps)
  with assms show "in_tables s' = in_tables s"
    by (auto simp: move_batch_def Let_def in_tables_def cold_rows_def comp_def simp del: mset_filter mset_map split: if_splits)
  from assms show "files s' = files s" by (auto simp: move_batch_def Let_def split: if_splits)
qed

lemma one_place_tables:
  assumes "in_tables s' = in_tables s"
  shows "one_place s' = one_place s"
proof -
  have "mset (map oid (hot x @ cold_rows x)) = image_mset oid (in_tables x)" for x
    by (simp add: in_tables_def)
  with assms have "mset (map oid (hot s' @ cold_rows s')) = mset (map oid (hot s @ cold_rows s))" by metis
  then show ?thesis unfolding one_place_def by (rule mset_eq_imp_distinct_iff)
qed

lemma archive_loop_tables:
  "archive_loop env age n i tot s = (x, s') \<Longrightarrow> in_tables s' = in_tables s \<and> files s' = files s"
proof (induction env age n i tot s rule: archive_loop.induct)
  case (1 env age n i tot s)
  obtain now locked r where e: "env i = (now, locked, r)" by (cases "env i")
  obtain y s1 where m: "move_batch now locked age n s = (y, s1)" by fastforce
  note t = move_batch_tables [OF m]
  from "1.prems" t show ?case
    using "1.IH" [OF e [symmetric] refl]
    by (subst (asm) archive_loop.simps) (auto simp: e m split: sum.splits if_splits)
qed

lemma batch_of_nonempty:
  assumes "0 < n" and "r \<in> set (hot s)" "old_enough now age r" "oid r \<notin> locked"
  shows "batch_of now locked age n s \<noteq> []"
proof -
  have "r \<in> set (sort_key oid (filter (\<lambda>r. old_enough now age r \<and> oid r \<notin> locked) (hot s)))"
    using assms by simp
  then show ?thesis unfolding batch_of_def using assms(1) by (metis empty_iff empty_set neq0_conv take_eq_Nil)
qed

lemma batch_of_hot: "r \<in> set (batch_of now locked age n s) \<Longrightarrow> r \<in> set (hot s) \<and> old_enough now age r"
  by (auto simp: batch_of_def dest: in_set_takeD)

lemma move_batch_zero:
  assumes "move_batch now locked age n s = (Inr 0, s')" and "0 < n"
  shows "s' = s" and "\<forall>r \<in> set (hot s). old_enough now age r \<longrightarrow> oid r \<in> locked"
proof -
  let ?b = "batch_of now locked age n s"
  from assms(1) have none: "\<forall>r \<in> set (hot s). oid r \<notin> oid ` set ?b" and s': "s' = s\<lparr>hot := filter (\<lambda>r. oid r \<notin> oid ` set ?b) (hot s)\<rparr>"
    by (auto simp: move_batch_def Let_def filter_empty_conv split: if_splits)
  have e: "?b = []"
  proof (rule ccontr)
    assume "?b \<noteq> []"
    then obtain r where "r \<in> set ?b" by (cases ?b) auto
    with none batch_of_hot [OF this] show False by blast
  qed
  with s' show "s' = s" by simp
  from e batch_of_nonempty [OF assms(2)] show "\<forall>r \<in> set (hot s). old_enough now age r \<longrightarrow> oid r \<in> locked" by metis
qed

lemma move_batch_ok:
  assumes "one_place s"
  shows "\<exists>k s'. move_batch now locked age n s = (Inr k, s')"
  using assms by (auto simp: move_batch_def Let_def one_place_def list_ex_iff cold_rows_def image_iff)

lemma one_place_inj: "one_place s \<Longrightarrow> r \<in> set (hot s) \<Longrightarrow> r' \<in> set (hot s) \<Longrightarrow> oid r = oid r' \<Longrightarrow> r = r'"
  by (auto simp: one_place_def distinct_map inj_on_def)

lemma move_batch_delivered:
  assumes "one_place s" and "move_batch now locked age n s = (Inr k, s')"
  shows "\<forall>r \<in> set (hot s). r \<notin> set (hot s') \<longrightarrow> status r = ''delivered''" and "set (hot s') \<subseteq> set (hot s)"
  using assms one_place_inj [OF assms(1)]
  by (fastforce simp: move_batch_def Let_def old_enough_def dest!: batch_of_hot split: if_splits)+

lemma archive_loop_finishes:
  assumes "0 < n" and "\<forall>i. snd (snd (env i)) = Done" and "one_place s"
  shows "\<exists>k i' s'. archive_loop env age n i tot s = (Some (tot + k), s') \<and> i \<le> i' \<and> length (hot s') + k = length (hot s) \<and>
    (\<forall>r \<in> set (hot s'). old_enough (fst (env i')) age r \<longrightarrow> oid r \<in> fst (snd (env i'))) \<and>
    set (hot s') \<subseteq> set (hot s) \<and> (\<forall>r \<in> set (hot s). r \<notin> set (hot s') \<longrightarrow> status r = ''delivered'')"
  using assms
proof (induction env age n i tot s rule: archive_loop.induct)
  case (1 env age n i tot s)
  obtain now locked where e: "env i = (now, locked, Done)"
    using "1.prems"(2) by (metis prod.collapse)
  obtain k s' where m: "move_batch now locked age n s = (Inr k, s')"
    using move_batch_ok [OF "1.prems"(3)] by blast
  show ?case
  proof (cases "k = 0")
    case True
    note z = move_batch_zero [OF m [unfolded True] "1.prems"(1)]
    have "archive_loop env age n i tot s = (Some (tot + 0), s)"
      by (subst archive_loop.simps) (simp add: e m True z(1))
    with z(2) e show ?thesis by (intro exI [of _ 0] exI [of _ i] exI [of _ s]) auto
  next
    case False
    have ok: "one_place s'" using "1.prems"(3) one_place_tables [OF move_batch_tables(1) [OF m]] by simp
    have "archive_loop env age n i tot s = archive_loop env age n (Suc i) (tot + k) s'"
      by (subst archive_loop.simps) (simp add: e m False)
    moreover obtain k' i' s'' where "archive_loop env age n (Suc i) (tot + k) s' = (Some (tot + k + k'), s'')"
      "Suc i \<le> i'" "length (hot s'') + k' = length (hot s')"
      "\<forall>r \<in> set (hot s''). old_enough (fst (env i')) age r \<longrightarrow> oid r \<in> fst (snd (env i'))"
      "set (hot s'') \<subseteq> set (hot s')" "\<forall>r \<in> set (hot s'). r \<notin> set (hot s'') \<longrightarrow> status r = ''delivered''"
      using "1.IH" [OF e [symmetric] refl refl m [symmetric] refl refl _ False "1.prems"(1,2)] ok
      by (auto simp: ac_simps)
    ultimately show ?thesis
      using move_batch_delivered [OF "1.prems"(3) m] move_batch_shrinks [OF m]
      by (intro exI [of _ "k + k'"] exI [of _ i'] exI [of _ s'']) (auto simp: ac_simps)
  qed
qed

lemma begin_func_exec: "begin_func rb rc f s = (Inl e, s') \<Longrightarrow> s' = s \<or> (\<exists>x. f s = (Inr x, s'))"
  by (rule tx.run_err)

text \<open>Restoring an archived order brings it back to the hot table; an unknown id changes nothing.\<close>

lemma restore_finds:
  assumes "one_place s" and "i \<in> oid ` set (cold_rows s)" and "restore Done Done Done i s = (x, s')"
  shows "x = Some () \<and> find_order Done Done i s' = ''hot'' \<and> i \<notin> oid ` set (cold_rows s') \<and>
    (\<forall>r \<in> set (hot s'). oid r = i \<longrightarrow> status r = ''disputed'')"
proof -
  have none: "i \<notin> oid ` set (hot s)" using assms(1,2) by (auto simp: one_place_def)
  then have "restore Done Done Done i s = (Some (), s\<lparr>cold := filter (\<lambda>(r, _). oid r \<noteq> i) (cold s),
      hot := hot s @ map (\<lambda>r. r\<lparr>status := ''disputed''\<rparr>) (filter (\<lambda>r. oid r = i) (cold_rows s))\<rparr>)"
    by (simp add: restore_def begin_func_Done stmt_Done restore_stmt_def Let_def)
  with assms(3) have x: "x = Some ()" and s': "s' = s\<lparr>cold := filter (\<lambda>(r, _). oid r \<noteq> i) (cold s),
      hot := hot s @ map (\<lambda>r. r\<lparr>status := ''disputed''\<rparr>) (filter (\<lambda>r. oid r = i) (cold_rows s))\<rparr>" by simp_all
  from assms(2) obtain r where "r \<in> set (cold_rows s)" "oid r = i" by blast
  then have "r\<lparr>status := ''disputed''\<rparr> \<in> set (hot s')" "oid (r\<lparr>status := ''disputed''\<rparr>) = i" by (simp_all add: s')
  then have "i \<in> oid ` set (hot s')" by (metis imageI)
  moreover have "i \<notin> oid ` set (cold_rows s')" by (auto simp: s' cold_rows_def)
  moreover have "status q = ''disputed''" if "q \<in> set (hot s')" "oid q = i" for q
  proof -
    from that(1) have "q \<in> set (hot s) \<union> (\<lambda>r. r\<lparr>status := ''disputed''\<rparr>) ` set (filter (\<lambda>r. oid r = i) (cold_rows s))"
      unfolding s' by simp
    moreover have "q \<notin> set (hot s)" using none that(2) by blast
    ultimately obtain b where "q = b\<lparr>status := ''disputed''\<rparr>" by blast
    then show ?thesis by simp
  qed
  ultimately show ?thesis by (simp add: x find_order_def)
qed

lemma restore_unknown:
  assumes "i \<notin> oid ` set (cold_rows s)"
  shows "restore Done Done Done i s = (Some (), s)"
proof -
  have "filter (\<lambda>(r, _). oid r \<noteq> i) (cold s) = cold s" "filter (\<lambda>r. oid r = i) (cold_rows s) = []"
    using assms by (force intro!: filter_True simp: cold_rows_def filter_empty_conv)+
  then show ?thesis by (simp add: restore_def begin_func_Done stmt_Done restore_stmt_def)
qed

section \<open>Properties\<close>

definition small_shop :: shop where
  "small_shop = \<lparr>hot =
     [\<lparr>oid = 1, customer = 42, status = ''delivered'', total = 500, created = 0, details = []\<rparr>,
      \<lparr>oid = 2, customer = 42, status = ''delivered'', total = 700, created = 10, details = []\<rparr>,
      \<lparr>oid = 3, customer = 7, status = ''open'', total = 900, created = 20, details = []\<rparr>],
     cold = [], files = Map.empty\<rparr>"

text \<open>Whatever happens to its batches (refused, applied without acknowledgement, interrupted),
  \<open>archive\<close> neither loses nor duplicates an order: hot table and archive table together hold the
  same rows as before, each id in one of them.\<close>

theorem archive_keeps_orders:
  "in_tables (snd (archive env age n s)) = in_tables s \<and>
   one_place (snd (archive env age n s)) = one_place s"
  using archive_loop_tables one_place_tables unfolding archive_def by (metis prod.collapse)

text \<open>On an answering server \<open>archive\<close> ends, reports how many rows left the hot table, moves only
  delivered orders, and leaves no delivered order older than the age that was not locked by
  another session during the last batch.\<close>

theorem archive_finishes:
  assumes "0 < n" and "\<forall>i. snd (snd (env i)) = Done" and "one_place s"
  shows "\<exists>k i s'. archive env age n s = (Some k, s') \<and> length (hot s') + k = length (hot s) \<and>
    (\<forall>r \<in> set (hot s'). old_enough (fst (env i)) age r \<longrightarrow> oid r \<in> fst (snd (env i))) \<and>
    (\<forall>r \<in> set (hot s). r \<notin> set (hot s') \<longrightarrow> status r = ''delivered'')"
  using archive_loop_finishes [OF assms, of age 1 0] unfolding archive_def by auto

theorem archive_finishes_witness:
  "\<exists>k s'. archive (\<lambda>_. (100, {}, Done)) 50 2 small_shop = (Some k, s') \<and> length (hot s') + k = 3"
proof -
  have "one_place small_shop" by (simp add: one_place_def small_shop_def cold_rows_def)
  from archive_finishes [OF _ _ this, of 2 "\<lambda>_. (100, {}, Done)" 50] show ?thesis
    by (auto simp: small_shop_def)
qed

definition stored :: "shop \<Rightarrow> order set" where
  "stored s = set (hot s) \<union> set (cold_rows s) \<union> (\<Union>rs \<in> ran (files s). set rs)"

text \<open>An export to a file name that does not exist yet loses no row, whatever the outcome of its
  calls; when it succeeds, the rows older than the age are in the file and not in the database.\<close>

theorem export_keeps_rows:
  assumes "files s file = None" and "export rb qn rcopy rdel rc qs file now age s = (x, s')"
  shows "stored s \<subseteq> stored s' \<and>
    (x = Some file \<longrightarrow> (\<forall>r \<in> set (cold_rows s). created r < now - age \<longrightarrow>
       r \<in> set (the (files s' file)) \<and> r \<notin> set (cold_rows s')))"
proof -
  have up: "stored (s\<lparr>files := (files s)(file \<mapsto> rs)\<rparr>) = stored s \<union> set rs" for rs
    using assms(1) by (auto simp: stored_def cold_rows_def ran_map_upd)
  let ?s1 = "s\<lparr>files := (files s)(file \<mapsto> to_export now age s)\<rparr>"
  let ?s2 = "?s1\<lparr>cold := filter (\<lambda>(r, _). \<not> created r < now - age) (cold s)\<rparr>"
  have ex: "set (to_export now age s) = {r \<in> set (cold_rows s). created r < now - age}"
    by (auto simp: to_export_def)
  have "files ?s2 file = Some (to_export now age s)" by simp
  then have "stored s \<subseteq> stored ?s2"
    using assms(1) ex by (auto simp: stored_def cold_rows_def ran_map_upd)
  moreover have "x = Some file \<Longrightarrow> s' = ?s2"
    using assms(2) by (auto simp: export_def Let_def split: if_splits)
  moreover have "s' = s \<or> s' = ?s1 \<or> s' = ?s2"
    using assms(2) by (auto simp: export_def Let_def split: if_splits)
  ultimately show ?thesis using up ex by (auto simp: cold_rows_def)
qed

lemma small_shop_archived:
  "archive (\<lambda>_. (100, {}, Done)) 50 2 small_shop = (Some 2,
     \<lparr>hot = [\<lparr>oid = 3, customer = 7, status = ''open'', total = 900, created = 20, details = []\<rparr>],
      cold = [(\<lparr>oid = 1, customer = 42, status = ''delivered'', total = 500, created = 0, details = []\<rparr>, 100),
              (\<lparr>oid = 2, customer = 42, status = ''delivered'', total = 700, created = 10, details = []\<rparr>, 100)],
      files = Map.empty\<rparr>)"
  unfolding archive_def
  by (simp add: archive_loop.simps small_shop_def move_batch_def batch_of_def old_enough_def cold_rows_def Let_def)

theorem export_keeps_rows_witness:
  "\<exists>s x s'. snd (archive (\<lambda>_. (100, {}, Done)) 50 2 small_shop) = s \<and>
     export Done Done Done (Refused Transport) Done Done (export_file 2024 3) 100 50 s = (x, s') \<and> stored s \<subseteq> stored s'"
proof -
  let ?s = "snd (archive (\<lambda>_. (100, {}, Done)) 50 2 small_shop)"
  obtain x s' where "export Done Done Done (Refused Transport) Done Done (export_file 2024 3) 100 50 ?s = (x, s')"
    by fastforce
  moreover have "files ?s (export_file 2024 3) = None" by (simp add: small_shop_archived)
  ultimately show ?thesis using export_keeps_rows by blast
qed

text \<open>Two exports in the same month write the same file: the second, with a younger age, replaces
  it and the orders of the first export are nowhere any more.\<close>

theorem second_export_destroys_first:
  "let f = export_file 2024 3;
       s0 = snd (archive (\<lambda>_. (100, {}, Done)) 50 2 small_shop);
       (x1, s1) = export Done Done Done Done Done Done f 100 95 s0;
       (x2, s2) = export Done Done Done Done Done Done f 100 50 s1
   in x1 = Some f \<and> x2 = Some f \<and>
      cold_file_query f 42 s1 = Some (1, 500) \<and> cold_file_query f 42 s2 = Some (1, 700) \<and>
      1 \<in> oid ` stored s1 \<and> 1 \<notin> oid ` stored s2"
  by (simp add: small_shop_archived export_def to_export_def cold_rows_def cold_file_query_def stored_def Let_def) auto

end
