(* ===== verification/ArchivalMain.thy ===== *)
theory ArchivalMain
  imports Complex_Main Archival
begin

text \<open>
  The whole run of \<open>simulate_data_archival/main.go\<close>: the seed of 400000 orders, the archiver, the reports,
  the lookups, the restored order, the export and the query of the exported file. The answers of
  the server, its clock at each statement, the amounts it draws, its statistics and the measured times
  are parameters (record \<open>archival_env\<close>). Times are hundredths of a second here, amounts cents.
\<close>

section \<open>The seed\<close>

text \<open>Procedure \<open>seed_orders\<close>: the interval of three years divided by 400000 is 0.00009 months, which PostgreSQL turns into 233.28 seconds.\<close>

definition day :: int where
  "day = 24 * 60 * 60 * 100"

definition order_details :: "nat \<Rightarrow> string" where
  "order_details g = ''{\"items\":['' @ concat (replicate 9 (''{\"sku\":\"SKU-'' @ dec (g mod 997) @ ''\",\"qty\":1,\"note\":\"gift wrap please\"},'')) @
     ''{}],\"shipping\":\"standard\"}''"

definition seed_row :: "int \<Rightarrow> int \<Rightarrow> (nat \<Rightarrow> int) \<Rightarrow> nat \<Rightarrow> order" where
  "seed_row now years amount g = \<lparr>oid = int g, customer = int (g mod 20000),
     status = (if 396000 < g then (if g mod 2 = 0 then ''open'' else ''shipped'') else ''delivered''),
     total = amount g, created = now - years + int g * 23328, details = order_details g\<rparr>"

definition seed_orders :: "int \<Rightarrow> int \<Rightarrow> (nat \<Rightarrow> int) \<Rightarrow> shop \<Rightarrow> shop" where
  "seed_orders now years amount s = s\<lparr>hot := map (seed_row now years amount) [1..<400001], cold := []\<rparr>"

section \<open>Reports\<close>

text \<open>\<open>printTables\<close>: the planner's row counts, negative for a table never analyzed, and the sizes; \<open>rows.Err\<close> is not read, so the listing may stop early.\<close>

definition print_tables :: "outcome \<times> (string \<times> int \<times> string \<times> string) list \<Rightarrow> shop \<Rightarrow> (string \<times> int \<times> string \<times> string) list option \<times> shop" where
  "print_tables a s = (if err_of (fst a) = None then Some (map (\<lambda>(name, n, table, idx). (name, max n 0, table, idx)) (snd a)) else None, s)"

text \<open>\<open>timeQuery\<close>: the best of three runs, in microseconds, and at most an hour.\<close>

definition hour :: nat where
  "hour = 60 * 60 * 1000000"

fun time_runs :: "(outcome \<times> nat) list \<Rightarrow> nat \<Rightarrow> shop \<Rightarrow> nat option \<times> shop" where
  "time_runs [] best s = (Some best, s)"
| "time_runs ((r, t) # rs) best s = (if err_of r = None then time_runs rs (min best t) s else (None, s))"

definition time_query :: "(nat \<Rightarrow> outcome \<times> nat) \<Rightarrow> shop \<Rightarrow> nat option \<times> shop" where
  "time_query runs = time_runs (map runs [0..<3]) hour"

text \<open>\<open>bytesPerRow\<close>: bytes of the table and of its indexes, each over the number of rows (at least one).\<close>

definition row_bytes :: "(string \<Rightarrow> outcome \<times> nat \<times> nat) \<Rightarrow> string \<Rightarrow> nat \<Rightarrow> (string \<times> rat \<times> rat) option" where
  "row_bytes sizes t n = (case sizes t of (r, heap, idx) \<Rightarrow>
     if err_of r = None then Some (t, of_nat heap / of_nat (max n 1), of_nat idx / of_nat (max n 1)) else None)"

definition bytes_per_row :: "(string \<Rightarrow> outcome \<times> nat \<times> nat) \<Rightarrow> shop \<Rightarrow> (string \<times> rat \<times> rat) list option \<times> shop" where
  "bytes_per_row sizes s =
     (case row_bytes sizes ''orders'' (length (hot s)) of None \<Rightarrow> (None, s)
      | Some x \<Rightarrow> (case row_bytes sizes ''orders_archive'' (length (cold s)) of None \<Rightarrow> (None, s)
                  | Some y \<Rightarrow> (Some [x, y], s)))"

text \<open>
  Retrieval 1: the orders of a customer by table, with the days of the first and the last; an empty group
  has no row. The loop over the rows does not read \<open>rows.Err\<close>: it sees the first \<open>k\<close> of them.
\<close>

definition group_line :: "int \<Rightarrow> shop \<Rightarrow> bool \<Rightarrow> (bool \<times> nat \<times> int \<times> int) list" where
  "group_line cust s arch =
     (let days = map (\<lambda>(r, _). created r div day) (filter (\<lambda>(r, a). a = arch \<and> customer r = cust) (orders_all s))
      in if days = [] then [] else [(arch, length days, Min (set days), Max (set days))])"

definition customer_report :: "outcome \<Rightarrow> nat \<Rightarrow> int \<Rightarrow> shop \<Rightarrow> (bool \<times> nat \<times> int \<times> int) list option \<times> shop" where
  "customer_report r k cust s =
     (if err_of r = None then Some (take k (group_line cust s False @ group_line cust s True)) else None, s)"

text \<open>Retrieval 2: \<open>findOrder\<close> for one id after the other; call \<open>k\<close> has the outcomes \<open>env k\<close>.\<close>

fun find_all :: "(nat \<Rightarrow> outcome \<times> outcome) \<Rightarrow> nat \<Rightarrow> int list \<Rightarrow> shop \<Rightarrow> string list" where
  "find_all env k [] s = []"
| "find_all env k (i # is) s = find_order (fst (env k)) (snd (env k)) i s # find_all env (Suc k) is s"

text \<open>The month in the name of the file: \<open>AddDate(-2, 0, 0)\<close> turns the 29th of February into the first of March.\<close>

definition two_years_back :: "nat \<times> nat \<times> nat \<Rightarrow> nat \<times> nat" where
  "two_years_back d = (case d of (y, m, n) \<Rightarrow> (y - 2, if m = 2 \<and> n = 29 then 3 else m))"

definition file_name :: "nat \<times> nat \<times> nat \<Rightarrow> string" where
  "file_name d = export_file (fst (two_years_back d)) (snd (two_years_back d))"

text \<open>Retrieval 4: the table for the file, the load and the query; without the file \<open>gunzip\<close> fails and so does COPY.\<close>

definition query_file :: "outcome \<times> outcome \<times> outcome \<times> outcome \<Rightarrow> string \<Rightarrow> int \<Rightarrow> shop \<Rightarrow> (nat \<times> int) option \<times> shop" where
  "query_file a file cust s = (case a of (ra, rt, rcopy, rq) \<Rightarrow>
     (if err_of ra = None \<and> err_of rt = None \<and> err_of rcopy = None \<and> err_of rq = None then cold_file_query file cust s else None, s))"

section \<open>The run\<close>

record archival_env =
  seeded :: outcome
  seed_now :: int
  three_years :: int
  amount :: "nat \<Rightarrow> int"
  vacuumed :: outcome
  tables :: "nat \<Rightarrow> outcome \<times> (string \<times> int \<times> string \<times> string) list"
  scans :: "nat \<Rightarrow> nat \<Rightarrow> outcome \<times> nat"
  old_counted :: "outcome \<times> int"
  one_year :: int
  batches :: "nat \<Rightarrow> int \<times> int set \<times> outcome"
  compacted :: outcome
  analyzed :: outcome
  table_sizes :: "string \<Rightarrow> outcome \<times> nat \<times> nat"
  reported :: "outcome \<times> nat"
  finds :: "nat \<Rightarrow> outcome \<times> outcome"
  restoring :: "outcome \<times> outcome \<times> outcome"
  today :: "nat \<times> nat \<times> nat"
  export_now :: int
  two_years :: int
  exporting :: "outcome \<times> outcome \<times> outcome \<times> outcome \<times> outcome \<times> outcome"
  file_queried :: "outcome \<times> outcome \<times> outcome \<times> outcome"

record archival_result =
  tables_before :: "(string \<times> int \<times> string \<times> string) list"
  scan_before :: nat
  old_orders :: nat
  archived_rows :: nat
  tables_after :: "(string \<times> int \<times> string \<times> string) list"
  scan_after :: nat
  bytes :: "(string \<times> rat \<times> rat) list"
  by_table :: "(bool \<times> nat \<times> int \<times> int) list"
  found_in :: "string list"
  found_restored :: string
  cold_answer :: "nat \<times> int"

definition count_old :: "outcome \<times> int \<Rightarrow> int \<Rightarrow> shop \<Rightarrow> nat option \<times> shop" where
  "count_old a age s = (if err_of (fst a) = None then Some (length (filter (\<lambda>r. created r < snd a - age) (hot s))) else None, s)"

definition run_export :: "archival_env \<Rightarrow> shop \<Rightarrow> string option \<times> shop" where
  "run_export e s = (case exporting e of (rb, qn, rcopy, rdel, rc, qs) \<Rightarrow>
     export rb qn rcopy rdel rc qs (file_name (today e)) (export_now e) (two_years e) s)"

definition archival_main :: "archival_env \<Rightarrow> shop \<Rightarrow> archival_result option \<times> shop" where
  "archival_main e =
     and_then (must (seeded e) (seed_orders (seed_now e) (three_years e) (amount e))) (\<lambda>_.
     and_then (must (vacuumed e) id) (\<lambda>_.
     and_then (print_tables (tables e 0)) (\<lambda>tables1.
     and_then (time_query (scans e 0)) (\<lambda>scan1.
     and_then (count_old (old_counted e) (one_year e)) (\<lambda>old.
     and_then (archive (batches e) (one_year e) 25000) (\<lambda>n.
     and_then (must (compacted e) id) (\<lambda>_.
     and_then (must (analyzed e) id) (\<lambda>_.
     and_then (print_tables (tables e 1)) (\<lambda>tables2.
     and_then (time_query (scans e 1)) (\<lambda>scan2.
     and_then (bytes_per_row (table_sizes e)) (\<lambda>bs.
     and_then (customer_report (fst (reported e)) (snd (reported e)) 42) (\<lambda>report.
     and_then (\<lambda>s. give (find_all (finds e) 0 [399990, 1234] s) s) (\<lambda>found.
     and_then (case restoring e of (rb, rx, rc) \<Rightarrow> restore rb rx rc 1234) (\<lambda>_.
     and_then (\<lambda>s. give (find_order (fst (finds e 2)) (snd (finds e 2)) 1234 s) s) (\<lambda>found2.
     and_then (run_export e) (\<lambda>file.
     and_then (query_file (file_queried e) file 42) (\<lambda>answer.
     give \<lparr>tables_before = tables1, scan_before = scan1, old_orders = old, archived_rows = n, tables_after = tables2, scan_after = scan2,
       bytes = bs, by_table = report, found_in = found, found_restored = found2, cold_answer = answer\<rparr>)))))))))))))))))"

section \<open>What every run keeps\<close>

text \<open>
  The columns of the tables, the values the program gives them, and what it means that a row is archived. The key
  of a row is in one of the two tables.
\<close>

definition order_ok :: "order \<Rightarrow> bool" where
  "order_ok r \<longleftrightarrow> int4 (customer r) \<and> status r \<in> {''open'', ''shipped'', ''delivered'', ''disputed''} \<and> 0 \<le> total r \<and> total r < 10 ^ 10"

definition shop_ok :: "int \<Rightarrow> shop \<Rightarrow> bool" where
  "shop_ok age s \<longleftrightarrow> one_place s \<and> (\<forall>r \<in> set (hot s). order_ok r) \<and>
     (\<forall>(r, t) \<in> set (cold s). order_ok r \<and> status r = ''delivered'' \<and> created r < t - age)"

lemma ids_one_place: "mset (map oid (hot s' @ cold_rows s')) = mset (map oid (hot s @ cold_rows s)) \<Longrightarrow> one_place s' = one_place s"
  unfolding one_place_def by (rule mset_eq_imp_distinct_iff)

lemma seed_row_sel:
  "oid (seed_row now y a g) = int g" "customer (seed_row now y a g) = int (g mod 20000)"
  "total (seed_row now y a g) = a g" "created (seed_row now y a g) = now - y + int g * 23328"
  by (simp_all add: seed_row_def)

lemma seed_ok:
  assumes "\<forall>g. 0 \<le> a g \<and> a g < 10 ^ 10"
  shows "shop_ok age (seed_orders now y a s)"
proof -
  have "order_ok (seed_row now y a g)" for g
  proof -
    have "g mod 20000 < 2147483648" by (rule less_le_trans [of _ 20000]) simp_all
    with assms show ?thesis by (simp add: order_ok_def seed_row_def int4_def)
  qed
  moreover have "distinct (map oid (map (seed_row now y a) [1..<400001]))"
    by (simp add: distinct_map inj_on_def seed_row_sel del: upt_Suc)
  ultimately show ?thesis
    by (simp add: shop_ok_def seed_orders_def one_place_def cold_rows_def del: map_map upt_Suc)
qed

lemma move_batch_ok_shop:
  assumes "shop_ok age s" and "move_batch now locked age n s = (x, s')"
  shows "shop_ok age s'"
proof -
  have "one_place s'" using assms one_place_tables [OF move_batch_tables(1) [OF assms(2)]] by (simp add: shop_ok_def)
  moreover have "\<forall>r \<in> set (hot s'). order_ok r"
    using assms by (auto simp: shop_ok_def move_batch_def Let_def split: if_splits)
  moreover have "order_ok r \<and> status r = ''delivered'' \<and> created r < t - age" if "(r, t) \<in> set (cold s')" for r t
  proof (cases "(r, t) \<in> set (cold s)")
    case True
    with assms(1) show ?thesis by (auto simp: shop_ok_def)
  next
    case False
    with that assms(2) obtain q where q: "t = now" "r \<in> set (hot s)" "q \<in> set (batch_of now locked age n s)" "oid r = oid q"
      by (auto simp: move_batch_def Let_def split: if_splits)
    from batch_of_hot [OF q(3)] q(2,4) assms(1) have "r = q" "old_enough now age q"
      by (auto simp: shop_ok_def intro: one_place_inj)
    with q assms(1) show ?thesis by (auto simp: shop_ok_def old_enough_def)
  qed
  ultimately show ?thesis by (auto simp: shop_ok_def)
qed

text \<open>A property of the tables that the batches keep is kept by the archiver.\<close>

lemma archive_loop_keeps:
  assumes "P s" and "\<And>j s x s'. P s \<Longrightarrow> move_batch (fst (env j)) (fst (snd (env j))) age n s = (x, s') \<Longrightarrow> P s'"
  shows "P (snd (archive_loop env age n i tot s))"
  using assms
proof (induction env age n i tot s rule: archive_loop.induct)
  case (1 env age n i tot s)
  obtain now locked r where e: "env i = (now, locked, r)" by (cases "env i")
  obtain y s1 where m: "move_batch now locked age n s = (y, s1)" by fastforce
  from "1.prems"(2) [OF "1.prems"(1), of i] m have "P s1" by (simp add: e)
  with "1.prems" show ?case
    using "1.IH" [OF e [symmetric] refl]
    by (subst archive_loop.simps) (auto simp: e m split: sum.splits if_splits)
qed

lemma restore_tables:
  assumes "restore_stmt i s = (Inr u, s')"
  shows "hot s' = hot s @ map (\<lambda>r. r\<lparr>status := ''disputed''\<rparr>) (filter (\<lambda>r. oid r = i) (cold_rows s))"
    and "cold s' = filter (\<lambda>(r, _). oid r \<noteq> i) (cold s)"
    and "cold_rows s' = filter (\<lambda>r. oid r \<noteq> i) (cold_rows s)" and "files s' = files s"
  using assms by (auto simp: restore_stmt_def Let_def cold_rows_def filter_map comp_def case_prod_unfold split: if_splits)

lemma restore_ok_shop:
  assumes "shop_ok age s" and "restore_stmt i s = (Inr u, s')"
  shows "shop_ok age s'"
proof -
  note t = restore_tables [OF assms(2)]
  have "mset (map oid (hot s' @ cold_rows s')) = mset (map oid (hot s @ cold_rows s))"
    using filter_mset_partition [of "\<lambda>i'. i' = i" "map oid (cold_rows s)"]
    by (simp add: t(1,3) comp_def filter_map mset_map [symmetric] ac_simps del: mset_map mset_filter)
  from ids_one_place [OF this] show ?thesis
    using assms(1) by (auto simp: shop_ok_def t(1,2) order_ok_def cold_rows_def)
qed

lemma restore_leads:
  assumes "\<And>s u s'. P s \<Longrightarrow> restore_stmt i s = (Inr u, s') \<Longrightarrow> P s'"
  shows "leads P (restore rb rx rc i) P"
proof -
  have "snd (restore rb rx rc i s) = snd (begin_func rb rc (stmt rx (restore_stmt i)) s)" for s
    by (simp add: restore_def split: prod.splits sum.splits)
  moreover have "P (snd (begin_func rb rc (stmt rx (restore_stmt i)) s))" if "P s" for s
    by (rule tx.run_invariant) (use that assms in \<open>auto simp: tx_simps\<close>)
  ultimately show ?thesis by (simp add: leads_def)
qed

lemma export_states:
  "snd (export rb qn rcopy rdel rc qs f now age s) \<in> {s, s\<lparr>files := (files s)(f \<mapsto> to_export now age s)\<rparr>,
     s\<lparr>files := (files s)(f \<mapsto> to_export now age s), cold := filter (\<lambda>(r, _). \<not> created r < now - age) (cold s)\<rparr>}"
  by (cases rcopy) (auto simp: export_def Let_def)

lemma leads_export:
  assumes "\<And>s. P s \<Longrightarrow> Q s" and "\<And>s f now age. P s \<Longrightarrow> Q (s\<lparr>files := (files s)(f \<mapsto> to_export now age s)\<rparr>)"
    and "\<And>s f now age. P s \<Longrightarrow>
      Q (s\<lparr>files := (files s)(f \<mapsto> to_export now age s), cold := filter (\<lambda>(r, _). \<not> created r < now - age) (cold s)\<rparr>)"
  shows "leads P (run_export e) Q"
proof -
  have "Q (snd (export rb qn rcopy rdel rc qs f now age s))" if "P s" for rb qn rcopy rdel rc qs f now age s
    using export_states [of rb qn rcopy rdel rc qs f now age s] assms that by auto
  then show ?thesis by (auto simp: leads_def run_export_def split: prod.splits)
qed

lemma export_ok_shop: "leads (shop_ok age) (run_export e) (shop_ok age)"
  by (rule leads_export) (auto simp: shop_ok_def one_place_def cold_rows_def filter_map distinct_map intro: inj_on_subset)

lemma time_runs_same: "snd (time_runs runs best s) = s"
  by (induction runs best s rule: time_runs.induct) simp_all

lemma reads_same:
  "snd (print_tables a s) = s" "snd (time_query rs s) = s" "snd (count_old c age s) = s" "snd (bytes_per_row z s) = s"
  "snd (customer_report r k cust s) = s" "snd (query_file q f cust s) = s" "snd (give x s) = s"
  by (simp_all add: print_tables_def time_query_def time_runs_same count_old_def bytes_per_row_def customer_report_def query_file_def give_def
      split: option.splits prod.splits)

lemmas leads_reads = reads_same [THEN leads_same]

lemma leads_archive:
  "(\<And>now locked s x s'. P s \<Longrightarrow> move_batch now locked age n s = (x, s') \<Longrightarrow> P s') \<Longrightarrow> leads P (archive env age n) P"
  unfolding leads_def archive_def by (auto intro!: archive_loop_keeps [where P = P])

lemmas leads_seq = leads_and_then [where P = P and Q = P and R = P for P]

text \<open>
  The body of \<open>main\<close> after the seed: a property \<open>P\<close> that batches and the restored order keep, and that the
  export turns into \<open>Q\<close>, ends in \<open>Q\<close>.
\<close>

lemma leads_body:
  assumes "leads I (must (seeded e) (seed_orders (seed_now e) (three_years e) (amount e))) P"
    and "\<And>now locked s x s'. P s \<Longrightarrow> move_batch now locked (one_year e) 25000 s = (x, s') \<Longrightarrow> P s'"
    and "\<And>s u s'. P s \<Longrightarrow> restore_stmt 1234 s = (Inr u, s') \<Longrightarrow> P s'"
    and "leads P (run_export e) Q" and imp: "\<And>s. P s \<Longrightarrow> Q s"
  shows "leads I (archival_main e) Q"
proof -
  have arch: "leads P (archive (batches e) (one_year e) 25000) P" by (rule leads_archive) (rule assms(2))
  have rest: "leads P (case restoring e of (rb, rx, rc) \<Rightarrow> restore rb rx rc 1234) P"
    using restore_leads [OF assms(3)] by (simp split: prod.split)
  have same: "leads P (must r id) P" "leads P (\<lambda>s. give (F s) s) P" for r and F :: "shop \<Rightarrow> 'b"
    by (simp_all add: leads_must leads_same reads_same)
  note seq = leads_and_then [OF same(1) _ imp] leads_and_then [OF arch _ imp] leads_and_then [OF rest _ imp] leads_and_then [OF same(2) _ imp]
    leads_reads [where P = P, THEN leads_and_then, OF _ imp]
  have last: "leads Q (and_then (query_file q f c) (\<lambda>z. give (h z))) Q" for q f c and h :: "nat \<times> int \<Rightarrow> archival_result"
    by (rule leads_and_then [OF leads_reads(6) leads_reads(7)])
  show ?thesis
    unfolding archival_main_def
    by (rule leads_and_then [OF assms(1) _ imp], (rule seq)+, rule leads_and_then [OF assms(4) last], assumption+)
qed

lemma main_shop_ok:
  assumes "\<forall>g. 0 \<le> amount e g \<and> amount e g < 10 ^ 10" and "shop_ok (one_year e) s"
  shows "shop_ok (one_year e) (snd (archival_main e s))"
proof -
  have "leads (shop_ok (one_year e)) (archival_main e) (shop_ok (one_year e))"
    by (rule leads_body [OF _ move_batch_ok_shop restore_ok_shop export_ok_shop])
      (rule leads_must, rule seed_ok [OF assms(1)])
  then show ?thesis using assms(2) by (rule leadsD)
qed

section \<open>No order is lost\<close>

text \<open>A row up to its status; the orders in the database, and those in the database or in a file.\<close>

definition strip :: "order \<Rightarrow> order" where
  "strip r = r\<lparr>status := []\<rparr>"

definition kept_in_db :: "order set \<Rightarrow> shop \<Rightarrow> bool" where
  "kept_in_db R s \<longleftrightarrow> R \<subseteq> strip ` (set (hot s) \<union> set (cold_rows s))"

definition kept :: "order set \<Rightarrow> shop \<Rightarrow> bool" where
  "kept R s \<longleftrightarrow> R \<subseteq> strip ` stored s"

lemma move_batch_kept: "kept_in_db R s \<Longrightarrow> move_batch now locked age n s = (x, s') \<Longrightarrow> kept_in_db R s'"
  using arg_cong [OF move_batch_tables(1), of now locked age n s x s' set_mset] by (simp add: kept_in_db_def in_tables_def)

lemma restore_kept: "kept_in_db R s \<Longrightarrow> restore_stmt i s = (Inr u, s') \<Longrightarrow> kept_in_db R s'"
proof -
  assume "restore_stmt i s = (Inr u, s')" and k: "kept_in_db R s"
  note t = restore_tables [OF this(1)]
  have "strip ` set (map (\<lambda>r. r\<lparr>status := ''disputed''\<rparr>) rs) = strip ` set rs" for rs
    by (simp add: image_image strip_def)
  moreover have "set (cold_rows s) = set (filter (\<lambda>r. oid r = i) (cold_rows s)) \<union> set (filter (\<lambda>r. oid r \<noteq> i) (cold_rows s))" by auto
  ultimately have "strip ` (set (hot s') \<union> set (cold_rows s')) = strip ` (set (hot s) \<union> set (cold_rows s))"
    by (simp only: t(1,3) image_Un set_append) (simp only: ac_simps)
  with k show ?thesis by (simp add: kept_in_db_def)
qed

lemma stored_export:
  "set (hot s) \<union> set (cold_rows s) \<subseteq> stored (s\<lparr>files := (files s)(f \<mapsto> to_export now age s)\<rparr>)"
  "set (hot s) \<union> set (cold_rows s) \<subseteq> stored (s\<lparr>files := (files s)(f \<mapsto> to_export now age s),
     cold := filter (\<lambda>(r, _). \<not> created r < now - age) (cold s)\<rparr>)"
proof -
  have "to_export now age s \<in> ran ((files s)(f \<mapsto> to_export now age s))" by (rule ranI [of _ f]) simp
  moreover have "set (to_export now age s) = {r \<in> set (cold_rows s). created r < now - age}" by (auto simp: to_export_def)
  ultimately show "set (hot s) \<union> set (cold_rows s) \<subseteq> stored (s\<lparr>files := (files s)(f \<mapsto> to_export now age s),
     cold := filter (\<lambda>(r, _). \<not> created r < now - age) (cold s)\<rparr>)"
    by (force simp: stored_def cold_rows_def)
qed (auto simp: stored_def cold_rows_def)

lemma export_kept: "leads (kept_in_db R) (run_export e) (kept R)"
proof (rule leads_export)
  show "kept_in_db R s \<Longrightarrow> kept R s" for s by (auto simp: kept_in_db_def kept_def stored_def)
qed (simp_all add: kept_in_db_def kept_def order.trans [OF _ image_mono [OF stored_export(1)]] order.trans [OF _ image_mono [OF stored_export(2)]])

lemma main_keeps_orders:
  assumes "seeded e = Done" and "g \<in> {1..400000}"
  shows "\<exists>r \<in> stored (snd (archival_main e s)). strip r = strip (seed_row (seed_now e) (three_years e) (amount e) g)"
proof -
  let ?R = "(\<lambda>g. strip (seed_row (seed_now e) (three_years e) (amount e) g)) ` {1..400000}"
  have "leads (\<lambda>_. True) (archival_main e) (kept ?R)"
  proof (rule leads_body [OF _ move_batch_kept restore_kept export_kept])
    show "leads (\<lambda>_. True) (must (seeded e) (seed_orders (seed_now e) (three_years e) (amount e))) (kept_in_db ?R)"
      unfolding leads_def must_def assms(1) by (auto simp: kept_in_db_def seed_orders_def cold_rows_def simp del: upt_Suc)
  qed (auto simp: kept_in_db_def kept_def stored_def)
  then have "kept ?R (snd (archival_main e s))" by (rule leadsD) simp
  then have "strip (seed_row (seed_now e) (three_years e) (amount e) g) \<in> strip ` stored (snd (archival_main e s))"
    unfolding kept_def using assms(2) by blast
  then show ?thesis by (metis imageE)
qed

text \<open>C20: Whatever the outcome of the statements of \<open>main\<close> and wherever it stops, the tables keep their types and keys: every column holds a value of its type, every
  id is in one of the two tables, every archived order was delivered and older than a year when it was archived; and once the seed is there each of
  its 400000 orders stays, up to its status, in a table or in the exported file.\<close>

theorem archival_main_typed:
  assumes "\<forall>g. 0 \<le> amount e g \<and> amount e g < 10 ^ 10" and "shop_ok (one_year e) s"
  shows "shop_ok (one_year e) (snd (archival_main e s)) \<and>
    (seeded e = Done \<longrightarrow> (\<forall>g \<in> {1..400000}. \<exists>r \<in> stored (snd (archival_main e s)).
       strip r = strip (seed_row (seed_now e) (three_years e) (amount e) g)))"
  using main_shop_ok [OF assms] main_keeps_orders by blast

definition calm_day :: archival_env where
  "calm_day = \<lparr>seeded = Done, seed_now = 0, three_years = 1096 * day, amount = (\<lambda>g. 500 + int g), vacuumed = Done, tables = (\<lambda>_. (Done, [])),
     scans = (\<lambda>_ _. (Done, 0)), old_counted = (Done, 0), one_year = 365 * day, batches = (\<lambda>i. (0, {}, Done)), compacted = Done,
     analyzed = Done, table_sizes = (\<lambda>_. (Done, 0, 0)), reported = (Done, 2), finds = (\<lambda>_. (Done, Done)), restoring = (Done, Done, Done),
     today = (2026, 3, 1), export_now = 0, two_years = 731 * day, exporting = (Done, Done, Done, Done, Done, Done),
     file_queried = (Done, Done, Done, Done)\<rparr>"

text \<open>A run whose export is refused at its deletion.\<close>

theorem archival_main_typed_witness:
  "let e = calm_day\<lparr>amount := \<lambda>g. 500, exporting := (Done, Done, Done, Refused Transport, Done, Done)\<rparr>; s = \<lparr>hot = [], cold = [], files = Map.empty\<rparr>
   in shop_ok (one_year e) (snd (archival_main e s)) \<and>
     (\<exists>r \<in> stored (snd (archival_main e s)). strip r = strip (seed_row (seed_now e) (three_years e) (amount e) 1234))"
proof -
  let ?e = "calm_day\<lparr>amount := \<lambda>g. 500, exporting := (Done, Done, Done, Refused Transport, Done, Done)\<rparr>"
  let ?s = "\<lparr>hot = [], cold = [], files = Map.empty\<rparr> :: shop"
  have "shop_ok (one_year ?e) ?s" by (simp add: shop_ok_def one_place_def cold_rows_def)
  moreover have "\<forall>g. 0 \<le> amount ?e g \<and> amount ?e g < 10 ^ 10" by simp
  moreover have "seeded ?e = Done" by (simp add: calm_day_def)
  ultimately show ?thesis using archival_main_typed [of ?e ?s] unfolding Let_def by fastforce
qed

section \<open>A run on a server that answers\<close>

text \<open>Every row that left the hot table was old at one of the batches, and the rest stays in its order.\<close>

lemma move_batch_filter:
  assumes "one_place s" and "move_batch now locked age n s = (x, s')"
  shows "\<exists>Q. hot s' = filter Q (hot s) \<and> (\<forall>r \<in> set (hot s). \<not> Q r \<longrightarrow> old_enough now age r)"
proof (cases x)
  case (Inl e)
  with assms(2) show ?thesis by (intro exI [of _ "\<lambda>_. True"]) (auto simp: move_batch_def Let_def split: if_splits)
next
  case (Inr k)
  with assms(2) have "hot s' = filter (\<lambda>r. oid r \<notin> oid ` set (batch_of now locked age n s)) (hot s)"
    by (auto simp: move_batch_def Let_def split: if_splits)
  moreover have "old_enough now age r" if "r \<in> set (hot s)" "q \<in> set (batch_of now locked age n s)" "oid r = oid q" for r q
    using batch_of_hot [OF that(2)] one_place_inj [OF assms(1) that(1)] that(3) by auto
  ultimately show ?thesis by (intro exI [of _ "\<lambda>r. oid r \<notin> oid ` set (batch_of now locked age n s)"]) auto
qed

lemma archive_answers:
  assumes "0 < n" and "one_place s" and "\<forall>i. fst (snd (env i)) = {} \<and> snd (snd (env i)) = Done \<and> t0 \<le> fst (env i) \<and> fst (env i) \<le> t1"
  obtains k s' Q where "archive env age n s = (Some k, s')" "hot s' = filter Q (hot s)" "length (hot s') + k = length (hot s)"
    "mset (cold_rows s') = mset (cold_rows s) + mset (filter (\<lambda>r. \<not> Q r) (hot s))" "one_place s'" "files s' = files s"
    "\<forall>r \<in> set (hot s). status r = ''delivered'' \<and> created r < t0 - age \<longrightarrow> \<not> Q r"
    "\<forall>r \<in> set (hot s). \<not> Q r \<longrightarrow> status r = ''delivered'' \<and> created r < t1 - age"
proof -
  from assms obtain k i s' where a: "archive_loop env age n 1 0 s = (Some (0 + k), s')" "length (hot s') + k = length (hot s)"
    "\<forall>r \<in> set (hot s'). old_enough (fst (env i)) age r \<longrightarrow> oid r \<in> fst (snd (env i))"
    using archive_loop_finishes [of n env s age 1 0] by blast
  let ?P = "\<lambda>s'. one_place s' \<and> (\<exists>Q. hot s' = filter Q (hot s) \<and> (\<forall>r \<in> set (hot s). \<not> Q r \<longrightarrow> status r = ''delivered'' \<and> created r < t1 - age))"
  have "?P (snd (archive_loop env age n 1 0 s))"
  proof (rule archive_loop_keeps)
    show "?P s" using assms(2) by (auto intro: exI [of _ "\<lambda>_. True"])
  next
    fix j s1 x s2
    assume p: "?P s1" and m: "move_batch (fst (env j)) (fst (snd (env j))) age n s1 = (x, s2)"
    then obtain Q where Q: "hot s1 = filter Q (hot s)" "\<forall>r \<in> set (hot s). \<not> Q r \<longrightarrow> status r = ''delivered'' \<and> created r < t1 - age" by blast
    from move_batch_filter [OF _ m] p obtain Q' where Q': "hot s2 = filter Q' (hot s1)" "\<forall>r \<in> set (hot s1). \<not> Q' r \<longrightarrow> old_enough (fst (env j)) age r" by blast
    have "one_place s2" using p one_place_tables [OF move_batch_tables(1) [OF m]] by simp
    moreover have "hot s2 = filter (\<lambda>r. Q r \<and> Q' r) (hot s)" by (simp add: Q Q')
    moreover have "fst (env j) \<le> t1" using assms(3) by blast
    then have "\<forall>r \<in> set (hot s). \<not> (Q r \<and> Q' r) \<longrightarrow> status r = ''delivered'' \<and> created r < t1 - age"
      using Q Q' by (auto simp: old_enough_def)
    ultimately show "?P s2" by blast
  qed
  with a(1) obtain Q where Q: "hot s' = filter Q (hot s)" "one_place s'"
    "\<forall>r \<in> set (hot s). \<not> Q r \<longrightarrow> status r = ''delivered'' \<and> created r < t1 - age" by auto
  have t: "in_tables s' = in_tables s" "files s' = files s" using archive_loop_tables [OF a(1)] by simp_all
  have c: "mset (cold_rows s') = mset (cold_rows s) + mset (filter (\<lambda>r. \<not> Q r) (hot s))"
  proof (rule add_left_imp_eq)
    show "mset (filter Q (hot s)) + mset (cold_rows s') =
        mset (filter Q (hot s)) + (mset (cold_rows s) + mset (filter (\<lambda>r. \<not> Q r) (hot s)))"
      using t(1) filter_mset_partition [of Q "hot s"] by (simp only: in_tables_def Q(1) ac_simps)
  qed
  have low: "\<not> Q r" if "r \<in> set (hot s)" "status r = ''delivered''" "created r < t0 - age" for r
  proof
    assume "Q r"
    moreover have "t0 \<le> fst (env i)" "fst (snd (env i)) = {}" using assms(3) by blast+
    ultimately show False using a(3) that by (auto simp: Q(1) old_enough_def)
  qed
  from a(1) have "archive env age n s = (Some k, s')" by (simp add: archive_def)
  moreover have "\<forall>r \<in> set (hot s). status r = ''delivered'' \<and> created r < t0 - age \<longrightarrow> \<not> Q r" using low by blast
  ultimately show thesis by (rule that [OF _ Q(1) a(2) c Q(2) t(2) _ Q(3)])
qed

text \<open>Counting the rows of a seed by a condition on their number.\<close>

lemma residues: "c < m \<Longrightarrow> filter (\<lambda>g. g mod m = c) [0..<m * q] = map (\<lambda>k. c + m * k) [0..<q]"
proof (induction q)
  case (Suc q)
  have "filter (\<lambda>g. g mod m = c) [m * q..<m * q + m] = [c + m * q]"
  proof (rule sorted_distinct_set_unique)
    have "g = c + m * q" if "m * q \<le> g" "g < m * q + m" "g mod m = c" for g
    proof -
      from that(1) obtain d where "g = m * q + d" using le_Suc_ex by blast
      with that show ?thesis by simp
    qed
    then show "set (filter (\<lambda>g. g mod m = c) [m * q..<m * q + m]) = set [c + m * q]"
      using Suc.prems by auto
  qed (simp_all add: sorted_wrt_filter)
  moreover have "[0..<m * Suc q] = [0..<m * q] @ [m * q..<m * q + m]"
    using upt_add_eq_append [of 0 "m * q" m] by (simp add: add.commute)
  ultimately show ?case using Suc by simp
qed simp

lemma rows_of_42: "filter (\<lambda>r. customer r = 42) (map (seed_row now y a) [1..<400001]) = map (\<lambda>k. seed_row now y a (42 + 20000 * k)) [0..<20]"
proof -
  have "[0..<400000] = 0 # [Suc 0..<400000]" by (rule upt_conv_Cons) simp
  moreover have "[1..<Suc 400000] = [1..<400000] @ [400000]" by (rule upt_Suc_append) simp
  moreover have "Suc 400000 = 400001" by simp
  ultimately have "filter (\<lambda>g. g mod 20000 = 42) [1..<400001] = filter (\<lambda>g. g mod 20000 = 42) [0..<20000 * 20]"
    by (simp del: upt_Suc)
  then have "filter (\<lambda>g. g mod 20000 = 42) [1..<400001] = map (\<lambda>k. 42 + 20000 * k) [0..<20]"
    by (simp only: residues)
  moreover have "int g = 42 \<longleftrightarrow> g = 42" for g by linarith
  ultimately show ?thesis by (simp add: filter_map comp_def seed_row_sel del: upt_Suc)
qed

text \<open>
  The conditions of an undisturbed run: the server answers every call and no other session holds a lock, the years
  have 365 or 366 days, and the statements run within a day after the seed.
\<close>

definition answering :: "archival_env \<Rightarrow> bool" where
  "answering e \<longleftrightarrow> seeded e = Done \<and> vacuumed e = Done \<and> compacted e = Done \<and> analyzed e = Done \<and> (\<forall>k. fst (tables e k) = Done) \<and>
     (\<forall>k j. fst (scans e k j) = Done) \<and> fst (old_counted e) = Done \<and> (\<forall>i. fst (snd (batches e i)) = {} \<and> snd (snd (batches e i)) = Done) \<and>
     (\<forall>t. fst (table_sizes e t) = Done) \<and> fst (reported e) = Done \<and> 2 \<le> snd (reported e) \<and> (\<forall>k. finds e k = (Done, Done)) \<and>
     restoring e = (Done, Done, Done) \<and> exporting e = (Done, Done, Done, Done, Done, Done) \<and> file_queried e = (Done, Done, Done, Done)"

definition soon :: "archival_env \<Rightarrow> int \<Rightarrow> bool" where
  "soon e t \<longleftrightarrow> seed_now e \<le> t \<and> t \<le> seed_now e + day"

definition on_time :: "archival_env \<Rightarrow> bool" where
  "on_time e \<longleftrightarrow> three_years e \<in> {1095 * day..1096 * day} \<and> one_year e \<in> {365 * day..366 * day} \<and> two_years e \<in> {730 * day..731 * day} \<and>
     soon e (snd (old_counted e)) \<and> (\<forall>i. soon e (fst (batches e i))) \<and> soon e (export_now e)"

definition seed :: "archival_env \<Rightarrow> nat \<Rightarrow> order" where
  "seed e g = seed_row (seed_now e) (three_years e) (amount e) g"

abbreviation of_42 :: "archival_env \<Rightarrow> nat \<Rightarrow> order" where
  "of_42 e k \<equiv> seed e (42 + 20000 * k)"

lemma created_seed: "created (seed e g) = seed_now e - three_years e + int g * 23328"
  by (simp add: seed_def seed_row_sel)

lemma status_seed: "g \<le> 396000 \<Longrightarrow> status (seed e g) = ''delivered''"
  by (simp add: seed_def seed_row_def)

lemma year_limits:
  assumes "on_time e" and "soon e t"
  shows "g \<le> 269999 \<Longrightarrow> created (seed e g) < seed_now e - one_year e"
    and "created (seed e g) < t - one_year e \<Longrightarrow> g \<le> 271111"
    and "g \<le> 134814 \<Longrightarrow> created (seed e g) < t - two_years e"
    and "created (seed e g) < t - two_years e \<Longrightarrow> g \<le> 135926"
  using assms by (auto simp: on_time_def soon_def created_seed day_def)

lemma count_seeds:
  assumes "\<And>g. 1 \<le> g \<Longrightarrow> g \<le> 400000 \<Longrightarrow> P (seed e g) \<Longrightarrow> g \<le> 271111" and "\<And>g. g \<le> 269999 \<Longrightarrow> P (seed e g)"
  shows "length (filter P (map (seed e) [1..<400001])) \<in> {269999..271111}"
proof -
  let ?G = "{g. P (seed e g)} \<inter> {1..<400001}"
  have "length (filter P (map (seed e) [1..<400001])) = card ?G"
    by (simp add: filter_map comp_def distinct_length_filter del: upt_Suc)
  moreover have "card {1..269999::nat} \<le> card ?G" by (rule card_mono) (use assms(2) in auto)
  moreover have "card ?G \<le> card {1..271111::nat}" by (rule card_mono) (use assms(1) in auto)
  ultimately show ?thesis by simp
qed

lemma group_line_rows:
  assumes "mset (filter (\<lambda>r. customer r = c) (if arch then cold_rows s else hot s)) = mset (map row [a..<b])" and "a < b"
    and "mono (\<lambda>k. created (row k) div day)"
  shows "group_line c s arch = [(arch, b - a, created (row a) div day, created (row (b - 1)) div day)]"
proof -
  let ?T = "if arch then cold_rows s else hot s" and ?d = "\<lambda>k. created (row k) div day"
  let ?days = "map (\<lambda>r. created r div day) (filter (\<lambda>r. customer r = c) ?T)"
  have g: "map (\<lambda>(r, _). created r div day) (filter (\<lambda>(r, x). x = arch \<and> customer r = c) (orders_all s)) = ?days"
    by (simp add: orders_all_def filter_map comp_def)
  have m: "mset ?days = mset (map ?d [a..<b])"
    using arg_cong [OF assms(1), of "image_mset (\<lambda>r. created r div day)"] by (simp add: multiset.map_comp comp_def)
  then have "length ?days = b - a" "set ?days = ?d ` {a..<b}"
    using mset_eq_length [OF m] mset_eq_setD [OF m] by simp_all
  moreover have "Min (?d ` {a..<b}) = ?d a" "Max (?d ` {a..<b}) = ?d (b - 1)"
    using assms(2) by (auto intro!: Min_eqI Max_eqI monoD [OF assms(3)])
  moreover have "?days \<noteq> []" using calculation(1) assms(2) by auto
  ultimately show ?thesis unfolding group_line_def g Let_def by simp
qed

text \<open>After the archiver: which rows it moved, seen from customer 42, and how many.\<close>

lemma mono_seed_days: "mono (\<lambda>k. created (of_42 e k) div day)"
  by (rule monoI, rule zdiv_mono1) (simp_all add: created_seed day_def)

lemma filter_below: "b \<le> n \<Longrightarrow> filter (\<lambda>k. k < (b::nat)) [0..<n] = [0..<b]" "b \<le> n \<Longrightarrow> filter (\<lambda>k. b \<le> k) [0..<n] = [b..<n]"
  using upt_add_eq_append [of 0 b "n - b"] by simp_all

lemma archived_seed:
  assumes "answering e" and "on_time e" and s0: "s0 = seed_orders (seed_now e) (three_years e) (amount e) s"
  obtains n s1 Q where "archive (batches e) (one_year e) 25000 s0 = (Some n, s1)" "n \<in> {269999..271111}" "length (hot s1) + n = 400000"
    "hot s1 = filter Q (map (seed e) [1..<400001])" "mset (cold_rows s1) = mset (filter (\<lambda>r. \<not> Q r) (map (seed e) [1..<400001]))"
    "one_place s1" "Q (seed e 399990)" "\<not> Q (seed e 1234)" "\<And>k. k < 20 \<Longrightarrow> Q (of_42 e k) \<longleftrightarrow> 14 \<le> k"
proof -
  have h: "hot s0 = map (seed e) [1..<400001]" "cold_rows s0 = []"
    by (simp_all add: s0 seed_orders_def seed_def cold_rows_def del: upt_Suc)
  have one: "one_place s0"
    by (simp add: one_place_def h distinct_map inj_on_def seed_def seed_row_sel del: upt_Suc)
  have b: "\<forall>i. fst (snd (batches e i)) = {} \<and> snd (snd (batches e i)) = Done \<and> seed_now e \<le> fst (batches e i) \<and> fst (batches e i) \<le> seed_now e + day"
    using assms(1,2) by (auto simp: answering_def on_time_def soon_def)
  have pos: "0 < (25000 :: nat)" by simp
  obtain n s1 Q where r: "archive (batches e) (one_year e) 25000 s0 = (Some n, s1)" "hot s1 = filter Q (hot s0)" "length (hot s1) + n = length (hot s0)"
    "mset (cold_rows s1) = mset (cold_rows s0) + mset (filter (\<lambda>r. \<not> Q r) (hot s0))" "one_place s1" "files s1 = files s0"
    and low: "\<forall>r \<in> set (hot s0). status r = ''delivered'' \<and> created r < seed_now e - one_year e \<longrightarrow> \<not> Q r"
    and up: "\<forall>r \<in> set (hot s0). \<not> Q r \<longrightarrow> status r = ''delivered'' \<and> created r < seed_now e + day - one_year e"
    by (rule archive_answers [OF pos one b, where age = "one_year e"])
  have mem: "seed e g \<in> set (hot s0)" if "1 \<le> g" "g \<le> 400000" for g
    unfolding h set_map using that by (intro imageI) (simp del: upt_Suc)
  have soon: "soon e (seed_now e + day)" by (simp add: soon_def day_def)
  have old: "\<not> Q (seed e g)" if "1 \<le> g" "g \<le> 269999" for g
    using low mem [of g] status_seed [of g] year_limits(1) [OF assms(2) soon, of g] that by simp
  have young: "g \<le> 271111" if "1 \<le> g" "g \<le> 400000" "\<not> Q (seed e g)" for g
    using year_limits(2) [OF assms(2) soon, of g] up mem [OF that(1,2)] that(3) by blast
  have "length (filter (\<lambda>r. \<not> Q r) (hot s0)) = n"
    using r(2,3) sum_length_filter_compl [of Q "hot s0"] by simp
  moreover have "length (filter (\<lambda>r. \<not> Q r \<or> oid r = 0) (map (seed e) [1..<400001])) \<in> {269999..271111}"
  proof (rule count_seeds)
    show "g \<le> 269999 \<Longrightarrow> \<not> Q (seed e g) \<or> oid (seed e g) = 0" for g using old [of g] by (cases "g = 0") (simp_all add: seed_def seed_row_sel)
  qed (use young in \<open>auto simp: seed_def seed_row_sel\<close>)
  moreover have "filter (\<lambda>r. \<not> Q r \<or> oid r = 0) (hot s0) = filter (\<lambda>r. \<not> Q r) (hot s0)"
    by (rule filter_cong) (auto simp: h seed_def seed_row_sel)
  ultimately have n: "n \<in> {269999..271111}" by (simp only: h)
  have k42: "Q (of_42 e k) \<longleftrightarrow> 14 \<le> k" if "k < 20" for k
  proof (cases "14 \<le> k")
    case True
    with young [of "42 + 20000 * k"] that show ?thesis by linarith
  next
    case False
    with old [of "42 + 20000 * k"] show ?thesis by simp
  qed
  show thesis
  proof (rule that [OF r(1) n _ r(2) [unfolded h(1)] _ r(5) _ _ k42])
    show "length (hot s1) + n = 400000" using r(3) by (simp add: h(1) del: upt_Suc)
    show "mset (cold_rows s1) = mset (filter (\<lambda>r. \<not> Q r) (map (seed e) [1..<400001]))" using r(4) by (simp only: h) simp
    show "Q (seed e 399990)" using young [of 399990] by auto
    show "\<not> Q (seed e 1234)" by (rule old) simp_all
  qed
qed

lemma seed_42: "filter (\<lambda>r. customer r = 42) (map (seed e) [1..<400001]) = map (of_42 e) [0..<20]"
  using rows_of_42 [of "seed_now e" "three_years e" "amount e"] unfolding seed_def .

text \<open>The last part of the run: the restored order and the file, for a table of which the archiver kept the rows with \<open>Q\<close>.\<close>

lemma archived_42:
  assumes "mset (cold_rows s1) = mset (filter (\<lambda>r. \<not> Q r) (map (seed e) [1..<400001]))"
    and "\<And>k. k < 20 \<Longrightarrow> Q (of_42 e k) \<longleftrightarrow> 14 \<le> k"
  shows "mset (filter (\<lambda>r. customer r = 42) (cold_rows s1)) = mset (map (of_42 e) [0..<14])"
proof -
  have "mset (filter (\<lambda>r. customer r = 42) (cold_rows s1)) = mset (filter (\<lambda>r. \<not> Q r) (filter (\<lambda>r. customer r = 42) (map (seed e) [1..<400001])))"
    unfolding mset_filter assms(1) filter_filter_mset by (simp only: conj_commute)
  moreover have "filter (\<lambda>r. \<not> Q r) (map (of_42 e) [0..<20]) = map (of_42 e) [0..<14]"
    unfolding filter_map comp_def filter_below(1) [of 14 20, simplified, symmetric]
    using assms(2) by (intro arg_cong [of _ _ "map (of_42 e)"] filter_cong) auto
  ultimately show ?thesis by (simp only: seed_42 filter_below)
qed

lemma kept_42:
  assumes "hot s1 = filter Q (map (seed e) [1..<400001])" and "\<And>k. k < 20 \<Longrightarrow> Q (of_42 e k) \<longleftrightarrow> 14 \<le> k"
  shows "filter (\<lambda>r. customer r = 42) (hot s1) = map (of_42 e) [14..<20]"
proof -
  have "filter (\<lambda>r. customer r = 42) (hot s1) = filter Q (filter (\<lambda>r. customer r = 42) (map (seed e) [1..<400001]))"
    by (simp only: assms(1) filter_filter conj_commute)
  also have "\<dots> = map (of_42 e) (filter (\<lambda>k. 14 \<le> k) [0..<20])"
    unfolding seed_42 using assms(2) by (simp only: filter_map comp_def) (rule arg_cong [of _ _ "map (of_42 e)"], rule filter_cong, auto)
  finally show ?thesis by (simp add: filter_below del: upt_Suc upt_rec_numeral)
qed

lemma filter_key: "distinct (map f xs) \<Longrightarrow> x \<in> set xs \<Longrightarrow> filter (\<lambda>y. f y = f x) xs = [x]"
  by (induction xs) (auto simp: filter_empty_conv rev_image_eqI)

lemma restored_and_exported:
  assumes "answering e" and "on_time e" and "one_place s1" and "hot s1 = filter Q (map (seed e) [1..<400001])"
    and cold: "mset (cold_rows s1) = mset (filter (\<lambda>r. \<not> Q r) (map (seed e) [1..<400001]))" and "\<not> Q (seed e 1234)"
    and k: "\<And>k. k < 20 \<Longrightarrow> Q (of_42 e k) \<longleftrightarrow> 14 \<le> k"
  obtains s2 s3 where "restore Done Done Done 1234 s1 = (Some (), s2)" "find_order Done Done 1234 s2 = ''hot''"
    "run_export e s2 = (Some (file_name (today e)), s3)" "length (hot s3) = length (hot s1) + 1"
    "query_file (file_queried e) (file_name (today e)) 42 s3 = (Some (7, \<Sum>k \<leftarrow> [0..<7]. amount e (42 + 20000 * k)), s3)"
proof -
  have "set (cold_rows s1) = set (filter (\<lambda>r. \<not> Q r) (map (seed e) [1..<400001]))" by (rule mset_eq_setD [OF cold])
  then have m: "seed e 1234 \<in> set (cold_rows s1)" using assms(6) by (simp del: upt_Suc)
  then have i: "1234 \<in> oid ` set (cold_rows s1)" by (rule rev_image_eqI) (simp add: seed_def seed_row_sel)
  then have none: "1234 \<notin> oid ` set (hot s1)" using assms(3) by (auto simp: one_place_def)
  then obtain s2 where s2: "restore_stmt 1234 s1 = (Inr (), s2)" by (simp add: restore_stmt_def Let_def)
  then have r: "restore Done Done Done 1234 s1 = (Some (), s2)" by (simp add: restore_def begin_func_Done stmt_Done)
  note t = restore_tables [OF s2]
  let ?old = "\<lambda>r. created r < export_now e - two_years e"
  let ?s3 = "s2\<lparr>files := (files s2)(file_name (today e) \<mapsto> to_export (export_now e) (two_years e) s2), cold := filter (\<lambda>(r, _). \<not> ?old r) (cold s2)\<rparr>"
  have x: "run_export e s2 = (Some (file_name (today e)), ?s3)"
    using assms(1) by (simp add: run_export_def answering_def export_def Let_def)
  have "distinct (map oid (cold_rows s1))" using assms(3) by (simp add: one_place_def)
  from filter_key [OF this m] have one: "length (hot s2) = length (hot s1) + 1"
    by (simp add: t(1) seed_def seed_row_sel)
  have "mset (filter (\<lambda>r. customer r = 42) (to_export (export_now e) (two_years e) s2)) =
      mset (filter ?old (filter (\<lambda>r. oid r \<noteq> 1234) (filter (\<lambda>r. customer r = 42) (cold_rows s1))))"
    by (simp add: to_export_def t(3) filter_filter_mset conj_ac)
  also have "\<dots> = mset (filter ?old (filter (\<lambda>r. oid r \<noteq> 1234) (map (of_42 e) [0..<14])))"
    using archived_42 [OF cold k] by (simp only: mset_filter)
  also have "filter (\<lambda>r. oid r \<noteq> 1234) (map (of_42 e) [0..<14]) = map (of_42 e) [0..<14]"
  proof (rule filter_True, rule ballI)
    fix r
    assume "r \<in> set (map (of_42 e) [0..<14])"
    then obtain k where "oid r = 42 + 20000 * int k" by (auto simp: seed_def seed_row_sel)
    then show "oid r \<noteq> 1234" by (cases k) simp_all
  qed
  also have "filter ?old (map (of_42 e) [0..<14]) = map (of_42 e) [0..<7]"
    unfolding filter_map comp_def filter_below(1) [of 7 14, simplified, symmetric]
  proof (intro arg_cong [of _ _ "map (of_42 e)"] filter_cong refl)
    fix k
    have "soon e (export_now e)" using assms(2) by (simp add: on_time_def)
    from year_limits(3,4) [OF assms(2) this, of "42 + 20000 * k"] show "?old (of_42 e k) \<longleftrightarrow> k < 7" by linarith
  qed
  finally have f: "mset (filter (\<lambda>r. customer r = 42) (to_export (export_now e) (two_years e) s2)) = mset (map (of_42 e) [0..<7])" .
  have "(\<Sum>r \<leftarrow> filter (\<lambda>r. customer r = 42) (to_export (export_now e) (two_years e) s2). total r) = (\<Sum>r \<leftarrow> map (of_42 e) [0..<7]. total r)"
    by (simp only: sum_mset_sum_list [symmetric] mset_map f)
  with mset_eq_length [OF f] have "cold_file_query (file_name (today e)) 42 ?s3 = Some (7, \<Sum>k \<leftarrow> [0..<7]. amount e (42 + 20000 * k))"
    by (simp add: cold_file_query_def Let_def comp_def seed_def seed_row_sel del: upt_Suc upt_rec_numeral)
  then have q: "query_file (file_queried e) (file_name (today e)) 42 ?s3 = (Some (7, \<Sum>k \<leftarrow> [0..<7]. amount e (42 + 20000 * k)), ?s3)"
    using assms(1) by (simp add: query_file_def answering_def del: upt_Suc upt_rec_numeral)
  have "find_order Done Done 1234 s2 = ''hot''" using restore_finds [OF assms(3) i r] by simp
  from that [OF r this x _ q] one show thesis by simp
qed

lemma archived_found:
  assumes "one_place s1" and hot: "hot s1 = filter Q (map (seed e) [1..<400001])"
    and cold: "mset (cold_rows s1) = mset (filter (\<lambda>r. \<not> Q r) (map (seed e) [1..<400001]))" and "1 \<le> g" "g \<le> 400000"
  shows "find_order Done Done (int g) s1 = (if Q (seed e g) then ''hot'' else ''archive'')"
proof -
  have m: "seed e g \<in> set (map (seed e) [1..<400001])" unfolding set_map by (rule imageI) (use assms(4,5) in simp)
  have "int g \<in> oid ` set (hot s1)" if "Q (seed e g)"
    by (rule rev_image_eqI [of "seed e g"]) (use that m in \<open>simp_all only: hot set_filter mem_Collect_eq seed_def seed_row_sel simp_thms\<close>)
  moreover have "int g \<in> oid ` set (cold_rows s1)" if "\<not> Q (seed e g)"
    by (rule rev_image_eqI [of "seed e g"]) (use that m in \<open>simp_all only: mset_eq_setD [OF cold] set_filter mem_Collect_eq seed_def seed_row_sel simp_thms\<close>)
  moreover have "int g \<notin> oid ` set (hot s1) \<or> int g \<notin> oid ` set (cold_rows s1)" using assms(1) by (auto simp: one_place_def)
  ultimately show ?thesis by (auto simp: find_order_def)
qed

text \<open>The reads of a server that answers.\<close>

lemma time_runs_answers: "\<forall>x \<in> set runs. fst x = Done \<Longrightarrow> \<exists>t. time_runs runs best s = (Some t, s)"
  by (induction runs best s rule: time_runs.induct) simp_all

lemma reads_answer:
  assumes "answering e"
  shows "\<exists>l. print_tables (tables e k) s = (Some l, s)" "\<exists>t. time_query (scans e k) s = (Some t, s)" "\<exists>b. bytes_per_row (table_sizes e) s = (Some b, s)"
  using assms unfolding answering_def print_tables_def time_query_def bytes_per_row_def row_bytes_def
  by (simp_all add: time_runs_answers split: prod.split) (metis fst_conv)

lemma count_old_answers:
  assumes "answering e" and "on_time e"
  obtains n where "count_old (old_counted e) (one_year e) (seed_orders (seed_now e) (three_years e) (amount e) s) =
    (Some n, seed_orders (seed_now e) (three_years e) (amount e) s)" "n \<in> {269999..271111}"
proof -
  have "soon e (snd (old_counted e))" using assms(2) by (simp add: on_time_def)
  then have "length (filter (\<lambda>r. created r < snd (old_counted e) - one_year e) (map (seed e) [1..<400001])) \<in> {269999..271111}"
    by (intro count_seeds) (use year_limits [OF assms(2)] in \<open>fastforce simp: soon_def\<close>)+
  moreover have "hot (seed_orders (seed_now e) (three_years e) (amount e) s) = map (seed e) [1..<400001]"
    by (simp add: seed_orders_def seed_def del: upt_Suc)
  moreover have "fst (old_counted e) = Done" using assms(1) by (simp add: answering_def)
  ultimately show thesis by (intro that) (simp_all only: count_old_def err_of.simps if_True simp_thms)
qed

text \<open>
  On a server that answers, \<open>main\<close> archives the orders older than a year, about 270000 of the 400000; of customer 42's twenty orders
  6 stay in the hot table, 14 are in the archive, and 7 of those end up in the file, with their amounts; order 399990 is found in the hot
  table, order 1234 in the archive and, restored, in the hot table.
\<close>

theorem archival_main_result:
  assumes "answering e" and "on_time e"
  shows "\<exists>x s'. archival_main e s = (Some x, s') \<and>
    by_table x = [(False, 6, created (of_42 e 14) div day, created (of_42 e 19) div day), (True, 14, created (of_42 e 0) div day, created (of_42 e 13) div day)] \<and>
    cold_answer x = (7, \<Sum>k \<leftarrow> [0..<7]. amount e (42 + 20000 * k)) \<and> found_in x = [''hot'', ''archive''] \<and> found_restored x = ''hot'' \<and>
    old_orders x \<in> {269999..271111} \<and> archived_rows x \<in> {269999..271111} \<and> length (hot s') = 400000 - archived_rows x + 1"
proof -
  let ?s0 = "seed_orders (seed_now e) (three_years e) (amount e) s"
  obtain n s1 Q where a: "archive (batches e) (one_year e) 25000 ?s0 = (Some n, s1)" "n \<in> {269999..271111}" "length (hot s1) + n = 400000"
    "hot s1 = filter Q (map (seed e) [1..<400001])" "mset (cold_rows s1) = mset (filter (\<lambda>r. \<not> Q r) (map (seed e) [1..<400001]))"
    "one_place s1" "Q (seed e 399990)" "\<not> Q (seed e 1234)" "\<And>k. k < 20 \<Longrightarrow> Q (of_42 e k) \<longleftrightarrow> 14 \<le> k"
    using archived_seed [OF assms refl] by blast
  obtain old where o: "count_old (old_counted e) (one_year e) ?s0 = (Some old, ?s0)" "old \<in> {269999..271111}"
    by (rule count_old_answers [OF assms])
  obtain l1 l2 t1 t2 bs where reads: "print_tables (tables e 0) ?s0 = (Some l1, ?s0)" "time_query (scans e 0) ?s0 = (Some t1, ?s0)"
    "print_tables (tables e 1) s1 = (Some l2, s1)" "time_query (scans e 1) s1 = (Some t2, s1)" "bytes_per_row (table_sizes e) s1 = (Some bs, s1)"
    using reads_answer [OF assms(1)] by metis
  obtain s2 s3 where r: "restore Done Done Done 1234 s1 = (Some (), s2)" "find_order Done Done 1234 s2 = ''hot''"
    "run_export e s2 = (Some (file_name (today e)), s3)" "length (hot s3) = length (hot s1) + 1"
    "query_file (file_queried e) (file_name (today e)) 42 s3 = (Some (7, \<Sum>k \<leftarrow> [0..<7]. amount e (42 + 20000 * k)), s3)"
    by (rule restored_and_exported [OF assms a(6,4,5,8,9)])
  have calm: "seeded e = Done" "vacuumed e = Done" "compacted e = Done" "analyzed e = Done" "finds e k = (Done, Done)" "restoring e = (Done, Done, Done)"
    "fst (reported e) = Done" "2 \<le> snd (reported e)" for k using assms(1) by (simp_all add: answering_def)
  let ?lines = "[(False, 6, created (of_42 e 14) div day, created (of_42 e 19) div day), (True, 14, created (of_42 e 0) div day, created (of_42 e 13) div day)]"
  have lines: "customer_report (fst (reported e)) (snd (reported e)) 42 s1 = (Some ?lines, s1)"
    using group_line_rows [of 42 False s1 "of_42 e" 14 20, OF _ _ mono_seed_days] kept_42 [OF a(4,9)]
      group_line_rows [of 42 True s1 "of_42 e" 0 14, OF _ _ mono_seed_days] archived_42 [OF a(5,9)] calm(7,8)
    by (simp add: customer_report_def)
  have found: "find_all (finds e) 0 [399990, 1234] s1 = [''hot'', ''archive'']"
    using archived_found [OF a(6,4,5), of 399990] archived_found [OF a(6,4,5), of 1234] a(7,8) calm(5) by simp
  have "archival_main e s = (Some \<lparr>tables_before = l1, scan_before = t1, old_orders = old, archived_rows = n, tables_after = l2, scan_after = t2,
       bytes = bs, by_table = ?lines, found_in = [''hot'', ''archive''], found_restored = ''hot'',
       cold_answer = (7, \<Sum>k \<leftarrow> [0..<7]. amount e (42 + 20000 * k))\<rparr>, s3)"
    unfolding archival_main_def
    by (simp only: and_then_def must_def give_def calm err_of.simps applied.simps if_True id_apply prod.case option.case simp_thms fst_conv snd_conv
       reads o(1) a(1) lines [unfolded calm(7)] found r(1,2,3,5))
  with a(2,3) o(2) r(4) show ?thesis by (simp del: upt_Suc upt_rec_numeral)
qed

theorem archival_main_result_witness:
  "\<exists>x s'. archival_main calm_day \<lparr>hot = [], cold = [], files = Map.empty\<rparr> = (Some x, s') \<and> map (\<lambda>(a, n, _). (a, n)) (by_table x) = [(False, 6), (True, 14)] \<and>
     fst (cold_answer x) = 7 \<and> found_restored x = ''hot''"
proof -
  have "answering calm_day" "on_time calm_day"
    by (simp_all add: answering_def on_time_def soon_def calm_day_def day_def)
  from archival_main_result [OF this, of "\<lparr>hot = [], cold = [], files = Map.empty\<rparr>"] show ?thesis by fastforce
qed

end
