(* ===== verification/NewSql.thy ===== *)
theory NewSql
  imports GoStd
begin

text \<open>
  \<open>simulate_newsql/main.go\<close>: money transfers in SERIALIZABLE transactions that are retried on
  serialization failures. Serializable isolation means that committed transactions behave as if
  run one after the other, so concurrent transfers are a list of transfers in commit order, each
  with its own history of conflicts.
\<close>

section \<open>Accounts\<close>

record account =
  acct_owner :: string
  balance :: int

type_synonym accounts = "string \<rightharpoonup> account"

definition setup_schema :: "accounts \<Rightarrow> accounts" where
  "setup_schema a = a(''alice'' \<mapsto> \<lparr>acct_owner = ''Alice Wong'', balance = 10000\<rparr>,
                      ''bob'' \<mapsto> \<lparr>acct_owner = ''Bob Singh'', balance = 10000\<rparr>)"

datatype txn_error = Db db_error | Insufficient string | GaveUp nat

definition int8 :: "int \<Rightarrow> bool" where
  "int8 x \<longleftrightarrow> - (2 ^ 63) \<le> x \<and> x < 2 ^ 63"

text \<open>\<open>UPDATE ... SET balance = balance + d WHERE id = k\<close>: no row is no error.\<close>

definition add_balance :: "int \<Rightarrow> string \<Rightarrow> accounts \<Rightarrow> (txn_error + unit) \<times> accounts" where
  "add_balance d k a =
     (case a k of
        None \<Rightarrow> (Inr (), a)
      | Some x \<Rightarrow>
          if int8 (balance x + d) then (Inr (), a(k \<mapsto> x\<lparr>balance := balance x + d\<rparr>))
          else (Inl (Db (Sqlstate ''22003'')), a))"

definition read_balance :: "string \<Rightarrow> accounts \<Rightarrow> (txn_error + int) \<times> accounts" where
  "read_balance k a = (case a k of None \<Rightarrow> (Inl (Db NoRows), a) | Some x \<Rightarrow> (Inr (balance x), a))"

text \<open>A statement of the transaction, with its outcome.\<close>

definition txn_stmt :: "outcome \<Rightarrow> ('s \<Rightarrow> (txn_error + 'a) \<times> 's) \<Rightarrow> 's \<Rightarrow> (txn_error + 'a) \<times> 's" where
  "txn_stmt r f s = (case err_of r of None \<Rightarrow> f s | Some e \<Rightarrow> (Inl (Db e), s))"

definition transfer_body :: "(nat \<Rightarrow> outcome) \<Rightarrow> string \<Rightarrow> string \<Rightarrow> int \<Rightarrow> accounts \<Rightarrow> (txn_error + unit) \<times> accounts" where
  "transfer_body env from to amount =
     bind_tx (txn_stmt (env 0) (read_balance from)) (\<lambda>bal.
       if bal < amount then (\<lambda>a. (Inl (Insufficient from), a))
       else bind_tx (txn_stmt (env 1) (add_balance (- amount) from)) (\<lambda>_.
            txn_stmt (env 2) (add_balance amount to)))"

section \<open>retryTxn\<close>

definition serialization_failure :: "txn_error \<Rightarrow> bool" where
  "serialization_failure e \<longleftrightarrow> e = Db (Sqlstate ''40001'')"

text \<open>
  \<open>begins\<close> and \<open>commits\<close> are the outcomes of BEGIN and COMMIT per attempt; \<open>fn\<close> is given the attempt
  because its statements have their own outcomes. The result is the error, if any.
\<close>

fun retry_loop :: "(nat \<Rightarrow> outcome) \<Rightarrow> (nat \<Rightarrow> outcome) \<Rightarrow> (nat \<Rightarrow> 's \<Rightarrow> (txn_error + unit) \<times> 's) \<Rightarrow> nat \<Rightarrow> nat \<Rightarrow> 's
    \<Rightarrow> txn_error option \<times> 's" where
  "retry_loop begins commits fn attempt 0 s = (Some (GaveUp 10), s)"
| "retry_loop begins commits fn attempt (Suc left) s =
     (case err_of (begins attempt) of
        Some e \<Rightarrow> (Some (Db e), s)
      | None \<Rightarrow>
          (let (err, s1) =
             (case fn attempt s of
                (Inl e, _) \<Rightarrow> (Some e, s)
              | (Inr _, s') \<Rightarrow> (map_option Db (err_of (commits attempt)),
                              if applied (commits attempt) then s' else s))
           in case err of
                None \<Rightarrow> (None, s1)
              | Some e \<Rightarrow>
                  if serialization_failure e then retry_loop begins commits fn (Suc attempt) left s1
                  else (Some e, s1)))"

definition retry_txn :: "(nat \<Rightarrow> outcome) \<Rightarrow> (nat \<Rightarrow> outcome) \<Rightarrow> (nat \<Rightarrow> 's \<Rightarrow> (txn_error + unit) \<times> 's) \<Rightarrow> 's
    \<Rightarrow> txn_error option \<times> 's" where
  "retry_txn begins commits fn s = retry_loop begins commits fn 0 10 s"

definition transfer :: "(nat \<Rightarrow> outcome) \<Rightarrow> (nat \<Rightarrow> outcome) \<Rightarrow> (nat \<Rightarrow> nat \<Rightarrow> outcome) \<Rightarrow> string \<Rightarrow> string \<Rightarrow> int
    \<Rightarrow> accounts \<Rightarrow> txn_error option \<times> accounts" where
  "transfer begins commits env from to amount =
     retry_txn begins commits (\<lambda>attempt. transfer_body (env attempt) from to amount)"

text \<open>
  \<open>concurrentTransfers\<close>: the goroutines' transfers in the order in which they take effect; the
  number is how many reported success.
\<close>

type_synonym history = "(nat \<Rightarrow> outcome) \<times> (nat \<Rightarrow> outcome) \<times> (nat \<Rightarrow> nat \<Rightarrow> outcome)"

fun run_transfers :: "(history \<times> string \<times> string \<times> int) list \<Rightarrow> accounts \<Rightarrow> nat \<times> accounts" where
  "run_transfers [] a = (0, a)"
| "run_transfers (((b, c, e), from, to, amount) # ts) a =
     (let (err, a1) = transfer b c e from to amount a;
          (n, a2) = run_transfers ts a1
      in (if err = None then Suc n else n, a2))"

definition concurrent_transfers :: "history list \<Rightarrow> accounts \<Rightarrow> nat \<times> accounts" where
  "concurrent_transfers hs a = run_transfers (map (\<lambda>h. (h, ''bob'', ''alice'', 100)) (take 8 hs)) a"

section \<open>What a retried transaction can do\<close>

text \<open>A commit answered with 40001 was rolled back: that is what the code of the error means.\<close>

definition honest :: "(nat \<Rightarrow> outcome) \<Rightarrow> bool" where
  "honest commits \<longleftrightarrow> (\<forall>i. commits i \<noteq> Lost (Sqlstate ''40001''))"

lemma retry_loop_once:
  assumes "honest commits" and "retry_loop begins commits fn attempt left s = (err, s')"
  shows "(s' = s \<and> err \<noteq> None) \<or> (\<exists>i. fn i s = (Inr (), s') \<and> (err = None \<or> applied (commits i)))"
  using assms(2)
proof (induction left arbitrary: attempt s)
  case (Suc left)
  show ?case
  proof (cases "err_of (begins attempt)")
    case (Some e)
    with Suc.prems show ?thesis by auto
  next
    case b: None
    obtain x s1 where f: "fn attempt s = (x, s1)" by fastforce
    show ?thesis
    proof (cases x)
      case (Inl e)
      with b f Suc show ?thesis by (auto split: if_splits)
    next
      case (Inr u)
      show ?thesis
      proof (cases "commits attempt")
        case Done
        with b f Inr Suc.prems show ?thesis by auto
      next
        case (Refused e)
        with b f Inr Suc show ?thesis by (auto split: if_splits)
      next
        case (Lost e)
        with assms(1) have "e \<noteq> Sqlstate ''40001''" by (auto simp: honest_def)
        with b f Inr Lost Suc.prems have "s' = s1" by (auto simp: serialization_failure_def split: if_splits)
        with f Inr Lost show ?thesis by auto
      qed
    qed
  qed
qed auto

lemma transfer_body_ok:
  assumes "transfer_body env from to amount a = (Inr (), a')"
  obtains x where "a from = Some x" "amount \<le> balance x"
    "snd (add_balance amount to (a(from \<mapsto> x\<lparr>balance := balance x - amount\<rparr>))) = a'"
    "fst (add_balance amount to (a(from \<mapsto> x\<lparr>balance := balance x - amount\<rparr>))) = Inr ()"
  using assms
  by (auto simp: transfer_body_def tx_simps txn_stmt_def bind_tx_def read_balance_def add_balance_def [of "- amount"]
      split: option.splits if_splits prod.splits sum.splits)

definition sum_balances :: "accounts \<Rightarrow> int" where
  "sum_balances a = (\<Sum>k \<in> dom a. balance (the (a k)))"

lemma sum_balances_update:
  assumes "finite (dom a)" and "a k = Some x"
  shows "sum_balances (a(k \<mapsto> y)) = sum_balances a - balance x + balance y"
proof -
  have d: "dom (a(k \<mapsto> y)) = dom a" "k \<in> dom a" using assms(2) by auto
  have "sum_balances (a(k \<mapsto> y)) = balance y + (\<Sum>j \<in> dom a - {k}. balance (the (a j)))"
    unfolding sum_balances_def d(1) using assms(1) d(2)
    by (subst sum.remove [of "dom a" k]) (auto intro!: sum.cong)
  moreover have "sum_balances a = balance x + (\<Sum>j \<in> dom a - {k}. balance (the (a j)))"
    unfolding sum_balances_def using assms d(2)
    by (subst sum.remove [of "dom a" k]) auto
  ultimately show ?thesis by simp
qed

definition solvent :: "accounts \<Rightarrow> bool" where
  "solvent a \<longleftrightarrow> (\<forall>k x. a k = Some x \<longrightarrow> 0 \<le> balance x)"

lemma transfer_body_effect:
  assumes "transfer_body env from to amount a = (Inr (), a')" and "finite (dom a)" and "to \<in> dom a"
  shows "dom a' = dom a \<and> sum_balances a' = sum_balances a \<and> (0 \<le> amount \<longrightarrow> solvent a \<longrightarrow> solvent a')"
proof -
  from transfer_body_ok [OF assms(1)] obtain x where x: "a from = Some x" "amount \<le> balance x"
    and r: "snd (add_balance amount to (a(from \<mapsto> x\<lparr>balance := balance x - amount\<rparr>))) = a'"
    and ok: "fst (add_balance amount to (a(from \<mapsto> x\<lparr>balance := balance x - amount\<rparr>))) = Inr ()" .
  let ?a1 = "a(from \<mapsto> x\<lparr>balance := balance x - amount\<rparr>)"
  from assms(3) obtain y where y: "?a1 to = Some y" by (cases "to = from") auto
  with r ok have a': "a' = ?a1(to \<mapsto> y\<lparr>balance := balance y + amount\<rparr>)"
    by (auto simp: add_balance_def split: if_splits)
  have f: "finite (dom ?a1)" using assms(2) by simp
  have "sum_balances a' = sum_balances ?a1 + amount"
    unfolding a' sum_balances_update [OF f y] by simp
  moreover have "sum_balances ?a1 = sum_balances a - amount"
    unfolding sum_balances_update [OF assms(2) x(1)] by simp
  ultimately have "sum_balances a' = sum_balances a" by simp
  moreover have "dom a' = dom a" using x(1) assms(3) by (auto simp: a')
  moreover have "solvent a'" if "0 \<le> amount" "solvent a"
    using that x y by (auto simp: a' solvent_def split: if_splits)
  ultimately show ?thesis by blast
qed

lemma transfer_effect:
  assumes "honest c" and "finite (dom a)" and "to \<in> dom a" and "transfer b c env from to amount a = (err, a')"
  shows "dom a' = dom a \<and> sum_balances a' = sum_balances a \<and> (0 \<le> amount \<longrightarrow> solvent a \<longrightarrow> solvent a')"
  using retry_loop_once [OF assms(1) assms(4) [unfolded transfer_def retry_txn_def]]
    transfer_body_effect [OF _ assms(2,3)] by blast

section \<open>Properties\<close>

definition bank :: accounts where
  "bank = setup_schema Map.empty"

definition calm :: history where
  "calm = ((\<lambda>_. Done), (\<lambda>_. Done), (\<lambda>_ _. Done))"

definition contended :: history where
  "contended = ((\<lambda>_. Done), (\<lambda>i. if i < 3 then Refused (Sqlstate ''40001'') else Done), (\<lambda>_ _. Done))"

lemma bank_facts: "finite (dom bank)" "dom bank = {''alice'', ''bob''}" "sum_balances bank = 20000" "solvent bank"
  by (auto simp: bank_def setup_schema_def sum_balances_def solvent_def)

text \<open>C21: Concurrent transfers between existing accounts, with any conflicts, retries, refusals and
  lost acknowledgements, keep the total of all balances, and with amounts that are not negative
  no account goes below zero.\<close>

theorem transfers_conserve_money:
  assumes "finite (dom a)" and "\<forall>((b, c, e), from, to, amount) \<in> set ts. honest c \<and> to \<in> dom a"
    and "run_transfers ts a = (n, a')"
  shows "dom a' = dom a \<and> sum_balances a' = sum_balances a \<and>
    ((\<forall>(h, from, to, amount) \<in> set ts. 0 \<le> amount) \<longrightarrow> solvent a \<longrightarrow> solvent a')"
  using assms
proof (induction ts arbitrary: a n)
  case (Cons t ts)
  obtain b c e "from" to amount where t: "t = ((b, c, e), from, to, amount)" by (metis surj_pair)
  obtain err a1 where 1: "transfer b c e from to amount a = (err, a1)" by fastforce
  obtain m where 2: "run_transfers ts a1 = (m, a')"
    using Cons.prems(3) by (auto simp: t 1 split: prod.splits)
  from Cons.prems(2) have "honest c" "to \<in> dom a" by (auto simp: t)
  note e1 = transfer_effect [OF this(1) Cons.prems(1) this(2) 1]
  have "finite (dom a1)" "\<forall>((b, c, e), from, to, amount) \<in> set ts. honest c \<and> to \<in> dom a1"
    using e1 Cons.prems(1,2) by auto
  from Cons.IH [OF this 2] e1 show ?case by (auto simp: t)
qed simp

theorem transfers_conserve_money_witness:
  "\<exists>n a'. run_transfers [(contended, ''alice'', ''bob'', 4000), (calm, ''bob'', ''alice'', 100)] bank = (n, a') \<and>
     sum_balances a' = 20000 \<and> solvent a'"
proof -
  obtain n a' where r: "run_transfers [(contended, ''alice'', ''bob'', 4000), (calm, ''bob'', ''alice'', 100)] bank = (n, a')"
    by fastforce
  have "\<forall>((b, c, e), from, to, amount) \<in> set [(contended, ''alice'', ''bob'', 4000), (calm, ''bob'', ''alice'', 100)].
      honest c \<and> to \<in> dom bank"
    by (simp add: contended_def calm_def honest_def bank_facts)
  from transfers_conserve_money [OF bank_facts(1) this r] r show ?thesis by (simp add: bank_facts)
qed

text \<open>A transfer that reports success was applied exactly once, whatever attempts failed before:
  the accounts are those of one run of the body, not of several.\<close>

theorem transfer_exactly_once:
  assumes "honest c" and "transfer b c env from to amount a = (None, a')"
  shows "\<exists>i. transfer_body (env i) from to amount a = (Inr (), a')"
  using retry_loop_once [OF assms(1) assms(2) [unfolded transfer_def retry_txn_def]] by auto

theorem transfer_exactly_once_witness:
  "\<exists>i a'. transfer_body (\<lambda>_. Done) ''alice'' ''bob'' 4000 bank = (Inr (), a') \<and>
     transfer (\<lambda>_. Done) (fst (snd contended)) (\<lambda>_ _. Done) ''alice'' ''bob'' 4000 bank = (None, a')"
proof -
  have ten: "(10 :: nat) = Suc (Suc (Suc (Suc (Suc (Suc (Suc (Suc (Suc (Suc 0)))))))))" by simp
  have "honest (fst (snd contended))" by (simp add: contended_def honest_def)
  moreover obtain a' where "transfer (\<lambda>_. Done) (fst (snd contended)) (\<lambda>_ _. Done) ''alice'' ''bob'' 4000 bank = (None, a')"
    by (simp add: transfer_def retry_txn_def ten transfer_body_def bind_tx_def txn_stmt_def read_balance_def
        add_balance_def bank_def setup_schema_def contended_def serialization_failure_def int8_def)
  ultimately show ?thesis using transfer_exactly_once by blast
qed

text \<open>Conflicts on fewer than ten attempts do not make a transaction fail.\<close>

lemma retry_succeeds:
  assumes "\<forall>i. begins i = Done" and "fn k s = (Inr (), s')" and "commits k = Done" and "k < attempt + left" "attempt \<le> k"
    and "\<forall>i. attempt \<le> i \<longrightarrow> i < k \<longrightarrow> (\<exists>x. fn i s = (Inl (Db (Sqlstate ''40001'')), x)) \<or>
           (\<exists>x. fn i s = (Inr (), x)) \<and> commits i = Refused (Sqlstate ''40001'')"
  shows "retry_loop begins commits fn attempt left s = (None, s')"
  using assms
proof (induction left arbitrary: attempt)
  case (Suc left)
  show ?case
  proof (cases "attempt = k")
    case True
    with Suc.prems show ?thesis by simp
  next
    case False
    then have "retry_loop begins commits fn attempt (Suc left) s = retry_loop begins commits fn (Suc attempt) left s"
      using Suc.prems(1,5) Suc.prems(6) [THEN spec [of _ attempt]] by (auto simp: serialization_failure_def)
    also have "\<dots> = (None, s')" using Suc False by (intro Suc.IH) auto
    finally show ?thesis .
  qed
qed simp

text \<open>A transfer to an account that does not exist reports success and the money is gone: the second
  UPDATE matches no row and the number of rows is not looked at.\<close>

theorem transfer_to_nobody_loses_money:
  assumes "a from = Some x" and "amount \<le> balance x" and "int8 (balance x - amount)" and "a to = None"
    and "finite (dom a)"
  shows "\<exists>a'. transfer (\<lambda>_. Done) (\<lambda>_. Done) (\<lambda>_ _. Done) from to amount a = (None, a') \<and>
    sum_balances a' = sum_balances a - amount"
proof -
  have "from \<noteq> to" using assms(1,4) by auto
  then have "transfer_body (\<lambda>_. Done) from to amount a = (Inr (), a(from \<mapsto> x\<lparr>balance := balance x - amount\<rparr>))"
    using assms(1-4) by (simp add: transfer_body_def bind_tx_def txn_stmt_def read_balance_def add_balance_def)
  then have "transfer (\<lambda>_. Done) (\<lambda>_. Done) (\<lambda>_ _. Done) from to amount a =
      (None, a(from \<mapsto> x\<lparr>balance := balance x - amount\<rparr>))"
    unfolding transfer_def retry_txn_def by (intro retry_succeeds [where k = 0]) auto
  moreover have "sum_balances (a(from \<mapsto> x\<lparr>balance := balance x - amount\<rparr>)) = sum_balances a - amount"
    unfolding sum_balances_update [OF assms(5,1)] by simp
  ultimately show ?thesis by blast
qed

theorem transfer_to_nobody_loses_money_witness:
  "\<exists>a'. transfer (\<lambda>_. Done) (\<lambda>_. Done) (\<lambda>_ _. Done) ''alice'' ''carol'' 4000 bank = (None, a') \<and>
     sum_balances a' = 16000"
proof -
  have "bank ''alice'' = Some \<lparr>acct_owner = ''Alice Wong'', balance = 10000\<rparr>" "bank ''carol'' = None"
    by (simp_all add: bank_def setup_schema_def)
  from transfer_to_nobody_loses_money [OF this(1) _ _ this(2) bank_facts(1), of 4000] show ?thesis
    by (simp add: bank_facts(3) int8_def)
qed

end
