(* ===== verification/NewSqlMain.thy ===== *)
theory NewSqlMain
  imports NewSql "HOL-Library.Char_ord" "HOL-Library.List_Lexorder"
begin

text \<open>
  The whole run of \<open>simulate_newsql/main.go\<close>: the connection to a cluster that is still starting, the
  schema, the ranges, one transfer, the eight concurrent transfers and the balances, with the lines
  that are printed. Standard error is a multiset: the goroutines log in any order.
\<close>

section \<open>Output\<close>

datatype newsql_line = Waiting | Connected | Banner | Heading nat | Created | Acid | Advice | Summary
  | Ranges int int | Nodes "int list" | Balance string int | CommittedOf nat nat

datatype newsql_log = RangesFailed db_error | NodesFailed db_error | BalancesFailed db_error | TransferFailed txn_error

record cluster =
  accts :: accounts
  printed :: "newsql_line list"
  logged :: "newsql_log multiset"

definition say :: "newsql_line list \<Rightarrow> cluster \<Rightarrow> unit option \<times> cluster" where
  "say ls s = (Some (), s\<lparr>printed := printed s @ ls\<rparr>)"

definition complain :: "newsql_log \<Rightarrow> cluster \<Rightarrow> unit option \<times> cluster" where
  "complain l s = (Some (), s\<lparr>logged := add_mset l (logged s)\<rparr>)"

section \<open>Connecting\<close>

text \<open>
  \<open>connectWithRetry\<close>: attempt \<open>i\<close> creates a pool and pings, with the outcomes \<open>tries i\<close>; the second number is the
  time slept, in seconds. Only the first failure prints a line.
\<close>

fun connect_loop :: "(nat \<Rightarrow> outcome \<times> outcome) \<Rightarrow> nat \<Rightarrow> nat \<Rightarrow> nat option \<times> nat" where
  "connect_loop tries i 0 = (None, 0)"
| "connect_loop tries i (Suc left) =
     (if err_of (fst (tries i)) = None \<and> err_of (snd (tries i)) = None then (Some i, 0)
      else (case connect_loop tries (Suc i) left of (r, slept) \<Rightarrow> (r, 2 + slept)))"

definition connect_with_retry :: "(nat \<Rightarrow> outcome \<times> outcome) \<Rightarrow> cluster \<Rightarrow> nat option \<times> cluster" where
  "connect_with_retry tries s =
     (case connect_loop tries 0 40 of (r, slept) \<Rightarrow> (r, if slept = 0 then s else s\<lparr>printed := printed s @ [Waiting]\<rparr>))"

section \<open>Statements\<close>

definition create_accounts :: "outcome \<times> outcome \<Rightarrow> cluster \<Rightarrow> unit option \<times> cluster" where
  "create_accounts r = and_then (must (fst r) id) (\<lambda>_. must (snd r) (\<lambda>s. s\<lparr>accts := setup_schema (accts s)\<rparr>))"

text \<open>\<open>showRanges\<close>: the cluster's answers are parameters; the scan error and \<open>rows.Err\<close> are not read, so the nodes are what the loop saw.\<close>

definition show_ranges :: "(outcome \<times> int \<times> int) \<times> (outcome \<times> int list) \<Rightarrow> cluster \<Rightarrow> unit option \<times> cluster" where
  "show_ranges r = (case r of ((rr, ranges, replicas), (rn, nodes)) \<Rightarrow>
     (case err_of rr of
        Some e \<Rightarrow> complain (RangesFailed e)
      | None \<Rightarrow> and_then (say [Ranges ranges replicas]) (\<lambda>_.
          (case err_of rn of Some e \<Rightarrow> complain (NodesFailed e) | None \<Rightarrow> say [Nodes nodes]))))"

text \<open>\<open>printBalances\<close>: ordered by id; the loop sees the first \<open>k\<close> rows. Amounts are cents.\<close>

definition balance_lines :: "accounts \<Rightarrow> newsql_line list" where
  "balance_lines a = map (\<lambda>k. Balance (acct_owner (the (a k))) (balance (the (a k)))) (sorted_list_of_set (dom a))"

definition print_balances :: "outcome \<times> nat \<Rightarrow> cluster \<Rightarrow> unit option \<times> cluster" where
  "print_balances r s =
     (case err_of (fst r) of
        Some e \<Rightarrow> complain (BalancesFailed e) s
      | None \<Rightarrow> say (take (snd r) (balance_lines (accts s))) s)"

definition must_transfer :: "history \<Rightarrow> string \<Rightarrow> string \<Rightarrow> int \<Rightarrow> cluster \<Rightarrow> unit option \<times> cluster" where
  "must_transfer h from to amount s =
     (case h of (b, c, env) \<Rightarrow> (case transfer b c env from to amount (accts s) of
        (err, a) \<Rightarrow> (if err = None then Some () else None, s\<lparr>accts := a\<rparr>)))"

text \<open>The errors the goroutines log, for the transfers in the order in which they take effect.\<close>

fun transfer_errors :: "(history \<times> string \<times> string \<times> int) list \<Rightarrow> accounts \<Rightarrow> txn_error list" where
  "transfer_errors [] a = []"
| "transfer_errors (((b, c, e), from, to, amount) # ts) a =
     (let (err, a1) = transfer b c e from to amount a
      in (case err of None \<Rightarrow> [] | Some x \<Rightarrow> [x]) @ transfer_errors ts a1)"

definition fire_transfers :: "(nat \<Rightarrow> history) \<Rightarrow> cluster \<Rightarrow> unit option \<times> cluster" where
  "fire_transfers hs s =
     (let ts = map (\<lambda>i. (hs i, ''bob'', ''alice'', 100)) [0..<8];
          (n, a) = run_transfers ts (accts s)
      in (Some (), s\<lparr>accts := a, printed := printed s @ [CommittedOf n 8],
            logged := logged s + mset (map TransferFailed (transfer_errors ts (accts s)))\<rparr>))"

section \<open>The run\<close>

record newsql_env =
  tries :: "nat \<Rightarrow> outcome \<times> outcome"
  schema :: "outcome \<times> outcome"
  ranges_read :: "(outcome \<times> int \<times> int) \<times> (outcome \<times> int list)"
  paying :: history
  read_once :: "outcome \<times> nat"
  goroutines :: "nat \<Rightarrow> history"
  read_twice :: "outcome \<times> nat"

definition newsql_main :: "newsql_env \<Rightarrow> cluster \<Rightarrow> unit option \<times> cluster" where
  "newsql_main e =
     and_then (connect_with_retry (tries e)) (\<lambda>_.
     and_then (say [Connected, Banner, Heading 1]) (\<lambda>_.
     and_then (create_accounts (schema e)) (\<lambda>_.
     and_then (say [Created, Heading 2]) (\<lambda>_.
     and_then (show_ranges (ranges_read e)) (\<lambda>_.
     and_then (say [Heading 3]) (\<lambda>_.
     and_then (must_transfer (paying e) ''alice'' ''bob'' 4000) (\<lambda>_.
     and_then (print_balances (read_once e)) (\<lambda>_.
     and_then (say [Acid, Heading 4]) (\<lambda>_.
     and_then (fire_transfers (goroutines e)) (\<lambda>_.
     and_then (print_balances (read_twice e)) (\<lambda>_.
     say [Heading 5, Advice, Heading 6, Summary])))))))))))"


section \<open>Transfers between the two accounts\<close>

definition wallet :: "int \<Rightarrow> int \<Rightarrow> accounts" where
  "wallet x y = [''alice'' \<mapsto> \<lparr>acct_owner = ''Alice Wong'', balance = x\<rparr>, ''bob'' \<mapsto> \<lparr>acct_owner = ''Bob Singh'', balance = y\<rparr>]"

lemma wallet_sel [simp]:
  "wallet x y ''alice'' = Some \<lparr>acct_owner = ''Alice Wong'', balance = x\<rparr>"
  "wallet x y ''bob'' = Some \<lparr>acct_owner = ''Bob Singh'', balance = y\<rparr>"
  "dom (wallet x y) = {''alice'', ''bob''}"
  by (auto simp: wallet_def)

lemma wallet_upd [simp]:
  "(wallet x y)(''alice'' \<mapsto> \<lparr>acct_owner = ''Alice Wong'', balance = z\<rparr>) = wallet z y"
  "(wallet x y)(''bob'' \<mapsto> \<lparr>acct_owner = ''Bob Singh'', balance = z\<rparr>) = wallet x z"
  by (auto simp: wallet_def)

lemma setup_wallet: "dom a \<subseteq> {''alice'', ''bob''} \<Longrightarrow> setup_schema a = wallet 10000 10000"
  by (auto simp: setup_schema_def wallet_def fun_eq_iff)

lemma sorted_two: "sorted_list_of_set {''alice'', ''bob''} = [''alice'', ''bob'']"
  by (simp add: list_less_def less_char_def)

lemma wallet_lines: "balance_lines (wallet x y) = [Balance ''Alice Wong'' x, Balance ''Bob Singh'' y]"
  by (simp add: balance_lines_def sorted_two)

text \<open>A body that runs to its end moves the amount; if the statements answer, it does run to its end.\<close>

lemma alice_pays: "transfer_body env ''alice'' ''bob'' d (wallet x y) = (Inr (), a) \<Longrightarrow> a = wallet (x - d) (y + d)"
  by (auto elim!: transfer_body_ok simp: add_balance_def split: if_splits)

lemma bob_pays: "transfer_body env ''bob'' ''alice'' d (wallet x y) = (Inr (), a) \<Longrightarrow> a = wallet (x + d) (y - d)"
  by (auto elim!: transfer_body_ok simp: add_balance_def split: if_splits)

text \<open>Without lost acknowledgements an error means that nothing was applied.\<close>

definition acknowledged :: "(nat \<Rightarrow> outcome) \<Rightarrow> bool" where
  "acknowledged commits \<longleftrightarrow> (\<forall>i e. commits i \<noteq> Lost e)"

lemma retry_loop_error:
  "acknowledged commits \<Longrightarrow> retry_loop begins commits fn attempt left s = (Some x, s') \<Longrightarrow> s' = s"
proof (induction left arbitrary: attempt s)
  case (Suc left)
  then show ?case
    by (cases "commits attempt"; cases "err_of (begins attempt)"; cases "fn attempt s")
      (auto simp: acknowledged_def split: if_splits sum.splits)
qed simp

lemma transfer_error: "acknowledged c \<Longrightarrow> transfer b c env from to d a = (Some x, a') \<Longrightarrow> a' = a"
  unfolding transfer_def retry_txn_def by (rule retry_loop_error)

lemma bob_transfers:
  assumes "honest c" and "transfer b c env ''bob'' ''alice'' d (wallet x y) = (err, a)"
  shows "(err = None \<and> a = wallet (x + d) (y - d)) \<or> (err \<noteq> None \<and> a = wallet x y) \<or>
    (err \<noteq> None \<and> \<not> acknowledged c \<and> a = wallet (x + d) (y - d))"
proof (cases err)
  case None
  with retry_loop_once [OF assms(1) assms(2) [unfolded transfer_def retry_txn_def]] bob_pays show ?thesis by blast
next
  case (Some e)
  with retry_loop_once [OF assms(1) assms(2) [unfolded transfer_def retry_txn_def]] bob_pays
    transfer_error [OF _ assms(2) [unfolded Some]] show ?thesis by blast
qed

text \<open>\<open>n\<close> of the transfers report success and \<open>m\<close> take effect; they are the same number if no acknowledgement is lost.\<close>

lemma bob_transfers_all:
  assumes "\<forall>(b, c, env) \<in> set hs. honest c" and "run_transfers (map (\<lambda>h. (h, ''bob'', ''alice'', d)) hs) (wallet x y) = (n, a)"
  shows "length (transfer_errors (map (\<lambda>h. (h, ''bob'', ''alice'', d)) hs) (wallet x y)) + n = length hs \<and>
    (\<exists>m. n \<le> m \<and> m \<le> length hs \<and> a = wallet (x + int m * d) (y - int m * d) \<and>
      ((\<forall>(b, c, env) \<in> set hs. acknowledged c) \<longrightarrow> m = n))"
  using assms
proof (induction hs arbitrary: x y n)
  case (Cons h hs)
  obtain b c env where h: "h = (b, c, env)" by (metis surj_pair)
  obtain err a1 where 1: "transfer b c env ''bob'' ''alice'' d (wallet x y) = (err, a1)" by fastforce
  obtain n1 where 2: "run_transfers (map (\<lambda>h. (h, ''bob'', ''alice'', d)) hs) a1 = (n1, a)"
    and n: "n = (if err = None then Suc n1 else n1)"
    using Cons.prems(2) by (auto simp: h 1 split: prod.splits)
  have hs: "\<forall>(b, c, env) \<in> set hs. honest c" and "honest c" using Cons.prems(1) by (auto simp: h)
  from bob_transfers [OF this(2) 1] consider
    (paid) "err = None" "a1 = wallet (x + d) (y - d)" | (failed) "err \<noteq> None" "a1 = wallet x y"
    | (lost) "err \<noteq> None" "\<not> acknowledged c" "a1 = wallet (x + d) (y - d)" by blast
  then show ?case
  proof cases
    case paid
    from Cons.IH [OF hs 2 [unfolded paid(2)]] obtain m where m: "n1 \<le> m" "m \<le> length hs" "a = wallet (x + d + int m * d) (y - d - int m * d)"
      "(\<forall>(b, c, env) \<in> set hs. acknowledged c) \<longrightarrow> m = n1"
      and l: "length (transfer_errors (map (\<lambda>h. (h, ''bob'', ''alice'', d)) hs) (wallet (x + d) (y - d))) + n1 = length hs" by blast
    have "a = wallet (x + int (Suc m) * d) (y - int (Suc m) * d)" using m(3) by (simp add: algebra_simps)
    with m l 1 paid n show ?thesis by (intro conjI exI [of _ "Suc m"]) (auto simp: h)
  next
    case failed
    from Cons.IH [OF hs 2 [unfolded failed(2)]] failed n 1 show ?thesis by (auto simp: h split: option.split)
  next
    case lost
    from Cons.IH [OF hs 2 [unfolded lost(3)]] obtain m where m: "n1 \<le> m" "m \<le> length hs" "a = wallet (x + d + int m * d) (y - d - int m * d)"
      and l: "length (transfer_errors (map (\<lambda>h. (h, ''bob'', ''alice'', d)) hs) (wallet (x + d) (y - d))) + n1 = length hs" by blast
    have "a = wallet (x + int (Suc m) * d) (y - int (Suc m) * d)" using m(3) by (simp add: algebra_simps)
    with m l 1 lost n show ?thesis by (intro conjI exI [of _ "Suc m"]) (auto simp: h split: option.split)
  qed
qed simp


section \<open>The whole run\<close>

lemma connects:
  assumes "att j = (Done, Done)" and "i \<le> j" and "j < i + left"
  shows "\<exists>k t. connect_loop att i left = (Some k, t) \<and> (t = 0 \<longleftrightarrow> att i = (Done, Done)) \<and> t \<le> 2 * (j - i)"
  using assms
proof (induction left arbitrary: i)
  case (Suc left)
  show ?case
  proof (cases "att i = (Done, Done)")
    case False
    with Suc.prems have "i < j" by (cases "i = j") auto
    with Suc.IH [of "Suc i"] Suc.prems obtain k t where "connect_loop att (Suc i) left = (Some k, t)" "t \<le> 2 * (j - Suc i)" by auto
    moreover have "\<not> (fst (att i) = Done \<and> snd (att i) = Done)" using False by (metis prod.collapse)
    ultimately show ?thesis using \<open>i < j\<close> False by simp
  qed simp
qed simp

text \<open>\<open>k\<close> serialization failures, then the commit.\<close>

definition prevails :: "nat \<Rightarrow> history \<Rightarrow> bool" where
  "prevails k h \<longleftrightarrow> k < 10 \<and> (case h of (b, c, env) \<Rightarrow> b = (\<lambda>_. Done) \<and> env = (\<lambda>_ _. Done) \<and> c k = Done \<and>
     (\<forall>i < k. c i = Refused (Sqlstate ''40001'')))"

lemma payment_prevails:
  assumes "prevails k (b, c, env)" and "d \<le> x" and "int8 (x - d)" and "int8 (y + d)"
  shows "transfer b c env ''alice'' ''bob'' d (wallet x y) = (None, wallet (x - d) (y + d))"
proof -
  have b: "transfer_body (env i) ''alice'' ''bob'' d (wallet x y) = (Inr (), wallet (x - d) (y + d))" for i
    using assms by (simp add: prevails_def transfer_body_def bind_tx_def txn_stmt_def read_balance_def add_balance_def)
  show ?thesis unfolding transfer_def retry_txn_def
    by (rule retry_succeeds [where k = k]) (use assms(1) b in \<open>auto simp: prevails_def\<close>)
qed

definition ready :: "newsql_env \<Rightarrow> bool" where
  "ready e \<longleftrightarrow> (\<exists>i < 40. tries e i = (Done, Done)) \<and> schema e = (Done, Done) \<and> (\<exists>k. prevails k (paying e)) \<and>
     fst (read_once e) = Done \<and> 2 \<le> snd (read_once e) \<and> fst (read_twice e) = Done \<and> 2 \<le> snd (read_twice e)"

definition range_lines :: "newsql_env \<Rightarrow> newsql_line list" where
  "range_lines e = (case ranges_read e of ((rr, n, m), (rn, nodes)) \<Rightarrow>
     if err_of rr = None then Ranges n m # (if err_of rn = None then [Nodes nodes] else []) else [])"

lemma show_ranges_lines:
  "\<exists>l. show_ranges (ranges_read e) s = (Some (), s\<lparr>printed := printed s @ range_lines e, logged := logged s + l\<rparr>) \<and> size l \<le> 1"
  by (auto simp: show_ranges_def range_lines_def and_then_def say_def complain_def split: prod.splits option.splits
      intro: exI [of _ "{#}"] exI [of _ "{#x#}" for x])

text \<open>
  Whatever is refused or lost: the accounts are the old ones or hold 200 dollars, and bob never pays
  more than eight dollars back.
\<close>

definition settled :: "accounts \<Rightarrow> cluster \<Rightarrow> bool" where
  "settled a s \<longleftrightarrow> accts s = a \<or> accts s = wallet 10000 10000 \<or> (\<exists>m \<le> 8. accts s = wallet (6000 + 100 * int m) (14000 - 100 * int m))"

text \<open>
  The run as a state machine of its accounts: in phase 0 they are as found, in phase 1 seeded, in phase 2
  after the payment, in phase 3 after the goroutines.
\<close>

definition phase :: "nat \<Rightarrow> accounts \<Rightarrow> cluster \<Rightarrow> bool" where
  "phase k a s \<longleftrightarrow> (if k = 0 then accts s = a else if k = 1 then accts s = wallet 10000 10000
     else if k = 2 then accts s = wallet 6000 14000 else (\<exists>m \<le> 8. accts s = wallet (6000 + 100 * int m) (14000 - 100 * int m)))"

lemma phase_settled: "phase k a s \<Longrightarrow> settled a s"
  by (auto simp: phase_def settled_def split: if_splits intro: exI [of _ 0])

lemma quiet:
  "accts (snd (say l s)) = accts s" "accts (snd (complain x s)) = accts s" "accts (snd (connect_with_retry t s)) = accts s"
  "accts (snd (show_ranges r s)) = accts s" "accts (snd (print_balances b s)) = accts s"
  by (auto simp: say_def complain_def connect_with_retry_def show_ranges_def print_balances_def and_then_def split: prod.splits option.splits)

lemma quiet_step:
  assumes "\<And>s. accts (snd (f s)) = accts s" and "\<And>x. leads (phase k a) (g x) (settled a)"
  shows "leads (phase k a) (and_then f g) (settled a)"
  by (rule leads_and_then [where R = "phase k a"]) (use assms in \<open>auto simp: leads_def phase_def intro: phase_settled\<close>)

lemma step_phase:
  assumes "leads (phase k a) f (settled a)" and "yields (phase k a) f (\<lambda>_. phase k' a)" and "\<And>x. leads (phase k' a) (g x) (settled a)"
  shows "leads (phase k a) (and_then f g) (settled a)"
  using leads_yields [OF assms(1,2)] assms(3) by blast


definition fair :: "newsql_env \<Rightarrow> bool" where
  "fair e \<longleftrightarrow> honest (fst (snd (paying e))) \<and> (\<forall>i. honest (fst (snd (goroutines e i))))"

lemma create_phase:
  assumes "dom a \<subseteq> {''alice'', ''bob''}"
  shows "leads (phase 0 a) (create_accounts r) (settled a)" "yields (phase 0 a) (create_accounts r) (\<lambda>_. phase 1 a)"
  using setup_wallet [OF assms]
  by (auto simp: leads_def yields_def phase_def settled_def create_accounts_def and_then_def must_def id_def split: if_splits)

lemma payment_phase:
  assumes "honest c"
  shows "leads (phase 1 a) (must_transfer (b, c, env) ''alice'' ''bob'' 4000) (settled a)"
    "yields (phase 1 a) (must_transfer (b, c, env) ''alice'' ''bob'' 4000) (\<lambda>_. phase 2 a)"
proof -
  obtain err a1 where t: "transfer b c env ''alice'' ''bob'' 4000 (wallet 10000 10000) = (err, a1)" by fastforce
  have o: "(a1 = wallet 10000 10000 \<and> err \<noteq> None) \<or> a1 = wallet 6000 14000"
    using retry_loop_once [OF assms t [unfolded transfer_def retry_txn_def]] alice_pays [of _ 4000 10000 10000] by fastforce
  then show "leads (phase 1 a) (must_transfer (b, c, env) ''alice'' ''bob'' 4000) (settled a)"
    by (auto simp: leads_def phase_def settled_def must_transfer_def t intro: exI [of _ 0])
  from o show "yields (phase 1 a) (must_transfer (b, c, env) ''alice'' ''bob'' 4000) (\<lambda>_. phase 2 a)"
    by (auto simp: yields_def phase_def must_transfer_def t split: if_splits)
qed

lemma fired:
  assumes "fair e" and "accts s = wallet 6000 14000"
  obtains n m l where "fire_transfers (goroutines e) s = (Some (), s\<lparr>accts := wallet (6000 + 100 * int m) (14000 - 100 * int m),
      printed := printed s @ [CommittedOf n 8], logged := logged s + l\<rparr>)"
    "size l + n = 8" "n \<le> m" "m \<le> 8" "(\<forall>i < 8. acknowledged (fst (snd (goroutines e i)))) \<Longrightarrow> m = n"
proof -
  let ?hs = "map (goroutines e) [0..<8]"
  let ?ts = "map (\<lambda>h. (h, ''bob'', ''alice'', 100)) ?hs"
  obtain n a where r: "run_transfers ?ts (wallet 6000 14000) = (n, a)" by fastforce
  have "\<forall>(b, c, env) \<in> set ?hs. honest c" using assms(1) by (auto simp: fair_def case_prod_unfold simp del: upt_rec_numeral)
  from bob_transfers_all [OF this r] have "length (transfer_errors ?ts (wallet 6000 14000)) + n = 8 \<and> (\<exists>m. n \<le> m \<and> m \<le> 8 \<and>
      a = wallet (6000 + int m * 100) (14000 - int m * 100) \<and> ((\<forall>(b, c, env) \<in> set ?hs. acknowledged c) \<longrightarrow> m = n))"
    by (simp only: length_map length_upt diff_zero)
  then obtain m where m: "n \<le> m" "m \<le> 8" "a = wallet (6000 + int m * 100) (14000 - int m * 100)"
    "(\<forall>(b, c, env) \<in> set ?hs. acknowledged c) \<longrightarrow> m = n" and l: "length (transfer_errors ?ts (wallet 6000 14000)) + n = 8" by blast
  have "(\<forall>(b, c, env) \<in> set ?hs. acknowledged c)" if "\<forall>i < 8. acknowledged (fst (snd (goroutines e i)))"
    using that by (auto simp: case_prod_unfold simp del: upt_rec_numeral)
  with m(4) have ack: "(\<forall>i < 8. acknowledged (fst (snd (goroutines e i)))) \<Longrightarrow> m = n" by blast
  have ts: "map (\<lambda>i. (goroutines e i, ''bob'', ''alice'', 100)) [0..<8] = ?ts" by (simp only: map_map comp_def)
  have "fire_transfers (goroutines e) s = (Some (), s\<lparr>accts := wallet (6000 + 100 * int m) (14000 - 100 * int m),
      printed := printed s @ [CommittedOf n 8], logged := logged s + mset (map TransferFailed (transfer_errors ?ts (wallet 6000 14000)))\<rparr>)"
    unfolding fire_transfers_def ts assms(2) Let_def r m(3) by (simp only: prod.case mult.commute)
  moreover have "size (mset (map TransferFailed (transfer_errors ?ts (wallet 6000 14000)))) + n = 8" using l by (simp only: size_mset length_map)
  ultimately show thesis by (rule that [OF _ _ m(1,2) ack])
qed

lemma fired_phase:
  assumes "fair e"
  shows "leads (phase 2 a) (fire_transfers (goroutines e)) (phase 3 a)"
  unfolding leads_def
proof (intro allI impI)
  fix s assume "phase 2 a s"
  then have "accts s = wallet 6000 14000" by (simp add: phase_def)
  obtain n m l where "fire_transfers (goroutines e) s = (Some (), s\<lparr>accts := wallet (6000 + 100 * int m) (14000 - 100 * int m),
      printed := printed s @ [CommittedOf n 8], logged := logged s + l\<rparr>)" "m \<le> 8"
    by (rule fired [OF assms \<open>accts s = wallet 6000 14000\<close>]) blast
  then show "phase 3 a (snd (fire_transfers (goroutines e) s))" by (auto simp: phase_def)
qed


lemma main_settles:
  assumes "fair e" and "dom (accts s) \<subseteq> {''alice'', ''bob''}"
  shows "settled (accts s) (snd (newsql_main e s))"
proof -
  obtain b c env where h: "paying e = (b, c, env)" by (metis surj_pair)
  with assms(1) have "honest c" by (simp add: fair_def)
  have last: "leads (phase 3 (accts s)) (say l) (settled (accts s))" for l
    by (simp add: leads_def quiet phase_def settled_def)
  have fired: "leads (phase 2 (accts s)) (fire_transfers (goroutines e)) (settled (accts s))"
    "yields (phase 2 (accts s)) (fire_transfers (goroutines e)) (\<lambda>_. phase 3 (accts s))"
    using fired_phase [OF assms(1), of "accts s"] phase_settled by (auto simp: leads_def yields_def)
  have "leads (phase 0 (accts s)) (newsql_main e) (settled (accts s))"
    unfolding newsql_main_def h
    by (intro quiet_step quiet step_phase [OF create_phase [OF assms(2)]] step_phase [OF payment_phase [OF \<open>honest c\<close>]] step_phase [OF fired] last)
  from leadsD [OF this, of s] show ?thesis by (simp add: phase_def)
qed

lemma main_returns:
  assumes "ready e" and "fair e" and "dom (accts s) \<subseteq> {''alice'', ''bob''}"
  obtains n m l s' where "newsql_main e s = (Some (), s')" "accts s' = wallet (6000 + 100 * int m) (14000 - 100 * int m)"
    "printed s' = printed s @ (if tries e 0 = (Done, Done) then [] else [Waiting]) @ [Connected, Banner, Heading 1, Created, Heading 2] @
       range_lines e @ [Heading 3, Balance ''Alice Wong'' 6000, Balance ''Bob Singh'' 14000, Acid, Heading 4, CommittedOf n 8,
       Balance ''Alice Wong'' (6000 + 100 * int m), Balance ''Bob Singh'' (14000 - 100 * int m), Heading 5, Advice, Heading 6, Summary]"
    "size (logged s) + (8 - n) \<le> size (logged s')" "n \<le> m" "m \<le> 8" "(\<forall>i < 8. acknowledged (fst (snd (goroutines e i)))) \<longrightarrow> m = n"
proof -
  obtain b c env where h: "paying e = (b, c, env)" by (metis surj_pair)
  from assms(1) obtain i k where r: "i < 40" "tries e i = (Done, Done)" "prevails k (b, c, env)" "schema e = (Done, Done)"
    "err_of (fst (read_once e)) = None" "2 \<le> snd (read_once e)" "err_of (fst (read_twice e)) = None" "2 \<le> snd (read_twice e)"
    by (auto simp: ready_def h)
  from connects [of "tries e" i 0 40] r(1,2) obtain j t where c: "connect_loop (tries e) 0 40 = (Some j, t)"
    "t = 0 \<longleftrightarrow> tries e 0 = (Done, Done)" by auto
  define w where "w = (if tries e 0 = (Done, Done) then [] else [Waiting])"
  have conn: "connect_with_retry (tries e) s = (Some j, s\<lparr>printed := printed s @ w\<rparr>)"
    using c by (simp add: connect_with_retry_def w_def)
  have sch: "create_accounts (Done, Done) u = (Some (), u\<lparr>accts := wallet 10000 10000\<rparr>)" if "accts u = accts s" for u
    using setup_wallet [OF assms(3)] that by (simp add: create_accounts_def and_then_def must_def)
  have pay: "must_transfer (b, c, env) ''alice'' ''bob'' 4000 u = (Some (), u\<lparr>accts := wallet 6000 14000\<rparr>)"
    if "accts u = wallet 10000 10000" for u
    using payment_prevails [OF r(3), of 4000 10000 10000] that by (simp add: must_transfer_def int8_def)
  have read: "print_balances p u = (Some (), u\<lparr>printed := printed u @ [Balance ''Alice Wong'' x, Balance ''Bob Singh'' y]\<rparr>)"
    if "accts u = wallet x y" "err_of (fst p) = None" "2 \<le> snd p" for p u x y
    using that by (simp add: print_balances_def wallet_lines say_def)
  let ?u1 = "s\<lparr>accts := wallet 10000 10000, printed := printed s @ w @ [Connected, Banner, Heading 1, Created, Heading 2]\<rparr>"
  obtain l1 where rng: "show_ranges (ranges_read e) ?u1 = (Some (), ?u1\<lparr>printed := printed ?u1 @ range_lines e, logged := logged ?u1 + l1\<rparr>)"
    using show_ranges_lines by blast
  let ?ls = "w @ [Connected, Banner, Heading 1, Created, Heading 2] @ range_lines e @ [Heading 3, Balance ''Alice Wong'' 6000, Balance ''Bob Singh'' 14000, Acid, Heading 4]"
  let ?u2 = "s\<lparr>logged := logged s + l1, accts := wallet 6000 14000, printed := printed s @ ?ls\<rparr>"
  obtain n m l where f: "fire_transfers (goroutines e) ?u2 = (Some (), ?u2\<lparr>accts := wallet (6000 + 100 * int m) (14000 - 100 * int m),
      printed := printed ?u2 @ [CommittedOf n 8], logged := logged ?u2 + l\<rparr>)" "size l + n = 8" "n \<le> m" "m \<le> 8"
    "(\<forall>i < 8. acknowledged (fst (snd (goroutines e i)))) \<longrightarrow> m = n"
    by (rule fired [OF assms(2), of ?u2]) (simp, blast)
  have "newsql_main e s = (Some (), s\<lparr>printed := printed s @ ?ls @ [CommittedOf n 8, Balance ''Alice Wong'' (6000 + 100 * int m),
      Balance ''Bob Singh'' (14000 - 100 * int m), Heading 5, Advice, Heading 6, Summary], accts := wallet (6000 + 100 * int m) (14000 - 100 * int m),
      logged := logged s + l1 + l\<rparr>)"
    using rng f(1) unfolding newsql_main_def h r(4)
    by (simp add: and_then_def conn sch pay read say_def r(5-8) del: One_nat_def)
  from that [OF this] f(2-) show thesis by (simp add: w_def)
qed


text \<open>
  Whatever is refused or lost, \<open>main\<close> leaves the accounts as they were, or with the 200 dollars they were seeded
  with, of which bob has paid back at most eight. When the cluster answers in one of the 40 attempts, the schema
  is created and the payment meets fewer than ten conflicts, \<open>main\<close> returns and prints exactly the listing below:
  \<open>n\<close> transfers report success, \<open>m\<close> took effect, and the numbers agree unless an acknowledgement was lost.
\<close>

theorem newsql_main_result:
  assumes "fair e" and "dom (accts s) \<subseteq> {''alice'', ''bob''}"
  shows "settled (accts s) (snd (newsql_main e s)) \<and>
    (ready e \<longrightarrow> (\<exists>n m s'. newsql_main e s = (Some (), s') \<and> accts s' = wallet (6000 + 100 * int m) (14000 - 100 * int m) \<and>
      printed s' = printed s @ (if tries e 0 = (Done, Done) then [] else [Waiting]) @ [Connected, Banner, Heading 1, Created, Heading 2] @
       range_lines e @ [Heading 3, Balance ''Alice Wong'' 6000, Balance ''Bob Singh'' 14000, Acid, Heading 4, CommittedOf n 8,
       Balance ''Alice Wong'' (6000 + 100 * int m), Balance ''Bob Singh'' (14000 - 100 * int m), Heading 5, Advice, Heading 6, Summary] \<and>
      size (logged s) + (8 - n) \<le> size (logged s') \<and> n \<le> m \<and> m \<le> 8 \<and>
      ((\<forall>i < 8. acknowledged (fst (snd (goroutines e i)))) \<longrightarrow> m = n)))"
proof (intro conjI impI main_settles [OF assms])
  assume "ready e"
  show "\<exists>n m s'. newsql_main e s = (Some (), s') \<and> accts s' = wallet (6000 + 100 * int m) (14000 - 100 * int m) \<and>
      printed s' = printed s @ (if tries e 0 = (Done, Done) then [] else [Waiting]) @ [Connected, Banner, Heading 1, Created, Heading 2] @
       range_lines e @ [Heading 3, Balance ''Alice Wong'' 6000, Balance ''Bob Singh'' 14000, Acid, Heading 4, CommittedOf n 8,
       Balance ''Alice Wong'' (6000 + 100 * int m), Balance ''Bob Singh'' (14000 - 100 * int m), Heading 5, Advice, Heading 6, Summary] \<and>
      size (logged s) + (8 - n) \<le> size (logged s') \<and> n \<le> m \<and> m \<le> 8 \<and>
      ((\<forall>i < 8. acknowledged (fst (snd (goroutines e i)))) \<longrightarrow> m = n)"
    by (rule main_returns [OF \<open>ready e\<close> assms]) (intro exI conjI; assumption)
qed

text \<open>A cluster that answers at the fourth attempt; the payment and every goroutine meet three conflicts.\<close>

definition starting :: newsql_env where
  "starting = \<lparr>tries = (\<lambda>i. if i < 3 then (Done, Refused Transport) else (Done, Done)), schema = (Done, Done),
     ranges_read = ((Done, 1, 3), (Done, [1, 2, 3])), paying = contended, read_once = (Done, 2), goroutines = (\<lambda>_. contended), read_twice = (Done, 2)\<rparr>"

theorem newsql_main_result_witness:
  "\<exists>m s'. newsql_main starting \<lparr>accts = Map.empty, printed = [], logged = {#}\<rparr> = (Some (), s') \<and> CommittedOf m 8 \<in> set (printed s') \<and>
     accts s' = wallet (6000 + 100 * int m) (14000 - 100 * int m) \<and> hd (printed s') = Waiting"
proof -
  have "ready starting" unfolding ready_def starting_def
    by (intro conjI exI [of _ 3]) (auto simp: prevails_def contended_def intro!: exI [of _ 3])
  moreover have "fair starting" by (simp add: fair_def starting_def contended_def honest_def)
  moreover have "\<forall>i < 8. acknowledged (fst (snd (goroutines starting i)))" by (simp add: starting_def contended_def acknowledged_def)
  moreover have "tries starting 0 \<noteq> (Done, Done)" by (simp add: starting_def)
  ultimately show ?thesis
    using newsql_main_result [of starting "\<lparr>accts = Map.empty, printed = [], logged = {#}\<rparr>"] by fastforce
qed

end
