(* ===== verification/Caching.thy ===== *)
theory Caching
  imports GoStd
begin

text \<open>
  \<open>simulate_query_caching/main.go\<close>: cache-aside reads, write-through and invalidating updates over
  PostgreSQL and Redis. The interface of the key-value store, and what its clients may conclude
  about stale entries, is the locale \<open>read_cache\<close>; Redis with expiry times is its model here.
\<close>

section \<open>Caches\<close>

locale read_cache =
  fixes get :: "'k \<Rightarrow> 's \<Rightarrow> 'v option"
    and put :: "'k \<Rightarrow> 'v \<Rightarrow> 's \<Rightarrow> 's"
    and del :: "'k \<Rightarrow> 's \<Rightarrow> 's"
    and key :: "'i \<Rightarrow> 'k"
  assumes get_put: "get k (put k' v s) = (if k = k' then Some v else get k s)"
    and get_del: "get k (del k' s) = (if k = k' then None else get k s)"
    and key_inj: "key i = key j \<longleftrightarrow> i = j"
begin

text \<open>Every cached value is the one in the system of record.\<close>

definition coherent :: "('i \<rightharpoonup> 'v) \<Rightarrow> 's \<Rightarrow> bool" where
  "coherent db s \<longleftrightarrow> (\<forall>i v. get (key i) s = Some v \<longrightarrow> db i = Some v)"

lemma coherent_populate: "coherent db s \<Longrightarrow> db i = Some v \<Longrightarrow> coherent db (put (key i) v s)"
  by (simp add: coherent_def get_put key_inj)

lemma coherent_write_through: "coherent db s \<Longrightarrow> coherent (db(i \<mapsto> v)) (put (key i) v s)"
  by (simp add: coherent_def get_put key_inj)

lemma coherent_invalidate:
  "coherent db s \<Longrightarrow> (\<And>j. j \<noteq> i \<Longrightarrow> db' j = db j) \<Longrightarrow> coherent db' (del (key i) s)"
  by (auto simp: coherent_def get_del key_inj)

lemma coherent_hit: "coherent db s \<Longrightarrow> get (key i) s = Some v \<Longrightarrow> db i = Some v"
  by (simp add: coherent_def)

lemma stale_put: "db i \<noteq> Some v \<Longrightarrow> \<not> coherent db (put (key i) v s)"
  by (auto simp: coherent_def get_put)

end

section \<open>Redis\<close>

text \<open>A value with the time it expires; a TTL of 0 is no expiry.\<close>

type_synonym 'v redis = "string \<rightharpoonup> 'v \<times> nat option"

definition r_get :: "nat \<Rightarrow> string \<Rightarrow> 'v redis \<Rightarrow> 'v option" where
  "r_get now k m = (case m k of
     None \<Rightarrow> None
   | Some (v, None) \<Rightarrow> Some v
   | Some (v, Some t) \<Rightarrow> if now < t then Some v else None)"

definition r_set :: "nat \<Rightarrow> nat \<Rightarrow> string \<Rightarrow> 'v \<Rightarrow> 'v redis \<Rightarrow> 'v redis" where
  "r_set now ttl k v m = m(k \<mapsto> (v, if ttl = 0 then None else Some (now + ttl)))"

definition r_del :: "string \<Rightarrow> 'v redis \<Rightarrow> 'v redis" where
  "r_del k m = m(k := None)"

lemma r_get_later: "now \<le> now' \<Longrightarrow> r_get now' k m = Some v \<Longrightarrow> r_get now k m = Some v"
  by (auto simp: r_get_def split: option.splits if_splits)

section \<open>Products\<close>

record product =
  name :: string
  category :: string
  price :: int
  description :: string

record system =
  db :: "nat \<rightharpoonup> product"
  rdb :: "product redis"
  hits :: nat
  misses :: nat

definition cache_key :: "nat \<Rightarrow> string" where
  "cache_key i = ''product:'' @ dec i"

interpretation redis: read_cache "r_get now" "r_set now ttl" r_del cache_key for now ttl
  by unfold_locales (auto simp: r_get_def r_set_def r_del_def cache_key_def)

definition populate :: "nat \<Rightarrow> nat \<Rightarrow> nat \<Rightarrow> product \<Rightarrow> system \<Rightarrow> system" where
  "populate now ttl i p s = s\<lparr>rdb := r_set now ttl (cache_key i) p (rdb s)\<rparr>"

text \<open>
  \<open>GetProduct\<close> at time \<open>now\<close>: \<open>rg\<close>, \<open>q\<close> and \<open>rs\<close> are the outcomes of GET, of the query and of SET. An
  error of GET falls through to the database, an error of SET is logged. Values in Redis are
  products that \<open>json.Marshal\<close> wrote.
\<close>

definition get_product :: "outcome \<Rightarrow> outcome \<Rightarrow> outcome \<Rightarrow> nat \<Rightarrow> nat \<Rightarrow> nat \<Rightarrow> system \<Rightarrow> (db_error + product) \<times> system" where
  "get_product rg q rs now ttl i s =
     (case (if err_of rg = None then r_get now (cache_key i) (rdb s) else None) of
        Some p \<Rightarrow> (Inr p, s\<lparr>hits := hits s + 1\<rparr>)
      | None \<Rightarrow>
          (let s = s\<lparr>misses := misses s + 1\<rparr> in
           case query q (db s i) of
             Inl e \<Rightarrow> (Inl e, s)
           | Inr None \<Rightarrow> (Inl NoRows, s)
           | Inr (Some p) \<Rightarrow>
               (Inr p, if applied rs then populate now ttl i p s else s)))"

definition set_price :: "nat \<Rightarrow> int \<Rightarrow> system \<Rightarrow> system" where
  "set_price i x s = (case db s i of None \<Rightarrow> s | Some p \<Rightarrow> s\<lparr>db := (db s)(i \<mapsto> p\<lparr>price := x\<rparr>)\<rparr>)"

text \<open>\<open>UpdatePriceWriteThrough\<close>: \<open>q\<close> is the outcome of UPDATE ... RETURNING, \<open>rs\<close> of SET.\<close>

definition update_price_write_through :: "outcome \<Rightarrow> outcome \<Rightarrow> nat \<Rightarrow> nat \<Rightarrow> nat \<Rightarrow> int \<Rightarrow> system
    \<Rightarrow> db_error option \<times> system" where
  "update_price_write_through q rs now ttl i x s =
     (let s1 = (if applied q then set_price i x s else s) in
      case err_of q of
        Some e \<Rightarrow> (Some e, s1)
      | None \<Rightarrow>
          (case db s1 i of
             None \<Rightarrow> (Some NoRows, s1)
           | Some p \<Rightarrow>
               (err_of rs, if applied rs then populate now ttl i p s1 else s1)))"

definition update_price_invalidate :: "outcome \<Rightarrow> outcome \<Rightarrow> nat \<Rightarrow> int \<Rightarrow> system \<Rightarrow> db_error option \<times> system" where
  "update_price_invalidate q rd i x s =
     (let s1 = (if applied q then set_price i x s else s) in
      case err_of q of
        Some e \<Rightarrow> (Some e, s1)
      | None \<Rightarrow> (err_of rd, if applied rd then s1\<lparr>rdb := r_del (cache_key i) (rdb s1)\<rparr> else s1))"

section \<open>Sequences of operations\<close>

datatype cache_op =
    Read nat
  | Through nat int
  | Invalidate nat int

text \<open>One operation with the outcomes of its three calls; \<open>None\<close> is success (a read has no effect to lose).\<close>

definition do_op :: "cache_op \<Rightarrow> outcome \<times> outcome \<times> outcome \<Rightarrow> nat \<Rightarrow> nat \<Rightarrow> system \<Rightarrow> db_error option \<times> system" where
  "do_op c env now ttl s =
     (let (r1, r2, r3) = env in
      case c of
        Read i \<Rightarrow> (None, snd (get_product r1 r2 r3 now ttl i s))
      | Through i x \<Rightarrow> update_price_write_through r1 r2 now ttl i x s
      | Invalidate i x \<Rightarrow> update_price_invalidate r1 r2 i x s)"

fun run_ops :: "nat \<Rightarrow> (nat \<times> cache_op \<times> outcome \<times> outcome \<times> outcome) list \<Rightarrow> system \<Rightarrow> db_error option list \<times> system" where
  "run_ops ttl [] s = ([], s)"
| "run_ops ttl ((now, c, env) # cs) s =
     (let (e, s1) = do_op c env now ttl s; (es, s2) = run_ops ttl cs s1 in (e # es, s2))"

definition fresh :: "nat \<Rightarrow> system \<Rightarrow> bool" where
  "fresh now s \<longleftrightarrow> redis.coherent now (db s) (rdb s)"

lemma fresh_later: "fresh now s \<Longrightarrow> now \<le> now' \<Longrightarrow> fresh now' s"
  unfolding fresh_def redis.coherent_def using r_get_later by metis

lemma get_product_result:
  assumes "fresh now s" and "get_product rg q rs now ttl i s = (x, s')"
  shows "fresh now s' \<and> db s' = db s \<and> hits s' + misses s' = Suc (hits s + misses s) \<and>
    (\<forall>p. x = Inr p \<longrightarrow> db s i = Some p) \<and> (q = Done \<longrightarrow> db s i \<noteq> None \<longrightarrow> x = Inr (the (db s i)))"
proof -
  have hit: "r_get now (cache_key i) (rdb s) = Some p \<Longrightarrow> db s i = Some p" for p
    using assms(1) unfolding fresh_def by (rule redis.coherent_hit)
  have pop: "db s i = Some p \<Longrightarrow> redis.coherent now (db s) (r_set now ttl (cache_key i) p (rdb s))" for p
    using assms(1) unfolding fresh_def by (rule redis.coherent_populate)
  show ?thesis
    using assms hit pop
    by (cases q) (auto simp: get_product_def query_def Let_def fresh_def populate_def split: option.splits if_splits)
qed

lemma set_price_db: "db (set_price i x s) = (case db s i of None \<Rightarrow> db s | Some p \<Rightarrow> (db s)(i \<mapsto> p\<lparr>price := x\<rparr>))"
  and set_price_rdb [simp]: "rdb (set_price i x s) = rdb s"
  by (simp_all add: set_price_def split: option.splits)

lemma write_through_fresh:
  assumes "fresh now s" and "update_price_write_through q rs now ttl i x s = (None, s')"
  shows "fresh now s'"
proof -
  from assms(2) have q: "q = Done" and r: "rs = Done"
    by (auto simp: update_price_write_through_def Let_def split: option.splits)
  with assms(2) obtain p where p: "db s i = Some p"
    by (auto simp: update_price_write_through_def set_price_db split: option.splits)
  have "redis.coherent now ((db s)(i \<mapsto> p\<lparr>price := x\<rparr>)) (r_set now ttl (cache_key i) (p\<lparr>price := x\<rparr>) (rdb s))"
    using assms(1) unfolding fresh_def by (rule redis.coherent_write_through)
  with assms(2) p show ?thesis
    by (auto simp: update_price_write_through_def set_price_db q r fresh_def populate_def)
qed

lemma invalidate_fresh:
  assumes "fresh now s" and "update_price_invalidate q rd i x s = (None, s')"
  shows "fresh now s'"
proof -
  from assms(2) have q: "q = Done" and r: "rd = Done"
    by (auto simp: update_price_invalidate_def Let_def split: option.splits)
  have "redis.coherent now (db (set_price i x s)) (r_del (cache_key i) (rdb s))"
    using assms(1) unfolding fresh_def
    by (rule redis.coherent_invalidate) (simp add: set_price_db split: option.splits)
  with assms(2) show ?thesis by (auto simp: update_price_invalidate_def q r fresh_def)
qed

lemma run_ops_fresh:
  assumes "fresh now0 s" and "run_ops ttl cs s = (es, s')" and "set es \<subseteq> {None}"
    and "sorted (now0 # map fst cs)"
  shows "\<exists>t. t = last (now0 # map fst cs) \<and> fresh t s'"
  using assms
proof (induction cs arbitrary: now0 s es)
  case (Cons c cs)
  obtain now op r1 r2 r3 where c: "c = (now, op, r1, r2, r3)" by (metis surj_pair)
  obtain e s1 where 1: "do_op op (r1, r2, r3) now ttl s = (e, s1)" by fastforce
  obtain es' where 2: "run_ops ttl cs s1 = (es', s')" and es: "es = e # es'"
    using Cons.prems(2) by (auto simp: c 1 split: prod.splits)
  have f: "fresh now s" using Cons.prems(1,4) fresh_later by (auto simp: c)
  have "fresh now s1"
  proof (cases op)
    case (Read i)
    have "fresh now (snd (get_product r1 r2 r3 now ttl i s))"
      using get_product_result [OF f] by (metis prod.collapse)
    with 1 Read show ?thesis by (auto simp: do_op_def)
  next
    case (Through i x)
    with 1 es Cons.prems(3) show ?thesis by (intro write_through_fresh [OF f]) (simp add: do_op_def)
  next
    case (Invalidate i x)
    with 1 es Cons.prems(3) show ?thesis by (intro invalidate_fresh [OF f]) (simp add: do_op_def)
  qed
  from Cons.IH [OF this 2] Cons.prems(3,4) show ?case by (auto simp: c es)
qed simp

section \<open>Properties\<close>

definition shop :: system where
  "shop = \<lparr>db = [1 \<mapsto> \<lparr>name = ''Mechanical Keyboard'', category = ''peripherals'', price = 8999, description = []\<rparr>,
                2 \<mapsto> \<lparr>name = ''Wireless Mouse'', category = ''peripherals'', price = 2950, description = []\<rparr>,
                3 \<mapsto> \<lparr>name = ''27-inch Monitor'', category = ''displays'', price = 21900, description = []\<rparr>,
                4 \<mapsto> \<lparr>name = ''USB-C Hub'', category = ''accessories'', price = 3999, description = []\<rparr>],
     rdb = Map.empty, hits = 0, misses = 0\<rparr>"

text \<open>C22: Starting from an empty cache, as long as every update reports success, whatever happens to
  the calls of the reads, a later read returns what the database holds: only an update that
  reports an error can leave a stale entry.\<close>

theorem no_silent_staleness:
  assumes "rdb s0 = Map.empty" and "run_ops ttl cs s0 = (es, s)" and "set es \<subseteq> {None}"
    and "sorted (map fst cs)" and "\<forall>t \<in> set (map fst cs). t \<le> now"
    and "get_product rg q rs now ttl i s = (x, s')"
  shows "(\<forall>p. x = Inr p \<longrightarrow> db s i = Some p) \<and> (q = Done \<longrightarrow> db s i \<noteq> None \<longrightarrow> x = Inr (the (db s i)))"
proof -
  have "fresh 0 s0" by (simp add: fresh_def redis.coherent_def assms(1) r_get_def)
  from run_ops_fresh [OF this assms(2,3)] assms(4) have "fresh (last (0 # map fst cs)) s" by simp
  moreover have "last (0 # map fst cs) \<le> now" using assms(5) by (cases cs rule: rev_cases) auto
  ultimately have "fresh now s" by (rule fresh_later)
  from get_product_result [OF this assms(6)] show ?thesis by blast
qed

theorem no_silent_staleness_witness:
  "\<exists>s x s'. run_ops 30 [(0, Read 2, Done, Done, Done), (1, Through 2 2499, Done, Done, Done)] shop = ([None, None], s) \<and>
     get_product Done Done Done 5 30 2 s = (x, s') \<and> x = Inr (the (db s 2)) \<and> price (the (db s 2)) = 2499"
proof -
  define s where "s = populate 1 30 2 \<lparr>name = ''Wireless Mouse'', category = ''peripherals'', price = 2499, description = []\<rparr>
    (set_price 2 2499 (snd (get_product Done Done Done 0 30 2 shop)))"
  have u: "update_price_write_through Done Done 1 30 2 2499 (snd (get_product Done Done Done 0 30 2 shop)) = (None, s)"
    by (simp add: s_def update_price_write_through_def set_price_def get_product_def shop_def r_get_def query_simps
        populate_def)
  have s: "run_ops 30 [(0, Read 2, Done, Done, Done), (1, Through 2 2499, Done, Done, Done)] shop = ([None, None], s)"
    using u by (simp add: do_op_def)
  have d: "db s 2 = Some \<lparr>name = ''Wireless Mouse'', category = ''peripherals'', price = 2499, description = []\<rparr>"
    by (simp add: s_def populate_def set_price_def get_product_def shop_def r_get_def query_simps)
  obtain x s' where g: "get_product Done Done Done 5 30 2 s = (x, s')" by fastforce
  have "x = Inr (the (db s 2))"
  proof -
    have "rdb shop = Map.empty" by (simp add: shop_def)
    from conjunct2 [OF no_silent_staleness [OF this s _ _ _ g]] d show ?thesis by simp
  qed
  with d have "price (the (db s 2)) = 2499" by simp
  with s g \<open>x = Inr (the (db s 2))\<close> show ?thesis by blast
qed

text \<open>The guarantee is about operations one after the other. A reader that missed and read the old
  row, and stores it after a successful write-through update, leaves the old price in the cache:
  reads return it until the entry expires.\<close>

theorem populate_race_serves_stale_price:
  assumes "db s i = Some p" and "price p \<noteq> x" and "now \<le> later" and "later < now + ttl"
    and "update_price_write_through Done Done now ttl i x s = (e, s1)"
    and "get_product Done q rs later ttl i (populate now ttl i p s1) = (r, s2)"
  shows "e = None \<and> db s2 i = Some (p\<lparr>price := x\<rparr>) \<and> r = Inr p"
proof -
  have "s1 = populate now ttl i (p\<lparr>price := x\<rparr>) (set_price i x s)" "e = None" and d: "db (set_price i x s) i = Some (p\<lparr>price := x\<rparr>)"
    using assms(1,5) by (auto simp: update_price_write_through_def set_price_db)
  then have s1: "db s1 i = Some (p\<lparr>price := x\<rparr>)" "e = None" by (simp_all add: populate_def)
  have "r_get later (cache_key i) (rdb (populate now ttl i p s1)) = Some p"
    using assms(3,4) by (auto simp: populate_def r_get_def r_set_def)
  with assms(6) s1 show ?thesis by (auto simp: get_product_def populate_def)
qed

theorem populate_race_serves_stale_price_witness:
  "\<exists>s1 r s2. update_price_write_through Done Done 0 30 2 2499 shop = (None, s1) \<and>
     get_product Done Done Done 20 30 2 (populate 0 30 2 (the (db shop 2)) s1) = (r, s2) \<and>
     r = Inr (the (db shop 2)) \<and> price (the (db s2 2)) = 2499"
proof -
  obtain e s1 where u: "update_price_write_through Done Done 0 30 2 2499 shop = (e, s1)" by fastforce
  obtain r s2 where g: "get_product Done Done Done 20 30 2 (populate 0 30 2 (the (db shop 2)) s1) = (r, s2)" by fastforce
  have p: "db shop 2 = Some (the (db shop 2))" "price (the (db shop 2)) \<noteq> 2499" by (simp_all add: shop_def)
  from populate_race_serves_stale_price [OF p _ _ u g] u g show ?thesis by auto
qed

end
