(* ===== verification/CachingMain.thy ===== *)
theory CachingMain
  imports Caching
begin

text \<open>
  The whole run of \<open>simulate_query_caching/main.go\<close>: the cache is flushed, and each demonstration reads and
  updates one product. Times are milliseconds. The errors of most reads are dropped; where the
  result is then used, a failed read is a nil pointer and the program panics (\<open>None\<close>).
\<close>

section \<open>Redis commands of the TTL demonstration\<close>

definition r_expire :: "nat \<Rightarrow> nat \<Rightarrow> string \<Rightarrow> 'v redis \<Rightarrow> 'v redis" where
  "r_expire t ttl k m = (case r_get t k m of None \<Rightarrow> m | Some v \<Rightarrow> m(k \<mapsto> (v, Some (t + ttl))))"

text \<open>TTL answers in rounded seconds, -1 without expiry and -2 without the key.\<close>

definition r_ttl :: "nat \<Rightarrow> string \<Rightarrow> 'v redis \<Rightarrow> int" where
  "r_ttl t k m = (case m k of None \<Rightarrow> -2 | Some (v, None) \<Rightarrow> -1
     | Some (v, Some x) \<Rightarrow> if t < x then int ((x - t + 500) div 1000) else -2)"

section \<open>The demonstrations\<close>

text \<open>What \<open>main\<close> does is given by the time of each call and its outcomes; read \<open>k\<close> has GET, query and SET.\<close>

record caching_env =
  opened :: outcome
  ping :: outcome
  flush :: outcome
  clock :: "nat \<Rightarrow> nat"
  reads :: "nat \<Rightarrow> outcome \<times> outcome \<times> outcome"
  through :: "outcome \<times> outcome"
  invalid :: "outcome \<times> outcome"
  expire :: outcome
  asked_ttl :: outcome
  asked_exists :: outcome

definition life :: nat where
  "life = 30000"

definition read_at :: "caching_env \<Rightarrow> nat \<Rightarrow> nat \<Rightarrow> system \<Rightarrow> (db_error + product) \<times> system" where
  "read_at e k i s = (case reads e k of (rg, q, rs) \<Rightarrow> get_product rg q rs (clock e k) life i s)"

text \<open>A read whose product is used, and one whose results are dropped.\<close>

definition used_read :: "caching_env \<Rightarrow> nat \<Rightarrow> nat \<Rightarrow> system \<Rightarrow> product option \<times> system" where
  "used_read e k i s = (case read_at e k i s of (Inl x, s1) \<Rightarrow> (None, s1) | (Inr p, s1) \<Rightarrow> (Some p, s1))"

definition dropped_read :: "caching_env \<Rightarrow> nat \<Rightarrow> nat \<Rightarrow> system \<Rightarrow> unit option \<times> system" where
  "dropped_read e k i s = (Some (), snd (read_at e k i s))"

definition demonstrate_cache_aside :: "caching_env \<Rightarrow> system \<Rightarrow> string option \<times> system" where
  "demonstrate_cache_aside e =
     and_then (used_read e 0 1) (\<lambda>p.
     and_then (dropped_read e 1 1) (\<lambda>_.
     give (name p)))"

text \<open>The price of the read after the update; \<open>None\<close> inside when the update failed and was logged.\<close>

definition after_update :: "(system \<Rightarrow> db_error option \<times> system) \<Rightarrow> (system \<Rightarrow> product option \<times> system) \<Rightarrow> system \<Rightarrow> int option option \<times> system" where
  "after_update upd rd s =
     (case upd s of
        (Some x, s1) \<Rightarrow> (Some None, s1)
      | (None, s1) \<Rightarrow> and_then rd (\<lambda>p. give (Some (price p))) s1)"

definition demonstrate_write_through :: "caching_env \<Rightarrow> system \<Rightarrow> int option option \<times> system" where
  "demonstrate_write_through e =
     and_then (dropped_read e 2 2) (\<lambda>_.
     after_update (update_price_write_through (fst (through e)) (snd (through e)) (clock e 3) life 2 2499) (used_read e 4 2))"

definition demonstrate_invalidation :: "caching_env \<Rightarrow> system \<Rightarrow> int option option \<times> system" where
  "demonstrate_invalidation e =
     and_then (dropped_read e 5 3) (\<lambda>_.
     after_update (update_price_invalidate (fst (invalid e)) (snd (invalid e)) 3 19900) (used_read e 7 3))"

text \<open>EXPIRE, TTL and EXISTS: errors are dropped and leave a zero.\<close>

definition demonstrate_ttl :: "caching_env \<Rightarrow> system \<Rightarrow> (int \<times> bool) option \<times> system" where
  "demonstrate_ttl e =
     and_then (dropped_read e 8 4) (\<lambda>_ s.
       let s1 = (if applied (expire e) then s\<lparr>rdb := r_expire (clock e 9) 1000 (cache_key 4) (rdb s)\<rparr> else s);
           ttl = (if err_of (asked_ttl e) = None then r_ttl (clock e 10) (cache_key 4) (rdb s1) else 0);
           there = (err_of (asked_exists e) = None \<and> r_get (clock e 11) (cache_key 4) (rdb s1) \<noteq> None)
       in (Some (ttl, there), s1))"

section \<open>The run\<close>

record caching_report =
  cold_name :: string
  through_price :: "int option"
  invalid_price :: "int option"
  ttl_shown :: int
  still_there :: bool
  hits_shown :: nat
  misses_shown :: nat

text \<open>The error of FLUSHDB is dropped.\<close>

definition caching_main :: "caching_env \<Rightarrow> system \<Rightarrow> caching_report option \<times> system" where
  "caching_main e =
     and_then (must (opened e) id) (\<lambda>_.
     and_then (must (ping e) id) (\<lambda>_.
     and_then (\<lambda>s. (Some (), (if applied (flush e) then s\<lparr>rdb := Map.empty\<rparr> else s)\<lparr>hits := 0, misses := 0\<rparr>)) (\<lambda>_.
     and_then (demonstrate_cache_aside e) (\<lambda>a.
     and_then (demonstrate_write_through e) (\<lambda>b.
     and_then (demonstrate_invalidation e) (\<lambda>c.
     and_then (demonstrate_ttl e) (\<lambda>d s.
     (Some \<lparr>cold_name = a, through_price = b, invalid_price = c, ttl_shown = fst d, still_there = snd d,
        hits_shown = hits s, misses_shown = misses s\<rparr>, s))))))))"

section \<open>What the demonstrations show\<close>

text \<open>At time \<open>t\<close> the cache has for product \<open>i\<close> what the database has, or nothing.\<close>

definition right :: "nat \<Rightarrow> nat \<Rightarrow> system \<Rightarrow> bool" where
  "right t i s \<longleftrightarrow> (\<forall>v. r_get t (cache_key i) (rdb s) = Some v \<longrightarrow> db s i = Some v)"

lemma right_later: "right t i s \<Longrightarrow> t \<le> t' \<Longrightarrow> right t' i s"
  unfolding right_def using r_get_later by metis

lemma right_absent: "rdb s (cache_key i) = None \<Longrightarrow> right t i s"
  by (simp add: right_def r_get_def)

lemma right_put: "right t i (populate t l i p s) \<longleftrightarrow> db s i = Some p"
  by (auto simp: right_def populate_def redis.get_put)

lemma keys_apart [simp]: "cache_key i = cache_key j \<longleftrightarrow> i = j"
  by (rule redis.key_inj)

text \<open>\<open>others i s s'\<close>: only product \<open>i\<close> can differ.\<close>

definition others :: "nat \<Rightarrow> system \<Rightarrow> system \<Rightarrow> bool" where
  "others i s s' \<longleftrightarrow> (\<forall>j. j \<noteq> i \<longrightarrow> rdb s' (cache_key j) = rdb s (cache_key j) \<and> db s' j = db s j)"

lemma others_trans: "others i s s' \<Longrightarrow> others i s' s'' \<Longrightarrow> others i s s''"
  by (simp add: others_def)

lemma read_at_step:
  assumes "right (clock e k) i s" and "read_at e k i s = (x, s')"
  shows "db s' = db s" "hits s' + misses s' = Suc (hits s + misses s)" "right (clock e k) i s'" "others i s s'"
    "x = Inr p \<Longrightarrow> db s i = Some p" "fst (snd (reads e k)) = Done \<Longrightarrow> db s i = Some p \<Longrightarrow> x = Inr p"
proof -
  obtain rg q rs where r: "reads e k = (rg, q, rs)" by (metis surj_pair)
  have g: "get_product rg q rs (clock e k) life i s = (x, s')" using assms(2) by (simp add: read_at_def r)
  show "db s' = db s" "hits s' + misses s' = Suc (hits s + misses s)" "others i s s'"
    using g by (auto simp: get_product_def query_def Let_def populate_def others_def r_set_def split: option.splits if_splits)
  have "right t i (s\<lparr>misses := n\<rparr>) = right t i s" "right t i (s\<lparr>hits := n\<rparr>) = right t i s" for t n by (simp_all add: right_def)
  with assms(1) g show "right (clock e k) i s'"
    by (auto simp: get_product_def query_def Let_def right_put split: option.splits if_splits)
  show "x = Inr p \<Longrightarrow> db s i = Some p" "fst (snd (reads e k)) = Done \<Longrightarrow> db s i = Some p \<Longrightarrow> x = Inr p"
    using assms(1) g by (auto simp: r get_product_def query_def Let_def right_def split: option.splits if_splits)
qed

text \<open>The two updates of an existing product, and what they have in common.\<close>

lemma updates_are:
  assumes "db s i = Some p"
  shows "update_price_write_through q r t l i c s = (if q = Done then err_of r else err_of q,
      (if q = Done \<and> applied r then populate t l i (p\<lparr>price := c\<rparr>) else id) (if applied q then s\<lparr>db := (db s)(i \<mapsto> p\<lparr>price := c\<rparr>)\<rparr> else s))"
    "update_price_invalidate q r i c s = (if q = Done then err_of r else err_of q,
      (if q = Done \<and> applied r then (\<lambda>s. s\<lparr>rdb := r_del (cache_key i) (rdb s)\<rparr>) else id) (if applied q then s\<lparr>db := (db s)(i \<mapsto> p\<lparr>price := c\<rparr>)\<rparr> else s))"
  using assms by (cases q; simp add: update_price_write_through_def update_price_invalidate_def set_price_def)+

definition updates :: "nat \<Rightarrow> nat \<Rightarrow> int \<Rightarrow> outcome \<times> outcome \<Rightarrow> (system \<Rightarrow> db_error option \<times> system) \<Rightarrow> bool" where
  "updates t i c env f \<longleftrightarrow> (\<forall>s p. db s i = Some p \<longrightarrow>
     hits (snd (f s)) + misses (snd (f s)) = hits s + misses s \<and> others i s (snd (f s)) \<and> (fst (f s) = None \<longleftrightarrow> env = (Done, Done)) \<and>
     (fst (f s) = None \<longrightarrow> db (snd (f s)) i = Some (p\<lparr>price := c\<rparr>) \<and> right t i (snd (f s))))"

lemma write_through_updates: "updates t i c (q, r) (update_price_write_through q r t l i c)"
  unfolding updates_def
proof (intro allI impI, goal_cases)
  case (1 s p)
  then show ?case
    by (cases q; cases r) (simp_all add: updates_are others_def populate_def r_set_def right_def r_get_def)
qed

lemma invalidate_updates: "updates t i c (q, r) (update_price_invalidate q r i c)"
  unfolding updates_def
proof (intro allI impI, goal_cases)
  case (1 s p)
  then show ?case
    by (cases q; cases r) (simp_all add: updates_are others_def r_del_def right_def r_get_def)
qed


abbreviation total :: "system \<Rightarrow> nat" where
  "total s \<equiv> hits s + misses s"

lemma after_update_step:
  assumes "updates t i c env upd" and "db s i = Some p" and "t \<le> clock e k"
  shows "fst (snd (reads e k)) = Done \<Longrightarrow> fst (after_update upd (used_read e k i) s) \<noteq> None"
    and "after_update upd (used_read e k i) s = (Some x, s') \<Longrightarrow>
      others i s s' \<and> x = (if env = (Done, Done) then Some c else None) \<and> total s' = total s + (if env = (Done, Done) then 1 else 0)"
proof -
  obtain y s1 where u: "upd s = (y, s1)" by fastforce
  have f: "total s1 = total s" "others i s s1" "y = None \<longleftrightarrow> env = (Done, Done)"
    "y = None \<longrightarrow> db s1 i = Some (p\<lparr>price := c\<rparr>) \<and> right t i s1"
    using assms(1) [unfolded updates_def, rule_format, OF assms(2)] by (simp_all add: u)
  obtain z s2 where r: "read_at e k i s1 = (z, s2)" by fastforce
  have st: "db s1 i = Some (p\<lparr>price := c\<rparr>)" "total s2 = Suc (total s1)" "others i s1 s2" "z = Inr q \<Longrightarrow> q = p\<lparr>price := c\<rparr>"
    "fst (snd (reads e k)) = Done \<Longrightarrow> z = Inr (p\<lparr>price := c\<rparr>)" if "y = None" for q
  proof -
    from that f(4) assms(3) have "right (clock e k) i s1" using right_later by blast
    note d = read_at_step [OF this r]
    from that f(4) show i: "db s1 i = Some (p\<lparr>price := c\<rparr>)" by blast
    from d(2,4) show "total s2 = Suc (total s1)" "others i s1 s2" by simp_all
    from d(5) i show "z = Inr q \<Longrightarrow> q = p\<lparr>price := c\<rparr>" by simp
    from d(6) i show "fst (snd (reads e k)) = Done \<Longrightarrow> z = Inr (p\<lparr>price := c\<rparr>)" by blast
  qed
  show "fst (snd (reads e k)) = Done \<Longrightarrow> fst (after_update upd (used_read e k i) s) \<noteq> None"
    using st(5) by (cases y) (simp_all add: after_update_def u and_then_def used_read_def r give_def)
  assume a: "after_update upd (used_read e k i) s = (Some x, s')"
  show "others i s s' \<and> x = (if env = (Done, Done) then Some c else None) \<and> total s' = total s + (if env = (Done, Done) then 1 else 0)"
  proof (cases y)
    case None
    with a obtain q where "z = Inr q" "s' = s2" "x = Some (price q)"
      by (auto simp: after_update_def u and_then_Some used_read_def r give_def split: sum.splits)
    with st(2-4) [OF None] f(1-3) None others_trans [OF f(2) st(3) [OF None]] show ?thesis by simp
  next
    case (Some err)
    with a f(1-3) show ?thesis by (auto simp: after_update_def u)
  qed
qed

text \<open>Products 1 to 4 are on sale; the cache holds nothing of those that were not read yet.\<close>

definition unread :: "(nat \<rightharpoonup> product) \<Rightarrow> nat \<Rightarrow> system \<Rightarrow> bool" where
  "unread d k s \<longleftrightarrow> (\<forall>i. k \<le> i \<longrightarrow> rdb s (cache_key i) = None \<and> db s i = d i)"

lemma unread_others: "unread d k s \<Longrightarrow> others k s s' \<Longrightarrow> unread d (Suc k) s'"
  by (simp add: unread_def others_def)

lemma first_read:
  assumes "unread d i s" and "read_at e k i s = (x, s')"
  shows "others i s s'" "db s' = db s" "total s' = Suc (total s)" "right (clock e k) i s'" "x = Inr p \<Longrightarrow> d i = Some p"
    "fst (snd (reads e k)) = Done \<Longrightarrow> d i = Some p \<Longrightarrow> x = Inr p"
proof -
  have n: "rdb s (cache_key i) = None" "db s i = d i" using assms(1) by (simp_all add: unread_def)
  note r = read_at_step [OF right_absent [OF n(1)] assms(2)]
  show "others i s s'" "db s' = db s" "total s' = Suc (total s)" "right (clock e k) i s'" "x = Inr p \<Longrightarrow> d i = Some p"
    "fst (snd (reads e k)) = Done \<Longrightarrow> d i = Some p \<Longrightarrow> x = Inr p"
    using r n(2) by simp_all
qed

lemma aside_step:
  assumes "unread d 1 s" and "clock e 0 \<le> clock e 1"
  shows "fst (snd (reads e 0)) = Done \<Longrightarrow> d 1 \<noteq> None \<Longrightarrow> fst (demonstrate_cache_aside e s) \<noteq> None"
    and "demonstrate_cache_aside e s = (Some x, s') \<Longrightarrow> unread d 2 s' \<and> total s' = total s + 2 \<and> x = name (the (d 1))"
proof -
  obtain y s1 where r: "read_at e 0 1 s = (y, s1)" by fastforce
  note f = first_read [OF assms(1) r]
  obtain z s2 where r2: "read_at e 1 1 s1 = (z, s2)" by fastforce
  note g = read_at_step [OF right_later [OF f(4) assms(2)] r2]
  show "fst (snd (reads e 0)) = Done \<Longrightarrow> d 1 \<noteq> None \<Longrightarrow> fst (demonstrate_cache_aside e s) \<noteq> None"
    using f(6) by (auto simp: demonstrate_cache_aside_def and_then_def used_read_def dropped_read_def r give_def simp del: One_nat_def)
  assume "demonstrate_cache_aside e s = (Some x, s')"
  then obtain p where "y = Inr p" "s' = s2" "x = name p"
    by (auto simp: demonstrate_cache_aside_def and_then_Some used_read_def r r2 dropped_read_def give_def simp del: One_nat_def split: sum.splits)
  with unread_others [OF assms(1) others_trans [OF f(1) g(4)]] f(3,5) g(2) show "unread d 2 s' \<and> total s' = total s + 2 \<and> x = name (the (d 1))"
    by (simp add: numeral_2_eq_2)
qed

lemma update_demo_step:
  assumes "unread d i s" and "updates t i c env upd" and "d i = Some p" and "t \<le> clock e k'"
  shows "fst (snd (reads e k')) = Done \<Longrightarrow> fst (and_then (dropped_read e k i) (\<lambda>_. after_update upd (used_read e k' i)) s) \<noteq> None"
    and "and_then (dropped_read e k i) (\<lambda>_. after_update upd (used_read e k' i)) s = (Some x, s') \<Longrightarrow>
      unread d (Suc i) s' \<and> x = (if env = (Done, Done) then Some c else None) \<and> total s' = total s + (if env = (Done, Done) then 2 else 1)"
proof -
  obtain y s1 where r: "read_at e k i s = (y, s1)" by fastforce
  note f = first_read [OF assms(1) r]
  have "db s1 i = Some p" using assms(1,3) f(2) by (simp add: unread_def)
  note u = after_update_step [OF assms(2) this assms(4)]
  show "fst (snd (reads e k')) = Done \<Longrightarrow> fst (and_then (dropped_read e k i) (\<lambda>_. after_update upd (used_read e k' i)) s) \<noteq> None"
    using u(1) by (simp add: and_then_def dropped_read_def r)
  assume "and_then (dropped_read e k i) (\<lambda>_. after_update upd (used_read e k' i)) s = (Some x, s')"
  then have "after_update upd (used_read e k' i) s1 = (Some x, s')" by (simp add: and_then_def dropped_read_def r)
  from u(2) [OF this] unread_others [OF assms(1) others_trans [OF f(1)]] f(3)
  show "unread d (Suc i) s' \<and> x = (if env = (Done, Done) then Some c else None) \<and> total s' = total s + (if env = (Done, Done) then 2 else 1)"
    by simp
qed


lemma through_step:
  assumes "unread d 2 s" and "d 2 = Some p" and "clock e 3 \<le> clock e 4"
  shows "fst (snd (reads e 4)) = Done \<Longrightarrow> fst (demonstrate_write_through e s) \<noteq> None"
    and "demonstrate_write_through e s = (Some x, s') \<Longrightarrow> unread d 3 s' \<and> x = (if through e = (Done, Done) then Some 2499 else None) \<and>
      total s' = total s + (if through e = (Done, Done) then 2 else 1)"
  using update_demo_step [OF assms(1) write_through_updates [of "clock e 3" 2 2499 "fst (through e)" "snd (through e)" life] assms(2,3), of 2]
  unfolding demonstrate_write_through_def by simp_all

lemma invalid_step:
  assumes "unread d 3 s" and "d 3 = Some p"
  shows "fst (snd (reads e 7)) = Done \<Longrightarrow> fst (demonstrate_invalidation e s) \<noteq> None"
    and "demonstrate_invalidation e s = (Some x, s') \<Longrightarrow> unread d 4 s' \<and> x = (if invalid e = (Done, Done) then Some 19900 else None) \<and>
      total s' = total s + (if invalid e = (Done, Done) then 2 else 1)"
  using update_demo_step [OF assms(1) invalidate_updates [of "clock e 7" 3 19900 "fst (invalid e)" "snd (invalid e)"] assms(2) order_refl, of 5]
  unfolding demonstrate_invalidation_def by simp_all

lemma ttl_step:
  assumes "unread d 4 s" and "demonstrate_ttl e s = (Some x, s')"
  shows "total s' = Suc (total s)" "applied (expire e) \<Longrightarrow> clock e 9 + 1000 \<le> clock e 11 \<Longrightarrow> \<not> snd x"
proof -
  obtain y s1 where r: "read_at e 8 4 s = (y, s1)" by fastforce
  have "r_get t' k (r_expire t l k m) = None" if "t + l \<le> t'" for t t' l k and m :: "product redis"
    using that r_get_later [of t t' k m] by (auto simp: r_expire_def r_get_def split: option.splits if_splits)
  with assms(2) show "applied (expire e) \<Longrightarrow> clock e 9 + 1000 \<le> clock e 11 \<Longrightarrow> \<not> snd x"
    by (auto simp: demonstrate_ttl_def and_then_def dropped_read_def r Let_def)
  from assms(2) first_read(3) [OF assms(1) r] show "total s' = Suc (total s)"
    by (auto simp: demonstrate_ttl_def and_then_def dropped_read_def r Let_def split: if_splits)
qed

text \<open>
  Whatever fails: if \<open>main\<close> gets to its statistics with a flushed cache, every price it prints after an update is
  the new one, it prints one exactly when the update reported success, the hits and misses add up to the
  reads, and the expired key is gone. It gets there if the servers are reachable and the three reads
  whose result is used find their product.
\<close>

theorem caching_main_result:
  assumes "\<forall>i \<in> {1, 2, 3, 4}. db s i \<noteq> None" and "applied (flush e)" and "mono (clock e)"
  shows "(opened e = Done \<and> ping e = Done \<and> (\<forall>k \<in> {0, 4, 7}. fst (snd (reads e k)) = Done) \<longrightarrow> fst (caching_main e s) \<noteq> None) \<and>
    (\<forall>r s'. caching_main e s = (Some r, s') \<longrightarrow> cold_name r = name (the (db s 1)) \<and>
      through_price r = (if through e = (Done, Done) then Some 2499 else None) \<and>
      invalid_price r = (if invalid e = (Done, Done) then Some 19900 else None) \<and>
      hits_shown r + misses_shown r = 5 + (if through e = (Done, Done) then 1 else 0) + (if invalid e = (Done, Done) then 1 else 0) \<and>
      (applied (expire e) \<and> clock e 9 + 1000 \<le> clock e 11 \<longrightarrow> \<not> still_there r))"
proof -
  let ?s0 = "s\<lparr>rdb := Map.empty, hits := 0, misses := 0\<rparr>"
  obtain p2 p3 where p: "db s 2 = Some p2" "db s 3 = Some p3" using assms(1) by auto
  have c: "clock e 0 \<le> clock e 1" "clock e 3 \<le> clock e 4" using assms(3) by (simp_all add: mono_def)
  note a = aside_step [of "db s" ?s0 e, OF _ c(1)]
  have u0: "unread (db s) 1 ?s0" by (simp add: unread_def)
  obtain x1 s1 where d1: "demonstrate_cache_aside e ?s0 = (x1, s1)" by fastforce
  obtain x2 s2 where d2: "demonstrate_write_through e s1 = (x2, s2)" by fastforce
  obtain x3 s3 where d3: "demonstrate_invalidation e s2 = (x3, s3)" by fastforce
  obtain x4 s4 where d4: "demonstrate_ttl e s3 = (x4, s4)" by fastforce
  have t: "x4 \<noteq> None" using d4 by (auto simp: demonstrate_ttl_def and_then_def dropped_read_def Let_def)
  have m: "caching_main e s = (if opened e = Done \<and> ping e = Done
     then and_then (demonstrate_cache_aside e) (\<lambda>a. and_then (demonstrate_write_through e) (\<lambda>b. and_then (demonstrate_invalidation e) (\<lambda>c.
       and_then (demonstrate_ttl e) (\<lambda>d s. (Some \<lparr>cold_name = a, through_price = b, invalid_price = c, ttl_shown = fst d, still_there = snd d,
        hits_shown = hits s, misses_shown = misses s\<rparr>, s))))) ?s0 else (None, s))"
    using assms(2) by (simp add: caching_main_def and_then_def [of "must _ _"] and_then_def [of "\<lambda>s. (Some (), _ s)"] must_def)
  have f1: "unread (db s) 2 s1 \<and> total s1 = 2 \<and> x = name (the (db s 1))" if "x1 = Some x" for x
    using a(2) [OF u0] d1 that by simp
  have f2: "unread (db s) 3 s2 \<and> x = (if through e = (Done, Done) then Some 2499 else None) \<and> total s2 = total s1 + (if through e = (Done, Done) then 2 else 1)"
    if "x1 \<noteq> None" "x2 = Some x" for x
    using through_step(2) [of "db s" s1 p2 e, OF _ p(1) c(2)] f1 d2 that by fastforce
  have f3: "unread (db s) 4 s3 \<and> x = (if invalid e = (Done, Done) then Some 19900 else None) \<and> total s3 = total s2 + (if invalid e = (Done, Done) then 2 else 1)"
    if "x1 \<noteq> None" "x2 \<noteq> None" "x3 = Some x" for x
    using invalid_step(2) [of "db s" s2 p3 e, OF _ p(2)] f2 d3 that by fastforce
  have r: "x1 \<noteq> None \<and> x2 \<noteq> None \<and> x3 \<noteq> None" if "\<forall>k \<in> {0, 4, 7}. fst (snd (reads e k)) = Done"
    using that a(1) [OF u0] assms(1) through_step(1) [of "db s" s1 p2 e, OF _ p(1) c(2)] invalid_step(1) [of "db s" s2 p3 e, OF _ p(2)] f1 f2 d1 d2 d3 by fastforce
  show ?thesis
  proof (intro conjI impI allI)
    assume "opened e = Done \<and> ping e = Done \<and> (\<forall>k \<in> {0, 4, 7}. fst (snd (reads e k)) = Done)"
    with r t show "fst (caching_main e s) \<noteq> None" by (auto simp: m and_then_def d1 d2 d3 d4)
  next
    fix y s'
    assume "caching_main e s = (Some y, s')"
    then obtain z1 z2 z3 z4 where z: "x1 = Some z1" "x2 = Some z2" "x3 = Some z3" "x4 = Some z4" "s' = s4"
      "y = \<lparr>cold_name = z1, through_price = z2, invalid_price = z3, ttl_shown = fst z4, still_there = snd z4, hits_shown = hits s4, misses_shown = misses s4\<rparr>"
      by (auto simp: m and_then_def d1 d2 d3 d4 split: if_splits option.splits)
    have k: "unread (db s) 4 s3" using f3 z by simp
    note l = ttl_step [OF k d4 [unfolded z(4)]]
    show "cold_name y = name (the (db s 1))" "through_price y = (if through e = (Done, Done) then Some 2499 else None)"
      "invalid_price y = (if invalid e = (Done, Done) then Some 19900 else None)"
      using f1 [OF z(1)] f2 [OF _ z(2)] f3 [OF _ _ z(3)] z by simp_all
    show "hits_shown y + misses_shown y = 5 + (if through e = (Done, Done) then 1 else 0) + (if invalid e = (Done, Done) then 1 else 0)"
      using f1 [OF z(1)] f2 [OF _ z(2)] f3 [OF _ _ z(3)] z l(1) by simp
    assume "applied (expire e) \<and> clock e 9 + 1000 \<le> clock e 11"
    with l(2) z(6) show "\<not> still_there y" by simp
  qed
qed


text \<open>Everything answers and the entry expires before it is looked for.\<close>

definition calm :: caching_env where
  "calm = \<lparr>opened = Done, ping = Done, flush = Done, clock = (\<lambda>k. if k < 11 then 100 * k else 100 * k + 1000), reads = (\<lambda>_. (Done, Done, Done)),
     through = (Done, Done), invalid = (Done, Done), expire = Done, asked_ttl = Done, asked_exists = Done\<rparr>"

theorem caching_main_result_witness:
  "\<exists>r s'. caching_main (calm\<lparr>reads := (\<lambda>_. (Refused Transport, Done, Lost Transport))\<rparr>) shop = (Some r, s') \<and> through_price r = Some 2499 \<and>
     invalid_price r = Some 19900 \<and> hits_shown r + misses_shown r = 7 \<and> \<not> still_there r"
proof -
  let ?e = "calm\<lparr>reads := (\<lambda>_. (Refused Transport, Done, Lost Transport))\<rparr>"
  have "\<forall>i \<in> {1, 2, 3, 4}. db shop i \<noteq> None" "applied (flush ?e)" "mono (clock ?e)"
    by (simp_all add: shop_def calm_def mono_def)
  note m = caching_main_result [OF this]
  obtain x s' where r: "caching_main ?e shop = (x, s')" by fastforce
  from m have "fst (caching_main ?e shop) \<noteq> None" by (simp add: calm_def)
  with r obtain y where y: "x = Some y" by auto
  from m r y show ?thesis by (simp add: calm_def)
qed

text \<open>A cold read that fails ends the program with a nil pointer: the error is dropped and the product is used.\<close>

theorem failed_cold_read_panics:
  assumes "applied (flush e)" and "fst (snd (reads e 0)) = Refused x"
  shows "fst (caching_main e s) = None"
proof -
  let ?s = "s\<lparr>rdb := Map.empty, hits := 0, misses := 0\<rparr>"
  obtain rg rs where "reads e 0 = (rg, Refused x, rs)" using assms(2) by (metis prod.collapse)
  then have "fst (read_at e 0 1 ?s) = Inl x" by (simp add: read_at_def get_product_def r_get_def query_simps Let_def)
  then obtain s1 where "demonstrate_cache_aside e ?s = (None, s1)"
    by (cases "read_at e 0 1 ?s") (simp add: demonstrate_cache_aside_def and_then_def used_read_def)
  then show ?thesis
    using assms(1) by (simp add: caching_main_def and_then_def must_def)
qed

theorem failed_cold_read_panics_witness:
  "fst (caching_main (calm\<lparr>reads := (\<lambda>_. (Done, Refused Transport, Done))\<rparr>) shop) = None"
  by (rule failed_cold_read_panics) (simp_all add: calm_def)

text \<open>The output of an undisturbed run.\<close>

lemma caching_main_output:
  "fst (caching_main calm shop) = Some \<lparr>cold_name = ''Mechanical Keyboard'', through_price = Some 2499, invalid_price = Some 19900,
     ttl_shown = 1, still_there = False, hits_shown = 2, misses_shown = 5\<rparr>"
  by (simp add: caching_main_def and_then_def must_def give_def demonstrate_cache_aside_def demonstrate_write_through_def demonstrate_invalidation_def
      demonstrate_ttl_def used_read_def dropped_read_def after_update_def read_at_def get_product_def query_def r_get_def populate_def r_set_def
      r_del_def r_expire_def r_ttl_def update_price_write_through_def update_price_invalidate_def set_price_def calm_def shop_def life_def)

end
