(* ===== verification/Routing.thy ===== *)
theory Routing
  imports GoStd
begin

text \<open>
  \<open>simulate_read_replicas/main.go\<close> and \<open>simulate_read_write_splitting/main.go\<close>: one primary and
  replicas that replay its write-ahead log. A position in the log (an LSN) is the number of
  records before it; a server shows the rows of the part of the log it has replayed.
\<close>

section \<open>Connecting\<close>

text \<open>
  \<open>NewReplicaSet\<close> and \<open>NewRouter\<close>: open the primary, then each replica. On an error everything opened
  so far is closed. The result carries the pools that are open afterwards (0 is the primary).
\<close>

datatype connect_error = ToPrimary | ToReplica nat

fun open_replicas :: "(nat \<Rightarrow> outcome) \<Rightarrow> nat \<Rightarrow> nat \<Rightarrow> nat list \<Rightarrow> (connect_error + nat) \<times> nat list" where
  "open_replicas env 0 i opened = (Inr i, opened)"
| "open_replicas env (Suc left) i opened =
     (if err_of (env (Suc i)) \<noteq> None then (Inl (ToReplica (Suc i)), [])
      else open_replicas env left (Suc i) (opened @ [Suc i]))"

definition connect :: "(nat \<Rightarrow> outcome) \<Rightarrow> nat \<Rightarrow> (connect_error + nat) \<times> nat list" where
  "connect env replicas =
     (if err_of (env 0) \<noteq> None then (Inl ToPrimary, []) else open_replicas env replicas 0 [0])"

section \<open>Servers and router\<close>

record cluster =
  wal :: "string list"
  replayed :: "nat list"

definition view_at :: "cluster \<Rightarrow> nat \<Rightarrow> string list" where
  "view_at c n = take n (wal c)"

datatype server = Primary | Replica nat

record router =
  next_ctr :: "64 word"
  writes :: nat
  reads_replica :: nat
  reads_primary :: nat

definition new_router :: router where
  "new_router = \<lparr>next_ctr = 0, writes = 0, reads_replica = 0, reads_primary = 0\<rparr>"

text \<open>\<open>pickReplica\<close> and \<open>readerWithIndex\<close>: the counter is incremented first and wraps at 64 bits.\<close>

definition pick_replica :: "nat \<Rightarrow> router \<Rightarrow> server \<times> router" where
  "pick_replica n r =
     (if n = 0 then (Primary, r)
      else let i = next_ctr r + 1 in (Replica (unat i mod n), r\<lparr>next_ctr := i\<rparr>))"

definition write_row :: "outcome \<Rightarrow> outcome \<Rightarrow> string \<Rightarrow> cluster \<Rightarrow> router \<Rightarrow> (db_error + nat) \<times> cluster \<times> router" where
  "write_row x q row c r =
     (let c1 = (if applied x then c\<lparr>wal := wal c @ [row]\<rparr> else c) in
      case err_of x of
        Some e \<Rightarrow> (Inl e, c1, r)
      | None \<Rightarrow> (query q (length (wal c1)), c1, r\<lparr>writes := writes r + 1\<rparr>))"

definition rows_on :: "cluster \<Rightarrow> server \<Rightarrow> string list" where
  "rows_on c s = (case s of Primary \<Rightarrow> wal c | Replica i \<Rightarrow> view_at c (replayed c ! i))"

definition read_rows :: "outcome \<Rightarrow> cluster \<Rightarrow> router \<Rightarrow> (db_error + string list) \<times> router" where
  "read_rows q c r =
     (case pick_replica (length (replayed c)) r of
        (Primary, r') \<Rightarrow> (query q (wal c), r'\<lparr>reads_primary := reads_primary r' + 1\<rparr>)
      | (Replica i, r') \<Rightarrow> (query q (rows_on c (Replica i)), r'\<lparr>reads_replica := reads_replica r' + 1\<rparr>))"

text \<open>
  \<open>ConsistentRead\<close>: replica \<open>i\<close> is asked with outcome \<open>fst (env i)\<close> whether it has replayed the LSN;
  \<open>None\<close> is the empty LSN of a failed \<open>Write\<close>, on which that query errs. By the time of the read
  itself, with outcome \<open>snd (env i)\<close>, the replica has replayed \<open>adv i\<close> further records.
\<close>

fun consistent_loop :: "(nat \<Rightarrow> outcome \<times> outcome) \<Rightarrow> (nat \<Rightarrow> nat) \<Rightarrow> nat option \<Rightarrow> nat \<Rightarrow> nat list \<Rightarrow> cluster
    \<Rightarrow> (nat \<times> (db_error + string list)) option" where
  "consistent_loop env adv lsn i [] c = None"
| "consistent_loop env adv lsn i (p # ps) c =
     (if err_of (fst (env i)) = None \<and> (case lsn of None \<Rightarrow> False | Some l \<Rightarrow> l \<le> p)
      then Some (i, query (snd (env i)) (view_at c (p + adv i)))
      else consistent_loop env adv lsn (Suc i) ps c)"

definition consistent_read :: "(nat \<Rightarrow> outcome \<times> outcome) \<Rightarrow> outcome \<Rightarrow> (nat \<Rightarrow> nat) \<Rightarrow> nat option \<Rightarrow> cluster \<Rightarrow> router
    \<Rightarrow> (db_error + string list) \<times> server \<times> router" where
  "consistent_read env q adv lsn c r =
     (case consistent_loop env adv lsn 0 (replayed c) c of
        Some (i, x) \<Rightarrow> (x, Replica i, r\<lparr>reads_replica := reads_replica r + 1\<rparr>)
      | None \<Rightarrow> (query q (wal c), Primary, r\<lparr>reads_primary := reads_primary r + 1\<rparr>))"

section \<open>Replication\<close>

text \<open>What happens between two calls of a client: other writes, and replicas that replay.\<close>

inductive cluster_step :: "cluster \<Rightarrow> cluster \<Rightarrow> bool" where
  appended: "cluster_step c (c\<lparr>wal := wal c @ [row]\<rparr>)"
| replaying: "i < length (replayed c) \<Longrightarrow> n \<le> length (wal c) \<Longrightarrow> replayed c ! i \<le> n \<Longrightarrow>
    cluster_step c (c\<lparr>replayed := (replayed c)[i := n]\<rparr>)"

lemma cluster_steps_wal: "cluster_step\<^sup>*\<^sup>* c c' \<Longrightarrow> \<exists>rows. wal c' = wal c @ rows"
proof (induction rule: rtranclp_induct)
  case (step c1 c2)
  from step(2,3) show ?case by (auto elim!: cluster_step.cases)
qed simp

lemma view_contains: "i < length (wal c) \<Longrightarrow> i < n \<Longrightarrow> wal c ! i \<in> set (view_at c n)"
  by (force simp: view_at_def in_set_conv_nth)

lemma consistent_loop_view:
  "consistent_loop env adv (Some l) i ps c = Some (j, Inr rows) \<Longrightarrow> \<exists>n. l \<le> n \<and> rows = view_at c n"
  by (induction env adv "Some l" i ps c rule: consistent_loop.induct)
    (auto simp: query_Inr split: if_splits intro: trans_le_add1)

section \<open>Round robin\<close>

fun picks :: "nat \<Rightarrow> nat \<Rightarrow> router \<Rightarrow> nat list" where
  "picks n 0 r = []"
| "picks n (Suc k) r = (case pick_replica n r of (Replica i, r') \<Rightarrow> i # picks n k r' | (Primary, r') \<Rightarrow> picks n k r')"

lemma unat_succ:
  fixes w :: "64 word"
  assumes "unat w + k < 2 ^ 64" "0 < k"
  shows "unat (w + 1) = Suc (unat w)"
proof -
  have "unat w + unat (1 :: 64 word) < 2 ^ LENGTH(64)" using assms by simp
  from unat_add_lem [THEN iffD1, OF this] show ?thesis by simp
qed

lemma window_count:
  assumes "0 < n" "x < (n :: nat)"
  shows "length (filter (\<lambda>j. j mod n = x) [a..<a + n]) = 1"
proof (induction a)
  case 0
  have "filter (\<lambda>j. j mod n = x) [0..<n] = filter (\<lambda>j. j = x) [0..<n]"
    by (intro filter_cong) auto
  also have "length \<dots> = 1" using assms(2) by (simp add: length_filter_conv_card card_1_singleton_iff) auto
  finally show ?case by simp
next
  case (Suc a)
  let ?f = "\<lambda>js. length (filter (\<lambda>j. j mod n = x) js)"
  have e: "[a..<a + n] @ [a + n] = a # [Suc a..<Suc a + n]"
    using upt_conv_Cons [of a "Suc (a + n)"] by simp
  have "?f [a..<a + n] + ?f [a + n] = ?f ([a..<a + n] @ [a + n])" by simp
  also have "\<dots> = ?f [a] + ?f [Suc a..<Suc a + n]" unfolding e by simp
  finally have "?f [a..<a + n] + ?f [a + n] = ?f [a] + ?f [Suc a..<Suc a + n]" .
  moreover have "?f [a + n] = ?f [a]" by simp
  ultimately have "?f [a..<a + n] = ?f [Suc a..<Suc a + n]" by linarith
  with Suc show ?case by (simp only:)
qed

lemma windows_count:
  assumes "0 < n" "x < (n :: nat)"
  shows "length (filter (\<lambda>j. j mod n = x) [a..<a + q * n]) = q"
proof (induction q arbitrary: a)
  case (Suc q)
  have "a + Suc q * n = (a + n) + q * n" by simp
  then have "[a..<a + Suc q * n] = [a..<a + n] @ [a + n..<(a + n) + q * n]"
    using upt_add_eq_append [of a "a + n" "q * n"] by (simp only: le_add1)
  with Suc [of "a + n"] window_count [OF assms, of a] show ?case by (simp del: upt_Suc)
qed simp

lemma picks_sequence:
  assumes "0 < n" and "unat (next_ctr r) + k < 2 ^ 64"
  shows "picks n k r = map (\<lambda>j. j mod n) [Suc (unat (next_ctr r))..<Suc (unat (next_ctr r) + k)]"
  using assms(2)
proof (induction k arbitrary: r)
  case (Suc k)
  have u: "unat (next_ctr r + 1) = Suc (unat (next_ctr r))"
    using Suc.prems by (intro unat_succ [of _ "Suc k"]) auto
  have "picks n (Suc k) r = Suc (unat (next_ctr r)) mod n # picks n k (r\<lparr>next_ctr := next_ctr r + 1\<rparr>)"
    using assms(1) by (simp add: pick_replica_def Let_def u)
  also have "\<dots> = Suc (unat (next_ctr r)) mod n #
      map (\<lambda>j. j mod n) [Suc (Suc (unat (next_ctr r)))..<Suc (Suc (unat (next_ctr r)) + k)]"
    using Suc.IH [of "r\<lparr>next_ctr := next_ctr r + 1\<rparr>"] Suc.prems by (simp add: u del: upt_Suc)
  finally show ?case by (simp add: upt_conv_Cons del: upt_Suc picks.simps)
qed simp

lemma picks_count:
  assumes "i < n" and "unat (next_ctr r) + q * n < 2 ^ 64"
  shows "count_list (picks n (q * n) r) i = q"
proof -
  have n: "0 < n" using assms(1) by simp
  have "count_list (map (\<lambda>j. j mod n) js) i = length (filter (\<lambda>j. j mod n = i) js)" for js
    by (induction js) auto
  with windows_count [OF n assms(1), of "Suc (unat (next_ctr r))" q] show ?thesis
    unfolding picks_sequence [OF n assms(2)] by (simp del: upt_Suc)
qed

section \<open>Properties\<close>

lemma consistent_read_row:
  assumes "write_row x q row c r = (Inr lsn, c1, r1)" and "cluster_step\<^sup>*\<^sup>* c1 c2"
    and "consistent_read env q' adv (Some lsn) c2 r2 = (Inr rows, srv, r3)"
  shows "row \<in> set rows"
proof -
  from assms(1) have c1: "wal c1 = wal c @ [row]" "lsn = length (wal c1)"
    by (auto simp: write_row_def Let_def query_Inr split: option.splits if_splits)
  from cluster_steps_wal [OF assms(2)] obtain more where w2: "wal c2 = wal c1 @ more" by blast
  have at: "wal c2 ! length (wal c) = row" "length (wal c) < length (wal c2)" by (simp_all add: w2 c1(1) nth_append)
  from assms(3) have "rows = wal c2 \<or> (\<exists>n. lsn \<le> n \<and> rows = view_at c2 n)"
    by (auto simp: consistent_read_def query_Inr dest!: consistent_loop_view split: option.splits)
  then show ?thesis
  proof
    assume "rows = wal c2"
    then show ?thesis by (simp add: w2 c1(1))
  next
    assume "\<exists>n. lsn \<le> n \<and> rows = view_at c2 n"
    then obtain n where "lsn \<le> n" "rows = view_at c2 n" by blast
    with view_contains [OF at(2), of n] at(1) c1 show ?thesis by simp
  qed
qed

text \<open>C26: A consistent read after a successful write never misses the written row, whatever other
  writes and replication happen in between, whichever replicas answer, and also when the read is
  served by a replica.\<close>

theorem consistent_read_sees_write:
  assumes "write_row x q row c r = (Inr lsn, c1, r1)" and "cluster_step\<^sup>*\<^sup>* c1 c2"
    and "consistent_read env q' adv (Some lsn) c2 r2 = (Inr rows, srv, r3)"
  shows "row \<in> set rows"
  by (rule consistent_read_row [OF assms])

definition two_replicas :: cluster where
  "two_replicas = \<lparr>wal = [''alice''], replayed = [0, 1]\<rparr>"

theorem consistent_read_sees_write_witness:
  "\<exists>c1 r1 rows srv r2. write_row Done Done ''eve'' two_replicas new_router = (Inr 2, c1, r1) \<and>
     consistent_read (\<lambda>_. (Done, Done)) Done (\<lambda>_. 0) (Some 2) c1 r1 = (Inr rows, srv, r2) \<and> ''eve'' \<in> set rows"
proof -
  obtain c1 r1 where w: "write_row Done Done ''eve'' two_replicas new_router = (Inr 2, c1, r1)"
    by (simp add: write_row_def two_replicas_def query_simps)
  then have "replayed c1 = [0, 1]" by (auto simp: write_row_def two_replicas_def query_simps)
  then obtain rows srv r2 where c: "consistent_read (\<lambda>_. (Done, Done)) Done (\<lambda>_. 0) (Some 2) c1 r1 = (Inr rows, srv, r2)"
    by (simp add: consistent_read_def query_simps)
  from consistent_read_sees_write [OF w _ c] w c show ?thesis by blast
qed

text \<open>Round robin is fair: of \<open>q * n\<close> consecutive reads over \<open>n\<close> replicas every replica gets \<open>q\<close>,
  until the 64-bit counter wraps.\<close>

theorem round_robin_fair:
  assumes "i < n" and "unat (next_ctr r) + q * n < 2 ^ 64"
  shows "count_list (picks n (q * n) r) i = q"
  using assms by (rule picks_count)

theorem round_robin_fair_witness: "count_list (picks 2 6 new_router) 0 = 3"
  using round_robin_fair [of 0 2 new_router 3] by (simp add: new_router_def)

lemma open_replicas_pools:
  "open_replicas env left i opened = (x, ps) \<Longrightarrow> (case x of Inl _ \<Rightarrow> ps = [] | Inr n \<Rightarrow> n = i + left \<and> ps = opened @ [Suc i..<Suc (i + left)])"
proof (induction env left i opened arbitrary: x ps rule: open_replicas.induct)
  case (2 env left i opened)
  then show ?case
    by (cases x) (auto simp: upt_conv_Cons split: if_splits simp del: upt_Suc)
qed auto

text \<open>Connecting leaks no pool: after an error nothing is open, after a success exactly the primary
  and every replica.\<close>

theorem connect_leaks_nothing:
  "case connect env n of (Inl _, ps) \<Rightarrow> ps = [] | (Inr k, ps) \<Rightarrow> k = n \<and> ps = [0..<Suc n]"
proof (cases "err_of (env 0)")
  case None
  obtain x ps where o: "open_replicas env n 0 [0] = (x, ps)" by fastforce
  with None open_replicas_pools [OF o] show ?thesis
    by (auto simp: connect_def upt_conv_Cons simp del: upt_Suc split: sum.splits)
qed (simp add: connect_def)

section \<open>The demonstrations\<close>

text \<open>
  \<open>demonstrateRouting\<close>: one write, then four reads; \<open>between i\<close> is what other clients and the replication do before the
  \<open>i\<close>-th. Customers appear by their email.
\<close>

fun routed_reads :: "(nat \<Rightarrow> outcome) \<Rightarrow> (nat \<Rightarrow> cluster \<Rightarrow> cluster) \<Rightarrow> nat \<Rightarrow> nat \<Rightarrow> cluster \<Rightarrow> router \<Rightarrow> nat option list \<times> cluster \<times> router" where
  "routed_reads env between 0 i c r = ([], c, r)"
| "routed_reads env between (Suc left) i c r =
     (let c1 = between i c;
          (x, r1) = read_rows (env i) c1 r;
          (ys, c2, r2) = routed_reads env between left (Suc i) c1 r1
      in ((case x of Inl e \<Rightarrow> None | Inr rows \<Rightarrow> Some (length rows)) # ys, c2, r2))"

definition demonstrate_routing :: "outcome \<Rightarrow> outcome \<Rightarrow> (nat \<Rightarrow> outcome) \<Rightarrow> (nat \<Rightarrow> cluster \<Rightarrow> cluster) \<Rightarrow> cluster \<Rightarrow> router
    \<Rightarrow> ((db_error + nat) \<times> nat option list) \<times> cluster \<times> router" where
  "demonstrate_routing x q env between c r =
     (let (w, c1, r1) = write_row x q ''eve@example.com'' c r;
          (ys, c2, r2) = routed_reads env between 4 0 c1 r1
      in ((w, ys), c2, r2))"

text \<open>
  \<open>demonstrateConsistentRead\<close>: the server and the rows of the first read, and the server of the second; \<open>None\<close> when it
  returns early. The environment of a consistent read: the answers per replica, that of the primary, and the progress.
\<close>

type_synonym read_env = "(nat \<Rightarrow> outcome \<times> outcome) \<times> outcome \<times> (nat \<Rightarrow> nat)"

definition read_at :: "read_env \<Rightarrow> nat \<Rightarrow> cluster \<Rightarrow> router \<Rightarrow> (db_error + string list) \<times> server \<times> router" where
  "read_at e lsn c r = (case e of (env, q, adv) \<Rightarrow> consistent_read env q adv (Some lsn) c r)"

definition demonstrate_consistent_read :: "outcome \<Rightarrow> outcome \<Rightarrow> string \<Rightarrow> read_env \<Rightarrow> read_env \<Rightarrow> (nat \<Rightarrow> cluster \<Rightarrow> cluster) \<Rightarrow> cluster \<Rightarrow> router
    \<Rightarrow> ((server \<times> string list) \<times> server option) option \<times> cluster \<times> router" where
  "demonstrate_consistent_read x q email e1 e2 between c r =
     (case write_row x q email c r of
        (Inl e, c1, r1) \<Rightarrow> (None, c1, r1)
      | (Inr lsn, c1, r1) \<Rightarrow>
          (let c2 = between 0 c1 in
           case read_at e1 lsn c2 r1 of
             (Inl e, src, r2) \<Rightarrow> (None, c2, r2)
           | (Inr rows, src, r2) \<Rightarrow>
               (let c3 = between 1 c2; (y, src2, r3) = read_at e2 lsn c3 r2
                in (Some ((src, filter (\<lambda>row. row = email) rows), case y of Inl e \<Rightarrow> None | Inr _ \<Rightarrow> Some src2), c3, r3))))"

text \<open>\<open>main\<close>: \<open>None\<close> when the router cannot be built, otherwise the second demonstration and the statistics.\<close>

record split_env =
  opened :: "nat \<Rightarrow> outcome"
  first_write :: "outcome \<times> outcome"
  plain_reads :: "nat \<Rightarrow> outcome"
  second_write :: "outcome \<times> outcome"
  early_read :: read_env
  late_read :: read_env
  during_reads :: "nat \<Rightarrow> cluster \<Rightarrow> cluster"
  during_consistent :: "nat \<Rightarrow> cluster \<Rightarrow> cluster"

definition split_main :: "split_env \<Rightarrow> string \<Rightarrow> cluster \<Rightarrow> (((server \<times> string list) \<times> server option) option \<times> router) option \<times> cluster" where
  "split_main e email c =
     (case connect (opened e) (length (replayed c)) of
        (Inl err, ps) \<Rightarrow> (None, c)
      | (Inr n, ps) \<Rightarrow>
          (let (_, c1, r1) = demonstrate_routing (fst (first_write e)) (snd (first_write e)) (plain_reads e) (during_reads e) c new_router;
               (shown, c2, r2) = demonstrate_consistent_read (fst (second_write e)) (snd (second_write e)) email (early_read e) (late_read e)
                 (during_consistent e) c1 r1
           in (Some (shown, r2), c2)))"

lemma read_rows_counts:
  "read_rows q c r = (x, r') \<Longrightarrow> writes r' = writes r \<and> (if replayed c = []
     then reads_primary r' = reads_primary r + 1 \<and> reads_replica r' = reads_replica r
     else reads_replica r' = reads_replica r + 1 \<and> reads_primary r' = reads_primary r)"
  by (auto simp: read_rows_def pick_replica_def Let_def split: if_splits)

lemma routed_reads_counts:
  assumes "\<And>i c. replayed (between i c) = [] \<longleftrightarrow> replayed c = []" "routed_reads env between k i c r = (ys, c', r')"
  shows "writes r' = writes r \<and> (replayed c' = [] \<longleftrightarrow> replayed c = []) \<and> length ys = k \<and> (if replayed c = []
     then reads_primary r' = reads_primary r + k \<and> reads_replica r' = reads_replica r
     else reads_replica r' = reads_replica r + k \<and> reads_primary r' = reads_primary r)"
  using assms(2)
proof (induction k arbitrary: i c r ys)
  case (Suc k)
  obtain x r1 where x: "read_rows (env i) (between i c) r = (x, r1)" by fastforce
  obtain zs where z: "routed_reads env between k (Suc i) (between i c) r1 = (zs, c', r')" "length ys = Suc (length zs)"
    using Suc.prems by (auto simp: x Let_def split: prod.splits)
  from Suc.IH [OF z(1)] read_rows_counts [OF x] z(2) assms(1) show ?case by (auto split: if_splits)
qed simp

lemma write_row_counts:
  "write_row x q row c r = (w, c', r') \<Longrightarrow> replayed c' = replayed c \<and> reads_replica r' = reads_replica r \<and>
     reads_primary r' = reads_primary r \<and> writes r' = writes r + (if x = Done then 1 else 0)"
  by (auto simp: write_row_def Let_def split: option.splits if_splits)

lemma read_at_counts:
  "read_at e lsn c r = (y, src, r') \<Longrightarrow> writes r' = writes r \<and> reads_replica r \<le> reads_replica r' \<and> reads_primary r \<le> reads_primary r' \<and>
     reads_replica r' + reads_primary r' = reads_replica r + reads_primary r + 1"
  by (auto simp: read_at_def consistent_read_def split: prod.splits option.splits)

text \<open>The statistics that \<open>main\<close> prints add up: the writes are the inserts that were acknowledged, and the reads are the four
  of the first demonstration, which go to replicas when there are any, and those of the second.\<close>

theorem split_statistics:
  assumes "\<And>i c. replayed (during_reads e i c) = [] \<longleftrightarrow> replayed c = []"
    and "split_main e email c = (Some (shown, r), c')"
  shows "writes r = (if fst (first_write e) = Done then 1 else 0) + (if fst (second_write e) = Done then 1 else 0) \<and>
    4 \<le> (if replayed c = [] then reads_primary r else reads_replica r) \<and>
    reads_replica r + reads_primary r = (case shown of
        Some _ \<Rightarrow> 6 | None \<Rightarrow> if second_write e = (Done, Done) then 5 else 4)"
proof -
  obtain w c0 r0 where w: "write_row (fst (first_write e)) (snd (first_write e)) ''eve@example.com'' c new_router = (w, c0, r0)"
    by (metis prod_cases3)
  obtain ys c1 r1 where y: "routed_reads (plain_reads e) (during_reads e) 4 0 c0 r0 = (ys, c1, r1)" by (metis prod_cases3)
  have d: "demonstrate_consistent_read (fst (second_write e)) (snd (second_write e)) email (early_read e) (late_read e)
      (during_consistent e) c1 r1 = (shown, c', r)"
    using assms(2) by (auto simp: split_main_def demonstrate_routing_def w y Let_def split: prod.splits sum.splits)
  note counts = write_row_counts [OF w] routed_reads_counts [OF assms(1) y]
  have r1: "writes r1 = (if fst (first_write e) = Done then 1 else 0)" "reads_replica r1 + reads_primary r1 = 4"
    "4 \<le> (if replayed c = [] then reads_primary r1 else reads_replica r1)"
    using counts by (auto simp: new_router_def split: if_splits)
  obtain u c2 r2 where u: "write_row (fst (second_write e)) (snd (second_write e)) email c1 r1 = (u, c2, r2)" by (metis prod_cases3)
  have u2: "writes r2 = writes r1 + (if fst (second_write e) = Done then 1 else 0)" "reads_replica r2 = reads_replica r1"
    "reads_primary r2 = reads_primary r1"
    using write_row_counts [OF u] by auto
  have sums: "writes r = writes r2 \<and> reads_replica r2 \<le> reads_replica r \<and> reads_primary r2 \<le> reads_primary r \<and>
      reads_replica r + reads_primary r = reads_replica r2 + reads_primary r2 +
      (case u of Inl _ \<Rightarrow> 0 | Inr _ \<Rightarrow> (case shown of None \<Rightarrow> 1 | Some _ \<Rightarrow> 2)) \<and> (\<forall>x. u = Inl x \<longrightarrow> shown = None)"
  proof (cases u)
    case (Inl x)
    with d show ?thesis by (simp add: demonstrate_consistent_read_def u)
  next
    case (Inr lsn)
    obtain x src r3 where x: "read_at (early_read e) lsn (during_consistent e 0 c2) r2 = (x, src, r3)" by (metis prod_cases3)
    show ?thesis
    proof (cases x)
      case (Inl err)
      with d Inr read_at_counts [OF x] show ?thesis by (auto simp: demonstrate_consistent_read_def u x Let_def)
    next
      case (Inr xs)
      obtain y src' r4 where y: "read_at (late_read e) lsn (during_consistent e 1 (during_consistent e 0 c2)) r3 = (y, src', r4)"
        by (metis prod_cases3)
      with d Inr \<open>u = Inr lsn\<close> read_at_counts [OF x] read_at_counts [OF y] show ?thesis
        by (auto simp: demonstrate_consistent_read_def u x y Let_def)
    qed
  qed
  have ok: "(\<exists>n. u = Inr n) \<longleftrightarrow> second_write e = (Done, Done)"
    using u by (cases "second_write e") (auto simp: write_row_def Let_def query_def split: option.splits if_splits)
  show ?thesis
  proof (cases u)
    case (Inl x)
    with ok sums have "second_write e \<noteq> (Done, Done)" "shown = None" by auto
    with Inl r1 u2 sums show ?thesis by auto
  next
    case (Inr n)
    with ok have "second_write e = (Done, Done)" by blast
    with Inr r1 u2 sums show ?thesis by (auto split: option.splits)
  qed
qed

text \<open>The first read of the second demonstration always shows the new customer: whichever server answers, the row is hit.\<close>

theorem split_reads_own_write:
  assumes "\<And>i c. cluster_step\<^sup>*\<^sup>* c (during_consistent e i c)"
    and "split_main e email c = (Some (Some ((src, rows), late), r), c')"
  shows "rows \<noteq> [] \<and> set rows = {email}"
proof -
  obtain c1 r1 where d: "demonstrate_consistent_read (fst (second_write e)) (snd (second_write e)) email (early_read e) (late_read e)
      (during_consistent e) c1 r1 = (Some ((src, rows), late), c', r)"
    using assms(2) by (auto simp: split_main_def Let_def split: prod.splits sum.splits)
  obtain lsn c2 r2 xs r3 where w: "write_row (fst (second_write e)) (snd (second_write e)) email c1 r1 = (Inr lsn, c2, r2)"
    and x: "read_at (early_read e) lsn (during_consistent e 0 c2) r2 = (Inr xs, src, r3)" and rows: "rows = filter (\<lambda>row. row = email) xs"
    using d by (auto simp: demonstrate_consistent_read_def Let_def split: sum.splits prod.splits)
  have "email \<in> set xs"
    using x consistent_read_row [OF w assms(1) [of c2 0]] by (auto simp: read_at_def split: prod.splits)
  then show ?thesis by (auto simp: rows filter_empty_conv)
qed

definition calm_split :: split_env where
  "calm_split = \<lparr>opened = (\<lambda>_. Done), first_write = (Done, Done), plain_reads = (\<lambda>_. Done), second_write = (Done, Done),
     early_read = (\<lambda>_. (Done, Done), Done, \<lambda>_. 0), late_read = (\<lambda>_. (Done, Done), Done, \<lambda>_. 0),
     during_reads = (\<lambda>_ c. c), during_consistent = (\<lambda>_ c. c)\<rparr>"

lemma calm_split_ends: "\<exists>shown r c'. split_main calm_split ''new'' two_replicas = (Some (Some shown, r), c')"
proof -
  have "(case split_main calm_split ''new'' two_replicas of (Some (Some _, _), _) \<Rightarrow> True | _ \<Rightarrow> False)"
    by code_simp
  then show ?thesis by (auto split: prod.splits option.splits)
qed

theorem split_statistics_witness:
  "\<exists>shown r c'. split_main calm_split ''new'' two_replicas = (Some (shown, r), c') \<and> writes r = 2 \<and> reads_replica r + reads_primary r = 6"
proof -
  from calm_split_ends obtain shown r c' where m: "split_main calm_split ''new'' two_replicas = (Some (Some shown, r), c')" by blast
  from split_statistics [OF _ m] m show ?thesis by (auto simp: calm_split_def)
qed

theorem split_reads_own_write_witness:
  "\<exists>src rows late r c'. split_main calm_split ''new'' two_replicas = (Some (Some ((src, rows), late), r), c') \<and> ''new'' \<in> set rows"
proof -
  from calm_split_ends obtain src rows late r c' where
    m: "split_main calm_split ''new'' two_replicas = (Some (Some ((src, rows), late), r), c')" by (metis prod.collapse)
  from split_reads_own_write [OF _ m] m show ?thesis by (auto simp: calm_split_def)
qed

end
