(* ===== verification/ReadReplicas.thy ===== *)
theory ReadReplicas
  imports Routing
begin

text \<open>
  \<open>simulate_read_replicas/main.go\<close>: the demonstrations over a primary and its replicas. \<open>NewReplicaSet\<close> and the choice
  of a replica are the functions \<open>connect\<close> and \<open>pick_replica\<close> of \<open>Routing\<close>, which repeats that code. The program
  only inserts products, so a replica shows the first products of the primary, as far as it has replayed.
\<close>

section \<open>Servers\<close>

record product =
  pid :: nat
  pname :: string
  cents :: int
  stock :: int

record replica_set =
  products :: "product list"
  next_id :: nat
  positions :: "nat list"

definition on_replica :: "nat \<Rightarrow> replica_set \<Rightarrow> product list" where
  "on_replica i s = take (positions s ! i) (products s)"

definition insert_product :: "outcome \<Rightarrow> string \<Rightarrow> int \<Rightarrow> int \<Rightarrow> replica_set \<Rightarrow> (db_error + nat) \<times> replica_set" where
  "insert_product x n price st s =
     (query x (next_id s),
      if applied x then s\<lparr>products := products s @ [\<lparr>pid = next_id s, pname = n, cents = price, stock = st\<rparr>],
        next_id := Suc (next_id s)\<rparr>
      else s)"

text \<open>A hot standby refuses every write (\<open>read_only_sql_transaction\<close>), if it answers at all.\<close>

definition write_on_replica :: "outcome \<Rightarrow> db_error option" where
  "write_on_replica x = Some (case err_of x of Some e \<Rightarrow> e | None \<Rightarrow> Sqlstate ''25006'')"

text \<open>What happens between the statements of the program: inserts of other clients, and replicas that replay.\<close>

inductive rs_step :: "replica_set \<Rightarrow> replica_set \<Rightarrow> bool" where
  inserted: "rs_step s (snd (insert_product x n price st s))"
| replaying: "positions s ! i \<le> n \<Longrightarrow> n \<le> length (products s) \<Longrightarrow>
    rs_step s (s\<lparr>positions := (positions s)[i := n]\<rparr>)"

section \<open>The demonstrations\<close>

text \<open>\<open>shortErr\<close>, on the bytes of the message.\<close>

definition short_err :: "string \<Rightarrow> string" where
  "short_err s = (if 80 < length s then take 80 s @ ''...'' else s)"

text \<open>
  \<open>demonstrateWrites\<close>: whether the primary accepted the row, and what is printed of the replica's refusal
  (\<open>None\<close>: it accepted the write). Without a replica the index panics and there is no result.
\<close>

definition demonstrate_writes :: "outcome \<Rightarrow> outcome \<Rightarrow> (db_error \<Rightarrow> string) \<Rightarrow> replica_set \<Rightarrow> (bool \<times> string option) option \<times> replica_set" where
  "demonstrate_writes x y msg s =
     (let (r, s1) = insert_product x ''Laptop Stand'' 4999 80 s in
      if positions s1 = [] then (None, s1)
      else (Some (r = Inr (next_id s), map_option (\<lambda>e. short_err (msg e)) (write_on_replica y)), s1))"

definition reader_with_index :: "nat \<Rightarrow> router \<Rightarrow> server \<times> int \<times> router" where
  "reader_with_index n r = (case pick_replica n r of
     (Primary, r') \<Rightarrow> (Primary, -1, r')
   | (Replica i, r') \<Rightarrow> (Replica i, int i, r'))"

definition count_on :: "server \<Rightarrow> replica_set \<Rightarrow> nat" where
  "count_on srv s = (case srv of Primary \<Rightarrow> length (products s) | Replica i \<Rightarrow> length (on_replica i s))"

text \<open>
  \<open>demonstrateBalancedReads\<close>: the number of the replica and its count for every read, \<open>None\<close> for a failed one.
  \<open>st i\<close> is the cluster at the \<open>i\<close>-th read.
\<close>

fun read_loop :: "(nat \<Rightarrow> outcome) \<Rightarrow> (nat \<Rightarrow> replica_set) \<Rightarrow> nat \<Rightarrow> nat \<Rightarrow> nat \<Rightarrow> router \<Rightarrow> (int \<times> nat option) list \<times> router" where
  "read_loop env st n 0 i r = ([], r)"
| "read_loop env st n (Suc left) i r =
     (let (srv, idx, r1) = reader_with_index n r;
          c = (case query (env i) (count_on srv (st i)) of Inl e \<Rightarrow> None | Inr m \<Rightarrow> Some m);
          (ys, r2) = read_loop env st n left (Suc i) r1
      in ((idx + 1, c) # ys, r2))"

definition balanced_reads :: "(nat \<Rightarrow> outcome) \<Rightarrow> (nat \<Rightarrow> replica_set) \<Rightarrow> nat \<Rightarrow> router \<Rightarrow> (int \<times> nat option) list \<times> router" where
  "balanced_reads env st n r = read_loop env st n 6 0 r"

text \<open>
  \<open>demonstrateReplicationLag\<close>: milliseconds since the start, the time an answer takes, and whether it shows the row.
  The error of the query is not looked at, \<open>found\<close> then stays 0. \<open>Unanswered\<close>: the answers end, the program waits.
\<close>

datatype lag = Write_failed | No_replica | Visible nat | Not_replicated nat | Unanswered

fun lag_loop :: "nat \<Rightarrow> (nat \<times> bool) list \<Rightarrow> lag" where
  "lag_loop t [] = Unanswered"
| "lag_loop t ((d, found) # cs) =
     (if found then Visible (t + d)
      else if 5000 < t + d then Not_replicated (t + d)
      else lag_loop (t + d + 10) cs)"

definition row_found :: "string \<Rightarrow> nat \<times> outcome \<times> replica_set \<Rightarrow> nat \<times> bool" where
  "row_found marker a = (case a of (d, q, c) \<Rightarrow>
     (d, case query q (length (filter (\<lambda>p. pname p = marker) (on_replica 0 c))) of Inl e \<Rightarrow> False | Inr n \<Rightarrow> 0 < n))"

definition replication_lag :: "outcome \<Rightarrow> nat \<Rightarrow> string \<Rightarrow> (nat \<times> outcome \<times> replica_set) list \<Rightarrow> replica_set \<Rightarrow> lag \<times> replica_set" where
  "replication_lag x t marker answers s =
     (case insert_product x marker 999 1 s of
        (Inl e, s1) \<Rightarrow> (Write_failed, s1)
      | (Inr k, s1) \<Rightarrow> (if positions s1 = [] then No_replica else lag_loop t (map (row_found marker) answers), s1))"

text \<open>\<open>demonstrateReadYourWrites\<close>: the read comes back to the primary, whose state is then \<open>c\<close>.\<close>

definition price_of :: "nat \<Rightarrow> product list \<Rightarrow> db_error + int" where
  "price_of k ps = (case filter (\<lambda>p. pid p = k) ps of [] \<Rightarrow> Inl NoRows | p # _ \<Rightarrow> Inr (cents p))"

definition read_back :: "outcome \<Rightarrow> nat \<Rightarrow> replica_set \<Rightarrow> db_error + int" where
  "read_back q k c = (case query q () of Inl e \<Rightarrow> Inl e | Inr _ \<Rightarrow> price_of k (products c))"

definition read_your_writes :: "outcome \<Rightarrow> outcome \<Rightarrow> string \<Rightarrow> (replica_set \<Rightarrow> replica_set) \<Rightarrow> replica_set \<Rightarrow> (db_error + int) \<times> replica_set" where
  "read_your_writes x q n others s =
     (case insert_product x n 1234 5 s of
        (Inl e, s1) \<Rightarrow> (Inl e, s1)
      | (Inr k, s1) \<Rightarrow> (let c = others s1 in (read_back q k c, c)))"

text \<open>
  \<open>showReplicationStatus\<close>: a row of \<open>pg_stat_replication\<close>; \<open>None\<close> is NULL, which does not scan into a Go string or
  integer. A failed \<open>Scan\<close> closes the rows, so that the loop ends although the code says \<open>continue\<close>.
\<close>

record stat_row =
  client_addr :: "string option"
  repl_state :: "string option"
  repl_sync :: "string option"
  lag_bytes :: "int option"

definition scan_stat :: "stat_row \<Rightarrow> (string \<times> string \<times> string \<times> int) option" where
  "scan_stat w = (case (client_addr w, repl_state w, repl_sync w, lag_bytes w) of
     (Some a, Some b, Some c, Some d) \<Rightarrow> Some (a, b, c, d)
   | _ \<Rightarrow> None)"

fun stat_loop :: "stat_row list \<Rightarrow> (string \<times> string \<times> string \<times> int) list" where
  "stat_loop [] = []"
| "stat_loop (w # ws) = (case scan_stat w of None \<Rightarrow> [] | Some y \<Rightarrow> y # stat_loop ws)"

text \<open>The lines and whether the program says that no replica is streaming; \<open>None\<close> when the query fails.\<close>

definition show_status :: "outcome \<Rightarrow> stat_row list \<Rightarrow> ((string \<times> string \<times> string \<times> int) list \<times> bool) option" where
  "show_status q ws = (case query q (stat_loop ws) of Inl e \<Rightarrow> None | Inr ys \<Rightarrow> Some (ys, ys = []))"

section \<open>The invariant\<close>

definition rs_ok :: "replica_set \<Rightarrow> bool" where
  "rs_ok s \<longleftrightarrow> distinct (map pid (products s)) \<and> (\<forall>p \<in> set (products s). pid p < next_id s) \<and>
     (\<forall>n \<in> set (positions s). n \<le> length (products s))"

lemma insert_product_ok: "rs_ok s \<Longrightarrow> rs_ok (snd (insert_product x n price st s))"
  by (force simp: rs_ok_def insert_product_def)

lemma set_list_update_le: "\<forall>k \<in> set ns. k \<le> (m :: nat) \<Longrightarrow> n \<le> m \<Longrightarrow> \<forall>k \<in> set (ns[i := n]). k \<le> m"
  using set_update_subset_insert [of ns i n] by auto

lemma rs_step_ok: "rs_step s s' \<Longrightarrow> rs_ok s \<Longrightarrow> rs_ok s'"
proof (induction rule: rs_step.induct)
  case (replaying s i n)
  then show ?case
    using set_list_update_le [of "positions s" "length (products s)" n i] by (simp add: rs_ok_def)
qed (rule insert_product_ok)

lemma rs_steps_ok: "rs_step\<^sup>*\<^sup>* s s' \<Longrightarrow> rs_ok s \<Longrightarrow> rs_ok s'"
  by (induction rule: rtranclp_induct) (blast intro: rs_step_ok)+

lemma rs_steps_grow: "rs_step\<^sup>*\<^sup>* s s' \<Longrightarrow> \<exists>zs. products s' = products s @ zs"
proof (induction rule: rtranclp_induct)
  case (step s1 s2)
  from step(2,3) show ?case by (auto elim!: rs_step.cases simp: insert_product_def)
qed simp

lemma price_of_unique:
  assumes "distinct (map pid ps)" and "p \<in> set ps"
  shows "price_of (pid p) ps = Inr (cents p)"
proof -
  have "filter (\<lambda>q. pid q = pid p) ps = [p]"
    using assms by (induction ps) (auto simp: filter_empty_conv image_iff)
  then show ?thesis by (simp add: price_of_def)
qed

section \<open>Properties\<close>

text \<open>Read your writes: when the insert and the read on the primary are answered, the price read is the
  one just written, however many other clients insert and replicas replay in between; a lost row or
  the row of another client is impossible.\<close>

theorem read_your_writes_consistent:
  assumes "rs_ok s" and "\<And>s1. rs_step\<^sup>*\<^sup>* s1 (others s1)"
    and "read_your_writes x q n others s = (r, c)"
  shows "x = Done \<and> q = Done \<and> r = Inr 1234 \<or> (x \<noteq> Done \<or> q \<noteq> Done) \<and> (\<exists>e. r = Inl e)"
proof (cases "x = Done")
  case True
  define s1 where "s1 = snd (insert_product x n 1234 5 s)"
  let ?p = "\<lparr>pid = next_id s, pname = n, cents = 1234, stock = 5\<rparr>"
  have "rs_ok (others s1)" using insert_product_ok [OF assms(1)] rs_steps_ok [OF assms(2)] by (simp add: s1_def)
  moreover have "?p \<in> set (products (others s1))"
    using rs_steps_grow [OF assms(2), of s1] True by (auto simp: s1_def insert_product_def)
  ultimately have "price_of (next_id s) (products (others s1)) = Inr 1234"
    using price_of_unique [of "products (others s1)" ?p] by (simp add: rs_ok_def)
  moreover have "insert_product x n 1234 5 s = (Inr (next_id s), s1)"
    using True by (simp add: s1_def insert_product_def query_simps)
  ultimately show ?thesis
    using assms(3) True by (cases q) (auto simp: read_your_writes_def read_back_def Let_def query_simps)
next
  case False
  then show ?thesis
    using assms(3) by (cases x) (auto simp: read_your_writes_def insert_product_def query_simps)
qed

definition two_behind :: replica_set where
  "two_behind = \<lparr>products = [\<lparr>pid = 1, pname = ''Mouse'', cents = 2550, stock = 100\<rparr>], next_id = 2, positions = [0, 1]\<rparr>"

definition another_client :: "replica_set \<Rightarrow> replica_set" where
  "another_client s = snd (insert_product Done ''Desk'' 100 1 s)"

theorem read_your_writes_consistent_witness:
  "fst (read_your_writes Done Done ''ryw-1'' another_client two_behind) = Inr 1234"
proof -
  have "rs_ok two_behind" by (simp add: rs_ok_def two_behind_def)
  moreover have "rs_step\<^sup>*\<^sup>* s1 (another_client s1)" for s1
    unfolding another_client_def by (rule r_into_rtranclp, rule rs_step.inserted)
  ultimately show ?thesis
    using read_your_writes_consistent [of two_behind another_client Done Done "''ryw-1''"] by (metis prod.collapse)
qed

lemma row_found_iff:
  assumes "marker \<notin> pname ` set (products s)" and "marker \<notin> pname ` set zs"
    and "products c = products s @ p # zs" and "pname p = marker"
  shows "row_found marker (d, q, c) = (d, q = Done \<and> length (products s) < positions c ! 0)"
proof -
  have "(0 < length (filter (\<lambda>p. pname p = marker) (on_replica 0 c))) \<longleftrightarrow> length (products s) < positions c ! 0"
  proof (cases "length (products s) < positions c ! 0")
    case True
    then obtain k where "positions c ! 0 = length (products s) + Suc k"
      using less_imp_Suc_add by fastforce
    then have "on_replica 0 c = products s @ p # take k zs" by (simp add: on_replica_def assms(3))
    with assms(4) True show ?thesis by simp
  next
    case False
    then have "on_replica 0 c = take (positions c ! 0) (products s)" by (simp add: on_replica_def assms(3))
    with assms(1) False show ?thesis by (auto simp: filter_empty_conv dest: in_set_takeD)
  qed
  then show ?thesis by (cases q) (simp_all add: row_found_def query_simps)
qed

text \<open>The lag probe measures replication: with a marker nobody else writes, a read shows the row exactly
  when it is answered and replica 0 has replayed the log beyond the rows that were there before the
  insert; the reported time is that of the first such read.\<close>

theorem lag_probe_exact:
  assumes "marker \<notin> pname ` set (products s)" and "positions s \<noteq> []"
    and "\<forall>(d, q, c) \<in> set answers. \<exists>zs. products c = products (snd (insert_product Done marker 999 1 s)) @ zs \<and>
      marker \<notin> pname ` set zs"
  shows "fst (replication_lag Done t marker answers s) =
    lag_loop t (map (\<lambda>(d, q, c). (d, q = Done \<and> length (products s) < positions c ! 0)) answers)"
proof -
  have "row_found marker a = (\<lambda>(d, q, c). (d, q = Done \<and> length (products s) < positions c ! 0)) a" if m: "a \<in> set answers" for a
  proof -
    obtain d q c where a: "a = (d, q, c)" by (cases a) auto
    from assms(3) m a obtain zs where "products c = products (snd (insert_product Done marker 999 1 s)) @ zs"
      "marker \<notin> pname ` set zs" by fastforce
    then show ?thesis
      using row_found_iff [OF assms(1), of zs c "\<lparr>pid = next_id s, pname = marker, cents = 999, stock = 1\<rparr>" d q]
      by (simp add: a insert_product_def)
  qed
  then have m: "map (row_found marker) answers = map (\<lambda>(d, q, c). (d, q = Done \<and> length (products s) < positions c ! 0)) answers"
    by (intro map_cong) simp_all
  show ?thesis
    unfolding m [symmetric] using assms(2) by (simp add: replication_lag_def insert_product_def query_simps)
qed

definition lag_view :: "nat \<Rightarrow> replica_set" where
  "lag_view n = (snd (insert_product Done ''lag-probe-1'' 999 1 two_behind))\<lparr>positions := [n, 1]\<rparr>"

theorem lag_probe_exact_witness:
  "fst (replication_lag Done 2 ''lag-probe-1'' [(1, Done, lag_view 1), (3, Refused Transport, lag_view 2), (1, Done, lag_view 2)] two_behind) = Visible 27"
proof -
  have "\<forall>(d, q, c) \<in> set [(1, Done, lag_view 1), (3, Refused Transport, lag_view 2), (1 :: nat, Done, lag_view 2)].
    \<exists>zs. products c = products (snd (insert_product Done ''lag-probe-1'' 999 1 two_behind)) @ zs \<and> ''lag-probe-1'' \<notin> pname ` set zs"
    by (simp add: lag_view_def)
  with lag_probe_exact [of "''lag-probe-1''" two_behind
      "[(1, Done, lag_view 1), (3, Refused Transport, lag_view 2), (1, Done, lag_view 2)]" 2]
  show ?thesis by (simp add: two_behind_def lag_view_def)
qed

text \<open>The probe ends: as it pauses 10 ms between reads and gives up after 5 s, 502 answers are enough,
  whatever they say and however fast they come.\<close>

theorem lag_probe_ends:
  "502 \<le> length answers \<Longrightarrow> fst (replication_lag x t marker answers s) \<noteq> Unanswered"
proof -
  have loop: "5000 < t + 10 * (length cs - 1) \<Longrightarrow> cs \<noteq> [] \<Longrightarrow> lag_loop t cs \<noteq> Unanswered" for t cs
  proof (induction t cs rule: lag_loop.induct)
    case (2 t d found cs)
    show ?case
    proof (cases "found \<or> 5000 < t + d \<or> cs = []")
      case True
      with 2 show ?thesis by auto
    next
      case False
      with "2.prems" have "5000 < t + d + 10 + 10 * (length cs - 1)" by (cases cs) simp_all
      with "2.IH" False show ?thesis by simp
    qed
  qed simp
  assume "502 \<le> length answers"
  then have "lag_loop t (map (row_found marker) answers) \<noteq> Unanswered" by (intro loop) auto
  then show ?thesis by (simp add: replication_lag_def split: prod.splits sum.splits)
qed

theorem lag_probe_ends_witness:
  "fst (replication_lag Done 0 ''lag-probe-1'' (replicate 502 (0, Refused Transport, two_behind)) two_behind) \<noteq> Unanswered"
  using lag_probe_ends [of "replicate 502 (0, Refused Transport, two_behind)" Done 0 "''lag-probe-1''" two_behind]
  by (simp del: replicate.simps)

text \<open>A replica that has replayed everything but answers with errors is reported as not replicating:
  the errors of the reads are dropped.\<close>

theorem silent_errors_look_like_lag:
  "\<exists>answers. (\<forall>(d, q, c) \<in> set answers. positions c = [2, 2] \<and> q = Refused Transport) \<and>
     fst (replication_lag Done 0 ''lag-probe-1'' answers two_behind) = Not_replicated 6010"
  by (rule exI [of _ "[(3000, Refused Transport, (lag_view 1)\<lparr>positions := [2, 2]\<rparr>), (3000, Refused Transport, (lag_view 1)\<lparr>positions := [2, 2]\<rparr>)]"])
    (simp add: replication_lag_def insert_product_def query_simps row_found_def two_behind_def)

lemma read_loop_picks:
  "0 < n \<Longrightarrow> map fst (fst (read_loop env st n k i r)) = map (\<lambda>j. int j + 1) (picks n k r)"
  by (induction k arbitrary: i r) (simp_all add: reader_with_index_def pick_replica_def split_beta Let_def)

lemma count_list_map_inj: "inj f \<Longrightarrow> count_list (map f xs) (f x) = count_list xs x"
  by (induction xs) (auto simp: inj_eq)

text \<open>The six reads are balanced: each of the two replicas serves three, also when reads fail.\<close>

theorem six_reads_balanced:
  assumes "unat (next_ctr r) + 6 < 2 ^ 64" and "j < 2"
  shows "count_list (map fst (fst (balanced_reads env st 2 r))) (int j + 1) = 3"
proof -
  have "count_list (map (\<lambda>j. int j + 1) (picks 2 6 r)) (int j + 1) = count_list (picks 2 6 r) j"
    using count_list_map_inj [of "\<lambda>j. int j + 1" "picks 2 6 r" j] by (simp add: inj_def)
  also have "\<dots> = 3" using picks_count [of j 2 r 3] assms by simp
  finally show ?thesis by (simp add: balanced_reads_def read_loop_picks)
qed

theorem six_reads_balanced_witness:
  "count_list (map fst (fst (balanced_reads (\<lambda>i. if i = 3 then Refused Transport else Done) (\<lambda>_. two_behind) 2 new_router))) (int 1 + 1) = 3"
  by (rule six_reads_balanced) (simp_all add: new_router_def)

text \<open>The replication status shows the rows before the first that has a NULL (as a base backup in progress has),
  and says that no replica is streaming when the first row has one, although others may stream.\<close>

theorem status_ends_at_null:
  "show_status q ws = (if q = Done then Some (map (the \<circ> scan_stat) (takeWhile (\<lambda>w. scan_stat w \<noteq> None) ws),
     takeWhile (\<lambda>w. scan_stat w \<noteq> None) ws = []) else None)"
proof -
  have "stat_loop ws = map (the \<circ> scan_stat) (takeWhile (\<lambda>w. scan_stat w \<noteq> None) ws)"
    by (induction ws) (auto split: option.splits)
  then show ?thesis by (cases q) (simp_all add: show_status_def query_simps)
qed

text \<open>Without replicas the program panics at the write on a replica, and the primary keeps the row.\<close>

theorem no_replicas_panics:
  "demonstrate_writes Done y msg \<lparr>products = ps, next_id = k, positions = []\<rparr> =
     (None, \<lparr>products = ps @ [\<lparr>pid = k, pname = ''Laptop Stand'', cents = 4999, stock = 80\<rparr>], next_id = Suc k, positions = []\<rparr>)"
  by (simp add: demonstrate_writes_def insert_product_def query_simps)

text \<open>A printed refusal of the replica has at most 83 bytes, and the write never reaches any server.\<close>

theorem replica_write_refused:
  assumes "demonstrate_writes x y msg s = (Some (acc, refusal), s')"
  shows "\<exists>m. refusal = Some m \<and> length m \<le> 83" and "s' = snd (insert_product x ''Laptop Stand'' 4999 80 s)"
    and "acc \<longleftrightarrow> x = Done"
  using assms by (auto simp: demonstrate_writes_def write_on_replica_def short_err_def Let_def insert_product_def query_Inr
      split: if_splits prod.splits)

end
