(* ===== verification/Failover.thy ===== *)
theory Failover
  imports GoStd
begin

text \<open>
  \<open>simulate_automatic_failover/main.go\<close>: a manager probes the primary, promotes the standby after
  three failures in a row and sends writes there. Time passes by probes and polls: \<open>probes i\<close> is the
  outcome of the \<open>i\<close>-th health check, and the answers to \<open>pg_is_in_recovery\<close> before the deadline of
  15 seconds are a finite list.
\<close>

datatype node = Primary | Standby

record manager =
  current :: node
  promoted :: bool
  fail_thresh :: nat
  closed :: "node list"   \<comment> \<open>the calls of Close so far, in order\<close>

record servers =
  in_recovery :: bool        \<comment> \<open>of the standby\<close>
  rows :: "node \<Rightarrow> string list"

definition new_manager :: "outcome \<Rightarrow> outcome \<Rightarrow> (db_error + manager) \<times> node list" where
  "new_manager cp cs =
     (case err_of cp of
        Some e \<Rightarrow> (Inl e, [])
      | None \<Rightarrow>
          (case err_of cs of
             Some e \<Rightarrow> (Inl e, [Primary])
           | None \<Rightarrow> (Inr \<lparr>current = Primary, promoted = False, fail_thresh = 3, closed = []\<rparr>, [])))"

definition close :: "manager \<Rightarrow> manager" where
  "close m =
     (let m1 = m\<lparr>closed := closed m @ [current m]\<rparr>
      in if promoted m1 then m1 else m1\<lparr>closed := closed m1 @ [Standby]\<rparr>)"

text \<open>The polling loop of \<open>promote\<close>; an empty list is the deadline.\<close>

fun await_writable :: "(outcome \<times> bool) list \<Rightarrow> manager \<Rightarrow> db_error option \<times> manager" where
  "await_writable [] m = (Some Transport, m)"
| "await_writable ((q, recovering) # ps) m =
     (if err_of q = None \<and> \<not> recovering
      then (None, m\<lparr>closed := closed m @ [current m], current := Standby, promoted := True\<rparr>)
      else await_writable ps m)"

definition promote :: "outcome \<Rightarrow> (outcome \<times> bool) list \<Rightarrow> manager \<Rightarrow> servers \<Rightarrow> db_error option \<times> manager \<times> servers" where
  "promote x polls m s =
     (let s1 = (if applied x then s\<lparr>in_recovery := False\<rparr> else s) in
      case err_of x of
        Some e \<Rightarrow> (Some e, m, s1)
      | None \<Rightarrow> (case await_writable polls m of (e, m1) \<Rightarrow> (e, m1, s1)))"

text \<open>The control loop: \<open>left\<close> probes remain, \<open>failures\<close> failed in a row.\<close>

fun watch_loop :: "(nat \<Rightarrow> outcome) \<Rightarrow> outcome \<Rightarrow> (outcome \<times> bool) list \<Rightarrow> nat \<Rightarrow> nat \<Rightarrow> nat \<Rightarrow> manager \<Rightarrow> servers
    \<Rightarrow> bool \<times> manager \<times> servers" where
  "watch_loop probes x polls 0 i failures m s = (False, m, s)"
| "watch_loop probes x polls (Suc left) i failures m s =
     (if err_of (probes i) = None then watch_loop probes x polls left (Suc i) 0 m s
      else if fail_thresh m \<le> Suc failures then
        (case promote x polls m s of (e, m1, s1) \<Rightarrow> (e = None, m1, s1))
      else watch_loop probes x polls left (Suc i) (Suc failures) m s)"

definition watch_and_failover :: "(nat \<Rightarrow> outcome) \<Rightarrow> outcome \<Rightarrow> (outcome \<times> bool) list \<Rightarrow> nat \<Rightarrow> manager \<Rightarrow> servers
    \<Rightarrow> bool \<times> manager \<times> servers" where
  "watch_and_failover probes x polls max_probes m s = watch_loop probes x polls max_probes 0 0 m s"

text \<open>A server in recovery rejects writes (25006).\<close>

definition write_row :: "outcome \<Rightarrow> string \<Rightarrow> manager \<Rightarrow> servers \<Rightarrow> db_error option \<times> servers" where
  "write_row x row m s =
     (if current m = Standby \<and> in_recovery s then (Some (case err_of x of None \<Rightarrow> Sqlstate ''25006'' | Some e \<Rightarrow> e), s)
      else exec x (\<lambda>s. s\<lparr>rows := (rows s)(current m := rows s (current m) @ [row])\<rparr>) s)"

definition count_customers :: "outcome \<Rightarrow> manager \<Rightarrow> servers \<Rightarrow> db_error + nat" where
  "count_customers q m s = query q (length (rows s (current m)))"

section \<open>Failing over\<close>

text \<open>\<open>n\<close> failed probes in a row that end with probe \<open>i\<close>.\<close>

definition streak :: "(nat \<Rightarrow> outcome) \<Rightarrow> nat \<Rightarrow> nat \<Rightarrow> bool" where
  "streak probes n i \<longleftrightarrow> n \<le> Suc i \<and> (\<forall>j. j < n \<longrightarrow> err_of (probes (i - j)) \<noteq> None)"

text \<open>The loop from probe \<open>i\<close> on is the first probe at which a long enough streak ends.\<close>

lemma watch_loop_first:
  assumes "0 < fail_thresh m" and "failures < fail_thresh m" and "failures \<le> i"
    and "\<forall>j < failures. err_of (probes (i - Suc j)) \<noteq> None" and "failures < i \<Longrightarrow> err_of (probes (i - Suc failures)) = None"
  shows "watch_loop probes x polls left i failures m s =
    (if \<exists>k. i \<le> k \<and> k < i + left \<and> streak probes (fail_thresh m) k
     then (case promote x polls m s of (e, m1, s1) \<Rightarrow> (e = None, m1, s1)) else (False, m, s))"
  using assms
proof (induction left arbitrary: i failures)
  case (Suc left)
  let ?th = "fail_thresh m"
  have split: "(\<exists>k. i \<le> k \<and> k < i + Suc left \<and> streak probes ?th k) \<longleftrightarrow>
      streak probes ?th i \<or> (\<exists>k. Suc i \<le> k \<and> k < Suc i + left \<and> streak probes ?th k)"
    by (metis Suc_le_eq add_Suc_right add_Suc le_neq_implies_less less_add_Suc1 nat_less_le order_refl)
  show ?case
  proof (cases "err_of (probes i) = None")
    case True
    then have "\<not> streak probes ?th i"
      using Suc.prems(1) by (auto simp: streak_def)
    moreover have "watch_loop probes x polls left (Suc i) 0 m s =
      (if \<exists>k. Suc i \<le> k \<and> k < Suc i + left \<and> streak probes ?th k
       then (case promote x polls m s of (e, m1, s1) \<Rightarrow> (e = None, m1, s1)) else (False, m, s))"
      using True Suc.prems(1) by (intro Suc.IH) simp_all
    ultimately show ?thesis using True split by simp
  next
    case False
    have st: "streak probes ?th i \<longleftrightarrow> ?th = Suc failures"
    proof
      assume "?th = Suc failures"
      moreover have "err_of (probes (i - j)) \<noteq> None" if "j < Suc failures" for j
        using that False Suc.prems(4) by (cases j) auto
      ultimately show "streak probes ?th i" using Suc.prems(3) by (simp add: streak_def)
    next
      assume s: "streak probes ?th i"
      show "?th = Suc failures"
      proof (rule ccontr)
        assume "?th \<noteq> Suc failures"
        with Suc.prems(2) have lt: "Suc failures < ?th" by simp
        with s have "failures < i" by (auto simp: streak_def)
        moreover from s lt have "err_of (probes (i - Suc failures)) \<noteq> None" unfolding streak_def by blast
        ultimately show False using Suc.prems(5) by simp
      qed
    qed
    show ?thesis
    proof (cases "?th = Suc failures")
      case True
      with st split False show ?thesis by simp
    next
      case ne: False
      have "watch_loop probes x polls left (Suc i) (Suc failures) m s =
        (if \<exists>k. Suc i \<le> k \<and> k < Suc i + left \<and> streak probes ?th k
         then (case promote x polls m s of (e, m1, s1) \<Rightarrow> (e = None, m1, s1)) else (False, m, s))"
      proof (rule Suc.IH [OF Suc.prems(1)])
        show "Suc failures < ?th" using ne Suc.prems(2) by simp
        show "Suc failures \<le> Suc i" using Suc.prems(3) by simp
        show "\<forall>j < Suc failures. err_of (probes (Suc i - Suc j)) \<noteq> None"
        proof (intro allI impI)
          fix j assume "j < Suc failures"
          then show "err_of (probes (Suc i - Suc j)) \<noteq> None"
            using False Suc.prems(4) by (cases j) auto
        qed
        show "Suc failures < Suc i \<Longrightarrow> err_of (probes (Suc i - Suc (Suc failures))) = None"
          using Suc.prems(5) by simp
      qed
      moreover have "\<not> ?th \<le> Suc failures" using ne Suc.prems(2) by simp
      ultimately show ?thesis using False st ne split by simp
    qed
  qed
qed auto

lemma await_writable_result:
  "await_writable ps m = (e, m') \<Longrightarrow>
     (e = None \<and> m' = m\<lparr>closed := closed m @ [current m], current := Standby, promoted := True\<rparr>) \<or> (e \<noteq> None \<and> m' = m)"
  by (induction ps m rule: await_writable.induct) (auto split: if_splits)

lemma promote_result:
  assumes "promote x polls m s = (e, m', s')"
  shows "(e = None \<and> x = Done \<and> \<not> in_recovery s' \<and> m' = m\<lparr>closed := closed m @ [current m], current := Standby, promoted := True\<rparr>)
    \<or> (e \<noteq> None \<and> m' = m)"
  using assms await_writable_result
  by (cases x) (auto simp: promote_def Let_def split: prod.splits)

section \<open>Properties\<close>

definition fresh_manager :: manager where
  "fresh_manager = \<lparr>current = Primary, promoted = False, fail_thresh = 3, closed = []\<rparr>"

lemma new_manager_fresh: "new_manager Done Done = (Inr fresh_manager, [])"
  by (simp add: new_manager_def fresh_manager_def)

text \<open>\<open>WatchAndFailover\<close> promotes the standby exactly when some three consecutive probes fail within
  \<open>maxProbes\<close>; otherwise it returns false and changes nothing. If it returns true, the standby has
  left recovery and takes the writes.\<close>

theorem failover_iff_three_failures:
  "if \<exists>k. k < max_probes \<and> streak probes 3 k
   then watch_and_failover probes x polls max_probes fresh_manager s =
        (case promote x polls fresh_manager s of (e, m', s') \<Rightarrow> (e = None, m', s'))
   else watch_and_failover probes x polls max_probes fresh_manager s = (False, fresh_manager, s)"
proof -
  have "watch_and_failover probes x polls max_probes fresh_manager s =
    (if \<exists>k. 0 \<le> k \<and> k < 0 + max_probes \<and> streak probes (fail_thresh fresh_manager) k
     then (case promote x polls fresh_manager s of (e, m1, s1) \<Rightarrow> (e = None, m1, s1)) else (False, fresh_manager, s))"
    unfolding watch_and_failover_def by (rule watch_loop_first) (simp_all add: fresh_manager_def)
  moreover have "fail_thresh fresh_manager = 3" by (simp add: fresh_manager_def)
  ultimately show ?thesis by auto
qed

lemma watch_loop_result:
  "watch_loop probes x polls left i failures m s = (ok, m', s') \<Longrightarrow>
     (\<not> ok \<and> m' = m) \<or> (ok \<and> promote x polls m s = (None, m', s'))"
proof (induction left arbitrary: i failures)
  case (Suc left)
  show ?case
  proof (cases "err_of (probes i) = None \<or> \<not> fail_thresh m \<le> Suc failures")
    case True
    with Suc.prems Suc.IH show ?thesis by (auto split: if_splits)
  next
    case False
    obtain e m1 s1 where p: "promote x polls m s = (e, m1, s1)" by (metis prod_cases3)
    with False Suc.prems have "ok = (e = None)" "m' = m1" "s' = s1" by auto
    with promote_result [OF p] p show ?thesis by (cases e) auto
  qed
qed auto

text \<open>After a reported failover the next write that the server takes is on the promoted node;
  without one nothing is changed in the manager; and over its whole life the manager closes
  each of the two pools exactly once.\<close>

theorem failover_redirects_and_closes_once:
  assumes "watch_and_failover probes x polls n fresh_manager s = (ok, m', s')"
  shows "(ok \<longrightarrow> current m' = Standby \<and>
      write_row Done row m' s' = (None, s'\<lparr>rows := (rows s')(Standby := rows s' Standby @ [row])\<rparr>)) \<and>
    (\<not> ok \<longrightarrow> m' = fresh_manager) \<and> mset (closed (close m')) = {#Primary, Standby#}"
proof -
  from watch_loop_result [OF assms [unfolded watch_and_failover_def]]
  consider "\<not> ok" "m' = fresh_manager" | "ok" "promote x polls fresh_manager s = (None, m', s')" by blast
  then show ?thesis
  proof cases
    case 1
    then show ?thesis by (simp add: close_def fresh_manager_def)
  next
    case 2
    from promote_result [OF 2(2)] have "\<not> in_recovery s'"
      "m' = fresh_manager\<lparr>closed := closed fresh_manager @ [current fresh_manager], current := Standby, promoted := True\<rparr>"
      by simp_all
    with 2(1) show ?thesis by (simp add: close_def fresh_manager_def write_row_def exec_simps)
  qed
qed

definition outage :: "nat \<Rightarrow> outcome" where
  "outage i = (if i < 2 then Done else Refused Transport)"

theorem failover_redirects_and_closes_once_witness:
  "\<exists>m' s'. watch_and_failover outage Done [(Done, True), (Done, False)] 20 fresh_manager
      \<lparr>in_recovery = True, rows = (\<lambda>_. [''pre''])\<rparr> = (True, m', s') \<and>
     write_row Done ''post'' m' s' = (None, s'\<lparr>rows := (rows s')(Standby := rows s' Standby @ [''post''])\<rparr>)"
proof -
  let ?s = "\<lparr>in_recovery = True, rows = (\<lambda>_. [''pre''])\<rparr>"
  have "streak outage 3 4" by (auto simp: streak_def outage_def)
  then have "\<exists>k. k < 20 \<and> streak outage 3 k" by (intro exI [of _ 4]) simp
  moreover have "streak probes (fail_thresh fresh_manager) k = streak probes 3 k" for probes k by (simp add: fresh_manager_def)
  ultimately have "watch_and_failover outage Done [(Done, True), (Done, False)] 20 fresh_manager ?s =
    (case promote Done [(Done, True), (Done, False)] fresh_manager ?s of (e, m', s') \<Rightarrow> (e = None, m', s'))"
    unfolding watch_and_failover_def
    by (subst watch_loop_first) (auto simp: fresh_manager_def)
  then obtain m' s' where w: "watch_and_failover outage Done [(Done, True), (Done, False)] 20 fresh_manager ?s = (True, m', s')"
    by (simp add: promote_def)
  from failover_redirects_and_closes_once [OF w, of "''post''"] w show ?thesis by auto
qed

text \<open>A promotion that the standby carried out but that was not confirmed in time leaves both nodes
  writable: the manager reports no failover and keeps writing to the old primary, which nothing
  fences.\<close>

theorem unconfirmed_promotion_leaves_two_primaries:
  assumes "watch_and_failover probes Done [] n fresh_manager s = (ok, m', s')" and "\<exists>k. k < n \<and> streak probes 3 k"
  shows "\<not> ok \<and> \<not> in_recovery s' \<and>
    write_row Done row m' s' = (None, s'\<lparr>rows := (rows s')(Primary := rows s' Primary @ [row])\<rparr>)"
proof -
  have "watch_and_failover probes Done [] n fresh_manager s =
    (case promote Done [] fresh_manager s of (e, m', s') \<Rightarrow> (e = None, m', s'))"
    using assms(2) unfolding watch_and_failover_def by (subst watch_loop_first) (auto simp: fresh_manager_def)
  with assms(1) show ?thesis
    by (auto simp: promote_def write_row_def exec_simps fresh_manager_def)
qed

theorem unconfirmed_promotion_leaves_two_primaries_witness:
  "\<exists>m' s'. watch_and_failover outage Done [] 20 fresh_manager \<lparr>in_recovery = True, rows = (\<lambda>_. [])\<rparr> = (False, m', s') \<and>
     \<not> in_recovery s'"
proof -
  obtain ok m' s' where w: "watch_and_failover outage Done [] 20 fresh_manager \<lparr>in_recovery = True, rows = (\<lambda>_. [])\<rparr> = (ok, m', s')"
    by (metis prod_cases3)
  have "streak outage 3 4" by (auto simp: streak_def outage_def)
  then have "\<exists>k. k < 20 \<and> streak outage 3 k" by (intro exI [of _ 4]) simp
  from unconfirmed_promotion_leaves_two_primaries [OF w this] w show ?thesis by auto
qed

end
