(* ===== verification/FailoverMain.thy ===== *)
theory FailoverMain
  imports Failover
begin

text \<open>
  The whole run of \<open>simulate_automatic_failover/main.go\<close>: a write to the primary, the crash, the control loop and a
  write to the promoted standby. Streaming replication is asynchronous: the standby holds a prefix of the
  rows of the primary, how long a prefix at each moment is a parameter.
\<close>

section \<open>Two servers and a manager\<close>

record run =
  mgr :: manager
  srv :: servers
  up :: bool   \<comment> \<open>the container of the primary\<close>

definition on_standby :: "string list \<Rightarrow> servers \<Rightarrow> servers" where
  "on_standby rs s = s\<lparr>rows := (rows s)(Standby := rs)\<rparr>"

text \<open>The standby has received the first \<open>k\<close> rows of the primary by now, never fewer than before; a promoted server receives nothing.\<close>

definition stream :: "nat \<Rightarrow> servers \<Rightarrow> servers" where
  "stream k s = (if in_recovery s then on_standby (take (max k (length (rows s Standby))) (rows s Primary)) s else s)"

definition streamed :: "nat \<Rightarrow> run \<Rightarrow> unit option \<times> run" where
  "streamed k r = (Some (), r\<lparr>srv := stream k (srv r)\<rparr>)"

text \<open>A call over the manager's current pool reaches its server only while the container runs.\<close>

definition reach :: "run \<Rightarrow> outcome \<Rightarrow> outcome" where
  "reach r x = (if current (mgr r) = Primary \<and> \<not> up r then Refused Transport else x)"

definition must_write :: "outcome \<Rightarrow> string \<Rightarrow> run \<Rightarrow> unit option \<times> run" where
  "must_write x row r =
     (case write_row (reach r x) row (mgr r) (srv r) of (e, s) \<Rightarrow> (if e = None then Some () else None, r\<lparr>srv := s\<rparr>))"

text \<open>\<open>n, _ := m.CountCustomers\<close>: an error leaves the zero.\<close>

definition counted :: "outcome \<Rightarrow> run \<Rightarrow> nat option \<times> run" where
  "counted q r = (Some (case count_customers (reach r q) (mgr r) (srv r) of Inl e \<Rightarrow> 0 | Inr n \<Rightarrow> n), r)"

text \<open>The count on the standby, printed only when the query succeeds.\<close>

definition standby_counted :: "outcome \<Rightarrow> run \<Rightarrow> nat option option \<times> run" where
  "standby_counted q r = (Some (if err_of q = None then Some (length (rows (srv r) Standby)) else None), r)"

text \<open>\<open>simulatePrimaryCrash\<close>: whether \<open>docker stop\<close> reported success, which is only printed.\<close>

definition simulate_primary_crash :: "outcome \<Rightarrow> run \<Rightarrow> bool option \<times> run" where
  "simulate_primary_crash x r = (Some (err_of x = None), if applied x then r\<lparr>up := False\<rparr> else r)"

definition fail_over :: "(nat \<Rightarrow> outcome) \<Rightarrow> outcome \<Rightarrow> (outcome \<times> bool) list \<Rightarrow> run \<Rightarrow> unit option \<times> run" where
  "fail_over probes x polls r =
     (case watch_and_failover (\<lambda>i. reach r (probes i)) x polls 20 (mgr r) (srv r) of
        (ok, m, s) \<Rightarrow> (if ok then Some () else None, r\<lparr>mgr := m, srv := s\<rparr>))"

section \<open>The run\<close>

record failover_env =
  opened :: "outcome \<times> outcome"
  pre_written :: outcome
  pre_counted :: outcome
  after_sleep :: nat       \<comment> \<open>rows the standby has after the second of sleep\<close>
  replica_read :: outcome
  docker_stop :: outcome
  before_promotion :: nat  \<comment> \<open>and when it is promoted\<close>
  health :: "nat \<Rightarrow> outcome"
  promotion :: outcome
  recovery_polls :: "(outcome \<times> bool) list"
  post_written :: outcome
  post_counted :: outcome

record failover_report =
  wrote_total :: nat
  replicated :: "nat option"
  stopped :: bool
  final_total :: nat

text \<open>What \<open>main\<close> does with its manager; \<open>log.Fatal\<close> does not run the deferred \<open>Close\<close>.\<close>

definition manager_main :: "failover_env \<Rightarrow> run \<Rightarrow> failover_report option \<times> run" where
  "manager_main e =
     and_then (must_write (pre_written e) ''Pre-Failover User'') (\<lambda>_.
     and_then (counted (pre_counted e)) (\<lambda>n.
     and_then (streamed (after_sleep e)) (\<lambda>_.
     and_then (standby_counted (replica_read e)) (\<lambda>r.
     and_then (simulate_primary_crash (docker_stop e)) (\<lambda>c.
     and_then (streamed (before_promotion e)) (\<lambda>_.
     and_then (fail_over (health e) (promotion e) (recovery_polls e)) (\<lambda>_.
     and_then (must_write (post_written e) ''Post-Failover User'') (\<lambda>_.
     and_then (counted (post_counted e)) (\<lambda>t.
     and_then (\<lambda>w. (Some (), w\<lparr>mgr := close (mgr w)\<rparr>)) (\<lambda>_.
     give \<lparr>wrote_total = n, replicated = r, stopped = c, final_total = t\<rparr>))))))))))"

text \<open>With the pools the program closed, in order.\<close>

definition failover_main :: "failover_env \<Rightarrow> servers \<Rightarrow> failover_report option \<times> node list \<times> servers" where
  "failover_main e s =
     (case new_manager (fst (opened e)) (snd (opened e)) of
        (Inl x, cl) \<Rightarrow> (None, cl, s)
      | (Inr m, cl) \<Rightarrow>
          (case manager_main e \<lparr>mgr = m, srv = s, up = True\<rparr> of (x, r) \<Rightarrow> (x, cl @ closed (mgr r), srv r)))"

section \<open>What a run leaves\<close>

text \<open>The promotion is confirmed: \<open>pg_promote\<close> is acknowledged and some poll before the deadline sees the end of the recovery.\<close>

definition confirmed :: "failover_env \<Rightarrow> bool" where
  "confirmed e \<longleftrightarrow> promotion e = Done \<and> (\<exists>p \<in> set (recovery_polls e). fst p = Done \<and> \<not> snd p)"

text \<open>The primary is found dead: the container stopped, or three health checks in a row failed.\<close>

definition found_dead :: "failover_env \<Rightarrow> bool" where
  "found_dead e \<longleftrightarrow> applied (docker_stop e) \<or> (\<exists>k < 20. streak (health e) 3 k)"

definition arrived :: "failover_env \<Rightarrow> servers \<Rightarrow> nat" where
  "arrived e s = max (length (rows s Standby)) (max (after_sleep e) (before_promotion e))"

lemma await_confirmed: "fst (await_writable ps m) = None \<longleftrightarrow> (\<exists>p \<in> set ps. fst p = Done \<and> \<not> snd p)"
  by (induction ps m rule: await_writable.induct) (simp, simp, blast)

lemma promote_confirmed:
  "fst (promote (promotion e) (recovery_polls e) m s) = None \<longleftrightarrow> confirmed e"
  using await_confirmed [of "recovery_polls e" m]
  by (cases "promotion e") (auto simp: promote_def confirmed_def Let_def split: prod.splits)

lemma streak_cut: "0 < n \<Longrightarrow> streak (\<lambda>i. Refused Transport) n k \<longleftrightarrow> n \<le> Suc k"
  by (auto simp: streak_def)


lemma seen_dead:
  assumes "up r \<Longrightarrow> \<not> applied (docker_stop e)" and "\<not> up r \<Longrightarrow> applied (docker_stop e)" and "current (mgr r) = Primary"
  shows "(\<exists>k < 20. streak (\<lambda>i. reach r (health e i)) 3 k) \<longleftrightarrow> found_dead e"
proof (cases "up r")
  case True
  with assms(1) show ?thesis by (simp add: reach_def found_dead_def)
next
  case False
  with assms(2,3) have "found_dead e" "(\<lambda>i. reach r (health e i)) = (\<lambda>i. Refused Transport)" by (simp_all add: found_dead_def reach_def)
  moreover have "streak (\<lambda>i. Refused Transport) 3 2" by (simp add: streak_cut)
  ultimately show ?thesis by (intro iffI) (simp, intro exI [of _ 2], simp)
qed

lemma fail_over_result:
  assumes "mgr r = fresh_manager" and "up r = (\<not> applied (docker_stop e))"
  shows "fst (fail_over (health e) (promotion e) (recovery_polls e) r) = Some () \<longleftrightarrow> found_dead e \<and> confirmed e"
    and "fail_over (health e) (promotion e) (recovery_polls e) r = (Some (), r') \<Longrightarrow>
      r' = r\<lparr>mgr := \<lparr>current = Standby, promoted = True, fail_thresh = 3, closed = [Primary]\<rparr>, srv := (srv r)\<lparr>in_recovery := False\<rparr>\<rparr>"
proof -
  have d: "(\<exists>k < 20. streak (\<lambda>i. reach r (health e i)) 3 k) \<longleftrightarrow> found_dead e"
    using assms by (intro seen_dead) (simp_all add: fresh_manager_def)
  note w = failover_iff_three_failures [of 20 "\<lambda>i. reach r (health e i)" "promotion e" "recovery_polls e" "srv r", unfolded d]
  note c = promote_confirmed [of e fresh_manager "srv r"]
  show "fst (fail_over (health e) (promotion e) (recovery_polls e) r) = Some () \<longleftrightarrow> found_dead e \<and> confirmed e"
    using w c by (auto simp: fail_over_def assms(1) split: if_splits prod.splits)
  assume f: "fail_over (health e) (promotion e) (recovery_polls e) r = (Some (), r')"
  obtain m s where ms: "promote (promotion e) (recovery_polls e) fresh_manager (srv r) = (None, m, s)" "r' = r\<lparr>mgr := m, srv := s\<rparr>"
    using w f by (auto simp: fail_over_def assms(1) split: if_splits prod.splits)
  have "s = (srv r)\<lparr>in_recovery := False\<rparr>"
    using ms(1) by (cases "promotion e") (auto simp: promote_def Let_def split: prod.splits)
  with promote_result [OF ms(1)] ms(2)
  show "r' = r\<lparr>mgr := \<lparr>current = Standby, promoted = True, fail_thresh = 3, closed = [Primary]\<rparr>, srv := (srv r)\<lparr>in_recovery := False\<rparr>\<rparr>"
    by (simp add: fresh_manager_def)
qed

lemma streams:
  assumes "in_recovery s" and "rows s Standby = take n (rows s Primary)" and "n \<le> length (rows s Primary)"
  shows "stream k s = on_standby (take (max k n) (rows s Primary)) s"
  using assms by (simp add: stream_def min_absorb2)


lemma write_primary:
  assumes "current (mgr r) = Primary" and "up r"
  shows "must_write x row r = (if x = Done then Some () else None,
    if applied x then r\<lparr>srv := (srv r)\<lparr>rows := (rows (srv r))(Primary := rows (srv r) Primary @ [row])\<rparr>\<rparr> else r)"
  using assms by (cases x) (simp_all add: must_write_def reach_def write_row_def exec_def)

lemma write_standby:
  assumes "current (mgr r) = Standby" and "\<not> in_recovery (srv r)"
  shows "must_write x row r = (if x = Done then Some () else None,
    if applied x then r\<lparr>srv := (srv r)\<lparr>rows := (rows (srv r))(Standby := rows (srv r) Standby @ [row])\<rparr>\<rparr> else r)"
  using assms by (cases x) (simp_all add: must_write_def reach_def write_row_def exec_def)

text \<open>The state at the moment of the failover.\<close>

definition before_failover :: "failover_env \<Rightarrow> servers \<Rightarrow> run" where
  "before_failover e s = \<lparr>mgr = fresh_manager, srv = s\<lparr>rows := (rows s)(Primary := rows s Primary @ [''Pre-Failover User''],
       Standby := take (arrived e s) (rows s Primary @ [''Pre-Failover User'']))\<rparr>, up = (\<not> applied (docker_stop e))\<rparr>"

definition asynchronous :: "servers \<Rightarrow> bool" where
  "asynchronous s \<longleftrightarrow> in_recovery s \<and> (\<exists>n. rows s Standby = take n (rows s Primary))"


lemma take_longer: "take (max k (length (take m xs))) xs = take (max k m) xs"
  by (cases "m \<le> length xs") (simp_all add: min_absorb1 min_absorb2)

lemma until_failover:
  assumes "asynchronous s" and "pre_written e = Done"
  obtains n r where "manager_main e \<lparr>mgr = fresh_manager, srv = s, up = True\<rparr> =
    and_then (fail_over (health e) (promotion e) (recovery_polls e)) (\<lambda>_.
     and_then (must_write (post_written e) ''Post-Failover User'') (\<lambda>_.
     and_then (counted (post_counted e)) (\<lambda>t.
     and_then (\<lambda>w. (Some (), w\<lparr>mgr := close (mgr w)\<rparr>)) (\<lambda>_.
     give \<lparr>wrote_total = n, replicated = r, stopped = (err_of (docker_stop e) = None), final_total = t\<rparr>)))) (before_failover e s)"
    "pre_counted e = Done \<longrightarrow> n = length (rows s Primary) + 1"
    "replica_read e = Done \<longrightarrow> r = Some (length (take (max (after_sleep e) (length (rows s Standby))) (rows s Primary @ [''Pre-Failover User''])))"
proof -
  let ?l = "length (rows s Standby)"
  let ?P = "rows s Primary @ [''Pre-Failover User'']"
  let ?r0 = "\<lparr>mgr = fresh_manager, srv = s, up = True\<rparr>"
  let ?r1 = "\<lparr>mgr = fresh_manager, srv = s\<lparr>rows := (rows s)(Primary := ?P)\<rparr>, up = True\<rparr>"
  let ?s2 = "s\<lparr>rows := (rows s)(Primary := ?P, Standby := take (max (after_sleep e) ?l) ?P)\<rparr>"
  have w: "must_write (pre_written e) ''Pre-Failover User'' ?r0 = (Some (), ?r1)"
    using write_primary [of ?r0 Done] assms(2) by (simp add: fresh_manager_def)
  obtain n where c: "counted (pre_counted e) ?r1 = (Some n, ?r1)" "pre_counted e = Done \<longrightarrow> n = length (rows s Primary) + 1"
    by (simp add: counted_def count_customers_def reach_def fresh_manager_def query_def)
  have p: "rows s Standby = take ?l (rows s Primary)" "?l \<le> length (rows s Primary)"
    using assms(1) by (auto simp: asynchronous_def min_def)
  have t: "streamed (after_sleep e) ?r1 = (Some (), \<lparr>mgr = fresh_manager, srv = ?s2, up = True\<rparr>)"
    using assms(1) streams [of "s\<lparr>rows := (rows s)(Primary := ?P)\<rparr>" ?l] p
    by (simp add: streamed_def on_standby_def asynchronous_def)
  obtain r where sc: "standby_counted (replica_read e) \<lparr>mgr = fresh_manager, srv = ?s2, up = True\<rparr> = (Some r, \<lparr>mgr = fresh_manager, srv = ?s2, up = True\<rparr>)"
    "replica_read e = Done \<longrightarrow> r = Some (length (take (max (after_sleep e) ?l) ?P))"
    by (simp add: standby_counted_def)
  have x: "simulate_primary_crash (docker_stop e) \<lparr>mgr = fresh_manager, srv = ?s2, up = True\<rparr> =
      (Some (err_of (docker_stop e) = None), \<lparr>mgr = fresh_manager, srv = ?s2, up = (\<not> applied (docker_stop e))\<rparr>)"
    by (simp add: simulate_primary_crash_def)
  have "take (max (before_promotion e) (length (take (max (after_sleep e) ?l) ?P))) ?P = take (arrived e s) ?P"
    using take_longer [of "before_promotion e" "max (after_sleep e) ?l" ?P] by (simp add: arrived_def ac_simps)
  then have t2: "streamed (before_promotion e) \<lparr>mgr = fresh_manager, srv = ?s2, up = (\<not> applied (docker_stop e))\<rparr> = (Some (), before_failover e s)"
    using assms(1) by (simp add: streamed_def stream_def on_standby_def asynchronous_def before_failover_def)
  show thesis
    by (rule that [OF _ c(2) sc(2)])
      (simp only: manager_main_def and_then_def w c(1) t sc(1) x t2 prod.case option.case)
qed


lemma after_failover:
  assumes "mgr r = \<lparr>current = Standby, promoted = True, fail_thresh = 3, closed = [Primary]\<rparr>" and "\<not> in_recovery (srv r)"
  shows "and_then (must_write x row) (\<lambda>_. and_then (counted q) (\<lambda>t.
      and_then (\<lambda>w. (Some (), w\<lparr>mgr := close (mgr w)\<rparr>)) (\<lambda>_. give (f t)))) r =
    (if x = Done then (Some (f (if q = Done then length (rows (srv r) Standby) + 1 else 0)),
       r\<lparr>mgr := \<lparr>current = Standby, promoted = True, fail_thresh = 3, closed = [Primary, Standby]\<rparr>,
         srv := (srv r)\<lparr>rows := (rows (srv r))(Standby := rows (srv r) Standby @ [row])\<rparr>\<rparr>)
     else (None, snd (must_write x row r)))"
  using assms write_standby [of r x row]
  by (cases q) (simp_all add: and_then_def counted_def count_customers_def reach_def query_def give_def close_def)

text \<open>C25: 
  \<open>main\<close> ends normally exactly when the pools open, the first write is acknowledged, the primary is found dead, the
  promotion is confirmed and the second write is acknowledged. Then each pool was closed once, and the
  promoted node has the rows that had arrived before the promotion and the new one: the earlier write is
  among them exactly if it had been streamed.
\<close>

theorem failover_main_result:
  assumes "asynchronous s" and "failover_main e s = (x, cl, s')"
  shows "(x \<noteq> None \<longleftrightarrow> opened e = (Done, Done) \<and> pre_written e = Done \<and> found_dead e \<and> confirmed e \<and> post_written e = Done) \<and>
    (\<forall>y. x = Some y \<longrightarrow> cl = [Primary, Standby] \<and> \<not> in_recovery s' \<and>
       rows s' Primary = rows s Primary @ [''Pre-Failover User''] \<and>
       rows s' Standby = take (arrived e s) (rows s' Primary) @ [''Post-Failover User''] \<and>
       (post_counted e = Done \<longrightarrow> final_total y = min (arrived e s) (length (rows s Primary) + 1) + 1) \<and>
       (stopped y \<longleftrightarrow> docker_stop e = Done))"
proof (cases "opened e = (Done, Done) \<and> pre_written e = Done")
  case False
  then consider "fst (opened e) \<noteq> Done \<or> snd (opened e) \<noteq> Done" | "opened e = (Done, Done)" "pre_written e \<noteq> Done" by (cases "opened e") auto
  then have "x = None"
  proof cases
    case 1
    with assms(2) show ?thesis by (auto simp: failover_main_def new_manager_def split: option.splits)
  next
    case 2
    with assms(2) show ?thesis
      by (auto simp: failover_main_def new_manager_fresh manager_main_def and_then_def write_primary fresh_manager_def split: prod.splits)
  qed
  with False show ?thesis by auto
next
  case True
  define r where "r = before_failover e s"
  obtain z u where m: "manager_main e \<lparr>mgr = fresh_manager, srv = s, up = True\<rparr> = (z, u)" by fastforce
  with assms(2) True have xs: "x = z" "cl = closed (mgr u)" "s' = srv u" by (auto simp: failover_main_def new_manager_fresh)
  have r: "mgr r = fresh_manager" "up r = (\<not> applied (docker_stop e))" "rows (srv r) Primary = rows s Primary @ [''Pre-Failover User'']"
    "rows (srv r) Standby = take (arrived e s) (rows s Primary @ [''Pre-Failover User''])"
    by (simp_all add: r_def before_failover_def)
  note f = fail_over_result [OF r(1,2)]
  obtain f1 r1 where fo: "fail_over (health e) (promotion e) (recovery_polls e) r = (f1, r1)" by fastforce
  obtain n rep where steps: "(z, u) = and_then (fail_over (health e) (promotion e) (recovery_polls e)) (\<lambda>_.
     and_then (must_write (post_written e) ''Post-Failover User'') (\<lambda>_.
     and_then (counted (post_counted e)) (\<lambda>t.
     and_then (\<lambda>w. (Some (), w\<lparr>mgr := close (mgr w)\<rparr>)) (\<lambda>_.
     give \<lparr>wrote_total = n, replicated = rep, stopped = (err_of (docker_stop e) = None), final_total = t\<rparr>)))) r"
    using until_failover [OF assms(1), of e] True m unfolding r_def by metis
  show ?thesis
  proof (cases f1)
    case None
    with steps fo have "z = None" by (simp add: and_then_def)
    with f(1) fo None xs show ?thesis by auto
  next
    case (Some v)
    with f(1) fo have d: "found_dead e \<and> confirmed e" by simp
    from f(2) fo Some have r1: "r1 = r\<lparr>mgr := \<lparr>current = Standby, promoted = True, fail_thresh = 3, closed = [Primary]\<rparr>,
      srv := (srv r)\<lparr>in_recovery := False\<rparr>\<rparr>" by simp
    have m1: "mgr r1 = \<lparr>current = Standby, promoted = True, fail_thresh = 3, closed = [Primary]\<rparr>" "\<not> in_recovery (srv r1)"
      by (simp_all add: r1)
    from steps [unfolded and_then_def [of "fail_over (health e) (promotion e) (recovery_polls e)"] fo Some prod.case option.case after_failover [OF m1]]
    have "(z, u) = (if post_written e = Done then (Some \<lparr>wrote_total = n, replicated = rep, stopped = (err_of (docker_stop e) = None),
        final_total = (if post_counted e = Done then length (rows (srv r1) Standby) + 1 else 0)\<rparr>,
       r1\<lparr>mgr := \<lparr>current = Standby, promoted = True, fail_thresh = 3, closed = [Primary, Standby]\<rparr>,
         srv := (srv r1)\<lparr>rows := (rows (srv r1))(Standby := rows (srv r1) Standby @ [''Post-Failover User''])\<rparr>\<rparr>)
     else (None, snd (must_write (post_written e) ''Post-Failover User'' r1)))" .
    with d True xs r(3,4) show ?thesis by (auto simp: r1 split: if_splits)
  qed
qed


definition two_servers :: servers where
  "two_servers = \<lparr>in_recovery = True, rows = (\<lambda>_. [''Alice'', ''Bob''])\<rparr>"

text \<open>The primary stops after two good probes; the standby is promoted at the second poll and had received three rows.\<close>

definition crash_day :: failover_env where
  "crash_day = \<lparr>opened = (Done, Done), pre_written = Done, pre_counted = Done, after_sleep = 3, replica_read = Done, docker_stop = Done,
     before_promotion = 3, health = outage, promotion = Done, recovery_polls = [(Done, True), (Done, False)], post_written = Done, post_counted = Done\<rparr>"

theorem failover_main_result_witness:
  "\<exists>y s'. failover_main crash_day two_servers = (Some y, [Primary, Standby], s') \<and> final_total y = 4 \<and>
     rows s' Standby = [''Alice'', ''Bob'', ''Pre-Failover User'', ''Post-Failover User'']"
proof -
  obtain x cl s' where f: "failover_main crash_day two_servers = (x, cl, s')" by (metis prod_cases3)
  have a: "asynchronous two_servers" by (auto simp: asynchronous_def two_servers_def intro: exI [of _ 2])
  have "found_dead crash_day" "confirmed crash_day" "opened crash_day = (Done, Done)" "pre_written crash_day = Done" "post_written crash_day = Done"
    by (simp_all add: found_dead_def confirmed_def crash_day_def)
  with failover_main_result [OF a f] obtain y where "x = Some y" by blast
  with failover_main_result [OF a f] f show ?thesis by (auto simp: arrived_def crash_day_def two_servers_def)
qed

text \<open>
  What \<open>main\<close> prints at the end, "includes both the pre- and post-failover rows, no data lost", is false when the
  primary stopped before it had streamed the first row: the run is otherwise the same and nothing is reported.
\<close>

theorem failover_can_lose_the_write:
  assumes "asynchronous s" and "failover_main e s = (Some y, cl, s')" and "arrived e s \<le> length (rows s Primary)"
    and "''Pre-Failover User'' \<notin> set (rows s Primary)"
  shows "''Pre-Failover User'' \<in> set (rows s' Primary) \<and> ''Pre-Failover User'' \<notin> set (rows s' Standby)"
  using failover_main_result [OF assms(1,2)] assms(3,4) by (auto dest: in_set_takeD)

theorem failover_can_lose_the_write_witness:
  "\<exists>y cl s'. failover_main (crash_day\<lparr>after_sleep := 0, before_promotion := 0\<rparr>) two_servers = (Some y, cl, s') \<and>
     ''Pre-Failover User'' \<notin> set (rows s' Standby)"
proof -
  let ?e = "crash_day\<lparr>after_sleep := 0, before_promotion := 0\<rparr>"
  obtain x cl s' where f: "failover_main ?e two_servers = (x, cl, s')" by (metis prod_cases3)
  have a: "asynchronous two_servers" by (auto simp: asynchronous_def two_servers_def intro: exI [of _ 2])
  have "found_dead ?e" "confirmed ?e" "opened ?e = (Done, Done)" "pre_written ?e = Done" "post_written ?e = Done"
    by (simp_all add: found_dead_def confirmed_def crash_day_def)
  with failover_main_result [OF a f] obtain y where y: "x = Some y" by blast
  from failover_can_lose_the_write [OF a f [unfolded y]] f y show ?thesis
    by (simp add: arrived_def crash_day_def two_servers_def)
qed

end
