(* ===== verification/Federation.thy ===== *)
theory Federation
  imports GoStd
begin

text \<open>
  \<open>simulate_federation/main.go\<close>: users in one database, their orders in another, and the joins between them in
  the application or through foreign tables. Amounts are in cents.
\<close>

section \<open>The databases\<close>

record account =
  name_of :: string
  country :: string

record order =
  order_id :: int
  user_id :: int
  amount :: int

record federation =
  users :: "int \<rightharpoonup> account"
  orders :: "order list"
  next_id :: int

section \<open>Orders\<close>

text \<open>\<open>placeOrder\<close> validates in one database and inserts in the other; \<open>None\<close> is fatal.\<close>

definition check_user :: "outcome \<Rightarrow> int \<Rightarrow> federation \<Rightarrow> bool" where
  "check_user q u f = (case query q (users f u \<noteq> None) of Inl e \<Rightarrow> False | Inr b \<Rightarrow> b)"

definition insert_order :: "outcome \<Rightarrow> int \<Rightarrow> int \<Rightarrow> federation \<Rightarrow> int option \<times> federation" where
  "insert_order r u a f =
     (if \<not> \<bar>a\<bar> < 10 ^ 10 then (None, f)
      else (if err_of r = None then Some (next_id f) else None,
            if applied r then f\<lparr>orders := orders f @ [\<lparr>order_id = next_id f, user_id = u, amount = a\<rparr>], next_id := next_id f + 1\<rparr> else f))"

definition place_order :: "outcome \<Rightarrow> outcome \<Rightarrow> int \<Rightarrow> int \<Rightarrow> federation \<Rightarrow> int option \<times> federation" where
  "place_order q r u a f = (if check_user q u f then insert_order r u a f else (None, f))"

definition orphans :: "federation \<Rightarrow> order list" where
  "orphans f = filter (\<lambda>x. users f (user_id x) = None) (orders f)"

text \<open>What \<open>main\<close> removes at its start, with the outcome ignored.\<close>

definition undo_runs :: "outcome \<Rightarrow> federation \<Rightarrow> federation" where
  "undo_runs r f = snd (exec r (\<lambda>f. f\<lparr>orders := filter (\<lambda>x. \<not> user_id x > 5000) (orders f)\<rparr>) f)"

section \<open>the top customers\<close>

record customer =
  cust_id :: int
  cust_name :: string
  cust_country :: string
  spend :: int

definition spend_of :: "int \<Rightarrow> order list \<Rightarrow> int" where
  "spend_of u os = (\<Sum>x \<leftarrow> filter (\<lambda>x. user_id x = u) os. amount x)"

text \<open>\<open>GROUP BY user_id ORDER BY 2 DESC LIMIT n\<close>; \<open>gs\<close> is the order in which the server forms the groups.\<close>

definition groups :: "int list \<Rightarrow> order list \<Rightarrow> bool" where
  "groups gs os \<longleftrightarrow> distinct gs \<and> set gs = user_id ` set os"

definition top_spenders :: "int list \<Rightarrow> nat \<Rightarrow> order list \<Rightarrow> (int \<times> int) list" where
  "top_spenders gs n os = take n (sort_key (\<lambda>x. - snd x) (map (\<lambda>u. (u, spend_of u os)) gs))"

text \<open>
  The loop over the rows of the second query. \<open>arrived\<close> are the ids of the rows that come before the stream ends or
  breaks: the loop does not ask which.
\<close>

fun read_users :: "int list \<Rightarrow> int list \<Rightarrow> federation \<Rightarrow> (int \<rightharpoonup> account)" where
  "read_users [] ids f = Map.empty"
| "read_users (u # us) ids f =
     (if u \<in> set ids \<and> users f u \<noteq> None then (read_users us ids f)(u \<mapsto> the (users f u)) else read_users us ids f)"

definition fill :: "(int \<rightharpoonup> account) \<Rightarrow> int \<times> int \<Rightarrow> customer" where
  "fill m x = (case m (fst x) of
     None \<Rightarrow> \<lparr>cust_id = fst x, cust_name = [], cust_country = [], spend = snd x\<rparr>
   | Some a \<Rightarrow> \<lparr>cust_id = fst x, cust_name = name_of a, cust_country = country a, spend = snd x\<rparr>)"

definition top_customers_app_join :: "outcome \<Rightarrow> outcome \<Rightarrow> int list \<Rightarrow> int list \<Rightarrow> nat \<Rightarrow> federation \<Rightarrow> customer list option" where
  "top_customers_app_join r1 r2 gs arrived n f =
     (case query r1 (top_spenders gs n (orders f)) of
        Inl e \<Rightarrow> None
      | Inr rank \<Rightarrow>
          (case query r2 (read_users arrived (map fst rank) f) of
             Inl e \<Rightarrow> None
           | Inr m \<Rightarrow> Some (map (fill m) rank)))"

text \<open>The same question as one query over foreign tables: an inner join.\<close>

definition fdw_join :: "outcome \<Rightarrow> int list \<Rightarrow> nat \<Rightarrow> federation \<Rightarrow> customer list option" where
  "fdw_join r gs n f =
     (case query r (map (fill (users f)) (filter (\<lambda>x. users f (fst x) \<noteq> None) (top_spenders gs n (orders f)))) of
        Inl e \<Rightarrow> None
      | Inr rank \<Rightarrow> Some rank)"

text \<open>Revenue by country: an inner join of all orders with their users.\<close>

definition revenue :: "string \<Rightarrow> federation \<Rightarrow> int" where
  "revenue c f = (\<Sum>x \<leftarrow> filter (\<lambda>x. map_option country (users f (user_id x)) = Some c) (orders f). amount x)"

section \<open>Joins\<close>

lemma read_users_spec: "read_users us ids f u = (if u \<in> set us \<and> u \<in> set ids then users f u else None)"
  by (induction us) auto

lemma fill_id [simp]: "cust_id (fill m x) = fst x"
  by (simp add: fill_def split: option.splits)

lemma fill_cong: "m (fst x) = m' (fst x) \<Longrightarrow> fill m x = fill m' x"
  by (simp add: fill_def)

lemma fill_blank: "m (fst x) = None \<Longrightarrow> cust_name (fill m x) = [] \<and> cust_country (fill m x) = []"
  by (simp add: fill_def)

text \<open>The ranking does not depend on the order of the groups when no two users spend the same.\<close>

lemma ranking_unique:
  assumes "groups gs os" "groups gs' os" and inj: "inj_on (\<lambda>u. spend_of u os) (user_id ` set os)"
  shows "top_spenders gs n os = top_spenders gs' n os"
proof -
  let ?row = "\<lambda>u. (u, spend_of u os)" and ?k = "\<lambda>x :: int \<times> int. - snd x"
  let ?all = "\<lambda>gs. sort_key ?k (map ?row gs)"
  have s: "set (?all gs) = ?row ` user_id ` set os" "set (?all gs') = ?row ` user_id ` set os"
    using assms(1,2) by (simp_all add: groups_def)
  have i: "inj_on ?k (?row ` user_id ` set os)"
    using inj by (auto simp: inj_on_def)
  have d: "distinct (map ?k (?all h))" if "groups h os" for h
  proof -
    have "distinct (?all h)" using that by (simp add: groups_def distinct_map inj_on_def)
    moreover have "set (?all h) = ?row ` user_id ` set os" using that by (simp add: groups_def)
    ultimately show ?thesis using i by (simp add: distinct_map)
  qed
  have "?all gs = ?all gs'"
    by (rule map_sorted_distinct_set_unique [where f = ?k]) (use i s d assms(1,2) in simp_all)
  then show ?thesis by (simp add: top_spenders_def)
qed

text \<open>C38: Let all rows of the second query of the application arrive (the loop does not read \<open>rows.Err\<close>), and let the two
  executions rank equal spenders in the same order or let there be none. Then the join in the application is the outer join
  of which the foreign-table query returns the part whose users exist, row by row and in the same order; the other rows have
  a blank name and country.\<close>

theorem app_join_extends_fdw:
  assumes "top_customers_app_join Done Done gs arrived n f = Some rank" and "cust_id ` set rank \<subseteq> set arrived"
    and "groups gs (orders f)" "groups gs' (orders f)"
    and "gs' = gs \<or> inj_on (\<lambda>u. spend_of u (orders f)) (user_id ` set (orders f))"
  shows "fdw_join Done gs' n f = Some (filter (\<lambda>t. users f (cust_id t) \<noteq> None) rank) \<and>
    (\<forall>t \<in> set rank. users f (cust_id t) = None \<longrightarrow> cust_name t = [] \<and> cust_country t = [])"
proof -
  let ?rank = "top_spenders gs n (orders f)"
  let ?m = "read_users arrived (map fst ?rank) f"
  have same: "top_spenders gs' n (orders f) = ?rank" using assms(3-5) ranking_unique by metis
  from assms(1) have rank: "rank = map (fill ?m) ?rank" by (simp add: top_customers_app_join_def query_simps)
  have m: "?m (fst x) = users f (fst x)" if "x \<in> set ?rank" for x
  proof -
    from that assms(2) have "fst x \<in> set arrived" unfolding rank by force
    with that show ?thesis by (simp add: read_users_spec)
  qed
  have "filter (\<lambda>t. users f (cust_id t) \<noteq> None) rank = map (fill ?m) (filter (\<lambda>x. users f (fst x) \<noteq> None) ?rank)"
    by (simp add: rank filter_map comp_def)
  also have "\<dots> = map (fill (users f)) (filter (\<lambda>x. users f (fst x) \<noteq> None) ?rank)"
    by (intro map_cong [OF refl] fill_cong m) simp
  finally have "fdw_join Done gs' n f = Some (filter (\<lambda>t. users f (cust_id t) \<noteq> None) rank)"
    by (simp add: fdw_join_def query_simps same)
  moreover have "cust_name t = [] \<and> cust_country t = []" if "t \<in> set rank" "users f (cust_id t) = None" for t
    using that m by (auto simp: rank fill_blank)
  ultimately show ?thesis by blast
qed

text \<open>A row that did not arrive leaves its customer blank, although the user exists.\<close>

theorem broken_stream_blanks_names:
  assumes "top_customers_app_join Done Done gs arrived n f = Some rank" and "t \<in> set rank" and "cust_id t \<notin> set arrived"
  shows "cust_name t = [] \<and> cust_country t = []"
proof -
  let ?m = "read_users arrived (map fst (top_spenders gs n (orders f))) f"
  from assms(1,2) obtain x where "t = fill ?m x" by (auto simp: top_customers_app_join_def query_simps)
  with assms(3) show ?thesis by (simp add: fill_blank read_users_spec)
qed

text \<open>What the ranking is: every group once, the spenders in falling order, and nobody left out spends more.\<close>

lemma sorted_take_rest:
  assumes "sorted_wrt P xs" "x \<in> set (take n xs)" "y \<in> set (drop n xs)"
  shows "P x y"
  using assms by (metis append_take_drop_id sorted_wrt_append)

theorem top_spenders_ranking:
  assumes "groups gs os"
  shows "length (top_spenders gs n os) = min n (card (user_id ` set os)) \<and>
    sorted_wrt (\<lambda>x y. snd y \<le> snd x) (top_spenders gs n os) \<and>
    (\<forall>x \<in> set (top_spenders gs n os). snd x = spend_of (fst x) os \<and>
      (\<forall>u \<in> user_id ` set os. u \<notin> fst ` set (top_spenders gs n os) \<longrightarrow> spend_of u os \<le> snd x))"
proof -
  let ?all = "sort_key (\<lambda>x. - snd x) (map (\<lambda>u. (u, spend_of u os)) gs)"
  have rank: "top_spenders gs n os = take n ?all" by (simp add: top_spenders_def)
  have sorted: "sorted_wrt (\<lambda>x y. snd y \<le> snd x) ?all"
    using sorted_sort_key [of "\<lambda>x. - snd x" "map (\<lambda>u. (u, spend_of u os)) gs"] by (simp add: sorted_map)
  have "length ?all = card (user_id ` set os)"
    using assms distinct_card [of gs] by (simp add: groups_def)
  then have "length (take n ?all) = min n (card (user_id ` set os))" by simp
  moreover have "snd x = spend_of (fst x) os" if "x \<in> set (take n ?all)" for x
    using in_set_takeD [OF that] by auto
  moreover have "spend_of u os \<le> snd x"
    if x: "x \<in> set (take n ?all)" and u: "u \<in> user_id ` set os" "u \<notin> fst ` set (take n ?all)" for x u
  proof -
    have "(u, spend_of u os) \<in> set ?all" using assms u(1) by (auto simp: groups_def)
    moreover have "set ?all = set (take n ?all) \<union> set (drop n ?all)"
      by (simp only: set_append [symmetric] append_take_drop_id)
    ultimately have "(u, spend_of u os) \<in> set (drop n ?all)" using u(2) by force
    from sorted_take_rest [OF sorted x this] show ?thesis by simp
  qed
  ultimately show ?thesis unfolding rank by (intro conjI ballI impI sorted_wrt_take [OF sorted])
qed

text \<open>The revenue by country is the revenue of all orders except those whose user is missing.\<close>

theorem country_revenue_misses_orphans:
  assumes "finite C" and "country ` ran (users f) \<subseteq> C"
  shows "(\<Sum>c \<in> C. revenue c f) = (\<Sum>x \<leftarrow> orders f. amount x) - (\<Sum>x \<leftarrow> orphans f. amount x)"
proof -
  have "(\<Sum>c \<in> C. \<Sum>x \<leftarrow> filter (\<lambda>x. map_option country (users f (user_id x)) = Some c) os. amount x) =
      (\<Sum>x \<leftarrow> os. amount x) - (\<Sum>x \<leftarrow> filter (\<lambda>x. users f (user_id x) = None) os. amount x)" for os
  proof (induction os)
    case (Cons x os)
    show ?case
    proof (cases "users f (user_id x)")
      case None
      with Cons show ?thesis by simp
    next
      case (Some a)
      then have "country a \<in> C" using assms(2) by (auto simp: ran_def)
      moreover have "(\<Sum>y \<leftarrow> filter (\<lambda>y. map_option country (users f (user_id y)) = Some c) (x # os). amount y) =
          (\<Sum>y \<leftarrow> filter (\<lambda>y. map_option country (users f (user_id y)) = Some c) os. amount y) +
          (if c = country a then amount x else 0)" for c
        using Some by simp
      ultimately show ?thesis using Cons Some assms(1) by (simp add: sum.distrib)
    qed
  qed simp
  then show ?thesis by (simp add: revenue_def orphans_def)
qed

section \<open>References without foreign keys\<close>

text \<open>
  Clients between the two transactions of \<open>placeOrder\<close>: the second component holds the users they have validated.
  With the flag, users may be deleted meanwhile.
\<close>

inductive fed_step :: "bool \<Rightarrow> federation \<times> int set \<Rightarrow> federation \<times> int set \<Rightarrow> bool" for deletions where
  validated: "check_user q u f \<Longrightarrow> fed_step deletions (f, v) (f, insert u v)"
| inserted: "u \<in> v \<Longrightarrow> fed_step deletions (f, v) (snd (insert_order r u a f), v)"
| registered: "users f u = None \<Longrightarrow> fed_step deletions (f, v) (f\<lparr>users := (users f)(u \<mapsto> a)\<rparr>, v)"
| removed: "deletions \<Longrightarrow> fed_step deletions (f, v) (f\<lparr>users := (users f)(u := None)\<rparr>, v)"

definition fed_ok :: "federation \<times> int set \<Rightarrow> bool" where
  "fed_ok s \<longleftrightarrow> orphans (fst s) = [] \<and> (\<forall>u \<in> snd s. users (fst s) u \<noteq> None)"

lemma fed_step_ok: "fed_step False s t \<Longrightarrow> fed_ok s \<Longrightarrow> fed_ok t"
  by (induction rule: fed_step.induct)
    (auto simp: fed_ok_def orphans_def filter_empty_conv check_user_def insert_order_def query_Inr split: sum.splits)

text \<open>Without deletions of users, no interleaving of clients that place orders makes an orphan.\<close>

theorem no_orphans_without_deletions:
  assumes "(fed_step False)\<^sup>*\<^sup>* (f, {}) (f', v)" and "orphans f = []"
  shows "orphans f' = []"
proof -
  have "fed_ok (f', v)" using assms(1)
    by (induction rule: rtranclp_induct) (use assms(2) fed_step_ok in \<open>auto simp: fed_ok_def\<close>)
  then show ?thesis by (simp add: fed_ok_def)
qed

text \<open>A user deleted between the validation and the insert leaves an orphan, and \<open>placeOrder\<close> reports success.\<close>

theorem deletion_race_makes_orphan:
  assumes "users f u = Some a" and "\<bar>x\<bar> < 10 ^ 10"
  shows "\<exists>f'. (fed_step True)\<^sup>*\<^sup>* (f, {}) (f', {u}) \<and> insert_order Done u x (f\<lparr>users := (users f)(u := None)\<rparr>) = (Some (next_id f), f') \<and>
    \<lparr>order_id = next_id f, user_id = u, amount = x\<rparr> \<in> set (orphans f')"
proof -
  let ?g = "f\<lparr>users := (users f)(u := None)\<rparr>"
  have "fed_step True (f, {}) (f, insert u {})"
    by (rule fed_step.validated [of Done]) (simp add: check_user_def query_simps assms(1))
  moreover have "fed_step True (f, {u}) (?g, {u})" by (rule fed_step.removed) simp
  moreover have "fed_step True (?g, {u}) (snd (insert_order Done u x ?g), {u})" by (rule fed_step.inserted) simp
  ultimately have "(fed_step True)\<^sup>*\<^sup>* (f, {}) (snd (insert_order Done u x ?g), {u})"
    by (meson converse_rtranclp_into_rtranclp rtranclp.rtrancl_refl)
  moreover have "insert_order Done u x ?g = (Some (next_id f), snd (insert_order Done u x ?g))"
    using assms(2) by (simp add: insert_order_def)
  moreover have "\<lparr>order_id = next_id f, user_id = u, amount = x\<rparr> \<in> set (orphans (snd (insert_order Done u x ?g)))"
    using assms(2) by (simp add: insert_order_def orphans_def)
  ultimately show ?thesis by blast
qed

section \<open>Witnesses\<close>

definition shop :: federation where
  "shop = \<lparr>users = [1 \<mapsto> \<lparr>name_of = ''User 1'', country = ''SG''\<rparr>, 2 \<mapsto> \<lparr>name_of = ''User 2'', country = ''MY''\<rparr>],
     orders = [\<lparr>order_id = 1, user_id = 1, amount = 500\<rparr>, \<lparr>order_id = 2, user_id = 9, amount = 900\<rparr>,
       \<lparr>order_id = 3, user_id = 2, amount = 700\<rparr>, \<lparr>order_id = 4, user_id = 1, amount = 300\<rparr>], next_id = 5\<rparr>"

lemma app_join_extends_fdw_witness:
  "fdw_join Done [9, 2, 1] 2 shop = Some [\<lparr>cust_id = 1, cust_name = ''User 1'', cust_country = ''SG'', spend = 800\<rparr>]"
proof -
  have "top_customers_app_join Done Done [1, 2, 9] [1, 9] 2 shop =
      Some [\<lparr>cust_id = 9, cust_name = [], cust_country = [], spend = 900\<rparr>,
            \<lparr>cust_id = 1, cust_name = ''User 1'', cust_country = ''SG'', spend = 800\<rparr>]"
    by code_simp
  moreover have "groups [1, 2, 9] (orders shop)" "groups [9, 2, 1] (orders shop)"
    "inj_on (\<lambda>u. spend_of u (orders shop)) (user_id ` set (orders shop))"
    by (auto simp: shop_def groups_def spend_of_def)
  ultimately have "fdw_join Done [9, 2, 1] 2 shop = Some (filter (\<lambda>t. users shop (cust_id t) \<noteq> None)
      [\<lparr>cust_id = 9, cust_name = [], cust_country = [], spend = 900\<rparr>,
       \<lparr>cust_id = 1, cust_name = ''User 1'', cust_country = ''SG'', spend = 800\<rparr>])"
    using app_join_extends_fdw [of "[1, 2, 9]" "[1, 9]" 2 shop _ "[9, 2, 1]"] by simp
  then show ?thesis by (simp add: shop_def)
qed

lemma country_revenue_misses_orphans_witness:
  "revenue ''SG'' shop + revenue ''MY'' shop = 1500"
proof -
  have "country ` ran (users shop) \<subseteq> {''SG'', ''MY''}" by (auto simp: shop_def ran_def split: if_splits)
  from country_revenue_misses_orphans [OF _ this]
  have "(\<Sum>c \<in> {''SG'', ''MY''}. revenue c shop) = (\<Sum>x \<leftarrow> orders shop. amount x) - (\<Sum>x \<leftarrow> orphans shop. amount x)" by simp
  also have "\<dots> = 1500" by code_simp
  finally show ?thesis by simp
qed

lemma no_orphans_without_deletions_witness:
  "orphans (snd (insert_order Done 1 50 (shop\<lparr>orders := []\<rparr>))) = []"
proof -
  let ?s = "shop\<lparr>orders := []\<rparr>"
  have "fed_step False (?s, {}) (?s, insert 1 {})"
    by (rule fed_step.validated [of Done]) (simp add: check_user_def query_simps shop_def)
  moreover have "fed_step False (?s, {1}) (snd (insert_order Done 1 50 ?s), {1})" by (rule fed_step.inserted) simp
  ultimately have "(fed_step False)\<^sup>*\<^sup>* (?s, {}) (snd (insert_order Done 1 50 ?s), {1})"
    by (meson converse_rtranclp_into_rtranclp rtranclp.rtrancl_refl)
  then show ?thesis by (rule no_orphans_without_deletions) (simp add: orphans_def)
qed

lemma deletion_race_makes_orphan_witness:
  "\<exists>f'. insert_order Done 1 50 (shop\<lparr>users := (users shop)(1 := None)\<rparr>) = (Some 5, f') \<and>
    \<lparr>order_id = 5, user_id = 1, amount = 50\<rparr> \<in> set (orphans f')"
proof -
  have "users shop 1 = Some \<lparr>name_of = ''User 1'', country = ''SG''\<rparr>" "next_id shop = 5" by (simp_all add: shop_def)
  from deletion_race_makes_orphan [OF this(1), of 50] this(2) show ?thesis by auto
qed

end
