(* ===== verification/LoadBalancing.thy ===== *)
theory LoadBalancing
  imports GoStd "HOL-Library.AList" "HOL-Library.Char_ord" "HOL-Library.List_Lexorder"
begin

text \<open>
  \<open>simulate_connection_load_balancing/main.go\<close>: the program reads the statistics of a proxy, waits until servers
  have a status, and counts which server answers new connections. The proxy is a parameter: the pages it
  serves and the answers of the connections.
\<close>

section \<open>Statistics\<close>

type_synonym table = "(string \<times> string) list"

text \<open>A page that cannot be fetched, or the CSV records of one, \<open>None\<close> when they do not parse.\<close>

datatype page = Unreachable | Body "string list list option"

text \<open>The rows of \<open>serverStatus\<close>; \<open>None\<close> is a panic, \<open>col\<close> the column that was found.\<close>

fun status_rows :: "string \<Rightarrow> nat option \<Rightarrow> string list list \<Rightarrow> table \<Rightarrow> table option" where
  "status_rows proxy col [] out = Some out"
| "status_rows proxy col ([] # rs) out = None"
| "status_rows proxy col ((p # r) # rs) out =
     (if p \<noteq> proxy then status_rows proxy col rs out
      else (case r of
              [] \<Rightarrow> None
            | sv # r' \<Rightarrow>
                if sv = ''FRONTEND'' \<or> sv = ''BACKEND'' then status_rows proxy col rs out
                else (case col of
                        None \<Rightarrow> None
                      | Some c \<Rightarrow>
                          if length (p # r) \<le> c then None
                          else (case str_fields ((p # r) ! c) of
                                  [] \<Rightarrow> None
                                | w # ws \<Rightarrow> status_rows proxy col rs (AList.update sv w out)))))"

definition server_status :: "string \<Rightarrow> page \<Rightarrow> table option option" where
  "server_status proxy h = (case h of
     Unreachable \<Rightarrow> Some None
   | Body None \<Rightarrow> Some None
   | Body (Some []) \<Rightarrow> Some None
   | Body (Some ([] # rs)) \<Rightarrow> None
   | Body (Some ((h0 # hs) # rs)) \<Rightarrow>
       map_option Some (status_rows proxy (index_func (\<lambda>n. n = ''status'') (trim_prefix h0 ''# '' # hs)) rs []))"

definition status_of :: "table \<Rightarrow> string \<Rightarrow> string" where
  "status_of m n = (case map_of m n of None \<Rightarrow> [] | Some s \<Rightarrow> s)"

text \<open>\<open>printStats\<close>: the servers in the order of their names, with the icon.\<close>

definition print_stats :: "table \<Rightarrow> (bool \<times> string \<times> string) list" where
  "print_stats st = map (\<lambda>n. (status_of st n = ''UP'', n, status_of st n)) (sort (map fst st))"

section \<open>Waiting\<close>

definition all_wanted :: "table \<Rightarrow> table option \<Rightarrow> bool" where
  "all_wanted want st = (case st of None \<Rightarrow> False | Some m \<Rightarrow> list_all (\<lambda>(n, s). status_of m n = s) want)"

datatype wait = Panics | Times_out | Ready nat

fun later :: "wait \<Rightarrow> wait" where
  "later (Ready n) = Ready (Suc n)"
| "later w = w"

text \<open>\<open>waitServers\<close>, in milliseconds: each reading of the page takes some time; the list ends with the deadline.\<close>

fun wait_loop :: "string \<Rightarrow> table \<Rightarrow> nat \<Rightarrow> (nat \<times> page) list \<Rightarrow> wait" where
  "wait_loop proxy want t [] = Times_out"
| "wait_loop proxy want t ((d, h) # hs) =
     (if 60000 \<le> t then Times_out
      else (case server_status proxy h of
              None \<Rightarrow> Panics
            | Some st \<Rightarrow> if all_wanted want st then Ready 0 else later (wait_loop proxy want (t + d + 250) hs)))"

definition wait_servers :: "string \<Rightarrow> table \<Rightarrow> (nat \<times> page) list \<Rightarrow> wait" where
  "wait_servers proxy want hs = wait_loop proxy want 0 hs"

section \<open>Counting\<close>

definition count_up :: "string \<Rightarrow> (string \<times> nat) list \<Rightarrow> (string \<times> nat) list" where
  "count_up k m = AList.update k (Suc (case map_of m k of None \<Rightarrow> 0 | Some n \<Rightarrow> n)) m"

text \<open>One connection of \<open>distribute\<close>: what connecting and the query answer.\<close>

definition answer_key :: "outcome \<times> outcome \<times> string \<Rightarrow> string" where
  "answer_key a = (case a of (rc, rq, n) \<Rightarrow>
     if err_of rc \<noteq> None then ''connect error''
     else (case query rq n of Inl e \<Rightarrow> ''query error'' | Inr n \<Rightarrow> n))"

definition distribute :: "(outcome \<times> outcome \<times> string) list \<Rightarrow> (string \<times> nat) list" where
  "distribute answers = fold (\<lambda>a. count_up (answer_key a)) answers []"

text \<open>
  \<open>pinnedPool\<close>: each query is served by one of the open connections, in the order in which they complete; an error is
  fatal. \<open>label\<close> is the name and the process of a connection's server.
\<close>

fun pinned_pool :: "(nat \<Rightarrow> string) \<Rightarrow> (nat \<times> outcome) list \<Rightarrow> (string \<times> nat) list \<Rightarrow> (string \<times> nat) list option" where
  "pinned_pool label [] m = Some m"
| "pinned_pool label ((c, r) # qs) m = (if err_of r = None then pinned_pool label qs (count_up (label c) m) else None)"

definition print_distribution :: "(string \<times> nat) list \<Rightarrow> (string \<times> nat) list" where
  "print_distribution m = map (\<lambda>n. (n, the (map_of m n))) (sort (map fst m))"

section \<open>Reading the statistics\<close>

text \<open>A row for a server of the proxy.\<close>

definition server_row :: "string \<Rightarrow> string list \<Rightarrow> bool" where
  "server_row proxy r \<longleftrightarrow> r ! 0 = proxy \<and> r ! 1 \<noteq> ''FRONTEND'' \<and> r ! 1 \<noteq> ''BACKEND''"

definition well_formed :: "nat \<Rightarrow> string list list \<Rightarrow> bool" where
  "well_formed c rs \<longleftrightarrow> (\<forall>r \<in> set rs. 1 < length r \<and> c < length r \<and> str_fields (r ! c) \<noteq> [])"

lemma status_rows_spec:
  assumes "well_formed c rs"
  shows "\<exists>m. status_rows proxy (Some c) rs out = Some m \<and>
    (\<forall>n. map_of m n = (case find (\<lambda>r. server_row proxy r \<and> r ! 1 = n) (rev rs) of
      None \<Rightarrow> map_of out n | Some r \<Rightarrow> Some (hd (str_fields (r ! c)))))"
  using assms
proof (induction rs arbitrary: out)
  case Nil
  then show ?case by simp
next
  case (Cons r rs)
  then have r: "1 < length r" "c < length r" "str_fields (r ! c) \<noteq> []" and wf: "well_formed c rs"
    by (simp_all add: well_formed_def)
  from r(1) obtain p sv r' where p: "r = p # sv # r'" by (cases r; cases "tl r") auto
  have snoc: "find P (xs @ [x]) = (case find P xs of None \<Rightarrow> if P x then Some x else None | Some y \<Rightarrow> Some y)" for P :: "string list \<Rightarrow> bool" and xs x
    by (induction xs) auto
  show ?case
  proof (cases "server_row proxy r")
    case False
    then have "status_rows proxy (Some c) (r # rs) out = status_rows proxy (Some c) rs out"
      by (auto simp: p server_row_def)
    moreover from Cons.IH [OF wf, of out] obtain m where m: "status_rows proxy (Some c) rs out = Some m"
        "\<And>n. map_of m n = (case find (\<lambda>r. server_row proxy r \<and> r ! 1 = n) (rev rs) of None \<Rightarrow> map_of out n | Some r \<Rightarrow> Some (hd (str_fields (r ! c))))"
      by blast
    moreover have "map_of m n = (case find (\<lambda>r. server_row proxy r \<and> r ! 1 = n) (rev (r # rs)) of None \<Rightarrow> map_of out n | Some r \<Rightarrow> Some (hd (str_fields (r ! c))))" for n
      unfolding m(2) using False by (cases "find (\<lambda>r. server_row proxy r \<and> r ! 1 = n) (rev rs)") (simp_all add: snoc)
    ultimately show ?thesis by metis
  next
    case True
    obtain w ws where w: "str_fields (r ! c) = w # ws" using r(3) by (cases "str_fields (r ! c)") auto
    from True r(2) w have step: "status_rows proxy (Some c) (r # rs) out = status_rows proxy (Some c) rs (AList.update sv w out)"
      by (simp add: p server_row_def)
    from Cons.IH [OF wf, of "AList.update sv w out"] obtain m where m: "status_rows proxy (Some c) rs (AList.update sv w out) = Some m"
        "\<And>n. map_of m n = (case find (\<lambda>r. server_row proxy r \<and> r ! 1 = n) (rev rs) of None \<Rightarrow> map_of (AList.update sv w out) n | Some r \<Rightarrow> Some (hd (str_fields (r ! c))))"
      by blast
    have "map_of m n = (case find (\<lambda>r. server_row proxy r \<and> r ! 1 = n) (rev (r # rs)) of None \<Rightarrow> map_of out n | Some r \<Rightarrow> Some (hd (str_fields (r ! c))))" for n
      unfolding m(2) using True w
      by (cases "find (\<lambda>r. server_row proxy r \<and> r ! 1 = n) (rev rs)") (simp_all add: snoc update_conv' p)
    with m(1) show ?thesis unfolding step by blast
  qed
qed

text \<open>On a page with a status column, \<open>serverStatus\<close> gives for each server of the proxy the first word of its status, of the last row when a server is listed twice.\<close>

theorem server_status_reads_page:
  assumes "index_func (\<lambda>n. n = ''status'') (trim_prefix h0 ''# '' # hs) = Some c" and "well_formed c rs"
  shows "\<exists>m. server_status proxy (Body (Some ((h0 # hs) # rs))) = Some (Some m) \<and>
    (\<forall>n. status_of m n = (case find (\<lambda>r. server_row proxy r \<and> r ! 1 = n) (rev rs) of
      None \<Rightarrow> [] | Some r \<Rightarrow> hd (str_fields (r ! c))))"
proof -
  from status_rows_spec [OF assms(2), of proxy "[]"] obtain m where
    m: "status_rows proxy (Some c) rs [] = Some m"
      "\<And>n. map_of m n = (case find (\<lambda>r. server_row proxy r \<and> r ! 1 = n) (rev rs) of None \<Rightarrow> None | Some r \<Rightarrow> Some (hd (str_fields (r ! c))))"
    by (metis map_of.simps(1))
  from m(1) have "server_status proxy (Body (Some ((h0 # hs) # rs))) = Some (Some m)"
    by (simp add: server_status_def assms(1) del: index_func.simps)
  moreover have "status_of m n = (case find (\<lambda>r. server_row proxy r \<and> r ! 1 = n) (rev rs) of None \<Rightarrow> [] | Some r \<Rightarrow> hd (str_fields (r ! c)))" for n
    unfolding status_of_def m(2) by (simp split: option.splits)
  ultimately show ?thesis by blast
qed

text \<open>Without a status column the first row of a server ends the program.\<close>

theorem missing_column_panics:
  assumes "''status'' \<notin> set (trim_prefix h0 ''# '' # hs)" and "r \<in> set rs" and "1 < length r" and "server_row proxy r"
  shows "server_status proxy (Body (Some ((h0 # hs) # rs))) = None"
proof -
  have "index_func (\<lambda>n. n = ''status'') (trim_prefix h0 ''# '' # hs) = None"
    using assms(1) unfolding index_func_None by auto
  moreover have "status_rows proxy None rs out = None" for out
    using assms(2-4)
  proof (induction rs arbitrary: out)
    case (Cons x rs)
    then show ?case by (cases x; cases "tl x") (auto simp: server_row_def split: list.splits)
  qed simp
  ultimately show ?thesis by (simp add: server_status_def)
qed

section \<open>What waiting means\<close>

text \<open>When no page makes it panic, the wait is a poll of the condition.\<close>

lemma wait_loop_poll:
  assumes "\<forall>x \<in> set hs. server_status proxy (snd x) \<noteq> None"
  shows "wait_loop proxy want t hs =
    (case poll_until 60000 250 t (map (\<lambda>(d, h). (d, all_wanted want (the (server_status proxy h)))) hs) of
       None \<Rightarrow> Times_out | Some n \<Rightarrow> Ready n)"
  using assms
proof (induction hs arbitrary: t)
  case (Cons x hs)
  obtain d h where x: "x = (d, h)" by force
  with Cons.prems obtain st where st: "server_status proxy h = Some st" by auto
  with Cons x show ?case by (auto split: option.splits)
qed simp

text \<open>\<open>waitServers\<close> returns only after a page on which every listed server has the wanted status, read before the deadline.\<close>

theorem wait_servers_ready:
  assumes "wait_servers proxy want hs = Ready n"
  shows "n < length hs \<and> 250 * n < 60000 \<and>
    (\<exists>m. server_status proxy (snd (hs ! n)) = Some (Some m) \<and> (\<forall>(s, w) \<in> set want. status_of m s = w))"
proof -
  have "wait_loop proxy want t hs = Ready n \<Longrightarrow> n < length hs \<and> t + 250 * n < 60000 \<and>
      (\<exists>m. server_status proxy (snd (hs ! n)) = Some (Some m) \<and> (\<forall>(s, w) \<in> set want. status_of m s = w))" for t
  proof (induction hs arbitrary: t n)
    case (Cons x hs)
    obtain d h where x: "x = (d, h)" by force
    from Cons.prems x obtain st where t: "t < 60000" and st: "server_status proxy h = Some st"
      by (auto split: if_splits option.splits)
    show ?case
    proof (cases "all_wanted want st")
      case True
      with Cons.prems x t st have "n = 0" by simp
      moreover from True obtain m where "st = Some m" "\<forall>(s, w) \<in> set want. status_of m s = w"
        by (auto simp: all_wanted_def list_all_iff split: option.splits)
      ultimately show ?thesis using t st x by simp
    next
      case False
      with Cons.prems x t st obtain k where k: "wait_loop proxy want (t + d + 250) hs = Ready k" "n = Suc k"
        by (cases "wait_loop proxy want (t + d + 250) hs") auto
      from Cons.IH [OF k(1)] k(2) show ?thesis by simp
    qed
  qed simp
  from this [of 0] assms show ?thesis by (simp add: wait_servers_def)
qed

text \<open>A status that shows soon enough, with readable pages before, ends the wait.\<close>

theorem wait_servers_sees:
  assumes "\<forall>x \<in> set hs. server_status proxy (snd x) \<noteq> None"
    and "n < length hs" and "server_status proxy (snd (hs ! n)) = Some (Some m)" and "\<forall>(s, w) \<in> set want. status_of m s = w"
    and "(\<Sum>x \<leftarrow> take n hs. fst x + 250) < 60000"
  shows "\<exists>k. wait_servers proxy want hs = Ready k"
proof -
  let ?cs = "map (\<lambda>(d, h). (d, all_wanted want (the (server_status proxy h)))) hs"
  have "map (\<lambda>c. fst c + 250) (take n ?cs) = map (\<lambda>c. fst c + 250) (take n hs)"
    by (simp add: take_map comp_def split_beta)
  then have "poll_until 60000 250 0 ?cs \<noteq> None"
    using assms(2-5) by (intro poll_until_sees [of n]) (simp_all add: all_wanted_def list_all_iff split_beta)
  with wait_loop_poll [OF assms(1)] show ?thesis by (auto simp: wait_servers_def)
qed

section \<open>What the counts mean\<close>

definition counted :: "(string \<times> nat) list \<Rightarrow> string \<Rightarrow> nat" where
  "counted m k = (case map_of m k of None \<Rightarrow> 0 | Some n \<Rightarrow> n)"

lemma counted_count_up: "counted (count_up k m) j = (if j = k then Suc (counted m k) else counted m j)"
  by (simp add: counted_def count_up_def update_conv')

lemma count_up_keys: "fst ` set (count_up k m) = insert k (fst ` set m)"
  by (simp add: count_up_def dom_update)

text \<open>Every connection of \<open>distribute\<close> is counted once, under the server that answered or the error.\<close>

theorem distribute_counts:
  "counted (distribute answers) k = length (filter (\<lambda>a. answer_key a = k) answers) \<and>
   fst ` set (distribute answers) = answer_key ` set answers"
proof -
  have "counted (fold (\<lambda>a. count_up (answer_key a)) as m) k = counted m k + length (filter (\<lambda>a. answer_key a = k) as) \<and>
      fst ` set (fold (\<lambda>a. count_up (answer_key a)) as m) = fst ` set m \<union> answer_key ` set as" for as m
    by (induction as arbitrary: m) (auto simp: counted_count_up count_up_keys)
  from this [of answers "[]"] show ?thesis by (simp add: distribute_def counted_def)
qed

text \<open>A pool's queries are served by the servers of its open connections only, however they compete.\<close>

theorem pinned_pool_stays:
  assumes "pinned_pool label qs [] = Some m" and "\<forall>q \<in> set qs. fst q < n"
  shows "fst ` set m \<subseteq> label ` {..<n} \<and> (\<forall>k. counted m k = length (filter (\<lambda>q. label (fst q) = k) qs))"
proof -
  have "pinned_pool label qs m0 = Some m \<Longrightarrow> fst ` set m = fst ` set m0 \<union> (label \<circ> fst) ` set qs \<and>
      (\<forall>k. counted m k = counted m0 k + length (filter (\<lambda>q. label (fst q) = k) qs))" for m0
  proof (induction qs arbitrary: m0)
    case (Cons q qs)
    obtain c r where q: "q = (c, r)" by force
    with Cons.prems have "pinned_pool label qs (count_up (label c) m0) = Some m" by (simp split: if_splits)
    from Cons.IH [OF this] show ?case by (auto simp: q counted_count_up count_up_keys)
  qed simp
  from this [OF assms(1)] assms(2) show ?thesis by (auto simp: counted_def)
qed

section \<open>Witnesses\<close>

definition stats_page :: "string \<Rightarrow> page" where
  "stats_page w = Body (Some [[''# pxname'', ''svname'', ''status''], [''pg_read'', ''FRONTEND'', ''OPEN''],
     [''pg_read'', ''replica1'', w], [''pg_read'', ''replica2'', ''UP''], [''pg_write'', ''primary'', ''UP'']])"

lemma server_status_reads_page_witness:
  "\<exists>m. server_status ''pg_read'' (stats_page ''DOWN 1/2'') = Some (Some m) \<and> status_of m ''replica1'' = ''DOWN'' \<and> status_of m ''primary'' = []"
proof -
  let ?rs = "[[''pg_read'', ''FRONTEND'', ''OPEN''], [''pg_read'', ''replica1'', ''DOWN 1/2''], [''pg_read'', ''replica2'', ''UP''],
    [''pg_write'', ''primary'', ''UP'']]"
  have c: "index_func (\<lambda>n. n = ''status'') (trim_prefix ''# pxname'' ''# '' # [''svname'', ''status'']) = Some 2" by code_simp
  have wf: "well_formed 2 ?rs" by code_simp
  note page = server_status_reads_page [OF c wf, of "''pg_read''"]
  then obtain m where m: "server_status ''pg_read'' (stats_page ''DOWN 1/2'') = Some (Some m)"
    "\<forall>n. status_of m n = (case find (\<lambda>r. server_row ''pg_read'' r \<and> r ! 1 = n) (rev ?rs) of None \<Rightarrow> [] | Some r \<Rightarrow> hd (str_fields (r ! 2)))"
    unfolding stats_page_def by (elim exE conjE)
  have "(case find (\<lambda>r. server_row ''pg_read'' r \<and> r ! 1 = ''replica1'') (rev ?rs) of None \<Rightarrow> [] | Some r \<Rightarrow> hd (str_fields (r ! 2))) = ''DOWN''"
    "(case find (\<lambda>r. server_row ''pg_read'' r \<and> r ! 1 = ''primary'') (rev ?rs) of None \<Rightarrow> [] | Some r \<Rightarrow> hd (str_fields (r ! 2))) = []"
    by code_simp+
  then have "status_of m ''replica1'' = ''DOWN''" "status_of m ''primary'' = []"
    using m(2) [THEN spec, of "''replica1''"] m(2) [THEN spec, of "''primary''"] by (simp_all only:)
  with m(1) show ?thesis by (intro exI conjI)
qed

lemma missing_column_panics_witness:
  "server_status ''pg_read'' (Body (Some [[''# pxname'', ''svname''], [''pg_read'', ''replica1'']])) = None"
proof (rule missing_column_panics)
  show "''status'' \<notin> set (trim_prefix ''# pxname'' ''# '' # [''svname''])" by code_simp
  show "server_row ''pg_read'' [''pg_read'', ''replica1'']" by code_simp
qed simp_all

lemma wait_servers_ready_witness:
  "\<exists>m. server_status ''pg_read'' (snd ([(20 :: nat, stats_page ''UP''), (20, stats_page ''DOWN'')] ! 1)) = Some (Some m) \<and> status_of m ''replica1'' = ''DOWN''"
proof -
  have pages: "server_status ''pg_read'' (stats_page ''UP'') = Some (Some [(''replica1'', ''UP''), (''replica2'', ''UP'')])"
    "server_status ''pg_read'' (stats_page ''DOWN'') = Some (Some [(''replica1'', ''DOWN''), (''replica2'', ''UP'')])" by code_simp+
  have "wait_servers ''pg_read'' [(''replica1'', ''DOWN'')] [(20, stats_page ''UP''), (20, stats_page ''DOWN'')] = Ready 1"
    by (simp add: wait_servers_def pages all_wanted_def status_of_def)
  from wait_servers_ready [OF this] obtain m where
    "server_status ''pg_read'' (snd ([(20 :: nat, stats_page ''UP''), (20, stats_page ''DOWN'')] ! 1)) = Some (Some m)"
    "\<forall>(s, w) \<in> set [(''replica1'', ''DOWN'')]. status_of m s = w"
    by (elim exE conjE)
  then show ?thesis by (intro exI conjI) simp_all
qed

lemma wait_servers_sees_witness:
  "\<exists>k. wait_servers ''pg_read'' [(''replica1'', ''DOWN'')] [(20, Unreachable), (20, stats_page ''DOWN'')] = Ready k"
proof -
  have pages: "server_status ''pg_read'' (stats_page ''DOWN'') = Some (Some [(''replica1'', ''DOWN''), (''replica2'', ''UP'')])"
    "server_status ''pg_read'' Unreachable = Some None" by code_simp+
  show ?thesis
  proof (rule wait_servers_sees)
    show "\<forall>x \<in> set [(20, Unreachable), (20, stats_page ''DOWN'')]. server_status ''pg_read'' (snd x) \<noteq> None"
      using pages by simp
    show "server_status ''pg_read'' (snd ([(20, Unreachable), (20, stats_page ''DOWN'')] ! 1)) = Some (Some [(''replica1'', ''DOWN''), (''replica2'', ''UP'')])"
      using pages by simp
    show "\<forall>(s, w) \<in> set [(''replica1'', ''DOWN'')]. status_of [(''replica1'', ''DOWN''), (''replica2'', ''UP'')] s = w"
      by (simp add: status_of_def)
  qed simp_all
qed

lemma pinned_pool_stays_witness:
  "\<exists>m. pinned_pool (\<lambda>c. if c = 0 then ''a'' else ''b'') [(0, Done), (1, Done), (0, Done)] [] = Some m \<and> counted m ''a'' = 2"
proof -
  have p: "pinned_pool (\<lambda>c. if c = 0 then ''a'' else ''b'') [(0, Done), (1, Done), (0, Done)] [] = Some [(''a'', 2), (''b'', 1)]" by code_simp
  from pinned_pool_stays [OF p, of 2] p show ?thesis by simp
qed

end
