(* ===== verification/IndexPlans.thy ===== *)
theory IndexPlans
  imports GoStd
begin

text \<open>
  \<open>simulate_indexing_strategies/main.go\<close>: the reading of a query plan, and the indexes that the program creates and
  drops. The measurements themselves come from the server.
\<close>

section \<open>Plans\<close>

datatype plan_node = Plan_Node (node_type: string) (index_name: string) (heap_fetches: int) (hit_blocks: int) (read_blocks: int)
  (plans: "plan_node list")

record plan =
  node :: string
  index :: string
  buffers :: int
  heap :: int

text \<open>The closure \<open>walk\<close>: down to the first scan, in depth-first order.\<close>

fun walk :: "plan_node \<Rightarrow> plan \<Rightarrow> bool \<times> plan"
  and walk_all :: "plan_node list \<Rightarrow> plan \<Rightarrow> bool \<times> plan" where
  "walk (Plan_Node t i h hb rb cs) p =
     (if contains_str t ''Scan''
      then (True, p\<lparr>node := t, index := (if t = ''Bitmap Heap Scan'' \<and> cs \<noteq> [] then index_name (hd cs) else i), heap := h\<rparr>)
      else walk_all cs p)"
| "walk_all [] p = (False, p)"
| "walk_all (c # cs) p = (case walk c p of (True, p') \<Rightarrow> (True, p') | (False, p') \<Rightarrow> walk_all cs p')"

text \<open>
  \<open>explain\<close>: the plans of the JSON answer, \<open>None\<close> when it does not parse. The result is \<open>None\<close> for the fatal errors and
  the panic on an empty answer.
\<close>

definition explain :: "outcome \<Rightarrow> plan_node list option \<Rightarrow> plan option" where
  "explain r out = (case query r out of
     Inl e \<Rightarrow> None
   | Inr None \<Rightarrow> None
   | Inr (Some []) \<Rightarrow> None
   | Inr (Some (n # ns)) \<Rightarrow>
       Some (snd (walk n \<lparr>node = [], index = [], buffers = hit_blocks n + read_blocks n, heap = 0\<rparr>)))"

text \<open>What \<open>report\<close> prints of the scan, and the heap fetches of an index-only scan.\<close>

definition report :: "plan \<Rightarrow> string \<times> int option" where
  "report p = (if index p \<noteq> [] then node p @ '' using '' @ index p else node p,
     if node p = ''Index Only Scan'' then Some (heap p) else None)"

section \<open>Catalog\<close>

record catalog =
  indexes :: "string list"
  constraints :: "string list"

definition demo_indexes :: "string list" where
  "demo_indexes = [''idx_orders_customer'', ''idx_orders_email_btree'', ''idx_orders_email_hash'',
     ''idx_orders_email_lower'', ''idx_orders_status_created'', ''idx_orders_pending'',
     ''idx_orders_customer_cover'', ''idx_orders_attrs'', ''idx_orders_tags'',
     ''idx_orders_created_btree'', ''idx_orders_created_brin'', ''idx_orders_amount'']"

text \<open>
  The effect of a statement on the indexes and constraints, by its words. Statements that touch neither change
  nothing here.
\<close>

definition word :: "string list \<Rightarrow> nat \<Rightarrow> string" where
  "word ws k = (if k < length ws then ws ! k else [])"

definition statement :: "string list \<Rightarrow> catalog \<Rightarrow> (db_error + unit) \<times> catalog" where
  "statement ws s =
     (if take 2 ws = [''CREATE'', ''INDEX''] then
        (if word ws 2 \<in> set (indexes s) then (Inl (Sqlstate ''42P07''), s)
         else (Inr (), s\<lparr>indexes := indexes s @ [word ws 2]\<rparr>))
      else if take 4 ws = [''DROP'', ''INDEX'', ''IF'', ''EXISTS''] then
        (Inr (), s\<lparr>indexes := removeAll (word ws 4) (indexes s)\<rparr>)
      else if take 2 ws = [''DROP'', ''INDEX''] then
        (if word ws 2 \<notin> set (indexes s) then (Inl (Sqlstate ''42704''), s)
         else (Inr (), s\<lparr>indexes := removeAll (word ws 2) (indexes s)\<rparr>))
      else if take 2 ws = [''ALTER'', ''TABLE''] \<and> word ws 3 = ''ADD'' then
        (if word ws 5 \<in> set (constraints s) then (Inl (Sqlstate ''42P07''), s)
         else (Inr (), s\<lparr>constraints := constraints s @ [word ws 5]\<rparr>))
      else if take 2 ws = [''ALTER'', ''TABLE''] \<and> word ws 3 = ''DROP'' then
        (Inr (), s\<lparr>constraints := removeAll (word ws 7) (constraints s)\<rparr>)
      else if take 3 ws = [''REINDEX'', ''INDEX'', ''CONCURRENTLY''] \<and> word ws 3 \<notin> set (indexes s) then
        (Inl (Sqlstate ''42704''), s)
      else (Inr (), s))"

text \<open>A rebuild that fails on its way leaves an invalid index with the suffix of the server.\<close>

definition leftover :: "string list \<Rightarrow> catalog \<Rightarrow> catalog" where
  "leftover ws s = (if take 3 ws = [''REINDEX'', ''INDEX'', ''CONCURRENTLY'']
     then s\<lparr>indexes := List.insert (word ws 3 @ ''_ccnew'') (indexes s)\<rparr> else s)"

definition exec_sql :: "outcome \<Rightarrow> string \<Rightarrow> catalog \<Rightarrow> db_error option \<times> catalog" where
  "exec_sql r sql s = (case statement (str_fields sql) s of
     (Inl e, _) \<Rightarrow> (Some e, s)
   | (Inr _, s') \<Rightarrow> (case r of Done \<Rightarrow> (None, s') | Refused e \<Rightarrow> (Some e, s) | Lost e \<Rightarrow> (Some e, leftover (str_fields sql) s')))"

text \<open>\<open>create\<close> runs the statement and then asks for the size of the index named by its third word.\<close>

datatype step = Create string | Exec string

definition run_step :: "outcome \<times> outcome \<Rightarrow> step \<Rightarrow> catalog \<Rightarrow> unit option \<times> catalog" where
  "run_step e st s = (case st of
     Exec sql \<Rightarrow> (case exec_sql (fst e) sql s of (Some x, s') \<Rightarrow> (None, s') | (None, s') \<Rightarrow> (Some (), s'))
   | Create sql \<Rightarrow> (case exec_sql (fst e) sql s of
        (Some x, s') \<Rightarrow> (None, s')
      | (None, s') \<Rightarrow>
          (case query (snd e) (word (str_fields sql) 2 \<in> set (indexes s')) of
             Inl x \<Rightarrow> (None, s')
           | Inr found \<Rightarrow> (if found then Some () else None, s'))))"

fun run_steps :: "(nat \<Rightarrow> outcome \<times> outcome) \<Rightarrow> step list \<Rightarrow> catalog \<Rightarrow> unit option \<times> catalog" where
  "run_steps env [] s = (Some (), s)"
| "run_steps env (st # sts) s =
     (case run_step (env 0) st s of (None, s') \<Rightarrow> (None, s') | (Some _, s') \<Rightarrow> run_steps (env \<circ> Suc) sts s')"

definition reset_steps :: "step list" where
  "reset_steps = map (\<lambda>i. Exec (''DROP INDEX IF EXISTS '' @ i)) demo_indexes @
     [Exec ''ALTER TABLE reservations DROP CONSTRAINT IF EXISTS no_double_booking'',
      Exec ''CLUSTER orders USING orders_pkey'', Exec ''VACUUM ANALYZE orders'', Exec ''SELECT pg_stat_reset()'']"

text \<open>The statements of \<open>main\<close> after the reset that change the catalog, and those between them that do not.\<close>

definition main_steps :: "step list" where
  "main_steps =
     [Create ''CREATE INDEX idx_orders_customer ON orders (customer_id)'',
      Create ''CREATE INDEX idx_orders_email_btree ON orders (email)'',
      Create ''CREATE INDEX idx_orders_email_hash ON orders USING hash (email)'',
      Exec ''DROP INDEX idx_orders_email_btree'',
      Create ''CREATE INDEX idx_orders_email_lower ON orders (lower(email))'',
      Create ''CREATE INDEX idx_orders_status_created ON orders (status, created_at)'',
      Exec ''DROP INDEX idx_orders_status_created'',
      Create (''CREATE INDEX idx_orders_pending ON orders (created_at) WHERE status = '' @ [CHR 0x27] @ ''pending'' @ [CHR 0x27]),
      Create ''CREATE INDEX idx_orders_customer_cover ON orders (customer_id) INCLUDE (amount)'',
      Exec ''VACUUM orders'',
      Create ''CREATE INDEX idx_orders_attrs ON orders USING gin (attrs jsonb_path_ops)'',
      Create ''CREATE INDEX idx_orders_tags ON orders USING gin (tags)'',
      Exec ''ALTER TABLE reservations ADD CONSTRAINT no_double_booking EXCLUDE USING gist (room WITH =, during WITH &&)'',
      Create ''CREATE INDEX idx_orders_created_btree ON orders (created_at)'',
      Exec ''DROP INDEX idx_orders_created_btree'',
      Create ''CREATE INDEX idx_orders_created_brin ON orders USING brin (created_at)'',
      Create ''CREATE INDEX idx_orders_amount ON orders (amount)'',
      Exec ''UPDATE orders SET customer_id = customer_id + 1 WHERE id % 3 = 0'',
      Exec ''UPDATE orders SET customer_id = customer_id - 1 WHERE id % 3 = 0'',
      Exec ''VACUUM orders'',
      Exec ''REINDEX INDEX CONCURRENTLY idx_orders_customer'']"

section \<open>Reading a plan\<close>

fun preorder :: "plan_node \<Rightarrow> plan_node list" where
  "preorder (Plan_Node t i h hb rb cs) = Plan_Node t i h hb rb cs # concat (map preorder cs)"

definition scan_of :: "plan_node \<Rightarrow> plan \<Rightarrow> plan" where
  "scan_of n p = p\<lparr>node := node_type n,
     index := (if node_type n = ''Bitmap Heap Scan'' \<and> plans n \<noteq> [] then index_name (hd (plans n)) else index_name n), heap := heap_fetches n\<rparr>"

definition first_scan :: "plan_node list \<Rightarrow> plan \<Rightarrow> bool \<times> plan" where
  "first_scan ns p = (case find (\<lambda>n. contains_str (node_type n) ''Scan'') ns of None \<Rightarrow> (False, p) | Some n \<Rightarrow> (True, scan_of n p))"

lemma first_scan_append:
  "first_scan (xs @ ys) p = (case first_scan xs p of (True, p') \<Rightarrow> (True, p') | (False, _) \<Rightarrow> first_scan ys p)"
  by (induction xs) (auto simp: first_scan_def)

lemma first_scan_False: "first_scan xs p = (False, p') \<Longrightarrow> p' = p"
  by (simp add: first_scan_def split: option.splits)

lemma walk_first_scan:
  "walk n p = first_scan (preorder n) p"
  "walk_all ns p = first_scan (concat (map preorder ns)) p"
proof (induction n p and ns p rule: walk_walk_all.induct)
  case (3 c cs p)
  then show ?case
    by (cases "first_scan (preorder c) p") (auto simp: first_scan_append dest: first_scan_False split: bool.splits)
qed (auto simp: first_scan_def scan_of_def)

text \<open>\<open>explain\<close> describes the first scan of the plan in depth-first order, with the pages of the whole plan.\<close>

theorem explain_finds_first_scan:
  "explain Done (Some (n # ns)) = Some
     (let p = \<lparr>node = [], index = [], buffers = hit_blocks n + read_blocks n, heap = 0\<rparr> in
      case find (\<lambda>m. contains_str (node_type m) ''Scan'') (preorder n) of None \<Rightarrow> p | Some m \<Rightarrow> scan_of m p)"
  by (simp add: explain_def query_simps walk_first_scan first_scan_def Let_def split: option.splits)

section \<open>Repeating the program\<close>

text \<open>The index names that a step can add, when its statement has the effect and when a rebuild breaks off.\<close>

definition sql_of :: "step \<Rightarrow> string" where
  "sql_of st = (case st of Create sql \<Rightarrow> sql | Exec sql \<Rightarrow> sql)"

definition created :: "string list \<Rightarrow> string list" where
  "created ws = (if take 2 ws = [''CREATE'', ''INDEX''] then [word ws 2] else [])"

definition broken_off :: "string list \<Rightarrow> string list" where
  "broken_off ws = (if take 3 ws = [''REINDEX'', ''INDEX'', ''CONCURRENTLY''] then [word ws 3 @ ''_ccnew''] else [])"

definition may_add :: "outcome \<Rightarrow> string list \<Rightarrow> string list" where
  "may_add r ws = created ws @ (case r of Lost e \<Rightarrow> broken_off ws | _ \<Rightarrow> [])"

definition added_constraint :: "string list \<Rightarrow> string list" where
  "added_constraint ws = (if take 2 ws = [''ALTER'', ''TABLE''] \<and> word ws 3 = ''ADD'' then [word ws 5] else [])"

lemma statement_indexes: "statement ws s = (Inr u, s') \<Longrightarrow> set (indexes s') \<subseteq> set (indexes s) \<union> set (created ws)"
  by (auto simp: statement_def created_def split: if_splits)

lemma statement_constraints: "statement ws s = (Inr u, s') \<Longrightarrow> set (constraints s') \<subseteq> set (constraints s) \<union> set (added_constraint ws)"
  by (auto simp: statement_def added_constraint_def split: if_splits)

lemma exec_sql_adds:
  "set (indexes (snd (exec_sql r sql s))) \<subseteq> set (indexes s) \<union> set (may_add r (str_fields sql)) \<and>
   set (constraints (snd (exec_sql r sql s))) \<subseteq> set (constraints s) \<union> set (added_constraint (str_fields sql))"
proof (cases "statement (str_fields sql) s")
  case (Pair x s')
  show ?thesis
  proof (cases x)
    case (Inr u)
    note st = statement_indexes [OF Pair [unfolded Inr]] statement_constraints [OF Pair [unfolded Inr]]
    from Pair Inr st show ?thesis
      by (cases r) (auto simp: exec_sql_def may_add_def leftover_def broken_off_def)
  qed (simp add: exec_sql_def Pair)
qed

lemma run_step_state: "snd (run_step e st s) = snd (exec_sql (fst e) (sql_of st) s)"
  by (auto simp: run_step_def sql_of_def split_beta split: step.splits option.splits sum.splits)

lemma run_steps_adds:
  "set (indexes (snd (run_steps env sts s))) \<subseteq> set (indexes s) \<union> (\<Union>j < length sts. set (may_add (fst (env j)) (str_fields (sql_of (sts ! j))))) \<and>
   set (constraints (snd (run_steps env sts s))) \<subseteq> set (constraints s) \<union> (\<Union>j < length sts. set (added_constraint (str_fields (sql_of (sts ! j)))))"
proof (induction sts arbitrary: env s)
  case (Cons st sts)
  obtain x s' where run: "run_step (env 0) st s = (x, s')" by force
  then have "s' = snd (exec_sql (fst (env 0)) (sql_of st) s)" using run_step_state [of "env 0" st s] by simp
  with exec_sql_adds [of "fst (env 0)" "sql_of st" s]
  have s': "set (indexes s') \<subseteq> set (indexes s) \<union> set (may_add (fst (env 0)) (str_fields (sql_of st)))"
    "set (constraints s') \<subseteq> set (constraints s) \<union> set (added_constraint (str_fields (sql_of st)))" by simp_all
  have up: "(\<Union>j < length (st # sts). set (may_add (fst (env j)) (str_fields (sql_of ((st # sts) ! j))))) =
      set (may_add (fst (env 0)) (str_fields (sql_of st))) \<union> (\<Union>j < length sts. set (may_add (fst ((env \<circ> Suc) j)) (str_fields (sql_of (sts ! j)))))"
    "(\<Union>j < length (st # sts). set (added_constraint (str_fields (sql_of ((st # sts) ! j))))) =
      set (added_constraint (str_fields (sql_of st))) \<union> (\<Union>j < length sts. set (added_constraint (str_fields (sql_of (sts ! j)))))"
    by (simp_all add: lessThan_Suc_eq_insert_0)
  have step: "snd (run_steps env (st # sts) s) = s' \<or> snd (run_steps env (st # sts) s) = snd (run_steps (env \<circ> Suc) sts s')"
    using run by (cases x) simp_all
  have trans: "C \<subseteq> A \<union> (X \<union> Y)" if "B \<subseteq> A \<union> X" "C \<subseteq> B \<union> Y" for A B C X Y :: "string set"
    using that by blast
  show ?case unfolding up using step
  proof
    assume "snd (run_steps env (st # sts) s) = s'"
    with s' show "set (indexes (snd (run_steps env (st # sts) s))) \<subseteq> set (indexes s) \<union> (set (may_add (fst (env 0)) (str_fields (sql_of st))) \<union>
        (\<Union>j < length sts. set (may_add (fst ((env \<circ> Suc) j)) (str_fields (sql_of (sts ! j)))))) \<and>
      set (constraints (snd (run_steps env (st # sts) s))) \<subseteq> set (constraints s) \<union> (set (added_constraint (str_fields (sql_of st))) \<union>
        (\<Union>j < length sts. set (added_constraint (str_fields (sql_of (sts ! j))))))" by blast
  next
    assume eq: "snd (run_steps env (st # sts) s) = snd (run_steps (env \<circ> Suc) sts s')"
    show "set (indexes (snd (run_steps env (st # sts) s))) \<subseteq> set (indexes s) \<union> (set (may_add (fst (env 0)) (str_fields (sql_of st))) \<union>
        (\<Union>j < length sts. set (may_add (fst ((env \<circ> Suc) j)) (str_fields (sql_of (sts ! j)))))) \<and>
      set (constraints (snd (run_steps env (st # sts) s))) \<subseteq> set (constraints s) \<union> (set (added_constraint (str_fields (sql_of st))) \<union>
        (\<Union>j < length sts. set (added_constraint (str_fields (sql_of (sts ! j))))))" 
      unfolding eq by (intro conjI trans [OF s'(1)] trans [OF s'(2)] Cons.IH [THEN conjunct1] Cons.IH [THEN conjunct2])
  qed
qed simp

lemma drop_all:
  assumes "\<forall>i \<in> set is. str_fields (''DROP INDEX IF EXISTS '' @ i) = [''DROP'', ''INDEX'', ''IF'', ''EXISTS'', i]"
  shows "run_steps (\<lambda>_. (Done, Done)) (map (\<lambda>i. Exec (''DROP INDEX IF EXISTS '' @ i)) is @ rest) s =
    run_steps (\<lambda>_. (Done, Done)) rest (s\<lparr>indexes := filter (\<lambda>x. x \<notin> set is) (indexes s)\<rparr>)"
  using assms
proof (induction "is" arbitrary: s)
  case (Cons i "is")
  from Cons.prems have i: "str_fields (''DROP INDEX IF EXISTS '' @ i) = [''DROP'', ''INDEX'', ''IF'', ''EXISTS'', i]" by simp
  have "run_step (Done, Done) (Exec (''DROP INDEX IF EXISTS '' @ i)) s = (Some (), s\<lparr>indexes := removeAll i (indexes s)\<rparr>)"
    unfolding run_step_def exec_sql_def step.case fst_conv i by (simp add: statement_def word_def)
  moreover have "filter (\<lambda>x. x \<notin> set is) (removeAll i xs) = filter (\<lambda>x. x \<notin> set (i # is)) xs" for xs
    by (induction xs) auto
  ultimately show ?case using Cons by (simp add: comp_def del: append_assoc)
qed simp

lemma demo_words:
  "\<forall>i \<in> set demo_indexes. str_fields (''DROP INDEX IF EXISTS '' @ i) = [''DROP'', ''INDEX'', ''IF'', ''EXISTS'', i]"
  by code_simp

lemma reset_result:
  "run_steps (\<lambda>_. (Done, Done)) reset_steps s =
   (Some (), \<lparr>indexes = filter (\<lambda>x. x \<notin> set demo_indexes) (indexes s), constraints = removeAll ''no_double_booking'' (constraints s)\<rparr>)"
proof -
  have ws: "str_fields ''ALTER TABLE reservations DROP CONSTRAINT IF EXISTS no_double_booking'' =
      [''ALTER'', ''TABLE'', ''reservations'', ''DROP'', ''CONSTRAINT'', ''IF'', ''EXISTS'', ''no_double_booking'']"
    "str_fields ''CLUSTER orders USING orders_pkey'' = [''CLUSTER'', ''orders'', ''USING'', ''orders_pkey'']"
    "str_fields ''VACUUM ANALYZE orders'' = [''VACUUM'', ''ANALYZE'', ''orders'']"
    "str_fields ''SELECT pg_stat_reset()'' = [''SELECT'', ''pg_stat_reset()'']"
    by code_simp+
  show ?thesis unfolding reset_steps_def drop_all [OF demo_words]
    by (simp add: run_step_def exec_sql_def statement_def word_def ws del: str_fields.simps)
qed

text \<open>C37: However a run of \<open>main\<close> fails and wherever it is interrupted, the reset of the next run removes all its indexes and
  constraints, unless a rebuild broke off.
\<close>

theorem interrupted_run_is_repeatable:
  assumes "\<And>e. fst (env 20) \<noteq> Lost e"
  shows "run_steps (\<lambda>_. (Done, Done)) reset_steps (snd (run_steps env (take k main_steps) \<lparr>indexes = [], constraints = []\<rparr>)) =
    (Some (), \<lparr>indexes = [], constraints = []\<rparr>)"
proof -
  let ?s = "snd (run_steps env (take k main_steps) \<lparr>indexes = [], constraints = []\<rparr>)"
  let ?ws = "\<lambda>j. str_fields (sql_of (main_steps ! j))"
  have len: "length main_steps = 21" by (simp add: main_steps_def)
  have all: "list_all (\<lambda>j. set (created (?ws j)) \<subseteq> set demo_indexes \<and> set (added_constraint (?ws j)) \<subseteq> {''no_double_booking''} \<and>
      (j = 20 \<or> broken_off (?ws j) = [])) [0..<21]"
    by code_simp
  have all: "set (created (?ws j)) \<subseteq> set demo_indexes" "set (added_constraint (?ws j)) \<subseteq> {''no_double_booking''}"
      "j = 20 \<or> broken_off (?ws j) = []" if "j < 21" for j
    using all [unfolded list_all_iff set_upt, THEN bspec, of j] that by simp_all
  have "may_add (fst (env j)) (?ws j) = created (?ws j)" if "j < 21" for j
    using all(3) [OF that] assms by (cases "fst (env j)") (auto simp: may_add_def)
  with all have names: "set (may_add (fst (env j)) (?ws j)) \<subseteq> set demo_indexes" if "j < 21" for j
    using that by metis
  have j: "j < 21 \<and> take k main_steps ! j = main_steps ! j" if "j < length (take k main_steps)" for j
    using that by (simp add: len)
  have "(\<Union>j < length (take k main_steps). set (may_add (fst (env j)) (str_fields (sql_of (take k main_steps ! j))))) \<subseteq> set demo_indexes"
    by (rule UN_least) (use j names in \<open>metis lessThan_iff\<close>)
  moreover have "(\<Union>j < length (take k main_steps). set (added_constraint (str_fields (sql_of (take k main_steps ! j))))) \<subseteq> {''no_double_booking''}"
    by (rule UN_least) (use j all(2) in \<open>metis lessThan_iff\<close>)
  ultimately have "set (indexes ?s) \<subseteq> set demo_indexes" "set (constraints ?s) \<subseteq> {''no_double_booking''}"
    using run_steps_adds [of env "take k main_steps" "\<lparr>indexes = [], constraints = []\<rparr>"]
    unfolding catalog.simps list.set Un_empty_left by (meson subset_trans)+
  then have "filter (\<lambda>x. x \<notin> set demo_indexes) (indexes ?s) = []" "removeAll ''no_double_booking'' (constraints ?s) = []"
    by (auto simp: filter_empty_conv removeAll_filter_not_eq)
  then show ?thesis by (simp add: reset_result)
qed

lemma run_steps_append:
  "run_steps env (xs @ ys) s = (case run_steps env xs s of (None, s') \<Rightarrow> (None, s') | (Some u, s') \<Rightarrow> run_steps (\<lambda>k. env (k + length xs)) ys s')"
  by (induction xs arbitrary: env s) (auto simp: comp_def split: prod.splits option.splits)

lemma run_steps_cong: "(\<And>j. j < length sts \<Longrightarrow> env j = env' j) \<Longrightarrow> run_steps env sts s = run_steps env' sts s"
proof (induction sts arbitrary: env env' s)
  case (Cons st sts)
  have "run_steps (env \<circ> Suc) sts t = run_steps (env' \<circ> Suc) sts t" for t by (rule Cons.IH) (simp add: Cons.prems)
  with Cons.prems [of 0] show ?case by (simp split: prod.splits option.splits)
qed simp

lemma before_reindex:
  "run_steps (\<lambda>_. (Done, Done)) (take 20 main_steps) \<lparr>indexes = [], constraints = []\<rparr> =
   (Some (), \<lparr>indexes = [''idx_orders_customer'', ''idx_orders_email_hash'', ''idx_orders_email_lower'', ''idx_orders_pending'',
      ''idx_orders_customer_cover'', ''idx_orders_attrs'', ''idx_orders_tags'', ''idx_orders_created_brin'', ''idx_orders_amount''],
      constraints = [''no_double_booking'']\<rparr>)"
  by code_simp

text \<open>A rebuild that breaks off leaves an index that the reset does not know.\<close>

theorem broken_reindex_survives_reset:
  assumes "\<And>j. j < 20 \<Longrightarrow> env j = (Done, Done)" and "fst (env 20) = Lost e"
  shows "run_steps (\<lambda>_. (Done, Done)) reset_steps (snd (run_steps env main_steps \<lparr>indexes = [], constraints = []\<rparr>)) =
   (Some (), \<lparr>indexes = [''idx_orders_customer_ccnew''], constraints = []\<rparr>)"
proof -
  have split: "main_steps = take 20 main_steps @ [Exec ''REINDEX INDEX CONCURRENTLY idx_orders_customer'']" by (simp add: main_steps_def)
  have len: "length main_steps = 21" by (simp add: main_steps_def)
  have ws: "str_fields ''REINDEX INDEX CONCURRENTLY idx_orders_customer'' = [''REINDEX'', ''INDEX'', ''CONCURRENTLY'', ''idx_orders_customer'']"
    by code_simp
  have first: "run_steps env (take 20 main_steps) t = run_steps (\<lambda>_. (Done, Done)) (take 20 main_steps) t" for t
    by (rule run_steps_cong) (use assms(1) len in simp)
  have "snd (run_steps env main_steps \<lparr>indexes = [], constraints = []\<rparr>) =
      \<lparr>indexes = [''idx_orders_customer'', ''idx_orders_email_hash'', ''idx_orders_email_lower'', ''idx_orders_pending'',
        ''idx_orders_customer_cover'', ''idx_orders_attrs'', ''idx_orders_tags'', ''idx_orders_created_brin'', ''idx_orders_amount''],
       constraints = [''no_double_booking'']\<rparr>\<lparr>indexes := List.insert ''idx_orders_customer_ccnew'' [''idx_orders_customer'', ''idx_orders_email_hash'',
         ''idx_orders_email_lower'', ''idx_orders_pending'', ''idx_orders_customer_cover'', ''idx_orders_attrs'', ''idx_orders_tags'',
         ''idx_orders_created_brin'', ''idx_orders_amount'']\<rparr>"
    by (subst split) (simp add: run_steps_append first before_reindex len run_step_def exec_sql_def ws assms(2) statement_def word_def leftover_def
      del: str_fields.simps)
  then show ?thesis unfolding reset_result by (simp add: demo_indexes_def)
qed

text \<open>From a reset catalog, \<open>main\<close> runs to its end when the statements succeed.\<close>

theorem main_completes:
  "run_steps (\<lambda>_. (Done, Done)) main_steps \<lparr>indexes = [], constraints = []\<rparr> =
   (Some (), \<lparr>indexes = [''idx_orders_customer'', ''idx_orders_email_hash'', ''idx_orders_email_lower'', ''idx_orders_pending'',
      ''idx_orders_customer_cover'', ''idx_orders_attrs'', ''idx_orders_tags'', ''idx_orders_created_brin'', ''idx_orders_amount''],
      constraints = [''no_double_booking'']\<rparr>)"
  by code_simp

lemma interrupted_run_is_repeatable_witness:
  "run_steps (\<lambda>_. (Done, Done)) reset_steps
     (snd (run_steps (\<lambda>j. if j = 4 then (Lost Transport, Done) else (Done, Done)) (take 7 main_steps) \<lparr>indexes = [], constraints = []\<rparr>)) =
   (Some (), \<lparr>indexes = [], constraints = []\<rparr>)"
  by (rule interrupted_run_is_repeatable) simp

lemma broken_reindex_survives_reset_witness:
  "indexes (snd (run_steps (\<lambda>_. (Done, Done)) reset_steps
     (snd (run_steps (\<lambda>j. if j < 20 then (Done, Done) else (Lost Transport, Done)) main_steps \<lparr>indexes = [], constraints = []\<rparr>)))) =
   [''idx_orders_customer_ccnew'']"
  using broken_reindex_survives_reset [of "\<lambda>j. if j < 20 then (Done, Done) else (Lost Transport, Done)" Transport] by simp

end
