(* ===== verification/VerticalPartitioning.thy ===== *)
theory VerticalPartitioning
  imports GoStd
begin

text \<open>
  \<open>simulate_vertical_partitioning/main.go\<close>: the same users in one wide table and in three tables that share a key.
  The abstract specification is the wide table; the split tables refine it through the view \<open>users_full\<close> of the
  \<open>init\<close> script. The program sends each statement once per layout, with the table's name in it; both have their own
  definition here, and each UPDATE has its own clock. Times are in seconds, documents and blobs are byte strings.
\<close>

section \<open>Two layouts\<close>

record core =
  uid :: nat
  email :: string
  full_name :: string
  status :: string
  last_login :: int

record wide = core +
  bio :: "string option"
  preferences :: "string option"
  avatar :: "string option"

record layout =
  users_core :: "core list"
  users_profile :: "nat \<rightharpoonup> string option \<times> string option"
  users_avatar :: "nat \<rightharpoonup> string"

definition users_full :: "layout \<Rightarrow> wide list" where
  "users_full s = map (\<lambda>c. core.extend c
     \<lparr>bio = (case users_profile s (uid c) of None \<Rightarrow> None | Some p \<Rightarrow> fst p),
      preferences = (case users_profile s (uid c) of None \<Rightarrow> None | Some p \<Rightarrow> snd p),
      avatar = users_avatar s (uid c)\<rparr>) (users_core s)"

section \<open>The statements\<close>

text \<open>The hot query on each table; \<open>now\<close> is the clock of the server.\<close>

definition hot_wide :: "int \<Rightarrow> wide list \<Rightarrow> nat" where
  "hot_wide now us = length (filter (\<lambda>u. status u = ''active'' \<and> now - 7 * 86400 < last_login u) us)"

definition hot_core :: "int \<Rightarrow> core list \<Rightarrow> nat" where
  "hot_core now cs = length (filter (\<lambda>c. status c = ''active'' \<and> now - 7 * 86400 < last_login c) cs)"

text \<open>
  The listing. \<open>ORDER BY last_login DESC\<close> does not say how users with the same time are ordered: \<open>scan\<close> is the order in
  which the server comes across them, which each execution may choose anew.
\<close>

definition list_wide :: "(nat \<Rightarrow> nat) \<Rightarrow> wide list \<Rightarrow> (nat \<times> string \<times> string) list" where
  "list_wide scan us =
     map (\<lambda>u. (uid u, full_name u, email u)) (take 50 (sort_key (\<lambda>u. - last_login u) (sort_key (\<lambda>u. scan (uid u)) us)))"

definition list_core :: "(nat \<Rightarrow> nat) \<Rightarrow> core list \<Rightarrow> (nat \<times> string \<times> string) list" where
  "list_core scan cs =
     map (\<lambda>c. (uid c, full_name c, email c)) (take 50 (sort_key (\<lambda>c. - last_login c) (sort_key (\<lambda>c. scan (uid c)) cs)))"

text \<open>The UPDATEs of \<open>walFor\<close>.\<close>

definition bump_wide :: "int \<Rightarrow> wide list \<Rightarrow> wide list" where
  "bump_wide now us = map (\<lambda>u. if uid u \<le> 10000 then u\<lparr>last_login := now\<rparr> else u) us"

definition bump_core :: "int \<Rightarrow> layout \<Rightarrow> layout" where
  "bump_core now s = s\<lparr>users_core := map (\<lambda>c. if uid c \<le> 10000 then c\<lparr>last_login := now\<rparr> else c) (users_core s)\<rparr>"

text \<open>The profile page: a join by the key of one user.\<close>

definition one_full :: "nat \<Rightarrow> layout \<Rightarrow> wide option" where
  "one_full i s = (case find (\<lambda>c. uid c = i) (users_core s) of
     None \<Rightarrow> None
   | Some c \<Rightarrow> Some (core.extend c
       \<lparr>bio = (case users_profile s i of None \<Rightarrow> None | Some p \<Rightarrow> fst p),
        preferences = (case users_profile s i of None \<Rightarrow> None | Some p \<Rightarrow> snd p),
        avatar = users_avatar s i\<rparr>))"

section \<open>Measurements\<close>

text \<open>The buffers of a plan, \<open>explain\<close>: \<open>None\<close> for a fatal error, JSON that does not parse, or no plan.\<close>

definition explain :: "outcome \<Rightarrow> (int \<times> int) list option \<Rightarrow> int option" where
  "explain r out = (case query r out of
     Inr (Some ((hit, rd) # ps)) \<Rightarrow> Some (hit + rd)
   | _ \<Rightarrow> None)"

text \<open>\<open>compare\<close>: two plans to warm the cache, two to measure; the divisor of the ratio is at least 1.\<close>

definition compare_pages :: "(nat \<Rightarrow> outcome) \<Rightarrow> (nat \<Rightarrow> (int \<times> int) list option) \<Rightarrow> (int \<times> int \<times> int) option" where
  "compare_pages env out =
     (case (explain (env 0) (out 0), explain (env 1) (out 1), explain (env 2) (out 2), explain (env 3) (out 3)) of
        (Some _, Some _, Some wp, Some np) \<Rightarrow> Some (wp, np, max np 1)
      | _ \<Rightarrow> None)"

text \<open>\<open>selectStar\<close>: the bytes of the raw values of the first rows by id; a NULL has none.\<close>

definition row_bytes :: "(nat \<Rightarrow> string) \<Rightarrow> (int \<Rightarrow> string) \<Rightarrow> 'a core_scheme \<Rightarrow> nat" where
  "row_bytes wi wt u = length (wi (uid u)) + length (email u) + length (full_name u) + length (status u) + length (wt (last_login u))"

definition opt_bytes :: "string option \<Rightarrow> nat" where
  "opt_bytes x = (case x of None \<Rightarrow> 0 | Some b \<Rightarrow> length b)"

definition select_star_core :: "(nat \<Rightarrow> string) \<Rightarrow> (int \<Rightarrow> string) \<Rightarrow> core list \<Rightarrow> nat" where
  "select_star_core wi wt us = (\<Sum>u \<leftarrow> take 2000 (sort_key uid us). row_bytes wi wt u)"

definition select_star_wide :: "(nat \<Rightarrow> string) \<Rightarrow> (int \<Rightarrow> string) \<Rightarrow> wide list \<Rightarrow> nat" where
  "select_star_wide wi wt us = (\<Sum>u \<leftarrow> take 2000 (sort_key uid us).
     row_bytes wi wt u + opt_bytes (bio u) + opt_bytes (preferences u) + opt_bytes (avatar u))"

section \<open>Splitting\<close>

text \<open>The three INSERTs of the script.\<close>

definition split_layout :: "wide list \<Rightarrow> layout" where
  "split_layout us =
     \<lparr>users_core = map core.truncate us,
      users_profile = map_of (map (\<lambda>u. (uid u, (bio u, preferences u))) us),
      users_avatar = (\<lambda>i. case map_of (map (\<lambda>u. (uid u, avatar u)) us) i of None \<Rightarrow> None | Some a \<Rightarrow> a)\<rparr>"

lemma map_of_unique:
  assumes "distinct (map uid us)" "u \<in> set us"
  shows "map_of (map (\<lambda>u. (uid u, f u)) us) (uid u) = Some (f u)"
  using assms by (intro map_of_is_SomeI) (simp_all add: comp_def)

text \<open>Splitting a table with a primary key and reading the view gives the table back.\<close>

theorem split_reassembles:
  assumes "distinct (map uid us)"
  shows "users_full (split_layout us) = us"
proof -
  have "core.extend (core.truncate u)
     \<lparr>bio = (case users_profile (split_layout us) (uid u) of None \<Rightarrow> None | Some p \<Rightarrow> fst p),
      preferences = (case users_profile (split_layout us) (uid u) of None \<Rightarrow> None | Some p \<Rightarrow> snd p),
      avatar = users_avatar (split_layout us) (uid u)\<rparr> = u" if "u \<in> set us" for u
    using map_of_unique [OF assms that, where f = "\<lambda>u. (bio u, preferences u)"] map_of_unique [OF assms that, where f = avatar]
    by (cases u) (simp add: split_layout_def core.defs)
  then have "map (\<lambda>u. core.extend (core.truncate u)
     \<lparr>bio = (case users_profile (split_layout us) (uid u) of None \<Rightarrow> None | Some p \<Rightarrow> fst p),
      preferences = (case users_profile (split_layout us) (uid u) of None \<Rightarrow> None | Some p \<Rightarrow> snd p),
      avatar = users_avatar (split_layout us) (uid u)\<rparr>) us = us"
    by (rule map_idI)
  moreover have "uid (core.truncate u) = uid u" for u :: wide by (simp add: core.defs)
  ultimately show ?thesis by (simp add: users_full_def comp_def) (simp add: split_layout_def comp_def)
qed

section \<open>Refinement\<close>

lemma insort_key_map: "insort_key k (g x) (map g xs) = map g (insort_key (k \<circ> g) x xs)"
  by (induction xs) simp_all

lemma sort_key_map: "sort_key k (map g xs) = map g (sort_key (k \<circ> g) xs)"
  by (induction xs) (simp_all add: insort_key_map comp_def)

definition whole :: "layout \<Rightarrow> core \<Rightarrow> wide" where
  "whole s c = core.extend c
     \<lparr>bio = (case users_profile s (uid c) of None \<Rightarrow> None | Some p \<Rightarrow> fst p),
      preferences = (case users_profile s (uid c) of None \<Rightarrow> None | Some p \<Rightarrow> snd p),
      avatar = users_avatar s (uid c)\<rparr>"

lemma whole_simps [simp]:
  "uid (whole s c) = uid c" "email (whole s c) = email c" "full_name (whole s c) = full_name c"
  "status (whole s c) = status c" "last_login (whole s c) = last_login c"
  by (simp_all add: whole_def core.defs)

lemma users_full_whole: "users_full s = map (whole s) (users_core s)"
  by (simp add: users_full_def whole_def [abs_def])

text \<open>The database with both layouts, as the \<open>init\<close> script leaves it, and the updates that reach it: those of any number of
  runs, finished or broken off.\<close>

record database =
  users_wide :: "wide list"
  parts :: layout

datatype update = BumpWide int | BumpCore int

primrec run_update :: "update \<Rightarrow> database \<Rightarrow> database" where
  "run_update (BumpWide now) d = d\<lparr>users_wide := bump_wide now (users_wide d)\<rparr>"
| "run_update (BumpCore now) d = d\<lparr>parts := bump_core now (parts d)\<rparr>"

definition init_db :: "wide list \<Rightarrow> database" where
  "init_db us = \<lparr>users_wide = us, parts = split_layout us\<rparr>"

text \<open>The specification: the users with ids up to 10000 were last seen at the last update of the table.\<close>

definition seen_at :: "int option \<Rightarrow> wide \<Rightarrow> wide" where
  "seen_at t u = (case t of None \<Rightarrow> u | Some now \<Rightarrow> (if 10000 < uid u then u else u\<lparr>last_login := now\<rparr>))"

fun last_wide :: "update list \<Rightarrow> int option \<Rightarrow> int option" where
  "last_wide [] t = t"
| "last_wide (BumpWide now # us) t = last_wide us (Some now)"
| "last_wide (BumpCore now # us) t = last_wide us t"

fun last_core :: "update list \<Rightarrow> int option \<Rightarrow> int option" where
  "last_core [] t = t"
| "last_core (BumpWide now # us) t = last_core us t"
| "last_core (BumpCore now # us) t = last_core us (Some now)"

lemma bump_full: "users_full (bump_core now s) = bump_wide now (users_full s)"
  by (auto simp: users_full_def bump_core_def bump_wide_def core.defs)

lemma bump_seen: "bump_wide now (map (seen_at t) us) = map (seen_at (Some now)) us"
  by (auto simp: bump_wide_def seen_at_def split: option.split)

lemma updates_seen:
  assumes "users_wide d = map (seen_at t) us" and "users_full (parts d) = map (seen_at t') us"
  shows "users_wide (fold run_update ups d) = map (seen_at (last_wide ups t)) us \<and>
    users_full (parts (fold run_update ups d)) = map (seen_at (last_core ups t')) us"
  using assms
proof (induction ups arbitrary: d t t')
  case (Cons up ups)
  show ?case
  proof (cases up)
    case (BumpWide now)
    with Cons.IH [of "run_update up d" "Some now" t'] Cons.prems show ?thesis by (simp add: bump_seen)
  next
    case (BumpCore now)
    with Cons.IH [of "run_update up d" t "Some now"] Cons.prems show ?thesis by (simp add: bump_seen bump_full)
  qed
qed simp

lemma both_seen:
  assumes "distinct (map uid us)"
  shows "users_wide (fold run_update ups (init_db us)) = map (seen_at (last_wide ups None)) us"
    and "users_full (parts (fold run_update ups (init_db us))) = map (seen_at (last_core ups None)) us"
proof -
  have "map (seen_at None) us = us" by (rule map_idI) (simp add: seen_at_def)
  then show "users_wide (fold run_update ups (init_db us)) = map (seen_at (last_wide ups None)) us"
    "users_full (parts (fold run_update ups (init_db us))) = map (seen_at (last_core ups None)) us"
    using updates_seen [of "init_db us" None us None ups] assms by (simp_all add: init_db_def split_reassembles)
qed

text \<open>Reading the core table is reading the view.\<close>

lemma hot_core_full: "hot_core now (users_core s) = length (filter (\<lambda>u. status u = ''active'' \<and> now - 7 * 86400 < last_login u) (users_full s))"
  by (simp add: hot_core_def users_full_whole filter_map comp_def)

lemma one_full_find: "one_full i s = find (\<lambda>u. uid u = i) (users_full s)"
proof -
  have map: "find (\<lambda>u. uid u = i) (map (whole s) cs) = map_option (whole s) (find (\<lambda>c. uid c = i) cs)" for cs
    by (induction cs) simp_all
  show ?thesis
  proof (cases "find (\<lambda>c. uid c = i) (users_core s)")
    case None
    then show ?thesis unfolding users_full_whole map by (simp add: one_full_def)
  next
    case (Some c)
    then have i: "i = uid c" by (auto simp: find_Some_iff)
    from Some show ?thesis unfolding users_full_whole map unfolding i by (simp add: one_full_def whole_def)
  qed
qed

lemma find_map_seen: "find (\<lambda>u. uid u = i) (map (seen_at t) us) = map_option (seen_at t) (find (\<lambda>u. uid u = i) us)"
  by (induction us) (auto simp: seen_at_def split: option.splits)

lemma same_hot_users:
  assumes "\<forall>t. w = Some t \<longrightarrow> now - 7 * 86400 < t" "\<forall>t. c = Some t \<longrightarrow> now - 7 * 86400 < t" "w = None \<longleftrightarrow> c = None"
  shows "length (filter (\<lambda>u. status u = ''active'' \<and> now - 7 * 86400 < last_login u) (map (seen_at w) us)) =
    length (filter (\<lambda>u. status u = ''active'' \<and> now - 7 * 86400 < last_login u) (map (seen_at c) us))"
proof -
  have "(status (seen_at w u) = ''active'' \<and> now - 7 * 86400 < last_login (seen_at w u)) =
      (status (seen_at c u) = ''active'' \<and> now - 7 * 86400 < last_login (seen_at c u))" for u
    using assms by (cases w; cases c) (auto simp: seen_at_def)
  then show ?thesis by (simp add: filter_map comp_def)
qed

text \<open>C34: Start from the tables of the \<open>init\<close> script over users with distinct ids, and let any UPDATEs of \<open>walFor\<close> reach
  either layout, each with its own clock. Then the wide table and the view \<open>users_full\<close> hold the original users, with the
  time of the last update of that layout for the ids up to 10000 and nothing else changed; the profile page read through the
  view is that user's row; and while the last updates of both layouts (or of neither) lie in the last seven days, the hot
  query counts the same on the core table as on the wide one: the active users seen in these seven days.\<close>

theorem split_refines_wide:
  assumes "distinct (map uid us)" and d: "d = fold run_update ups (init_db us)"
  shows "users_wide d = map (seen_at (last_wide ups None)) us \<and>
    users_full (parts d) = map (seen_at (last_core ups None)) us \<and>
    one_full i (parts d) = map_option (seen_at (last_core ups None)) (find (\<lambda>u. uid u = i) us) \<and>
    ((\<forall>t. last_wide ups None = Some t \<longrightarrow> now - 604800 < t) \<longrightarrow> (\<forall>t. last_core ups None = Some t \<longrightarrow> now - 604800 < t) \<longrightarrow>
      (last_wide ups None = None \<longleftrightarrow> last_core ups None = None) \<longrightarrow>
      hot_core now (users_core (parts d)) = hot_wide now (users_wide d) \<and>
      hot_wide now (users_wide d) = card {i. \<exists>u \<in> set us. uid u = i \<and> status u = ''active'' \<and>
        (now - 604800 < last_login u \<or> last_wide ups None \<noteq> None \<and> i \<le> 10000)})"
proof (intro conjI impI)
  note both = both_seen [OF assms(1), of ups, folded d]
  show "users_wide d = map (seen_at (last_wide ups None)) us" "users_full (parts d) = map (seen_at (last_core ups None)) us"
    by (rule both)+
  show "one_full i (parts d) = map_option (seen_at (last_core ups None)) (find (\<lambda>u. uid u = i) us)"
    by (simp add: one_full_find both find_map_seen)
  assume w: "\<forall>t. last_wide ups None = Some t \<longrightarrow> now - 604800 < t" and c: "\<forall>t. last_core ups None = Some t \<longrightarrow> now - 604800 < t"
    and n: "last_wide ups None = None \<longleftrightarrow> last_core ups None = None"
  show "hot_core now (users_core (parts d)) = hot_wide now (users_wide d)"
    unfolding hot_core_full hot_wide_def both
    by (rule same_hot_users [symmetric]) (use w c n in simp_all)
  let ?P = "\<lambda>u. status u = ''active'' \<and> (now - 604800 < last_login u \<or> last_wide ups None \<noteq> None \<and> uid u \<le> 10000)"
  have "hot_wide now (users_wide d) = length (filter ?P us)"
  proof -
    have "(status (seen_at (last_wide ups None) u) = ''active'' \<and> now - 7 * 86400 < last_login (seen_at (last_wide ups None) u)) = ?P u" for u
      using w by (auto simp: seen_at_def split: option.splits)
    then show ?thesis by (simp add: hot_wide_def both filter_map comp_def)
  qed
  also have "\<dots> = card (uid ` set (filter ?P us))"
    using assms(1) by (metis (no_types, lifting) distinct_card distinct_map_filter length_map set_map)
  also have "uid ` set (filter ?P us) = {i. \<exists>u \<in> set us. uid u = i \<and> status u = ''active'' \<and>
      (now - 604800 < last_login u \<or> last_wide ups None \<noteq> None \<and> i \<le> 10000)}"
    by auto
  finally show "hot_wide now (users_wide d) = card {i. \<exists>u \<in> set us. uid u = i \<and> status u = ''active'' \<and>
      (now - 604800 < last_login u \<or> last_wide ups None \<noteq> None \<and> i \<le> 10000)}" .
qed

definition two_users :: "wide list" where
  "two_users = [\<lparr>uid = 1, email = ''a@x'', full_name = ''A'', status = ''active'', last_login = 500, bio = Some ''b'', preferences = None, avatar = None\<rparr>,
     \<lparr>uid = 20000, email = ''b@x'', full_name = ''B'', status = ''active'', last_login = 900, bio = None, preferences = Some ''p'', avatar = Some ''x''\<rparr>]"

theorem split_refines_wide_witness:
  "hot_core 1000000 (users_core (parts (fold run_update [BumpWide 900000, BumpCore 900001] (init_db two_users)))) = 1"
proof -
  define ups where "ups = [BumpWide 900000, BumpCore 900001]"
  define d where "d = fold run_update ups (init_db two_users)"
  have "distinct (map uid two_users)" by (simp add: two_users_def)
  note refines = split_refines_wide [OF this d_def, of undefined 1000000, THEN conjunct2, THEN conjunct2, THEN conjunct2]
  have "last_wide ups None = Some 900000" "last_core ups None = Some 900001" by (simp_all add: ups_def)
  then have "hot_core 1000000 (users_core (parts d)) =
      card {i. \<exists>u \<in> set two_users. uid u = i \<and> status u = ''active'' \<and> ((1000000::int) - 604800 < last_login u \<or> i \<le> 10000)}"
    using refines by simp
  also have "{i. \<exists>u \<in> set two_users. uid u = i \<and> status u = ''active'' \<and> ((1000000::int) - 604800 < last_login u \<or> i \<le> 10000)} = {1}"
    by (auto simp: two_users_def)
  finally show ?thesis by (simp only: d_def ups_def) simp
qed

text \<open>The listing on either layout, however ties are broken: the most recently seen users, at most 50, in descending order,
  and nobody left out was seen later than a listed one. So the listings of the two layouts show the same times, and the same
  users when no two users share one.\<close>

lemma top_50:
  fixes us :: "'a core_scheme list"
  shows "\<exists>vs ws. mset (vs @ ws) = mset us \<and> take 50 (sort_key (\<lambda>u. - last_login u) (sort_key (\<lambda>u. scan (uid u)) us)) = vs \<and>
    length vs = min 50 (length us) \<and> sorted_wrt (\<lambda>u v. last_login v \<le> last_login u) vs \<and>
    (\<forall>u \<in> set vs. \<forall>v \<in> set ws. last_login v \<le> last_login u)"
proof -
  let ?xs = "sort_key (\<lambda>u. - last_login u) (sort_key (\<lambda>u. scan (uid u)) us)"
  have s: "sorted_wrt (\<lambda>u v. last_login v \<le> last_login u) (take 50 ?xs @ drop 50 ?xs)"
    using sorted_sort_key [of "\<lambda>u. - last_login u" "sort_key (\<lambda>u. scan (uid u)) us"] by (simp add: sorted_wrt_map)
  have m: "mset (take 50 ?xs @ drop 50 ?xs) = mset us" by simp
  have l: "length (take 50 ?xs) = min 50 (length us)" by simp
  from s have "sorted_wrt (\<lambda>u v. last_login v \<le> last_login u) (take 50 ?xs)"
    "\<forall>u \<in> set (take 50 ?xs). \<forall>v \<in> set (drop 50 ?xs). last_login v \<le> last_login u"
    unfolding sorted_wrt_append by blast+
  with m l show ?thesis by blast
qed

theorem listing_is_top_50:
  "(\<exists>vs ws. mset (vs @ ws) = mset us \<and> list_wide scan us = map (\<lambda>u. (uid u, full_name u, email u)) vs \<and>
     length vs = min 50 (length us) \<and> sorted_wrt (\<lambda>u v. last_login v \<le> last_login u) vs \<and>
     (\<forall>u \<in> set vs. \<forall>v \<in> set ws. last_login v \<le> last_login u)) \<and>
   (\<exists>vs ws. mset (vs @ ws) = mset cs \<and> list_core scan cs = map (\<lambda>c. (uid c, full_name c, email c)) vs \<and>
     length vs = min 50 (length cs) \<and> sorted_wrt (\<lambda>u v. last_login v \<le> last_login u) vs \<and>
     (\<forall>u \<in> set vs. \<forall>v \<in> set ws. last_login v \<le> last_login u))"
proof
  obtain vs ws where "mset (vs @ ws) = mset us" "take 50 (sort_key (\<lambda>u. - last_login u) (sort_key (\<lambda>u. scan (uid u)) us)) = vs"
    "length vs = min 50 (length us)" "sorted_wrt (\<lambda>u v. last_login v \<le> last_login u) vs"
    "\<forall>u \<in> set vs. \<forall>v \<in> set ws. last_login v \<le> last_login u" using top_50 [of us scan] by blast
  then show "\<exists>vs ws. mset (vs @ ws) = mset us \<and> list_wide scan us = map (\<lambda>u. (uid u, full_name u, email u)) vs \<and>
     length vs = min 50 (length us) \<and> sorted_wrt (\<lambda>u v. last_login v \<le> last_login u) vs \<and>
     (\<forall>u \<in> set vs. \<forall>v \<in> set ws. last_login v \<le> last_login u)"
    unfolding list_wide_def by blast
  obtain vs ws where "mset (vs @ ws) = mset cs" "take 50 (sort_key (\<lambda>u. - last_login u) (sort_key (\<lambda>u. scan (uid u)) cs)) = vs"
    "length vs = min 50 (length cs)" "sorted_wrt (\<lambda>u v. last_login v \<le> last_login u) vs"
    "\<forall>u \<in> set vs. \<forall>v \<in> set ws. last_login v \<le> last_login u" using top_50 [of cs scan] by blast
  then show "\<exists>vs ws. mset (vs @ ws) = mset cs \<and> list_core scan cs = map (\<lambda>c. (uid c, full_name c, email c)) vs \<and>
     length vs = min 50 (length cs) \<and> sorted_wrt (\<lambda>u v. last_login v \<le> last_login u) vs \<and>
     (\<forall>u \<in> set vs. \<forall>v \<in> set ws. last_login v \<le> last_login u)"
    unfolding list_core_def by blast
qed

text \<open>After a run 10,000 users share one time, so the same listing may show different users on the two layouts.\<close>

lemma listings_may_differ:
  "list_wide id (map (seen_at (Some 5)) [\<lparr>uid = 1, email = ''a@x'', full_name = ''A'', status = ''active'', last_login = 1, bio = None, preferences = None, avatar = None\<rparr>,
     \<lparr>uid = 2, email = ''b@x'', full_name = ''B'', status = ''active'', last_login = 2, bio = None, preferences = None, avatar = None\<rparr>]) =
     [(1, ''A'', ''a@x''), (2, ''B'', ''b@x'')] \<and>
   list_core (\<lambda>i. 9 - i) [\<lparr>uid = 1, email = ''a@x'', full_name = ''A'', status = ''active'', last_login = 5\<rparr>,
     \<lparr>uid = 2, email = ''b@x'', full_name = ''B'', status = ''active'', last_login = 5\<rparr>] = [(2, ''B'', ''b@x''), (1, ''A'', ''a@x'')]"
  by (simp add: list_wide_def list_core_def seen_at_def)

text \<open>\<open>SELECT *\<close> ships for the wide table what it ships for the core table, and the texts and blobs of the same rows.\<close>

theorem select_star_difference:
  "select_star_wide wi wt (users_full s) = select_star_core wi wt (users_core s) +
     (\<Sum>u \<leftarrow> take 2000 (sort_key uid (users_full s)). opt_bytes (bio u) + opt_bytes (preferences u) + opt_bytes (avatar u))"
  by (simp add: select_star_wide_def select_star_core_def users_full_whole sort_key_map comp_def take_map row_bytes_def
      sum_list_addf [symmetric] ac_simps)

text \<open>A comparison that ends has measured both layouts, and divides by a positive number of pages.\<close>

theorem compare_divides:
  assumes "compare_pages env out = Some (wp, np, d)"
  shows "0 < d \<and> (\<forall>k < 4. env k = Done) \<and> explain (env 2) (out 2) = Some wp \<and> explain (env 3) (out 3) = Some np"
proof -
  have ok: "r = Done" if "explain r o' = Some x" for r o' x
    using that by (cases r) (simp_all add: explain_def query_simps)
  from assms obtain a b where "explain (env 0) (out 0) = Some a" "explain (env 1) (out 1) = Some b"
    and m: "explain (env 2) (out 2) = Some wp" "explain (env 3) (out 3) = Some np" "d = max np 1"
    by (auto simp: compare_pages_def split: option.splits)
  then have "env k = Done" if "k < 4" for k
    using ok that by (auto simp: numeral_eq_Suc less_Suc_eq)
  with m show ?thesis by simp
qed

lemma split_reassembles_witness: "users_full (split_layout two_users) = two_users"
  by (rule split_reassembles) (simp add: two_users_def)

end
