(* ===== verification/TablePartitioning.thy ===== *)
theory TablePartitioning
  imports GoStd
begin

text \<open>
  \<open>simulate_database_partitioning/main.go\<close> over the tables of its \<open>init\<close> script: orders partitioned by ranges of dates,
  users by a hash of the id, products by lists of categories. The hash function of the server is a parameter.
  Amounts are in cents; what the program logs and says is a list.
\<close>

section \<open>Dates\<close>

datatype date = Date (year: nat) (month: nat) (day: nat)

definition date_key :: "date \<Rightarrow> nat" where
  "date_key d = 416 * year d + 32 * month d + day d"

definition leap :: "nat \<Rightarrow> bool" where
  "leap y \<longleftrightarrow> 4 dvd y \<and> (\<not> 100 dvd y \<or> 400 dvd y)"

definition month_days :: "nat \<Rightarrow> nat \<Rightarrow> nat" where
  "month_days y m = (if m = 2 then (if leap y then 29 else 28) else if m \<in> {4, 6, 9, 11} then 30 else 31)"

text \<open>\<open>time.Date(...).AddDate(0, 0, n)\<close>, day by day.\<close>

definition next_day :: "date \<Rightarrow> date" where
  "next_day d =
     (if day d < month_days (year d) (month d) then Date (year d) (month d) (Suc (day d))
      else if month d < 12 then Date (year d) (Suc (month d)) 1
      else Date (Suc (year d)) 1 1)"

primrec add_days :: "nat \<Rightarrow> date \<Rightarrow> date" where
  "add_days 0 d = d"
| "add_days (Suc n) d = add_days n (next_day d)"

section \<open>Tables\<close>

record order =
  oid :: nat
  placed_on :: date
  customer :: int
  amount :: int
  status :: string

record user =
  uid :: int
  username :: string
  email :: string

record product =
  prod_name :: string
  category :: string
  price :: int

record db =
  orders_in :: "string \<Rightarrow> order list"
  users_in :: "nat \<Rightarrow> user list"
  products_in :: "string \<Rightarrow> product list"
  order_seq :: nat

definition order_parts :: "(string \<times> date \<times> date) list" where
  "order_parts =
     [(''orders_2024_q1'', Date 2024 1 1, Date 2024 4 1), (''orders_2024_q2'', Date 2024 4 1, Date 2024 7 1),
      (''orders_2024_q3'', Date 2024 7 1, Date 2024 10 1), (''orders_2024_q4'', Date 2024 10 1, Date 2025 1 1),
      (''orders_2025_q1'', Date 2025 1 1, Date 2025 4 1), (''orders_2025_q2'', Date 2025 4 1, Date 2025 7 1),
      (''orders_2025_q3'', Date 2025 7 1, Date 2025 10 1), (''orders_2025_q4'', Date 2025 10 1, Date 2026 1 1),
      (''orders_2026_q1'', Date 2026 1 1, Date 2026 4 1), (''orders_2026_q2'', Date 2026 4 1, Date 2026 7 1)]"

definition between :: "date \<Rightarrow> date \<Rightarrow> date \<Rightarrow> bool" where
  "between a b d \<longleftrightarrow> date_key a \<le> date_key d \<and> date_key d < date_key b"

definition order_part :: "date \<Rightarrow> string option" where
  "order_part d = map_option fst (find (\<lambda>(n, a, b). between a b d) order_parts)"

definition product_part :: "string \<Rightarrow> string" where
  "product_part c =
     (if c \<in> {''electronics'', ''computers'', ''phones''} then ''products_electronics''
      else if c \<in> {''clothing'', ''shoes'', ''accessories''} then ''products_clothing''
      else if c \<in> {''furniture'', ''kitchen'', ''garden''} then ''products_home''
      else ''products_other'')"

section \<open>Inserts\<close>

text \<open>A row that no partition takes is refused.\<close>

definition insert_order :: "order \<Rightarrow> db \<Rightarrow> (db_error + unit) \<times> db" where
  "insert_order r s = (case order_part (placed_on r) of
     None \<Rightarrow> (Inl (Sqlstate ''23514''), s)
   | Some p \<Rightarrow> (Inr (), s\<lparr>orders_in := (orders_in s)(p := orders_in s p @ [r\<lparr>oid := order_seq s\<rparr>]), order_seq := Suc (order_seq s)\<rparr>))"

definition insert_user :: "(int \<Rightarrow> nat) \<Rightarrow> user \<Rightarrow> db \<Rightarrow> db" where
  "insert_user h u s =
     (let k = h (uid u) mod 4 in
      if uid u \<in> uid ` set (users_in s k) then s else s\<lparr>users_in := (users_in s)(k := users_in s k @ [u])\<rparr>)"

definition insert_product :: "product \<Rightarrow> db \<Rightarrow> db" where
  "insert_product p s = s\<lparr>products_in := (products_in s)(product_part (category p) := products_in s (product_part (category p)) @ [p])\<rparr>"

text \<open>The loops log an error and go on.\<close>

datatype line =
    Logs db_error
  | Says string nat
  | Tells string
  | Shows order
  | Heads string
  | Names string string

fun insert_orders :: "(nat \<Rightarrow> outcome) \<Rightarrow> order list \<Rightarrow> db \<Rightarrow> line list \<times> db" where
  "insert_orders env [] s = ([], s)"
| "insert_orders env (r # rs) s =
     (case insert_order r s of
        (Inl e, s') \<Rightarrow> (case insert_orders (env \<circ> Suc) rs s' of (out, t) \<Rightarrow> (Logs e # out, t))
      | (Inr _, s') \<Rightarrow>
          (case insert_orders (env \<circ> Suc) rs (if applied (env 0) then s' else s) of
             (out, t) \<Rightarrow> (case err_of (env 0) of None \<Rightarrow> (out, t) | Some e \<Rightarrow> (Logs e # out, t))))"

fun insert_users :: "(int \<Rightarrow> nat) \<Rightarrow> (nat \<Rightarrow> outcome) \<Rightarrow> user list \<Rightarrow> db \<Rightarrow> line list \<times> db" where
  "insert_users h env [] s = ([], s)"
| "insert_users h env (u # us) s =
     (case exec (env 0) (insert_user h u) s of (e, s') \<Rightarrow>
        (case insert_users h (env \<circ> Suc) us s' of (out, t) \<Rightarrow> (case e of None \<Rightarrow> (out, t) | Some x \<Rightarrow> (Logs x # out, t))))"

fun insert_products :: "(nat \<Rightarrow> outcome) \<Rightarrow> product list \<Rightarrow> db \<Rightarrow> line list \<times> db" where
  "insert_products env [] s = ([], s)"
| "insert_products env (p # ps) s =
     (case exec (env 0) (insert_product p) s of (e, s') \<Rightarrow>
        (case insert_products (env \<circ> Suc) ps s' of (out, t) \<Rightarrow> (case e of None \<Rightarrow> (out, t) | Some x \<Rightarrow> (Logs x # out, t))))"

text \<open>The counts of \<open>demonstrateHashPartitioning\<close>; a count that fails is logged and left out.\<close>

definition user_counts :: "(nat \<Rightarrow> outcome) \<Rightarrow> db \<Rightarrow> line list" where
  "user_counts env s = map (\<lambda>k. case query (env k) (length (users_in s k)) of
     Inl e \<Rightarrow> Logs e | Inr n \<Rightarrow> Says (''users_p'' @ dec k) n) [0, 1, 2, 3]"

text \<open>A query by a range of dates, and the one partition that a pruned plan reads.\<close>

definition orders_between :: "date \<Rightarrow> date \<Rightarrow> db \<Rightarrow> order list" where
  "orders_between a b s = filter (\<lambda>r. between a b (placed_on r)) (concat (map (\<lambda>p. orders_in s (fst p)) order_parts))"

section \<open>The batch\<close>

definition random_order :: "nat \<Rightarrow> int \<Rightarrow> int \<Rightarrow> string \<Rightarrow> order" where
  "random_order days c x st = \<lparr>oid = 0, placed_on = add_days days (Date 2024 1 1), customer = c, amount = x, status = st\<rparr>"

text \<open>
  \<open>SendBatch\<close> runs the statements in one implicit transaction. The error is the one of the first statement, or the one that
  \<open>Close\<close> finds in the rest; in both cases the program goes on to its next line.
\<close>

fun batch_tx :: "(nat \<Rightarrow> outcome) \<Rightarrow> order list \<Rightarrow> db \<Rightarrow> (db_error + unit) \<times> db" where
  "batch_tx env [] s = (Inr (), s)"
| "batch_tx env (r # rs) s = bind_tx (stmt (env 0) (insert_order r)) (\<lambda>_. batch_tx (env \<circ> Suc) rs) s"

definition send_batch :: "outcome \<Rightarrow> (nat \<Rightarrow> outcome) \<Rightarrow> order list \<Rightarrow> db \<Rightarrow> line list \<times> db" where
  "send_batch rc env rs s =
     (case begin_func Done rc (batch_tx env rs) s of
        (Inl e, s') \<Rightarrow> ([Logs e, Says ''Inserted'' 1000], s')
      | (Inr _, s') \<Rightarrow> ([Says ''Inserted'' 1000], s'))"

definition reset_demo :: "outcome \<Rightarrow> db \<Rightarrow> db" where
  "reset_demo r s = snd (exec r (\<lambda>_. \<lparr>orders_in = (\<lambda>_. []), users_in = (\<lambda>_. []), products_in = (\<lambda>_. []), order_seq = 1\<rparr>) s)"

section \<open>Placement\<close>

definition placed :: "(int \<Rightarrow> nat) \<Rightarrow> db \<Rightarrow> bool" where
  "placed h s \<longleftrightarrow>
     (\<forall>p. \<forall>r \<in> set (orders_in s p). order_part (placed_on r) = Some p) \<and>
     (\<forall>k. distinct (map uid (users_in s k)) \<and> (\<forall>u \<in> set (users_in s k). h (uid u) mod 4 = k)) \<and>
     (\<forall>p. \<forall>x \<in> set (products_in s p). product_part (category x) = p)"

lemma insert_order_placed: "placed h s \<Longrightarrow> placed h (snd (insert_order r s))"
  by (auto simp: placed_def insert_order_def split: option.splits)

lemma insert_user_placed: "placed h s \<Longrightarrow> placed h (insert_user h u s)"
  by (auto simp: placed_def insert_user_def Let_def)

lemma insert_product_placed: "placed h s \<Longrightarrow> placed h (insert_product p s)"
  by (auto simp: placed_def insert_product_def)

lemma insert_orders_placed: "placed h s \<Longrightarrow> placed h (snd (insert_orders env rs s))"
proof (induction rs arbitrary: env s)
  case (Cons r rs)
  obtain x s' where x: "insert_order r s = (x, s')" by force
  with insert_order_placed [OF Cons.prems, of r] have "placed h s'" by simp
  with x Cons show ?case by (cases x) (auto simp: split_beta split: option.splits)
qed simp

lemma insert_users_placed: "placed h s \<Longrightarrow> placed h (snd (insert_users h env us s))"
  by (induction us arbitrary: env s) (auto simp: exec_def split_beta insert_user_placed split: option.splits)

lemma insert_products_placed: "placed h s \<Longrightarrow> placed h (snd (insert_products env ps s))"
  by (induction ps arbitrary: env s) (auto simp: exec_def split_beta insert_product_placed split: option.splits)

lemma batch_tx_placed: "placed h s \<Longrightarrow> batch_tx env rs s = (Inr u, s') \<Longrightarrow> placed h s'"
proof (induction rs arbitrary: env s)
  case (Cons r rs)
  from Cons.prems(2) obtain v t where t: "insert_order r s = (Inr v, t)" "batch_tx (env \<circ> Suc) rs t = (Inr u, s')"
    by (auto simp: tx_simps)
  with insert_order_placed [OF Cons.prems(1), of r] have "placed h t" by simp
  from Cons.IH [OF this t(2)] show ?case .
qed simp

lemma send_batch_state: "snd (send_batch rc env rs s) = snd (begin_func Done rc (batch_tx env rs) s)"
  by (simp add: send_batch_def split_beta split: sum.splits)

lemma send_batch_placed: "placed h s \<Longrightarrow> placed h (snd (send_batch rc env rs s))"
  unfolding send_batch_state by (rule tx.run_invariant [of "placed h"]) (auto intro: batch_tx_placed)

section \<open>Properties\<close>

text \<open>Whatever statements fail, after the demonstrations every row is in the partition that its key belongs to, and no user twice.\<close>

theorem rows_in_their_partition:
  "placed h (snd (send_batch rc eb rs (snd (insert_products ep ps (snd (insert_users h eu us (snd (insert_orders eo os
     (reset_demo Done s)))))))))"
proof -
  have "placed h (reset_demo Done s)" by (simp add: reset_demo_def exec_def placed_def)
  then show ?thesis
    by (intro send_batch_placed insert_products_placed insert_users_placed insert_orders_placed)
qed

lemma order_part_between: "order_part d = Some n \<Longrightarrow> \<exists>a b. (n, a, b) \<in> set order_parts \<and> between a b d"
  by (auto simp: order_part_def find_Some_iff) (metis nth_mem)

lemma order_parts_names: "(n, a, b) \<in> set order_parts \<Longrightarrow> (n, a', b') \<in> set order_parts \<Longrightarrow> a = a' \<and> b = b'"
  by (simp add: order_parts_def) (elim disjE; simp)

lemma in_part:
  assumes "placed h s" "(n, a, b) \<in> set order_parts" "r \<in> set (orders_in s n)"
  shows "between a b (placed_on r)"
  using assms order_part_between order_parts_names unfolding placed_def by metis

text \<open>The query for the first quarter of 2024 needs the partition of that quarter only, and all of it.\<close>

theorem pruning_is_sound:
  assumes "placed h s"
  shows "orders_between (Date 2024 1 1) (Date 2024 4 1) s = orders_in s ''orders_2024_q1''"
proof -
  let ?P = "\<lambda>r. between (Date 2024 1 1) (Date 2024 4 1) (placed_on r)"
  have later: "filter ?P (orders_in s n) = []" if "(n, a, b) \<in> set order_parts" "date_key (Date 2024 4 1) \<le> date_key a" for n a b
    using in_part [OF assms that(1)] that(2) by (fastforce simp: filter_empty_conv between_def)
  have "(''orders_2024_q1'', Date 2024 1 1, Date 2024 4 1) \<in> set order_parts" by (simp add: order_parts_def)
  then have "filter ?P (orders_in s ''orders_2024_q1'') = orders_in s ''orders_2024_q1''"
    using in_part [OF assms] by (simp add: filter_id_conv)
  moreover have "concat (map (\<lambda>p. filter ?P (orders_in s (fst p))) (tl order_parts)) = []"
  proof -
    have first: "\<forall>p \<in> set (tl order_parts). date_key (Date 2024 4 1) \<le> date_key (fst (snd p))"
      by (simp add: order_parts_def date_key_def)
    have "filter ?P (orders_in s n) = []" if p: "(n, a, b) \<in> set (tl order_parts)" for n a b
    proof (rule later)
      have "order_parts \<noteq> []" by (simp add: order_parts_def)
      then show "(n, a, b) \<in> set order_parts" using p by (rule list.set_sel(2))
      show "date_key (Date 2024 4 1) \<le> date_key a" using bspec [OF first p] by (simp only: fst_conv snd_conv)
    qed
    then have "filter ?P (orders_in s (fst p)) = []" if "p \<in> set (tl order_parts)" for p
      using that by (cases p) (simp only: fst_conv)
    then show ?thesis unfolding concat_eq_Nil_conv set_map ball_simps by blast
  qed
  moreover have "orders_between (Date 2024 1 1) (Date 2024 4 1) s =
      filter ?P (orders_in s ''orders_2024_q1'') @ concat (map (\<lambda>p. filter ?P (orders_in s (fst p))) (tl order_parts))"
  proof -
    have split: "order_parts = (''orders_2024_q1'', Date 2024 1 1, Date 2024 4 1) # tl order_parts"
      by (simp add: order_parts_def)
    have "orders_between (Date 2024 1 1) (Date 2024 4 1) s = concat (map (\<lambda>p. filter ?P (orders_in s (fst p))) order_parts)"
      by (simp add: orders_between_def filter_concat comp_def)
    also have "\<dots> = filter ?P (orders_in s ''orders_2024_q1'') @ concat (map (\<lambda>p. filter ?P (orders_in s (fst p))) (tl order_parts))"
      by (subst split) (simp only: list.map concat.simps fst_conv)
    finally show ?thesis .
  qed
  ultimately show ?thesis by simp
qed

section \<open>Random dates\<close>

definition valid_date :: "date \<Rightarrow> bool" where
  "valid_date d \<longleftrightarrow> 1 \<le> month d \<and> month d \<le> 12 \<and> 1 \<le> day d \<and> day d \<le> month_days (year d) (month d)"

lemma month_days_range: "28 \<le> month_days y m \<and> month_days y m \<le> 31"
  by (simp add: month_days_def)

lemma next_day_later: "valid_date d \<Longrightarrow> valid_date (next_day d) \<and> date_key d < date_key (next_day d)"
  using month_days_range [of "year d" "month d"] month_days_range [of "year d" "Suc (month d)"] month_days_range [of "Suc (year d)" 1]
  by (auto simp: valid_date_def next_day_def date_key_def)

lemma add_days_later: "valid_date d \<Longrightarrow> valid_date (add_days n d) \<and> date_key d \<le> date_key (add_days n d)"
proof (induction n arbitrary: d)
  case (Suc n)
  from next_day_later [OF Suc.prems] Suc.IH [of "next_day d"] show ?case by simp
qed simp

lemma add_days_add: "add_days (m + n) d = add_days n (add_days m d)"
  by (induction m arbitrary: d) simp_all

lemma add_days_month: "dd + n \<le> month_days y m \<Longrightarrow> add_days n (Date y m dd) = Date y m (dd + n)"
  by (induction n arbitrary: dd) (simp_all add: next_day_def)

lemma add_days_jump:
  assumes "month_days y m \<le> n"
  shows "add_days n (Date y m 1) = add_days (n - month_days y m) (if m < 12 then Date y (Suc m) 1 else Date (Suc y) 1 1)"
proof -
  have 1: "1 \<le> month_days y m" using month_days_range [of y m] by simp
  have "add_days n (Date y m 1) = add_days (n - month_days y m) (add_days (month_days y m) (Date y m 1))"
    using assms by (simp add: add_days_add [symmetric])
  also have "month_days y m = (month_days y m - 1) + 1" using 1 by simp
  then have "add_days (month_days y m) (Date y m 1) = next_day (add_days (month_days y m - 1) (Date y m 1))"
    by (metis add_days_add add_days.simps One_nat_def)
  also have "\<dots> = next_day (Date y m (month_days y m))" using 1 by (simp add: add_days_month)
  also have "\<dots> = (if m < 12 then Date y (Suc m) 1 else Date (Suc y) 1 1)" by (simp add: next_day_def)
  finally show ?thesis .
qed

text \<open>The latest random date is March 30, 2026, and every random date has a partition.\<close>

theorem random_dates_have_partition:
  assumes "days < 820"
  shows "date_key (Date 2024 1 1) \<le> date_key (placed_on (random_order days c x st)) \<and>
    date_key (placed_on (random_order days c x st)) \<le> date_key (Date 2026 3 30) \<and>
    order_part (placed_on (random_order days c x st)) \<noteq> None"
proof -
  let ?d = "add_days days (Date 2024 1 1)"
  have start: "valid_date (Date 2024 1 1)" by (simp add: valid_date_def month_days_def)
  have "add_days 819 (Date 2024 1 1) = Date 2026 3 30"
    by (simp add: add_days_jump [unfolded One_nat_def] add_days_month month_days_def leap_def)
  moreover have "add_days 819 (Date 2024 1 1) = add_days (819 - days) ?d"
    using assms by (simp add: add_days_add [symmetric])
  ultimately have hi: "date_key ?d \<le> date_key (Date 2026 3 30)"
    using add_days_later add_days_later [OF start, of days] by metis
  have lo: "date_key (Date 2024 1 1) \<le> date_key ?d" using add_days_later [OF start] by blast
  have "order_part ?d \<noteq> None"
    using lo hi by (auto simp: order_part_def order_parts_def between_def date_key_def split: if_splits)
  with lo hi show ?thesis by (simp add: random_order_def)
qed

section \<open>Failures that are reported as success\<close>

lemma batch_tx_fails: "k < length rs \<Longrightarrow> err_of (env k) \<noteq> None \<Longrightarrow> \<exists>e s'. batch_tx env rs s = (Inl e, s')"
proof (induction rs arbitrary: env k s)
  case (Cons r rs)
  show ?case
  proof (cases "\<exists>v t. stmt (env 0) (insert_order r) s = (Inr v, t)")
    case True
    then obtain v t where t: "stmt (env 0) (insert_order r) s = (Inr v, t)" by blast
    then have "env 0 = Done" by (simp add: tx_simps)
    with Cons.prems obtain j where "k = Suc j" "j < length rs" by (cases k) auto
    with Cons.IH [of j "env \<circ> Suc" t] Cons.prems t show ?thesis by (simp add: bind_tx_def comp_def)
  next
    case False
    then show ?thesis by (cases "stmt (env 0) (insert_order r) s"; cases "fst (stmt (env 0) (insert_order r) s)") (auto simp: bind_tx_def)
  qed
qed simp

text \<open>When a statement of the batch fails, no order is stored, and the program logs the error and then says that it inserted 1000 orders.\<close>

theorem failed_batch_says_inserted:
  assumes "k < length rs" and "err_of (env k) \<noteq> None"
  shows "\<exists>e. send_batch rc env rs s = ([Logs e, Says ''Inserted'' 1000], s)"
proof -
  from batch_tx_fails [where env = env and k = k, OF assms] obtain e s' where "batch_tx env rs s = (Inl e, s')" by blast
  then have "begin_func Done rc (batch_tx env rs) s = (Inl e, s)" by (simp add: begin_func_def)
  then show ?thesis by (simp add: send_batch_def)
qed

section \<open>Counts\<close>

definition stored_ids :: "db \<Rightarrow> int set" where
  "stored_ids s = (\<Union>k < 4. uid ` set (users_in s k))"

lemma insert_user_ids: "stored_ids (insert_user h u s) = insert (uid u) (stored_ids s)"
proof -
  let ?k = "h (uid u) mod 4"
  have k: "?k < 4" by simp
  have "uid ` set (users_in (insert_user h u s) j) = uid ` set (users_in s j) \<union> (if j = ?k then {uid u} else {})" for j
    by (auto simp: insert_user_def Let_def)
  then have "stored_ids (insert_user h u s) = stored_ids s \<union> (\<Union>j < 4. if j = ?k then {uid u} else {})"
    by (simp only: stored_ids_def UN_Un_distrib)
  also have "(\<Union>j < 4. if j = ?k then {uid u} else {}) = {uid u}" using k by auto
  finally show ?thesis by simp
qed

lemma counts_are_ids:
  assumes "placed h s"
  shows "(\<Sum>k < 4. length (users_in s k)) = card (stored_ids s)"
proof -
  have key: "h (uid u) mod 4 = k" if "u \<in> set (users_in s k)" for u k
    using assms that by (simp add: placed_def)
  have "length (users_in s k) = card (uid ` set (users_in s k))" for k
    using assms by (metis card_image distinct_card distinct_map length_map placed_def)
  moreover have "uid ` set (users_in s j) \<inter> uid ` set (users_in s k) = {}" if "j \<noteq> k" for j k
    using key that by (auto, metis)
  then have "card (\<Union>k < 4. uid ` set (users_in s k)) = (\<Sum>k < (4 :: nat). card (uid ` set (users_in s k)))"
    by (intro card_UN_disjoint) auto
  ultimately show ?thesis by (simp add: stored_ids_def)
qed

text \<open>The counts of the hash partitions add up to the users that were inserted, each once, whatever the hash function.\<close>

theorem partition_counts_add_up:
  "(\<Sum>k < 4. length (users_in (snd (insert_users h (\<lambda>_. Done) us (reset_demo Done s))) k)) = card (uid ` set us)"
proof -
  let ?s = "reset_demo Done s"
  have reset: "placed h ?s" "stored_ids ?s = {}" by (simp_all add: reset_demo_def exec_def placed_def stored_ids_def)
  have "stored_ids (snd (insert_users h (\<lambda>_. Done) us t)) = stored_ids t \<union> uid ` set us" for t
    by (induction us arbitrary: t) (simp_all add: comp_def split_beta exec_def insert_user_ids)
  then show ?thesis using counts_are_ids [OF insert_users_placed [OF reset(1)]] reset(2) by simp
qed

section \<open>Witnesses\<close>

lemma pruning_is_sound_witness:
  "orders_between (Date 2024 1 1) (Date 2024 4 1) (snd (insert_orders (\<lambda>_. Done) [random_order 5 1 500 ''done'', random_order 100 1 700 ''done''] (reset_demo Done s)))
   = orders_in (snd (insert_orders (\<lambda>_. Done) [random_order 5 1 500 ''done'', random_order 100 1 700 ''done''] (reset_demo Done s))) ''orders_2024_q1''"
  by (rule pruning_is_sound [of "\<lambda>_. 0"], rule insert_orders_placed) (simp add: reset_demo_def exec_def placed_def)

lemma random_dates_have_partition_witness: "order_part (placed_on (random_order 819 1 500 ''done'')) \<noteq> None"
  using random_dates_have_partition [of 819 1 500 "''done''"] by simp

lemma failed_batch_says_inserted_witness:
  "\<exists>e. send_batch Done (\<lambda>k. if k = 1 then Refused Transport else Done) [random_order 1 1 1 [], random_order 2 1 1 []] s =
    ([Logs e, Says ''Inserted'' 1000], s)"
  by (rule failed_batch_says_inserted [of 1]) simp_all

end
