(* ===== verification/PartitioningMain.thy ===== *)
theory PartitioningMain
  imports TablePartitioning
begin

text \<open>
  The demonstrations and \<open>main\<close> of \<open>simulate_database_partitioning/main.go\<close>, with what they print, over the
  tables of \<open>TablePartitioning\<close>. A failing statement is logged; a failing query ends its demonstration. The rows
  of a query come in the order in which they are stored; a loop over rows does not read \<open>rows.Err\<close> and
  sees the first few of them. The sizes of the partitions, the plan and the random draws are parameters.
\<close>

section \<open>The demonstrations\<close>

definition new_order :: "date \<Rightarrow> int \<Rightarrow> int \<Rightarrow> string \<Rightarrow> order" where
  "new_order d c x st = \<lparr>oid = 0, placed_on = d, customer = c, amount = x, status = st\<rparr>"

definition demo_orders :: "order list" where
  "demo_orders =
     [new_order (Date 2024 1 15) 1 15000 ''completed'', new_order (Date 2024 2 20) 2 25050 ''completed'',
      new_order (Date 2024 5 10) 3 7525 ''pending'', new_order (Date 2024 8 22) 1 32000 ''completed'',
      new_order (Date 2024 11 5) 4 18075 ''shipped'', new_order (Date 2025 1 8) 2 42000 ''pending'',
      new_order (Date 2025 6 15) 5 9550 ''completed'', new_order (Date 2025 9 20) 3 55025 ''pending'',
      new_order (Date 2026 1 10) 1 20000 ''pending'', new_order (Date 2026 3 5) 4 17550 ''completed'']"

definition new_user :: "int \<Rightarrow> string \<Rightarrow> user" where
  "new_user i n = \<lparr>uid = i, username = n, email = n @ ''@example.com''\<rparr>"

definition demo_users :: "user list" where
  "demo_users = [new_user 1 ''alice'', new_user 2 ''bob'', new_user 3 ''charlie'', new_user 4 ''diana'',
     new_user 5 ''eve'', new_user 6 ''frank'', new_user 7 ''grace'', new_user 8 ''henry'']"

definition new_product :: "string \<Rightarrow> string \<Rightarrow> int \<Rightarrow> product" where
  "new_product n c x = \<lparr>prod_name = n, category = c, price = x\<rparr>"

definition demo_products :: "product list" where
  "demo_products =
     [new_product ''iPhone 15'' ''phones'' 99900, new_product ''MacBook Pro'' ''computers'' 249900,
      new_product ''Samsung TV'' ''electronics'' 79900, new_product ''Nike Shoes'' ''shoes'' 15000,
      new_product ''Leather Jacket'' ''clothing'' 29900, new_product ''Dining Table'' ''furniture'' 59900,
      new_product ''Blender'' ''kitchen'' 8900, new_product ''Garden Hose'' ''garden'' 4500,
      new_product ''Book: Go Programming'' ''books'' 4999]"

text \<open>The query for the first quarter of 2024, of which \<open>k\<close> rows arrive.\<close>

definition list_quarter :: "outcome \<Rightarrow> nat \<Rightarrow> db \<Rightarrow> line list" where
  "list_quarter r k s = (case err_of r of
     Some e \<Rightarrow> [Logs e]
   | None \<Rightarrow> Tells ''Orders from Q1 2024 (partition: orders_2024_q1):'' # map Shows (take k (orders_between (Date 2024 1 1) (Date 2024 4 1) s)))"

definition demonstrate_range :: "(nat \<Rightarrow> outcome) \<Rightarrow> outcome \<Rightarrow> nat \<Rightarrow> db \<Rightarrow> line list \<times> db" where
  "demonstrate_range env r k s =
     (case insert_orders env demo_orders s of (out, t) \<Rightarrow>
        (out @ Tells ''Inserted orders across multiple quarters (2024-2026)'' # list_quarter r k t, t))"

definition demonstrate_hash :: "(int \<Rightarrow> nat) \<Rightarrow> (nat \<Rightarrow> outcome) \<Rightarrow> (nat \<Rightarrow> outcome) \<Rightarrow> db \<Rightarrow> line list \<times> db" where
  "demonstrate_hash h env counts s =
     (case insert_users h env demo_users s of (out, t) \<Rightarrow>
        (out @ Tells ''Inserted users (distributed across 4 hash partitions)'' # user_counts counts t, t))"

text \<open>The partitions of the products in the order in which the loop over the map meets them.\<close>

definition product_tables :: "string list" where
  "product_tables = [''products_electronics'', ''products_clothing'', ''products_home'', ''products_other'']"

definition product_counts :: "(string \<Rightarrow> outcome) \<Rightarrow> string list \<Rightarrow> db \<Rightarrow> line list" where
  "product_counts env tabs s = map (\<lambda>t. case query (env t) (length (products_in s t)) of Inl e \<Rightarrow> Logs e | Inr n \<Rightarrow> Says t n) tabs"

definition demonstrate_list :: "(nat \<Rightarrow> outcome) \<Rightarrow> (string \<Rightarrow> outcome) \<Rightarrow> string list \<Rightarrow> db \<Rightarrow> line list \<times> db" where
  "demonstrate_list env counts tabs s =
     (case insert_products env demo_products s of (out, t) \<Rightarrow>
        (out @ Tells ''Inserted products across category partitions'' # product_counts counts tabs t, t))"

text \<open>\<open>showPartitionStats\<close>: the rows of the catalogue, with a heading when the table changes.\<close>

fun stats_lines :: "string \<Rightarrow> (string \<times> string \<times> string) list \<Rightarrow> line list" where
  "stats_lines current [] = []"
| "stats_lines current ((parent, part, sz) # rows) =
     (if parent \<noteq> current then [Heads parent] else []) @ Names part sz # stats_lines parent rows"

definition show_stats :: "db_error + (string \<times> string \<times> string) list \<Rightarrow> line list" where
  "show_stats a = (case a of Inl e \<Rightarrow> [Logs e] | Inr rows \<Rightarrow> Tells ''Partition Information:'' # stats_lines [] rows)"

record pruning_env =
  draws :: "(nat \<times> int \<times> int \<times> string) list"
  batched :: "nat \<Rightarrow> outcome"
  batch_committed :: outcome
  quarter_counted :: outcome
  explained :: "db_error + string list"

definition drawn_orders :: "(nat \<times> int \<times> int \<times> string) list \<Rightarrow> order list" where
  "drawn_orders ds = map (\<lambda>(days, c, x, st). random_order days c x st) ds"

definition demonstrate_pruning :: "pruning_env \<Rightarrow> db \<Rightarrow> line list \<times> db" where
  "demonstrate_pruning e s =
     (case send_batch (batch_committed e) (batched e) (drawn_orders (draws e)) s of (out, t) \<Rightarrow>
        (Tells ''Inserting 1000 random orders for performance testing...'' # out @
         (case query (quarter_counted e) (length (orders_between (Date 2024 1 1) (Date 2024 4 1) t)) of
            Inl x \<Rightarrow> [Logs x]
          | Inr n \<Rightarrow> Says ''Found orders in Q1 2024'' n #
              (case explained e of Inl x \<Rightarrow> [Logs x] | Inr plan \<Rightarrow> map Tells plan)), t))"

section \<open>The run\<close>

record partition_env =
  cleared :: outcome
  hashed :: "int \<Rightarrow> nat"
  order_inserts :: "nat \<Rightarrow> outcome"
  quarter_listed :: "outcome \<times> nat"
  user_inserts :: "nat \<Rightarrow> outcome"
  user_counted :: "nat \<Rightarrow> outcome"
  product_inserts :: "nat \<Rightarrow> outcome"
  product_counted :: "string \<Rightarrow> outcome"
  table_order :: "string list"
  stats :: "db_error + (string \<times> string \<times> string) list"
  pruning :: pruning_env

definition reset_lines :: "outcome \<Rightarrow> line list" where
  "reset_lines r = (case err_of r of None \<Rightarrow> [] | Some e \<Rightarrow> [Logs e])"

definition partition_main :: "partition_env \<Rightarrow> db \<Rightarrow> line list \<times> db" where
  "partition_main e s =
     (case demonstrate_range (order_inserts e) (fst (quarter_listed e)) (snd (quarter_listed e)) (reset_demo (cleared e) s) of (out1, s1) \<Rightarrow>
      case demonstrate_hash (hashed e) (user_inserts e) (user_counted e) s1 of (out2, s2) \<Rightarrow>
      case demonstrate_list (product_inserts e) (product_counted e) (table_order e) s2 of (out3, s3) \<Rightarrow>
      case demonstrate_pruning (pruning e) s3 of (out4, s4) \<Rightarrow>
        (reset_lines (cleared e) @ out1 @ out2 @ out3 @ show_stats (stats e) @ out4, s4))"

section \<open>Placement in every run\<close>

lemma main_state:
  "snd (partition_main e s) = snd (send_batch (batch_committed (pruning e)) (batched (pruning e)) (drawn_orders (draws (pruning e)))
     (snd (insert_products (product_inserts e) demo_products (snd (insert_users (hashed e) (user_inserts e) demo_users
       (snd (insert_orders (order_inserts e) demo_orders (reset_demo (cleared e) s))))))))"
  by (simp add: partition_main_def demonstrate_range_def demonstrate_hash_def demonstrate_list_def demonstrate_pruning_def split_beta)

lemma reset_placed: "placed h s \<Longrightarrow> placed h (reset_demo r s)"
  by (simp add: reset_demo_def exec_def placed_def)

text \<open>Whatever statements fail, every row is in the partition of its key when the program ends.\<close>

lemma main_placed: "placed (hashed e) s \<Longrightarrow> placed (hashed e) (snd (partition_main e s))"
  unfolding main_state by (intro send_batch_placed insert_products_placed insert_users_placed insert_orders_placed reset_placed)

section \<open>What the program prints on a server that answers\<close>

text \<open>The listing has one heading for each run of rows of a table, in order.\<close>

lemma stats_heads:
  "c # map fst rows = c # ps \<Longrightarrow>
   map Heads (remdups_adj (c # ps)) = Heads c # filter (\<lambda>l. \<exists>t. l = Heads t) (stats_lines c rows)"
proof (induction c rows arbitrary: ps rule: stats_lines.induct)
  case (2 current parent part sz rows)
  show ?case using "2.IH" [OF refl] "2.prems" by (cases "parent = current") auto
qed simp

text \<open>Single steps.\<close>

lemma quarter_days: "between (Date 2024 1 1) (Date 2024 4 1) (add_days n (Date 2024 1 1)) \<longleftrightarrow> n < 91"
proof -
  let ?d = "\<lambda>n. add_days n (Date 2024 1 1)"
  have start: "valid_date (Date 2024 1 1)" by (simp add: valid_date_def month_days_def)
  have d91: "?d 91 = Date 2024 4 1"
    by (simp add: add_days_jump [unfolded One_nat_def] add_days_month month_days_def leap_def)
  have low: "date_key (Date 2024 1 1) \<le> date_key (?d n)" using add_days_later [OF start] by blast
  show ?thesis
  proof (cases "n < 91")
    case True
    then obtain m where m: "91 = n + Suc m" by (metis less_imp_Suc_add add_Suc_right)
    have "?d 91 = add_days m (next_day (?d n))" unfolding m add_days_add by simp
    moreover have v: "valid_date (?d n)" using add_days_later [OF start] by blast
    ultimately have "date_key (?d n) < date_key (?d 91)"
      using next_day_later [OF v] add_days_later [of "next_day (?d n)" m] by simp
    with low d91 True show ?thesis by (simp add: between_def)
  next
    case False
    then have "?d n = add_days (n - 91) (?d 91)" using add_days_add [of 91 "n - 91"] by simp
    moreover have "valid_date (?d 91)" using add_days_later [OF start] by blast
    ultimately have "date_key (?d 91) \<le> date_key (?d n)" using add_days_later [of "?d 91" "n - 91"] by simp
    with d91 False show ?thesis by (simp add: between_def)
  qed
qed

lemma sum_list_update:
  "distinct ps \<Longrightarrow> p \<in> set ps \<Longrightarrow> sum_list (map (f(p := f p + (d :: nat))) ps) = sum_list (map f ps) + d"
proof (induction ps)
  case (Cons q ps)
  show ?case
  proof (cases "p = q")
    case True
    with Cons.prems have "sum_list (map (f(p := f p + d)) ps) = sum_list (map f ps)"
      by (intro arg_cong [of _ _ sum_list] map_cong) auto
    with True show ?thesis by (simp del: fun_upd_apply) (simp add: fun_upd_same)
  qed (use Cons in simp)
qed simp

lemma count_between:
  "length (orders_between a b s) = sum_list (map (\<lambda>p. length (filter (\<lambda>r. between a b (placed_on r)) (orders_in s p))) (map fst order_parts))"
  by (simp add: orders_between_def filter_concat length_concat comp_def)

lemma insert_order_count:
  assumes "order_part (placed_on r) \<noteq> None"
  obtains s' where "insert_order r s = (Inr (), s')"
    "length (orders_between a b s') = length (orders_between a b s) + (if between a b (placed_on r) then 1 else 0)"
proof -
  from assms obtain p where p: "order_part (placed_on r) = Some p" by blast
  then have "p \<in> set (map fst order_parts)" using order_part_between [OF p] by force
  moreover have "distinct (map fst order_parts)" by (simp add: order_parts_def)
  ultimately show thesis
    using sum_list_update [of "map fst order_parts" p "\<lambda>p. length (filter (\<lambda>r. between a b (placed_on r)) (orders_in s p))" "if between a b (placed_on r) then 1 else 0"]
    by (intro that) (simp add: insert_order_def p, simp add: count_between fun_upd_def if_distrib cong: if_cong)
qed

lemma batch_count:
  "\<forall>r \<in> set rs. order_part (placed_on r) \<noteq> None \<Longrightarrow> \<exists>s'. batch_tx (\<lambda>_. Done) rs s = (Inr (), s') \<and>
     length (orders_between a b s') = length (orders_between a b s) + length (filter (\<lambda>r. between a b (placed_on r)) rs)"
proof (induction rs arbitrary: s)
  case (Cons r rs)
  then obtain s1 where s1: "insert_order r s = (Inr (), s1)"
    "length (orders_between a b s1) = length (orders_between a b s) + (if between a b (placed_on r) then 1 else 0)"
    using insert_order_count [of r s a b] by auto
  from Cons.IH [of s1] Cons.prems obtain s2 where "batch_tx (\<lambda>_. Done) rs s1 = (Inr (), s2)"
    "length (orders_between a b s2) = length (orders_between a b s1) + length (filter (\<lambda>r. between a b (placed_on r)) rs)" by auto
  with s1 show ?case by (simp add: comp_def bind_tx_def stmt_Done)
qed simp

lemma drawn_quarter:
  "length (filter (\<lambda>r. between (Date 2024 1 1) (Date 2024 4 1) (placed_on r)) (drawn_orders ds)) = length (filter (\<lambda>d. fst d < 91) ds)"
  by (simp add: drawn_orders_def filter_map comp_def split_beta random_order_def quarter_days [unfolded One_nat_def])

lemma send_batch_counts:
  assumes "\<forall>d \<in> set ds. fst d < 820"
  obtains t where "send_batch Done (\<lambda>_. Done) (drawn_orders ds) s = ([Says ''Inserted'' 1000], t)"
    "length (orders_between (Date 2024 1 1) (Date 2024 4 1) t) =
       length (orders_between (Date 2024 1 1) (Date 2024 4 1) s) + length (filter (\<lambda>d. fst d < 91) ds)"
proof -
  have "\<forall>r \<in> set (drawn_orders ds). order_part (placed_on r) \<noteq> None"
    using assms random_dates_have_partition by (fastforce simp: drawn_orders_def)
  from batch_count [OF this, of s "Date 2024 1 1" "Date 2024 4 1"] that show thesis
    unfolding send_batch_def begin_func_Done drawn_quarter by fastforce
qed

lemma orders_kept:
  "orders_in (snd (insert_users h env us s)) = orders_in s" "orders_in (snd (insert_products env ps s)) = orders_in s"
  "users_in (snd (insert_products env ps s)) = users_in s"
  by (induction us arbitrary: env s, simp_all add: exec_def split_beta insert_user_def Let_def split: option.split)
    (induction ps arbitrary: env s, simp_all add: exec_def split_beta insert_product_def split: option.split)+

lemma products_kept:
  "products_in (snd (insert_users h env us s)) = products_in s" "products_in (snd (insert_orders env' rs s)) = products_in s"
  by (induction us arbitrary: env s, simp_all add: exec_def split_beta insert_user_def Let_def split: option.split)
    (induction rs arbitrary: env' s, simp_all add: insert_order_def split_beta split: option.split)+

lemma calm_inserts:
  "fst (insert_users h (\<lambda>_. Done) us s) = []" "fst (insert_products (\<lambda>_. Done) ps s) = []"
  by (induction us arbitrary: s, simp_all add: exec_def split_beta comp_def)
    (induction ps arbitrary: s, simp_all add: exec_def split_beta comp_def)

lemma products_stored:
  "products_in (snd (insert_products (\<lambda>_. Done) ps s)) t = products_in s t @ filter (\<lambda>x. product_part (category x) = t) ps"
  by (induction ps arbitrary: s) (simp_all add: exec_def split_beta comp_def insert_product_def)

text \<open>The two orders of the first quarter.\<close>

definition first_quarter :: "order list" where
  "first_quarter = [(new_order (Date 2024 1 15) 1 15000 ''completed'')\<lparr>oid := 1\<rparr>, (new_order (Date 2024 2 20) 2 25050 ''completed'')\<lparr>oid := 2\<rparr>]"

lemma orders_stored:
  "fst (insert_orders (\<lambda>_. Done) demo_orders (reset_demo Done s)) = []"
  "orders_in (snd (insert_orders (\<lambda>_. Done) demo_orders (reset_demo Done s))) ''orders_2024_q1'' = first_quarter"
  by (simp_all add: demo_orders_def new_order_def reset_demo_def exec_def insert_order_def order_part_def order_parts_def between_def
      date_key_def comp_def first_quarter_def)

definition answering :: "partition_env \<Rightarrow> bool" where
  "answering e \<longleftrightarrow> cleared e = Done \<and> order_inserts e = (\<lambda>_. Done) \<and> user_inserts e = (\<lambda>_. Done) \<and> product_inserts e = (\<lambda>_. Done) \<and>
     fst (quarter_listed e) = Done \<and> 2 \<le> snd (quarter_listed e) \<and> user_counted e = (\<lambda>_. Done) \<and> product_counted e = (\<lambda>_. Done) \<and>
     set (table_order e) \<subseteq> set product_tables \<and> batched (pruning e) = (\<lambda>_. Done) \<and> batch_committed (pruning e) = Done \<and> quarter_counted (pruning e) = Done"

text \<open>How many of the nine products a partition gets.\<close>

definition product_total :: "string \<Rightarrow> nat" where
  "product_total t = (if t = ''products_electronics'' then 3 else if t = ''products_clothing'' then 2 else if t = ''products_home'' then 3 else 1)"

lemma product_totals: "t \<in> set product_tables \<Longrightarrow> length (filter (\<lambda>x. product_part (category x) = t) demo_products) = product_total t"
  by (auto simp: product_tables_def demo_products_def new_product_def product_part_def product_total_def)

lemma user_total:
  assumes t_def: "t = snd (insert_users h (\<lambda>_. Done) demo_users (snd (insert_orders (\<lambda>_. Done) demo_orders (reset_demo Done s))))"
  shows "length (users_in t 0) + length (users_in t 1) + length (users_in t 2) + length (users_in t 3) = 8"
proof -
  let ?s = "snd (insert_orders (\<lambda>_. Done) demo_orders (reset_demo Done s))"
  have "placed h (reset_demo Done s)" by (simp add: reset_demo_def exec_def placed_def)
  then have p: "placed h t" unfolding t_def by (intro insert_users_placed insert_orders_placed)
  have "users_in (snd (insert_orders env rs w)) = users_in w" for env rs w
    by (induction rs arbitrary: env w) (simp_all add: insert_order_def split_beta split: option.split)
  then have "stored_ids ?s = {}" by (simp add: stored_ids_def reset_demo_def exec_def)
  moreover have "stored_ids (snd (insert_users h (\<lambda>_. Done) us w)) = stored_ids w \<union> uid ` set us" for us w
    by (induction us arbitrary: w) (simp_all add: comp_def split_beta exec_def insert_user_ids)
  then have "stored_ids t = stored_ids ?s \<union> uid ` set demo_users" unfolding t_def .
  ultimately have "stored_ids t = {1, 2, 3, 4, 5, 6, 7, 8}" by (simp add: demo_users_def new_user_def)
  with counts_are_ids [OF p] show ?thesis by (simp add: lessThan_Suc numeral_eq_Suc)
qed

text \<open>What is printed then.\<close>

lemma main_prints:
  assumes a: "answering e \<and> stats e = Inr rows \<and> explained (pruning e) = Inr plan \<and> (\<forall>d \<in> set (draws (pruning e)). fst d < 820)"
  shows "\<exists>n. n 0 + n 1 + n 2 + n 3 = 8 \<and> fst (partition_main e s) =
        [Tells ''Inserted orders across multiple quarters (2024-2026)'', Tells ''Orders from Q1 2024 (partition: orders_2024_q1):''] @
        map Shows first_quarter @ Tells ''Inserted users (distributed across 4 hash partitions)'' # map (\<lambda>k. Says (''users_p'' @ dec k) (n k)) [0, 1, 2, 3] @
        Tells ''Inserted products across category partitions'' # map (\<lambda>t. Says t (product_total t)) (table_order e) @
        Tells ''Partition Information:'' # stats_lines [] rows @
        [Tells ''Inserting 1000 random orders for performance testing...'', Says ''Inserted'' 1000,
         Says ''Found orders in Q1 2024'' (2 + length (filter (\<lambda>d. fst d < 91) (draws (pruning e))))] @ map Tells plan"
proof -
  from a have env: "cleared e = Done" "order_inserts e = (\<lambda>_. Done)" "user_inserts e = (\<lambda>_. Done)" "product_inserts e = (\<lambda>_. Done)"
    "fst (quarter_listed e) = Done" "2 \<le> snd (quarter_listed e)" "user_counted e = (\<lambda>_. Done)" "product_counted e = (\<lambda>_. Done)"
    "set (table_order e) \<subseteq> set product_tables" "batched (pruning e) = (\<lambda>_. Done)" "batch_committed (pruning e) = Done" "quarter_counted (pruning e) = Done"
    "stats e = Inr rows" "explained (pruning e) = Inr plan" by (simp_all add: answering_def)
  define s1 where "s1 = snd (insert_orders (\<lambda>_. Done) demo_orders (reset_demo Done s))"
  define s2 where "s2 = snd (insert_users (hashed e) (\<lambda>_. Done) demo_users s1)"
  define s3 where "s3 = snd (insert_products (\<lambda>_. Done) demo_products s2)"
  have "placed (hashed e) s1" unfolding s1_def by (intro insert_orders_placed) (simp add: reset_demo_def exec_def placed_def)
  then have q1: "orders_between (Date 2024 1 1) (Date 2024 4 1) s1 = first_quarter"
    using pruning_is_sound orders_stored(2) [of s] by (simp add: s1_def)
  have "orders_in s3 = orders_in s1" by (simp add: s3_def s2_def orders_kept)
  then have q3: "orders_between (Date 2024 1 1) (Date 2024 4 1) s3 = first_quarter" using q1 by (simp add: orders_between_def)
  have i1: "insert_orders (\<lambda>_. Done) demo_orders (reset_demo Done s) = ([], s1)" using orders_stored(1) [of s] by (simp add: s1_def prod_eq_iff)
  have i2: "insert_users (hashed e) (\<lambda>_. Done) demo_users s1 = ([], s2)" by (simp add: s2_def prod_eq_iff calm_inserts)
  have i3: "insert_products (\<lambda>_. Done) demo_products s2 = ([], s3)" by (simp add: s3_def prod_eq_iff calm_inserts)
  have i23: "orders_between (Date 2024 1 1) (Date 2024 4 1) s1 = first_quarter" by (rule q1)
  have dr: "\<forall>d \<in> set (draws (pruning e)). fst d < 820" using a by blast
  obtain t where t0: "send_batch Done (\<lambda>_. Done) (drawn_orders (draws (pruning e))) s3 = ([Says ''Inserted'' 1000], t)"
    "length (orders_between (Date 2024 1 1) (Date 2024 4 1) t) =
      length (orders_between (Date 2024 1 1) (Date 2024 4 1) s3) + length (filter (\<lambda>d. fst d < 91) (draws (pruning e)))"
    by (rule send_batch_counts [OF dr])
  have t: "send_batch Done (\<lambda>_. Done) (drawn_orders (draws (pruning e))) s3 = ([Says ''Inserted'' 1000], t)"
    "length (orders_between (Date 2024 1 1) (Date 2024 4 1) t) = 2 + length (filter (\<lambda>d. fst d < 91) (draws (pruning e)))"
    by (rule t0(1)) (simp only: t0(2) q3, simp add: first_quarter_def)
  have take: "take (snd (quarter_listed e)) first_quarter = first_quarter" using env(6) by (simp add: first_quarter_def)
  have prods: "product_counts (\<lambda>_. Done) (table_order e) s3 = map (\<lambda>t. Says t (product_total t)) (table_order e)"
  proof -
    have "products_in s2 = (\<lambda>_. [])" by (simp add: s2_def s1_def products_kept reset_demo_def exec_def)
    then show ?thesis using env(9) product_totals by (auto simp: product_counts_def query_simps s3_def products_stored)
  qed
  show ?thesis
  proof (intro exI conjI)
    show "length (users_in s2 0) + length (users_in s2 1) + length (users_in s2 2) + length (users_in s2 3) = 8"
      by (rule user_total [of _ "hashed e" s]) (simp add: s2_def s1_def)
  qed (simp add: partition_main_def reset_lines_def demonstrate_range_def demonstrate_hash_def demonstrate_list_def demonstrate_pruning_def env i1 i2 i3
      list_quarter_def q1 [unfolded One_nat_def] take user_counts_def query_simps prods show_stats_def t [unfolded One_nat_def])
qed

text \<open>C35: Whatever statements fail, every row is in the partition of its key and no user is stored twice. On a server that answers,
  the program lists the two orders of the first quarter, the eight users are counted once over the four partitions, the product partitions
  hold 3, 2, 3 and 1, the statistics have one heading per table, and the pruned count is two plus the random orders of the first 91 days.\<close>

theorem partition_main_output:
  assumes "placed (hashed e) s"
  shows "placed (hashed e) (snd (partition_main e s)) \<and>
    (answering e \<and> stats e = Inr rows \<and> explained (pruning e) = Inr plan \<and> (\<forall>d \<in> set (draws (pruning e)). fst d < 820) \<longrightarrow>
      (\<exists>n. n 0 + n 1 + n 2 + n 3 = 8 \<and> fst (partition_main e s) =
        [Tells ''Inserted orders across multiple quarters (2024-2026)'', Tells ''Orders from Q1 2024 (partition: orders_2024_q1):''] @
        map Shows first_quarter @ Tells ''Inserted users (distributed across 4 hash partitions)'' # map (\<lambda>k. Says (''users_p'' @ dec k) (n k)) [0, 1, 2, 3] @
        Tells ''Inserted products across category partitions'' # map (\<lambda>t. Says t (product_total t)) (table_order e) @
        Tells ''Partition Information:'' # stats_lines [] rows @
        [Tells ''Inserting 1000 random orders for performance testing...'', Says ''Inserted'' 1000,
         Says ''Found orders in Q1 2024'' (2 + length (filter (\<lambda>d. fst d < 91) (draws (pruning e))))] @ map Tells plan))"
  using main_placed [OF assms] main_prints [of e rows plan s] by blast

definition quick_env :: partition_env where
  "quick_env = \<lparr>cleared = Done, hashed = nat, order_inserts = (\<lambda>_. Done), quarter_listed = (Done, 10), user_inserts = (\<lambda>_. Done),
     user_counted = (\<lambda>_. Done), product_inserts = (\<lambda>_. Done), product_counted = (\<lambda>_. Done), table_order = product_tables,
     stats = Inr [], pruning = \<lparr>draws = [(90, 1, 500, ''pending''), (91, 2, 700, ''shipped'')], batched = (\<lambda>_. Done), batch_committed = Done,
       quarter_counted = Done, explained = Inr []\<rparr>\<rparr>"

definition no_rows :: db where
  "no_rows = \<lparr>orders_in = (\<lambda>_. []), users_in = (\<lambda>_. []), products_in = (\<lambda>_. []), order_seq = 1\<rparr>"

theorem partition_main_output_witness:
  "placed nat (snd (partition_main quick_env no_rows)) \<and> Says ''Found orders in Q1 2024'' 3 \<in> set (fst (partition_main quick_env no_rows)) \<and>
   Says ''products_home'' 3 \<in> set (fst (partition_main quick_env no_rows))"
proof -
  have "placed (hashed quick_env) no_rows" by (simp add: placed_def no_rows_def)
  note r = partition_main_output [OF this, of "[]" "[]"]
  have "answering quick_env" "stats quick_env = Inr []" "explained (pruning quick_env) = Inr []"
    "\<forall>d \<in> set (draws (pruning quick_env)). fst d < 820" "draws (pruning quick_env) = [(90, 1, 500, ''pending''), (91, 2, 700, ''shipped'')]"
    "hashed quick_env = nat" "table_order quick_env = product_tables"
    by (simp_all add: quick_env_def answering_def)
  with r show ?thesis by (auto simp: product_tables_def product_total_def)
qed

end
