(* ===== verification/ConnectionPooling.thy ===== *)
theory ConnectionPooling
  imports GoStd
begin

text \<open>
  \<open>simulate_connection_pooling/main.go\<close>: a load of concurrent queries, directly to a server with few slots and through a
  pooler in transaction mode; the sampling of the server's backends, and the reading of the pooler's statistics. What the
  server or the pooler may answer to a query, by the protocol it is sent with, is a parameter (\<open>serves\<close>).
\<close>

section \<open>Pools\<close>

datatype exec_mode = Prepared | Simple_Protocol

record pool_config =
  max_conns :: int
  mode :: exec_mode


section \<open>The load\<close>

text \<open>
  The goroutines of \<open>runLoad\<close>: those not started, those that wait in \<open>pool.Exec\<close> for one of the at most \<open>MaxConns\<close>
  connections of the pool, those whose query is out, and the two atomic counters. An answer is an outcome the other side
  may give to a query in the pool's mode; the error of a connection that is refused is one of them.
\<close>

record load =
  idle :: nat
  waiting :: nat
  active :: nat
  ok :: nat
  failed :: nat

definition run_load :: "nat \<Rightarrow> load" where
  "run_load n = \<lparr>idle = n, waiting = 0, active = 0, ok = 0, failed = 0\<rparr>"

definition count_answer :: "outcome \<Rightarrow> load \<Rightarrow> load" where
  "count_answer r s = (if err_of r \<noteq> None then s\<lparr>failed := failed s + 1\<rparr> else s\<lparr>ok := ok s + 1\<rparr>)"

inductive load_step :: "(exec_mode \<Rightarrow> outcome \<Rightarrow> bool) \<Rightarrow> pool_config \<Rightarrow> load \<Rightarrow> load \<Rightarrow> bool" for serves cfg where
  called: "0 < idle s \<Longrightarrow> load_step serves cfg s (s\<lparr>idle := idle s - 1, waiting := waiting s + 1\<rparr>)"
| acquired: "0 < waiting s \<Longrightarrow> int (active s) < max_conns cfg \<Longrightarrow>
    load_step serves cfg s (s\<lparr>waiting := waiting s - 1, active := active s + 1\<rparr>)"
| answered: "0 < active s \<Longrightarrow> serves (mode cfg) r \<Longrightarrow>
    load_step serves cfg s (count_answer r (s\<lparr>active := active s - 1\<rparr>))"



definition work_left :: "load \<Rightarrow> nat" where
  "work_left s = 3 * idle s + 2 * waiting s + active s"

definition load_ok :: "pool_config \<Rightarrow> nat \<Rightarrow> load \<Rightarrow> bool" where
  "load_ok cfg n s \<longleftrightarrow> idle s + waiting s + active s + ok s + failed s = n \<and> (0 < active s \<longrightarrow> int (active s) \<le> max_conns cfg)"

lemma load_step_ok: "load_step serves cfg s t \<Longrightarrow> load_ok cfg n s \<Longrightarrow> load_ok cfg n t"
  by (induction rule: load_step.induct) (auto simp: load_ok_def count_answer_def)

text \<open>Every step takes one unit of work, and while there is work some step is possible.\<close>

lemma load_step_works: "load_step serves cfg s t \<Longrightarrow> Suc (work_left t) = work_left s"
  by (induction rule: load_step.induct) (auto simp: work_left_def count_answer_def)

lemma load_step_possible:
  assumes "0 < max_conns cfg" and "serves (mode cfg) r" and "0 < work_left s"
  shows "\<exists>t. load_step serves cfg s t"
proof -
  consider "0 < active s" | "active s = 0" "0 < waiting s" | "0 < idle s"
    using assms(3) by (auto simp: work_left_def)
  then show ?thesis
  proof cases
    case 1
    with assms(2) show ?thesis using load_step.answered by blast
  next
    case 2
    with assms(1) show ?thesis using load_step.acquired [of s cfg serves] by auto
  next
    case 3
    then show ?thesis using load_step.called by blast
  qed
qed

lemma load_run:
  assumes "(load_step serves cfg ^^ k) (run_load n) s"
  shows "load_ok cfg n s \<and> work_left s + k = 3 * n"
  using assms
proof (induction k arbitrary: s)
  case 0
  then show ?case by (auto simp: load_ok_def run_load_def work_left_def)
next
  case (Suc k)
  then obtain t where "(load_step serves cfg ^^ k) (run_load n) t" and st: "load_step serves cfg t s" by auto
  from Suc.IH [OF this(1)] load_step_ok [OF st] load_step_works [OF st] show ?case by auto
qed


lemma work_0: "work_left s = 0 \<longleftrightarrow> idle s = 0 \<and> waiting s = 0 \<and> active s = 0"
  by (auto simp: work_left_def)

text \<open>Whatever the answers are, every run of the load ends: it has at most three steps per goroutine, and it can stop only
  when each goroutine has been counted, once, as answered or failed. Meanwhile at most \<open>MaxConns\<close> queries are out.\<close>

theorem load_counts_all:
  assumes "(load_step serves cfg ^^ k) (run_load n) s" and "0 < max_conns cfg" and "serves (mode cfg) r"
  shows "k \<le> 3 * n \<and> int (active s) \<le> max_conns cfg \<and>
    ((\<exists>t. load_step serves cfg s t) \<or> k = 3 * n \<and> ok s + failed s = n)"
proof -
  from load_run [OF assms(1)] have l: "load_ok cfg n s" "work_left s + k = 3 * n" by auto
  then have "(\<exists>t. load_step serves cfg s t) \<or> k = 3 * n \<and> ok s + failed s = n"
    using load_step_possible [of cfg serves r s] assms(2,3) by (cases "work_left s = 0") (auto simp: work_0 load_ok_def)
  moreover have "int (active s) \<le> max_conns cfg" using l(1) assms(2) by (cases "active s") (auto simp: load_ok_def)
  ultimately show ?thesis using l(2) by simp
qed


section \<open>Sampling\<close>

text \<open>
  \<open>sampleBackends\<close>, in milliseconds: each sample takes some time and is answered or not. \<open>hi\<close> is the largest answer so far.
\<close>

fun sample_backends :: "nat \<Rightarrow> nat \<Rightarrow> nat \<Rightarrow> (nat \<times> outcome \<times> nat) list \<Rightarrow> nat" where
  "sample_backends dur t hi [] = hi"
| "sample_backends dur t hi ((d, r, n) # xs) =
     (if dur \<le> t then hi
      else sample_backends dur (t + d + 15) (if err_of r = None \<and> n > hi then n else hi) xs)"

text \<open>The samples that are taken before the deadline.\<close>

fun in_time :: "nat \<Rightarrow> nat \<Rightarrow> (nat \<times> outcome \<times> nat) list \<Rightarrow> (nat \<times> outcome \<times> nat) list" where
  "in_time dur t [] = []"
| "in_time dur t ((d, r, n) # xs) = (if dur \<le> t then [] else (d, r, n) # in_time dur (t + d + 15) xs)"

definition answers :: "(nat \<times> outcome \<times> nat) list \<Rightarrow> nat list" where
  "answers xs = map (\<lambda>(d, r, n). n) (filter (\<lambda>(d, r, n). r = Done) xs)"

lemma sample_backends_Max: "sample_backends dur t hi xs = Max (insert hi (set (answers (in_time dur t xs))))"
proof (induction dur t hi xs rule: sample_backends.induct)
  case (2 dur t hi d r n xs)
  let ?A = "set (answers (in_time dur (t + d + 15) xs))"
  show ?case
  proof (cases "dur \<le> t")
    case True
    then show ?thesis by (simp add: answers_def)
  next
    case False
    show ?thesis
    proof (cases "r = Done")
      case True
      have "Max (insert (if n > hi then n else hi) ?A) = Max (insert hi (insert n ?A))"
        by (cases "?A = {}") (auto simp: max_def)
      with 2 False True show ?thesis by (simp add: answers_def)
    next
      case r: False
      with 2 False show ?thesis by (simp add: answers_def)
    qed
  qed
qed (simp add: answers_def)

text \<open>The peak is the largest answered sample before the deadline, so a server that keeps its limit is never seen above it.\<close>

theorem peak_is_largest_sample:
  assumes "\<forall>(d, r, n) \<in> set xs. n \<le> limit"
  shows "sample_backends dur 0 0 xs \<le> limit \<and> (\<forall>n \<in> set (answers (in_time dur 0 xs)). n \<le> sample_backends dur 0 0 xs)"
proof -
  have "set (in_time dur t ys) \<subseteq> set ys" for t ys
    by (induction dur t ys rule: in_time.induct) auto
  then have "set (answers (in_time dur 0 xs)) \<subseteq> {..limit}" using assms by (fastforce simp: answers_def)
  then show ?thesis by (auto simp: sample_backends_Max)
qed

section \<open>Statistics of the pooler\<close>

text \<open>Go's \<open>-1\<close> for a missing column.\<close>

definition col_idx :: "string list \<Rightarrow> string \<Rightarrow> int" where
  "col_idx descs n = (case index_func (\<lambda>d. d = n) descs of None \<Rightarrow> -1 | Some i \<Rightarrow> int i)"

definition get_col :: "string list \<Rightarrow> int \<Rightarrow> string" where
  "get_col vals i = (if i < 0 \<or> int (length vals) \<le> i then ''?'' else vals ! nat i)"

text \<open>\<open>showPgBouncerPools\<close>: \<open>None\<close> when the console cannot be read; a row whose values cannot be read is left out.\<close>

definition show_pools :: "outcome \<Rightarrow> outcome \<Rightarrow> outcome \<Rightarrow> string list \<Rightarrow> (outcome \<times> string list) list \<Rightarrow> (string \<times> string \<times> string \<times> string) list option" where
  "show_pools rp rc rq descs rows =
     (if err_of rp \<noteq> None \<or> err_of rc \<noteq> None \<or> err_of rq \<noteq> None then None
      else Some (map (\<lambda>(r, vals). (get_col vals (col_idx descs ''database''), get_col vals (col_idx descs ''pool_mode''),
             get_col vals (col_idx descs ''sv_active''), get_col vals (col_idx descs ''cl_waiting'')))
           (filter (\<lambda>(r, vals). err_of r = None) rows)))"

text \<open>A column is read by its name: the value of the first column so named, or a question mark.\<close>

theorem column_by_name:
  "get_col vals (col_idx descs n) =
     (if n \<in> set descs \<and> length (takeWhile (\<lambda>d. d \<noteq> n) descs) < length vals
      then vals ! length (takeWhile (\<lambda>d. d \<noteq> n) descs) else ''?'')"
proof -
  have "index_func (\<lambda>d. d = n) descs = (if n \<in> set descs then Some (length (takeWhile (\<lambda>d. d \<noteq> n) descs)) else None)"
    by (induction descs) auto
  then show ?thesis by (simp add: get_col_def col_idx_def)
qed

section \<open>Witnesses\<close>


lemma load_counts_all_witness:
  "\<exists>t. load_step (\<lambda>_ r. r = Refused (Sqlstate ''53300'')) \<lparr>max_conns = 30, mode = Prepared\<rparr> (run_load 30) t"
  using load_counts_all [of 0 "\<lambda>_ r. r = Refused (Sqlstate ''53300'')" "\<lparr>max_conns = 30, mode = Prepared\<rparr>" 30 "run_load 30" "Refused (Sqlstate ''53300'')"]
  by simp


lemma peak_is_largest_sample_witness:
  "sample_backends 400 0 0 [(10, Done, 12), (10, Refused Transport, 30), (10, Done, 20)] = 20 \<and>
   sample_backends 400 0 0 [(10, Done, 12), (10, Done, 20)] \<le> 20"
  using peak_is_largest_sample [of "[(10, Done, 12), (10, Done, 20)]" 20 400] by simp

end
