(* ===== verification/HotStandby.thy ===== *)
theory HotStandby
  imports GoStd
begin

text \<open>
  \<open>simulate_hot_standby/main.go\<close>: a primary whose WAL is streamed to a hot standby and archived in completed segments
  for a warm one, and point-in-time recovery from a base backup and the archive. A position is the number of WAL
  records before it; what the servers do while the program waits is a parameter of each wait.
\<close>

section \<open>WAL\<close>

datatype wal_record = Insert string nat | Truncate | Delete_all | Restore_point string

text \<open>The table, by the batch of each row.\<close>

fun apply_wal :: "wal_record \<Rightarrow> string list \<Rightarrow> string list" where
  "apply_wal (Insert b n) rows = rows @ replicate n b"
| "apply_wal Truncate rows = []"
| "apply_wal Delete_all rows = []"
| "apply_wal (Restore_point p) rows = rows"

definition replay :: "wal_record list \<Rightarrow> string list" where
  "replay w = foldl (\<lambda>rows r. apply_wal r rows) [] w"

record site =
  wal :: "wal_record list"
  switched :: nat         \<comment> \<open>the end of the last completed segment\<close>
  archived :: nat
  hot :: nat
  backup :: "nat option"

definition at_pos :: "nat \<Rightarrow> site \<Rightarrow> string list" where
  "at_pos p s = replay (take p (wal s))"

section \<open>Statements\<close>

definition log_wal :: "wal_record \<Rightarrow> site \<Rightarrow> site" where
  "log_wal r s = s\<lparr>wal := wal s @ [r]\<rparr>"

definition switch_wal :: "site \<Rightarrow> site" where
  "switch_wal s = s\<lparr>switched := length (wal s)\<rparr>"

definition base_backup :: "site \<Rightarrow> site" where
  "base_backup s = s\<lparr>backup := Some (length (wal s))\<rparr>"

text \<open>\<open>exec1\<close>, \<open>compose\<close> and \<open>must\<close>: an error is fatal.\<close>

definition exec1 :: "outcome \<Rightarrow> (site \<Rightarrow> site) \<Rightarrow> site \<Rightarrow> (db_error + unit) \<times> site" where
  "exec1 r f s = (case exec r f s of (Some e, s') \<Rightarrow> (Inl e, s') | (None, s') \<Rightarrow> (Inr (), s'))"

definition insert_batch :: "outcome \<Rightarrow> string \<Rightarrow> nat \<Rightarrow> site \<Rightarrow> (db_error + unit) \<times> site" where
  "insert_batch r b n = exec1 r (log_wal (Insert b n))"

section \<open>Waiting\<close>

text \<open>
  The position at which the hot standby is, or which is archived, at each attempt. The archiver takes completed segments
  only, the standby what there is.
\<close>

type_synonym attempts = "(nat \<times> outcome \<times> nat) list"

text \<open>\<open>count\<close>: an error is -1 rows.\<close>

definition count_rows :: "outcome \<Rightarrow> string list \<Rightarrow> int" where
  "count_rows r rows = (case query r rows of Inl e \<Rightarrow> -1 | Inr xs \<Rightarrow> int (length xs))"

definition wait_count :: "int \<Rightarrow> attempts \<Rightarrow> site \<Rightarrow> (db_error + unit) \<times> site" where
  "wait_count want attempts s =
     (case poll_until 90000 250 0 (map (\<lambda>(d, r, p). (d, count_rows r (at_pos p s) = want)) attempts) of
        None \<Rightarrow> (Inl Transport, s)
      | Some k \<Rightarrow> (Inr (), s\<lparr>hot := snd (snd (attempts ! k))\<rparr>))"

definition wait_archived :: "attempts \<Rightarrow> site \<Rightarrow> (db_error + unit) \<times> site" where
  "wait_archived attempts s =
     (case poll_until 90000 250 0 (map (\<lambda>(d, r, p). (d, err_of r = None \<and> length (wal s) \<le> min p (switched s))) attempts) of
        None \<Rightarrow> (Inl Transport, s)
      | Some k \<Rightarrow> (Inr (), s\<lparr>archived := min (snd (snd (attempts ! k))) (switched s)\<rparr>))"

text \<open>
  \<open>waitPromoted\<close>: per attempt its duration, the answers to the connection and the query, whether the server is still in
  recovery, and the answer to the pool that is then opened, whose error is fatal.
\<close>

type_synonym promotions = "(nat \<times> outcome \<times> outcome \<times> bool \<times> outcome) list"

definition wait_promoted :: "promotions \<Rightarrow> db_error + unit" where
  "wait_promoted attempts =
     (case poll_until 90000 250 0 (map (\<lambda>(d, rc, rq, recovering, ro). (d, err_of rc = None \<and> err_of rq = None \<and> \<not> recovering)) attempts) of
        None \<Rightarrow> Inl Transport
      | Some k \<Rightarrow> query (snd (snd (snd (snd (attempts ! k))))) ())"

section \<open>Recovery\<close>

text \<open>The promoted warm standby has replayed the archive.\<close>

definition promote_warm :: "site \<Rightarrow> string list" where
  "promote_warm s = at_pos (archived s) s"

text \<open>
  The recovered instance: the base backup, then the archive up to the first restore point of the name; without one the
  server gives up and the program waits in vain.
\<close>

definition pitr :: "string \<Rightarrow> site \<Rightarrow> string list option" where
  "pitr name s = (case backup s of
     None \<Rightarrow> None
   | Some b \<Rightarrow>
       (case index_func (\<lambda>r. r = Restore_point name) (drop b (take (archived s) (wal s))) of
          None \<Rightarrow> None
        | Some i \<Rightarrow> Some (at_pos (b + i) s)))"

text \<open>The recovered instance is up when it has found the point and left recovery.\<close>

definition yield :: "(site \<Rightarrow> 'a) \<Rightarrow> site \<Rightarrow> (db_error + 'a) \<times> site" where
  "yield f s = (Inr (f s), s)"

definition recover :: "string \<Rightarrow> promotions \<Rightarrow> site \<Rightarrow> (db_error + string list) \<times> site" where
  "recover name attempts s = (case pitr name s of
     None \<Rightarrow> (Inl Transport, s)
   | Some rows \<Rightarrow> (case wait_promoted attempts of Inl e \<Rightarrow> (Inl e, s) | Inr _ \<Rightarrow> (Inr rows, s)))"

text \<open>
  \<open>printBatches\<close>: the batches in the order of their first rows, with their sizes. Only the error of the query itself is
  fatal: \<open>arrived\<close> rows come before the stream ends or breaks, and the loop does not ask which (no \<open>rows.Err\<close>).
\<close>

definition print_batches :: "outcome \<Rightarrow> nat \<Rightarrow> string list \<Rightarrow> db_error + (string \<times> nat) list" where
  "print_batches r arrived rows =
     query r (take arrived (map (\<lambda>b. (b, count_list rows b)) (rev (remdups (rev rows)))))"

section \<open>The program\<close>

text \<open>
  \<open>main\<close>: the rows it counts on the hot and the promoted warm standby, later on the primary and the hot standby, and
  the count and the listed batches of the recovered instance. The statements have the answers \<open>env\<close>, the counts \<open>counted\<close>.
\<close>

definition demo_main :: "(nat \<Rightarrow> outcome) \<Rightarrow> (nat \<Rightarrow> outcome) \<Rightarrow> (nat \<Rightarrow> attempts) \<Rightarrow> (nat \<Rightarrow> promotions) \<Rightarrow> nat \<Rightarrow> site
    \<Rightarrow> (db_error + (int \<times> int) \<times> (int \<times> int) \<times> int \<times> (string \<times> nat) list) \<times> site" where
  "demo_main env counted waits proms arrived =
     bind_tx (exec1 (env 0) (log_wal Truncate)) (\<lambda>_.
     bind_tx (insert_batch (env 1) ''batch-1'' 100) (\<lambda>_.
     bind_tx (wait_count 100 (waits 0)) (\<lambda>_.
     bind_tx (exec1 (env 2) switch_wal) (\<lambda>_.
     bind_tx (wait_archived (waits 1)) (\<lambda>_.
     bind_tx (insert_batch (env 3) ''batch-2'' 50) (\<lambda>_.
     bind_tx (wait_count 150 (waits 2)) (\<lambda>_.
     bind_tx (exec1 (env 4) id) (\<lambda>_.
     bind_tx (\<lambda>s. (wait_promoted (proms 0), s)) (\<lambda>_.
     bind_tx (yield (\<lambda>s. (count_rows (counted 0) (at_pos (hot s) s), count_rows (counted 1) (promote_warm s)))) (\<lambda>lost.
     bind_tx (exec1 (env 5) base_backup) (\<lambda>_.
     bind_tx (insert_batch (env 6) ''after-backup'' 25) (\<lambda>_.
     bind_tx (exec1 (env 7) (log_wal (Restore_point ''before_disaster''))) (\<lambda>_.
     bind_tx (exec1 (env 8) (log_wal Delete_all)) (\<lambda>_.
     bind_tx (exec1 (env 9) switch_wal) (\<lambda>_.
     bind_tx (wait_archived (waits 3)) (\<lambda>_.
     bind_tx (wait_count 0 (waits 4)) (\<lambda>_.
     bind_tx (yield (\<lambda>s. (count_rows (counted 2) (replay (wal s)), count_rows (counted 3) (at_pos (hot s) s)))) (\<lambda>gone.
     bind_tx (exec1 (env 10) id) (\<lambda>_.
     bind_tx (recover ''before_disaster'' (proms 1)) (\<lambda>rows.
     bind_tx (\<lambda>s. (print_batches (env 11) arrived rows, s)) (\<lambda>batches.
     yield (\<lambda>_. (lost, gone, count_rows (counted 4) rows, batches)))))))))))))))))))))))"

section \<open>Lemmas\<close>

lemma replay_snoc [simp]: "replay (w @ [r]) = apply_wal r (replay w)"
  by (simp add: replay_def)

lemma exec1_Inr [tx_simps]: "exec1 r f s = (Inr u, s') \<longleftrightarrow> r = Done \<and> s' = f s"
  by (cases r) (auto simp: exec1_def exec_def)

lemma count_rows_nonneg: "0 \<le> n \<Longrightarrow> count_rows r rows = n \<longleftrightarrow> r = Done \<and> int (length rows) = n"
  by (cases r) (auto simp: count_rows_def query_simps)

lemma wait_count_Inr:
  assumes "wait_count want attempts s = (Inr u, s')" "0 \<le> want"
  shows "\<exists>p. s' = s\<lparr>hot := p\<rparr> \<and> int (length (at_pos p s)) = want"
proof -
  from assms(1) obtain k where k: "poll_until 90000 250 0 (map (\<lambda>(d, r, p). (d, count_rows r (at_pos p s) = want)) attempts) = Some k"
    "s' = s\<lparr>hot := snd (snd (attempts ! k))\<rparr>"
    by (auto simp: wait_count_def split: option.splits)
  from poll_until_Some [OF k(1)] k(2) show ?thesis by (auto simp: split_beta count_rows_nonneg [OF assms(2)])
qed

lemma wait_archived_Inr:
  assumes "wait_archived attempts s = (Inr u, s')"
  shows "\<exists>a. s' = s\<lparr>archived := a\<rparr> \<and> length (wal s) \<le> a \<and> a \<le> switched s"
proof -
  from assms obtain k where k: "poll_until 90000 250 0 (map (\<lambda>(d, r, p). (d, err_of r = None \<and> length (wal s) \<le> min p (switched s))) attempts) = Some k"
    "s' = s\<lparr>archived := min (snd (snd (attempts ! k))) (switched s)\<rparr>"
    by (auto simp: wait_archived_def split: option.splits)
  from poll_until_Some [OF k(1)] k(2) show ?thesis by (auto simp: split_beta)
qed

lemma recover_Inr: "recover name a s = (Inr rows, s') \<longleftrightarrow> pitr name s = Some rows \<and> wait_promoted a = Inr () \<and> s' = s"
  by (auto simp: recover_def split: option.splits sum.splits)

lemma remdups_replicate: "0 < n \<Longrightarrow> x \<notin> set ys \<Longrightarrow> remdups (replicate n x @ ys) = x # remdups ys"
proof (induction n)
  case (Suc n)
  then show ?case by (cases n) auto
qed simp

lemma count_list_replicate_eq: "count_list (replicate n x) y = (if x = y then n else 0)"
  by (induction n) auto

lemma three_batches:
  assumes "rows = replicate 100 ''batch-1'' @ replicate 50 ''batch-2'' @ replicate 25 ''after-backup''"
  shows "map (\<lambda>b. (b, count_list rows b)) (rev (remdups (rev rows))) = [(''batch-1'', 100), (''batch-2'', 50), (''after-backup'', 25)]"
proof -
  have "rev rows = replicate 25 ''after-backup'' @ replicate 50 ''batch-2'' @ replicate 100 ''batch-1'' @ []"
    by (simp add: assms)
  then have "rev (remdups (rev rows)) = [''batch-1'', ''batch-2'', ''after-backup'']"
    by (simp add: remdups_replicate del: append_Nil2)
  then show ?thesis by (simp add: assms count_list_replicate_eq)
qed

lemma index_func_append: "index_func p (xs @ ys) = (case index_func p xs of Some i \<Rightarrow> Some i | None \<Rightarrow> map_option (\<lambda>i. length xs + i) (index_func p ys))"
  by (induction xs; cases "index_func p ys") (auto split: option.splits)

lemma pitr_at_point:
  assumes "backup s = Some b" and "wal s = w @ Restore_point name # rest" and "b \<le> length w" and "length w < archived s"
    and "Restore_point name \<notin> set (drop b w)"
  shows "pitr name s = Some (replay w)"
proof -
  have "drop b (take (archived s) (wal s)) = drop b w @ Restore_point name # take (archived s - Suc (length w)) rest"
    using assms(3,4) by (simp add: assms(2) take_Cons' Suc_diff_Suc)
  moreover have "index_func (\<lambda>r. r = Restore_point name) (drop b w) = None"
    using assms(5) unfolding index_func_None by auto
  ultimately have "index_func (\<lambda>r. r = Restore_point name) (drop b (take (archived s) (wal s))) = Some (length w - b)"
    by (simp add: index_func_append)
  then show ?thesis using assms(1-3) by (simp add: pitr_def at_pos_def)
qed

section \<open>Properties\<close>

text \<open>Recovery to a restore point gives the table as it was when the point was made, whatever was logged after it, once
  the archive has the point and no earlier point of the name follows the backup.
\<close>

theorem pitr_restores_the_point:
  assumes "backup s = Some b" and "wal s = w @ Restore_point name # rest" and "b \<le> length w" and "length w < archived s"
    and "Restore_point name \<notin> set (drop b w)"
  shows "pitr name s = Some (replay w)"
  by (rule pitr_at_point [OF assms])

text \<open>A promoted warm standby has exactly what was archived: a batch in an unfinished segment is lost.\<close>

theorem warm_loses_open_segment:
  assumes "archived s \<le> length (wal s)" and "wal s = take (archived s) (wal s) @ [Insert b n]"
  shows "replay (wal s) = promote_warm s @ replicate n b"
  by (subst assms(2)) (simp add: promote_warm_def at_pos_def)

text \<open>C33: Whatever statements and waits take, a run of \<open>main\<close> that ends counts 150 and 100 rows on the standbys, none on the
  primary and the hot standby after the disaster, and 175 rows from before it on the recovered instance, where each count
  whose query fails prints as -1; it lists the three batches of these rows in their order, or only the first of them when the
  stream of the listing breaks off (the loop does not read \<open>rows.Err\<close>).\<close>

theorem demo_main_counts:
  assumes "demo_main env counted waits proms arrived s = (Inr (lost, gone, n, batches), s')"
  shows "lost = (if counted 0 = Done then 150 else -1, if counted 1 = Done then 100 else -1) \<and>
    gone = (if counted 2 = Done then 0 else -1, if counted 3 = Done then 0 else -1) \<and>
    n = (if counted 4 = Done then 175 else -1) \<and>
    batches = take arrived [(''batch-1'', 100), (''batch-2'', 50), (''after-backup'', 25)]"
proof -
  from assms obtain s1 s2 s3 s4 s5 rows where
    w1: "wait_count 100 (waits 0) (log_wal (Insert ''batch-1'' 100) (log_wal Truncate s)) = (Inr (), s1)"
    and a1: "wait_archived (waits 1) (switch_wal s1) = (Inr (), s2)"
    and w2: "wait_count 150 (waits 2) (log_wal (Insert ''batch-2'' 50) s2) = (Inr (), s3)"
    and lost: "lost = (count_rows (counted 0) (at_pos (hot s3) s3), count_rows (counted 1) (promote_warm s3))"
    and a2: "wait_archived (waits 3) (switch_wal (log_wal Delete_all (log_wal (Restore_point ''before_disaster'')
        (log_wal (Insert ''after-backup'' 25) (base_backup s3))))) = (Inr (), s4)"
    and w3: "wait_count 0 (waits 4) s4 = (Inr (), s5)"
    and gone: "gone = (count_rows (counted 2) (replay (wal s5)), count_rows (counted 3) (at_pos (hot s5) s5))"
    and rec: "pitr ''before_disaster'' s5 = Some rows"
    and n: "n = count_rows (counted 4) rows" and b: "print_batches (env 11) arrived rows = Inr batches"
    by (auto simp: demo_main_def insert_batch_def tx_simps yield_def recover_Inr)
  let ?w1 = "wal s @ [Truncate, Insert ''batch-1'' 100]"
  let ?w2 = "?w1 @ [Insert ''batch-2'' 50]"
  have r1: "replay ?w1 = replicate 100 ''batch-1''"
    using replay_snoc [of "wal s @ [Truncate]" "Insert ''batch-1'' 100"] by simp
  have r2: "replay ?w2 = replicate 100 ''batch-1'' @ replicate 50 ''batch-2''"
    using replay_snoc [of ?w1 "Insert ''batch-2'' 50"] r1 by simp
  from wait_count_Inr [OF w1] have s1: "wal s1 = ?w1" by (auto simp: log_wal_def)
  from wait_archived_Inr [OF a1] s1 have s2: "wal s2 = ?w1" "archived s2 = length ?w1" by (auto simp: switch_wal_def)
  from wait_count_Inr [OF w2] s2 obtain p where s3: "wal s3 = ?w2" "archived s3 = length ?w1" "hot s3 = p" "int (length (at_pos p s3)) = 150"
    by (auto simp: log_wal_def at_pos_def)
  let ?w3 = "?w2 @ [Insert ''after-backup'' 25]"
  have r3: "replay ?w3 = replicate 100 ''batch-1'' @ replicate 50 ''batch-2'' @ replicate 25 ''after-backup''"
    using replay_snoc [of ?w2 "Insert ''after-backup'' 25"] r2 by simp
  from wait_archived_Inr [OF a2] s3(1) have s4: "wal s4 = ?w3 @ [Restore_point ''before_disaster'', Delete_all]"
    "archived s4 = length (wal s4)" "backup s4 = Some (length ?w2)"
    by (auto simp: log_wal_def switch_wal_def base_backup_def)
  from wait_count_Inr [OF w3] s4 obtain q where s5: "wal s5 = ?w3 @ Restore_point ''before_disaster'' # [Delete_all]"
    "archived s5 = length (wal s5)" "backup s5 = Some (length ?w2)" "hot s5 = q" "length (at_pos q s5) = 0"
    by (auto simp: at_pos_def)
  have count: "count_rows r xs = (if r = Done then int (length xs) else -1)" for r xs
    by (cases r) (simp_all add: count_rows_def query_simps)
  have "take (length ?w1) (wal s3) = ?w1" by (simp add: s3(1))
  then have "promote_warm s3 = replicate 100 ''batch-1''" using s3(2) r1 by (simp add: promote_warm_def at_pos_def)
  then have lost': "lost = (if counted 0 = Done then 150 else -1, if counted 1 = Done then 100 else -1)"
    using s3(3,4) unfolding lost count by simp
  have "replay (wal s5) = []"
    using replay_snoc [of "?w3 @ [Restore_point ''before_disaster'']" Delete_all] by (simp add: s5(1))
  then have gone': "gone = (if counted 2 = Done then 0 else -1, if counted 3 = Done then 0 else -1)"
    using s5(4,5) unfolding gone count by simp
  have "pitr ''before_disaster'' s5 = Some (replay ?w3)"
    by (rule pitr_at_point [OF s5(3,1)]) (use s5(1,2) in simp_all)
  then have rows: "rows = replicate 100 ''batch-1'' @ replicate 50 ''batch-2'' @ replicate 25 ''after-backup''" using rec r3 by simp
  from b have "batches = take arrived [(''batch-1'', 100), (''batch-2'', 50), (''after-backup'', 25)]"
    unfolding print_batches_def query_Inr three_batches [OF rows] by simp
  moreover have "n = (if counted 4 = Done then 175 else -1)" unfolding n count rows by simp
  ultimately show ?thesis using lost' gone' by blast
qed

lemma pitr_restores_the_point_witness:
  "pitr ''p'' \<lparr>wal = [Insert ''a'' 2, Insert ''b'' 1, Restore_point ''p'', Delete_all], switched = 4, archived = 4, hot = 4, backup = Some 1\<rparr>
   = Some [''a'', ''a'', ''b'']"
  by (subst pitr_restores_the_point [where w = "[Insert ''a'' 2, Insert ''b'' 1]" and rest = "[Delete_all]" and b = 1])
    (simp_all add: replay_def numeral_2_eq_2)

lemma warm_loses_open_segment_witness:
  "[''a'', ''b''] = promote_warm \<lparr>wal = [Insert ''a'' 1, Insert ''b'' 1], switched = 1, archived = 1, hot = 2, backup = None\<rparr> @ replicate 1 ''b''"
  using warm_loses_open_segment [of "\<lparr>wal = [Insert ''a'' 1, Insert ''b'' 1], switched = 1, archived = 1, hot = 2, backup = None\<rparr>" "''b''" 1]
  by (simp add: replay_def)

definition empty_site :: site where
  "empty_site = \<lparr>wal = [], switched = 0, archived = 0, hot = 0, backup = None\<rparr>"

definition calm_waits :: "nat \<Rightarrow> attempts" where
  "calm_waits k = [(10, Done, [2, 2, 3, 6, 6] ! k)]"

definition calm_proms :: "nat \<Rightarrow> promotions" where
  "calm_proms k = [(10, Refused Transport, Done, False, Done), (10, Done, Done, True, Done), (10, Done, Done, False, Done)]"

lemma demo_main_ends:
  "\<exists>lost gone n batches s'. demo_main (\<lambda>_. Done) (\<lambda>_. Done) calm_waits calm_proms 3 empty_site = (Inr (lost, gone, n, batches), s')"
  by (simp add: demo_main_def insert_batch_def bind_tx_def exec1_def exec_def wait_count_def wait_archived_def yield_def
      recover_def pitr_def log_wal_def switch_wal_def base_backup_def promote_warm_def at_pos_def replay_def empty_site_def
      calm_waits_def calm_proms_def wait_promoted_def count_rows_def print_batches_def query_simps)

lemma demo_main_counts_witness:
  "\<exists>s'. demo_main (\<lambda>_. Done) (\<lambda>_. Done) calm_waits calm_proms 3 empty_site =
    (Inr ((150, 100), (0, 0), 175, [(''batch-1'', 100), (''batch-2'', 50), (''after-backup'', 25)]), s')"
proof -
  from demo_main_ends obtain lost gone n batches s' where
    r: "demo_main (\<lambda>_. Done) (\<lambda>_. Done) calm_waits calm_proms 3 empty_site = (Inr (lost, gone, n, batches), s')" by blast
  from demo_main_counts [OF this] r show ?thesis by auto
qed

end
