(* ===== verification/SyncReplication.thy ===== *)
theory SyncReplication
  imports GoStd
begin

text \<open>
  \<open>simulate_sync_async_replication/main.go\<close>: a primary and two standbys, the setting that says which standbys a commit waits
  for, the level that says how far it waits, and what a commit that returned has promised. The id of a ledger row
  is its position in the WAL, from 1; replication is a step relation.
\<close>

section \<open>Settings\<close>

datatype standby_names = Nobody | First nat "string list" | Any nat "string list"

text \<open>The values the program sets, and the state that \<open>setStandbyNames\<close> waits for.\<close>

fun join_names :: "string list \<Rightarrow> string" where
  "join_names [] = []"
| "join_names [x] = x"
| "join_names (x # y # xs) = x @ '', '' @ join_names (y # xs)"

definition names_text :: "standby_names \<Rightarrow> string" where
  "names_text v = (case v of
     Nobody \<Rightarrow> ''''
   | First k xs \<Rightarrow> ''FIRST '' @ dec k @ '' ('' @ join_names xs @ '')''
   | Any k xs \<Rightarrow> ''ANY '' @ dec k @ '' ('' @ join_names xs @ '')'')"

definition wanted_state :: "string \<Rightarrow> string" where
  "wanted_state value =
     (if has_prefix value ''FIRST'' then ''sync'' else if has_prefix value ''ANY'' then ''quorum'' else ''async'')"

datatype level = Local | Remote_Write | On | Remote_Apply

section \<open>The cluster\<close>

record standby =
  online :: bool
  received :: nat
  flushed :: nat
  replayed :: nat
  paused :: bool

record cluster =
  ledger :: "string list"
  names :: standby_names
  standbys :: "string \<Rightarrow> standby"
  uncommitted :: "(nat \<times> level) list"      \<comment> \<open>commits that wait: written and flushed on the primary\<close>
  returned :: "(nat \<times> level \<times> bool) list"   \<comment> \<open>commits that returned; the flag is false for a cancelled wait\<close>

text \<open>\<open>sync_state\<close> of a connected standby in \<open>pg_stat_replication\<close>.\<close>

definition candidates :: "string list \<Rightarrow> cluster \<Rightarrow> string list" where
  "candidates xs c = filter (\<lambda>x. online (standbys c x)) xs"

definition sync_state :: "cluster \<Rightarrow> string \<Rightarrow> string" where
  "sync_state c x = (case names c of
     Nobody \<Rightarrow> ''async''
   | First k xs \<Rightarrow> if x \<in> set (take k (candidates xs c)) then ''sync'' else if x \<in> set xs then ''potential'' else ''async''
   | Any k xs \<Rightarrow> if x \<in> set xs then ''quorum'' else ''async'')"

definition print_replication :: "string list \<Rightarrow> cluster \<Rightarrow> (string \<times> string) list" where
  "print_replication xs c = map (\<lambda>x. (x, sync_state c x)) (candidates xs c)"

text \<open>
  What PostgreSQL documents of \<open>synchronous_commit\<close> and \<open>synchronous_standby_names\<close>: how far a standby has acknowledged a
  commit, and when its wait is over. When a commit returns is the server's decision, a parameter (\<open>may\<close>) of the operations;
  \<open>documented\<close> is the hypothesis on it.
\<close>

definition acked :: "level \<Rightarrow> nat \<Rightarrow> standby \<Rightarrow> bool" where
  "acked l i s = (case l of
     Local \<Rightarrow> True
   | Remote_Write \<Rightarrow> i \<le> received s
   | On \<Rightarrow> i \<le> flushed s
   | Remote_Apply \<Rightarrow> i \<le> replayed s)"

definition may_return :: "level \<Rightarrow> nat \<Rightarrow> cluster \<Rightarrow> bool" where
  "may_return l i c = (l = Local \<or> (case names c of
     Nobody \<Rightarrow> True
   | First k xs \<Rightarrow> k \<le> length (candidates xs c) \<and> list_all (\<lambda>x. acked l i (standbys c x)) (take k (candidates xs c))
   | Any k xs \<Rightarrow> k \<le> length (filter (\<lambda>x. acked l i (standbys c x)) (candidates xs c))))"


section \<open>Operations of the program\<close>

text \<open>The INSERT of \<open>insert\<close> and \<open>blockedCommit\<close> up to the wait of the commit, under the setting of its transaction.\<close>

definition insert_row :: "level \<Rightarrow> string \<Rightarrow> cluster \<Rightarrow> nat \<times> cluster" where
  "insert_row l msg c =
     (let i = Suc (length (ledger c)) in (i, c\<lparr>ledger := ledger c @ [msg], uncommitted := uncommitted c @ [(i, l)]\<rparr>))"

definition commit_returns :: "nat \<Rightarrow> level \<Rightarrow> cluster \<Rightarrow> cluster" where
  "commit_returns i l c = c\<lparr>uncommitted := remove1 (i, l) (uncommitted c), returned := returned c @ [(i, l, True)]\<rparr>"

text \<open>\<open>pg_cancel_backend\<close>: the client gets its id with a warning.\<close>

definition cancel_wait :: "nat \<Rightarrow> level \<Rightarrow> cluster \<Rightarrow> cluster" where
  "cancel_wait i l c = c\<lparr>uncommitted := remove1 (i, l) (uncommitted c), returned := returned c @ [(i, l, False)]\<rparr>"

definition on_standby :: "string \<Rightarrow> (standby \<Rightarrow> standby) \<Rightarrow> cluster \<Rightarrow> cluster" where
  "on_standby x f c = c\<lparr>standbys := (standbys c)(x := f (standbys c x))\<rparr>"

definition pause_replay :: "string \<Rightarrow> cluster \<Rightarrow> cluster" where
  "pause_replay x = on_standby x (\<lambda>s. s\<lparr>paused := True\<rparr>)"

definition resume_replay :: "string \<Rightarrow> cluster \<Rightarrow> cluster" where
  "resume_replay x = on_standby x (\<lambda>s. s\<lparr>paused := False\<rparr>)"

definition set_names :: "standby_names \<Rightarrow> cluster \<Rightarrow> cluster" where
  "set_names v c = c\<lparr>names := v\<rparr>"

text \<open>\<open>exec\<close>: an error is fatal. \<open>pauseReplay\<close> and \<open>resumeReplay\<close> are one such statement.\<close>

definition exec_stmt :: "outcome \<Rightarrow> (cluster \<Rightarrow> cluster) \<Rightarrow> cluster \<Rightarrow> unit option \<times> cluster" where
  "exec_stmt r f c = (if err_of r = None then Some () else None, if applied r then f c else c)"

definition pause_cmd :: "outcome \<Rightarrow> string \<Rightarrow> cluster \<Rightarrow> unit option \<times> cluster" where
  "pause_cmd r x = exec_stmt r (pause_replay x)"

definition resume_cmd :: "outcome \<Rightarrow> string \<Rightarrow> cluster \<Rightarrow> unit option \<times> cluster" where
  "resume_cmd r x = exec_stmt r (resume_replay x)"

text \<open>\<open>reset\<close>: four statements whose errors are ignored. The new configuration is read on the reload only.\<close>

definition reset :: "(nat \<Rightarrow> outcome) \<Rightarrow> cluster \<Rightarrow> cluster" where
  "reset env c =
     (let c1 = (if applied (env 0) \<and> applied (env 1) then set_names Nobody c else c);
          c2 = (if applied (env 2) then resume_replay ''s1'' c1 else c1)
      in if applied (env 3) then resume_replay ''s2'' c2 else c2)"

text \<open>\<open>has\<close> on the primary and on a standby.\<close>

definition has_primary :: "cluster \<Rightarrow> nat \<Rightarrow> bool" where
  "has_primary c i \<longleftrightarrow> 1 \<le> i \<and> i \<le> length (ledger c)"

definition has_standby :: "cluster \<Rightarrow> string \<Rightarrow> nat \<Rightarrow> bool" where
  "has_standby c x i \<longleftrightarrow> 1 \<le> i \<and> i \<le> replayed (standbys c x)"

text \<open>
  \<open>setStandbyNames\<close>: two statements whose errors are fatal, then a wait of 15 seconds. The attempts say how long each query
  takes, whether it is answered, and whether the reload has taken effect.
\<close>

definition state_count :: "string list \<Rightarrow> string \<Rightarrow> cluster \<Rightarrow> nat" where
  "state_count xs want c = length (filter (\<lambda>x. sync_state c x = want) (candidates xs c))"

definition set_standby_names :: "outcome \<Rightarrow> outcome \<Rightarrow> (nat \<times> outcome \<times> bool) list \<Rightarrow> string list \<Rightarrow> standby_names \<Rightarrow> cluster \<Rightarrow> cluster option" where
  "set_standby_names ra rr attempts xs v c =
     (if err_of ra \<noteq> None \<or> err_of rr \<noteq> None then None
      else
        let after = (\<lambda>loaded. if loaded then set_names v c else c);
            seen = (\<lambda>(d, r, loaded). (d, err_of r = None \<and> 0 < state_count xs (wanted_state (names_text v)) (after loaded))) in
        (case poll_until 15000 200 0 (map seen attempts) of
           None \<Rightarrow> None
         | Some k \<Rightarrow> Some (after (snd (snd (attempts ! k))))))"

text \<open>\<open>has\<close> drops the error of its query and then answers no.\<close>

definition has_answer :: "outcome \<Rightarrow> bool \<Rightarrow> bool" where
  "has_answer r b = (case query r b of Inl e \<Rightarrow> False | Inr x \<Rightarrow> x)"

text \<open>
  A commit as the client sees it: \<open>wait\<close> is what happens in the cluster until the wait of the commit is over or the client
  looks again. \<open>Stopped\<close> is fatal, \<open>Failed\<close> an error that is printed, \<open>Hangs\<close> a commit that still waits.
\<close>

datatype commit_result = Stopped | Failed | Hangs | Returned nat | Cancelled nat

definition await_commit :: "(level \<Rightarrow> nat \<Rightarrow> cluster \<Rightarrow> bool) \<Rightarrow> (cluster \<Rightarrow> cluster) \<Rightarrow> nat \<Rightarrow> level \<Rightarrow> cluster \<Rightarrow> commit_result \<times> cluster" where
  "await_commit may wait i l c =
     (let c2 = wait c in if may l i c2 then (Returned i, commit_returns i l c2) else (Hangs, c2))"





text \<open>
  \<open>blockedCommit\<close>: connect, SET, and an autocommitted INSERT; two seconds later, after \<open>wait\<close>, the backend is cancelled
  with an outcome that nobody looks at. What is cancelled is the wait: the server answers with the id and a warning.
\<close>

definition blocked_commit :: "(level \<Rightarrow> nat \<Rightarrow> cluster \<Rightarrow> bool) \<Rightarrow> (nat \<Rightarrow> outcome) \<Rightarrow> outcome \<Rightarrow> (cluster \<Rightarrow> cluster) \<Rightarrow> level \<Rightarrow> cluster \<Rightarrow> commit_result \<times> cluster" where
  "blocked_commit may env cancel wait l c =
     (if err_of (env 0) \<noteq> None \<or> err_of (env 1) \<noteq> None then (Stopped, c)
      else if \<not> applied (env 2) then (Failed, c)
      else case insert_row l ''blocked commit'' c of (i, c1) \<Rightarrow>
        if err_of (env 2) \<noteq> None then (Failed, c1)
        else case await_commit may wait i l c1 of
            (Hangs, c2) \<Rightarrow> (if applied cancel then (Cancelled i, cancel_wait i l c2) else (Hangs, c2))
          | (r, c2) \<Rightarrow> (r, c2))"

text \<open>\<open>benchmark\<close>: the rows it inserts one by one; the first error is fatal.\<close>

fun bench_loop :: "(level \<Rightarrow> nat \<Rightarrow> cluster \<Rightarrow> bool) \<Rightarrow> (nat \<Rightarrow> outcome) \<Rightarrow> (nat \<Rightarrow> cluster \<Rightarrow> cluster) \<Rightarrow> level \<Rightarrow> nat \<Rightarrow> nat \<Rightarrow> cluster \<Rightarrow> commit_result \<times> cluster" where
  "bench_loop may env wait l 0 i c = (Returned i, c)"
| "bench_loop may env wait l (Suc left) i c =
     (if \<not> applied (env i) then (Stopped, c)
      else case insert_row l ''bench'' c of (k, c1) \<Rightarrow>
        if err_of (env i) \<noteq> None then (Stopped, c1)
        else case await_commit may (wait i) k l c1 of
            (Returned _, c2) \<Rightarrow> bench_loop may env wait l left (Suc i) c2
          | (r, c2) \<Rightarrow> (r, c2))"

definition benchmark :: "(level \<Rightarrow> nat \<Rightarrow> cluster \<Rightarrow> bool) \<Rightarrow> outcome \<Rightarrow> outcome \<Rightarrow> (nat \<Rightarrow> outcome) \<Rightarrow> (nat \<Rightarrow> cluster \<Rightarrow> cluster) \<Rightarrow> level \<Rightarrow> cluster \<Rightarrow> commit_result \<times> cluster" where
  "benchmark may ra rs env wait l c =
     (if err_of ra \<noteq> None \<or> err_of rs \<noteq> None then (Stopped, c) else bench_loop may env wait l 200 0 c)"

section \<open>Replication\<close>

inductive repl_step :: "cluster \<Rightarrow> cluster \<Rightarrow> bool" where
  inserted: "repl_step c (snd (insert_row l msg c))"
| returned: "(i, l) \<in> set (uncommitted c) \<Longrightarrow> may_return l i c \<Longrightarrow> repl_step c (commit_returns i l c)"
| cancelled: "(i, l) \<in> set (uncommitted c) \<Longrightarrow> repl_step c (cancel_wait i l c)"
| received: "online (standbys c x) \<Longrightarrow> received (standbys c x) \<le> n \<Longrightarrow> n \<le> length (ledger c) \<Longrightarrow>
    repl_step c (on_standby x (\<lambda>s. s\<lparr>received := n\<rparr>) c)"
| flushed: "flushed (standbys c x) \<le> n \<Longrightarrow> n \<le> received (standbys c x) \<Longrightarrow> repl_step c (on_standby x (\<lambda>s. s\<lparr>flushed := n\<rparr>) c)"
| replayed: "\<not> paused (standbys c x) \<Longrightarrow> replayed (standbys c x) \<le> n \<Longrightarrow> n \<le> flushed (standbys c x) \<Longrightarrow>
    repl_step c (on_standby x (\<lambda>s. s\<lparr>replayed := n\<rparr>) c)"
| paused: "repl_step c (pause_replay x c)"
| resumed: "repl_step c (resume_replay x c)"
| connected: "repl_step c (on_standby x (\<lambda>s. s\<lparr>online := b\<rparr>) c)"
| renamed: "repl_step c (set_names v c)"

definition started :: "cluster" where
  "started = \<lparr>ledger = [], names = Nobody, standbys = (\<lambda>_. \<lparr>online = True, received = 0, flushed = 0, replayed = 0, paused = False\<rparr>),
     uncommitted = [], returned = []\<rparr>"

section \<open>Invariants\<close>

definition repl_ok :: "cluster \<Rightarrow> bool" where
  "repl_ok c \<longleftrightarrow>
     (\<forall>x. replayed (standbys c x) \<le> flushed (standbys c x) \<and> flushed (standbys c x) \<le> received (standbys c x) \<and>
        received (standbys c x) \<le> length (ledger c)) \<and>
     (\<forall>(i, l) \<in> set (uncommitted c). has_primary c i) \<and> (\<forall>(i, l, b) \<in> set (returned c). has_primary c i)"

lemma repl_step_ok: "repl_step c d \<Longrightarrow> repl_ok c \<Longrightarrow> repl_ok d"
proof (induction rule: repl_step.induct)
  case (inserted c l msg)
  then show ?case by (auto simp: repl_ok_def insert_row_def Let_def has_primary_def intro: le_SucI)
next
  case (returned i l c)
  then show ?case by (auto simp: repl_ok_def commit_returns_def has_primary_def dest: notin_set_remove1)
next
  case (cancelled i l c)
  then show ?case by (auto simp: repl_ok_def cancel_wait_def has_primary_def dest: notin_set_remove1)
qed (auto simp: repl_ok_def on_standby_def pause_replay_def resume_replay_def set_names_def has_primary_def intro: le_trans)

definition repl_reachable :: "cluster \<Rightarrow> bool" where
  "repl_reachable c \<longleftrightarrow> repl_step\<^sup>*\<^sup>* started c"

lemma reachable_repl_ok: "repl_reachable c \<Longrightarrow> repl_ok c"
  unfolding repl_reachable_def
proof (induction rule: rtranclp_induct)
  case base
  show ?case by (simp add: repl_ok_def started_def)
next
  case (step c d)
  then show ?case by (blast intro: repl_step_ok)
qed




text \<open>The primary never loses a row.\<close>

lemma repl_step_ledger: "repl_step c d \<Longrightarrow> \<exists>zs. ledger d = ledger c @ zs"
  by (induction rule: repl_step.induct)
    (auto simp: insert_row_def Let_def commit_returns_def cancel_wait_def on_standby_def pause_replay_def resume_replay_def set_names_def)

lemma repl_steps_ledger: "repl_step\<^sup>*\<^sup>* c d \<Longrightarrow> \<exists>zs. ledger d = ledger c @ zs"
proof (induction rule: rtranclp_induct)
  case (step d e)
  from step.IH repl_step_ledger [OF step.hyps(2)] show ?case by auto
qed simp


section \<open>What a commit promises\<close>




text \<open>Cancelling the wait does not cancel the commit: whatever \<open>blockedCommit\<close> reports, the ledger has the row when it reports
  an id, and keeps it; when the statement was refused the ledger is as before.\<close>

theorem cancelled_commit_stays:
  assumes "\<And>c. repl_step\<^sup>*\<^sup>* c (wait c)" and "blocked_commit may env cancel wait l c = (r, d)" and "repl_step\<^sup>*\<^sup>* d e"
  shows "case r of Cancelled i \<Rightarrow> ledger e ! (i - 1) = ''blocked commit'' \<and> has_primary e i
    | Returned i \<Rightarrow> ledger e ! (i - 1) = ''blocked commit'' \<and> has_primary e i
    | Stopped \<Rightarrow> d = c
    | _ \<Rightarrow> True"
proof -
  have row: "ledger e ! (i - 1) = ''blocked commit'' \<and> has_primary e i"
    if i: "insert_row l ''blocked commit'' c = (i, c1)" and d: "ledger d = ledger (wait c1)" for i c1
  proof -
    obtain zs where "ledger d = ledger c1 @ zs" using repl_steps_ledger [OF assms(1), of c1] d by auto
    then obtain ys where "ledger e = ledger c1 @ ys" using repl_steps_ledger [OF assms(3)] by auto
    with i show ?thesis by (auto simp: insert_row_def Let_def has_primary_def nth_append)
  qed
  from assms(2) show ?thesis
    by (auto simp: blocked_commit_def await_commit_def Let_def commit_returns_def cancel_wait_def row [simplified]
        split: if_splits prod.splits commit_result.splits)
qed

text \<open>A benchmark that ends has added its 200 rows, when nobody else writes.\<close>

theorem benchmark_adds_rows:
  assumes "\<And>i c. ledger (wait i c) = ledger c" and "benchmark may ra rs env wait l c = (Returned n, d)"
  shows "n = 200 \<and> ledger d = ledger c @ replicate 200 ''bench''"
proof -
  have "n = i + left \<and> ledger d = ledger c @ replicate left ''bench''" if "bench_loop may env wait l left i c = (Returned n, d)" for left i c
    using that
  proof (induction left arbitrary: i c)
    case (Suc left)
    from Suc.prems obtain k c1 where i: "insert_row l ''bench'' c = (k, c1)"
      and b: "bench_loop may env wait l left (Suc i) (commit_returns k l (wait i c1)) = (Returned n, d)"
      by (auto simp: await_commit_def Let_def split: if_splits prod.splits)
    have "ledger (commit_returns k l (wait i c1)) = ledger c1" by (simp add: commit_returns_def assms(1))
    with Suc.IH [OF b] i show ?case by (auto simp: insert_row_def Let_def)
  qed simp
  from this [of 200 0 c] assms(2) show ?thesis by (simp add: benchmark_def split: if_splits)
qed

text \<open>A commit with \<open>remote_apply\<close> cannot return as long as the priority standby is connected but does not replay; its row is on
  the primary all the time, also after the client has given up.
\<close>

theorem stalled_standby_blocks_commit:
  assumes "repl_reachable c" and "names c = First 1 (x # xs)" and "online (standbys c x)" and "paused (standbys c x)"
    and "insert_row Remote_Apply msg c = (i, c1)"
    and "(\<lambda>a b. repl_step a b \<and> names b = names c \<and> online (standbys b x) \<and> paused (standbys b x))\<^sup>*\<^sup>* c1 d"
  shows "\<not> may_return Remote_Apply i d \<and> has_primary d i"
proof -
  have i: "i = Suc (length (ledger c))" "standbys c1 = standbys c" "names c1 = names c" "length (ledger c1) = i"
    using assms(5) by (auto simp: insert_row_def Let_def)
  have old: "replayed (standbys c x) < i"
    using reachable_repl_ok [OF assms(1)] unfolding repl_ok_def i(1) by (meson le_imp_less_Suc le_trans)
  have "replayed (standbys d x) < i \<and> online (standbys d x) \<and> paused (standbys d x) \<and> names d = names c \<and> i \<le> length (ledger d)"
    using assms(6)
  proof (induction rule: rtranclp_induct)
    case base
    show ?case using old i assms(3,4) by simp
  next
    case (step a b)
    from step.hyps(2) have ab: "repl_step a b" by simp
    from ab step.IH have "replayed (standbys b x) = replayed (standbys a x)"
      by cases (auto simp: insert_row_def Let_def commit_returns_def cancel_wait_def on_standby_def pause_replay_def resume_replay_def set_names_def)
    moreover from ab have "length (ledger a) \<le> length (ledger b)"
      by cases (auto simp: insert_row_def Let_def commit_returns_def cancel_wait_def on_standby_def pause_replay_def resume_replay_def set_names_def)
    ultimately show ?case using step by auto
  qed
  then show ?thesis using assms(2) i(1) by (simp add: may_return_def candidates_def acked_def has_primary_def)
qed

text \<open>Under a quorum of one, a commit can return although the other standby is stalled or gone.\<close>

theorem quorum_tolerates_stall:
  assumes "repl_reachable c" and "names c = Any 1 xs" and "y \<in> set xs" and "online (standbys c y)" and "\<not> paused (standbys c y)"
    and "(i, Remote_Apply) \<in> set (uncommitted c)"
  shows "\<exists>d. repl_step\<^sup>*\<^sup>* c d \<and> (i, Remote_Apply, True) \<in> set (returned d) \<and> has_standby d y i \<and>
    (\<forall>x. x \<noteq> y \<longrightarrow> standbys d x = standbys c x)"
proof -
  note inv = reachable_repl_ok [OF assms(1)]
  let ?n = "length (ledger c)"
  let ?c1 = "on_standby y (\<lambda>s. s\<lparr>received := ?n\<rparr>) c"
  let ?c2 = "on_standby y (\<lambda>s. s\<lparr>flushed := ?n\<rparr>) ?c1"
  let ?c3 = "on_standby y (\<lambda>s. s\<lparr>replayed := ?n\<rparr>) ?c2"
  let ?d = "commit_returns i Remote_Apply ?c3"
  have pos: "replayed (standbys c y) \<le> ?n" "flushed (standbys c y) \<le> ?n" "received (standbys c y) \<le> ?n"
    using inv unfolding repl_ok_def by (meson le_trans)+
  have i: "1 \<le> i" "i \<le> ?n" using inv assms(6) by (auto simp: repl_ok_def has_primary_def)
  have "repl_step c ?c1" by (rule repl_step.received) (use assms(4) pos in auto)
  moreover have "repl_step ?c1 ?c2" by (rule repl_step.flushed) (use pos in \<open>auto simp: on_standby_def\<close>)
  moreover have "repl_step ?c2 ?c3" by (rule repl_step.replayed) (use assms(5) pos in \<open>auto simp: on_standby_def\<close>)
  moreover have "may_return Remote_Apply i ?c3"
  proof -
    have "y \<in> set (filter (\<lambda>x. acked Remote_Apply i (standbys ?c3 x)) (candidates xs ?c3))"
      using assms(3,4) i by (simp add: candidates_def acked_def on_standby_def)
    then have "1 \<le> length (filter (\<lambda>x. acked Remote_Apply i (standbys ?c3 x)) (candidates xs ?c3))"
      by (cases "filter (\<lambda>x. acked Remote_Apply i (standbys ?c3 x)) (candidates xs ?c3)") auto
    then show ?thesis using assms(2) by (simp add: may_return_def on_standby_def)
  qed
  then have "repl_step ?c3 ?d" by (rule repl_step.returned [rotated]) (use assms(6) in \<open>simp add: on_standby_def\<close>)
  ultimately have "repl_step\<^sup>*\<^sup>* c ?d" by (meson converse_rtranclp_into_rtranclp rtranclp.rtrancl_refl)
  then show ?thesis using i by (intro exI [of _ ?d]) (simp add: commit_returns_def on_standby_def has_standby_def)
qed

text \<open>Without synchronous standbys a commit returns at once, and a paused standby serves a stale answer.\<close>

theorem async_commit_reads_stale:
  assumes "repl_reachable c" and "names c = Nobody" and "insert_row l msg c = (i, c1)"
  shows "may_return l i c1 \<and> has_primary c1 i \<and> (\<forall>x. \<not> has_standby c1 x i)"
proof -
  have "replayed (standbys c x) < Suc (length (ledger c))" for x
    using reachable_repl_ok [OF assms(1)] unfolding repl_ok_def by (meson le_imp_less_Suc le_trans)
  with assms(2,3) show ?thesis
    by (auto simp: insert_row_def Let_def may_return_def has_primary_def has_standby_def not_le)
qed

section \<open>Changing the setting\<close>

lemma wanted_state_kind:
  "wanted_state (names_text v) = (case v of Nobody \<Rightarrow> ''async'' | First k xs \<Rightarrow> ''sync'' | Any k xs \<Rightarrow> ''quorum'')"
  by (cases v) (simp_all add: wanted_state_def names_text_def)

text \<open>\<open>setStandbyNames\<close> returns only when a connected standby shows the wanted state; from an asynchronous cluster to a synchronous setting that means that the setting is in force.\<close>

theorem set_standby_names_waits:
  assumes "set_standby_names ra rr attempts xs v c = Some d"
  shows "(d = c \<or> d = set_names v c) \<and>
    (\<exists>x \<in> set (candidates xs d). sync_state d x = (case v of Nobody \<Rightarrow> ''async'' | First k ys \<Rightarrow> ''sync'' | Any k ys \<Rightarrow> ''quorum'')) \<and>
    (names c = Nobody \<and> v \<noteq> Nobody \<longrightarrow> names d = v)"
proof -
  let ?after = "\<lambda>loaded. if loaded then set_names v c else c"
  let ?seen = "\<lambda>(d, r, loaded). (d :: nat, err_of r = None \<and> 0 < state_count xs (wanted_state (names_text v)) (?after loaded))"
  from assms obtain k where k: "poll_until 15000 200 0 (map ?seen attempts) = Some k" and d: "d = ?after (snd (snd (attempts ! k)))"
    by (auto simp: set_standby_names_def Let_def split: if_splits option.splits)
  from poll_until_Some [OF k] have "0 < state_count xs (wanted_state (names_text v)) d"
    by (auto simp: d split_beta)
  then obtain x where x: "x \<in> set (candidates xs d)" "sync_state d x = wanted_state (names_text v)"
    by (auto simp: state_count_def filter_empty_conv)
  have "d = c \<or> d = set_names v c" by (simp add: d)
  moreover have "names d = v" if "names c = Nobody" "v \<noteq> Nobody"
  proof (rule ccontr)
    assume "names d \<noteq> v"
    then have "d = c" using d by (auto simp: set_names_def split: if_splits)
    with that(1) have "sync_state d x = ''async''" by (simp add: sync_state_def)
    with x(2) that(2) show False unfolding wanted_state_kind by (cases v) simp_all
  qed
  ultimately show ?thesis using x unfolding wanted_state_kind by blast
qed

section \<open>Witnesses\<close>

definition sync_cluster :: cluster where
  "sync_cluster = set_names (First 1 [''s1'', ''s2'']) started"

lemma repl_reachable_step: "repl_reachable c \<Longrightarrow> repl_step c d \<Longrightarrow> repl_reachable d"
  unfolding repl_reachable_def by (rule rtranclp.rtrancl_into_rtrancl)

lemma started_reachable: "repl_reachable started"
  by (simp add: repl_reachable_def)

lemma renamed_reachable: "repl_reachable (set_names v started)"
  by (rule repl_reachable_step [OF started_reachable repl_step.renamed])





lemma cancelled_commit_stays_witness:
  "\<exists>d. blocked_commit may_return (\<lambda>_. Done) Done id Remote_Apply (pause_replay ''s1'' sync_cluster) = (Cancelled 1, d) \<and>
     ledger d ! 0 = ''blocked commit'' \<and> has_primary d 1"
proof -
  let ?c = "pause_replay ''s1'' sync_cluster"
  obtain d where b: "blocked_commit may_return (\<lambda>_. Done) Done id Remote_Apply ?c = (Cancelled 1, d)"
    by (simp add: blocked_commit_def await_commit_def insert_row_def Let_def may_return_def candidates_def acked_def pause_replay_def
        on_standby_def sync_cluster_def set_names_def started_def)
  from cancelled_commit_stays [OF _ b rtranclp.rtrancl_refl] b show ?thesis by simp
qed

lemma benchmark_adds_rows_witness:
  "\<exists>d. bench_loop may_return (\<lambda>_. Done) (\<lambda>_. id) Local 200 0 started = (Returned 200, d) \<and> ledger d = replicate 200 ''bench''"
proof -
  have "\<exists>d. bench_loop may_return (\<lambda>_. Done) (\<lambda>_. id) Local left i c = (Returned (i + left), d)" for left i c
  proof (induction left arbitrary: i c)
    case (Suc left)
    show ?case
      using Suc.IH [of "Suc i" "commit_returns (fst (insert_row Local ''bench'' c)) Local (snd (insert_row Local ''bench'' c))"]
      by (simp add: await_commit_def insert_row_def Let_def may_return_def)
  qed simp
  then obtain d where d: "bench_loop may_return (\<lambda>_. Done) (\<lambda>_. id) Local 200 0 started = (Returned (0 + 200), d)" by blast
  then have "benchmark may_return Done Done (\<lambda>_. Done) (\<lambda>_. id) Local started = (Returned 200, d)" by (simp add: benchmark_def)
  from benchmark_adds_rows [OF _ this] d show ?thesis by (simp add: started_def)
qed

lemma stalled_standby_blocks_commit_witness:
  "\<not> may_return Remote_Apply 1 (snd (insert_row Remote_Apply ''x'' (pause_replay ''s1'' sync_cluster)))"
proof -
  let ?c = "pause_replay ''s1'' sync_cluster"
  have r: "repl_reachable ?c"
    unfolding sync_cluster_def by (rule repl_reachable_step [OF renamed_reachable repl_step.paused])
  have i: "insert_row Remote_Apply ''x'' ?c = (1, snd (insert_row Remote_Apply ''x'' ?c))"
    by (simp add: insert_row_def Let_def pause_replay_def on_standby_def sync_cluster_def set_names_def started_def)
  have "\<not> may_return Remote_Apply 1 (snd (insert_row Remote_Apply ''x'' ?c)) \<and> has_primary (snd (insert_row Remote_Apply ''x'' ?c)) 1"
    by (rule stalled_standby_blocks_commit [OF r _ _ _ i rtranclp.rtrancl_refl, of "''s1''" "[''s2'']"])
      (simp_all add: pause_replay_def on_standby_def sync_cluster_def set_names_def started_def)
  then show ?thesis ..
qed

lemma quorum_tolerates_stall_witness:
  "\<exists>d. repl_step\<^sup>*\<^sup>* (snd (insert_row Remote_Apply ''x'' (pause_replay ''s1'' (set_names (Any 1 [''s1'', ''s2'']) started)))) d \<and>
     (1, Remote_Apply, True) \<in> set (returned d) \<and> has_standby d ''s2'' 1"
proof -
  let ?c = "snd (insert_row Remote_Apply ''x'' (pause_replay ''s1'' (set_names (Any 1 [''s1'', ''s2'']) started)))"
  have r: "repl_reachable ?c"
    by (rule repl_reachable_step [OF repl_reachable_step [OF renamed_reachable repl_step.paused] repl_step.inserted])
  have "\<exists>d. repl_step\<^sup>*\<^sup>* ?c d \<and> (1, Remote_Apply, True) \<in> set (returned d) \<and> has_standby d ''s2'' 1 \<and>
      (\<forall>x. x \<noteq> ''s2'' \<longrightarrow> standbys d x = standbys ?c x)"
    by (rule quorum_tolerates_stall [OF r, of "[''s1'', ''s2'']"])
      (simp_all add: insert_row_def Let_def pause_replay_def on_standby_def set_names_def started_def)
  then show ?thesis by blast
qed

lemma async_commit_reads_stale_witness: "\<not> has_standby (snd (insert_row On ''x'' started)) ''s1'' 1"
  using async_commit_reads_stale [OF started_reachable, of On "''x''" 1 "snd (insert_row On ''x'' started)"]
  by (simp add: started_def insert_row_def Let_def)

lemma set_standby_names_waits_witness:
  "\<exists>d. set_standby_names Done Done [(5, Done, False), (5, Done, True)] [''s1'', ''s2''] (Any 1 [''s1'', ''s2'']) started = Some d \<and>
    names d = Any 1 [''s1'', ''s2'']"
proof -
  have r: "set_standby_names Done Done [(5, Done, False), (5, Done, True)] [''s1'', ''s2''] (Any 1 [''s1'', ''s2'']) started =
      Some (set_names (Any 1 [''s1'', ''s2'']) started)"
    by (simp add: set_standby_names_def wanted_state_kind state_count_def sync_state_def candidates_def started_def set_names_def)
  from set_standby_names_waits [OF r] r show ?thesis by (auto simp: started_def)
qed

end
