(* ===== verification/Tiering.thy ===== *)
theory Tiering
  imports GoStd
begin

text \<open>
  \<open>simulate_data_tiering/main.go\<close>: monthly partitions of one table on three tablespaces, and the job
  that moves them as they age. A month is its number \<open>12 * year + (month - 1)\<close>, so \<open>AddDate(0, k, 0)\<close> on
  the first of a month adds \<open>k\<close>. \<open>None\<close> is \<open>log.Fatal\<close>.
\<close>

section \<open>Names of partitions\<close>

type_synonym month = nat

definition year_of :: "month \<Rightarrow> nat" where "year_of m = m div 12"
definition month_of :: "month \<Rightarrow> nat" where "month_of m = m mod 12 + 1"

definition two :: "nat \<Rightarrow> string" where
  "two n = [digit (n div 10), digit (n mod 10)]"

definition four :: "nat \<Rightarrow> string" where
  "four n = [digit (n div 1000), digit (n div 100 mod 10), digit (n div 10 mod 10), digit (n mod 10)]"

definition part_name :: "month \<Rightarrow> string" where
  "part_name m = ''events_'' @ four (year_of m) @ ''_'' @ two (month_of m)"

text \<open>\<open>time.Parse(''2006_01'', s)\<close>: four digits, an underscore, two digits that are a month.\<close>

definition digit_value :: "char \<Rightarrow> nat" where
  "digit_value c = of_char c - 48"

fun parse_month :: "string \<Rightarrow> month option" where
  "parse_month [a, b, c, d, u, e, f] =
     (let y = 1000 * digit_value a + 100 * digit_value b + 10 * digit_value c + digit_value d;
          m = 10 * digit_value e + digit_value f
      in if list_all is_digit [a, b, c, d, e, f] \<and> u = CHR ''_'' \<and> 1 \<le> m \<and> m \<le> 12
         then Some (12 * y + (m - 1)) else None)"
| "parse_month _ = None"

definition month_from_part :: "string \<Rightarrow> month option" where
  "month_from_part name =
     (if \<not> has_prefix name ''events_'' then None else parse_month (trim_prefix name ''events_''))"

definition months_between :: "month \<Rightarrow> month \<Rightarrow> int" where
  "months_between older newer =
     (int (year_of newer) - int (year_of older)) * 12 + int (month_of newer) - int (month_of older)"

definition tier_for :: "int \<Rightarrow> string" where
  "tier_for age = (if age \<le> 0 then ''hot_tier'' else if age \<le> 2 then ''warm_tier'' else ''cold_tier'')"

section \<open>The partitioned table\<close>

record partition =
  relname :: string
  from_month :: month   \<comment> \<open>rows from this month up to, but without, the next bound\<close>
  to_month :: month
  tablespace :: string
  rows :: "(month \<times> nat) list"

definition ensure_partition :: "outcome \<Rightarrow> month \<Rightarrow> partition list \<Rightarrow> unit option \<times> partition list" where
  "ensure_partition r m ps =
     (if \<not> applied r then (None, ps)
      else if list_ex (\<lambda>p. relname p = part_name m) ps
      then (if err_of r = None then Some () else None, ps)
      else if list_ex (\<lambda>p. from_month p < m + 1 \<and> m < to_month p) ps then (None, ps)
      else (if err_of r = None then Some () else None,
            ps @ [\<lparr>relname = part_name m, from_month = m, to_month = m + 1, tablespace = ''hot_tier'', rows = []\<rparr>]))"

fun ensure_all :: "(nat \<Rightarrow> outcome) \<Rightarrow> nat \<Rightarrow> month list \<Rightarrow> partition list \<Rightarrow> unit option \<times> partition list" where
  "ensure_all env i [] ps = (Some (), ps)"
| "ensure_all env i (m # ms) ps =
     (case ensure_partition (env i) m ps of
        (None, ps') \<Rightarrow> (None, ps')
      | (Some _, ps') \<Rightarrow> ensure_all env (Suc i) ms ps')"

text \<open>An INSERT goes to the partition that covers the row; without one it fails.\<close>

definition insert_row :: "outcome \<Rightarrow> month \<times> nat \<Rightarrow> partition list \<Rightarrow> unit option \<times> partition list" where
  "insert_row r row ps =
     (case index_func (\<lambda>p. from_month p \<le> fst row \<and> fst row < to_month p) ps of
        None \<Rightarrow> (None, ps)
      | Some i \<Rightarrow>
          (if err_of r = None then Some () else None,
           if applied r then ps[i := (ps ! i)\<lparr>rows := rows (ps ! i) @ [row]\<rparr>] else ps))"

fun seed_rows :: "(nat \<Rightarrow> outcome) \<Rightarrow> nat \<Rightarrow> (month \<times> nat) list \<Rightarrow> partition list \<Rightarrow> unit option \<times> partition list" where
  "seed_rows env i [] ps = (Some (), ps)"
| "seed_rows env i (row # rs) ps =
     (case insert_row (env i) row ps of
        (None, ps') \<Rightarrow> (None, ps')
      | (Some _, ps') \<Rightarrow> seed_rows env (Suc i) rs ps')"

definition seed :: "outcome \<Rightarrow> (nat \<Rightarrow> outcome) \<Rightarrow> month list \<Rightarrow> partition list \<Rightarrow> unit option \<times> partition list" where
  "seed rt env months ps =
     (let ps1 = (if applied rt then map (\<lambda>p. p\<lparr>rows := []\<rparr>) ps else ps) in
      if err_of rt \<noteq> None then (None, ps1)
      else seed_rows env 0 (concat (map (\<lambda>m. [(m, 1), (m, 2), (m, 3)]) months)) ps1)"

section \<open>The tiering job\<close>

definition set_tablespace :: "string \<Rightarrow> string \<Rightarrow> partition list \<Rightarrow> partition list" where
  "set_tablespace name target = map (\<lambda>p. if relname p = name then p\<lparr>tablespace := target\<rparr> else p)"

fun tier_loop :: "(string \<Rightarrow> outcome) \<Rightarrow> month \<Rightarrow> string list \<Rightarrow> partition list \<Rightarrow> unit option \<times> partition list" where
  "tier_loop env this_month [] ps = (Some (), ps)"
| "tier_loop env this_month (name # names) ps =
     (case month_from_part name of
        None \<Rightarrow> tier_loop env this_month names ps
      | Some m \<Rightarrow>
          (case exec (env name) (set_tablespace name (tier_for (months_between m this_month))) ps of
             (Some _, ps') \<Rightarrow> (None, ps')
           | (None, ps') \<Rightarrow> tier_loop env this_month names ps'))"

text \<open>\<open>runTiering\<close>: \<open>names\<close> is the list of partitions the catalog query returns.\<close>

definition run_tiering :: "outcome \<Rightarrow> (string \<Rightarrow> outcome) \<Rightarrow> month \<Rightarrow> string list \<Rightarrow> partition list \<Rightarrow> unit option \<times> partition list" where
  "run_tiering q env this_month names ps =
     (if err_of q \<noteq> None then (None, ps) else tier_loop env this_month names ps)"

section \<open>Names and ages\<close>

lemma digit_facts: "d < 10 \<Longrightarrow> is_digit (digit d)" "d < 10 \<Longrightarrow> digit_value (digit d) = d"
  by (simp_all add: is_digit_digit digit_value_def of_char_digit)

lemma parse_digits:
  assumes "a < 10" "b < 10" "c < 10" "d < 10" "e < 10" "f < 10"
  shows "parse_month [digit a, digit b, digit c, digit d, CHR ''_'', digit e, digit f] =
    (if 1 \<le> 10 * e + f \<and> 10 * e + f \<le> 12
     then Some (12 * (1000 * a + 100 * b + 10 * c + d) + (10 * e + f - 1)) else None)"
  using assms by (simp add: digit_facts Let_def)

lemma part_name_roundtrip:
  assumes "m < 12 * 10000"
  shows "month_from_part (part_name m) = Some m"
proof -
  let ?y = "year_of m"
  have y: "?y < 10000" using assms by (simp add: year_of_def)
  have d: "?y div 1000 < 10" "?y div 100 mod 10 < 10" "?y div 10 mod 10 < 10" "?y mod 10 < 10"
    using y by simp_all
  have "?y div 100 = ?y div 10 div 10" "?y div 1000 = ?y div 100 div 10"
    by (simp_all add: div_mult2_eq [symmetric])
  then have "10 * (?y div 1000) + ?y div 100 mod 10 = ?y div 100" "10 * (?y div 100) + ?y div 10 mod 10 = ?y div 10"
    "10 * (?y div 10) + ?y mod 10 = ?y"
    using mult_div_mod_eq [of 10] by metis+
  then have s: "1000 * (?y div 1000) + 100 * (?y div 100 mod 10) + 10 * (?y div 10 mod 10) + ?y mod 10 = ?y"
    by linarith
  have mo: "1 \<le> month_of m" "month_of m \<le> 12" by (simp_all add: month_of_def Suc_leI)
  then have e: "month_of m div 10 < 10" "month_of m mod 10 < 10" by auto
  have k: "10 * (month_of m div 10) + month_of m mod 10 = month_of m" by presburger
  have l: "four ?y @ ''_'' @ two (month_of m) = [digit (?y div 1000), digit (?y div 100 mod 10),
      digit (?y div 10 mod 10), digit (?y mod 10), CHR ''_'', digit (month_of m div 10), digit (month_of m mod 10)]"
    by (simp only: four_def two_def append.simps)
  have "parse_month (four ?y @ ''_'' @ two (month_of m)) = Some (12 * ?y + (month_of m - 1))"
    unfolding l parse_digits [OF d e] k s using mo by simp
  moreover have "12 * ?y + (month_of m - 1) = m" by (simp add: year_of_def month_of_def)
  ultimately show ?thesis
    by (simp add: month_from_part_def part_name_def has_prefix_iff trim_prefix_def)
qed

lemma months_between_diff: "months_between older newer = int newer - int older"
proof -
  have "int (m div 12) * 12 + int (m mod 12) = int m" for m
    by (metis div_mult_mod_eq of_nat_add of_nat_mult of_nat_numeral)
  from this [of newer] this [of older] show ?thesis
    by (simp add: months_between_def year_of_def month_of_def algebra_simps)
qed

lemma tier_loop_result:
  assumes "distinct names" and "tier_loop env now names ps = (Some (), ps')"
  shows "ps' = map (\<lambda>p. case month_from_part (relname p) of
      Some m \<Rightarrow> if relname p \<in> set names then p\<lparr>tablespace := tier_for (months_between m now)\<rparr> else p
    | None \<Rightarrow> p) ps"
  using assms
proof (induction names arbitrary: ps)
  case Nil
  then show ?case by (auto intro!: map_idI [symmetric] split: option.splits)
next
  case (Cons name names)
  show ?case
  proof (cases "month_from_part name")
    case None
    with Cons.prems have "tier_loop env now names ps = (Some (), ps')" by simp
    from Cons.IH [OF _ this] Cons.prems(1) None show ?thesis by (auto split: option.splits)
  next
    case (Some m)
    let ?t = "set_tablespace name (tier_for (months_between m now)) ps"
    from Some Cons.prems(2) have "tier_loop env now names ?t = (Some (), ps')"
      by (auto dest!: exec_ok split: option.splits prod.splits)
    from Cons.IH [OF _ this] Cons.prems(1) Some show ?thesis
      by (auto simp: set_tablespace_def comp_def intro!: map_cong split: option.splits)
  qed
qed

section \<open>Properties\<close>

text \<open>When the tiering job ends without an error, every monthly partition it listed is on the
  tablespace of its age (the current and later months hot, one and two months warm, older cold),
  and no partition lost its rows or bounds.\<close>

theorem tiering_places_partitions:
  assumes "run_tiering q env now names ps = (Some (), ps')" and "distinct names"
    and "p \<in> set ps" and "relname p = part_name m" and "m < 12 * 10000" and "relname p \<in> set names"
  shows "p\<lparr>tablespace := (if now \<le> m then ''hot_tier'' else if now \<le> m + 2 then ''warm_tier'' else ''cold_tier'')\<rparr> \<in> set ps'
    \<and> length ps' = length ps \<and> map rows ps' = map rows ps"
proof -
  from assms(1) have "tier_loop env now names ps = (Some (), ps')"
    by (auto simp: run_tiering_def split: if_splits)
  from tier_loop_result [OF assms(2) this]
  have ps': "ps' = map (\<lambda>p. case month_from_part (relname p) of
      Some m \<Rightarrow> if relname p \<in> set names then p\<lparr>tablespace := tier_for (months_between m now)\<rparr> else p
    | None \<Rightarrow> p) ps" .
  have "tier_for (months_between m now) = (if now \<le> m then ''hot_tier'' else if now \<le> m + 2 then ''warm_tier'' else ''cold_tier'')"
    by (auto simp: tier_for_def months_between_diff)
  then have "p\<lparr>tablespace := (if now \<le> m then ''hot_tier'' else if now \<le> m + 2 then ''warm_tier'' else ''cold_tier'')\<rparr> \<in> set ps'"
    using assms(3,4,6) part_name_roundtrip [OF assms(5)] unfolding ps' by (force simp: image_iff)
  moreover have "map rows ps' = map rows ps" unfolding ps' by (auto split: option.splits)
  ultimately show ?thesis by (simp add: ps')
qed

theorem tiering_places_partitions_witness:
  "\<exists>ps ps' p. ensure_all (\<lambda>_. Done) 0 [24312, 24313, 24314] [] = (Some (), ps) \<and>
     run_tiering Done (\<lambda>_. Done) 24316 (map relname ps) ps = (Some (), ps') \<and>
     p \<in> set ps' \<and> relname p = part_name 24312 \<and> tablespace p = ''cold_tier''"
proof -
  have n: "part_name 24312 \<noteq> part_name 24313" "part_name 24312 \<noteq> part_name 24314" "part_name 24313 \<noteq> part_name 24314"
    using part_name_roundtrip [of 24312] part_name_roundtrip [of 24313] part_name_roundtrip [of 24314] by force+
  let ?p = "\<lambda>m. \<lparr>relname = part_name m, from_month = m, to_month = m + 1, tablespace = ''hot_tier'', rows = []\<rparr>"
  let ?ps = "[?p 24312, ?p 24313, ?p 24314]"
  have e: "ensure_all (\<lambda>_. Done) 0 [24312, 24313, 24314] [] = (Some (), ?ps)"
    by (simp add: ensure_partition_def n)
  have "month_from_part (part_name 24312) = Some 24312" "month_from_part (part_name 24313) = Some 24313"
    "month_from_part (part_name 24314) = Some 24314"
    by (simp_all add: part_name_roundtrip)
  then obtain ps' where r: "run_tiering Done (\<lambda>_. Done) 24316 (map relname ?ps) ?ps = (Some (), ps')"
    by (simp add: run_tiering_def exec_simps)
  have d: "distinct (map relname ?ps)" by (simp add: n)
  have "?p 24312 \<in> set ?ps" "relname (?p 24312) = part_name 24312" "relname (?p 24312) \<in> set (map relname ?ps)" by simp_all
  from conjunct1 [OF tiering_places_partitions [OF r d this(1,2) _ this(3)]] e r show ?thesis
    by (auto simp: n)
qed

text \<open>C39: The name of a partition determines its month: \<open>monthFromPart\<close> inverts \<open>partName\<close> for all
  years of four digits.\<close>

theorem part_name_parses_back:
  assumes "y < 10000" and "1 \<le> mo" and "mo \<le> 12"
  shows "month_from_part (part_name (12 * y + (mo - 1))) = Some (12 * y + (mo - 1))"
  by (rule part_name_roundtrip) (use assms in auto)

theorem part_name_parses_back_witness: "month_from_part (part_name (12 * 2026 + (3 - 1))) = Some 24314"
  using part_name_parses_back [of 2026 3] by simp

end
