(* ===== verification/Denormalization.thy ===== *)
theory Denormalization
  imports GoStd
begin

text \<open>
  \<open>simulate_denormalization/main.go\<close> with the triggers of its \<open>init\<close> script: copies of the customer's
  name, the number of items and the total on every order, how statements and triggers keep them,
  what a writer that bypasses the triggers does, and the reconciliation job. Money is in cents.
\<close>

section \<open>Tables\<close>

record order =
  customer_id :: nat
  customer_name :: "string option"
  item_count :: int
  total_amount :: int

record item =
  order_id :: nat
  product_id :: nat
  qty :: int
  unit_price :: int

record shop =
  customers :: "nat \<rightharpoonup> string"
  products :: "nat \<rightharpoonup> int"
  orders :: "nat \<rightharpoonup> order"
  items :: "item list"
  ins_trigger :: bool   \<comment> \<open>order_items_ins is enabled\<close>

section \<open>The item triggers\<close>

definition count_of :: "nat \<Rightarrow> item list \<Rightarrow> int" where
  "count_of i its = int (length (filter (\<lambda>x. order_id x = i) its))"

definition total_of :: "nat \<Rightarrow> item list \<Rightarrow> int" where
  "total_of i its = (\<Sum>x \<leftarrow> filter (\<lambda>x. order_id x = i) its. qty x * unit_price x)"

text \<open>\<open>order_items_recalc\<close>: one grouped UPDATE that adds the new rows and takes off the old ones.\<close>

definition recalc :: "item list \<Rightarrow> item list \<Rightarrow> shop \<Rightarrow> shop" where
  "recalc old new s = s\<lparr>orders := (\<lambda>i. map_option
     (\<lambda>r. r\<lparr>item_count := item_count r + count_of i new - count_of i old,
           total_amount := total_amount r + total_of i new - total_of i old\<rparr>) (orders s i))\<rparr>"

text \<open>The constraints of \<open>order_items\<close>: references, the CHECK and the primary key.\<close>

definition item_keys :: "item list \<Rightarrow> (nat \<times> nat) list" where
  "item_keys its = map (\<lambda>x. (order_id x, product_id x)) its"

definition items_ok :: "shop \<Rightarrow> item list \<Rightarrow> bool" where
  "items_ok s its \<longleftrightarrow> distinct (item_keys its) \<and>
     list_all (\<lambda>x. orders s (order_id x) \<noteq> None \<and> products s (product_id x) \<noteq> None \<and> 0 < qty x) its"

definition violation :: db_error where
  "violation = Sqlstate ''23000''"

definition insert_items :: "item list \<Rightarrow> shop \<Rightarrow> (db_error + unit) \<times> shop" where
  "insert_items new s =
     (if \<not> items_ok s (items s @ new) then (Inl violation, s)
      else (let s1 = s\<lparr>items := items s @ new\<rparr> in
            (Inr (), if ins_trigger s then recalc [] new s1 else s1)))"

definition delete_items :: "(item \<Rightarrow> bool) \<Rightarrow> shop \<Rightarrow> (db_error + unit) \<times> shop" where
  "delete_items P s =
     (Inr (), recalc (filter P (items s)) [] (s\<lparr>items := filter (\<lambda>x. \<not> P x) (items s)\<rparr>))"

definition update_items :: "(item \<Rightarrow> bool) \<Rightarrow> (item \<Rightarrow> item) \<Rightarrow> shop \<Rightarrow> (db_error + unit) \<times> shop" where
  "update_items P f s =
     (let its = map (\<lambda>x. if P x then f x else x) (items s) in
      if \<not> items_ok s its then (Inl violation, s)
      else (Inr (), recalc (filter P (items s)) (map f (filter P (items s))) (s\<lparr>items := its\<rparr>)))"

section \<open>Orders and customers\<close>

definition insert_order :: "nat \<Rightarrow> nat \<Rightarrow> shop \<Rightarrow> (db_error + nat) \<times> shop" where
  "insert_order i c s =
     (if orders s i \<noteq> None \<or> customers s c = None then (Inl violation, s)
      else (Inr i, s\<lparr>orders := (orders s)
              (i \<mapsto> \<lparr>customer_id = c, customer_name = customers s c, item_count = 0, total_amount = 0\<rparr>)\<rparr>))"

definition rename_customer :: "nat \<Rightarrow> string \<Rightarrow> shop \<Rightarrow> (db_error + unit) \<times> shop" where
  "rename_customer c name s =
     (Inr (), case customers s c of
        None \<Rightarrow> s
      | Some old \<Rightarrow>
          (let s1 = s\<lparr>customers := (customers s)(c \<mapsto> name)\<rparr> in
           if old = name then s1
           else s1\<lparr>orders := (\<lambda>i. map_option (\<lambda>r. if customer_id r = c then r\<lparr>customer_name := Some name\<rparr> else r)
                                (orders s i))\<rparr>))"

text \<open>
  \<open>UPDATE orders SET customer_id = c WHERE P\<close>: the foreign key is checked, and the BEFORE trigger copies the name of the
  new customer.
\<close>

definition set_customer :: "(nat \<Rightarrow> order \<Rightarrow> bool) \<Rightarrow> nat \<Rightarrow> shop \<Rightarrow> (db_error + unit) \<times> shop" where
  "set_customer P c s =
     (if customers s c = None \<and> (\<exists>i r. orders s i = Some r \<and> P i r) then (Inl violation, s)
      else (Inr (), s\<lparr>orders := (\<lambda>i. map_option
              (\<lambda>r. if P i r then r\<lparr>customer_id := c, customer_name := customers s c\<rparr> else r) (orders s i))\<rparr>))"

text \<open>
  \<open>DELETE FROM orders WHERE P\<close>: the cascade deletes the items of these orders, whose DELETE trigger runs after the orders
  are gone.
\<close>

definition matched :: "(nat \<Rightarrow> order \<Rightarrow> bool) \<Rightarrow> shop \<Rightarrow> nat \<Rightarrow> bool" where
  "matched P s i = (case orders s i of None \<Rightarrow> False | Some r \<Rightarrow> P i r)"

definition delete_orders :: "(nat \<Rightarrow> order \<Rightarrow> bool) \<Rightarrow> shop \<Rightarrow> (db_error + unit) \<times> shop" where
  "delete_orders P s =
     delete_items (\<lambda>x. matched P s (order_id x))
       (s\<lparr>orders := (\<lambda>i. if matched P s i then None else orders s i)\<rparr>)"

text \<open>
  \<open>placeOrder\<close>: \<open>i\<close> is the identity value, \<open>its\<close> the entries of the map in the order Go iterates over
  them. INSERT ... SELECT of a product that does not exist inserts nothing.
\<close>

fun place_items :: "(nat \<Rightarrow> outcome) \<Rightarrow> nat \<Rightarrow> (nat \<times> int) list \<Rightarrow> shop \<Rightarrow> (db_error + unit) \<times> shop" where
  "place_items env i [] s = (Inr (), s)"
| "place_items env i ((p, n) # its) s =
     bind_tx (stmt (env 0) (\<lambda>s. insert_items (case products s p of None \<Rightarrow> [] | Some price \<Rightarrow>
         [\<lparr>order_id = i, product_id = p, qty = n, unit_price = price\<rparr>]) s))
       (\<lambda>_. place_items (env \<circ> Suc) i its) s"

definition place_order :: "outcome \<Rightarrow> outcome \<Rightarrow> (nat \<Rightarrow> outcome) \<Rightarrow> nat \<Rightarrow> nat \<Rightarrow> (nat \<times> int) list \<Rightarrow> shop
    \<Rightarrow> nat option \<times> shop" where
  "place_order rb rc env i c its s =
     (case begin_func rb rc
        (bind_tx (stmt (env 0) (insert_order i c)) (\<lambda>i. bind_tx (place_items (env \<circ> Suc) i its) (\<lambda>_ s. (Inr i, s)))) s of
        (Inl _, s') \<Rightarrow> (None, s')
      | (Inr i, s') \<Rightarrow> (Some i, s'))"

section \<open>The application-level alternative\<close>

definition set_ins_trigger :: "bool \<Rightarrow> shop \<Rightarrow> shop" where
  "set_ins_trigger b s = s\<lparr>ins_trigger := b\<rparr>"

definition add_item_tx :: "(nat \<Rightarrow> outcome) \<Rightarrow> nat \<Rightarrow> nat \<Rightarrow> int \<Rightarrow> shop \<Rightarrow> (db_error + unit) \<times> shop" where
  "add_item_tx env i p n =
     bind_tx (stmt (env 0) (\<lambda>s. (case products s p of None \<Rightarrow> Inl NoRows | Some x \<Rightarrow> Inr x, s))) (\<lambda>price.
     bind_tx (stmt (env 1) (insert_items [\<lparr>order_id = i, product_id = p, qty = n, unit_price = price\<rparr>])) (\<lambda>_.
     stmt (env 2) (\<lambda>s. (Inr (), s\<lparr>orders := (\<lambda>j. if j = i then map_option
        (\<lambda>r. r\<lparr>item_count := item_count r + 1, total_amount := total_amount r + n * price\<rparr>) (orders s j)
        else orders s j)\<rparr>))))"

text \<open>
  \<open>appLevelAddItem\<close>: \<open>None\<close> is \<open>log.Fatalf\<close>, which ends the process without running the deferred
  statement that enables the trigger again.
\<close>

definition app_level_add_item :: "outcome \<Rightarrow> outcome \<Rightarrow> outcome \<Rightarrow> (nat \<Rightarrow> outcome) \<Rightarrow> outcome \<Rightarrow> nat \<Rightarrow> nat \<Rightarrow> int \<Rightarrow> shop
    \<Rightarrow> unit option \<times> shop" where
  "app_level_add_item rd rb rc env re i p n s =
     (case exec rd (set_ins_trigger False) s of
        (Some _, s1) \<Rightarrow> (None, s1)
      | (None, s1) \<Rightarrow>
          (case begin_func rb rc (add_item_tx env i p n) s1 of
             (Inl _, s2) \<Rightarrow> (None, s2)
           | (Inr _, s2) \<Rightarrow>
               (case exec re (set_ins_trigger True) s2 of
                  (Some _, s3) \<Rightarrow> (None, s3)
                | (None, s3) \<Rightarrow> (Some (), s3))))"

section \<open>Drift and reconciliation\<close>

definition drifted :: "shop \<Rightarrow> nat \<Rightarrow> bool" where
  "drifted s i = (case orders s i of
     None \<Rightarrow> False
   | Some r \<Rightarrow> (case customers s (customer_id r) of
       None \<Rightarrow> False
     | Some name \<Rightarrow> customer_name r \<noteq> Some name \<or> item_count r \<noteq> count_of i (items s) \<or>
         total_amount r \<noteq> total_of i (items s)))"

text \<open>
  The job: the inner join with the grouped items drops the orders without items, and only rows whose count or total
  differs are written. \<open>repaired\<close> is \<open>RowsAffected\<close>; \<open>ids\<close> are the orders in the table.
\<close>

definition needs_repair :: "shop \<Rightarrow> nat \<Rightarrow> order \<Rightarrow> bool" where
  "needs_repair s i r \<longleftrightarrow> count_of i (items s) \<noteq> 0 \<and>
     (item_count r \<noteq> count_of i (items s) \<or> total_amount r \<noteq> total_of i (items s))"

definition reconcile :: "shop \<Rightarrow> shop" where
  "reconcile s = s\<lparr>orders := (\<lambda>i. map_option
     (\<lambda>r. if needs_repair s i r
          then r\<lparr>item_count := count_of i (items s), total_amount := total_of i (items s)\<rparr> else r) (orders s i))\<rparr>"

definition repaired :: "nat list \<Rightarrow> shop \<Rightarrow> nat" where
  "repaired ids s = length (filter (matched (needs_repair s) s) ids)"

text \<open>
  \<open>main\<close>'s write that bypasses the triggers: one row of product 499 for every order of customer 7,
  \<open>ON CONFLICT DO NOTHING\<close>. \<open>ids\<close> are the orders in the table.
\<close>

definition bypass_write :: "nat list \<Rightarrow> shop \<Rightarrow> shop" where
  "bypass_write ids s =
     set_ins_trigger True (snd (insert_items
       (map (\<lambda>i. \<lparr>order_id = i, product_id = 499, qty = 1, unit_price = 999\<rparr>)
         (filter (\<lambda>i. (case orders s i of None \<Rightarrow> False | Some r \<Rightarrow> customer_id r = 7) \<and>
            (i, 499) \<notin> set (item_keys (items s))) ids))
       (set_ins_trigger False s)))"

definition count_drift :: "nat list \<Rightarrow> shop \<Rightarrow> nat" where
  "count_drift ids s = length (filter (drifted s) ids)"

section \<open>The order list, two ways\<close>

text \<open>\<open>ids\<close> are the orders in the order of \<open>ORDER BY created_at DESC\<close>.\<close>

definition list_normalized :: "nat list \<Rightarrow> shop \<Rightarrow> (nat \<times> string option \<times> int \<times> int) list" where
  "list_normalized ids s = take 50 (List.map_filter (\<lambda>i.
     (case orders s i of
        None \<Rightarrow> None
      | Some r \<Rightarrow>
          (if customer_id r = 1 \<and> customers s 1 \<noteq> None \<and> filter (\<lambda>x. order_id x = i) (items s) \<noteq> []
           then Some (i, customers s 1, count_of i (items s), total_of i (items s)) else None))) ids)"

definition list_denormalized :: "nat list \<Rightarrow> shop \<Rightarrow> (nat \<times> string option \<times> int \<times> int) list" where
  "list_denormalized ids s = take 50 (List.map_filter (\<lambda>i.
     (case orders s i of
        None \<Rightarrow> None
      | Some r \<Rightarrow> (if customer_id r = 1 then Some (i, customer_name r, item_count r, total_amount r) else None))) ids)"

section \<open>The copies are right\<close>

definition copies_ok :: "shop \<Rightarrow> bool" where
  "copies_ok s \<longleftrightarrow> (\<forall>i r. orders s i = Some r \<longrightarrow> customer_name r = customers s (customer_id r) \<and>
     customers s (customer_id r) \<noteq> None \<and>
     item_count r = count_of i (items s) \<and> total_amount r = total_of i (items s))"

lemma count_total_append [simp]:
  "count_of i (xs @ ys) = count_of i xs + count_of i ys"
  "total_of i (xs @ ys) = total_of i xs + total_of i ys"
  "count_of i [] = 0" "total_of i [] = 0"
  by (simp_all add: count_of_def total_of_def)

lemma count_total_partition:
  "count_of i (filter P xs) + count_of i (filter (\<lambda>x. \<not> P x) xs) = count_of i xs"
  "total_of i (filter P xs) + total_of i (filter (\<lambda>x. \<not> P x) xs) = total_of i xs"
  by (induction xs) (auto simp: count_of_def total_of_def)

lemma count_total_map:
  "count_of i (map (\<lambda>x. if P x then f x else x) xs) = count_of i (map f (filter P xs)) + count_of i (filter (\<lambda>x. \<not> P x) xs)"
  "total_of i (map (\<lambda>x. if P x then f x else x) xs) = total_of i (map f (filter P xs)) + total_of i (filter (\<lambda>x. \<not> P x) xs)"
  by (induction xs) (auto simp: count_of_def total_of_def)

lemma recalc_ok:
  assumes "copies_ok s" and "\<And>i. count_of i its = count_of i (items s) + count_of i new - count_of i old"
    and "\<And>i. total_of i its = total_of i (items s) + total_of i new - total_of i old"
  shows "copies_ok (recalc old new (s\<lparr>items := its\<rparr>))"
  using assms by (auto simp: copies_ok_def recalc_def)

datatype statement =
    InsertItems "item list"
  | DeleteItems "item \<Rightarrow> bool"
  | UpdateItems "item \<Rightarrow> bool" "item \<Rightarrow> item"
  | InsertOrder nat nat
  | Rename nat string
  | SetCustomer "nat \<Rightarrow> order \<Rightarrow> bool" nat
  | DeleteOrders "nat \<Rightarrow> order \<Rightarrow> bool"

fun run_statement :: "statement \<Rightarrow> shop \<Rightarrow> shop" where
  "run_statement (InsertItems new) s = snd (insert_items new s)"
| "run_statement (DeleteItems P) s = snd (delete_items P s)"
| "run_statement (UpdateItems P f) s = snd (update_items P f s)"
| "run_statement (InsertOrder i c) s = snd (insert_order i c s)"
| "run_statement (Rename c name) s = snd (rename_customer c name s)"
| "run_statement (SetCustomer P c) s = snd (set_customer P c s)"
| "run_statement (DeleteOrders P) s = snd (delete_orders P s)"

text \<open>\<open>reset\<close>: every \<open>exec\<close> that fails ends the process (\<open>None\<close>).\<close>

definition reset :: "(nat \<Rightarrow> outcome) \<Rightarrow> shop \<Rightarrow> unit option \<times> shop" where
  "reset r =
     and_then (must (r 0) (run_statement (DeleteItems (\<lambda>x. product_id x = 499 \<and> unit_price x = 999)))) (\<lambda>_.
     and_then (must (r 1) (run_statement (DeleteOrders (\<lambda>i q. customer_id q = 42 \<and> 200000 < i)))) (\<lambda>_.
     and_then (must (r 2) (run_statement (Rename 2 ''Customer 2'') \<circ> run_statement (Rename 1 ''Customer 1''))) (\<lambda>_.
     must (r 3) (set_ins_trigger True))))"

text \<open>Orders without items yet: needed for a new order to start from zero.\<close>

definition refs_ok :: "shop \<Rightarrow> bool" where
  "refs_ok s \<longleftrightarrow> (\<forall>x \<in> set (items s). orders s (order_id x) \<noteq> None)"

lemma no_items:
  assumes "refs_ok s" "orders s i = None"
  shows "count_of i (items s) = 0 \<and> total_of i (items s) = 0"
proof -
  have "filter (\<lambda>x. order_id x = i) (items s) = []"
    using assms by (auto simp: refs_ok_def filter_empty_conv)
  then show ?thesis by (simp add: count_of_def total_of_def)
qed

lemma recalc_fields [simp]:
  "items (recalc old new s) = items s" "orders (recalc old new s) i = None \<longleftrightarrow> orders s i = None"
  "ins_trigger (recalc old new s) = ins_trigger s" "customers (recalc old new s) = customers s" "products (recalc old new s) = products s"
  "(\<exists>y. orders (recalc old new s) i = Some y) \<longleftrightarrow> (\<exists>y. orders s i = Some y)"
  by (simp_all add: recalc_def)

lemma insert_items_keeps:
  assumes "copies_ok s" "refs_ok s" "ins_trigger s"
  shows "copies_ok (snd (insert_items new s)) \<and> refs_ok (snd (insert_items new s)) \<and> ins_trigger (snd (insert_items new s))"
  using assms recalc_ok [OF assms(1), of "items s @ new" new "[]"]
  by (auto simp: insert_items_def Let_def refs_ok_def items_ok_def list_all_iff)

lemma insert_order_keeps:
  assumes "copies_ok s" "refs_ok s"
  shows "copies_ok (snd (insert_order i c s)) \<and> refs_ok (snd (insert_order i c s)) \<and> ins_trigger (snd (insert_order i c s)) = ins_trigger s"
  using assms no_items [OF assms(2), of i] by (auto simp: insert_order_def copies_ok_def refs_ok_def)

lemma rename_keeps:
  assumes "copies_ok s" "refs_ok s"
  shows "copies_ok (snd (rename_customer c name s)) \<and> refs_ok (snd (rename_customer c name s)) \<and>
    ins_trigger (snd (rename_customer c name s)) = ins_trigger s"
proof (cases "customers s c")
  case None
  with assms show ?thesis by (simp add: rename_customer_def)
next
  case (Some old)
  show ?thesis
  proof (cases "old = name")
    case True
    with Some assms show ?thesis by (auto simp: rename_customer_def copies_ok_def refs_ok_def)
  next
    case False
    let ?o = "\<lambda>i. map_option (\<lambda>r. if customer_id r = c then r\<lparr>customer_name := Some name\<rparr> else r) (orders s i)"
    have e: "snd (rename_customer c name s) = s\<lparr>customers := (customers s)(c \<mapsto> name), orders := ?o\<rparr>"
      using Some False by (simp add: rename_customer_def)
    have "copies_ok (s\<lparr>customers := (customers s)(c \<mapsto> name), orders := ?o\<rparr>)"
      unfolding copies_ok_def
    proof (intro allI impI)
      fix i r assume "orders (s\<lparr>customers := (customers s)(c \<mapsto> name), orders := ?o\<rparr>) i = Some r"
      then obtain q where q: "orders s i = Some q" "r = (if customer_id q = c then q\<lparr>customer_name := Some name\<rparr> else q)"
        by auto
      from assms(1) q(1) have "customer_name q = customers s (customer_id q)" "customers s (customer_id q) \<noteq> None"
        "item_count q = count_of i (items s)" "total_amount q = total_of i (items s)"
        by (simp_all add: copies_ok_def)
      with q(2) show "customer_name r = customers (s\<lparr>customers := (customers s)(c \<mapsto> name), orders := ?o\<rparr>) (customer_id r) \<and>
        customers (s\<lparr>customers := (customers s)(c \<mapsto> name), orders := ?o\<rparr>) (customer_id r) \<noteq> None \<and>
        item_count r = count_of i (items (s\<lparr>customers := (customers s)(c \<mapsto> name), orders := ?o\<rparr>)) \<and>
        total_amount r = total_of i (items (s\<lparr>customers := (customers s)(c \<mapsto> name), orders := ?o\<rparr>))"
        by simp
    qed
    with assms(2) show ?thesis unfolding e by (simp add: refs_ok_def)
  qed
qed

lemma count_total_of_others:
  assumes "\<And>x. x \<in> set its \<Longrightarrow> order_id x = i \<Longrightarrow> \<not> P x"
  shows "count_of i (filter P its) = 0 \<and> total_of i (filter P its) = 0"
    and "count_of i (filter (\<lambda>x. \<not> P x) its) = count_of i its \<and> total_of i (filter (\<lambda>x. \<not> P x) its) = total_of i its"
  using assms by (induction its) (auto simp: count_of_def total_of_def)

lemma delete_orders_keeps:
  assumes "copies_ok s" "refs_ok s" "ins_trigger s"
  shows "copies_ok (snd (delete_orders P s)) \<and> refs_ok (snd (delete_orders P s)) \<and> ins_trigger (snd (delete_orders P s))"
proof -
  let ?gone = "\<lambda>x. matched P s (order_id x)"
  have e: "orders (snd (delete_orders P s)) i = (if matched P s i then None else orders s i)" for i
    using count_total_of_others(1) [of "items s" i ?gone]
    by (cases "orders s i") (auto simp: delete_orders_def delete_items_def recalc_def)
  have "copies_ok (snd (delete_orders P s))"
    unfolding copies_ok_def
  proof (intro allI impI)
    fix i r assume r: "orders (snd (delete_orders P s)) i = Some r"
    then have "\<not> matched P s i" "orders s i = Some r" by (auto simp: e split: if_splits)
    with assms(1) count_total_of_others(2) [of "items s" i ?gone]
    show "customer_name r = customers (snd (delete_orders P s)) (customer_id r) \<and> customers (snd (delete_orders P s)) (customer_id r) \<noteq> None \<and>
      item_count r = count_of i (items (snd (delete_orders P s))) \<and> total_amount r = total_of i (items (snd (delete_orders P s)))"
      by (auto simp: delete_orders_def delete_items_def copies_ok_def)
  qed
  moreover have "refs_ok (snd (delete_orders P s))"
    using assms(2) unfolding refs_ok_def e by (auto simp: delete_orders_def delete_items_def)
  ultimately show ?thesis using assms(3) by (simp add: delete_orders_def delete_items_def)
qed

lemma run_statement_keeps:
  assumes "copies_ok s" "refs_ok s" "ins_trigger s"
  shows "copies_ok (run_statement st s) \<and> refs_ok (run_statement st s) \<and> ins_trigger (run_statement st s)"
proof (cases st)
  case (InsertItems new)
  with insert_items_keeps [OF assms] show ?thesis by simp
next
  case (DeleteItems P)
  have "copies_ok (recalc (filter P (items s)) [] (s\<lparr>items := filter (\<lambda>x. \<not> P x) (items s)\<rparr>))"
    using count_total_partition [of _ P "items s"] by (intro recalc_ok [OF assms(1)]) (simp_all add: algebra_simps)
  with assms DeleteItems show ?thesis by (auto simp: delete_items_def refs_ok_def)
next
  case (UpdateItems P f)
  have "copies_ok (recalc (filter P (items s)) (map f (filter P (items s)))
      (s\<lparr>items := map (\<lambda>x. if P x then f x else x) (items s)\<rparr>))"
    using count_total_partition [of _ P "items s"]
    by (intro recalc_ok [OF assms(1)]) (simp_all add: count_total_map algebra_simps)
  with assms UpdateItems show ?thesis
    by (auto simp: update_items_def Let_def refs_ok_def items_ok_def list_all_iff)
next
  case (InsertOrder i c)
  with insert_order_keeps [OF assms(1,2)] assms(3) show ?thesis by simp
next
  case (Rename c name)
  with rename_keeps [OF assms(1,2)] assms(3) show ?thesis by simp
next
  case (SetCustomer P c)
  with assms show ?thesis by (auto simp: set_customer_def copies_ok_def refs_ok_def)
next
  case (DeleteOrders P)
  with delete_orders_keeps [OF assms] show ?thesis by simp
qed

lemma reset_keeps:
  "leads (\<lambda>s. copies_ok s \<and> refs_ok s \<and> ins_trigger s) (reset r) (\<lambda>s. copies_ok s \<and> refs_ok s \<and> ins_trigger s)"
proof -
  let ?P = "\<lambda>s. copies_ok s \<and> refs_ok s \<and> ins_trigger s"
  have run: "leads ?P (must x (run_statement st)) ?P" "leads ?P (must x (run_statement st \<circ> run_statement st')) ?P" for x st st'
    by (rule leads_must, simp add: run_statement_keeps del: run_statement.simps)+
  have seq: "leads ?P f ?P \<Longrightarrow> (\<And>x. leads ?P (g x) ?P) \<Longrightarrow> leads ?P (and_then f g) ?P"
    for f :: "shop \<Rightarrow> unit option \<times> shop" and g :: "unit \<Rightarrow> shop \<Rightarrow> unit option \<times> shop"
    by (rule leads_and_then)
  have on: "leads ?P (must x (set_ins_trigger True)) ?P" for x
    by (rule leads_must) (simp add: set_ins_trigger_def copies_ok_def refs_ok_def)
  show ?thesis
    unfolding reset_def by (intro seq run on)
qed

lemma drifted_iff: "copies_ok s \<Longrightarrow> \<not> drifted s i"
  by (auto simp: copies_ok_def drifted_def split: option.splits)

section \<open>The reconciliation job\<close>

lemma count_of_nonneg: "0 \<le> count_of i its"
  by (simp add: count_of_def)

lemma count_0_total: "count_of i its = 0 \<Longrightarrow> total_of i its = 0"
  by (simp add: count_of_def total_of_def)

lemma needs_repair_drifted:
  assumes "\<forall>i r. orders s i = Some r \<longrightarrow> customer_name r = customers s (customer_id r) \<and> customers s (customer_id r) \<noteq> None"
    and "\<forall>i r. orders s i = Some r \<longrightarrow> count_of i (items s) = 0 \<longrightarrow> item_count r = 0 \<and> total_amount r = 0"
  shows "matched (needs_repair s) s = drifted s"
proof
  fix i
  show "matched (needs_repair s) s i = drifted s i"
    using assms by (cases "orders s i") (fastforce simp: matched_def needs_repair_def drifted_def count_0_total split: option.splits)+
qed

lemma reconcile_copies_ok:
  assumes "\<forall>i r. orders s i = Some r \<longrightarrow> customer_name r = customers s (customer_id r) \<and> customers s (customer_id r) \<noteq> None"
    and "\<forall>i r. orders s i = Some r \<longrightarrow> count_of i (items s) = 0 \<longrightarrow> item_count r = 0 \<and> total_amount r = 0"
  shows "copies_ok (reconcile s)"
  unfolding copies_ok_def
proof (intro allI impI)
  fix i r assume "orders (reconcile s) i = Some r"
  then obtain q where q: "orders s i = Some q" and r: "r = (if needs_repair s i q
      then q\<lparr>item_count := count_of i (items s), total_amount := total_of i (items s)\<rparr> else q)"
    by (auto simp: reconcile_def)
  have t: "items (reconcile s) = items s" "customers (reconcile s) = customers s" by (simp_all add: reconcile_def)
  have n: "customer_name q = customers s (customer_id q)" "customers s (customer_id q) \<noteq> None" using assms(1) q by simp_all
  have z: "count_of i (items s) = 0 \<Longrightarrow> item_count q = 0 \<and> total_amount q = 0" using assms(2) q by simp
  have "item_count r = count_of i (items s) \<and> total_amount r = total_of i (items s)"
  proof (cases "needs_repair s i q")
    case False
    with z count_0_total [of i "items s"] show ?thesis unfolding r by (auto simp: needs_repair_def)
  qed (simp add: r)
  moreover have "customer_name r = customer_name q" "customer_id r = customer_id q" by (simp_all add: r)
  ultimately show "customer_name r = customers (reconcile s) (customer_id r) \<and> customers (reconcile s) (customer_id r) \<noteq> None \<and>
      item_count r = count_of i (items (reconcile s)) \<and> total_amount r = total_of i (items (reconcile s))"
    using n by (simp add: t)
qed

lemma count_total_of_bypass:
  assumes "distinct hit"
  shows "count_of i (map (\<lambda>i. \<lparr>order_id = i, product_id = 499, qty = 1, unit_price = 999\<rparr>) hit) = (if i \<in> set hit then 1 else 0)"
    "total_of i (map (\<lambda>i. \<lparr>order_id = i, product_id = 499, qty = 1, unit_price = 999\<rparr>) hit) = (if i \<in> set hit then 999 else 0)"
  using assms by (induction hit) (auto simp: count_of_def total_of_def)

lemma bypass_write_tables:
  assumes "items_ok s (items s)" "products s 499 \<noteq> None" "distinct ids" "set ids = dom (orders s)"
  shows "items (bypass_write ids s) = items s @ map (\<lambda>i. \<lparr>order_id = i, product_id = 499, qty = 1, unit_price = 999\<rparr>)
      (filter (\<lambda>i. (case orders s i of None \<Rightarrow> False | Some r \<Rightarrow> customer_id r = 7) \<and> (i, 499) \<notin> set (item_keys (items s))) ids) \<and>
    orders (bypass_write ids s) = orders s \<and> customers (bypass_write ids s) = customers s"
proof -
  let ?new = "map (\<lambda>i. \<lparr>order_id = i, product_id = 499, qty = 1, unit_price = 999\<rparr>)
    (filter (\<lambda>i. (case orders s i of None \<Rightarrow> False | Some r \<Rightarrow> customer_id r = 7) \<and> (i, 499) \<notin> set (item_keys (items s))) ids)"
  have "items_ok (set_ins_trigger False s) (items s @ ?new)"
    using assms by (auto simp: items_ok_def set_ins_trigger_def list_all_iff item_keys_def distinct_map inj_on_def split: option.splits)
  then show ?thesis by (simp add: bypass_write_def insert_items_def set_ins_trigger_def)
qed

section \<open>Properties\<close>

definition little_shop :: shop where
  "little_shop = \<lparr>customers = [42 \<mapsto> ''Customer 42'', 43 \<mapsto> ''Customer 43''], products = [1 \<mapsto> 1000, 2 \<mapsto> 250, 4 \<mapsto> 300],
     orders = [7 \<mapsto> \<lparr>customer_id = 42, customer_name = Some ''Customer 42'', item_count = 1, total_amount = 2000\<rparr>],
     items = [\<lparr>order_id = 7, product_id = 1, qty = 2, unit_price = 1000\<rparr>], ins_trigger = True\<rparr>"

lemma little_shop_ok: "copies_ok little_shop" "refs_ok little_shop" "ins_trigger little_shop"
  by (auto simp: little_shop_def copies_ok_def refs_ok_def count_of_def total_of_def)

text \<open>C23: Starting from right copies, items of existing orders and the INSERT trigger enabled, every sequence of these
  statements keeps the redundant columns of all orders right, so the drift query finds nothing: inserting, updating and
  deleting items, inserting orders, changing their customer, deleting orders with the cascade to their items, and renaming
  customers. A statement that a constraint refuses changes nothing.\<close>

theorem triggers_keep_copies:
  assumes "copies_ok s" and "refs_ok s" and "ins_trigger s"
  shows "copies_ok (fold run_statement sts s) \<and> \<not> drifted (fold run_statement sts s) i"
proof -
  have "copies_ok (fold run_statement sts s) \<and> refs_ok (fold run_statement sts s) \<and> ins_trigger (fold run_statement sts s)"
    using assms by (induction sts arbitrary: s) (auto simp: run_statement_keeps)
  then show ?thesis using drifted_iff by blast
qed

theorem triggers_keep_copies_witness:
  "\<not> drifted (fold run_statement
     [InsertItems [\<lparr>order_id = 7, product_id = 2, qty = 4, unit_price = 250\<rparr>], UpdateItems (\<lambda>x. product_id x = 1) (\<lambda>x. x\<lparr>qty := 12\<rparr>),
      Rename 42 ''Globex'', DeleteItems (\<lambda>x. product_id x = 2), InsertOrder 8 42, SetCustomer (\<lambda>i _. i = 7) 43,
      DeleteOrders (\<lambda>_ r. customer_id r = 42)] little_shop) 7"
  using triggers_keep_copies [OF little_shop_ok] by blast

text \<open>C24: When all names are right and every order without items has a zero count and total, the reconciliation job leaves no
  drift, and the number of rows it reports is the number the drift query found. It never changes an order that has not
  drifted, the customer or the name of any order, the set of orders, the items, customers and products, or the trigger.\<close>

theorem reconcile_repairs:
  assumes names: "\<forall>i r. orders s i = Some r \<longrightarrow> customer_name r = customers s (customer_id r) \<and> customers s (customer_id r) \<noteq> None"
    and empty: "\<forall>i r. orders s i = Some r \<longrightarrow> count_of i (items s) = 0 \<longrightarrow> item_count r = 0 \<and> total_amount r = 0"
  shows "copies_ok (reconcile s) \<and> count_drift ids (reconcile s) = 0 \<and> repaired ids s = count_drift ids s \<and>
     (\<forall>i. \<not> drifted s i \<longrightarrow> orders (reconcile s) i = orders s i) \<and>
     (\<forall>i. map_option (\<lambda>r. (customer_id r, customer_name r)) (orders (reconcile s) i) =
        map_option (\<lambda>r. (customer_id r, customer_name r)) (orders s i)) \<and>
     items (reconcile s) = items s \<and> customers (reconcile s) = customers s \<and> products (reconcile s) = products s \<and>
     ins_trigger (reconcile s) = ins_trigger s"
proof -
  have m: "matched (needs_repair s) s = drifted s" by (rule needs_repair_drifted [OF names empty])
  have ok: "copies_ok (reconcile s)" by (rule reconcile_copies_ok [OF names empty])
  have "orders (reconcile s) i = orders s i" if "\<not> drifted s i" for i
    using that fun_cong [OF m, of i] by (cases "orders s i") (auto simp: reconcile_def matched_def)
  moreover have "map_option (\<lambda>r. (customer_id r, customer_name r)) (orders (reconcile s) i) =
      map_option (\<lambda>r. (customer_id r, customer_name r)) (orders s i)" for i
    by (cases "orders s i") (simp_all add: reconcile_def)
  ultimately show ?thesis
    using ok drifted_iff [OF ok] by (simp add: count_drift_def repaired_def m) (simp add: reconcile_def)
qed

definition skewed :: shop where
  "skewed = little_shop\<lparr>orders := [7 \<mapsto> \<lparr>customer_id = 42, customer_name = Some ''Customer 42'', item_count = 3, total_amount = 5\<rparr>]\<rparr>"

theorem reconcile_repairs_witness:
  "count_drift [7] skewed = 1 \<and> repaired [7] skewed = 1 \<and> count_drift [7] (reconcile skewed) = 0"
proof -
  have "\<forall>i r. orders skewed i = Some r \<longrightarrow> customer_name r = customers skewed (customer_id r) \<and> customers skewed (customer_id r) \<noteq> None"
    "\<forall>i r. orders skewed i = Some r \<longrightarrow> count_of i (items skewed) = 0 \<longrightarrow> item_count r = 0 \<and> total_amount r = 0"
    by (auto simp: skewed_def little_shop_def count_of_def)
  moreover have "count_drift [7] skewed = 1"
    by (simp add: count_drift_def drifted_def skewed_def little_shop_def count_of_def)
  ultimately show ?thesis using reconcile_repairs [of skewed "[7]"] by simp
qed

text \<open>C28: The run of \<open>main\<close>: in a shop with right copies, with product 499, the write that bypasses the trigger makes exactly the
  orders of customer 7 drift that had no item of that product, and the job repairs exactly these.\<close>

theorem bypass_is_repaired:
  assumes ok: "copies_ok s" and items: "items_ok s (items s)" and p: "products s 499 \<noteq> None"
    and ids: "distinct ids" "set ids = dom (orders s)"
  shows "(\<forall>i. drifted (bypass_write ids s) i \<longleftrightarrow>
       (\<exists>r. orders s i = Some r \<and> customer_id r = 7) \<and> (i, 499) \<notin> set (item_keys (items s))) \<and>
     repaired ids (bypass_write ids s) = count_drift ids (bypass_write ids s) \<and>
     copies_ok (reconcile (bypass_write ids s)) \<and> count_drift ids (reconcile (bypass_write ids s)) = 0"
proof -
  define hit where "hit = filter (\<lambda>i. (case orders s i of None \<Rightarrow> False | Some r \<Rightarrow> customer_id r = 7) \<and>
    (i, 499) \<notin> set (item_keys (items s))) ids"
  have its: "items (bypass_write ids s) = items s @ map (\<lambda>i. \<lparr>order_id = i, product_id = 499, qty = 1, unit_price = 999\<rparr>) hit"
    and same: "orders (bypass_write ids s) = orders s" "customers (bypass_write ids s) = customers s"
    using bypass_write_tables [OF items p ids] unfolding hit_def by auto
  have d: "distinct hit" using ids(1) by (simp add: hit_def)
  note counts = count_total_of_bypass [OF d] 
  have drift: "drifted (bypass_write ids s) i \<longleftrightarrow> i \<in> set hit" for i
  proof (cases "orders s i")
    case None
    then have "i \<notin> set hit" by (simp add: hit_def)
    with None show ?thesis by (simp add: drifted_def same)
  next
    case (Some r)
    with ok have "customer_name r = customers s (customer_id r)" "customers s (customer_id r) \<noteq> None"
      "item_count r = count_of i (items s)" by (auto simp: copies_ok_def)
    moreover have "total_amount r = total_of i (items s)" using ok Some by (simp add: copies_ok_def)
    ultimately show ?thesis using Some by (auto simp: drifted_def same its counts split: if_splits)
  qed
  have pos: "count_of i (items s) + 1 \<noteq> 0" for i using count_of_nonneg [of i "items s"] by linarith
  have names: "\<forall>i r. orders (bypass_write ids s) i = Some r \<longrightarrow> customer_name r = customers (bypass_write ids s) (customer_id r) \<and>
      customers (bypass_write ids s) (customer_id r) \<noteq> None"
    using ok by (simp add: same copies_ok_def)
  have empty: "\<forall>i r. orders (bypass_write ids s) i = Some r \<longrightarrow> count_of i (items (bypass_write ids s)) = 0 \<longrightarrow>
      item_count r = 0 \<and> total_amount r = 0"
    using ok count_0_total [of _ "items s"] pos by (auto simp: same its counts copies_ok_def split: if_splits)
  have r: "copies_ok (reconcile (bypass_write ids s))" by (rule reconcile_copies_ok [OF names empty])
  have "(i \<in> set hit) = ((\<exists>r. orders s i = Some r \<and> customer_id r = 7) \<and> (i, 499) \<notin> set (item_keys (items s)))" for i
    using ids(2) by (auto simp: hit_def split: option.splits)
  with drift r drifted_iff [OF r] needs_repair_drifted [OF names empty] show ?thesis
    by (simp add: count_drift_def repaired_def)
qed

definition shop_7 :: shop where
  "shop_7 = \<lparr>customers = [7 \<mapsto> ''Customer 7''], products = [1 \<mapsto> 1000, 499 \<mapsto> 999],
     orders = [5 \<mapsto> \<lparr>customer_id = 7, customer_name = Some ''Customer 7'', item_count = 1, total_amount = 2000\<rparr>],
     items = [\<lparr>order_id = 5, product_id = 1, qty = 2, unit_price = 1000\<rparr>], ins_trigger = True\<rparr>"

theorem bypass_is_repaired_witness:
  "drifted (bypass_write [5] shop_7) 5 \<and> copies_ok (reconcile (bypass_write [5] shop_7))"
proof -
  have "copies_ok shop_7" "items_ok shop_7 (items shop_7)" "products shop_7 499 \<noteq> None" "distinct [5]" "set [5] = dom (orders shop_7)"
    by (auto simp: shop_7_def copies_ok_def items_ok_def item_keys_def count_of_def total_of_def)
  from bypass_is_repaired [OF this] show ?thesis by (simp add: shop_7_def item_keys_def)
qed

text \<open>An order that lost its items without the trigger stays drifted after the job.\<close>

lemma reconcile_misses_empty_order:
  "drifted (reconcile (little_shop\<lparr>items := []\<rparr>)) 7"
  by (simp add: drifted_def reconcile_def needs_repair_def little_shop_def count_of_def)

text \<open>When the transaction of \<open>appLevelAddItem\<close> fails, the process ends with the trigger disabled:
  the deferred ENABLE never runs, and the next item any client inserts drifts.\<close>

theorem failed_app_level_add_leaves_trigger_off:
  assumes "begin_func rb rc (add_item_tx env i p n) (set_ins_trigger False s) = (Inl e, s2)"
    and "applied rc = False"
  shows "app_level_add_item Done rb rc env re i p n s = (None, s\<lparr>ins_trigger := False\<rparr>)"
proof -
  have "s2 = set_ins_trigger False s"
    using assms by (auto simp: begin_func_def split: option.splits prod.splits sum.splits)
  with assms(1) show ?thesis by (simp add: app_level_add_item_def exec_simps set_ins_trigger_def)
qed

theorem failed_app_level_add_leaves_trigger_off_witness:
  "\<exists>s. app_level_add_item Done Done (Refused Transport) (\<lambda>_. Done) Done 7 4 3 little_shop = (None, s) \<and>
     drifted (run_statement (InsertItems [\<lparr>order_id = 7, product_id = 2, qty = 4, unit_price = 250\<rparr>]) s) 7"
proof -
  obtain e s2 where "begin_func Done (Refused Transport) (add_item_tx (\<lambda>_. Done) 7 4 3) (set_ins_trigger False little_shop) = (Inl e, s2)"
    by (simp add: begin_func_def add_item_tx_def bind_tx_def stmt_Done insert_items_def set_ins_trigger_def little_shop_def
        items_ok_def item_keys_def)
  from failed_app_level_add_leaves_trigger_off [OF this] 
  have "app_level_add_item Done Done (Refused Transport) (\<lambda>_. Done) Done 7 4 3 little_shop = (None, little_shop\<lparr>ins_trigger := False\<rparr>)"
    by simp
  moreover have "drifted (run_statement (InsertItems [\<lparr>order_id = 7, product_id = 2, qty = 4, unit_price = 250\<rparr>])
      (little_shop\<lparr>ins_trigger := False\<rparr>)) 7"
    by (simp add: insert_items_def little_shop_def items_ok_def item_keys_def drifted_def count_of_def total_of_def)
  ultimately show ?thesis by blast
qed

text \<open>While the copies are right and every order has an item, the single-table list of a
  customer's latest orders returns exactly the rows of the query with joins and aggregates.\<close>

theorem denormalized_list_agrees:
  assumes "copies_ok s" and "\<forall>i r. orders s i = Some r \<longrightarrow> count_of i (items s) \<noteq> 0"
  shows "list_denormalized ids s = list_normalized ids s"
proof -
  have "(case orders s i of None \<Rightarrow> None
      | Some r \<Rightarrow> (if customer_id r = 1 then Some (i, customer_name r, item_count r, total_amount r) else None)) =
    (case orders s i of None \<Rightarrow> None
      | Some r \<Rightarrow>
          (if customer_id r = 1 \<and> customers s 1 \<noteq> None \<and> filter (\<lambda>x. order_id x = i) (items s) \<noteq> []
           then Some (i, customers s 1, count_of i (items s), total_of i (items s)) else None))" for i
  proof (cases "orders s i")
    case (Some r)
    have n: "filter (\<lambda>x. order_id x = i) (items s) \<noteq> []"
      using assms(2) Some by (auto simp: count_of_def)
    from assms(1) Some have "customer_name r = customers s (customer_id r)" "customers s (customer_id r) \<noteq> None"
      "item_count r = count_of i (items s)" "total_amount r = total_of i (items s)"
      by (simp_all add: copies_ok_def)
    with n Some show ?thesis by (cases "customer_id r = 1") simp_all
  qed simp
  then show ?thesis by (simp add: list_denormalized_def list_normalized_def)
qed

theorem denormalized_list_agrees_witness:
  "list_denormalized [7] little_shop = list_normalized [7] little_shop"
proof -
  have "\<forall>i r. orders little_shop i = Some r \<longrightarrow> count_of i (items little_shop) \<noteq> 0"
    by (auto simp: little_shop_def count_of_def)
  with denormalized_list_agrees [OF little_shop_ok(1)] show ?thesis by blast
qed

end
