(* ===== verification/MatViews.thy ===== *)
theory MatViews
  imports Prelude
begin

text \<open>
  \<open>simulate_materialized_views/main.go\<close>: a materialized view that a refresh recomputes from the fact
  table, and a summary table that an incremental job maintains with a MERGE and a watermark.
  Amounts are in cents, days are numbers, \<open>sales\<close> is in the order in which rows became visible.
\<close>

section \<open>Tables\<close>

record sale =
  sid :: nat
  region :: string
  product :: string
  amount :: int
  day :: int

type_synonym summary = "(string \<times> int) \<rightharpoonup> (int \<times> int)"

record warehouse =
  sales :: "sale list"
  mv :: summary
  agg :: summary
  watermark :: nat

text \<open>\<open>SELECT region, day, count(*), sum(amount) ... GROUP BY region, day\<close>.\<close>

definition group_sales :: "sale list \<Rightarrow> summary" where
  "group_sales rows k =
     (let g = filter (\<lambda>r. (region r, day r) = k) rows in
      if g = [] then None else Some (int (length g), sum_list (map amount g)))"

text \<open>\<open>MERGE INTO daily_sales_agg\<close>: add to the totals of a group, or insert it.\<close>

definition merge_summary :: "summary \<Rightarrow> summary \<Rightarrow> summary" where
  "merge_summary t s k =
     (case s k of
        None \<Rightarrow> t k
      | Some (n, x) \<Rightarrow>
          (case t k of
             None \<Rightarrow> Some (n, x)
           | Some (n', x') \<Rightarrow> Some (n' + n, x' + x)))"

section \<open>Operations\<close>

definition regions :: "string list" where
  "regions = [''north'', ''south'', ''east'', ''west'', ''central'']"

text \<open>\<open>insertSales\<close>: \<open>first\<close> is the next value of the identity sequence, \<open>today\<close> the date of \<open>now()\<close>.\<close>

definition demo_sales :: "nat \<Rightarrow> int \<Rightarrow> nat \<Rightarrow> sale list" where
  "demo_sales first today n =
     map (\<lambda>g. \<lparr>sid = first + g, region = regions ! (Suc g mod 5), product = ''demo'', amount = 10000, day = today\<rparr>) [0..<n]"

definition insert_sales :: "outcome \<Rightarrow> nat \<Rightarrow> int \<Rightarrow> nat \<Rightarrow> warehouse \<Rightarrow> db_error option \<times> warehouse" where
  "insert_sales r first today n = exec r (\<lambda>s. s\<lparr>sales := sales s @ demo_sales first today n\<rparr>)"

text \<open>Both forms of REFRESH install the result of the view's query.\<close>

definition refresh :: "outcome \<Rightarrow> warehouse \<Rightarrow> db_error option \<times> warehouse" where
  "refresh r = exec r (\<lambda>s. s\<lparr>mv := group_sales (sales s)\<rparr>)"

text \<open>\<open>must\<close>: the first error is fatal.\<close>

fun must_all :: "('s \<Rightarrow> db_error option \<times> 's) list \<Rightarrow> 's \<Rightarrow> db_error option \<times> 's" where
  "must_all [] s = (None, s)"
| "must_all (f # fs) s = (case f s of (Some e, s') \<Rightarrow> (Some e, s') | (None, s') \<Rightarrow> must_all fs s')"

definition reset_demo :: "(nat \<Rightarrow> outcome) \<Rightarrow> warehouse \<Rightarrow> db_error option \<times> warehouse" where
  "reset_demo env = must_all
     [exec (env 0) (\<lambda>s. s\<lparr>sales := filter (\<lambda>r. product r \<noteq> ''demo'') (sales s)\<rparr>),
      exec (env 1) (\<lambda>s. s\<lparr>agg := Map.empty\<rparr>),
      exec (env 2) (\<lambda>s. s\<lparr>watermark := 0\<rparr>),
      refresh (env 3)]"

text \<open>
  \<open>incrementalRefresh\<close>. The transaction runs at READ COMMITTED and locks only the watermark:
  \<open>late\<close> are rows that other sessions make visible between the query for the largest id and the
  MERGE. They stay whatever becomes of this transaction.
\<close>

definition max_id :: "sale list \<Rightarrow> nat" where
  "max_id rows = Max (insert 0 (sid ` set rows))"

definition incremental_tx :: "(nat \<Rightarrow> outcome) \<Rightarrow> sale list \<Rightarrow> sale list \<Rightarrow> summary \<times> nat
    \<Rightarrow> (db_error + unit) \<times> summary \<times> nat" where
  "incremental_tx env rows late =
     bind_tx (stmt (env 0) (\<lambda>(t, w). (Inr w, (t, w)))) (\<lambda>lo.
     bind_tx (stmt (env 1) (\<lambda>tw. (Inr (max_id rows), tw))) (\<lambda>hi.
     bind_tx (stmt (env 2) (\<lambda>(t, w). (Inr (),
        (merge_summary t (group_sales (filter (\<lambda>r. lo < sid r \<and> sid r \<le> hi) (rows @ late))), w)))) (\<lambda>_.
     stmt (env 3) (\<lambda>(t, w). (Inr (), (t, hi))))))"

definition incremental_refresh :: "outcome \<Rightarrow> outcome \<Rightarrow> (nat \<Rightarrow> outcome) \<Rightarrow> sale list \<Rightarrow> warehouse
    \<Rightarrow> unit option \<times> warehouse" where
  "incremental_refresh rb rc env late s =
     (case begin_func rb rc (incremental_tx env (sales s) late) (agg s, watermark s) of
        (res, t, w) \<Rightarrow>
          (case res of Inl _ \<Rightarrow> None | Inr _ \<Rightarrow> Some (),
           s\<lparr>sales := sales s @ late, agg := t, watermark := w\<rparr>))"

text \<open>\<open>verifyIncremental\<close>: the rows of either table that the other does not have.\<close>

definition verify_incremental :: "warehouse \<Rightarrow> bool" where
  "verify_incremental s \<longleftrightarrow>
     Map.graph (mv s) - Map.graph (agg s) = {} \<and> Map.graph (agg s) - Map.graph (mv s) = {}"

section \<open>Reads\<close>

text \<open>\<open>rawQuery\<close> and \<open>mvQuery\<close> for one region, since day \<open>d0\<close>; a region without rows is not in the result.\<close>

definition raw_query :: "int \<Rightarrow> sale list \<Rightarrow> string \<Rightarrow> int option" where
  "raw_query d0 rows rg =
     (let g = filter (\<lambda>r. region r = rg \<and> d0 \<le> day r) rows in
      if g = [] then None else Some (sum_list (map amount g)))"

definition mv_query :: "int \<Rightarrow> summary \<Rightarrow> string \<Rightarrow> int option" where
  "mv_query d0 t rg =
     (let ds = {d. d0 \<le> d \<and> (rg, d) \<in> dom t} in
      if ds = {} then None else Some (\<Sum>d\<in>ds. snd (the (t (rg, d)))))"

definition today_revenue :: "int \<Rightarrow> summary \<Rightarrow> int" where
  "today_revenue today t = (\<Sum>k\<in>{k \<in> dom t. snd k = today}. snd (the (t k)))"

text \<open>
  \<open>readerDuringRefresh\<close>: a refresh is held open while another session reads with a lock timeout.
  \<open>reader\<close> is what the reader's transaction returns; every other failure is fatal.
\<close>

datatype verdict = Served | Blocked

definition reader_verdict :: "(db_error + nat) \<Rightarrow> verdict option" where
  "reader_verdict res = (case res of
     Inr _ \<Rightarrow> Some Served
   | Inl e \<Rightarrow> (if e = Sqlstate ''55P03'' then Some Blocked else None))"

definition reader_during_refresh :: "outcome \<Rightarrow> outcome \<Rightarrow> (db_error + nat) \<Rightarrow> outcome \<Rightarrow> warehouse
    \<Rightarrow> verdict option \<times> warehouse" where
  "reader_during_refresh rb rx reader rc s =
     (case begin_func rb rc (bind_tx (stmt rx (\<lambda>s. (Inr (), s\<lparr>mv := group_sales (sales s)\<rparr>)))
        (\<lambda>_ s. (case reader_verdict reader of None \<Rightarrow> Inl Transport | Some v \<Rightarrow> Inr v, s))) s of
        (Inl _, s') \<Rightarrow> (None, s')
      | (Inr v, s') \<Rightarrow> (Some v, s'))"

text \<open>\<open>periodicRefresh\<close>: the three goroutines' calls in the order they reach the server.\<close>

datatype tick = Refresh outcome | Write outcome nat int | Read bool

record counters =
  refreshes :: nat
  writes :: nat
  reads :: nat

fun periodic_step :: "counters \<times> warehouse \<Rightarrow> tick \<Rightarrow> counters \<times> warehouse" where
  "periodic_step (c, s) (Refresh r) =
     (case refresh r s of
        (None, s') \<Rightarrow> (c\<lparr>refreshes := Suc (refreshes c)\<rparr>, s')
      | (Some _, s') \<Rightarrow> (c, s'))"
| "periodic_step (c, s) (Write r i d) =
     (case exec r (\<lambda>s. s\<lparr>sales := sales s @ [\<lparr>sid = i, region = ''north'', product = ''demo'', amount = 10000, day = d\<rparr>]\<rparr>) s of
        (None, s') \<Rightarrow> (c\<lparr>writes := Suc (writes c)\<rparr>, s')
      | (Some _, s') \<Rightarrow> (c, s'))"
| "periodic_step (c, s) (Read ok) = (if ok then c\<lparr>reads := Suc (reads c)\<rparr> else c, s)"

definition periodic_refresh :: "tick list \<Rightarrow> warehouse \<Rightarrow> counters \<times> warehouse" where
  "periodic_refresh ts s = foldl periodic_step (\<lparr>refreshes = 0, writes = 0, reads = 0\<rparr>, s) ts"

section \<open>Summaries that can be maintained incrementally\<close>

text \<open>
  The contract between an aggregate and the job that maintains it: it does not depend on the order
  of the rows, and a merge of two parts is the aggregate of both.
\<close>

locale incremental =
  fixes summarise :: "'r list \<Rightarrow> 't" and merge :: "'t \<Rightarrow> 't \<Rightarrow> 't"
  assumes summarise_append: "summarise (xs @ ys) = merge (summarise xs) (summarise ys)"
    and summarise_mset: "mset xs = mset ys \<Longrightarrow> summarise xs = summarise ys"
begin

lemma merge_partition: "merge (summarise (filter P xs)) (summarise (filter (\<lambda>x. \<not> P x) xs)) = summarise xs"
proof -
  have "mset (filter P xs @ filter (\<lambda>x. \<not> P x) xs) = mset xs"
    by (simp add: filter_mset_partition del: mset_filter)
  then show ?thesis by (metis summarise_append summarise_mset)
qed

lemma merge_window:
  fixes key :: "'r \<Rightarrow> nat"
  assumes "lo \<le> hi"
  shows "merge (summarise (filter (\<lambda>x. key x \<le> lo) xs)) (summarise (filter (\<lambda>x. lo < key x \<and> key x \<le> hi) xs)) =
    summarise (filter (\<lambda>x. key x \<le> hi) xs)"
proof -
  have "filter (\<lambda>x. key x \<le> lo) (filter (\<lambda>x. key x \<le> hi) xs) = filter (\<lambda>x. key x \<le> lo) xs"
    using assms by (auto intro: filter_cong)
  moreover have "filter (\<lambda>x. \<not> key x \<le> lo) (filter (\<lambda>x. key x \<le> hi) xs) = filter (\<lambda>x. lo < key x \<and> key x \<le> hi) xs"
    by (auto intro: filter_cong)
  ultimately show ?thesis using merge_partition [of "\<lambda>x. key x \<le> lo" "filter (\<lambda>x. key x \<le> hi) xs"] by simp
qed

end

lemma group_sales_mset: "mset xs = mset ys \<Longrightarrow> group_sales xs = group_sales ys"
proof
  fix k assume m: "mset xs = mset ys"
  let ?P = "\<lambda>r. (region r, day r) = k"
  have f: "mset (filter ?P xs) = mset (filter ?P ys)" using m by (simp only: mset_filter)
  moreover have "mset (map amount (filter ?P xs)) = mset (map amount (filter ?P ys))"
    using f by (simp only: mset_map)
  then have "sum_list (map amount (filter ?P xs)) = sum_list (map amount (filter ?P ys))"
    by (simp only: flip: sum_mset_sum_list)
  moreover have "length (filter ?P xs) = length (filter ?P ys)" using mset_eq_length [OF f] by simp
  moreover have "filter ?P xs = [] \<longleftrightarrow> filter ?P ys = []" by (simp only: f flip: mset_zero_iff)
  ultimately show "group_sales xs k = group_sales ys k" by (simp only: group_sales_def Let_def)
qed

lemma totals_append:
  "(if f @ g = [] then None else Some (int (length (f @ g)), sum_list (map amount (f @ g)))) =
   (case if g = [] then None else Some (int (length g), sum_list (map amount g)) of
      None \<Rightarrow> if f = [] then None else Some (int (length f), sum_list (map amount f))
    | Some (n, x) \<Rightarrow>
        (case if f = [] then None else Some (int (length f), sum_list (map amount f)) of
           None \<Rightarrow> Some (n, x)
         | Some (n', x') \<Rightarrow> Some (n' + n, x' + x)))"
  by (cases "f = []"; cases "g = []") simp_all

lemma group_sales_append: "group_sales (xs @ ys) = merge_summary (group_sales xs) (group_sales ys)"
  by (rule ext) (unfold group_sales_def merge_summary_def Let_def filter_append, rule totals_append)

interpretation daily: incremental group_sales merge_summary
  by unfold_locales (rule group_sales_append, erule group_sales_mset)

section \<open>The incremental job\<close>

datatype mv_step =
    Commit "sale list"
  | Full outcome
  | Incremental outcome outcome "nat \<Rightarrow> outcome" "sale list"

fun run_mv :: "mv_step \<Rightarrow> warehouse \<Rightarrow> warehouse" where
  "run_mv (Commit rows) s = s\<lparr>sales := sales s @ rows\<rparr>"
| "run_mv (Full r) s = snd (refresh r s)"
| "run_mv (Incremental rb rc env late) s = snd (incremental_refresh rb rc env late s)"

definition in_order :: "sale list \<Rightarrow> bool" where
  "in_order rows \<longleftrightarrow> sorted_wrt (<) (0 # map sid rows)"

definition agg_ok :: "warehouse \<Rightarrow> bool" where
  "agg_ok s \<longleftrightarrow> agg s = group_sales (filter (\<lambda>r. sid r \<le> watermark s) (sales s)) \<and> watermark s \<le> max_id (sales s)"

lemma in_order_append:
  assumes "in_order (xs @ ys)"
  shows "in_order xs \<and> (\<forall>y \<in> set ys. max_id xs < sid y)"
  using assms by (auto simp: in_order_def sorted_wrt_append max_id_def)

lemma max_id_append: "max_id xs \<le> max_id (xs @ ys)"
  unfolding max_id_def by (intro Max_mono) auto

lemma agg_ok_commit:
  assumes "agg_ok s" "in_order (sales s @ late)" and "sales t = sales s @ late" "agg t = agg s" "watermark t = watermark s"
  shows "agg_ok t"
proof -
  have "\<forall>y \<in> set late. watermark s < sid y"
    using assms(1) in_order_append [OF assms(2)] by (auto simp: agg_ok_def)
  then have "filter (\<lambda>r. sid r \<le> watermark s) late = []"
    by (auto simp: filter_empty_conv)
  moreover have "watermark s \<le> max_id (sales s @ late)"
    using assms(1) max_id_append [of "sales s" late] by (simp add: agg_ok_def)
  ultimately show ?thesis using assms(1,3-5) by (simp add: agg_ok_def)
qed

lemma incremental_tx_Inr:
  "incremental_tx env rows late (t, w) = (Inr u, tw) \<Longrightarrow>
   tw = (merge_summary t (group_sales (filter (\<lambda>r. w < sid r \<and> sid r \<le> max_id rows) (rows @ late))), max_id rows)"
  by (auto simp: incremental_tx_def tx_simps)

lemma incremental_refresh_cases:
  obtains (rolled_back) "snd (incremental_refresh rb rc env late s) = s\<lparr>sales := sales s @ late\<rparr>"
    | (merged) "snd (incremental_refresh rb rc env late s) = s\<lparr>sales := sales s @ late,
        agg := merge_summary (agg s)
          (group_sales (filter (\<lambda>r. watermark s < sid r \<and> sid r \<le> max_id (sales s)) (sales s @ late))),
        watermark := max_id (sales s)\<rparr>"
proof -
  obtain res t w where b: "begin_func rb rc (incremental_tx env (sales s) late) (agg s, watermark s) = (res, t, w)"
    by (metis prod_cases3)
  have e: "snd (incremental_refresh rb rc env late s) = s\<lparr>sales := sales s @ late, agg := t, watermark := w\<rparr>"
    by (simp add: incremental_refresh_def b)
  from tx.run_state [of rb rc "incremental_tx env (sales s) late" "(agg s, watermark s)"]
  consider "(t, w) = (agg s, watermark s)"
    | "\<exists>x. incremental_tx env (sales s) late (agg s, watermark s) = (Inr x, t, w)"
    by (auto simp: b)
  then show ?thesis
  proof cases
    case 1
    then show ?thesis using e rolled_back by simp
  next
    case 2
    then show ?thesis using e merged incremental_tx_Inr by blast
  qed
qed

lemma incremental_keeps:
  assumes "agg_ok s" "in_order (sales s @ late)"
  shows "agg_ok (snd (incremental_refresh rb rc env late s))"
proof (cases rule: incremental_refresh_cases [of rb rc env late s])
  case rolled_back
  show ?thesis by (rule agg_ok_commit [OF assms]) (simp_all add: rolled_back)
next
  case merged
  have m: "agg_ok (s\<lparr>sales := sales s @ late\<rparr>)"
    by (rule agg_ok_commit [OF assms]) simp_all
  then have "merge_summary (agg s) (group_sales (filter (\<lambda>r. watermark s < sid r \<and> sid r \<le> max_id (sales s)) (sales s @ late))) =
      group_sales (filter (\<lambda>r. sid r \<le> max_id (sales s)) (sales s @ late))"
    using daily.merge_window [of "watermark s" "max_id (sales s)" sid "sales s @ late"] assms(1)
    by (simp add: agg_ok_def)
  then show ?thesis by (simp add: merged agg_ok_def max_id_append)
qed

lemma sales_grow: "\<exists>new. sales (fold run_mv sts s) = sales s @ new"
proof (induction sts arbitrary: s)
  case (Cons st sts)
  have "\<exists>new. sales (run_mv st s) = sales s @ new"
    by (cases st) (auto simp: refresh_def exec_def incremental_refresh_def split: prod.split)
  with Cons [of "run_mv st s"] show ?case by auto
qed simp

lemma run_mv_keeps:
  assumes "agg_ok s" "in_order (sales (run_mv st s))"
  shows "agg_ok (run_mv st s)"
proof (cases st)
  case (Commit rows)
  with assms show ?thesis by (auto intro: agg_ok_commit)
next
  case (Full r)
  have "agg_ok (run_mv st s) = agg_ok s" by (simp add: Full refresh_def exec_def agg_ok_def)
  with assms(1) show ?thesis by simp
next
  case (Incremental rb rc env late)
  moreover have "sales (run_mv st s) = sales s @ late"
    by (simp add: Incremental incremental_refresh_def split: prod.split)
  ultimately show ?thesis using assms by (simp add: incremental_keeps)
qed

definition empty_warehouse :: warehouse where
  "empty_warehouse = \<lparr>sales = [], mv = Map.empty, agg = Map.empty, watermark = 0\<rparr>"

definition some_sale :: "nat \<Rightarrow> sale" where
  "some_sale i = \<lparr>sid = i, region = ''north'', product = ''demo'', amount = 10000, day = 20\<rparr>"

lemma empty_warehouse_ok: "agg_ok empty_warehouse"
  by (simp add: agg_ok_def empty_warehouse_def group_sales_def fun_eq_iff)

text \<open>C18: Whatever incremental refreshes fail, lose their commit acknowledgement or run beside writers
  and full refreshes, the summary table holds each sale up to the watermark exactly once, as long as
  sales become visible in the order of their ids.\<close>

theorem watermark_is_exact:
  assumes "agg_ok s" and "in_order (sales (fold run_mv sts s))"
  shows "agg (fold run_mv sts s) =
    group_sales (filter (\<lambda>r. sid r \<le> watermark (fold run_mv sts s)) (sales (fold run_mv sts s)))"
proof -
  have "agg_ok (fold run_mv sts s)"
    using assms
  proof (induction sts arbitrary: s)
    case (Cons st sts)
    obtain new where "sales (fold run_mv sts (run_mv st s)) = sales (run_mv st s) @ new"
      using sales_grow by blast
    with Cons.prems(2) have "in_order (sales (run_mv st s))" by (simp add: in_order_append)
    with Cons show ?case by (simp add: run_mv_keeps)
  qed simp
  then show ?thesis by (simp add: agg_ok_def)
qed

definition lost_commit_run :: "mv_step list" where
  "lost_commit_run = [Commit [some_sale 1, some_sale 2], Incremental Done (Lost Transport) (\<lambda>_. Done) [some_sale 3],
     Incremental Done Done (\<lambda>_. Done) []]"

theorem watermark_is_exact_witness:
  "agg (fold run_mv lost_commit_run empty_warehouse) =
     group_sales (filter (\<lambda>r. sid r \<le> watermark (fold run_mv lost_commit_run empty_warehouse))
       (sales (fold run_mv lost_commit_run empty_warehouse)))"
proof -
  have "sales (fold run_mv lost_commit_run empty_warehouse) = map some_sale [1, 2, 3]"
    by (simp add: lost_commit_run_def incremental_refresh_def empty_warehouse_def split: prod.split)
  then have "in_order (sales (fold run_mv lost_commit_run empty_warehouse))"
    by (simp add: in_order_def some_sale_def)
  from watermark_is_exact [OF empty_warehouse_ok this] show ?thesis .
qed

text \<open>The job returns when the server answers every call, and is then equal to a full refresh.\<close>

lemma incremental_refresh_Done:
  "incremental_refresh Done Done (\<lambda>_. Done) [] s =
     (Some (), s\<lparr>agg := merge_summary (agg s) (group_sales (filter (\<lambda>r. watermark s < sid r \<and> sid r \<le> max_id (sales s)) (sales s))),
        watermark := max_id (sales s)\<rparr>)"
  by (simp add: incremental_refresh_def incremental_tx_def tx_simps bind_tx_def)

lemma sid_le_max_id: "r \<in> set rows \<Longrightarrow> sid r \<le> max_id rows"
  by (simp add: max_id_def)

text \<open>After an incremental refresh and a full refresh that both succeed with no writer between them,
  the check of the program finds no difference between the two tables.\<close>

theorem incremental_equals_full:
  assumes "agg_ok s" and "incremental_refresh Done Done (\<lambda>_. Done) [] s = (Some (), s1)"
    and "refresh Done s1 = (None, s2)"
  shows "verify_incremental s2"
proof -
  have "filter (\<lambda>r. sid r \<le> max_id (sales s)) (sales s) = sales s"
    by (simp add: filter_id_conv sid_le_max_id)
  with assms(1) have "merge_summary (agg s)
      (group_sales (filter (\<lambda>r. watermark s < sid r \<and> sid r \<le> max_id (sales s)) (sales s))) = group_sales (sales s)"
    using daily.merge_window [of "watermark s" "max_id (sales s)" sid "sales s"] by (simp add: agg_ok_def)
  with assms(2,3) have "mv s2 = agg s2"
    by (auto simp: incremental_refresh_Done refresh_def exec_simps)
  then show ?thesis by (simp add: verify_incremental_def)
qed

theorem incremental_equals_full_witness:
  "verify_incremental (snd (refresh Done (snd (incremental_refresh Done Done (\<lambda>_. Done) []
     (empty_warehouse\<lparr>sales := map some_sale [1, 2, 3]\<rparr>)))))"
proof -
  define s where "s = empty_warehouse\<lparr>sales := map some_sale [1, 2, 3]\<rparr>"
  have k: "agg_ok s"
    by (simp add: s_def agg_ok_def empty_warehouse_def some_sale_def group_sales_def fun_eq_iff)
  define s1 where "s1 = snd (incremental_refresh Done Done (\<lambda>_. Done) [] s)"
  have "incremental_refresh Done Done (\<lambda>_. Done) [] s = (Some (), s1)"
    by (simp add: s1_def incremental_refresh_Done)
  moreover have "refresh Done s1 = (None, snd (refresh Done s1))"
    by (simp add: refresh_def exec_simps)
  ultimately have "verify_incremental (snd (refresh Done s1))"
    by (rule incremental_equals_full [OF k])
  then show ?thesis by (simp add: s1_def s_def)
qed

text \<open>A sale whose transaction commits after the watermark passed its id is never counted: every
  later incremental refresh leaves the same summary and watermark as if the row did not exist.\<close>

theorem late_commit_is_skipped:
  assumes "sid r \<le> watermark s" and "watermark s \<le> max_id rows" and "incremental_refresh rb rc env late (s\<lparr>sales := rows @ [r]\<rparr>) = (u, s1)"
    and "incremental_refresh rb rc env late (s\<lparr>sales := rows\<rparr>) = (v, s2)"
  shows "agg s1 = agg s2 \<and> watermark s1 = watermark s2 \<and> u = v"
proof -
  have "max_id (rows @ [r]) = max (sid r) (max_id rows)"
    by (simp add: max_id_def insert_commute [of _ "0 :: nat"] flip: Max_insert)
  then have m: "max_id (rows @ [r]) = max_id rows" using assms(1,2) by simp
  have "incremental_tx env (rows @ [r]) late (agg s, watermark s) = incremental_tx env rows late (agg s, watermark s)"
    using assms(1) by (cases "env 0"; cases "env 1"; cases "env 2") (simp_all add: incremental_tx_def bind_tx_def stmt_def m)
  then have "begin_func rb rc (incremental_tx env (rows @ [r]) late) (agg s, watermark s) =
      begin_func rb rc (incremental_tx env rows late) (agg s, watermark s)"
    unfolding begin_func_def by (rule arg_cong)
  with assms(3,4) show ?thesis by (auto simp: incremental_refresh_def split: prod.splits)
qed

theorem late_commit_is_skipped_witness:
  "\<exists>s s1. watermark s = 3 \<and> incremental_refresh Done Done (\<lambda>_. Done) [] (s\<lparr>sales := [some_sale 1, some_sale 3, some_sale 2]\<rparr>) = (Some (), s1) \<and>
     agg s1 (''north'', 20) = Some (2, 20000)"
proof -
  define s where "s = empty_warehouse\<lparr>agg := [(''north'', 20) \<mapsto> (2, 20000)], watermark := 3\<rparr>"
  define rows where "rows = [some_sale 1, some_sale 3]"
  have p: "sid (some_sale 2) \<le> watermark s" "watermark s \<le> max_id rows"
    by (simp_all add: s_def rows_def some_sale_def max_id_def)
  define s1 where "s1 = snd (incremental_refresh Done Done (\<lambda>_. Done) [] (s\<lparr>sales := rows @ [some_sale 2]\<rparr>))"
  define s2 where "s2 = snd (incremental_refresh Done Done (\<lambda>_. Done) [] (s\<lparr>sales := rows\<rparr>))"
  have e: "incremental_refresh Done Done (\<lambda>_. Done) [] (s\<lparr>sales := rows @ [some_sale 2]\<rparr>) = (Some (), s1)"
    "incremental_refresh Done Done (\<lambda>_. Done) [] (s\<lparr>sales := rows\<rparr>) = (Some (), s2)"
    by (simp_all add: s1_def s2_def incremental_refresh_Done)
  have "agg s1 = agg s2" using late_commit_is_skipped [OF p e] by blast
  moreover have "agg s2 (''north'', 20) = Some (2, 20000)"
    by (simp add: s2_def incremental_refresh_Done s_def rows_def some_sale_def max_id_def merge_summary_def group_sales_def)
  moreover have "watermark s = 3" by (simp add: s_def)
  ultimately show ?thesis using e(1) by (auto simp: rows_def)
qed

lemma sum_by_key:
  fixes f :: "'a \<Rightarrow> int"
  assumes "finite D" and "key ` set xs \<subseteq> D"
  shows "(\<Sum>d\<in>D. sum_list (map f (filter (\<lambda>x. key x = d) xs))) = sum_list (map f xs)"
  using assms(2)
proof (induction xs)
  case (Cons x xs)
  have "(\<Sum>d\<in>D. sum_list (map f (filter (\<lambda>y. key y = d) (x # xs)))) =
      (\<Sum>d\<in>D. (if key x = d then f x else 0) + sum_list (map f (filter (\<lambda>y. key y = d) xs)))"
    by (intro sum.cong) auto
  also have "\<dots> = f x + sum_list (map f xs)"
    using Cons assms(1) by (simp add: sum.distrib sum.delta)
  finally show ?case by simp
qed simp

text \<open>Right after a refresh the view answers the dashboard query exactly as the aggregate over the
  fact table does, in every region and for every first day.\<close>

theorem view_answers_raw_query:
  assumes "refresh r s = (None, s')"
  shows "mv_query d0 (mv s') rg = raw_query d0 (sales s) rg"
proof -
  let ?g = "filter (\<lambda>r. region r = rg \<and> d0 \<le> day r) (sales s)"
  have m: "mv s' = group_sales (sales s)"
    using exec_ok [OF assms [unfolded refresh_def]] by simp
  have ds: "{d. d0 \<le> d \<and> (rg, d) \<in> dom (mv s')} = day ` set ?g"
    by (auto simp: m group_sales_def Let_def filter_empty_conv split: if_splits)
  have "snd (the (mv s' (rg, d))) = sum_list (map amount (filter (\<lambda>r. day r = d) ?g))" if "d \<in> day ` set ?g" for d
  proof -
    have "filter (\<lambda>r. day r = d) ?g = filter (\<lambda>r. (region r, day r) = (rg, d)) (sales s)"
      using that by (auto intro: filter_cong)
    moreover from that have "filter (\<lambda>r. (region r, day r) = (rg, d)) (sales s) \<noteq> []"
      by (auto simp: filter_empty_conv)
    ultimately show ?thesis by (simp add: m group_sales_def Let_def del: prod.inject)
  qed
  then have sums: "(\<Sum>d\<in>day ` set ?g. snd (the (mv s' (rg, d)))) = sum_list (map amount ?g)"
    using sum_by_key [of "day ` set ?g" day ?g amount] by simp
  have "mv_query d0 (mv s') rg =
      (if day ` set ?g = {} then None else Some (\<Sum>d\<in>day ` set ?g. snd (the (mv s' (rg, d)))))"
    unfolding mv_query_def Let_def ds ..
  also have "\<dots> = (if ?g = [] then None else Some (sum_list (map amount ?g)))"
    unfolding sums image_is_empty set_empty ..
  finally show ?thesis unfolding raw_query_def Let_def .
qed

theorem view_answers_raw_query_witness:
  "mv_query 1 (mv (snd (refresh Done (empty_warehouse\<lparr>sales := [some_sale 1, some_sale 2]\<rparr>)))) ''north'' = Some 20000"
proof -
  define s where "s = empty_warehouse\<lparr>sales := [some_sale 1, some_sale 2]\<rparr>"
  have "refresh Done s = (None, snd (refresh Done s))" by (simp add: refresh_def exec_simps)
  from view_answers_raw_query [OF this, of 1 "''north''"]
  show ?thesis by (simp add: s_def raw_query_def some_sale_def)
qed

section \<open>Staleness\<close>

lemma periodic_mono: "\<exists>new. sales (snd (foldl periodic_step cs ts)) = sales (snd cs) @ new"
proof (induction ts arbitrary: cs)
  case (Cons t ts)
  have "\<exists>new. sales (snd (periodic_step cs t)) = sales (snd cs) @ new"
    by (cases cs; cases t) (auto simp: refresh_def exec_def split: option.split)
  with Cons [of "periodic_step cs t"] show ?case by auto
qed simp

lemma no_refresh_mv:
  assumes "\<forall>t \<in> set ts. \<not> (\<exists>r. t = Refresh r)"
  shows "mv (snd (foldl periodic_step cs ts)) = mv (snd cs)"
  using assms
proof (induction ts arbitrary: cs)
  case (Cons t ts)
  have "mv (snd (periodic_step cs t)) = mv (snd cs)"
    using Cons.prems by (cases cs; cases t) (auto simp: exec_def split: option.split)
  with Cons show ?case by simp
qed simp

text \<open>What a reader sees during periodic refreshing is the exact aggregate at the last refresh that
  succeeded: every sale visible then is in it, only later ones are missing.\<close>

theorem staleness_is_bounded:
  assumes "\<forall>t \<in> set after. \<not> (\<exists>r. t = Refresh r)" and "periodic_refresh before s = (c, s0)"
  shows "\<exists>new. sales (snd (periodic_refresh (before @ Refresh Done # after) s)) = sales s0 @ new \<and>
    mv (snd (periodic_refresh (before @ Refresh Done # after) s)) = group_sales (sales s0)"
proof -
  let ?cs = "periodic_step (c, s0) (Refresh Done)"
  have e: "periodic_refresh (before @ Refresh Done # after) s = foldl periodic_step ?cs after"
    using assms(2) by (simp add: periodic_refresh_def)
  have "sales (snd ?cs) = sales s0" "mv (snd ?cs) = group_sales (sales s0)"
    by (simp_all add: refresh_def exec_simps)
  with no_refresh_mv [OF assms(1), of ?cs] periodic_mono [of ?cs after] show ?thesis by (simp add: e)
qed

theorem staleness_is_bounded_witness:
  "mv (snd (periodic_refresh ([Write Done 1 20] @ Refresh Done # [Read True, Write Done 2 20]) empty_warehouse)) =
     group_sales [some_sale 1]"
proof -
  have "periodic_refresh [Write Done 1 20] empty_warehouse =
      (\<lparr>refreshes = 0, writes = 1, reads = 0\<rparr>, empty_warehouse\<lparr>sales := [some_sale 1]\<rparr>)"
    by (simp add: periodic_refresh_def exec_simps empty_warehouse_def some_sale_def)
  from staleness_is_bounded [OF _ this, of "[Read True, Write Done 2 20]"] show ?thesis by simp
qed

text \<open>After \<open>resetDemo\<close> the incremental job may run again from the first row.\<close>

lemma reset_demo_ok:
  assumes "reset_demo env s = (None, s')" and "\<forall>r \<in> set (sales s). 0 < sid r"
  shows "agg_ok s' \<and> mv s' = group_sales (sales s')"
proof -
  let ?rows = "filter (\<lambda>r. product r \<noteq> ''demo'') (sales s)"
  have "env 0 = Done" "env (Suc 0) = Done" "env 2 = Done" "env 3 = Done"
    using assms(1) by (auto simp: reset_demo_def refresh_def exec_def split: option.splits)
  with assms(1) have e: "sales s' = ?rows" "agg s' = Map.empty" "watermark s' = 0" "mv s' = group_sales ?rows"
    by (auto simp: reset_demo_def refresh_def exec_simps)
  have n: "filter (\<lambda>r. sid r \<le> 0) ?rows = []"
    using assms(2) by (auto simp: filter_empty_conv)
  have "group_sales (filter (\<lambda>r. sid r \<le> 0) ?rows) = Map.empty"
    unfolding n by (simp add: group_sales_def fun_eq_iff)
  with e show ?thesis by (simp add: agg_ok_def)
qed

end
