(* ===== verification/MultiPrimary.thy ===== *)
theory MultiPrimary
  imports GoStd "HOL-Library.Char_ord" "HOL-Library.List_Lexorder"
begin

text \<open>
  \<open>simulate_multi_primary_replication/main.go\<close> and the trigger its \<open>init\<close> script installs: two nodes
  that accept writes and ship the changes that originate on them to the other one. A node's \<open>outbox\<close>
  is its replication slot for the peer: changes in commit order, applied one by one.
\<close>

section \<open>Row versions\<close>

text \<open>The pair \<open>(updated_at, updated_by)\<close>, compared lexicographically.\<close>

datatype version = Version (updated_at: nat) (updated_by: string)

instantiation version :: linorder
begin

fun less_eq_version :: "version \<Rightarrow> version \<Rightarrow> bool" where
  "less_eq_version (Version t n) (Version t' n') = (t < t' \<or> t = t' \<and> n \<le> n')"

definition less_version :: "version \<Rightarrow> version \<Rightarrow> bool" where
  "less_version v w \<longleftrightarrow> v \<le> w \<and> \<not> w \<le> v"

instance
proof
  fix u v w :: version
  show "v < w \<longleftrightarrow> v \<le> w \<and> \<not> w \<le> v" by (rule less_version_def)
  show "v \<le> v" by (cases v) simp
  show "u \<le> v \<Longrightarrow> v \<le> w \<Longrightarrow> u \<le> w" by (cases u; cases v; cases w) auto
  show "v \<le> w \<Longrightarrow> w \<le> v \<Longrightarrow> v = w" by (cases v; cases w) auto
  show "v \<le> w \<or> w \<le> v" by (cases v; cases w) auto
qed

end

lemma version_less: "Version t n < Version t' n' \<longleftrightarrow> t < t' \<or> t = t' \<and> n < n'"
  by (auto simp: less_version_def)

section \<open>Nodes\<close>

record account =
  owner :: string
  balance :: int
  stamp :: version

record order =
  item :: string
  written_on :: string

datatype change =
    NewOrder nat order
  | NewAccount nat account
  | SetAccount nat account

record node =
  name :: string
  node_id :: nat
  issued :: nat             \<comment> \<open>values drawn from the identity sequence of orders\<close>
  orders :: "nat \<rightharpoonup> order"
  accounts :: "nat \<rightharpoonup> account"
  lww :: bool               \<comment> \<open>accounts_lww is enabled as a replica trigger\<close>
  subscribed :: bool        \<comment> \<open>sub_from_peer is enabled\<close>
  worker :: bool            \<comment> \<open>its apply worker is running\<close>
  outbox :: "change list"

type_synonym cluster = "bool \<Rightarrow> node"

abbreviation (input) node_a :: bool where "node_a \<equiv> True"
abbreviation (input) node_b :: bool where "node_b \<equiv> False"

section \<open>Local writes\<close>

definition order_id :: "nat \<Rightarrow> nat \<Rightarrow> nat" where
  "order_id start i = start + 10 * i"

definition insert_order :: "string \<Rightarrow> node \<Rightarrow> node" where
  "insert_order it n =
     (let i = order_id (node_id n) (issued n); r = \<lparr>item = it, written_on = name n\<rparr> in
      if orders n i \<noteq> None then n\<lparr>issued := Suc (issued n)\<rparr>
      else n\<lparr>issued := Suc (issued n), orders := (orders n)(i \<mapsto> r),
             outbox := outbox n @ [NewOrder i r]\<rparr>)"

definition insert_account :: "nat \<Rightarrow> string \<Rightarrow> int \<Rightarrow> nat \<Rightarrow> node \<Rightarrow> node" where
  "insert_account i who bal t n =
     (let r = \<lparr>owner = who, balance = bal, stamp = Version t (name n)\<rparr> in
      if accounts n i \<noteq> None then n
      else n\<lparr>accounts := (accounts n)(i \<mapsto> r), outbox := outbox n @ [NewAccount i r]\<rparr>)"

text \<open>\<open>UPDATE accounts SET balance, updated_at = clock_timestamp(), updated_by = cluster_name\<close>; the
  replica trigger does not fire for it.\<close>

definition update_account :: "nat \<Rightarrow> int \<Rightarrow> nat \<Rightarrow> node \<Rightarrow> node" where
  "update_account i bal t n =
     (case accounts n i of
        None \<Rightarrow> n
      | Some old \<Rightarrow>
          (let r = old\<lparr>balance := bal, stamp := Version t (name n)\<rparr> in
           n\<lparr>accounts := (accounts n)(i \<mapsto> r), outbox := outbox n @ [SetAccount i r]\<rparr>))"

section \<open>Replication\<close>

text \<open>\<open>lww_guard\<close>.\<close>

definition lww_guard :: "account \<Rightarrow> account \<Rightarrow> account" where
  "lww_guard old new = (if stamp new < stamp old then old else new)"

text \<open>
  The apply worker: an update of a missing row is skipped, an insert of an existing key is an error
  that stops the worker (\<open>None\<close>), and \<open>origin = none\<close> keeps what it applies out of the outbox.
  \<open>ALTER SUBSCRIPTION\<close> only sets the flag: a running worker goes on delivering until it has stopped,
  and it is started again only while the subscription is enabled.
\<close>

fun apply_change :: "change \<Rightarrow> node \<Rightarrow> node option" where
  "apply_change (NewOrder i r) n =
     (if orders n i \<noteq> None then None else Some (n\<lparr>orders := (orders n)(i \<mapsto> r)\<rparr>))"
| "apply_change (NewAccount i r) n =
     (if accounts n i \<noteq> None then None else Some (n\<lparr>accounts := (accounts n)(i \<mapsto> r)\<rparr>))"
| "apply_change (SetAccount i r) n =
     (case accounts n i of
        None \<Rightarrow> Some n
      | Some old \<Rightarrow> Some (n\<lparr>accounts := (accounts n)(i \<mapsto> if lww n then lww_guard old r else r)\<rparr>))"

definition deliver :: "bool \<Rightarrow> cluster \<Rightarrow> cluster" where
  "deliver s c =
     (if \<not> worker (c s) then c
      else case outbox (c (\<not> s)) of
        [] \<Rightarrow> c
      | ch # rest \<Rightarrow>
          (case apply_change ch (c s) of
             None \<Rightarrow> c
           | Some n \<Rightarrow> c(s := n, (\<not> s) := (c (\<not> s))\<lparr>outbox := rest\<rparr>)))"

definition local_op :: "bool \<Rightarrow> (node \<Rightarrow> node) \<Rightarrow> cluster \<Rightarrow> cluster" where
  "local_op s f c = c(s := f (c s))"

text \<open>The set-up: subscriptions dropped with their slots, tables emptied, trigger off, subscribed again.\<close>

definition set_up :: "cluster \<Rightarrow> cluster" where
  "set_up c s = (c s)\<lparr>orders := Map.empty, accounts := Map.empty, lww := False, subscribed := True, worker := True, outbox := []\<rparr>"

definition enable_lww :: "cluster \<Rightarrow> cluster" where
  "enable_lww c s = (c s)\<lparr>lww := True\<rparr>"

text \<open>\<open>concurrentUpdates\<close>; \<open>catch_up\<close> delivers until the peer's queue was applied.\<close>

definition set_subscribed :: "bool \<Rightarrow> node \<Rightarrow> node" where
  "set_subscribed b n = n\<lparr>subscribed := b\<rparr>"

definition set_worker :: "bool \<Rightarrow> node \<Rightarrow> node" where
  "set_worker b n = n\<lparr>worker := b \<and> subscribed n\<rparr>"

text \<open>DISABLE or ENABLE, and the wait that ends when the worker has stopped or has started.\<close>

definition set_link :: "bool \<Rightarrow> node \<Rightarrow> node" where
  "set_link b n = set_worker b (set_subscribed b n)"

definition catch_up :: "bool \<Rightarrow> cluster \<Rightarrow> cluster" where
  "catch_up s c = (deliver s ^^ length (outbox (c (\<not> s)))) c"

definition concurrent_updates :: "nat \<Rightarrow> nat \<Rightarrow> cluster \<Rightarrow> cluster" where
  "concurrent_updates t1 t2 c =
     (let c1 = local_op node_b (set_link False) (local_op node_a (set_link False) c);
          c2 = local_op node_a (update_account 1 15000 t1) c1;
          c3 = local_op node_b (update_account 1 8000 t2) c2;
          c4 = local_op node_b (set_link True) (local_op node_a (set_link True) c3)
      in catch_up node_b (catch_up node_a c4))"

section \<open>Monitoring\<close>

definition streaming :: "db_error + int option \<Rightarrow> bool" where
  "streaming res = (case res of Inr (Some pid) \<Rightarrow> True | _ \<Rightarrow> False)"

definition caught_up :: "db_error + nat \<Rightarrow> (nat \<Rightarrow> db_error + bool) \<Rightarrow> bool" where
  "caught_up peer_lsn own = (case peer_lsn of Inl _ \<Rightarrow> False | Inr l \<Rightarrow> (case own l of Inr b \<Rightarrow> b | Inl _ \<Rightarrow> False))"

definition balance_of :: "outcome \<Rightarrow> node \<Rightarrow> int option" where
  "balance_of r n = (case query r (accounts n 1) of Inl _ \<Rightarrow> None | Inr None \<Rightarrow> None | Inr (Some a) \<Rightarrow> Some (balance a))"

definition count_rows :: "outcome \<Rightarrow> nat \<Rightarrow> int" where
  "count_rows r n = (case query r n of Inl _ \<Rightarrow> -1 | Inr n \<Rightarrow> int n)"

text \<open>\<open>printConflictStats\<close> polls the counter at most 25 times; \<open>None\<close> is an error that was logged.\<close>

fun conflict_stats :: "nat \<Rightarrow> nat \<times> nat \<Rightarrow> (db_error + nat \<times> nat) list \<Rightarrow> (nat \<times> nat) option" where
  "conflict_stats 0 seen answers = Some seen"
| "conflict_stats (Suc k) seen [] = Some seen"
| "conflict_stats (Suc k) seen (Inl e # answers) = None"
| "conflict_stats (Suc k) seen (Inr (differs, ex) # answers) =
     (if 0 < differs then Some (differs, ex) else conflict_stats k (differs, ex) answers)"

definition wait_for :: "(nat \<times> bool) list \<Rightarrow> nat option" where
  "wait_for attempts = poll_until 20000 200 0 attempts"

section \<open>Last writer wins\<close>

fun updates_of :: "nat \<Rightarrow> change list \<Rightarrow> account list" where
  "updates_of i [] = []"
| "updates_of i (SetAccount j r # q) = (if i = j then r # updates_of i q else updates_of i q)"
| "updates_of i (ch # q) = updates_of i q"

lemma updates_of_append [simp]: "updates_of i (p @ q) = updates_of i p @ updates_of i q"
  by (induction i p rule: updates_of.induct) simp_all

lemma updates_of_set: "r \<in> set (updates_of i q) \<longleftrightarrow> SetAccount i r \<in> set q"
  by (induction i q rule: updates_of.induct) auto

lemma lww_guard_ge: "stamp old \<le> stamp (lww_guard old new)" "stamp new \<le> stamp (lww_guard old new)"
  by (auto simp: lww_guard_def)

lemma fold_guard_ge: "stamp r \<le> stamp (foldl lww_guard r q)"
  by (induction q arbitrary: r) (auto intro: order_trans lww_guard_ge)

text \<open>A write that is not older than the row it replaces may be applied first or last.\<close>

lemma guard_commutes:
  assumes "stamp old \<le> stamp r" and "\<forall>x \<in> set q. stamp x \<noteq> stamp r"
  shows "foldl lww_guard r q = lww_guard (foldl lww_guard old q) r"
  using assms
proof (induction q arbitrary: old)
  case (Cons x q)
  from Cons.prems(2) consider "stamp x < stamp r" | "stamp r < stamp x" by (auto simp: neq_iff)
  then show ?case
  proof cases
    case 1
    have "stamp (lww_guard old x) \<le> stamp r" using 1 Cons.prems(1) by (auto simp: lww_guard_def)
    with Cons.IH [OF this] Cons.prems(2) 1 show ?thesis by (simp add: lww_guard_def [of r x])
  next
    case 2
    then have "lww_guard r x = x" "lww_guard old x = x" using Cons.prems(1) by (auto simp: lww_guard_def)
    moreover have "stamp r < stamp (foldl lww_guard x q)" using 2 fold_guard_ge less_le_trans by blast
    ultimately show ?thesis by (simp add: lww_guard_def [of _ r])
  qed
qed (simp add: lww_guard_def)

section \<open>Runs\<close>

inductive mp_step :: "cluster \<Rightarrow> cluster \<Rightarrow> bool" where
  write_step: "accounts (c s) i = Some old \<Longrightarrow> stamp old \<le> Version t (name (c s)) \<Longrightarrow>
    mp_step c (local_op s (update_account i bal t) c)"
| order_step: "mp_step c (local_op s (insert_order it) c)"
| link_step: "mp_step c (local_op s (set_subscribed b) c)"
| worker_step: "mp_step c (local_op s (set_worker b) c)"
| ship_step: "mp_step c (deliver s c)"

definition view :: "nat \<Rightarrow> cluster \<Rightarrow> bool \<Rightarrow> account option" where
  "view i c s = map_option (\<lambda>r. foldl lww_guard r (updates_of i (outbox (c (\<not> s))))) (accounts (c s) i)"

definition accounts_inv :: "cluster \<Rightarrow> bool" where
  "accounts_inv c \<longleftrightarrow> name (c True) \<noteq> name (c False) \<and>
     (\<forall>s. lww (c s) \<and> (\<forall>i r. NewAccount i r \<notin> set (outbox (c s))) \<and>
        (\<forall>i r. SetAccount i r \<in> set (outbox (c s)) \<longrightarrow> updated_by (stamp r) = name (c s))) \<and>
     (\<forall>i. view i c True = view i c False)"

lemma accounts_invD:
  assumes "accounts_inv c"
  shows "name (c s) \<noteq> name (c (\<not> s))" "lww (c s)" "view i c s = view i c (\<not> s)"
    "SetAccount i r \<in> set (outbox (c s)) \<Longrightarrow> updated_by (stamp r) = name (c s)" "NewAccount i r \<notin> set (outbox (c s))"
  using assms by (cases s; auto simp: accounts_inv_def)+

lemma accounts_invI:
  assumes "name (c s) \<noteq> name (c (\<not> s))" "lww (c s)" "lww (c (\<not> s))" "\<And>i. view i c s = view i c (\<not> s)"
    "\<And>i r. SetAccount i r \<in> set (outbox (c s)) \<Longrightarrow> updated_by (stamp r) = name (c s)"
    "\<And>i r. SetAccount i r \<in> set (outbox (c (\<not> s))) \<Longrightarrow> updated_by (stamp r) = name (c (\<not> s))"
    "\<And>i r. NewAccount i r \<notin> set (outbox (c s))" "\<And>i r. NewAccount i r \<notin> set (outbox (c (\<not> s)))"
  shows "accounts_inv c"
  using assms by (cases s) (auto simp: accounts_inv_def all_bool_eq)

lemma accounts_inv_write:
  assumes inv: "accounts_inv c" and old: "accounts (c s) i = Some old" "stamp old \<le> Version t (name (c s))"
  shows "accounts_inv (local_op s (update_account i bal t) c)"
proof -
  define r where "r = old\<lparr>balance := bal, stamp := Version t (name (c s))\<rparr>"
  define d where "d = local_op s (update_account i bal t) c"
  have ds: "d s = (c s)\<lparr>accounts := (accounts (c s))(i \<mapsto> r), outbox := outbox (c s) @ [SetAccount i r]\<rparr>"
    and dn: "d (\<not> s) = c (\<not> s)"
    by (simp_all add: d_def local_op_def update_account_def old(1) r_def Let_def)
  have other: "\<forall>x \<in> set (updates_of i (outbox (c (\<not> s)))). stamp x \<noteq> stamp r"
    using accounts_invD(1,4) [OF inv] by (auto simp: updates_of_set r_def) (metis version.sel(2))
  have "view j d s = view j d (\<not> s)" for j
  proof (cases "j = i")
    case True
    have "view i d s = Some (foldl lww_guard r (updates_of i (outbox (c (\<not> s)))))"
      by (simp add: view_def ds dn)
    also have "\<dots> = Some (lww_guard (foldl lww_guard old (updates_of i (outbox (c (\<not> s))))) r)"
      using guard_commutes [of old r] old(2) other by (simp add: r_def)
    also have "\<dots> = map_option (\<lambda>y. lww_guard y r) (view i c s)"
      by (simp add: view_def old(1))
    also have "\<dots> = map_option (\<lambda>y. lww_guard y r) (view i c (\<not> s))"
      using accounts_invD(3) [OF inv] by simp
    also have "\<dots> = view i d (\<not> s)"
      by (simp add: view_def ds dn option.map_comp comp_def)
    finally show ?thesis using True by simp
  next
    case False
    then have "view j d s = view j c s" "view j d (\<not> s) = view j c (\<not> s)"
      by (simp_all add: view_def ds dn)
    with accounts_invD(3) [OF inv] show ?thesis by simp
  qed
  then have "accounts_inv d"
    using accounts_invD [OF inv] by (intro accounts_invI [of d s]) (auto simp: ds dn r_def)
  then show ?thesis by (simp add: d_def)
qed

text \<open>Steps that touch neither the accounts nor the queued account changes.\<close>

lemma accounts_inv_frame:
  assumes inv: "accounts_inv c"
    and "\<And>s. accounts (d s) = accounts (c s)" "\<And>s. name (d s) = name (c s)" "\<And>s. lww (d s) = lww (c s)"
    and q: "\<And>s. filter (\<lambda>ch. \<forall>i r. ch \<noteq> NewOrder i r) (outbox (d s)) = filter (\<lambda>ch. \<forall>i r. ch \<noteq> NewOrder i r) (outbox (c s))"
  shows "accounts_inv d"
proof -
  have u: "updates_of i (filter (\<lambda>ch. \<forall>i r. ch \<noteq> NewOrder i r) q) = updates_of i q" for i q
    by (induction i q rule: updates_of.induct) auto
  have "updates_of i (outbox (d s)) = updates_of i (outbox (c s))" for i s
    using u [of i "outbox (d s)", unfolded q, unfolded u] by (rule sym)
  then have v: "view i d s = view i c s" for i s
    by (simp add: view_def assms(2))
  have m: "ch \<in> set (outbox (d s)) \<longleftrightarrow> ch \<in> set (outbox (c s))" if "\<forall>i r. ch \<noteq> NewOrder i r" for ch s
    using arg_cong [OF q [of s], of set] that unfolding set_filter by blast
  have "SetAccount i r \<in> set (outbox (d s)) \<longleftrightarrow> SetAccount i r \<in> set (outbox (c s))"
    "NewAccount i r \<in> set (outbox (d s)) \<longleftrightarrow> NewAccount i r \<in> set (outbox (c s))" for i r s
    by (rule m, simp)+
  with inv show ?thesis by (simp add: accounts_inv_def v assms(2-4))
qed

lemma accounts_inv_ship:
  assumes inv: "accounts_inv c"
  shows "accounts_inv (deliver s c)"
proof (cases "worker (c s) \<and> outbox (c (\<not> s)) \<noteq> []")
  case False
  then show ?thesis using inv by (auto simp: deliver_def split: list.splits)
next
  case True
  then obtain ch rest where q: "outbox (c (\<not> s)) = ch # rest" by (meson neq_Nil_conv)
  show ?thesis
  proof (cases ch)
    case (NewOrder i r)
    show ?thesis
      by (rule accounts_inv_frame [OF inv]) (auto simp: deliver_def q NewOrder split: option.splits if_splits)
  next
    case (NewAccount i r)
    then show ?thesis using accounts_invD(5) [OF inv, of i r "\<not> s"] q by simp
  next
    case (SetAccount i r)
    define d where "d = deliver s c"
    have ds: "d s = (c s)\<lparr>accounts := (case accounts (c s) i of None \<Rightarrow> accounts (c s)
        | Some old \<Rightarrow> (accounts (c s))(i \<mapsto> lww_guard old r))\<rparr>"
      and dn: "d (\<not> s) = (c (\<not> s))\<lparr>outbox := rest\<rparr>"
      using True accounts_invD(2) [OF inv] by (auto simp: d_def deliver_def q SetAccount split: option.split)
    have v: "view j d s = view j c s" "view j d (\<not> s) = view j c (\<not> s)" for j
      by (auto simp: view_def ds dn q SetAccount split: option.split)
    have m: "x \<in> set rest \<Longrightarrow> x \<in> set (outbox (c (\<not> s)))" for x by (simp add: q)
    have "accounts_inv d"
      using accounts_invD [OF inv] by (intro accounts_invI [of d s]) (auto simp: ds dn v dest: m)
    then show ?thesis by (simp add: d_def)
  qed
qed

lemma accounts_inv_step: "mp_step c d \<Longrightarrow> accounts_inv c \<Longrightarrow> accounts_inv d"
proof (induction rule: mp_step.induct)
  case (write_step c s i old t bal)
  then show ?case by (simp add: accounts_inv_write)
next
  case (order_step c s it)
  show ?case by (rule accounts_inv_frame [OF order_step]) (auto simp: local_op_def insert_order_def Let_def)
next
  case (link_step c s b)
  show ?case by (rule accounts_inv_frame [OF link_step]) (auto simp: local_op_def set_subscribed_def)
next
  case (worker_step c s b)
  show ?case by (rule accounts_inv_frame [OF worker_step]) (auto simp: local_op_def set_worker_def)
next
  case (ship_step c s)
  then show ?case by (rule accounts_inv_ship)
qed

section \<open>Orders\<close>

definition queued :: "change list \<Rightarrow> (nat \<times> order) list" where
  "queued q = concat (map (\<lambda>ch. case ch of NewOrder i r \<Rightarrow> [(i, r)] | _ \<Rightarrow> []) q)"

lemma queued_simps [simp]:
  "queued [] = []" "queued (NewOrder i r # q) = (i, r) # queued q" "queued (NewAccount j a # q) = queued q"
  "queued (SetAccount j a # q) = queued q" "queued (p @ q) = queued p @ queued q"
  by (simp_all add: queued_def)

definition orders_inv :: "cluster \<Rightarrow> bool" where
  "orders_inv c \<longleftrightarrow> (\<forall>s. node_id (c s) mod 10 \<noteq> node_id (c (\<not> s)) mod 10 \<and>
     distinct (map fst (queued (outbox (c s)))) \<and>
     (\<forall>i r. (i, r) \<in> set (queued (outbox (c s))) \<longrightarrow> orders (c s) i = Some r \<and> orders (c (\<not> s)) i = None) \<and>
     (\<forall>i r. orders (c s) i = Some r \<longrightarrow> orders (c (\<not> s)) i = Some r \<or> (i, r) \<in> set (queued (outbox (c s)))) \<and>
     (\<forall>i. orders (c s) i \<noteq> None \<longrightarrow> (\<exists>t k. i = order_id (node_id (c t)) k \<and> k < issued (c t))))"

lemma orders_invD:
  assumes "orders_inv c"
  shows "node_id (c s) mod 10 \<noteq> node_id (c (\<not> s)) mod 10" "distinct (map fst (queued (outbox (c s))))"
    "(i, r) \<in> set (queued (outbox (c s))) \<Longrightarrow> orders (c s) i = Some r \<and> orders (c (\<not> s)) i = None"
    "orders (c s) i = Some r \<Longrightarrow> orders (c (\<not> s)) i = Some r \<or> (i, r) \<in> set (queued (outbox (c s)))"
    "orders (c s) i \<noteq> None \<Longrightarrow> \<exists>t k. i = order_id (node_id (c t)) k \<and> k < issued (c t)"
  using assms unfolding orders_inv_def by blast+

lemma order_id_inject: "order_id a k = order_id b l \<Longrightarrow> a mod 10 = b mod 10 \<and> (a = b \<longrightarrow> k = l)"
  by (auto simp: order_id_def) (metis mod_mult_self2)

lemma fresh_order:
  assumes "orders_inv c"
  shows "orders (c t) (order_id (node_id (c s)) (issued (c s))) = None"
proof (rule ccontr)
  assume "orders (c t) (order_id (node_id (c s)) (issued (c s))) \<noteq> None"
  from orders_invD(5) [OF assms this] obtain u k
    where u: "order_id (node_id (c s)) (issued (c s)) = order_id (node_id (c u)) k" "k < issued (c u)"
    by blast
  show False
  proof (cases "u = s")
    case True
    with u order_id_inject [OF u(1)] show False by simp
  next
    case False
    then have "u = (\<not> s)" by simp
    with orders_invD(1) [OF assms, where s = s] order_id_inject [OF u(1)] show False by simp
  qed
qed

lemma orders_inv_order:
  assumes inv: "orders_inv c"
  shows "orders_inv (local_op s (insert_order it) c)"
proof -
  define i r where "i = order_id (node_id (c s)) (issued (c s))" and "r = \<lparr>item = it, written_on = name (c s)\<rparr>"
  define d where "d = local_op s (insert_order it) c"
  have fresh: "orders (c t) i = None" for t unfolding i_def by (rule fresh_order [OF inv])
  have ds: "d s = (c s)\<lparr>issued := Suc (issued (c s)), orders := (orders (c s))(i \<mapsto> r), outbox := outbox (c s) @ [NewOrder i r]\<rparr>"
    and dn: "d (\<not> s) = c (\<not> s)"
    using fresh [of s] by (simp_all add: d_def local_op_def insert_order_def Let_def i_def r_def)
  have "i \<notin> fst ` set (queued (outbox (c s)))"
    using fresh [of s] orders_invD(3) [OF inv] by fastforce
  note D = orders_invD [OF inv, where s = s] orders_invD [OF inv, where s = "\<not> s"]
  have issued: "\<exists>t k. j = order_id (node_id (d t)) k \<and> k < issued (d t)" if "orders (d u) j \<noteq> None" for u j
  proof (cases "j = i")
    case True
    have "i = order_id (node_id (d s)) (issued (c s)) \<and> issued (c s) < issued (d s)" by (simp add: ds i_def)
    with True show ?thesis by blast
  next
    case False
    with that have "orders (c u) j \<noteq> None" by (cases "u = s") (auto simp: ds dn)
    from orders_invD(5) [OF inv this] obtain t k where "j = order_id (node_id (c t)) k" "k < issued (c t)" by blast
    then have "j = order_id (node_id (d t)) k \<and> k < issued (d t)" by (cases "t = s") (auto simp: ds dn)
    then show ?thesis by blast
  qed
  have "node_id (d u) mod 10 \<noteq> node_id (d (\<not> u)) mod 10 \<and> distinct (map fst (queued (outbox (d u)))) \<and>
     (\<forall>i r. (i, r) \<in> set (queued (outbox (d u))) \<longrightarrow> orders (d u) i = Some r \<and> orders (d (\<not> u)) i = None) \<and>
     (\<forall>i r. orders (d u) i = Some r \<longrightarrow> orders (d (\<not> u)) i = Some r \<or> (i, r) \<in> set (queued (outbox (d u))))" for u
  proof (cases "u = s")
    case True
    show ?thesis unfolding True
      using D(1-4) fresh \<open>i \<notin> fst ` set (queued (outbox (c s)))\<close> by (auto simp: ds dn rev_image_eqI)
  next
    case False
    then have u: "u = (\<not> s)" by simp
    show ?thesis unfolding u
      using D(6-9) fresh by (fastforce simp: ds dn)
  qed
  with issued have "orders_inv d" unfolding orders_inv_def by blast
  then show ?thesis by (simp add: d_def)
qed

lemma orders_inv_frame:
  assumes inv: "orders_inv c"
    and "\<And>s. orders (d s) = orders (c s)" "\<And>s. node_id (d s) = node_id (c s)" "\<And>s. issued (d s) = issued (c s)"
    and "\<And>s. queued (outbox (d s)) = queued (outbox (c s))"
  shows "orders_inv d"
  using inv unfolding orders_inv_def assms(2-5) .

lemma orders_inv_ship:
  assumes inv: "orders_inv c"
  shows "orders_inv (deliver s c)"
proof (cases "worker (c s) \<and> outbox (c (\<not> s)) \<noteq> []")
  case False
  then show ?thesis using inv by (auto simp: deliver_def split: list.splits)
next
  case True
  then obtain ch rest where q: "outbox (c (\<not> s)) = ch # rest" by (meson neq_Nil_conv)
  show ?thesis
  proof (cases ch)
    case (NewAccount i r)
    show ?thesis
      by (rule orders_inv_frame [OF inv]) (auto simp: deliver_def q NewAccount)
  next
    case (SetAccount i r)
    show ?thesis
      by (rule orders_inv_frame [OF inv]) (auto simp: deliver_def q SetAccount split: option.split)
  next
    case (NewOrder i r)
    define d where "d = deliver s c"
    note D = orders_invD [OF inv, where s = s] orders_invD [OF inv, where s = "\<not> s"]
    have i: "orders (c s) i = None" "orders (c (\<not> s)) i = Some r"
      using D(8) [of i r] by (simp_all add: q NewOrder)
    have ds: "d s = (c s)\<lparr>orders := (orders (c s))(i \<mapsto> r)\<rparr>"
      and dn: "d (\<not> s) = (c (\<not> s))\<lparr>outbox := rest\<rparr>"
      using True i by (simp_all add: d_def deliver_def q NewOrder)
    have issued: "\<exists>t k. j = order_id (node_id (d t)) k \<and> k < issued (d t)" if "orders (d u) j \<noteq> None" for u j
    proof -
      have "\<exists>v. orders (c v) j \<noteq> None"
        using that i by (cases "j = i"; cases "u = s") (auto simp: ds dn)
      then obtain t k where "j = order_id (node_id (c t)) k" "k < issued (c t)"
        using orders_invD(5) [OF inv] by blast
      then have "j = order_id (node_id (d t)) k \<and> k < issued (d t)" by (cases "t = s") (auto simp: ds dn)
      then show ?thesis by blast
    qed
    have rest: "distinct (map fst (queued rest))" "i \<notin> fst ` set (queued rest)"
      "\<And>j x. (j, x) \<in> set (queued rest) \<Longrightarrow> orders (c (\<not> s)) j = Some x \<and> orders (c s) j = None"
      using D(7) D(8) by (auto simp: q NewOrder)
    have "node_id (d u) mod 10 \<noteq> node_id (d (\<not> u)) mod 10 \<and> distinct (map fst (queued (outbox (d u)))) \<and>
       (\<forall>i r. (i, r) \<in> set (queued (outbox (d u))) \<longrightarrow> orders (d u) i = Some r \<and> orders (d (\<not> u)) i = None) \<and>
       (\<forall>i r. orders (d u) i = Some r \<longrightarrow> orders (d (\<not> u)) i = Some r \<or> (i, r) \<in> set (queued (outbox (d u))))" for u
    proof (cases "u = s")
      case True
      have "i \<notin> fst ` set (queued (outbox (c s)))" using i(1) D(3) by fastforce
      then show ?thesis unfolding True
        using D(1-4) i by (auto simp: ds dn rev_image_eqI)
    next
      case False
      then have u: "u = (\<not> s)" by simp
      have "\<And>j x. orders (c (\<not> s)) j = Some x \<Longrightarrow> j \<noteq> i \<Longrightarrow> orders (c s) j = Some x \<or> (j, x) \<in> set (queued rest)"
        using D(9) by (auto simp: q NewOrder)
      then show ?thesis unfolding u
        using D(6) rest i by (auto simp: ds dn rev_image_eqI)
    qed
    with issued have "orders_inv d" unfolding orders_inv_def by blast
    then show ?thesis by (simp add: d_def)
  qed
qed

lemma orders_inv_step: "mp_step c d \<Longrightarrow> orders_inv c \<Longrightarrow> orders_inv d"
proof (induction rule: mp_step.induct)
  case (write_step c s i old t bal)
  show ?case
    by (rule orders_inv_frame [OF write_step(3)])
      (auto simp: local_op_def update_account_def Let_def split: option.split)
next
  case (order_step c s it)
  then show ?case by (rule orders_inv_order)
next
  case (link_step c s b)
  show ?case by (rule orders_inv_frame [OF link_step]) (auto simp: local_op_def set_subscribed_def)
next
  case (worker_step c s b)
  show ?case by (rule orders_inv_frame [OF worker_step]) (auto simp: local_op_def set_worker_def)
next
  case (ship_step c s)
  then show ?case by (rule orders_inv_ship)
qed

lemma runs_keep:
  assumes "mp_step\<^sup>*\<^sup>* c d" "accounts_inv c" "orders_inv c"
  shows "accounts_inv d \<and> orders_inv d"
  using assms by (induction rule: rtranclp_induct) (auto intro: accounts_inv_step orders_inv_step)

lemma set_up_ok:
  assumes "name (c True) \<noteq> name (c False)" "node_id (c True) mod 10 \<noteq> node_id (c False) mod 10"
  shows "accounts_inv (enable_lww (set_up c)) \<and> orders_inv (enable_lww (set_up c))"
  using assms by (auto simp: enable_lww_def set_up_def accounts_inv_def orders_inv_def view_def all_bool_eq)

lemma shipped: "mp_step\<^sup>*\<^sup>* c d \<Longrightarrow> mp_step\<^sup>*\<^sup>* c (deliver s d)"
  by (erule rtranclp.rtrancl_into_rtrancl) (rule ship_step)

section \<open>Properties\<close>

definition started :: cluster where
  "started s = \<lparr>name = (if s then ''node_a'' else ''node_b''), node_id = (if s then 1 else 2), issued = 0,
     orders = Map.empty, accounts = [1 \<mapsto> \<lparr>owner = ''alice'', balance = 10000, stamp = Version 5 ''node_a''\<rparr>],
     lww = True, subscribed = True, worker = True, outbox = []\<rparr>"

lemma started_ok: "accounts_inv started" "orders_inv started"
  by (auto simp: started_def accounts_inv_def orders_inv_def view_def)

lemma started_names: "name (started True) = ''node_a''" "name (started False) = ''node_b''"
  by (simp_all add: started_def)

text \<open>C4: With the last-writer-wins trigger on both nodes and clocks that never step behind the row they
  update, both nodes hold the same accounts and the same orders once the queued changes are
  delivered, however local writes, inserts, partitions, stops and starts of the workers and deliveries interleave.\<close>

theorem lww_converges:
  assumes "accounts_inv c" and "orders_inv c" and "mp_step\<^sup>*\<^sup>* c d" and "\<forall>s. outbox (d s) = []"
  shows "accounts (d node_a) = accounts (d node_b) \<and> orders (d node_a) = orders (d node_b)"
proof
  have inv: "accounts_inv d" "orders_inv d" using runs_keep [OF assms(3,1,2)] by auto
  show "accounts (d node_a) = accounts (d node_b)"
  proof
    fix i
    show "accounts (d node_a) i = accounts (d node_b) i"
      using accounts_invD(3) [OF inv(1), of i True] by (simp add: view_def assms(4) option.map_ident)
  qed
  have "orders (d s) i = Some r \<Longrightarrow> orders (d (\<not> s)) i = Some r" for s i r
    using orders_invD(4) [OF inv(2), of s i r] by (simp add: assms(4))
  from this [of True] this [of False] show "orders (d node_a) = orders (d node_b)"
    by (intro ext) (metis (full_types) not_None_eq)
qed

definition racing :: "(cluster \<Rightarrow> cluster) list" where
  "racing = [local_op node_a (update_account 1 15000 7), local_op node_b (update_account 1 8000 9),
     local_op node_a (insert_order ''x''), local_op node_b (insert_order ''y''),
     deliver node_a, deliver node_a, deliver node_b, deliver node_b]"

theorem lww_converges_witness:
  "accounts (fold id racing started node_a) = accounts (fold id racing started node_b) \<and>
   map_option balance (accounts (fold id racing started node_a) 1) = Some 8000"
proof -
  define c1 c2 c3 c4 where "c1 = local_op node_a (update_account 1 15000 7) started"
    and "c2 = local_op node_b (update_account 1 8000 9) c1"
    and "c3 = local_op node_a (insert_order ''x'') c2" and "c4 = local_op node_b (insert_order ''y'') c3"
  define d where "d = deliver node_b (deliver node_b (deliver node_a (deliver node_a c4)))"
  note defs = c1_def c2_def c3_def c4_def local_op_def update_account_def insert_order_def started_def order_id_def Let_def
  have s1: "mp_step started c1" unfolding c1_def
    by (rule write_step [where old = "\<lparr>owner = ''alice'', balance = 10000, stamp = Version 5 ''node_a''\<rparr>"]) (simp_all add: started_def)
  have s2: "mp_step c1 c2" unfolding c2_def
    by (rule write_step [where old = "\<lparr>owner = ''alice'', balance = 10000, stamp = Version 5 ''node_a''\<rparr>"]) (simp_all add: defs)
  have s3: "mp_step c2 c3" "mp_step c3 c4" by (simp_all add: c3_def c4_def order_step)
  have s4: "mp_step\<^sup>*\<^sup>* c4 d" unfolding d_def
    by (intro shipped rtranclp.rtrancl_refl)
  have run: "mp_step\<^sup>*\<^sup>* started d"
    by (rule s1 s2 s3 s4 converse_rtranclp_into_rtranclp)+
  have d: "outbox (d s) = []" "map_option balance (accounts (d True) 1) = Some 8000" for s
    by (auto simp: d_def deliver_def defs lww_guard_def version_less)
  have "fold id racing started = d"
    by (simp add: racing_def d_def c4_def c3_def c2_def c1_def)
  with lww_converges [OF started_ok run] d show ?thesis by simp
qed

text \<open>Whatever the two nodes insert, the ids they draw never collide: an order queued for a node is
  always accepted there, so the apply worker is never stopped by a conflict.\<close>

theorem inserts_never_conflict:
  assumes "accounts_inv c" and "orders_inv c" and "mp_step\<^sup>*\<^sup>* c d" and "outbox (d (\<not> s)) = ch # rest"
  shows "apply_change ch (d s) \<noteq> None"
proof -
  have inv: "accounts_inv d" "orders_inv d" using runs_keep [OF assms(3,1,2)] by auto
  show ?thesis
  proof (cases ch)
    case (NewOrder i r)
    then show ?thesis using orders_invD(3) [OF inv(2), of i r "\<not> s"] assms(4) by simp
  next
    case (NewAccount i r)
    then show ?thesis using accounts_invD(5) [OF inv(1), of i r "\<not> s"] assms(4) by simp
  next
    case (SetAccount i r)
    then show ?thesis by (simp split: option.split)
  qed
qed

theorem inserts_never_conflict_witness:
  "\<exists>ch. outbox (local_op node_b (insert_order ''y'') started node_b) = [ch] \<and>
     apply_change ch (local_op node_b (insert_order ''y'') started node_a) \<noteq> None"
proof -
  define d where "d = local_op node_b (insert_order ''y'') started"
  have run: "mp_step\<^sup>*\<^sup>* started d" unfolding d_def by (rule r_into_rtranclp) (rule order_step)
  obtain ch where ch: "outbox (d (\<not> True)) = [ch]"
    by (simp add: d_def local_op_def insert_order_def started_def Let_def)
  from inserts_never_conflict [OF started_ok run ch] ch show ?thesis by (auto simp: d_def)
qed

text \<open>The scenario of the program. Two updates of the same row during a partition: without the trigger
  the nodes end with each other's value, with it both end with the later write.\<close>

theorem concurrent_updates_result:
  assumes "\<forall>s. accounts (c s) 1 = Some r \<and> outbox (c s) = [] \<and> lww (c s) = g"
    and "name (c node_a) \<noteq> name (c node_b)"
  shows "map_option balance (accounts (concurrent_updates t1 t2 c node_a) 1) =
      Some (if g \<and> Version t2 (name (c node_b)) < Version t1 (name (c node_a)) then 15000 else 8000) \<and>
    map_option balance (accounts (concurrent_updates t1 t2 c node_b) 1) =
      Some (if g \<and> Version t1 (name (c node_a)) < Version t2 (name (c node_b)) then 8000 else 15000)"
  using assms(1)
  by (simp add: concurrent_updates_def Let_def local_op_def set_link_def set_worker_def set_subscribed_def update_account_def catch_up_def
      deliver_def lww_guard_def)

theorem concurrent_updates_result_witness:
  "map_option balance (accounts (concurrent_updates 7 9 started node_a) 1) = Some 8000 \<and>
   map_option balance (accounts (concurrent_updates 7 9 started node_b) 1) = Some 8000"
proof -
  have "\<forall>s. accounts (started s) 1 = Some \<lparr>owner = ''alice'', balance = 10000, stamp = Version 5 ''node_a''\<rparr> \<and>
      outbox (started s) = [] \<and> lww (started s) = True"
    by (simp add: started_def)
  from concurrent_updates_result [OF this, of 7 9] show ?thesis by (simp add: started_names version_less)
qed

text \<open>Last writer wins depends on the clocks: a local write on a node whose clock is behind the row it
  replaces is kept there and dropped by the peer, so the nodes differ after everything is delivered.\<close>

theorem backdated_write_diverges:
  assumes "\<forall>s. accounts (c s) i = Some old \<and> outbox (c s) = [] \<and> lww (c s) \<and> worker (c s)"
    and "Version t (name (c s)) < stamp old"
  shows "accounts (catch_up (\<not> s) (local_op s (update_account i bal t) c) s) i =
      Some (old\<lparr>balance := bal, stamp := Version t (name (c s))\<rparr>) \<and>
    accounts (catch_up (\<not> s) (local_op s (update_account i bal t) c) (\<not> s)) i = Some old \<and>
    (\<forall>u. outbox (catch_up (\<not> s) (local_op s (update_account i bal t) c) u) = [])"
  using assms by (auto simp: catch_up_def local_op_def update_account_def Let_def deliver_def lww_guard_def)

theorem backdated_write_diverges_witness:
  "map_option balance (accounts (catch_up node_a (local_op node_b (update_account 1 8000 3) started) node_b) 1) = Some 8000 \<and>
   map_option balance (accounts (catch_up node_a (local_op node_b (update_account 1 8000 3) started) node_a) 1) = Some 10000"
proof -
  let ?r = "\<lparr>owner = ''alice'', balance = 10000, stamp = Version 5 ''node_a''\<rparr>"
  have a: "\<forall>s. accounts (started s) 1 = Some ?r \<and> outbox (started s) = [] \<and> lww (started s) \<and> worker (started s)"
    by (simp add: started_def)
  have "Version 3 (name (started False)) < stamp ?r" by (simp add: version_less)
  from backdated_write_diverges [OF a this, of 8000] show ?thesis by simp
qed

text \<open>The monitoring loops end.\<close>

lemma wait_for_bound: "wait_for attempts = Some n \<Longrightarrow> n < 100 \<and> snd (attempts ! n)"
  using poll_until_Some [of 20000 200 0 attempts n] by (simp add: wait_for_def)

lemma conflict_stats_polls: "conflict_stats k seen answers = conflict_stats k seen (take k answers)"
  by (induction k seen answers rule: conflict_stats.induct) auto

end
