(* ===== verification/MultiPrimaryMain.thy ===== *)
theory MultiPrimaryMain
  imports MultiPrimary
begin

text \<open>
  \<open>main\<close> of \<open>simulate_multi_primary_replication/main.go\<close>: the set-up of both subscriptions, concurrent inserts, the
  conflict without and with the trigger. While the program runs, apply workers stop, start again while their subscription
  is enabled, and deliver queued changes at any time: a call comes with the events that happened before it, and so does every
  poll of a wait. A wait whose polls end has run into its deadline; that and every error of \<open>exec\<close> end the process (\<open>None\<close>).
\<close>

section \<open>The program\<close>

datatype event = Deliver bool | Worker bool bool

type_synonym call = "event list \<times> outcome"

definition node_name :: "bool \<Rightarrow> string" where
  "node_name s = (if s then ''node_a'' else ''node_b'')"

primrec happen :: "event \<Rightarrow> cluster \<Rightarrow> cluster" where
  "happen (Deliver s) c = deliver s c"
| "happen (Worker s b) c = local_op s (set_worker b) c"

definition ship :: "event list \<Rightarrow> cluster \<Rightarrow> cluster" where
  "ship es c = fold happen es c"

text \<open>\<open>Node.exec\<close>: \<open>ok\<close> says that no key is taken.\<close>

definition exec_on :: "call \<Rightarrow> (cluster \<Rightarrow> bool) \<Rightarrow> (cluster \<Rightarrow> cluster) \<Rightarrow> cluster \<Rightarrow> unit option \<times> cluster" where
  "exec_on call ok f c =
     (let c1 = ship (fst call) c in must (if ok c1 then snd call else Refused (Sqlstate ''23505'')) f c1)"

abbreviation exec_any :: "call \<Rightarrow> (cluster \<Rightarrow> cluster) \<Rightarrow> cluster \<Rightarrow> unit option \<times> cluster" where
  "exec_any call \<equiv> exec_on call (\<lambda>_. True)"

fun wait_until :: "('a \<Rightarrow> cluster \<Rightarrow> bool) \<Rightarrow> (event list \<times> 'a) list \<Rightarrow> cluster \<Rightarrow> unit option \<times> cluster" where
  "wait_until cond [] c = (None, c)"
| "wait_until cond ((ss, x) # polls) c =
     (if cond x (ship ss c) then (Some (), ship ss c) else wait_until cond polls (ship ss c))"

definition on_both :: "(bool \<Rightarrow> cluster \<Rightarrow> unit option \<times> cluster) \<Rightarrow> cluster \<Rightarrow> unit option \<times> cluster" where
  "on_both f = and_then (f node_a) (\<lambda>_. f node_b)"

text \<open>Dropping or creating a subscription drops or creates its slot on the peer; DROP ends the worker, CREATE leaves it to
  be started.\<close>

definition drop_subscription :: "bool \<Rightarrow> cluster \<Rightarrow> cluster" where
  "drop_subscription s c = local_op (\<not> s) (\<lambda>n. n\<lparr>outbox := []\<rparr>) (local_op s (set_link False) c)"

definition subscribe :: "bool \<Rightarrow> cluster \<Rightarrow> cluster" where
  "subscribe s c = local_op (\<not> s) (\<lambda>n. n\<lparr>outbox := []\<rparr>) (local_op s (set_subscribed True) c)"

definition truncate_tables :: "node \<Rightarrow> node" where
  "truncate_tables n = n\<lparr>orders := Map.empty, accounts := Map.empty\<rparr>"

definition set_trigger :: "bool \<Rightarrow> node \<Rightarrow> node" where
  "set_trigger b n = n\<lparr>lww := b\<rparr>"

record part_env =                        \<comment> \<open>the answers during \<open>concurrentUpdates\<close>\<close>
  offs :: "bool \<Rightarrow> call"
  off_polls :: "(event list \<times> (bool \<Rightarrow> outcome)) list"
  updates :: "bool \<Rightarrow> call"
  clocks :: "bool \<Rightarrow> nat"
  ons :: "bool \<Rightarrow> call"
  on_polls :: "(event list \<times> (bool \<Rightarrow> outcome \<times> outcome)) list"

text \<open>\<open>streaming\<close> asks \<open>pg_stat_subscription\<close> for the process of the worker (its number does not matter). \<open>caughtUp\<close> of
  both nodes: the position of the peer was read, and the running worker has nothing of the peer left to apply (without a
  worker the view's position is NULL).\<close>

definition worker_pid :: "node \<Rightarrow> int option" where
  "worker_pid n = (if worker n then Some 1 else None)"

definition is_streaming :: "outcome \<Rightarrow> node \<Rightarrow> bool" where
  "is_streaming r n = streaming (query r (worker_pid n))"

definition both_caught_up :: "(bool \<Rightarrow> outcome \<times> outcome) \<Rightarrow> cluster \<Rightarrow> bool" where
  "both_caught_up r c \<longleftrightarrow>
     (\<forall>s. caught_up (query (fst (r s)) (length (outbox (c (\<not> s))))) (\<lambda>l. query (snd (r s)) (worker (c s) \<and> l = 0)))"

definition part_updates :: "part_env \<Rightarrow> cluster \<Rightarrow> unit option \<times> cluster" where
  "part_updates e =
     and_then (on_both (\<lambda>s. exec_any (offs e s) (local_op s (set_subscribed False)))) (\<lambda>_.
     and_then (wait_until (\<lambda>r c. \<forall>s. \<not> is_streaming (r s) (c s)) (off_polls e)) (\<lambda>_.
     and_then (exec_any (updates e node_a) (local_op node_a (update_account 1 15000 (clocks e node_a)))) (\<lambda>_.
     and_then (exec_any (updates e node_b) (local_op node_b (update_account 1 8000 (clocks e node_b)))) (\<lambda>_.
     and_then (on_both (\<lambda>s. exec_any (ons e s) (local_op s (set_subscribed True)))) (\<lambda>_.
     wait_until both_caught_up (on_polls e))))))"

record mmain_env =
  pings :: "bool \<Rightarrow> outcome"
  drops :: "bool \<Rightarrow> call"
  truncates :: "bool \<Rightarrow> call"
  triggers_off :: "bool \<Rightarrow> call"
  stat_resets :: "bool \<Rightarrow> call"
  subscribes :: "bool \<Rightarrow> call"
  stream_polls :: "(event list \<times> (bool \<Rightarrow> outcome)) list"
  writes :: "(bool \<times> call) list"          \<comment> \<open>the interleaving of the two writing goroutines\<close>
  order_polls :: "(event list \<times> (bool \<Rightarrow> outcome)) list"
  listing :: outcome
  account_call :: call
  opened_at :: nat
  account_polls :: "(event list \<times> outcome) list"
  first_part :: part_env
  first_reads :: "bool \<Rightarrow> outcome"
  resync :: call
  resync_at :: nat
  resync_polls :: "(event list \<times> (bool \<Rightarrow> outcome)) list"
  triggers_on :: "bool \<Rightarrow> call"
  second_part :: part_env
  second_reads :: "bool \<Rightarrow> outcome"

text \<open>One goroutine per node inserts three orders; \<open>k\<close> counts what each has done.\<close>

definition item_name :: "bool \<Rightarrow> nat \<Rightarrow> string" where
  "item_name s i = node_name s @ ''-item-'' @ dec (i + 1)"

fun write_all :: "(bool \<times> call) list \<Rightarrow> (bool \<Rightarrow> nat) \<Rightarrow> cluster \<Rightarrow> unit option \<times> cluster" where
  "write_all [] k = give ()"
| "write_all ((s, call) # ws) k =
     and_then (exec_on call (\<lambda>c. orders (c s) (order_id (node_id (c s)) (issued (c s))) = None)
         (local_op s (insert_order (item_name s (k s))))) (\<lambda>_.
     write_all ws (k(s := Suc (k s))))"

definition set_up_all :: "mmain_env \<Rightarrow> cluster \<Rightarrow> unit option \<times> cluster" where
  "set_up_all e =
     and_then (on_both (\<lambda>s. exec_any (drops e s) (drop_subscription s))) (\<lambda>_.
     and_then (on_both (\<lambda>s.
       and_then (exec_any (truncates e s) (local_op s truncate_tables)) (\<lambda>_.
       and_then (exec_any (triggers_off e s) (local_op s (set_trigger False))) (\<lambda>_.
       exec_any (stat_resets e s) id)))) (\<lambda>_.
     on_both (\<lambda>s. exec_any (subscribes e s) (subscribe s))))"

record mmain_result =
  listed :: "nat \<rightharpoonup> order"
  after_first :: "int option \<times> int option"
  after_second :: "int option \<times> int option"

definition count_table :: "outcome \<Rightarrow> (nat \<rightharpoonup> 'a) \<Rightarrow> int" where
  "count_table r t = count_rows r (card (dom t))"

definition read_balances :: "(bool \<Rightarrow> outcome) \<Rightarrow> cluster \<Rightarrow> (int option \<times> int option) option \<times> cluster" where
  "read_balances r c = (Some (balance_of (r node_a) (c node_a), balance_of (r node_b) (c node_b)), c)"

definition multi_main :: "mmain_env \<Rightarrow> cluster \<Rightarrow> mmain_result option \<times> cluster" where
  "multi_main e =
     and_then (on_both (\<lambda>s c. (if err_of (pings e s) = None then Some () else None, c))) (\<lambda>_.
     and_then (set_up_all e) (\<lambda>_.
     and_then (wait_until (\<lambda>r c. \<forall>s. is_streaming (r s) (c s)) (stream_polls e)) (\<lambda>_.
     and_then (write_all (writes e) (\<lambda>_. 0)) (\<lambda>_.
     and_then (wait_until (\<lambda>r c. \<forall>s. count_table (r s) (orders (c s)) = 6) (order_polls e)) (\<lambda>_.
     and_then (\<lambda>c. (if err_of (listing e) = None then Some (orders (c node_a)) else None, c)) (\<lambda>seen.
     and_then (exec_on (account_call e) (\<lambda>c. accounts (c node_a) 1 = None) (local_op node_a (insert_account 1 ''alice'' 10000 (opened_at e)))) (\<lambda>_.
     and_then (wait_until (\<lambda>r c. count_table r (accounts (c node_b)) = 1) (account_polls e)) (\<lambda>_.
     and_then (part_updates (first_part e)) (\<lambda>_.
     and_then (read_balances (first_reads e)) (\<lambda>bal1.
     and_then (exec_any (resync e) (local_op node_a (update_account 1 10000 (resync_at e)))) (\<lambda>_.
     and_then (wait_until (\<lambda>r c. \<forall>s. balance_of (r s) (c s) = Some 10000) (resync_polls e)) (\<lambda>_.
     and_then (on_both (\<lambda>s. exec_any (triggers_on e s) (local_op s (set_trigger True)))) (\<lambda>_.
     and_then (part_updates (second_part e)) (\<lambda>_.
     and_then (read_balances (second_reads e)) (\<lambda>bal2.
     give \<lparr>listed = seen, after_first = bal1, after_second = bal2\<rparr>)))))))))))))))"

section \<open>Deliveries\<close>

lemma ship_keeps:
  assumes "\<And>ev c. P c \<Longrightarrow> P (happen ev c)" and "P c"
  shows "P (ship ss c)"
  using assms(2) by (induction ss arbitrary: c) (simp_all add: ship_def assms(1))

lemma exec_on_Some:
  "exec_on call ok f c = (Some u, c') \<longleftrightarrow> snd call = Done \<and> ok (ship (fst call) c) \<and> c' = f (ship (fst call) c)"
  by (cases "snd call") (auto simp: exec_on_def must_def Let_def)

lemma wait_until_Some:
  assumes "wait_until cond polls c = (Some u, c')" and "\<And>ev c. P c \<Longrightarrow> P (happen ev c)" and "P c"
  shows "P c' \<and> (\<exists>x \<in> snd ` set polls. cond x c')"
  using assms(1,3)
proof (induction cond polls c rule: wait_until.induct)
  case (2 cond ss x polls c)
  have "P (ship ss c)" by (rule ship_keeps) (use assms(2) 2 in blast)+
  with 2 show ?case by (auto split: if_splits)
qed simp

lemma on_both_Some:
  "on_both f c = (Some u, c'') \<longleftrightarrow> (\<exists>c'. f node_a c = (Some (), c') \<and> f node_b c' = (Some (), c''))"
  by (auto simp: on_both_def and_then_def split: prod.splits option.splits)

lemma and_then_unit:
  fixes f :: "'s \<Rightarrow> unit option \<times> 's"
  shows "and_then f g s = (Some y, s'') \<longleftrightarrow> (\<exists>s'. f s = (Some (), s') \<and> g () s' = (Some y, s''))"
  by (simp add: and_then_Some)

lemma deliver_empty: "outbox (c (\<not> s)) = [] \<Longrightarrow> deliver s c = c"
  by (simp add: deliver_def)

lemma deliver_off: "\<not> worker (c s) \<Longrightarrow> deliver s c = c"
  by (simp add: deliver_def)

lemma set_worker_off: "\<not> subscribed n \<Longrightarrow> \<not> worker n \<Longrightarrow> set_worker b n = n"
  by (simp add: set_worker_def)

text \<open>Nothing happens while the subscriptions are disabled and their workers have stopped.\<close>

definition all_off :: "cluster \<Rightarrow> bool" where
  "all_off c \<longleftrightarrow> (\<forall>s. \<not> subscribed (c s) \<and> \<not> worker (c s))"

lemma ship_off:
  assumes "all_off c"
  shows "ship es c = c"
proof (induction es)
  case (Cons ev es)
  have "happen ev c = c" using assms by (cases ev) (auto simp: deliver_off all_off_def local_op_def set_worker_off fun_eq_iff)
  with Cons show ?case by (simp add: ship_def)
qed (simp add: ship_def)

text \<open>With nothing queued only the workers change.\<close>

definition working :: "(bool \<Rightarrow> bool) \<Rightarrow> cluster \<Rightarrow> cluster" where
  "working w c s = (c s)\<lparr>worker := w s\<rparr>"

lemma working_simps [simp]:
  "name (working w c s) = name (c s)" "node_id (working w c s) = node_id (c s)" "issued (working w c s) = issued (c s)"
  "orders (working w c s) = orders (c s)" "accounts (working w c s) = accounts (c s)" "lww (working w c s) = lww (c s)"
  "subscribed (working w c s) = subscribed (c s)" "outbox (working w c s) = outbox (c s)" "worker (working w c s) = w s"
  by (simp_all add: working_def)

lemma working_same: "working (\<lambda>s. worker (c s)) c = c"
  by (simp add: working_def fun_eq_iff)

lemma worker_event: "\<exists>w'. local_op s (set_worker b) (working w c) = working w' c"
  by (rule exI [of _ "w(s := b \<and> subscribed (c s))"]) (auto simp: local_op_def set_worker_def working_def fun_eq_iff)

lemma happen_between:
  assumes "\<And>s w. deliver s (working w c) = working w c \<or> deliver s (working w c) = working w d"
    and "\<And>s w. deliver s (working w d) = working w d" and "\<exists>w. x = working w c \<or> x = working w d"
  shows "\<exists>w. happen ev x = working w c \<or> happen ev x = working w d"
proof (cases ev)
  case (Deliver s)
  with assms show ?thesis by (metis happen.simps(1))
next
  case (Worker s b)
  with assms(3) worker_event show ?thesis by (metis happen.simps(2))
qed

lemma ship_idle:
  assumes "\<forall>s. outbox (c s) = []"
  shows "\<exists>w'. ship es (working w c) = working w' c"
proof (rule ship_keeps [where P = "\<lambda>x. \<exists>w'. x = working w' c"])
  fix ev x assume "\<exists>w. x = working w c"
  then obtain w where x: "x = working w c" by blast
  show "\<exists>w'. happen ev x = working w' c"
    using worker_event [of _ _ w c] assms by (cases ev) (auto simp: x deliver_empty)
qed blast

lemma ship_empty:
  assumes "\<forall>s. outbox (c s) = []"
  shows "\<exists>w. ship es c = working w c"
  using ship_idle [of c es "\<lambda>s. worker (c s)"] assms by (simp add: working_same)

section \<open>The set-up\<close>

definition same_nodes :: "cluster \<Rightarrow> cluster \<Rightarrow> bool" where
  "same_nodes c d \<longleftrightarrow> (\<forall>s. name (d s) = name (c s) \<and> node_id (d s) = node_id (c s) \<and> issued (d s) = issued (c s))"

lemma same_nodes_deliver: "same_nodes c d \<Longrightarrow> same_nodes c (deliver s d)"
  by (cases "hd (outbox (d (\<not> s)))") (auto simp: same_nodes_def deliver_def split: list.splits option.splits if_splits)

lemma same_nodes_happen: "same_nodes c d \<Longrightarrow> same_nodes c (happen ev d)"
  by (cases ev) (simp_all add: same_nodes_deliver, simp add: same_nodes_def local_op_def set_worker_def)

lemma same_nodes_ship: "same_nodes c d \<Longrightarrow> same_nodes c (ship es d)"
  by (rule ship_keeps) (rule same_nodes_happen)

definition clean :: "cluster \<Rightarrow> bool" where
  "clean c \<longleftrightarrow> (\<forall>s. orders (c s) = Map.empty \<and> accounts (c s) = Map.empty \<and> \<not> lww (c s) \<and> subscribed (c s) \<and> outbox (c s) = [])"

lemma deliver_links:
  "subscribed (deliver s c t) = subscribed (c t)" "worker (deliver s c t) = worker (c t)"
  "outbox (c t) = [] \<Longrightarrow> outbox (deliver s c t) = []"
  by (cases "hd (outbox (c (\<not> s)))"; auto simp: deliver_def split: list.splits option.splits if_splits)+

lemma ship_links:
  "subscribed (ship es c t) = subscribed (c t)" (is ?sub)
  "\<not> subscribed (c t) \<Longrightarrow> \<not> worker (c t) \<Longrightarrow> \<not> worker (ship es c t)" (is "_ \<Longrightarrow> _ \<Longrightarrow> ?work")
  "outbox (c t) = [] \<Longrightarrow> outbox (ship es c t) = []" (is "_ \<Longrightarrow> ?out")
proof -
  have step: "subscribed (happen ev x t) = subscribed (x t)" "outbox (x t) = [] \<Longrightarrow> outbox (happen ev x t) = []"
    "\<not> subscribed (x t) \<Longrightarrow> \<not> worker (x t) \<Longrightarrow> \<not> worker (happen ev x t)" for ev x
    by (cases ev; auto simp: deliver_links local_op_def set_worker_def)+
  show ?sub by (rule ship_keeps [where P = "\<lambda>x. subscribed (x t) = subscribed (c t)"]) (simp_all add: step)
  show ?out if "outbox (c t) = []"
    by (rule ship_keeps [where P = "\<lambda>x. outbox (x t) = []"]) (use that in \<open>simp_all add: step\<close>)
  show ?work if "\<not> subscribed (c t)" "\<not> worker (c t)"
  proof -
    have "\<not> subscribed (ship es c t) \<and> \<not> worker (ship es c t)"
      by (rule ship_keeps [where P = "\<lambda>x. \<not> subscribed (x t) \<and> \<not> worker (x t)"]) (use that in \<open>simp_all add: step\<close>)
    then show ?thesis by simp
  qed
qed

lemma drop_subscription_simps:
  "name (drop_subscription s c t) = name (c t)" "node_id (drop_subscription s c t) = node_id (c t)" "issued (drop_subscription s c t) = issued (c t)"
  "subscribed (drop_subscription s c t) = (t \<noteq> s \<and> subscribed (c t))" "worker (drop_subscription s c t) = (t \<noteq> s \<and> worker (c t))"
  "outbox (drop_subscription s c t) = (if t = s then outbox (c t) else [])"
  by (cases s; cases t; simp add: drop_subscription_def local_op_def set_link_def set_worker_def set_subscribed_def)+

lemma drops_result:
  assumes "on_both (\<lambda>s. exec_any (call s) (drop_subscription s)) c = (Some u, d)"
  shows "same_nodes c d \<and> all_off d \<and> (\<forall>s. outbox (d s) = [])"
proof -
  let ?c1 = "ship (fst (call node_a)) c"
  let ?c2 = "ship (fst (call node_b)) (drop_subscription node_a ?c1)"
  have d: "d = drop_subscription node_b ?c2" using assms by (auto simp: on_both_Some exec_on_Some)
  have "same_nodes c ?c1" by (rule same_nodes_ship) (simp add: same_nodes_def)
  then have "same_nodes c (drop_subscription node_a ?c1)" by (simp add: same_nodes_def drop_subscription_simps)
  then have "same_nodes c ?c2" by (rule same_nodes_ship)
  then have "same_nodes c d" by (simp add: d same_nodes_def drop_subscription_simps)
  moreover have "all_off d"
    by (auto simp: all_off_def d drop_subscription_simps ship_links)
  moreover have "outbox (d s) = []" for s
    by (cases s) (simp_all add: d drop_subscription_simps ship_links)
  ultimately show ?thesis by simp
qed

lemma set_up_all_result:
  assumes "set_up_all e c = (Some u, d)"
  shows "clean d \<and> same_nodes c d"
proof -
  from assms obtain c1 where c1: "on_both (\<lambda>s. exec_any (drops e s) (drop_subscription s)) c = (Some (), c1)"
    and rest: "and_then (on_both (\<lambda>s.
       and_then (exec_any (truncates e s) (local_op s truncate_tables)) (\<lambda>_.
       and_then (exec_any (triggers_off e s) (local_op s (set_trigger False))) (\<lambda>_.
       exec_any (stat_resets e s) id)))) (\<lambda>_.
     on_both (\<lambda>s. exec_any (subscribes e s) (subscribe s))) c1 = (Some u, d)"
    unfolding set_up_all_def by (auto simp: and_then_Some)
  have off: "same_nodes c c1" "all_off c1" "\<And>s. outbox (c1 s) = []" using drops_result [OF c1] by auto
  define c2 where "c2 = (\<lambda>s. (c1 s)\<lparr>orders := Map.empty, accounts := Map.empty, lww := False\<rparr>)"
  have one: "and_then (exec_any (truncates e s) (local_op s truncate_tables)) (\<lambda>_.
       and_then (exec_any (triggers_off e s) (local_op s (set_trigger False))) (\<lambda>_.
       exec_any (stat_resets e s) id)) x = (Some v, y) \<Longrightarrow> y = x(s := (x s)\<lparr>orders := Map.empty, accounts := Map.empty, lww := False\<rparr>)"
    if x: "all_off x" for s x y v
  proof -
    have "all_off (local_op s truncate_tables x)" "all_off (local_op s (set_trigger False) (local_op s truncate_tables x))"
      using x by (auto simp: all_off_def local_op_def truncate_tables_def set_trigger_def)
    then show "y = x(s := (x s)\<lparr>orders := Map.empty, accounts := Map.empty, lww := False\<rparr>)"
      if "and_then (exec_any (truncates e s) (local_op s truncate_tables)) (\<lambda>_.
       and_then (exec_any (triggers_off e s) (local_op s (set_trigger False))) (\<lambda>_.
       exec_any (stat_resets e s) id)) x = (Some v, y)"
    proof -
      have "y = local_op s (set_trigger False) (local_op s truncate_tables x)"
        using that x \<open>all_off (local_op s truncate_tables x)\<close> \<open>all_off (local_op s (set_trigger False) (local_op s truncate_tables x))\<close>
        by (auto simp: and_then_Some exec_on_Some ship_off)
      then show ?thesis by (simp add: local_op_def truncate_tables_def set_trigger_def fun_eq_iff)
    qed
  qed
  from rest obtain c3 where c3: "on_both (\<lambda>s.
       and_then (exec_any (truncates e s) (local_op s truncate_tables)) (\<lambda>_.
       and_then (exec_any (triggers_off e s) (local_op s (set_trigger False))) (\<lambda>_.
       exec_any (stat_resets e s) id))) c1 = (Some (), c3)"
    and sub: "on_both (\<lambda>s. exec_any (subscribes e s) (subscribe s)) c3 = (Some u, d)"
    by (auto simp: and_then_Some)
  have "c3 = c2"
  proof -
    from c3 obtain x where x: "and_then (exec_any (truncates e node_a) (local_op node_a truncate_tables)) (\<lambda>_.
       and_then (exec_any (triggers_off e node_a) (local_op node_a (set_trigger False))) (\<lambda>_.
       exec_any (stat_resets e node_a) id)) c1 = (Some (), x)"
      and y: "and_then (exec_any (truncates e node_b) (local_op node_b truncate_tables)) (\<lambda>_.
       and_then (exec_any (triggers_off e node_b) (local_op node_b (set_trigger False))) (\<lambda>_.
       exec_any (stat_resets e node_b) id)) x = (Some (), c3)"
      by (auto simp: on_both_Some)
    from one [OF off(2) x] have x': "x = c1(node_a := (c1 node_a)\<lparr>orders := Map.empty, accounts := Map.empty, lww := False\<rparr>)" .
    moreover from this off(2) have "all_off x" by (simp add: all_off_def)
    ultimately show ?thesis using one [OF _ y] by (auto simp: c2_def fun_eq_iff)
  qed
  have c2: "all_off c2" "\<And>s. outbox (c2 s) = []" using off(2,3) by (simp_all add: c2_def all_off_def)
  with sub \<open>c3 = c2\<close> have d: "d = subscribe node_b (ship (fst (subscribes e node_b)) (subscribe node_a c2))"
    by (auto simp: on_both_Some exec_on_Some ship_off)
  have "\<forall>s. outbox (subscribe node_a c2 s) = []"
    using c2(2) by (simp add: subscribe_def local_op_def set_subscribed_def)
  from ship_empty [OF this] obtain w where "ship (fst (subscribes e node_b)) (subscribe node_a c2) = working w (subscribe node_a c2)"
    by blast
  then have "d = subscribe node_b (working w (subscribe node_a c2))" by (simp add: d)
  then show ?thesis
    using off(1) c2(2) by (auto simp: clean_def same_nodes_def subscribe_def local_op_def set_subscribed_def c2_def all_bool_eq)
qed

section \<open>The orders of both nodes\<close>

text \<open>After \<open>k s\<close> inserts per node: the orders of the run, and what each node has of them.\<close>

definition run_orders :: "(bool \<Rightarrow> nat) \<Rightarrow> (bool \<Rightarrow> nat) \<Rightarrow> nat \<Rightarrow> order \<Rightarrow> bool" where
  "run_orders start k i r \<longleftrightarrow> (\<exists>s j. j < k s \<and> i = order_id (if s then 1 else 2) (start s + j) \<and>
     r = \<lparr>item = item_name s j, written_on = node_name s\<rparr>)"

definition writing :: "(bool \<Rightarrow> nat) \<Rightarrow> (bool \<Rightarrow> nat) \<Rightarrow> cluster \<Rightarrow> bool" where
  "writing start k c \<longleftrightarrow> orders_inv c \<and>
     (\<forall>s. name (c s) = node_name s \<and> node_id (c s) = (if s then 1 else 2) \<and> issued (c s) = start s + k s \<and>
        accounts (c s) = Map.empty \<and> \<not> lww (c s) \<and> subscribed (c s) \<and>
        (\<forall>ch \<in> set (outbox (c s)). \<exists>i r. ch = NewOrder i r) \<and>
        (\<forall>i r. orders (c s) i = Some r \<longrightarrow> run_orders start k i r))"

lemma writing_deliver:
  assumes "writing start k c"
  shows "writing start k (deliver s c)"
proof (cases "outbox (c (\<not> s)) = [] \<or> \<not> worker (c s)")
  case False
  then have on: "worker (c s)" by simp
  from False obtain ch rest where q: "outbox (c (\<not> s)) = ch # rest" by (meson neq_Nil_conv)
  then have "ch \<in> set (outbox (c (\<not> s)))" by simp
  with assms obtain i r where ch: "ch = NewOrder i r" unfolding writing_def by blast
  have inv: "orders_inv c" using assms by (simp add: writing_def)
  have i: "orders (c s) i = None" "orders (c (\<not> s)) i = Some r"
    using orders_invD(3) [OF inv, where s = "\<not> s" and i = i and r = r] by (simp_all add: q ch)
  then have r: "run_orders start k i r" using assms by (simp add: writing_def)
  have d: "deliver s c = c(s := (c s)\<lparr>orders := (orders (c s))(i \<mapsto> r)\<rparr>, (\<not> s) := (c (\<not> s))\<lparr>outbox := rest\<rparr>)"
    using on i by (auto simp: deliver_def q ch fun_eq_iff)
  have n: "\<forall>ch \<in> set rest. \<exists>i r. ch = NewOrder i r"
    using assms q unfolding writing_def by (metis list.set_intros(2))
  show ?thesis
    using assms orders_inv_ship [OF inv, of s] r n unfolding writing_def d by auto
qed (use assms in \<open>auto simp: deliver_empty deliver_off\<close>)

lemma writing_worker:
  assumes "writing start k c"
  shows "writing start k (local_op s (set_worker b) c)"
proof -
  have "orders_inv (local_op s (set_worker b) c)"
    by (rule orders_inv_frame [of c]) (use assms in \<open>auto simp: writing_def local_op_def set_worker_def\<close>)
  with assms show ?thesis by (auto simp: writing_def local_op_def set_worker_def)
qed

lemma writing_happen: "writing start k c \<Longrightarrow> writing start k (happen ev c)"
  by (cases ev) (simp_all add: writing_deliver writing_worker)

lemma writing_insert:
  assumes "writing start k c"
  shows "writing start (k(s := Suc (k s))) (local_op s (insert_order (item_name s (k s))) c)"
proof -
  have inv: "orders_inv c" using assms by (simp add: writing_def)
  let ?i = "order_id (node_id (c s)) (issued (c s))" and ?r = "\<lparr>item = item_name s (k s), written_on = name (c s)\<rparr>"
  have f: "orders (c s) ?i = None" by (rule fresh_order [OF inv])
  then have l: "local_op s (insert_order (item_name s (k s))) c = c(s := (c s)\<lparr>issued := Suc (issued (c s)),
      orders := (orders (c s))(?i \<mapsto> ?r), outbox := outbox (c s) @ [NewOrder ?i ?r]\<rparr>)"
    by (simp add: local_op_def insert_order_def Let_def)
  have new: "run_orders start (k(s := Suc (k s))) ?i ?r"
    using assms unfolding run_orders_def writing_def by (intro exI [of _ s] exI [of _ "k s"]) simp
  have old: "run_orders start k i r \<Longrightarrow> run_orders start (k(s := Suc (k s))) i r" for i r
    unfolding run_orders_def by (metis fun_upd_apply less_SucI)
  show ?thesis
    using assms orders_inv_order [OF inv, of s "item_name s (k s)"] new old unfolding writing_def l by auto
qed

lemma write_all_result:
  assumes "write_all ws k c = (Some u, d)" and "writing start k c"
  shows "writing start (\<lambda>s. k s + length (filter (\<lambda>w. fst w = s) ws)) d"
  using assms
proof (induction ws k arbitrary: c rule: write_all.induct)
  case (2 s call ws k c)
  let ?c = "ship (fst call) c"
  have w: "writing start k ?c" by (rule ship_keeps) (use writing_happen 2 in blast)+
  from 2(2) have "write_all ws (k(s := Suc (k s))) (local_op s (insert_order (item_name s (k s))) ?c) = (Some u, d)"
    by (auto simp: and_then_Some exec_on_Some)
  from "2.IH" [OF this writing_insert [OF w]]
  show ?case by (rule back_subst [where P = "\<lambda>k. writing start k d"]) auto
qed (simp add: give_def)

lemma run_orders_unique: "run_orders start k i r \<Longrightarrow> run_orders start k i r' \<Longrightarrow> r = r'"
proof -
  assume "run_orders start k i r" "run_orders start k i r'"
  then obtain s j s' j' where o: "i = order_id (if s then 1 else 2) (start s + j)" "r = \<lparr>item = item_name s j, written_on = node_name s\<rparr>"
    "i = order_id (if s' then 1 else 2) (start s' + j')" "r' = \<lparr>item = item_name s' j', written_on = node_name s'\<rparr>"
    unfolding run_orders_def by blast
  then have "order_id (if s then 1 else 2) (start s + j) = order_id (if s' then 1 else 2) (start s' + j')" by simp
  from order_id_inject [OF this] have "s = s'" "j = j'" by (auto split: if_splits)
  with o show "r = r'" by simp
qed

lemma all_orders_there:
  assumes w: "writing start (\<lambda>_. 3) c" and full: "\<forall>s. card (dom (orders (c s))) = 6"
  shows "(orders (c s) i = Some r \<longleftrightarrow> run_orders start (\<lambda>_. 3) i r) \<and> outbox (c s) = []"
proof -
  let ?D = "(\<lambda>(s, j). order_id (if s then 1 else 2) (start s + j)) ` (UNIV \<times> {..<3})"
  have fin: "finite ?D" by simp
  have "card ?D \<le> card (UNIV \<times> {..<3} :: (bool \<times> nat) set)" by (rule card_image_le) simp
  then have card: "card ?D \<le> 6" by simp
  have inD: "i \<in> ?D" if "run_orders start (\<lambda>_. 3) i r" for i r
  proof -
    from that obtain s j where "j < 3" "i = order_id (if s then 1 else 2) (start s + j)" unfolding run_orders_def by blast
    then show ?thesis by (intro image_eqI [of _ _ "(s, j)"]) simp_all
  qed
  have sub: "dom (orders (c s)) \<subseteq> ?D" for s
  proof
    fix i assume "i \<in> dom (orders (c s))"
    then obtain r where "orders (c s) i = Some r" by blast
    with w have "run_orders start (\<lambda>_. 3) i r" by (simp add: writing_def)
    then show "i \<in> ?D" by (rule inD)
  qed
  have dom: "dom (orders (c s)) = ?D" for s
    using card_seteq [OF fin sub [of s]] full card by simp
  have "orders (c s) i = Some r \<longleftrightarrow> run_orders start (\<lambda>_. 3) i r"
  proof
    assume r: "run_orders start (\<lambda>_. 3) i r"
    then have "i \<in> ?D" by (rule inD)
    then obtain r' where r': "orders (c s) i = Some r'" using dom [of s] by blast
    with w have "run_orders start (\<lambda>_. 3) i r'" by (simp add: writing_def)
    with r r' run_orders_unique show "orders (c s) i = Some r" by blast
  qed (use w in \<open>simp add: writing_def\<close>)
  moreover have "outbox (c s) = []"
  proof (rule ccontr)
    assume "outbox (c s) \<noteq> []"
    then obtain ch rest where q: "outbox (c s) = ch # rest" by (meson neq_Nil_conv)
    then have "ch \<in> set (outbox (c s))" by simp
    with w obtain i r where "ch = NewOrder i r" unfolding writing_def by blast
    with q orders_invD(3) [of c i r s] w have "orders (c s) i = Some r" "orders (c (\<not> s)) i = None" by (simp_all add: writing_def)
    with dom [of s] dom [of "\<not> s"] show False by blast
  qed
  ultimately show ?thesis by blast
qed

section \<open>The account\<close>

lemma account_opened:
  assumes c: "\<forall>s. accounts (c s) = Map.empty \<and> outbox (c s) = []"
    and run: "exec_on call (\<lambda>c. accounts (c node_a) 1 = None) (local_op node_a (insert_account 1 who bal t)) c = (Some u, c1)"
      "wait_until (\<lambda>r c. count_table r (accounts (c node_b)) = 1) polls c1 = (Some v, d)"
  shows "\<exists>w. d = working w (\<lambda>s. (c s)\<lparr>accounts := [1 \<mapsto> \<lparr>owner = who, balance = bal, stamp = Version t (name (c node_a))\<rparr>]\<rparr>)"
proof -
  let ?r = "\<lparr>owner = who, balance = bal, stamp = Version t (name (c node_a))\<rparr>"
  let ?c = "c(node_a := (c node_a)\<lparr>accounts := [1 \<mapsto> ?r], outbox := [NewAccount 1 ?r]\<rparr>)"
  let ?d = "\<lambda>s. (c s)\<lparr>accounts := [1 \<mapsto> ?r]\<rparr>"
  obtain w where "ship (fst call) c = working w c" using ship_empty [of c] c by blast
  with run(1) have c1: "c1 = working w ?c"
    using c by (auto simp: exec_on_Some local_op_def insert_account_def Let_def fun_eq_iff working_def)
  have last: "deliver s (working w ?c) = working w (if s \<or> \<not> w s then ?c else ?d)" for s w
    using c by (cases s) (auto simp: deliver_def fun_eq_iff working_def)
  have idle: "deliver s (working w ?d) = working w ?d" for s w by (rule deliver_empty) (use c in simp)
  have last2: "deliver s (working w ?c) = working w ?c \<or> deliver s (working w ?c) = working w ?d" for s w
    unfolding last by (cases "s \<or> \<not> w s") (simp_all only: if_True if_False simp_thms)
  have step: "\<exists>w. happen ev x = working w ?c \<or> happen ev x = working w ?d" if "\<exists>w. x = working w ?c \<or> x = working w ?d" for ev x
    by (rule happen_between [OF last2 idle that])
  from wait_until_Some [OF run(2), of "\<lambda>x. \<exists>w. x = working w ?c \<or> x = working w ?d"] step c1
  obtain r w' where d: "d = working w' ?c \<or> d = working w' ?d" "count_table r (accounts (d node_b)) = 1" by blast
  have "count_table r (accounts (working w' ?c node_b)) \<noteq> 1"
    using c by (auto simp: count_table_def count_rows_def split: sum.splits dest: query_Inr [THEN iffD1])
  with d show ?thesis by blast
qed

lemma resynced:
  assumes c: "\<forall>s. accounts (c s) = [1 \<mapsto> r s] \<and> outbox (c s) = [] \<and> \<not> lww (c s)" and other: "balance (r node_b) \<noteq> bal"
    and run: "exec_any call (local_op node_a (update_account 1 bal t)) c = (Some u, c1)"
      "wait_until (\<lambda>q c. \<forall>s. balance_of (q s) (c s) = Some bal) polls c1 = (Some v, d)"
  shows "\<exists>w. d = working w (\<lambda>s. (c s)\<lparr>accounts := [1 \<mapsto> (r node_a)\<lparr>balance := bal, stamp := Version t (name (c node_a))\<rparr>]\<rparr>)"
proof -
  let ?r = "(r node_a)\<lparr>balance := bal, stamp := Version t (name (c node_a))\<rparr>"
  let ?c = "c(node_a := (c node_a)\<lparr>accounts := [1 \<mapsto> ?r], outbox := [SetAccount 1 ?r]\<rparr>)"
  let ?d = "\<lambda>s. (c s)\<lparr>accounts := [1 \<mapsto> ?r]\<rparr>"
  obtain w where "ship (fst call) c = working w c" using ship_empty [of c] c by blast
  with run(1) have c1: "c1 = working w ?c"
    using c by (auto simp: exec_on_Some local_op_def update_account_def Let_def fun_eq_iff working_def)
  have last: "deliver s (working w ?c) = working w (if s \<or> \<not> w s then ?c else ?d)" for s w
    using c by (cases s) (auto simp: deliver_def fun_eq_iff working_def)
  have idle: "deliver s (working w ?d) = working w ?d" for s w by (rule deliver_empty) (use c in simp)
  have last2: "deliver s (working w ?c) = working w ?c \<or> deliver s (working w ?c) = working w ?d" for s w
    unfolding last by (cases "s \<or> \<not> w s") (simp_all only: if_True if_False simp_thms)
  have step: "\<exists>w. happen ev x = working w ?c \<or> happen ev x = working w ?d" if "\<exists>w. x = working w ?c \<or> x = working w ?d" for ev x
    by (rule happen_between [OF last2 idle that])
  from wait_until_Some [OF run(2), of "\<lambda>x. \<exists>w. x = working w ?c \<or> x = working w ?d"] step c1
  obtain q w' where d: "d = working w' ?c \<or> d = working w' ?d" "balance_of (q node_b) (d node_b) = Some bal" by blast
  have "balance_of (q node_b) (working w' ?c node_b) \<noteq> Some bal"
    using c other by (auto simp: balance_of_def split: sum.splits dest: query_Inr [THEN iffD1])
  with d show ?thesis by blast
qed

section \<open>Concurrent updates\<close>

text \<open>Both nodes have written; \<open>ap s\<close> says that node \<open>s\<close> has applied the write of its peer, \<open>en\<close> and \<open>w\<close> which
  subscriptions are enabled and which workers run.\<close>

definition crossing :: "cluster \<Rightarrow> (bool \<Rightarrow> account) \<Rightarrow> (bool \<Rightarrow> account) \<Rightarrow> (bool \<Rightarrow> bool) \<Rightarrow> (bool \<Rightarrow> bool) \<Rightarrow> (bool \<Rightarrow> bool) \<Rightarrow> cluster" where
  "crossing c own merged ap en w s = (c s)\<lparr>accounts := [1 \<mapsto> if ap s then merged s else own s], subscribed := en s, worker := w s,
     outbox := if ap (\<not> s) then [] else [SetAccount 1 (own s)]\<rparr>"

lemma crossing_happen:
  assumes "\<forall>s. merged s = (if lww (c s) then lww_guard (own s) (own (\<not> s)) else own (\<not> s))"
  shows "\<exists>ap' w'. happen ev (crossing c own merged ap en w) = crossing c own merged ap' en w'"
proof (cases ev)
  case (Deliver s)
  have "deliver s (crossing c own merged ap en w) = crossing c own merged (if w s then ap(s := True) else ap) en w"
    using assms by (cases s) (auto simp: deliver_def crossing_def fun_eq_iff)
  with Deliver show ?thesis by auto
next
  case (Worker s b)
  have "local_op s (set_worker b) (crossing c own merged ap en w) = crossing c own merged ap en (w(s := b \<and> en s))"
    by (auto simp: local_op_def set_worker_def crossing_def fun_eq_iff)
  with Worker show ?thesis by auto
qed

lemma crossing_ship:
  assumes "\<forall>s. merged s = (if lww (c s) then lww_guard (own s) (own (\<not> s)) else own (\<not> s))"
  shows "\<exists>ap' w'. ship es (crossing c own merged ap en w) = crossing c own merged ap' en w'"
  by (rule ship_keeps [where P = "\<lambda>x. \<exists>ap' w'. x = crossing c own merged ap' en w'"]) (use crossing_happen [OF assms] in blast)+

lemma both_caught_up_empty: "both_caught_up r c \<Longrightarrow> outbox (c s) = []"
proof -
  assume "both_caught_up r c"
  then have "caught_up (query (fst (r (\<not> s))) (length (outbox (c (\<not> \<not> s))))) (\<lambda>l. query (snd (r (\<not> s))) (worker (c (\<not> s)) \<and> l = 0))"
    unfolding both_caught_up_def by blast
  then show ?thesis by (auto simp: caught_up_def query_def split: sum.splits option.splits)
qed

definition own_write :: "part_env \<Rightarrow> cluster \<Rightarrow> (bool \<Rightarrow> account) \<Rightarrow> bool \<Rightarrow> account" where
  "own_write e c r s = (r s)\<lparr>balance := if s then 15000 else 8000, stamp := Version (clocks e s) (name (c s))\<rparr>"

definition merged_write :: "part_env \<Rightarrow> cluster \<Rightarrow> (bool \<Rightarrow> account) \<Rightarrow> bool \<Rightarrow> account" where
  "merged_write e c r s =
     (if lww (c s) then lww_guard (own_write e c r s) (own_write e c r (\<not> s)) else own_write e c r (\<not> s))"

text \<open>The hypothesis on the wait for the workers: \<open>streaming\<close> takes an error of its query for a stopped worker.\<close>

definition off_answered :: "part_env \<Rightarrow> bool" where
  "off_answered e \<longleftrightarrow> (\<forall>p \<in> set (off_polls e). \<forall>s. snd p s = Done)"

lemma partition_reached:
  assumes c: "\<forall>s. outbox (c s) = []" and a: "off_answered e"
    and off: "on_both (\<lambda>s. exec_any (offs e s) (local_op s (set_subscribed False))) c = (Some (), c1)"
    and wait: "wait_until (\<lambda>r c. \<forall>s. \<not> is_streaming (r s) (c s)) (off_polls e) c1 = (Some (), c2)"
  shows "c2 = (\<lambda>s. (c s)\<lparr>subscribed := False, worker := False\<rparr>)"
proof -
  let ?c = "\<lambda>s. (c s)\<lparr>subscribed := False\<rparr>"
  obtain w where w: "ship (fst (offs e node_a)) c = working w c" using ship_empty [of c] c by blast
  have "local_op node_a (set_subscribed False) (working w c) = working w (local_op node_a (set_subscribed False) c)"
    by (auto simp: local_op_def set_subscribed_def working_def fun_eq_iff)
  moreover have "\<forall>s. outbox (local_op node_a (set_subscribed False) c s) = []"
    using c by (simp add: local_op_def set_subscribed_def)
  from ship_idle [OF this] obtain w' where "ship (fst (offs e node_b)) (working w (local_op node_a (set_subscribed False) c)) =
      working w' (local_op node_a (set_subscribed False) c)" by blast
  ultimately have "c1 = local_op node_b (set_subscribed False) (working w' (local_op node_a (set_subscribed False) c))"
    using off by (auto simp: on_both_Some exec_on_Some w)
  then have c1: "c1 = working w' ?c" by (auto simp: local_op_def set_subscribed_def working_def fun_eq_iff)
  have step: "\<exists>w. happen ev x = working w ?c" if "\<exists>w. x = working w ?c" for ev x
    using that worker_event [of _ _ _ ?c] c by (cases ev) (auto simp: deliver_empty)
  from wait_until_Some [OF wait, of "\<lambda>x. \<exists>w. x = working w ?c"] step c1
  obtain q w2 where c2: "c2 = working w2 ?c" and q: "q \<in> snd ` set (off_polls e)" "\<forall>s. \<not> is_streaming (q s) (c2 s)" by blast
  have "\<not> worker (c2 s)" for s
    using q(2)[rule_format, of s] q(1) a by (auto simp: is_streaming_def off_answered_def query_simps streaming_def worker_pid_def split: if_splits)
  then show ?thesis by (simp add: c2 working_def fun_eq_iff)
qed

lemma part_updates_result:
  assumes c: "\<forall>s. accounts (c s) = [1 \<mapsto> r s] \<and> outbox (c s) = [] \<and> subscribed (c s)" and a: "off_answered e"
    and run: "part_updates e c = (Some u, d)"
  shows "\<exists>w. d = working w (\<lambda>s. (c s)\<lparr>accounts := [1 \<mapsto> merged_write e c r s]\<rparr>)"
proof -
  let ?cross = "crossing c (own_write e c r) (merged_write e c r)"
  note ship = crossing_ship [where c = c and own = "own_write e c r" and merged = "merged_write e c r", OF allI [OF merged_write_def]]
  note event = crossing_happen [where c = c and own = "own_write e c r" and merged = "merged_write e c r", OF allI [OF merged_write_def]]
  from run obtain c1 c2 c3 c4 c5 where
    s1: "on_both (\<lambda>s. exec_any (offs e s) (local_op s (set_subscribed False))) c = (Some (), c1)" and
    s2: "wait_until (\<lambda>r c. \<forall>s. \<not> is_streaming (r s) (c s)) (off_polls e) c1 = (Some (), c2)" and
    s3: "exec_any (updates e node_a) (local_op node_a (update_account 1 15000 (clocks e node_a))) c2 = (Some (), c3)" and
    s4: "exec_any (updates e node_b) (local_op node_b (update_account 1 8000 (clocks e node_b))) c3 = (Some (), c4)" and
    s5: "on_both (\<lambda>s. exec_any (ons e s) (local_op s (set_subscribed True))) c4 = (Some (), c5)" and
    s6: "wait_until both_caught_up (on_polls e) c5 = (Some u, d)"
    unfolding part_updates_def and_then_unit by blast
  have c2: "c2 = (\<lambda>s. (c s)\<lparr>subscribed := False, worker := False\<rparr>)"
    by (rule partition_reached [OF _ a s1 s2]) (use c in simp)
  then have "all_off c2" by (simp add: all_off_def)
  with s3 have c3: "c3 = local_op node_a (update_account 1 15000 (clocks e node_a)) c2" by (simp add: exec_on_Some ship_off)
  have "all_off c3" using c by (simp add: all_off_def c3 c2 local_op_def update_account_def Let_def)
  with s4 have "c4 = local_op node_b (update_account 1 8000 (clocks e node_b)) c3" by (simp add: exec_on_Some ship_off)
  then have c4: "c4 = ?cross (\<lambda>_. False) (\<lambda>_. False) (\<lambda>_. False)"
    using c by (auto simp: c3 c2 local_op_def update_account_def Let_def fun_eq_iff crossing_def own_write_def)
  have off: "ship es c4 = c4" for es by (rule ship_off) (simp add: all_off_def c4 crossing_def)
  have "\<exists>ap w. c5 = ?cross ap (\<lambda>_. True) w"
  proof -
    have a: "local_op node_a (set_subscribed True) c4 = ?cross (\<lambda>_. False) (\<lambda>s. s) (\<lambda>_. False)"
      by (auto simp: c4 local_op_def set_subscribed_def crossing_def fun_eq_iff)
    obtain ap w where ap: "ship (fst (ons e node_b)) (?cross (\<lambda>_. False) (\<lambda>s. s) (\<lambda>_. False)) = ?cross ap (\<lambda>s. s) w"
      using ship by blast
    have "local_op node_b (set_subscribed True) (?cross ap (\<lambda>s. s) w) = ?cross ap (\<lambda>_. True) w"
      by (auto simp: local_op_def set_subscribed_def crossing_def fun_eq_iff)
    with s5 show ?thesis by (auto simp: on_both_Some exec_on_Some off a ap)
  qed
  with wait_until_Some [OF s6, of "\<lambda>x. \<exists>ap w. x = ?cross ap (\<lambda>_. True) w"] event
  obtain ap w q where d: "d = ?cross ap (\<lambda>_. True) w" "both_caught_up q d" by blast
  have "ap s" for s using both_caught_up_empty [OF d(2), of "\<not> s"] by (simp add: d(1) crossing_def split: if_splits)
  then have ap: "ap = (\<lambda>_. True)" by auto
  have "d = working w (\<lambda>s. (c s)\<lparr>accounts := [1 \<mapsto> merged_write e c r s]\<rparr>)"
    using c by (auto simp: d(1) ap crossing_def working_def fun_eq_iff)
  then show ?thesis by blast
qed

section \<open>The whole run\<close>

definition read_as :: "outcome \<Rightarrow> int \<Rightarrow> int option" where
  "read_as r x = (if r = Done then Some x else None)"

lemma balance_of_single: "accounts n = [1 \<mapsto> a] \<Longrightarrow> balance_of r n = read_as r (balance a)"
  by (cases r) (simp_all add: balance_of_def read_as_def query_simps)

lemma count_rows_eq: "count_rows r n = int m \<Longrightarrow> n = m"
  by (cases r) (simp_all add: count_rows_def query_simps)

lemma orders_part:
  assumes names: "\<forall>s. name (c s) = node_name s \<and> node_id (c s) = (if s then 1 else 2)"
    and ws: "\<forall>s. length (filter (\<lambda>w. fst w = s) (writes e)) = 3"
    and run: "set_up_all e c = (Some u, c1)" "wait_until (\<lambda>r c. \<forall>s. is_streaming (r s) (c s)) (stream_polls e) c1 = (Some v, c2)"
      "write_all (writes e) (\<lambda>_. 0) c2 = (Some w, c3)"
      "wait_until (\<lambda>r c. \<forall>s. count_table (r s) (orders (c s)) = 6) (order_polls e) c3 = (Some x, d)"
  shows "writing (\<lambda>s. issued (c s)) (\<lambda>_. 3) d \<and>
    (\<forall>s i r. (orders (d s) i = Some r \<longleftrightarrow> run_orders (\<lambda>s. issued (c s)) (\<lambda>_. 3) i r) \<and> outbox (d s) = [])"
proof -
  let ?start = "\<lambda>s. issued (c s)"
  from set_up_all_result [OF run(1)] have c1: "clean c1" "same_nodes c c1" by simp_all
  then have "writing ?start (\<lambda>_. 0) c1"
    using names by (simp add: writing_def clean_def same_nodes_def orders_inv_def all_bool_eq)
  with wait_until_Some [OF run(2), of "writing ?start (\<lambda>_. 0)"] have "writing ?start (\<lambda>_. 0) c2"
    using writing_happen by blast
  from write_all_result [OF run(3) this] ws have "writing ?start (\<lambda>_. 3) c3" by simp
  with wait_until_Some [OF run(4), of "writing ?start (\<lambda>_. 3)"] writing_happen
  obtain r where d: "writing ?start (\<lambda>_. 3) d" "\<forall>s. count_table (r s) (orders (d s)) = 6" by blast
  then have "\<forall>s. card (dom (orders (d s))) = 6"
    by (metis count_table_def count_rows_eq of_nat_numeral)
  from all_orders_there [OF d(1) this] d(1) show ?thesis by blast
qed

definition last_balance :: "part_env \<Rightarrow> int" where
  "last_balance e = (if clocks e node_b < clocks e node_a then 15000 else 8000)"

lemma merged_same:
  assumes "\<forall>s. name (c s) = node_name s" and "\<forall>s. lww (c s)" and "\<forall>s. r s = r0"
  shows "merged_write e c r s = merged_write e c r node_a \<and> balance (merged_write e c r s) = last_balance e"
  using assms
  by (cases s) (auto simp: merged_write_def lww_guard_def own_write_def last_balance_def version_less node_name_def)

lemma triggers_set:
  assumes c: "\<forall>s. outbox (c s) = []" and run: "on_both (\<lambda>s. exec_any (call s) (local_op s (set_trigger b))) c = (Some u, d)"
  shows "\<exists>w. d = working w (\<lambda>s. (c s)\<lparr>lww := b\<rparr>)"
proof -
  obtain w where w: "ship (fst (call node_a)) c = working w c" using ship_empty [of c] c by blast
  have "local_op node_a (set_trigger b) (working w c) = working w (local_op node_a (set_trigger b) c)"
    by (auto simp: local_op_def set_trigger_def working_def fun_eq_iff)
  moreover have "\<forall>s. outbox (local_op node_a (set_trigger b) c s) = []"
    using c by (simp add: local_op_def set_trigger_def)
  from ship_idle [OF this] obtain w' where "ship (fst (call node_b)) (working w (local_op node_a (set_trigger b) c)) =
      working w' (local_op node_a (set_trigger b) c)" by blast
  ultimately have "d = local_op node_b (set_trigger b) (working w' (local_op node_a (set_trigger b) c))"
    using run by (auto simp: on_both_Some exec_on_Some w)
  then have "d = working w' (\<lambda>s. (c s)\<lparr>lww := b\<rparr>)" by (auto simp: local_op_def set_trigger_def working_def fun_eq_iff)
  then show ?thesis by blast
qed

lemma accounts_part:
  assumes c: "\<forall>s. name (c s) = node_name s \<and> accounts (c s) = Map.empty \<and> outbox (c s) = [] \<and> subscribed (c s) \<and> \<not> lww (c s)"
    and a: "off_answered (first_part e)" "off_answered (second_part e)"
    and run: "exec_on (account_call e) (\<lambda>c. accounts (c node_a) 1 = None) (local_op node_a (insert_account 1 ''alice'' 10000 (opened_at e))) c = (Some u, c5)"
      "wait_until (\<lambda>r c. count_table r (accounts (c node_b)) = 1) (account_polls e) c5 = (Some u, c6)"
      "part_updates (first_part e) c6 = (Some u, c7)"
      "exec_any (resync e) (local_op node_a (update_account 1 10000 (resync_at e))) c7 = (Some u, c8)"
      "wait_until (\<lambda>r c. \<forall>s. balance_of (r s) (c s) = Some 10000) (resync_polls e) c8 = (Some u, c9)"
      "on_both (\<lambda>s. exec_any (triggers_on e s) (local_op s (set_trigger True))) c9 = (Some u, c10)"
      "part_updates (second_part e) c10 = (Some u, d)"
  shows "(\<forall>s. balance_of r (c7 s) = read_as r (if s then 8000 else 15000)) \<and>
    (\<forall>s. balance_of r (d s) = read_as r (last_balance (second_part e))) \<and> accounts (d node_a) = accounts (d node_b) \<and>
    (\<forall>s. orders (d s) = orders (c s) \<and> outbox (d s) = [])"
proof -
  define r0 where "r0 = \<lparr>owner = ''alice'', balance = 10000, stamp = Version (opened_at e) (name (c node_a))\<rparr>"
  obtain w6 where c6: "c6 = working w6 (\<lambda>s. (c s)\<lparr>accounts := [1 \<mapsto> r0]\<rparr>)"
    using account_opened [OF _ run(1,2)] c by (auto simp: r0_def)
  define r1 where "r1 = merged_write (first_part e) c6 (\<lambda>_. r0)"
  have "\<exists>w. c7 = working w (\<lambda>s. (c6 s)\<lparr>accounts := [1 \<mapsto> r1 s]\<rparr>)"
    unfolding r1_def by (rule part_updates_result [OF _ a(1) run(3)]) (use c in \<open>simp add: c6\<close>)
  then obtain w7 where "c7 = working w7 (\<lambda>s. (c6 s)\<lparr>accounts := [1 \<mapsto> r1 s]\<rparr>)" by blast
  then have c7: "c7 = working w7 (\<lambda>s. (c s)\<lparr>accounts := [1 \<mapsto> r1 s]\<rparr>)" by (simp add: c6 working_def fun_eq_iff)
  have b1: "balance (r1 s) = (if s then 8000 else 15000)" for s
    using c by (cases s) (simp_all add: r1_def merged_write_def c6 own_write_def)
  define r2 where "r2 = (r1 node_a)\<lparr>balance := 10000, stamp := Version (resync_at e) (name (c7 node_a))\<rparr>"
  have "\<exists>w. c9 = working w (\<lambda>s. (c7 s)\<lparr>accounts := [1 \<mapsto> r2]\<rparr>)"
    unfolding r2_def by (rule resynced [OF _ _ run(4,5)]) (use c b1 in \<open>simp_all add: c7\<close>)
  then obtain w9 where "c9 = working w9 (\<lambda>s. (c7 s)\<lparr>accounts := [1 \<mapsto> r2]\<rparr>)" by blast
  then have c9: "c9 = working w9 (\<lambda>s. (c s)\<lparr>accounts := [1 \<mapsto> r2]\<rparr>)" by (simp add: c7 working_def fun_eq_iff)
  have "\<forall>s. outbox (c9 s) = []" using c by (simp add: c9)
  from triggers_set [OF this run(6)] obtain w10 where "c10 = working w10 (\<lambda>s. (c9 s)\<lparr>lww := True\<rparr>)" by blast
  then have c10: "c10 = working w10 (\<lambda>s. (c s)\<lparr>accounts := [1 \<mapsto> r2], lww := True\<rparr>)" by (simp add: c9 working_def fun_eq_iff)
  define r3 where "r3 = merged_write (second_part e) c10 (\<lambda>_. r2)"
  have "\<exists>w. d = working w (\<lambda>s. (c10 s)\<lparr>accounts := [1 \<mapsto> r3 s]\<rparr>)"
    unfolding r3_def by (rule part_updates_result [OF _ a(2) run(7)]) (use c in \<open>simp add: c10\<close>)
  then obtain w11 where d: "d = working w11 (\<lambda>s. (c10 s)\<lparr>accounts := [1 \<mapsto> r3 s]\<rparr>)" by blast
  have same: "r3 s = r3 node_a \<and> balance (r3 s) = last_balance (second_part e)" for s
    unfolding r3_def by (rule merged_same) (use c in \<open>simp_all add: c10\<close>)
  from c have "\<forall>s. balance_of r (c7 s) = read_as r (if s then 8000 else 15000)"
    by (simp add: balance_of_single [where a = "r1 s" for s] c7 b1 split: if_splits)
  moreover have "\<forall>s. balance_of r (d s) = read_as r (last_balance (second_part e))"
  proof
    fix s
    have "accounts (d s) = [1 \<mapsto> r3 s]" by (simp add: d)
    from balance_of_single [OF this] same [of s] same [of node_a] show "balance_of r (d s) = read_as r (last_balance (second_part e))" by simp
  qed
  moreover have "accounts (d node_a) = accounts (d node_b)" using same [of node_b] by (simp add: d)
  ultimately show ?thesis using c by (simp add: d c10)
qed

text \<open>C9: Two nodes called \<open>node_a\<close> (id 1) and \<open>node_b\<close> (id 2), each writer inserting its three orders. If \<open>main\<close> ends and
  the queries of the two waits for stopped workers were answered (an error there counts as stopped), then however the writers
  interleave and whenever the apply workers stop, start and deliver: both nodes hold the six orders under the ids of their
  sequences, the first conflict has left each node with the value of the other, and the second has left both with the same
  row, that of the later clock (of \<open>node_b\<close> when the clocks agree); a balance that cannot be read prints as unknown.\<close>

theorem multi_main_result:
  assumes names: "\<forall>s. name (c s) = node_name s \<and> node_id (c s) = (if s then 1 else 2)"
    and ws: "\<forall>s. length (filter (\<lambda>w. fst w = s) (writes e)) = 3"
    and answered: "off_answered (first_part e)" "off_answered (second_part e)"
    and run: "multi_main e c = (Some res, d)"
  shows "(\<forall>s i r. orders (d s) i = Some r \<longleftrightarrow> run_orders (\<lambda>s. issued (c s)) (\<lambda>_. 3) i r) \<and> listed res = orders (d node_a) \<and>
    after_first res = (read_as (first_reads e node_a) 8000, read_as (first_reads e node_b) 15000) \<and>
    after_second res = (read_as (second_reads e node_a) (last_balance (second_part e)), read_as (second_reads e node_b) (last_balance (second_part e))) \<and>
    accounts (d node_a) = accounts (d node_b) \<and> (\<forall>s. outbox (d s) = [])"
proof -
  from run obtain c0 c1 c2 c3 c4 c5 c6 c7 c8 c9 c10 c11 where
    s0: "on_both (\<lambda>s c. (if err_of (pings e s) = None then Some () else None, c)) c = (Some (), c0)" and
    s1: "set_up_all e c0 = (Some (), c1)" and
    s2: "wait_until (\<lambda>r c. \<forall>s. is_streaming (r s) (c s)) (stream_polls e) c1 = (Some (), c2)" and
    s3: "write_all (writes e) (\<lambda>_. 0) c2 = (Some (), c3)" and
    s4: "wait_until (\<lambda>r c. \<forall>s. count_table (r s) (orders (c s)) = 6) (order_polls e) c3 = (Some (), c4)" and
    s5: "exec_on (account_call e) (\<lambda>c. accounts (c node_a) 1 = None) (local_op node_a (insert_account 1 ''alice'' 10000 (opened_at e))) c4 = (Some (), c5)" and
    s6: "wait_until (\<lambda>r c. count_table r (accounts (c node_b)) = 1) (account_polls e) c5 = (Some (), c6)" and
    s7: "part_updates (first_part e) c6 = (Some (), c7)" and
    s8: "exec_any (resync e) (local_op node_a (update_account 1 10000 (resync_at e))) c7 = (Some (), c8)" and
    s9: "wait_until (\<lambda>r c. \<forall>s. balance_of (r s) (c s) = Some 10000) (resync_polls e) c8 = (Some (), c9)" and
    s10: "on_both (\<lambda>s. exec_any (triggers_on e s) (local_op s (set_trigger True))) c9 = (Some (), c10)" and
    s11: "part_updates (second_part e) c10 = (Some (), d)" and
    res: "res = \<lparr>listed = orders (c4 node_a),
      after_first = (balance_of (first_reads e node_a) (c7 node_a), balance_of (first_reads e node_b) (c7 node_b)),
      after_second = (balance_of (second_reads e node_a) (d node_a), balance_of (second_reads e node_b) (d node_b))\<rparr>"
    unfolding multi_main_def by (auto simp: and_then_Some give_Some read_balances_def simp del: wait_until.simps split: if_splits)
  from s0 have "c0 = c" by (auto simp: on_both_Some split: if_splits)
  have names0: "\<forall>s. name (c0 s) = node_name s \<and> node_id (c0 s) = (if s then 1 else 2)" using names \<open>c0 = c\<close> by simp
  from orders_part [OF names0 ws s1 s2 s3 s4] have o: "writing (\<lambda>s. issued (c s)) (\<lambda>_. 3) c4"
    "\<forall>s i r. orders (c4 s) i = Some r \<longleftrightarrow> run_orders (\<lambda>s. issued (c s)) (\<lambda>_. 3) i r" "\<forall>s. outbox (c4 s) = []"
    by (simp_all add: \<open>c0 = c\<close>)
  then have "\<forall>s. name (c4 s) = node_name s \<and> accounts (c4 s) = Map.empty \<and> outbox (c4 s) = [] \<and> subscribed (c4 s) \<and> \<not> lww (c4 s)"
    by (simp add: writing_def)
  note acc = accounts_part [OF this answered s5 s6 s7 s8 s9 s10 s11]
  from acc have ord: "orders (d s) = orders (c4 s)" for s by blast
  have a: "\<forall>s i r. orders (d s) i = Some r \<longleftrightarrow> run_orders (\<lambda>s. issued (c s)) (\<lambda>_. 3) i r"
    using o(2) by (simp add: ord)
  show ?thesis using a acc by (simp add: res ord)
qed

definition fresh_cluster :: cluster where
  "fresh_cluster s = \<lparr>name = node_name s, node_id = (if s then 1 else 2), issued = 0, orders = Map.empty, accounts = Map.empty,
     lww = False, subscribed = False, worker = False, outbox = []\<rparr>"

definition calm_part :: "nat \<Rightarrow> nat \<Rightarrow> part_env" where
  "calm_part t1 t2 = \<lparr>offs = (\<lambda>_. ([], Done)), off_polls = [([Worker True False, Worker False False], \<lambda>_. Done)], updates = (\<lambda>_. ([], Done)),
     clocks = (\<lambda>s. if s then t1 else t2), ons = (\<lambda>_. ([], Done)), on_polls = [([], \<lambda>_. (Done, Done)),
       ([Worker True True, Worker False True, Deliver True, Deliver False], \<lambda>_. (Done, Done))]\<rparr>"

definition calm_nodes :: mmain_env where
  "calm_nodes = \<lparr>pings = (\<lambda>_. Done), drops = (\<lambda>_. ([], Done)), truncates = (\<lambda>_. ([], Done)), triggers_off = (\<lambda>_. ([], Done)),
     stat_resets = (\<lambda>_. ([], Done)), subscribes = (\<lambda>_. ([], Done)), stream_polls = [([Worker True True, Worker False True], \<lambda>_. Done)],
     writes = [(True, [], Done), (False, [], Done), (True, [Deliver True], Done), (False, [Deliver False], Done), (False, [], Done), (True, [], Done)],
     order_polls = [([Deliver True, Deliver True, Deliver False, Deliver False], \<lambda>_. Done)], listing = Done, account_call = ([], Done), opened_at = 1,
     account_polls = [([Deliver False], Done)], first_part = calm_part 2 3, first_reads = (\<lambda>_. Done), resync = ([], Done), resync_at = 4,
     resync_polls = [([Deliver False], \<lambda>_. Done)], triggers_on = (\<lambda>_. ([], Done)), second_part = calm_part 5 6, second_reads = (\<lambda>_. Done)\<rparr>"

lemmas calls = exec_on_def must_def Let_def ship_def local_op_def and_then_def give_def on_both_def

definition opened :: cluster where
  "opened s = (fresh_cluster s)\<lparr>subscribed := True, worker := True\<rparr>"

definition unstarted :: cluster where
  "unstarted s = (fresh_cluster s)\<lparr>subscribed := True\<rparr>"

lemma calm_set_up: "set_up_all calm_nodes fresh_cluster = (Some (), unstarted)"
  by (simp add: set_up_all_def calls calm_nodes_def drop_subscription_def subscribe_def set_subscribed_def set_link_def set_worker_def truncate_tables_def
      set_trigger_def fun_eq_iff fresh_cluster_def unstarted_def)

definition three :: "bool \<Rightarrow> (nat \<times> order) list" where
  "three s = map (\<lambda>j. (order_id (if s then 1 else 2) j, \<lparr>item = item_name s j, written_on = node_name s\<rparr>)) [0..<3]"

definition all_six :: cluster where
  "all_six s = (opened s)\<lparr>issued := 3, orders := map_of (three True) ++ map_of (three False)\<rparr>"

lemma up_to_3: "[0..<3] = [0, 1, 2]"
  by (simp add: upt_rec)

lemma calm_orders:
  "and_then (write_all (writes calm_nodes) (\<lambda>_. 0)) (\<lambda>_.
     wait_until (\<lambda>r c. \<forall>s. count_table (r s) (orders (c s)) = 6) (order_polls calm_nodes)) opened = (Some (), all_six)"
  by (simp add: calls calm_nodes_def insert_order_def opened_def fresh_cluster_def deliver_def order_id_def)
    (auto simp: count_table_def count_rows_def query_def all_bool_eq fun_eq_iff all_six_def three_def opened_def fresh_cluster_def up_to_3 order_id_def numeral_2_eq_2)

lemma calm_part_ends:
  assumes "\<forall>s. accounts (c s) = [1 \<mapsto> r s] \<and> outbox (c s) = [] \<and> subscribed (c s) \<and> worker (c s)"
  shows "part_updates (calm_part t1 t2) c = (Some (), \<lambda>s. (c s)\<lparr>accounts := [1 \<mapsto> merged_write (calm_part t1 t2) c r s]\<rparr>)"
proof -
  let ?p = "part_updates (calm_part t1 t2) c"
  have p: "fst ?p = Some () \<and> (\<forall>s. worker (snd ?p s))"
    using assms by (simp add: part_updates_def calls calm_part_def set_subscribed_def set_worker_def update_account_def deliver_def streaming_def
      is_streaming_def worker_pid_def both_caught_up_def caught_up_def query_def all_bool_eq)
  then obtain d where d: "?p = (Some (), d)" "\<forall>s. worker (d s)" by (metis prod.collapse)
  have "off_answered (calm_part t1 t2)" by (simp add: off_answered_def calm_part_def)
  with part_updates_result [OF _ this d(1), of r] assms
  obtain w where "d = working w (\<lambda>s. (c s)\<lparr>accounts := [1 \<mapsto> merged_write (calm_part t1 t2) c r s]\<rparr>)" by auto
  with d(2) assms have "d = (\<lambda>s. (c s)\<lparr>accounts := [1 \<mapsto> merged_write (calm_part t1 t2) c r s]\<rparr>)"
    by (auto simp: working_def fun_eq_iff)
  with d(1) show ?thesis by simp
qed

definition calm_row :: "cluster \<Rightarrow> account" where
  "calm_row c = \<lparr>owner = ''alice'', balance = 10000, stamp = Version 1 (name (c node_a))\<rparr>"

lemma calm_account:
  assumes "\<forall>s. accounts (c s) = Map.empty \<and> outbox (c s) = [] \<and> worker (c s)"
  shows "and_then (exec_on (account_call calm_nodes) (\<lambda>c. accounts (c node_a) 1 = None) (local_op node_a (insert_account 1 ''alice'' 10000 (opened_at calm_nodes)))) (\<lambda>_.
     wait_until (\<lambda>r c. count_table r (accounts (c node_b)) = 1) (account_polls calm_nodes)) c =
    (Some (), \<lambda>s. (c s)\<lparr>accounts := [1 \<mapsto> calm_row c]\<rparr>)"
  using assms
  by (simp add: calls calm_nodes_def insert_account_def deliver_def count_table_def count_rows_def query_def)
    (auto simp: fun_eq_iff calm_row_def)

lemma calm_resync:
  assumes "\<forall>s. accounts (c s) = [1 \<mapsto> r s] \<and> outbox (c s) = [] \<and> worker (c s) \<and> \<not> lww (c s)"
  shows "\<exists>x. and_then (exec_any (resync calm_nodes) (local_op node_a (update_account 1 10000 (resync_at calm_nodes)))) (\<lambda>_.
     and_then (wait_until (\<lambda>r c. \<forall>s. balance_of (r s) (c s) = Some 10000) (resync_polls calm_nodes)) (\<lambda>_.
     on_both (\<lambda>s. exec_any (triggers_on calm_nodes s) (local_op s (set_trigger True))))) c =
    (Some (), \<lambda>s. (c s)\<lparr>accounts := [1 \<mapsto> x], lww := True\<rparr>)"
  using assms
  by (intro exI [of _ "(r node_a)\<lparr>balance := 10000, stamp := Version 4 (name (c node_a))\<rparr>"])
    (simp add: calls calm_nodes_def update_account_def deliver_def balance_of_def query_def all_bool_eq set_trigger_def, auto simp: fun_eq_iff)

theorem multi_main_result_witness:
  "\<exists>res d. multi_main calm_nodes fresh_cluster = (Some res, d) \<and> after_first res = (Some 8000, Some 15000) \<and>
     after_second res = (Some 8000, Some 8000) \<and> accounts (d node_a) = accounts (d node_b)"
proof -
  from calm_orders obtain c3 where s3: "write_all (writes calm_nodes) (\<lambda>_. 0) opened = (Some (), c3)"
    "wait_until (\<lambda>r c. \<forall>s. count_table (r s) (orders (c s)) = 6) (order_polls calm_nodes) c3 = (Some (), all_six)"
    unfolding and_then_unit by blast
  have six: "\<forall>s. accounts (all_six s) = Map.empty \<and> outbox (all_six s) = [] \<and> subscribed (all_six s) \<and> worker (all_six s) \<and> \<not> lww (all_six s)"
    by (simp add: all_six_def opened_def fresh_cluster_def)
  define c6 where "c6 = (\<lambda>s. (all_six s)\<lparr>accounts := [1 \<mapsto> calm_row all_six]\<rparr>)"
  from calm_account [of all_six] six obtain c5 where s5:
    "exec_on (account_call calm_nodes) (\<lambda>c. accounts (c node_a) 1 = None) (local_op node_a (insert_account 1 ''alice'' 10000 (opened_at calm_nodes))) all_six = (Some (), c5)"
    "wait_until (\<lambda>r c. count_table r (accounts (c node_b)) = 1) (account_polls calm_nodes) c5 = (Some (), c6)"
    unfolding and_then_unit c6_def by auto
  have f: "first_part calm_nodes = calm_part 2 3" "second_part calm_nodes = calm_part 5 6" by (simp_all add: calm_nodes_def)
  obtain r7 c7 where s7: "part_updates (first_part calm_nodes) c6 = (Some (), c7)" and c7: "c7 = (\<lambda>s. (c6 s)\<lparr>accounts := [1 \<mapsto> r7 s]\<rparr>)"
    using calm_part_ends [of c6 "\<lambda>_. calm_row all_six" 2 3] six by (simp add: f c6_def)
  from calm_resync [of c7 r7] six obtain x c8 c9 c10 where s8:
    "exec_any (resync calm_nodes) (local_op node_a (update_account 1 10000 (resync_at calm_nodes))) c7 = (Some (), c8)"
    "wait_until (\<lambda>r c. \<forall>s. balance_of (r s) (c s) = Some 10000) (resync_polls calm_nodes) c8 = (Some (), c9)"
    "on_both (\<lambda>s. exec_any (triggers_on calm_nodes s) (local_op s (set_trigger True))) c9 = (Some (), c10)"
    and c10: "c10 = (\<lambda>s. (c7 s)\<lparr>accounts := [1 \<mapsto> x], lww := True\<rparr>)"
    unfolding and_then_unit by (auto simp: c7 c6_def)
  obtain d where s11: "part_updates (second_part calm_nodes) c10 = (Some (), d)"
    using calm_part_ends [of c10 "\<lambda>_. x" 5 6] six by (simp add: f c10 c7 c6_def)
  have s0: "on_both (\<lambda>s c. (if err_of (pings calm_nodes s) = None then Some () else None, c)) fresh_cluster = (Some (), fresh_cluster)"
    "wait_until (\<lambda>r c. \<forall>s. is_streaming (r s) (c s)) (stream_polls calm_nodes) unstarted = (Some (), opened)" "err_of (listing calm_nodes) = None"
    by (simp_all add: calls calm_nodes_def streaming_def is_streaming_def query_def worker_pid_def set_worker_def unstarted_def opened_def fun_eq_iff)
  obtain res where run: "multi_main calm_nodes fresh_cluster = (Some res, d)"
    unfolding multi_main_def
    by (simp only: and_then_def s0 calm_set_up s3 s5 s7 s8 s11 read_balances_def give_def prod.case option.case refl if_True)
  have "\<forall>s. length (filter (\<lambda>w. fst w = s) (writes calm_nodes)) = 3" by (simp add: calm_nodes_def all_bool_eq)
  moreover have "off_answered (first_part calm_nodes)" "off_answered (second_part calm_nodes)"
    by (simp_all add: f off_answered_def calm_part_def)
  ultimately show ?thesis using multi_main_result [OF _ _ _ _ run] run
    by (simp add: fresh_cluster_def calm_nodes_def read_as_def last_balance_def calm_part_def)
qed

text \<open>An unanswered query counts as a stopped worker: the wait ends with the workers running, the write of \<open>node_a\<close> reaches
  \<open>node_b\<close> before \<open>node_b\<close> writes, and without any trigger both nodes end with 80: the demonstrated divergence does not occur.\<close>

definition unread_part :: part_env where
  "unread_part = \<lparr>offs = (\<lambda>_. ([], Done)), off_polls = [([], \<lambda>_. Refused Transport)],
     updates = (\<lambda>s. (if s then [] else [Deliver False], Done)), clocks = (\<lambda>s. if s then 2 else 3), ons = (\<lambda>_. ([], Done)),
     on_polls = [([Deliver True], \<lambda>_. (Done, Done))]\<rparr>"

theorem unread_worker_spoils_partition:
  assumes "\<forall>s. accounts (c s) = [1 \<mapsto> r s] \<and> outbox (c s) = [] \<and> subscribed (c s) \<and> worker (c s) \<and> \<not> lww (c s)"
  shows "\<exists>d. part_updates unread_part c = (Some (), d) \<and> (\<forall>s. balance_of Done (d s) = Some 8000)"
proof -
  define c1 where "c1 = (\<lambda>s. (c s)\<lparr>subscribed := False\<rparr>)"
  define y where "y = (r node_a)\<lparr>balance := 15000, stamp := Version 2 (name (c node_a))\<rparr>"
  define z where "z = y\<lparr>balance := 8000, stamp := Version 3 (name (c node_b))\<rparr>"
  define c2 where "c2 = c1(node_a := (c1 node_a)\<lparr>accounts := [1 \<mapsto> y], outbox := [SetAccount 1 y]\<rparr>)"
  define c3 where "c3 = (\<lambda>s. (c1 s)\<lparr>accounts := [1 \<mapsto> y]\<rparr>)"
  define c4 where "c4 = c3(node_b := (c1 node_b)\<lparr>accounts := [1 \<mapsto> z], outbox := [SetAccount 1 z]\<rparr>)"
  define c5 where "c5 = (\<lambda>s. (c4 s)\<lparr>subscribed := True\<rparr>)"
  define d where "d = (\<lambda>s. (c s)\<lparr>accounts := [1 \<mapsto> z]\<rparr>)"
  have s1: "on_both (\<lambda>s. exec_any (offs unread_part s) (local_op s (set_subscribed False))) c = (Some (), c1)"
    by (simp add: calls unread_part_def set_subscribed_def c1_def fun_eq_iff)
  have s2: "wait_until (\<lambda>r c. \<forall>s. \<not> is_streaming (r s) (c s)) (off_polls unread_part) c1 = (Some (), c1)"
    by (simp add: unread_part_def is_streaming_def query_simps streaming_def ship_def)
  have s3: "exec_any (updates unread_part node_a) (local_op node_a (update_account 1 15000 (clocks unread_part node_a))) c1 = (Some (), c2)"
    using assms by (simp add: calls unread_part_def update_account_def c2_def c1_def y_def fun_eq_iff)
  have "ship (fst (updates unread_part node_b)) c2 = c3"
    using assms by (auto simp: unread_part_def ship_def deliver_def c2_def c1_def c3_def fun_eq_iff)
  then have s4: "exec_any (updates unread_part node_b) (local_op node_b (update_account 1 8000 (clocks unread_part node_b))) c2 = (Some (), c4)"
    using assms by (simp add: exec_on_def must_def Let_def) (simp add: unread_part_def local_op_def update_account_def Let_def c4_def c3_def c1_def z_def fun_eq_iff)
  have s5: "on_both (\<lambda>s. exec_any (ons unread_part s) (local_op s (set_subscribed True))) c4 = (Some (), c5)"
    by (simp add: calls unread_part_def set_subscribed_def c5_def fun_eq_iff)
  have "ship [Deliver True] c5 = d"
    using assms by (auto simp: ship_def deliver_def c5_def c4_def c3_def c1_def d_def fun_eq_iff)
  then have s6: "wait_until both_caught_up (on_polls unread_part) c5 = (Some (), d)"
    using assms by (simp add: unread_part_def both_caught_up_def caught_up_def query_simps d_def)
  have "part_updates unread_part c = (Some (), d)"
    unfolding part_updates_def by (simp only: and_then_def s1 s2 s3 s4 s5 s6 prod.case option.case)
  moreover have "\<forall>s. balance_of Done (d s) = Some 8000" by (simp add: balance_of_def query_simps d_def z_def)
  ultimately show ?thesis by blast
qed

theorem unread_worker_spoils_partition_witness:
  "\<exists>d. part_updates unread_part (\<lambda>s. (opened s)\<lparr>accounts := [1 \<mapsto> calm_row opened]\<rparr>) = (Some (), d) \<and>
     (\<forall>s. balance_of Done (d s) = Some 8000)"
  by (rule unread_worker_spoils_partition [of _ "\<lambda>_. calm_row opened"]) (simp add: opened_def fresh_cluster_def)

end
