(* ===== verification/Tenancy.thy ===== *)
theory Tenancy
  imports GoStd
begin

text \<open>
  Multi-tenancy: what the three programs share (slugs, closures that run inside a transaction) and
  \<open>simulate_multitenancy_shared_schema/main.go\<close>, where row-level security on a \<open>tenant_id\<close>
  column isolates the tenants.
\<close>

section \<open>Closures\<close>

text \<open>
  A Go closure that gets a transaction: it sends statements, looks at their answers, and returns a
  value or an error. It may ignore the error of a statement.
\<close>

datatype ('q, 'ans, 'a) closure =
    Return 'a
  | Fail db_error
  | Do 'q "(db_error + 'ans) \<Rightarrow> ('q, 'ans, 'a) closure"

definition aborted_error :: db_error where
  "aborted_error = Sqlstate ''25P02''"

text \<open>
  Inside a transaction block: after the first error every further statement is refused. The state is
  the flag and the tables as the transaction sees them.
\<close>

definition in_block :: "('s \<Rightarrow> (db_error + 'ans) \<times> 's) \<Rightarrow> bool \<times> 's \<Rightarrow> (db_error + 'ans) \<times> bool \<times> 's" where
  "in_block f = (\<lambda>(ab, s).
     if ab then (Inl aborted_error, True, s)
     else case f s of (Inl e, _) \<Rightarrow> (Inl e, True, s) | (Inr x, s') \<Rightarrow> (Inr x, False, s'))"

primrec run_closure :: "('q \<Rightarrow> 's \<Rightarrow> (db_error + 'ans) \<times> 's) \<Rightarrow> ('q, 'ans, 'a) closure \<Rightarrow> bool \<times> 's
    \<Rightarrow> (db_error + 'a) \<times> bool \<times> 's" where
  "run_closure sql (Return x) st = (Inr x, st)"
| "run_closure sql (Fail e) st = (Inl e, st)"
| "run_closure sql (Do q k) st = (case in_block (sql q) st of (r, st') \<Rightarrow> run_closure sql (k r) st')"

text \<open>All statements that the closure can send, whatever the answers, satisfy \<open>Q\<close>.\<close>

primrec sends_only :: "('q \<Rightarrow> bool) \<Rightarrow> ('q, 'ans, 'a) closure \<Rightarrow> bool" where
  "sends_only Q (Return x) = True"
| "sends_only Q (Fail e) = True"
| "sends_only Q (Do q k) = (Q q \<and> (\<forall>r. sends_only Q (k r)))"

lemma sends_only_True [simp]: "sends_only (\<lambda>_. True) c"
  by (induction c) simp_all

text \<open>A relation that every such statement keeps is kept by the closure.\<close>

lemma run_closure_only:
  assumes "sends_only Q c" and "R s s" and "\<And>q t x t'. Q q \<Longrightarrow> R s t \<Longrightarrow> sql q t = (Inr x, t') \<Longrightarrow> R s t'"
  shows "R s (snd (snd (run_closure sql c (ab, s))))"
proof -
  have "sends_only Q c \<Longrightarrow> R s t \<Longrightarrow> R s (snd (snd (run_closure sql c (ab, t))))" for ab t
  proof (induction c arbitrary: ab t)
    case (Do q k)
    obtain r ab' t' where i: "in_block (sql q) (ab, t) = (r, ab', t')" by (metis prod_cases3)
    with Do.prems assms(3) [of q] have "R s t'" by (auto simp: in_block_def split: if_splits prod.splits sum.splits)
    moreover have "sends_only Q (k r)" using Do.prems(1) by simp
    ultimately show ?case using Do.IH [OF rangeI, of r t' ab'] i by simp
  qed simp_all
  then show ?thesis using assms(1,2) by blast
qed

lemma run_closure_relation:
  assumes "R s s" and "\<And>q t x t'. R s t \<Longrightarrow> sql q t = (Inr x, t') \<Longrightarrow> R s t'"
  shows "R s (snd (snd (run_closure sql c (ab, s))))"
  by (rule run_closure_only [where R = R and Q = "\<lambda>_. True"]) (use assms in simp_all)

text \<open>Two states that no such statement can tell apart give the same run.\<close>

lemma run_closure_same_only:
  assumes "sends_only Q c" and "R s t" and step: "\<And>q s t. Q q \<Longrightarrow> R s t \<Longrightarrow> fst (sql q s) = fst (sql q t) \<and> R (snd (sql q s)) (snd (sql q t))"
  shows "fst (run_closure sql c (ab, s)) = fst (run_closure sql c (ab, t)) \<and>
    fst (snd (run_closure sql c (ab, s))) = fst (snd (run_closure sql c (ab, t))) \<and>
    R (snd (snd (run_closure sql c (ab, s)))) (snd (snd (run_closure sql c (ab, t))))"
  using assms(1,2)
proof (induction c arbitrary: ab s t)
  case (Do q k)
  obtain r ab' s' where i: "in_block (sql q) (ab, s) = (r, ab', s')" by (metis prod_cases3)
  obtain r2 ab2 t' where j: "in_block (sql q) (ab, t) = (r2, ab2, t')" by (metis prod_cases3)
  have "r2 = r \<and> ab2 = ab' \<and> R s' t'"
    using i j step [OF _ Do.prems(2), of q] Do.prems
    by (auto simp: in_block_def split: if_splits prod.splits sum.splits)
  moreover have "sends_only Q (k r)" using Do.prems(1) by simp
  ultimately show ?case using Do.IH [OF rangeI, of r s' t' ab'] i j by simp
qed simp_all

lemma run_closure_same:
  assumes "R s t" and "\<And>q s t. R s t \<Longrightarrow> fst (sql q s) = fst (sql q t) \<and> R (snd (sql q s)) (snd (sql q t))"
  shows "fst (run_closure sql c (ab, s)) = fst (run_closure sql c (ab, t)) \<and>
    fst (snd (run_closure sql c (ab, s))) = fst (snd (run_closure sql c (ab, t))) \<and>
    R (snd (snd (run_closure sql c (ab, s)))) (snd (snd (run_closure sql c (ab, t))))"
  by (rule run_closure_same_only [where R = R and Q = "\<lambda>_. True"]) (use assms in simp_all)

section \<open>Tenant slugs\<close>

text \<open>\<open>validSlug\<close>: \<open>^[a-z][a-z0-9_]{0,40}$\<close>.\<close>

definition is_lower :: "char \<Rightarrow> bool" where
  "is_lower c \<longleftrightarrow> 97 \<le> (of_char c :: nat) \<and> (of_char c :: nat) \<le> 122"

definition valid_slug :: "string \<Rightarrow> bool" where
  "valid_slug s = (case s of
     [] \<Rightarrow> False
   | c # cs \<Rightarrow> is_lower c \<and> length cs \<le> 40 \<and> list_all (\<lambda>c. is_lower c \<or> is_digit c \<or> c = CHR ''_'') cs)"

definition tenant_name :: "string \<Rightarrow> string" where
  "tenant_name slug = ''tenant_'' @ slug"

lemma tenant_name_inject [simp]: "tenant_name a = tenant_name b \<longleftrightarrow> a = b"
  by (simp add: tenant_name_def)

section \<open>Shared schema: tables and policy\<close>

record doc =
  doc_id :: nat
  tenant_id :: int
  title :: string
  body :: string

record saas =
  tenant_ids :: "int list"
  documents :: "doc list"
  next_id :: nat

definition parse_int :: "string \<Rightarrow> int option" where
  "parse_int s =
     (case s of
        [] \<Rightarrow> None
      | c # cs \<Rightarrow>
          (if c = CHR ''-'' then (if cs \<noteq> [] \<and> list_all is_digit cs then Some (- int (undec cs)) else None)
           else if list_all is_digit s then Some (int (undec s)) else None))"

text \<open>\<open>current_setting('app.current_tenant')::int\<close>: not set, not a number, or out of range is an error.\<close>

definition current_tenant :: "string option \<Rightarrow> db_error + int" where
  "current_tenant setting =
     (case setting of
        None \<Rightarrow> Inl (Sqlstate ''42704'')
      | Some s \<Rightarrow>
          (case parse_int s of
             None \<Rightarrow> Inl (Sqlstate ''22P02'')
           | Some i \<Rightarrow> if int4 i then Inr i else Inl (Sqlstate ''22003'')))"

datatype sql =
    Select "doc \<Rightarrow> bool"
  | Insert int string string
  | Update "doc \<Rightarrow> bool" "doc \<Rightarrow> doc"
  | Delete "doc \<Rightarrow> bool"

definition rls_error :: db_error where
  "rls_error = Sqlstate ''42501''"

text \<open>
  Statements under the policy \<open>tenant_isolation\<close>: USING decides which rows exist for the session,
  WITH CHECK which new rows it may write; then the reference to \<open>tenants\<close>. (The gaps that a rollback
  leaves in the sequence of ids are not modelled.)
\<close>

fun run_sql :: "string option \<Rightarrow> sql \<Rightarrow> saas \<Rightarrow> (db_error + doc list) \<times> saas" where
  "run_sql setting q s =
     (case current_tenant setting of
        Inl e \<Rightarrow> (Inl e, s)
      | Inr me \<Rightarrow>
          (case q of
             Select P \<Rightarrow> (Inr (filter P (filter (\<lambda>d. tenant_id d = me) (documents s))), s)
           | Insert i t b \<Rightarrow>
               (if i \<noteq> me then (Inl rls_error, s\<lparr>next_id := Suc (next_id s)\<rparr>)
                else if i \<notin> set (tenant_ids s) then (Inl (Sqlstate ''23503''), s\<lparr>next_id := Suc (next_id s)\<rparr>)
                else (Inr [], s\<lparr>documents := documents s @ [\<lparr>doc_id = next_id s, tenant_id = i, title = t, body = b\<rparr>],
                         next_id := Suc (next_id s)\<rparr>))
           | Update P f \<Rightarrow>
               (let hit = (\<lambda>d. tenant_id d = me \<and> P d) in
                if list_ex (\<lambda>d. hit d \<and> tenant_id (f d) \<noteq> me) (documents s) then (Inl rls_error, s)
                else (Inr [], s\<lparr>documents := map (\<lambda>d. if hit d then f d else d) (documents s)\<rparr>))
           | Delete P \<Rightarrow> (Inr [], s\<lparr>documents := filter (\<lambda>d. \<not> (tenant_id d = me \<and> P d)) (documents s)\<rparr>)))"

text \<open>
  A closure may also set the tenant itself, with \<open>set_config\<close> or SET: local to the transaction or for the session.
  \<open>seen\<close> is what statements of the transaction read, \<open>kept\<close> what the connection holds once the transaction commits.
\<close>

datatype tenant_sql = On_documents sql | Set_tenant bool string

record session =
  seen :: "string option"
  kept :: "string option"

fun run_tenant_sql :: "tenant_sql \<Rightarrow> session \<times> saas \<Rightarrow> (db_error + doc list) \<times> session \<times> saas" where
  "run_tenant_sql (On_documents q) (se, s) = (case run_sql (seen se) q s of (r, s') \<Rightarrow> (r, se, s'))"
| "run_tenant_sql (Set_tenant is_local v) (se, s) =
     (Inr [], (if is_local then se\<lparr>seen := Some v\<rparr> else \<lparr>seen = Some v, kept = Some v\<rparr>), s)"

text \<open>
  \<open>WithTenant\<close>. \<open>setting\<close> is what the pooled connection holds: the local value is dropped at the end
  of the transaction, which leaves an empty string on a connection that had none. The COMMIT of a
  block with a failed statement is a rollback and an error, also when the closure returned none.
\<close>

definition with_tenant :: "outcome \<Rightarrow> outcome \<Rightarrow> outcome \<Rightarrow> int \<Rightarrow> (tenant_sql, doc list, 'a) closure
    \<Rightarrow> string option \<times> saas \<Rightarrow> (db_error + 'a) \<times> string option \<times> saas" where
  "with_tenant rb rs rc tid fn = (\<lambda>(setting, s).
     (case err_of rb of Some e \<Rightarrow> (Inl e, setting, s)
      | None \<Rightarrow>
     (case err_of rs of Some e \<Rightarrow> (Inl e, setting, s)
      | None \<Rightarrow>
          (let left = (\<lambda>v. case v of None \<Rightarrow> Some [] | Some v \<Rightarrow> Some v) in
           case run_closure run_tenant_sql fn (False, \<lparr>seen = Some (dec_int tid), kept = setting\<rparr>, s) of
             (Inl e, _) \<Rightarrow> (Inl e, left setting, s)
           | (Inr x, ab, se, s') \<Rightarrow>
               (if ab then (Inl aborted_error, left setting, s)
                else case err_of rc of
                       None \<Rightarrow> (Inr x, left (kept se), s')
                     | Some e \<Rightarrow> (if applied rc then (Inl e, left (kept se), s') else (Inl e, left setting, s)))))))"

text \<open>A statement names no tenant but \<open>tid\<close>.\<close>

fun no_other_tenant :: "int \<Rightarrow> tenant_sql \<Rightarrow> bool" where
  "no_other_tenant tid (On_documents q) = True"
| "no_other_tenant tid (Set_tenant is_local v) = (case current_tenant (Some v) of Inl e \<Rightarrow> True | Inr i \<Rightarrow> i = tid)"

text \<open>A statement straight on the pool: no tenant, one autocommitted statement.\<close>

definition on_pool :: "string option \<Rightarrow> sql \<Rightarrow> saas \<Rightarrow> (db_error + doc list) \<times> saas" where
  "on_pool setting q s = (case run_sql setting q s of (Inl e, _) \<Rightarrow> (Inl e, s) | (Inr x, s') \<Rightarrow> (Inr x, s'))"

definition list_documents :: "(tenant_sql, doc list, string list) closure" where
  "list_documents = Do (On_documents (Select (\<lambda>_. True))) (\<lambda>r. case r of Inl e \<Rightarrow> Fail e | Inr ds \<Rightarrow> Return (map title ds))"

section \<open>Lemmas\<close>

lemma dec_not_Nil [simp]: "dec n \<noteq> []"
  by (simp add: dec.simps [of n])

lemma dec_head_digit: "dec n = c # cs \<Longrightarrow> c \<noteq> CHR ''-''"
  using dec_digits [of c n] by (auto simp: is_digit_def)

lemma parse_dec_int [simp]: "parse_int (dec_int i) = Some i"
proof (cases "i < 0")
  case True
  have "list_all is_digit (dec (nat (- i)))" by (simp add: list_all_iff dec_digits)
  with True show ?thesis by (simp add: dec_int_def parse_int_def)
next
  case False
  obtain c cs where d: "dec (nat i) = c # cs" by (meson dec_not_Nil neq_Nil_conv)
  have a: "list_all is_digit (dec (nat i))" by (simp add: list_all_iff dec_digits)
  have "undec (c # cs) = nat i" using d by (metis undec_dec)
  with False d a dec_head_digit [OF d] show ?thesis by (simp add: dec_int_def parse_int_def)
qed

lemma current_tenant_dec: "current_tenant (Some (dec_int i)) = (if int4 i then Inr i else Inl (Sqlstate ''22003''))"
  by (simp add: current_tenant_def)

definition others :: "int \<Rightarrow> saas \<Rightarrow> doc list" where
  "others me s = filter (\<lambda>d. tenant_id d \<noteq> me) (documents s)"

definition mine :: "int \<Rightarrow> saas \<Rightarrow> doc list" where
  "mine me s = filter (\<lambda>d. tenant_id d = me) (documents s)"

lemma update_others:
  assumes "\<not> list_ex (\<lambda>d. (tenant_id d = me \<and> P d) \<and> tenant_id (f d) \<noteq> me) ds"
  shows "filter (\<lambda>d. tenant_id d \<noteq> me) (map (\<lambda>d. if tenant_id d = me \<and> P d then f d else d) ds) = filter (\<lambda>d. tenant_id d \<noteq> me) ds"
    "filter (\<lambda>d. tenant_id d = me) (map (\<lambda>d. if tenant_id d = me \<and> P d then f d else d) ds) =
      map (\<lambda>d. if P d then f d else d) (filter (\<lambda>d. tenant_id d = me) ds)"
  using assms by (induction ds) auto

lemma run_sql_others:
  assumes "run_sql v q s = (Inr x, s')" and "current_tenant v = Inr me"
  shows "others me s' = others me s"
proof (cases q)
  case (Update P f)
  with assms show ?thesis
    by (auto simp: others_def Let_def update_others split: if_splits)
next
  case (Delete P)
  have "filter (\<lambda>d. (tenant_id d = me \<longrightarrow> \<not> P d) \<and> tenant_id d \<noteq> me) ds = filter (\<lambda>d. tenant_id d \<noteq> me) ds" for ds
    by (rule filter_cong) auto
  with Delete assms show ?thesis by (auto simp: others_def)
qed (use assms in \<open>auto simp: others_def split: if_splits\<close>)

definition same_for :: "int \<Rightarrow> saas \<Rightarrow> saas \<Rightarrow> bool" where
  "same_for me s t \<longleftrightarrow> mine me s = mine me t \<and> next_id s = next_id t \<and> tenant_ids s = tenant_ids t"

lemma list_ex_mine:
  "list_ex (\<lambda>d. (tenant_id d = me \<and> P d) \<and> tenant_id (f d) \<noteq> me) ds \<longleftrightarrow>
   list_ex (\<lambda>d. P d \<and> tenant_id (f d) \<noteq> me) (filter (\<lambda>d. tenant_id d = me) ds)"
  by (induction ds) auto

lemma run_sql_same:
  assumes "same_for me s t" and v: "current_tenant v = Inr me"
  shows "fst (run_sql v q s) = fst (run_sql v q t) \<and>
    same_for me (snd (run_sql v q s)) (snd (run_sql v q t))"
proof (cases q)
  case (Update P f)
  have m: "filter (\<lambda>d. tenant_id d = me) (documents s) = filter (\<lambda>d. tenant_id d = me) (documents t)"
    using assms by (simp add: same_for_def mine_def)
  have e: "list_ex (\<lambda>d. (tenant_id d = me \<and> P d) \<and> tenant_id (f d) \<noteq> me) (documents s) =
      list_ex (\<lambda>d. (tenant_id d = me \<and> P d) \<and> tenant_id (f d) \<noteq> me) (documents t)"
    unfolding list_ex_mine m ..
  show ?thesis
  proof (cases "list_ex (\<lambda>d. (tenant_id d = me \<and> P d) \<and> tenant_id (f d) \<noteq> me) (documents t)")
    case True
    with e assms Update show ?thesis by (simp add: v)
  next
    case False
    with e have ns: "\<not> list_ex (\<lambda>d. (tenant_id d = me \<and> P d) \<and> tenant_id (f d) \<noteq> me) (documents s)" by simp
    have r: "run_sql v q w = (Inr [], w\<lparr>documents := map (\<lambda>d. if tenant_id d = me \<and> P d then f d else d) (documents w)\<rparr>)"
      if "documents w \<in> {documents s, documents t}" for w
      using that e False by (auto simp: v Update)
    show ?thesis using assms update_others(2) [OF ns] update_others(2) [OF False]
      by (simp add: r same_for_def mine_def del: run_sql.simps)
  qed
next
  case (Delete P)
  have d: "filter (\<lambda>d. tenant_id d = me) (filter (\<lambda>d. \<not> (tenant_id d = me \<and> P d)) ds) =
      filter (\<lambda>d. \<not> P d) (filter (\<lambda>d. tenant_id d = me) ds)" for ds
    by (induction ds) auto
  show ?thesis using assms Delete
    by (simp add: v same_for_def mine_def d del: filter_filter de_Morgan_conj)
qed (use assms in \<open>simp_all add: v same_for_def mine_def\<close>)

section \<open>Properties of the shared schema\<close>

definition demo_saas :: saas where
  "demo_saas = \<lparr>tenant_ids = [1, 2, 3], documents =
     [\<lparr>doc_id = 1, tenant_id = 1, title = ''Acme roadmap'', body = ''a''\<rparr>,
      \<lparr>doc_id = 3, tenant_id = 2, title = ''Globex strategy'', body = ''g''\<rparr>], next_id = 6\<rparr>"

lemma with_tenant_cases:
  "snd (snd (with_tenant rb rs rc tid fn (setting, s))) = s \<or>
   snd (snd (with_tenant rb rs rc tid fn (setting, s))) =
     snd (snd (snd (run_closure run_tenant_sql fn (False, \<lparr>seen = Some (dec_int tid), kept = setting\<rparr>, s))))"
proof -
  obtain a b se s' where "run_closure run_tenant_sql fn (False, \<lparr>seen = Some (dec_int tid), kept = setting\<rparr>, s) = (a, b, se, s')"
    by (metis prod_cases4)
  then show ?thesis by (simp add: with_tenant_def Let_def split: option.split sum.split)
qed

text \<open>What a transaction reads as its tenant, while no other one is named: nothing or \<open>tid\<close>.\<close>

definition sees_only :: "int \<Rightarrow> session \<Rightarrow> bool" where
  "sees_only tid se \<longleftrightarrow> (case current_tenant (seen se) of Inl e \<Rightarrow> True | Inr i \<Rightarrow> i = tid)"

lemma sees_only_start: "sees_only tid \<lparr>seen = Some (dec_int tid), kept = v\<rparr>"
  by (simp add: sees_only_def current_tenant_dec)

lemma sees_only_step: "sees_only tid se \<Longrightarrow> no_other_tenant tid q \<Longrightarrow> sees_only tid (fst (snd (run_tenant_sql q (se, s))))"
  by (cases q) (auto simp: sees_only_def split: prod.split)

lemma run_sql_no_tenant: "current_tenant v = Inl e \<Longrightarrow> run_sql v q s = (Inl e, s)"
  by simp

text \<open>C27: Whatever statements on the documents a request sends inside \<open>WithTenant\<close>, reads or writes, and whatever the server
  answers, the documents of every other tenant are left as they are, provided that the request does not itself set
  \<open>app.current_tenant\<close> to another tenant (setting it to the own one, or to something that is no tenant, is allowed).\<close>

theorem tenant_writes_stay_inside:
  assumes "sends_only (no_other_tenant tid) fn"
  shows "filter (\<lambda>d. tenant_id d \<noteq> tid) (documents (snd (snd (with_tenant rb rs rc tid fn (setting, s))))) =
   filter (\<lambda>d. tenant_id d \<noteq> tid) (documents s)"
proof -
  let ?start = "(\<lparr>seen = Some (dec_int tid), kept = setting\<rparr>, s)"
  let ?R = "\<lambda>x y. sees_only tid (fst y) \<and> others tid (snd y) = others tid (snd x)"
  have "?R ?start (snd (snd (run_closure run_tenant_sql fn (False, ?start))))"
  proof (rule run_closure_only [where R = ?R, OF assms])
    fix q y x z
    assume q: "no_other_tenant tid q" and y: "?R ?start y" and run: "run_tenant_sql q y = (Inr x, z)"
    obtain se t where yt: "y = (se, t)" by (cases y)
    from sees_only_step [of tid se q t] y q run have "sees_only tid (fst z)" by (simp add: yt)
    moreover have "others tid (snd z) = others tid t"
    proof (cases q)
      case (On_documents d)
      with run have d: "run_sql (seen se) d t = (Inr x, snd z)" by (auto simp: yt split: prod.splits)
      then obtain i where i: "current_tenant (seen se) = Inr i" using run_sql_no_tenant by (cases "current_tenant (seen se)") fastforce+
      with y have "i = tid" by (simp add: yt sees_only_def)
      with run_sql_others [OF d i] show ?thesis by simp
    qed (use run in \<open>auto simp: yt\<close>)
    ultimately show "?R ?start z" using y by (simp add: yt)
  qed (simp add: sees_only_start)
  then show ?thesis
    using with_tenant_cases [of rb rs rc tid fn setting s] by (auto simp: others_def)
qed

text \<open>A request that touches and deletes all it can, and sets its own tenant again.\<close>

definition vandal :: "(tenant_sql, doc list, unit) closure" where
  "vandal = Do (On_documents (Update (\<lambda>_. True) (\<lambda>d. d\<lparr>body := []\<rparr>))) (\<lambda>_.
     Do (Set_tenant True ''1'') (\<lambda>_. Do (On_documents (Delete (\<lambda>_. True))) (\<lambda>_. Return ())))"

lemma current_tenant_1: "current_tenant (Some ''1'') = Inr 1"
  by code_simp

theorem tenant_writes_stay_inside_witness:
  "filter (\<lambda>d. tenant_id d \<noteq> 1) (documents (snd (snd (with_tenant Done Done Done 1 vandal (None, demo_saas))))) =
   [\<lparr>doc_id = 3, tenant_id = 2, title = ''Globex strategy'', body = ''g''\<rparr>]"
proof -
  have "sends_only (no_other_tenant 1) vandal" by (simp add: vandal_def current_tenant_1)
  from tenant_writes_stay_inside [OF this, of Done Done Done None demo_saas] show ?thesis by (simp add: demo_saas_def)
qed

text \<open>The condition is needed: the policy believes whoever sets the tenant last, so a request of one tenant that sets
  another one deletes that one's documents.\<close>

theorem request_can_change_tenant:
  assumes "int4 tid" and "int4 other" and "\<forall>d \<in> set (documents s). tenant_id d = other"
  shows "with_tenant Done Done Done tid
      (Do (Set_tenant True (dec_int other)) (\<lambda>_. Do (On_documents (Delete (\<lambda>_. True))) (\<lambda>_. Return ()))) (Some [], s) =
    (Inr (), Some [], s\<lparr>documents := []\<rparr>)"
  using assms by (simp add: with_tenant_def in_block_def current_tenant_dec)

theorem request_can_change_tenant_witness:
  "snd (snd (with_tenant Done Done Done 1 (Do (Set_tenant True (dec_int 2)) (\<lambda>_. Do (On_documents (Delete (\<lambda>_. True))) (\<lambda>_. Return ())))
     (Some [], demo_saas\<lparr>documents := drop 1 (documents demo_saas)\<rparr>))) = demo_saas\<lparr>documents := []\<rparr>"
  using request_can_change_tenant [of 1 2 "demo_saas\<lparr>documents := drop 1 (documents demo_saas)\<rparr>"] by (simp add: int4_def demo_saas_def)

text \<open>What a request sees, returns and does to its own rows does not depend on the documents of the other
  tenants, under the same condition: two databases that agree on the tenant's rows give the same run of the closure.\<close>

theorem tenant_reads_stay_inside:
  assumes "sends_only (no_other_tenant tid) fn" and "same_for tid s t"
  shows "fst (with_tenant rb rs rc tid fn (setting, s)) = fst (with_tenant rb rs rc tid fn (setting, t)) \<and>
    same_for tid (snd (snd (with_tenant rb rs rc tid fn (setting, s)))) (snd (snd (with_tenant rb rs rc tid fn (setting, t))))"
proof -
  let ?se = "\<lparr>seen = Some (dec_int tid), kept = setting\<rparr>"
  let ?run = "\<lambda>s. run_closure run_tenant_sql fn (False, ?se, s)"
  let ?R = "\<lambda>x y. fst x = fst y \<and> sees_only tid (fst x) \<and> same_for tid (snd x) (snd y)"
  have r: "fst (?run s) = fst (?run t) \<and> fst (snd (?run s)) = fst (snd (?run t)) \<and> ?R (snd (snd (?run s))) (snd (snd (?run t)))"
  proof (rule run_closure_same_only [where R = ?R, OF assms(1)])
    show "?R (?se, s) (?se, t)" using assms(2) by (simp add: sees_only_start)
    fix q x y
    assume q: "no_other_tenant tid q" and R: "?R x y"
    obtain se u v where xy: "x = (se, u)" "y = (se, v)" using R by (cases x, cases y) auto
    show "fst (run_tenant_sql q x) = fst (run_tenant_sql q y) \<and> ?R (snd (run_tenant_sql q x)) (snd (run_tenant_sql q y))"
    proof (cases q)
      case (On_documents d)
      have "fst (run_sql (seen se) d u) = fst (run_sql (seen se) d v) \<and> same_for tid (snd (run_sql (seen se) d u)) (snd (run_sql (seen se) d v))"
      proof (cases "current_tenant (seen se)")
        case (Inl e)
        with R show ?thesis by (simp add: run_sql_no_tenant xy del: run_sql.simps)
      next
        case (Inr i)
        with R run_sql_same [of tid u v "seen se" d] show ?thesis by (simp add: xy sees_only_def)
      qed
      with R show ?thesis by (simp add: On_documents xy split_beta del: run_sql.simps)
    next
      case (Set_tenant is_local w)
      with R q show ?thesis by (simp add: xy sees_only_def)
    qed
  qed
  obtain a b se s' where rs: "?run s = (a, b, se, s')" by (metis prod_cases4)
  obtain a' b' se' t' where rt: "?run t = (a', b', se', t')" by (metis prod_cases4)
  from r have "a' = a" "b' = b" "se' = se" "same_for tid s' t'" by (simp_all add: rs rt)
  with assms show ?thesis
    by (auto simp: with_tenant_def Let_def rs rt split: option.split sum.split)
qed

theorem tenant_reads_stay_inside_witness:
  "fst (with_tenant Done Done Done 1 list_documents (None, demo_saas)) =
   fst (with_tenant Done Done Done 1 list_documents (None, demo_saas\<lparr>documents := take 1 (documents demo_saas)\<rparr>))"
proof -
  have "same_for 1 demo_saas (demo_saas\<lparr>documents := take 1 (documents demo_saas)\<rparr>)"
    by (simp add: same_for_def mine_def demo_saas_def)
  moreover have "sends_only (no_other_tenant 1) list_documents" by (simp add: list_documents_def split: sum.split)
  ultimately show ?thesis using tenant_reads_stay_inside [of 1 list_documents _ _ Done Done Done None] by blast
qed

text \<open>A statement that reaches the pool outside \<open>WithTenant\<close> fails and changes nothing: on a fresh
  connection the setting is missing, on a used one \<open>WithTenant\<close> left it empty. A request that sets the
  tenant for the session breaks this.\<close>

fun no_session_tenant :: "tenant_sql \<Rightarrow> bool" where
  "no_session_tenant (On_documents q) = True"
| "no_session_tenant (Set_tenant is_local v) = is_local"

theorem no_tenant_fails_closed:
  assumes "sends_only no_session_tenant fn" and "fst (snd (with_tenant rb rs rc tid fn (None, s))) = left"
  shows "\<exists>e. on_pool left q t = (Inl e, t)"
proof -
  let ?start = "(\<lparr>seen = Some (dec_int tid), kept = None\<rparr>, s)"
  have "kept (fst (snd (snd (run_closure run_tenant_sql fn (False, ?start))))) = kept (fst ?start)"
  proof (rule run_closure_only [where R = "\<lambda>x y. kept (fst y) = kept (fst x)", OF assms(1)])
    fix q y x z
    assume "no_session_tenant q" "kept (fst y) = kept (fst ?start)" "run_tenant_sql q y = (Inr x, z)"
    then show "kept (fst z) = kept (fst ?start)" by (cases q; cases y) (auto split: prod.splits)
  qed simp
  moreover obtain a b se s' where "run_closure run_tenant_sql fn (False, ?start) = (a, b, se, s')" by (metis prod_cases4)
  ultimately have "left = None \<or> left = Some []"
    using assms(2) by (auto simp: with_tenant_def Let_def split: option.splits sum.splits if_splits)
  then show ?thesis by (auto simp: on_pool_def current_tenant_def parse_int_def)
qed

theorem no_tenant_fails_closed_witness:
  "\<exists>e. on_pool (Some []) (Select (\<lambda>_. True)) demo_saas = (Inl e, demo_saas)"
  by (rule no_tenant_fails_closed [of "Return ()" Done Done Done 1 demo_saas "Some []"])
    (simp_all add: with_tenant_def)

text \<open>The closure of \<open>main\<close> that ignores a refused insert: \<open>WithTenant\<close> reports the failed block.\<close>

lemma ignored_error_is_reported:
  "with_tenant Done Done Done 1 (Do (On_documents (Insert 2 t b)) (\<lambda>_. Return ())) (setting, s) =
     (Inl aborted_error, Some (case setting of None \<Rightarrow> [] | Some v \<Rightarrow> v), s)"
proof -
  have "current_tenant (Some (dec_int 1)) = Inr 1" by (simp add: current_tenant_dec int4_def)
  then show ?thesis by (simp add: with_tenant_def in_block_def split: option.split)
qed

end
