(* ===== verification/TenantSchemas.thy ===== *)
theory TenantSchemas
  imports Tenancy
begin

text \<open>
  \<open>simulate_multitenancy_separate_schema/main.go\<close>: one schema and one role per tenant. Provisioning,
  routing a request to its tenant's schema, the migration of all schemas, offboarding.
\<close>

section \<open>The database\<close>

record schema =
  owner :: string
  columns :: "string list"          \<comment> \<open>what the migrations added to the tables of the template\<close>
  projects :: "string list"
  versions :: "nat set"             \<comment> \<open>schema_migrations\<close>

record database =
  roles :: "string set"
  grants :: "string set"            \<comment> \<open>roles that \<open>app_user\<close> may switch to\<close>
  schemas :: "string \<rightharpoonup> schema"
  tenants :: "string \<rightharpoonup> string"     \<comment> \<open>slug to schema_name\<close>

definition duplicate :: db_error where "duplicate = Sqlstate ''42710''"
definition missing :: db_error where "missing = Sqlstate ''3F000''"

definition create_role :: "string \<Rightarrow> database \<Rightarrow> (db_error + unit) \<times> database" where
  "create_role n s = (if n \<in> roles s then (Inl duplicate, s) else (Inr (), s\<lparr>roles := insert n (roles s)\<rparr>))"

definition grant_role :: "string \<Rightarrow> database \<Rightarrow> (db_error + unit) \<times> database" where
  "grant_role n s = (if n \<notin> roles s then (Inl missing, s) else (Inr (), s\<lparr>grants := insert n (grants s)\<rparr>))"

definition create_schema :: "string \<Rightarrow> database \<Rightarrow> (db_error + unit) \<times> database" where
  "create_schema n s = (if schemas s n \<noteq> None \<or> n \<notin> roles s then (Inl duplicate, s)
     else (Inr (), s\<lparr>schemas := (schemas s)(n \<mapsto> \<lparr>owner = n, columns = [], projects = [], versions = {}\<rparr>)\<rparr>))"

text \<open>The tables and the row of version 1, created with the search path set to the schema.\<close>

definition create_tables :: "string \<Rightarrow> database \<Rightarrow> (db_error + unit) \<times> database" where
  "create_tables n s = (case schemas s n of
     None \<Rightarrow> (Inl missing, s)
   | Some sc \<Rightarrow> (Inr (), s\<lparr>schemas := (schemas s)(n \<mapsto> sc\<lparr>columns := [''id'', ''name'', ''created_at''], versions := {1}\<rparr>)\<rparr>))"

definition insert_tenant :: "string \<Rightarrow> string \<Rightarrow> database \<Rightarrow> (db_error + unit) \<times> database" where
  "insert_tenant slug n s =
     (if tenants s slug \<noteq> None \<or> n \<in> ran (tenants s) then (Inl (Sqlstate ''23505''), s)
      else (Inr (), s\<lparr>tenants := (tenants s)(slug \<mapsto> n)\<rparr>))"

text \<open>\<open>provision\<close>; \<open>None\<close> is \<open>log.Fatal\<close>.\<close>

definition provision_tx :: "(nat \<Rightarrow> outcome) \<Rightarrow> string \<Rightarrow> database \<Rightarrow> (db_error + unit) \<times> database" where
  "provision_tx env slug =
     (let n = tenant_name slug in
      bind_tx (stmt (env 0) (create_role n)) (\<lambda>_.
      bind_tx (stmt (env 1) (grant_role n)) (\<lambda>_.
      bind_tx (stmt (env 2) (create_schema n)) (\<lambda>_.
      bind_tx (stmt (env 3) (create_tables n)) (\<lambda>_.
      stmt (env 4) (insert_tenant slug n))))))"

definition provision :: "outcome \<Rightarrow> outcome \<Rightarrow> (nat \<Rightarrow> outcome) \<Rightarrow> string \<Rightarrow> database \<Rightarrow> unit option \<times> database" where
  "provision rb rc env slug s =
     (if \<not> valid_slug slug then (None, s)
      else case begin_func rb rc (provision_tx env slug) s of
             (Inl _, s') \<Rightarrow> (None, s')
           | (Inr _, s') \<Rightarrow> (Some (), s'))"

text \<open>\<open>offboard\<close>.\<close>

definition drop_schema :: "string \<Rightarrow> database \<Rightarrow> (db_error + unit) \<times> database" where
  "drop_schema n s = (if schemas s n = None then (Inl missing, s) else (Inr (), s\<lparr>schemas := (schemas s)(n := None)\<rparr>))"

text \<open>A role that still owns a schema cannot be dropped.\<close>

definition drop_role :: "string \<Rightarrow> database \<Rightarrow> (db_error + unit) \<times> database" where
  "drop_role n s =
     (if n \<notin> roles s then (Inl missing, s)
      else if \<exists>m sc. schemas s m = Some sc \<and> owner sc = n then (Inl (Sqlstate ''2BP01''), s)
      else (Inr (), s\<lparr>roles := roles s - {n}, grants := grants s - {n}\<rparr>))"

definition offboard_tx :: "(nat \<Rightarrow> outcome) \<Rightarrow> string \<Rightarrow> database \<Rightarrow> (db_error + unit) \<times> database" where
  "offboard_tx env slug =
     (let n = tenant_name slug in
      bind_tx (stmt (env 0) (drop_schema n)) (\<lambda>_.
      bind_tx (stmt (env 1) (drop_role n)) (\<lambda>_.
      stmt (env 2) (\<lambda>s. (Inr (), s\<lparr>tenants := (tenants s)(slug := None)\<rparr>)))))"

definition offboard :: "outcome \<Rightarrow> outcome \<Rightarrow> (nat \<Rightarrow> outcome) \<Rightarrow> string \<Rightarrow> database \<Rightarrow> unit option \<times> database" where
  "offboard rb rc env slug s =
     (case begin_func rb rc (offboard_tx env slug) s of
        (Inl _, s') \<Rightarrow> (None, s')
      | (Inr _, s') \<Rightarrow> (Some (), s'))"

fun drop_all :: "(nat \<Rightarrow> outcome) \<Rightarrow> string list \<Rightarrow> database \<Rightarrow> unit option \<times> database" where
  "drop_all env [] s = (Some (), s)"
| "drop_all env (slug # slugs) s =
     (case offboard (env 0) (env 1) (\<lambda>i. env (i + 2)) slug s of
        (None, s') \<Rightarrow> (None, s')
      | (Some _, s') \<Rightarrow> drop_all (\<lambda>i. env (i + 5)) slugs s')"

text \<open>\<open>dropAllTenants\<close>: \<open>slugs\<close> is the answer to the query for the rows of \<open>tenants\<close>.\<close>

definition drop_all_tenants :: "db_error + string list \<Rightarrow> (nat \<Rightarrow> outcome) \<Rightarrow> database \<Rightarrow> unit option \<times> database" where
  "drop_all_tenants slugs env s = (case slugs of Inl _ \<Rightarrow> (None, s) | Inr ss \<Rightarrow> drop_all env ss s)"

section \<open>Migration\<close>

text \<open>
  The transaction for one schema: the search path, the check of the version, the DDL (a parameter: it
  changes the schema or fails), the row of the version. The result tells whether it was applied.
\<close>

definition migrate_tx :: "(nat \<Rightarrow> outcome) \<Rightarrow> nat \<Rightarrow> (schema \<Rightarrow> db_error + schema) \<Rightarrow> schema \<Rightarrow> (db_error + bool) \<times> schema" where
  "migrate_tx env v ddl =
     bind_tx (stmt (env 0) (\<lambda>sc. (Inr (), sc))) (\<lambda>_.
     bind_tx (stmt (env 1) (\<lambda>sc. (Inr (v \<in> versions sc), sc))) (\<lambda>has.
     if has then (\<lambda>sc. (Inr False, sc))
     else bind_tx (stmt (env 2) (\<lambda>sc. case ddl sc of Inl e \<Rightarrow> (Inl e, sc) | Inr sc' \<Rightarrow> (Inr (), sc'))) (\<lambda>_.
          stmt (env 3) (\<lambda>sc. if v \<in> versions sc then (Inl (Sqlstate ''23505''), sc)
             else (Inr True, sc\<lparr>versions := insert v (versions sc)\<rparr>)))))"

definition migrate_schema :: "outcome \<Rightarrow> outcome \<Rightarrow> (nat \<Rightarrow> outcome) \<Rightarrow> nat \<Rightarrow> (schema \<Rightarrow> db_error + schema) \<Rightarrow> string
    \<Rightarrow> database \<Rightarrow> (db_error + bool) \<times> database" where
  "migrate_schema rb rc env v ddl n s =
     (case schemas s n of
        None \<Rightarrow> (Inl missing, s)
      | Some sc \<Rightarrow>
          (case begin_func rb rc (migrate_tx env v ddl) sc of
             (r, sc') \<Rightarrow> (r, s\<lparr>schemas := (schemas s)(n \<mapsto> sc')\<rparr>)))"

record txn_env =
  begins :: outcome
  commits :: outcome
  stmts :: "nat \<Rightarrow> outcome"

text \<open>
  \<open>migrate\<close>: \<open>names\<close> is the answer to the query for the schema names in the order of the slugs. \<open>None\<close>
  is fatal: the loop stops at the first tenant that fails.
\<close>

fun migrate_loop :: "(nat \<Rightarrow> txn_env) \<Rightarrow> nat \<Rightarrow> (schema \<Rightarrow> db_error + schema) \<Rightarrow> string list \<Rightarrow> nat \<Rightarrow> database
    \<Rightarrow> nat option \<times> database" where
  "migrate_loop env v ddl [] k s = (Some k, s)"
| "migrate_loop env v ddl (n # ns) k s =
     (case migrate_schema (begins (env 0)) (commits (env 0)) (stmts (env 0)) v ddl n s of
        (Inl _, s') \<Rightarrow> (None, s')
      | (Inr did, s') \<Rightarrow> migrate_loop (env \<circ> Suc) v ddl ns (if did then Suc k else k) s')"

definition migrate :: "db_error + string list \<Rightarrow> (nat \<Rightarrow> txn_env) \<Rightarrow> nat \<Rightarrow> (schema \<Rightarrow> db_error + schema) \<Rightarrow> database
    \<Rightarrow> nat option \<times> database" where
  "migrate names env v ddl s = (case names of Inl _ \<Rightarrow> (None, s) | Inr ns \<Rightarrow> migrate_loop env v ddl ns 0 s)"

section \<open>Requests\<close>

text \<open>What a pooled connection carries: the current role and the search path (\<open>None\<close> is the default).\<close>

record session =
  role :: string
  search_path :: "string option"

definition app_session :: session where
  "app_session = \<lparr>role = ''app_user'', search_path = None\<rparr>"

text \<open>Statements on \<open>projects\<close>, with a schema name or without one.\<close>

datatype request = Count "string option" | Add "string option" string

text \<open>
  A qualified name needs the privileges of the schema's owner; a schema on the search path that the
  role may not use is skipped, so the table is not found.
\<close>

definition resolve :: "session \<Rightarrow> string option \<Rightarrow> database \<Rightarrow> db_error + string" where
  "resolve se q s =
     (case q of
        Some n \<Rightarrow> (case schemas s n of
            None \<Rightarrow> Inl (Sqlstate ''42P01'')
          | Some sc \<Rightarrow> if owner sc = role se then Inr n else Inl (Sqlstate ''42501''))
      | None \<Rightarrow> (case search_path se of
            None \<Rightarrow> Inl (Sqlstate ''42P01'')
          | Some n \<Rightarrow> (case schemas s n of
                None \<Rightarrow> Inl (Sqlstate ''42P01'')
              | Some sc \<Rightarrow> if owner sc = role se then Inr n else Inl (Sqlstate ''42P01''))))"

fun run_request :: "session \<Rightarrow> request \<Rightarrow> database \<Rightarrow> (db_error + nat) \<times> database" where
  "run_request se (Count q) s =
     (case resolve se q s of Inl e \<Rightarrow> (Inl e, s) | Inr n \<Rightarrow> (Inr (length (projects (the (schemas s n)))), s))"
| "run_request se (Add q p) s =
     (case resolve se q s of
        Inl e \<Rightarrow> (Inl e, s)
      | Inr n \<Rightarrow> (Inr 1, s\<lparr>schemas := (schemas s)(n \<mapsto> (the (schemas s n))\<lparr>projects := projects (the (schemas s n)) @ [p]\<rparr>)\<rparr>))"

definition set_local :: "string \<Rightarrow> session" where
  "set_local n = \<lparr>role = n, search_path = Some n\<rparr>"

text \<open>\<open>withTenant\<close>: both settings are local, so the connection returns as it was.\<close>

definition with_tenant :: "outcome \<Rightarrow> outcome \<Rightarrow> outcome \<Rightarrow> outcome \<Rightarrow> string \<Rightarrow> (request, nat, 'a) closure
    \<Rightarrow> session \<times> database \<Rightarrow> (db_error + 'a) \<times> session \<times> database" where
  "with_tenant rl rb rs rc slug fn = (\<lambda>(se, s).
     (case query rl (tenants s slug) of
        Inl e \<Rightarrow> (Inl e, se, s)
      | Inr None \<Rightarrow> (Inl NoRows, se, s)
      | Inr (Some n) \<Rightarrow>
          (case err_of rb of Some e \<Rightarrow> (Inl e, se, s) | None \<Rightarrow>
          (case err_of rs of Some e \<Rightarrow> (Inl e, se, s) | None \<Rightarrow>
           if n \<notin> grants s then (Inl (Sqlstate ''42501''), se, s)
           else case run_closure (run_request (set_local n)) fn (False, s) of
                  (Inl e, _) \<Rightarrow> (Inl e, se, s)
                | (Inr x, ab, s') \<Rightarrow>
                    (if ab then (Inl aborted_error, se, s)
                     else case err_of rc of
                            None \<Rightarrow> (Inr x, se, s')
                          | Some e \<Rightarrow> (Inl e, se, if applied rc then s' else s))))))"

text \<open>\<open>poolLeak\<close>: a session-level SET on the only connection, then a request that sets nothing.\<close>

definition pool_leak :: "session \<times> database \<Rightarrow> string option \<times> (db_error + nat)" where
  "pool_leak = (\<lambda>(se, s).
     (let se' = se\<lparr>search_path := Some (tenant_name ''acme'')\<rparr> in
      (search_path se', fst (run_request se' (Count None) s))))"

section \<open>The catalogue and the schemas agree\<close>

definition present :: "database \<Rightarrow> string \<Rightarrow> bool" where
  "present s slug \<longleftrightarrow> tenants s slug = Some (tenant_name slug) \<and> tenant_name slug \<in> roles s \<and> tenant_name slug \<in> grants s \<and>
     map_option owner (schemas s (tenant_name slug)) = Some (tenant_name slug)"

definition absent :: "database \<Rightarrow> string \<Rightarrow> bool" where
  "absent s slug \<longleftrightarrow> tenants s slug = None \<and> tenant_name slug \<notin> roles s \<and> tenant_name slug \<notin> grants s \<and>
     schemas s (tenant_name slug) = None"

definition catalogue_ok :: "database \<Rightarrow> bool" where
  "catalogue_ok s \<longleftrightarrow> (\<forall>slug. present s slug \<or> absent s slug) \<and> dom (schemas s) \<subseteq> range tenant_name"

lemma ddl_Inr:
  "create_role n s = (Inr u, s') \<longleftrightarrow> n \<notin> roles s \<and> s' = s\<lparr>roles := insert n (roles s)\<rparr>"
  "grant_role n s = (Inr u, s') \<longleftrightarrow> n \<in> roles s \<and> s' = s\<lparr>grants := insert n (grants s)\<rparr>"
  "create_schema n s = (Inr u, s') \<longleftrightarrow> schemas s n = None \<and> n \<in> roles s \<and>
     s' = s\<lparr>schemas := (schemas s)(n \<mapsto> \<lparr>owner = n, columns = [], projects = [], versions = {}\<rparr>)\<rparr>"
  "create_tables n s = (Inr u, s') \<longleftrightarrow> (\<exists>sc. schemas s n = Some sc \<and>
     s' = s\<lparr>schemas := (schemas s)(n \<mapsto> sc\<lparr>columns := [''id'', ''name'', ''created_at''], versions := {1}\<rparr>)\<rparr>)"
  "insert_tenant slug n s = (Inr u, s') \<longleftrightarrow> tenants s slug = None \<and> n \<notin> ran (tenants s) \<and>
     s' = s\<lparr>tenants := (tenants s)(slug \<mapsto> n)\<rparr>"
  "drop_schema n s = (Inr u, s') \<longleftrightarrow> schemas s n \<noteq> None \<and> s' = s\<lparr>schemas := (schemas s)(n := None)\<rparr>"
  "drop_role n s = (Inr u, s') \<longleftrightarrow> n \<in> roles s \<and> (\<forall>m sc. schemas s m = Some sc \<longrightarrow> owner sc \<noteq> n) \<and>
     s' = s\<lparr>roles := roles s - {n}, grants := grants s - {n}\<rparr>"
  by (auto simp: create_role_def grant_role_def create_schema_def create_tables_def insert_tenant_def drop_schema_def
      drop_role_def split: option.split)

lemma provision_tx_Inr:
  assumes "provision_tx env slug s = (Inr u, s')"
  shows "tenants s slug = None \<and> tenant_name slug \<notin> roles s \<and> schemas s (tenant_name slug) = None \<and>
    s' = s\<lparr>roles := insert (tenant_name slug) (roles s), grants := insert (tenant_name slug) (grants s),
      schemas := (schemas s)(tenant_name slug \<mapsto>
        \<lparr>owner = tenant_name slug, columns = [''id'', ''name'', ''created_at''], projects = [], versions = {1}\<rparr>),
      tenants := (tenants s)(slug \<mapsto> tenant_name slug)\<rparr>"
  using assms unfolding provision_tx_def Let_def tx_simps ddl_Inr by clarsimp

lemma provision_tx_keeps:
  assumes "catalogue_ok s" and "provision_tx env slug s = (Inr u, s')"
  shows "catalogue_ok s' \<and> present s' slug"
proof -
  note s' = provision_tx_Inr [OF assms(2)]
  have p: "present s' slug" using s' by (simp add: present_def)
  moreover have "present s' sl = present s sl" "absent s' sl = absent s sl" if "sl \<noteq> slug" for sl
    using s' that by (simp_all add: present_def absent_def)
  moreover have "dom (schemas s') = insert (tenant_name slug) (dom (schemas s))" using s' by simp
  ultimately show ?thesis using assms(1) unfolding catalogue_ok_def by (metis insert_subset rangeI)
qed

lemma offboard_tx_Inr:
  assumes "offboard_tx env slug s = (Inr u, s')"
  shows "tenant_name slug \<in> roles s \<and> schemas s (tenant_name slug) \<noteq> None \<and>
    s' = s\<lparr>roles := roles s - {tenant_name slug}, grants := grants s - {tenant_name slug},
      schemas := (schemas s)(tenant_name slug := None), tenants := (tenants s)(slug := None)\<rparr>"
  using assms unfolding offboard_tx_def Let_def tx_simps ddl_Inr by clarsimp

lemma offboard_tx_keeps:
  assumes "catalogue_ok s" and "offboard_tx env slug s = (Inr u, s')"
  shows "catalogue_ok s' \<and> absent s' slug"
proof -
  note s' = offboard_tx_Inr [OF assms(2)]
  have p: "absent s' slug" using s' by (simp add: absent_def)
  moreover have "present s' sl = present s sl" "absent s' sl = absent s sl" if "sl \<noteq> slug" for sl
    using s' that by (simp_all add: present_def absent_def)
  moreover have "dom (schemas s') \<subseteq> dom (schemas s)" using s' by auto
  ultimately show ?thesis using assms(1) unfolding catalogue_ok_def by (metis subset_trans)
qed

lemma provision_keeps: "catalogue_ok s \<Longrightarrow> catalogue_ok (snd (provision rb rc env slug s))"
  using tx.run_invariant [where P = catalogue_ok and f = "provision_tx env slug" and rb = rb and rc = rc]
  by (auto simp: provision_def provision_tx_keeps split: prod.split sum.split)
    (metis provision_tx_keeps snd_conv)+

lemma offboard_keeps: "catalogue_ok s \<Longrightarrow> catalogue_ok (snd (offboard rb rc env slug s))"
  using tx.run_invariant [where P = catalogue_ok and f = "offboard_tx env slug" and rb = rb and rc = rc]
  by (auto simp: offboard_def split: prod.split sum.split) (metis offboard_tx_keeps snd_conv)+

lemma drop_all_keeps: "catalogue_ok s \<Longrightarrow> catalogue_ok (snd (drop_all env slugs s))"
proof (induction env slugs s rule: drop_all.induct)
  case (2 env slug slugs s)
  then show ?case
    using offboard_keeps [OF "2.prems", of "env 0" "env 1" "\<lambda>i. env (i + 2)" slug] by (auto split: prod.split option.split)
qed simp

section \<open>Migration lemmas\<close>

text \<open>A schema before and after migrations to version \<open>v\<close>: untouched, or changed once.\<close>

definition migrated :: "nat \<Rightarrow> (schema \<Rightarrow> db_error + schema) \<Rightarrow> schema \<Rightarrow> schema \<Rightarrow> bool" where
  "migrated v ddl sc sc' \<longleftrightarrow> v \<notin> versions sc \<and> (\<exists>x. ddl sc = Inr x \<and> sc' = x\<lparr>versions := insert v (versions x)\<rparr>)"

lemma migrate_tx_Inr:
  "migrate_tx env v ddl sc = (Inr did, sc') \<Longrightarrow>
     (if v \<in> versions sc then \<not> did \<and> sc' = sc else did \<and> migrated v ddl sc sc')"
  by (auto simp: migrate_tx_def tx_simps migrated_def split: if_splits sum.splits)

lemma migrate_tx_Done:
  assumes "\<forall>sc x. ddl sc = Inr x \<longrightarrow> versions x = versions sc" and "v \<notin> versions sc" and "ddl sc = Inr x"
  shows "migrate_tx (\<lambda>_. Done) v ddl sc = (Inr True, x\<lparr>versions := insert v (versions x)\<rparr>)"
  using assms by (auto simp: migrate_tx_def bind_tx_def stmt_Done)

text \<open>One schema: every outcome leaves it as it was or migrated, the answer tells which.\<close>

lemma migrate_schema_cases:
  obtains (same) "snd (migrate_schema rb rc env v ddl n s) = s"
    | (changed) sc sc' where "schemas s n = Some sc" "migrated v ddl sc sc'"
      "snd (migrate_schema rb rc env v ddl n s) = s\<lparr>schemas := (schemas s)(n \<mapsto> sc')\<rparr>"
proof (cases "schemas s n")
  case None
  then show ?thesis using same by (simp add: migrate_schema_def)
next
  case (Some sc)
  obtain r sc' where b: "begin_func rb rc (migrate_tx env v ddl) sc = (r, sc')" by (metis prod.collapse)
  have e: "snd (migrate_schema rb rc env v ddl n s) = s\<lparr>schemas := (schemas s)(n \<mapsto> sc')\<rparr>"
    by (simp add: migrate_schema_def Some b)
  from tx.run_state [of rb rc "migrate_tx env v ddl" sc]
  have "sc' = sc \<or> migrated v ddl sc sc'" by (auto simp: b dest: migrate_tx_Inr split: if_splits)
  moreover have "s\<lparr>schemas := (schemas s)(n \<mapsto> sc)\<rparr> = s" using Some by (simp add: fun_upd_idem)
  ultimately show ?thesis using Some e same changed by metis
qed

definition evolved :: "nat \<Rightarrow> (schema \<Rightarrow> db_error + schema) \<Rightarrow> database \<Rightarrow> database \<Rightarrow> bool" where
  "evolved v ddl s s' \<longleftrightarrow> roles s' = roles s \<and> grants s' = grants s \<and> tenants s' = tenants s \<and>
     (\<forall>n. schemas s' n = schemas s n \<or>
        (\<exists>sc sc'. schemas s n = Some sc \<and> schemas s' n = Some sc' \<and> migrated v ddl sc sc'))"

lemma evolved_refl: "evolved v ddl s s"
  by (simp add: evolved_def)

lemma evolved_trans:
  assumes "evolved v ddl s t" "evolved v ddl t u"
  shows "evolved v ddl s u"
  unfolding evolved_def
proof (intro conjI allI)
  fix n
  from assms consider "schemas u n = schemas t n" | sc sc' where "schemas t n = Some sc" "schemas u n = Some sc'" "migrated v ddl sc sc'"
    unfolding evolved_def by metis
  then show "schemas u n = schemas s n \<or> (\<exists>sc sc'. schemas s n = Some sc \<and> schemas u n = Some sc' \<and> migrated v ddl sc sc')"
  proof cases
    case 1
    with assms(1) show ?thesis by (simp add: evolved_def)
  next
    case 2
    have "schemas t n = schemas s n \<or> (\<exists>a b. schemas s n = Some a \<and> schemas t n = Some b \<and> migrated v ddl a b)"
      using assms(1) by (simp add: evolved_def)
    moreover have "v \<notin> versions sc" "\<And>a b. migrated v ddl a b \<Longrightarrow> v \<in> versions b"
      using 2(3) by (auto simp: migrated_def)
    ultimately have "schemas t n = schemas s n" using 2(1) by (metis option.inject)
    with 2 show ?thesis by auto
  qed
qed (use assms in \<open>auto simp: evolved_def\<close>)

lemma evolved_schema: "evolved v ddl s (snd (migrate_schema rb rc env v ddl n s))"
  by (cases rule: migrate_schema_cases [of rb rc env v ddl n s]) (auto simp: evolved_def)

lemma evolved_loop: "evolved v ddl s (snd (migrate_loop env v ddl ns k s))"
proof (induction ns arbitrary: env k s)
  case (Cons n ns)
  show ?case
    using evolved_schema [of v ddl s "begins (env 0)" "commits (env 0)" "stmts (env 0)" n] Cons
    by (auto split: prod.split sum.split intro: evolved_trans)
qed (simp add: evolved_refl)

lemma migrate_schema_Inr:
  assumes "migrate_schema rb rc env v ddl n s = (Inr did, s')"
  shows "\<exists>sc sc'. schemas s n = Some sc \<and> s' = s\<lparr>schemas := (schemas s)(n \<mapsto> sc')\<rparr> \<and> v \<in> versions sc' \<and>
    (did \<longleftrightarrow> v \<notin> versions sc) \<and> (\<not> did \<longrightarrow> sc' = sc)"
proof -
  obtain sc where sc: "schemas s n = Some sc" using assms by (auto simp: migrate_schema_def split: option.splits)
  then obtain sc' where b: "begin_func rb rc (migrate_tx env v ddl) sc = (Inr did, sc')"
    and s': "s' = s\<lparr>schemas := (schemas s)(n \<mapsto> sc')\<rparr>"
    using assms by (auto simp: migrate_schema_def split: prod.splits)
  from migrate_tx_Inr [OF tx.run_ok [OF b]] sc s' show ?thesis
    by (auto simp: migrated_def split: if_splits)
qed

definition behind :: "nat \<Rightarrow> database \<Rightarrow> string \<Rightarrow> bool" where
  "behind v s n = (case schemas s n of None \<Rightarrow> False | Some sc \<Rightarrow> v \<notin> versions sc)"

lemma migrate_loop_Some:
  "distinct ns \<Longrightarrow> migrate_loop env v ddl ns k s = (Some k', s') \<Longrightarrow>
   k' = k + length (filter (behind v s) ns) \<and> (\<forall>n \<in> set ns. schemas s' n \<noteq> None \<and> \<not> behind v s' n) \<and>
   (\<forall>n. n \<notin> set ns \<longrightarrow> schemas s' n = schemas s n)"
proof (induction ns arbitrary: env k s)
  case (Cons n ns)
  from Cons.prems(2) obtain did t where t: "migrate_schema (begins (env 0)) (commits (env 0)) (stmts (env 0)) v ddl n s = (Inr did, t)"
    and loop: "migrate_loop (env \<circ> Suc) v ddl ns (if did then Suc k else k) t = (Some k', s')"
    by (auto split: prod.splits sum.splits)
  from migrate_schema_Inr [OF t] obtain sc sc' where sc: "schemas s n = Some sc" and
    t': "t = s\<lparr>schemas := (schemas s)(n \<mapsto> sc')\<rparr>" and did: "v \<in> versions sc'" "did \<longleftrightarrow> v \<notin> versions sc" by blast
  have n: "n \<notin> set ns" "distinct ns" using Cons.prems(1) by simp_all
  have f: "filter (behind v t) ns = filter (behind v s) ns"
    using n(1) by (intro filter_cong) (auto simp: behind_def t')
  have b: "behind v s n = did" using sc did by (simp add: behind_def)
  have at_n: "schemas s' n = Some sc'" "\<And>m. m \<noteq> n \<Longrightarrow> schemas t m = schemas s m"
    using Cons.IH [OF n(2) loop] n(1) by (simp_all add: t')
  then have "\<not> behind v s' n" using did by (simp add: behind_def)
  with Cons.IH [OF n(2) loop] b f at_n show ?case by auto
qed simp

section \<open>Properties\<close>

definition acme_schema :: schema where
  "acme_schema = \<lparr>owner = tenant_name ''acme'', columns = [''id''], projects = [''p1''], versions = {1}\<rparr>"

definition globex_schema :: schema where
  "globex_schema = \<lparr>owner = tenant_name ''globex'', columns = [''id''], projects = [''g1'', ''g2''], versions = {1, 2}\<rparr>"

definition two_tenants :: database where
  "two_tenants = \<lparr>roles = {tenant_name ''acme'', tenant_name ''globex''}, grants = {tenant_name ''acme'', tenant_name ''globex''},
     schemas = [tenant_name ''acme'' \<mapsto> acme_schema, tenant_name ''globex'' \<mapsto> globex_schema],
     tenants = [''acme'' \<mapsto> tenant_name ''acme'', ''globex'' \<mapsto> tenant_name ''globex'']\<rparr>"

lemma two_tenants_ok: "catalogue_ok two_tenants"
  by (auto simp: catalogue_ok_def present_def absent_def two_tenants_def acme_schema_def globex_schema_def)

datatype control_op =
    Provision outcome outcome "nat \<Rightarrow> outcome" string
  | Offboard outcome outcome "nat \<Rightarrow> outcome" string

fun run_control :: "control_op \<Rightarrow> database \<Rightarrow> database" where
  "run_control (Provision rb rc env slug) s = snd (provision rb rc env slug s)"
| "run_control (Offboard rb rc env slug) s = snd (offboard rb rc env slug s)"

text \<open>However provisioning and offboarding fail or lose their acknowledgement, every slug is either
  completely there (row, role, grant and schema owned by the role) or completely absent.\<close>

theorem tenants_all_or_nothing:
  assumes "catalogue_ok s"
  shows "(present (fold run_control ops s) slug \<or> absent (fold run_control ops s) slug) \<and>
    dom (schemas (fold run_control ops s)) \<subseteq> range tenant_name"
proof -
  have "catalogue_ok (run_control op s)" if "catalogue_ok s" for op s
    using that by (cases op) (simp_all add: provision_keeps offboard_keeps)
  with assms have "catalogue_ok (fold run_control ops s)" by (induction ops arbitrary: s) auto
  then show ?thesis by (simp add: catalogue_ok_def)
qed

theorem tenants_all_or_nothing_witness:
  "present (fold run_control [Provision Done (Lost Transport) (\<lambda>_. Done) ''initech'', Offboard Done Done (\<lambda>_. Done) ''acme''] two_tenants) ''initech'' \<or>
   absent (fold run_control [Provision Done (Lost Transport) (\<lambda>_. Done) ''initech'', Offboard Done Done (\<lambda>_. Done) ''acme''] two_tenants) ''initech''"
  using tenants_all_or_nothing [OF two_tenants_ok] by blast

text \<open>A provisioning that returns has created the tenant with version 1 and left all other schemas alone;
  one that is fatal without an applied commit has left nothing behind.\<close>

theorem provision_result:
  assumes "provision rb rc env slug s = (res, s')"
  shows "(res = Some () \<longrightarrow> valid_slug slug \<and> tenants s slug = None \<and> tenants s' slug = Some (tenant_name slug) \<and>
      map_option versions (schemas s' (tenant_name slug)) = Some {1}) \<and>
    (\<forall>n. n \<noteq> tenant_name slug \<longrightarrow> schemas s' n = schemas s n) \<and>
    (res = None \<and> \<not> applied rc \<longrightarrow> s' = s)"
proof (cases "valid_slug slug")
  case False
  with assms show ?thesis by (auto simp: provision_def)
next
  case True
  show ?thesis
  proof (cases "begin_func rb rc (provision_tx env slug) s")
    case (Pair r t)
    show ?thesis
    proof (cases r)
      case (Inl e)
      with assms True Pair have r: "res = None" "s' = t" by (auto simp: provision_def)
      from Pair Inl tx.run_err [of rb rc "provision_tx env slug" s e t]
      have "t = s \<or> (\<exists>x. provision_tx env slug s = (Inr x, t))" by simp
      moreover have "\<not> applied rc \<Longrightarrow> t = s"
        using Pair Inl by (auto simp: begin_func_def split: option.splits prod.splits sum.splits)
      moreover have "schemas t n = schemas s n" if "provision_tx env slug s = (Inr x, t)" "n \<noteq> tenant_name slug" for x n
        using provision_tx_Inr [OF that(1)] that(2) by simp
      ultimately show ?thesis unfolding r by blast
    next
      case (Inr u)
      with assms True Pair have r: "res = Some ()" "s' = t" by (auto simp: provision_def)
      have "provision_tx env slug s = (Inr u, t)" by (rule tx.run_ok [OF Pair [unfolded Inr]])
      from provision_tx_Inr [OF this] r True show ?thesis by simp
    qed
  qed
qed

theorem provision_result_witness:
  "tenants (snd (provision Done Done (\<lambda>_. Done) ''initech'' two_tenants)) ''initech'' = Some (tenant_name ''initech'')"
proof -
  have v: "valid_slug ''initech''" by (simp add: valid_slug_def is_lower_def)
  have "provision Done Done (\<lambda>_. Done) ''initech'' two_tenants =
      (Some (), snd (provision Done Done (\<lambda>_. Done) ''initech'' two_tenants))"
    by (simp add: provision_def v tx_simps provision_tx_def Let_def bind_tx_def create_role_def grant_role_def create_schema_def
        create_tables_def insert_tenant_def two_tenants_def)
  from provision_result [OF this] show ?thesis by simp
qed

text \<open>Over any number of migration runs that fail or stop anywhere, each schema is either as it was or
  changed by the DDL exactly once, with the version recorded.\<close>

theorem migration_applies_once:
  "schemas (fold (\<lambda>r s. snd (migrate (fst r) (snd r) v ddl s)) runs s) n = schemas s n \<or>
   (\<exists>sc x. schemas s n = Some sc \<and> v \<notin> versions sc \<and> ddl sc = Inr x \<and>
      schemas (fold (\<lambda>r s. snd (migrate (fst r) (snd r) v ddl s)) runs s) n =
        Some (x\<lparr>versions := insert v (versions x)\<rparr>))"
proof -
  have step: "evolved v ddl s (snd (migrate names env v ddl s))" for names env s
    by (simp add: migrate_def evolved_refl evolved_loop split: sum.split)
  have "evolved v ddl s (fold (\<lambda>r s. snd (migrate (fst r) (snd r) v ddl s)) runs s)"
  proof (induction runs arbitrary: s)
    case (Cons run runs)
    with evolved_trans [OF step [of s "fst run" "snd run"]] show ?case by simp
  qed (simp add: evolved_refl)
  then show ?thesis by (simp add: evolved_def migrated_def) blast
qed

definition all_done :: "nat \<Rightarrow> txn_env" where
  "all_done i = \<lparr>begins = Done, commits = Done, stmts = (\<lambda>_. Done)\<rparr>"

lemma up_to_date_schema:
  "schemas s n = Some sc \<Longrightarrow> v \<in> versions sc \<Longrightarrow> migrate_schema Done Done (\<lambda>_. Done) v ddl n s = (Inr False, s)"
  by (simp add: migrate_schema_def tx_simps migrate_tx_def bind_tx_def fun_upd_idem)

lemma up_to_date_loop:
  "\<forall>n \<in> set ns. schemas s n \<noteq> None \<and> \<not> behind v s n \<Longrightarrow> migrate_loop all_done v ddl ns k s = (Some k, s)"
proof (induction ns)
  case (Cons n ns)
  then obtain sc where "schemas s n = Some sc" "v \<in> versions sc" by (auto simp: behind_def)
  with up_to_date_schema [OF this] Cons show ?case by (simp add: all_done_def comp_def)
qed simp

text \<open>A migration that returns has brought every listed schema to the version, the number it returns is that
  of the schemas that were behind, and running it again applies nothing.\<close>

theorem migration_result:
  assumes "distinct ns" and "migrate (Inr ns) env v ddl s = (Some k, s')"
  shows "k = length (filter (behind v s) ns) \<and>
    (\<forall>n \<in> set ns. \<exists>sc. schemas s' n = Some sc \<and> v \<in> versions sc) \<and>
    migrate (Inr ns) all_done v ddl s' = (Some 0, s')"
proof -
  have r: "k = length (filter (behind v s) ns)" "\<forall>n \<in> set ns. schemas s' n \<noteq> None \<and> \<not> behind v s' n"
    using migrate_loop_Some [OF assms(1), of env v ddl 0 s k s'] assms(2) by (simp_all add: migrate_def)
  with up_to_date_loop [OF r(2), of ddl 0] show ?thesis by (fastforce simp: migrate_def behind_def)
qed

definition add_archived :: "schema \<Rightarrow> db_error + schema" where
  "add_archived sc = (if ''archived'' \<in> set (columns sc) then Inl (Sqlstate ''42701'')
     else Inr (sc\<lparr>columns := columns sc @ [''archived'']\<rparr>))"

theorem migration_result_witness:
  "fst (migrate (Inr [tenant_name ''acme'', tenant_name ''globex'']) all_done 2 add_archived two_tenants) = Some 1 \<and>
   fst (migrate (Inr [tenant_name ''acme'', tenant_name ''globex'']) all_done 2 add_archived
     (snd (migrate (Inr [tenant_name ''acme'', tenant_name ''globex'']) all_done 2 add_archived two_tenants))) = Some 0"
proof -
  let ?ns = "[tenant_name ''acme'', tenant_name ''globex'']"
  define s' where "s' = snd (migrate (Inr ?ns) all_done 2 add_archived two_tenants)"
  have "fst (migrate (Inr ?ns) all_done 2 add_archived two_tenants) = Some 1"
    by (simp add: migrate_def migrate_schema_def tx_simps migrate_tx_def bind_tx_def all_done_def two_tenants_def
        acme_schema_def globex_schema_def add_archived_def comp_def)
  then have m: "migrate (Inr ?ns) all_done 2 add_archived two_tenants = (Some 1, s')"
    unfolding s'_def by (metis prod.collapse)
  have "distinct ?ns" by simp
  from migration_result [OF this m] show ?thesis unfolding s'_def [symmetric] m by simp
qed

section \<open>Isolation of requests\<close>

definition agree_on :: "string \<Rightarrow> database \<Rightarrow> database \<Rightarrow> bool" where
  "agree_on me s t \<longleftrightarrow> schemas s me = schemas t me \<and> dom (schemas s) = dom (schemas t) \<and>
     (\<forall>n sc. n \<noteq> me \<longrightarrow> schemas s n = Some sc \<or> schemas t n = Some sc \<longrightarrow> owner sc \<noteq> me)"

lemma resolve_set_local:
  "resolve (set_local me) q s =
     (let n = (case q of None \<Rightarrow> me | Some n \<Rightarrow> n) in
      case schemas s n of
        None \<Rightarrow> Inl (Sqlstate ''42P01'')
      | Some sc \<Rightarrow> if owner sc = me then Inr n else Inl (Sqlstate (if q = None then ''42P01'' else ''42501'')))"
  by (cases q) (simp_all add: resolve_def set_local_def split: option.split)

lemma resolve_own:
  assumes "\<forall>n sc. n \<noteq> me \<longrightarrow> schemas s n = Some sc \<longrightarrow> owner sc \<noteq> me" and "resolve (set_local me) q s = Inr n"
  shows "n = me \<and> schemas s me \<noteq> None"
proof -
  obtain sc where sc: "schemas s n = Some sc" "owner sc = me"
    using assms(2) by (auto simp: resolve_set_local Let_def split: option.splits if_splits)
  have "n = me" using assms(1) sc by (cases "n = me") simp_all
  with sc show ?thesis by simp
qed

lemma resolve_same:
  assumes "agree_on me s t"
  shows "resolve (set_local me) q s = resolve (set_local me) q t"
proof -
  have key: "(case schemas s n of None \<Rightarrow> x | Some sc \<Rightarrow> if owner sc = me then y else z) =
      (case schemas t n of None \<Rightarrow> x | Some sc \<Rightarrow> if owner sc = me then y else z)" for n and x y z :: "db_error + string"
  proof (cases "n = me")
    case False
    have "n \<in> dom (schemas s) \<longleftrightarrow> n \<in> dom (schemas t)" using assms by (simp add: agree_on_def)
    then consider "schemas s n = None" "schemas t n = None" | a b where "schemas s n = Some a" "schemas t n = Some b"
      by blast
    then show ?thesis
    proof cases
      case 2
      with assms False have "owner a \<noteq> me" "owner b \<noteq> me" unfolding agree_on_def by blast+
      with 2 show ?thesis by simp
    qed simp
  qed (use assms in \<open>simp add: agree_on_def\<close>)
  show ?thesis unfolding resolve_set_local Let_def key ..
qed

lemma run_request_same:
  assumes "agree_on me s t"
  shows "fst (run_request (set_local me) q s) = fst (run_request (set_local me) q t) \<and>
    agree_on me (snd (run_request (set_local me) q s)) (snd (run_request (set_local me) q t))"
proof (cases q)
  case (Count p)
  have "schemas s n = schemas t n" if "resolve (set_local me) p t = Inr n" for n
    using resolve_own [OF _ that] assms by (auto simp: agree_on_def)
  with assms show ?thesis by (simp add: Count resolve_same [OF assms] split: sum.split)
next
  case (Add p x)
  show ?thesis
  proof (cases "resolve (set_local me) p t")
    case (Inl e)
    with assms show ?thesis by (simp add: Add resolve_same [OF assms])
  next
    case (Inr n)
    with resolve_own [of me t p n] assms have "n = me" by (auto simp: agree_on_def)
    with assms Inr show ?thesis by (auto simp: Add resolve_same [OF assms] agree_on_def)
  qed
qed

lemma run_request_others:
  assumes "\<forall>n sc. n \<noteq> me \<longrightarrow> schemas s n = Some sc \<longrightarrow> owner sc \<noteq> me" and "run_request (set_local me) q s = (Inr x, s')"
    and "n \<noteq> me"
  shows "schemas s' n = schemas s n"
proof (cases q)
  case (Count p)
  with assms(2) show ?thesis by (auto split: sum.splits)
next
  case (Add p t)
  then obtain m where m: "resolve (set_local me) p s = Inr m" using assms(2) by (auto split: sum.splits)
  then have "m = me" using resolve_own [OF assms(1)] by blast
  with Add m assms(2,3) show ?thesis by auto
qed

lemma catalogue_slug:
  assumes "catalogue_ok s"
  shows "tenants s slug = None \<longleftrightarrow> schemas s (tenant_name slug) = None"
    "schemas s (tenant_name slug) \<noteq> None \<Longrightarrow> present s slug"
proof -
  from assms have "present s slug \<or> absent s slug" by (simp add: catalogue_ok_def)
  then show "tenants s slug = None \<longleftrightarrow> schemas s (tenant_name slug) = None"
    "schemas s (tenant_name slug) \<noteq> None \<Longrightarrow> present s slug"
    by (auto simp: present_def absent_def)
qed

lemma catalogue_owner: "catalogue_ok s \<Longrightarrow> schemas s n = Some sc \<Longrightarrow> owner sc = n"
  by (auto simp: catalogue_ok_def present_def absent_def dom_def image_iff subset_iff) (metis option.distinct(1) option.inject)

lemma with_tenant_present:
  assumes "present s slug"
  shows "with_tenant rl rb rs rc slug fn (se, s) =
    (case err_of rl of Some e \<Rightarrow> (Inl e, se, s) | None \<Rightarrow>
     case err_of rb of Some e \<Rightarrow> (Inl e, se, s) | None \<Rightarrow>
     case err_of rs of Some e \<Rightarrow> (Inl e, se, s) | None \<Rightarrow>
       (case run_closure (run_request (set_local (tenant_name slug))) fn (False, s) of
          (Inl e, _) \<Rightarrow> (Inl e, se, s)
        | (Inr x, ab, s') \<Rightarrow>
            (if ab then (Inl aborted_error, se, s)
             else case err_of rc of None \<Rightarrow> (Inr x, se, s') | Some e \<Rightarrow> (Inl e, se, if applied rc then s' else s))))"
  using assms by (cases rl) (auto simp: with_tenant_def present_def query_def)

lemma with_tenant_unknown:
  "tenants s slug = None \<Longrightarrow> with_tenant rl rb rs rc slug fn (se, s) = (Inl (case err_of rl of None \<Rightarrow> NoRows | Some e \<Rightarrow> e), se, s)"
  by (cases rl) (auto simp: with_tenant_def query_def)

text \<open>A request of a tenant, whatever its closure sends, leaves the schemas of all other tenants and the
  connection as they are, and runs the same on every database that has the same schema for it.\<close>

theorem requests_stay_inside:
  assumes "catalogue_ok s" and "with_tenant rl rb rs rc slug fn (se, s) = (res, se', s')"
  shows "se' = se \<and> (\<forall>n. n \<noteq> tenant_name slug \<longrightarrow> schemas s' n = schemas s n) \<and>
    (\<forall>t. catalogue_ok t \<longrightarrow> dom (schemas t) = dom (schemas s) \<longrightarrow> schemas t (tenant_name slug) = schemas s (tenant_name slug) \<longrightarrow>
       fst (with_tenant rl rb rs rc slug fn (se, t)) = res)"
proof (cases "tenants s slug")
  case None
  with assms(1) have "schemas s (tenant_name slug) = None" by (simp add: catalogue_slug(1))
  moreover have "tenants t slug = None" if "catalogue_ok t" "schemas t (tenant_name slug) = None" for t
    using that by (simp add: catalogue_slug(1))
  ultimately show ?thesis using assms(2) None by (auto simp: with_tenant_unknown)
next
  case (Some m)
  let ?me = "tenant_name slug"
  let ?run = "\<lambda>s. run_closure (run_request (set_local ?me)) fn (False, s)"
  have p: "present s slug" using assms(1) Some by (metis catalogue_slug option.distinct(1))
  have o: "\<forall>n sc. n \<noteq> ?me \<longrightarrow> schemas u n = Some sc \<longrightarrow> owner sc \<noteq> ?me" if "catalogue_ok u" for u
    using catalogue_owner [OF that] by blast
  have w: "\<forall>n. n \<noteq> ?me \<longrightarrow> schemas (snd (snd (?run s))) n = schemas s n"
  proof (rule run_closure_relation [of "\<lambda>s t. \<forall>n. n \<noteq> ?me \<longrightarrow> schemas t n = schemas s n"])
    fix q t x t'
    assume r: "\<forall>n. n \<noteq> ?me \<longrightarrow> schemas t n = schemas s n" and q: "run_request (set_local ?me) q t = (Inr x, t')"
    have "\<forall>n sc. n \<noteq> ?me \<longrightarrow> schemas t n = Some sc \<longrightarrow> owner sc \<noteq> ?me"
      using o [OF assms(1)] r by simp
    from run_request_others [OF this q] r show "\<forall>n. n \<noteq> ?me \<longrightarrow> schemas t' n = schemas s n" by simp
  qed simp
  obtain a b r where rs: "?run s = (a, b, r)" by (metis prod_cases3)
  have "fst (with_tenant rl rb rs rc slug fn (se, t)) = res"
    if t: "catalogue_ok t" "dom (schemas t) = dom (schemas s)" "schemas t ?me = schemas s ?me" for t
  proof -
    have pt: "present t slug" using t p catalogue_slug(2) [OF t(1)] by (auto simp: present_def)
    have "agree_on ?me s t" using t o [OF t(1)] o [OF assms(1)] by (auto simp: agree_on_def)
    from run_closure_same [where R = "agree_on ?me" and sql = "run_request (set_local ?me)" and c = fn and ab = False,
        OF this run_request_same]
    have ab: "fst (?run t) = a" "fst (snd (?run t)) = b" by (simp_all add: rs)
    obtain a' b' r' where r': "?run t = (a', b', r')" by (metis prod_cases3)
    from ab have "?run t = (a, b, r')" unfolding r' by simp
    then show ?thesis using assms(2)
      by (auto simp: with_tenant_present [OF p] with_tenant_present [OF pt] rs split: sum.splits option.splits if_splits)
  qed
  moreover have "se' = se \<and> (\<forall>n. n \<noteq> ?me \<longrightarrow> schemas s' n = schemas s n)"
    using assms(2) w by (auto simp: with_tenant_present [OF p] rs split: sum.splits option.splits if_splits)
  ultimately show ?thesis by blast
qed

theorem requests_stay_inside_witness:
  "schemas (snd (snd (with_tenant Done Done Done Done ''acme'' (Do (Add (Some (tenant_name ''globex'')) ''x'') (\<lambda>_. Return ()))
     (app_session, two_tenants)))) (tenant_name ''globex'') = Some globex_schema"
proof -
  obtain res se s where w: "with_tenant Done Done Done Done ''acme'' (Do (Add (Some (tenant_name ''globex'')) ''x'') (\<lambda>_. Return ()))
      (app_session, two_tenants) = (res, se, s)"
    by (metis prod_cases3)
  from requests_stay_inside [OF two_tenants_ok w] have "schemas s (tenant_name ''globex'') = schemas two_tenants (tenant_name ''globex'')"
    by simp
  also have "\<dots> = Some globex_schema" by (simp add: two_tenants_def)
  finally show ?thesis by (simp only: w snd_conv)
qed

text \<open>The leaked search path of \<open>poolLeak\<close> shows the other tenant, but reads nothing of it.\<close>

lemma pool_leak_reads_nothing:
  assumes "catalogue_ok s" and "\<forall>slug. se_role \<noteq> tenant_name slug"
  shows "pool_leak (\<lparr>role = se_role, search_path = p\<rparr>, s) = (Some (tenant_name ''acme''), Inl (Sqlstate ''42P01''))"
  using assms(2) catalogue_owner [OF assms(1), of "tenant_name ''acme''"]
  by (auto simp: pool_leak_def Let_def resolve_def split: option.split)

end
