(* ===== verification/TenantSchemasMain.thy ===== *)
theory TenantSchemasMain
  imports TenantSchemas "HOL-Library.Char_ord" "HOL-Library.List_Lexorder"
begin

text \<open>
  The whole run of \<open>simulate_multitenancy_separate_schema/main.go\<close> over the operations of \<open>TenantSchemas\<close>. The answers
  of the server, of \<open>pg_dump\<close> and of the catalogue counts are parameters (record \<open>schemas_env\<close>).
\<close>

section \<open>Requests of the program\<close>

text \<open>A call of \<open>withTenant\<close> over the application's pool: the lookup, BEGIN, the settings and COMMIT.\<close>

type_synonym call = "outcome \<times> outcome \<times> outcome \<times> outcome"

definition in_tenant :: "call \<Rightarrow> string \<Rightarrow> (request, nat, 'a) closure \<Rightarrow> database \<Rightarrow> (db_error + 'a) \<times> database" where
  "in_tenant cl slug fn s = (case cl of (rl, rb, rs, rc) \<Rightarrow>
     (case with_tenant rl rb rs rc slug fn (app_session, s) of (x, _, s') \<Rightarrow> (x, s')))"

definition must_tenant :: "call \<Rightarrow> string \<Rightarrow> (request, nat, 'a) closure \<Rightarrow> database \<Rightarrow> 'a option \<times> database" where
  "must_tenant cl slug fn s = (case in_tenant cl slug fn s of (Inl _, s') \<Rightarrow> (None, s') | (Inr x, s') \<Rightarrow> (Some x, s'))"

text \<open>The closures: \<open>r\<close> is the outcome of the statement. INSERT ... SELECT adds its rows in order.\<close>

primrec add_all :: "string list \<Rightarrow> (request, nat, unit) closure" where
  "add_all [] = Return ()"
| "add_all (p # ps) = Do (Add None p) (\<lambda>a. case a of Inl e \<Rightarrow> Fail e | Inr _ \<Rightarrow> add_all ps)"

definition sent :: "outcome \<Rightarrow> (request, nat, 'a) closure \<Rightarrow> (request, nat, 'a) closure" where
  "sent r c = (case err_of r of Some e \<Rightarrow> Fail e | None \<Rightarrow> c)"

definition seed_projects :: "string \<Rightarrow> nat \<Rightarrow> string list" where
  "seed_projects t n = map (\<lambda>g. t @ '' project '' @ dec g) [1..<Suc n]"

definition counting :: "string option \<Rightarrow> (request, nat, nat) closure" where
  "counting q = Do (Count q) (\<lambda>a. case a of Inl e \<Rightarrow> Fail e | Inr n \<Rightarrow> Return n)"

text \<open>The seed, a Go map: its pairs in any order.\<close>

fun seed_all :: "(nat \<Rightarrow> call \<times> outcome) \<Rightarrow> (string \<times> nat) list \<Rightarrow> database \<Rightarrow> unit option \<times> database" where
  "seed_all env [] = give ()"
| "seed_all env ((t, n) # xs) =
     and_then (must_tenant (fst (env 0)) t (sent (snd (env 0)) (add_all (seed_projects t n)))) (\<lambda>_. seed_all (env \<circ> Suc) xs)"

text \<open>Routing: the count and the search path of each tenant, which is its schema.\<close>

fun route_all :: "(nat \<Rightarrow> call \<times> outcome) \<Rightarrow> string list \<Rightarrow> database \<Rightarrow> (string \<times> nat \<times> string option) list option \<times> database" where
  "route_all env [] = give []"
| "route_all env (t # ts) =
     and_then (must_tenant (fst (env 0)) t (sent (snd (env 0)) (counting None))) (\<lambda>n.
     and_then (\<lambda>s. (Some (tenants s t), s)) (\<lambda>path.
     and_then (route_all (env \<circ> Suc) ts) (\<lambda>xs. give ((t, n, path) # xs))))"

text \<open>\<open>poolLeak\<close> on its own pool of one connection: creating it, SET and SHOW are fatal, the count is reported.\<close>

definition leak_demo :: "outcome \<times> outcome \<times> outcome \<times> outcome \<Rightarrow> database \<Rightarrow> (string option \<times> (db_error + nat)) option \<times> database" where
  "leak_demo cl s = (case cl of (rp, rset, rshow, rc) \<Rightarrow>
     (if err_of rp = None \<and> err_of rset = None \<and> err_of rshow = None
      then (case pool_leak (app_session, s) of (path, n) \<Rightarrow> (Some (path, case err_of rc of Some e \<Rightarrow> Inl e | None \<Rightarrow> n), s))
      else (None, s)))"

section \<open>The control plane\<close>

fun provision_all :: "(nat \<Rightarrow> txn_env) \<Rightarrow> string list \<Rightarrow> database \<Rightarrow> unit option \<times> database" where
  "provision_all env [] = give ()"
| "provision_all env (t # ts) =
     and_then (provision (begins (env 0)) (commits (env 0)) (stmts (env 0)) t) (\<lambda>_. provision_all (env \<circ> Suc) ts)"

text \<open>SELECT schema_name FROM tenants ORDER BY slug.\<close>

definition schema_names :: "database \<Rightarrow> string list" where
  "schema_names s = map (\<lambda>t. the (tenants s t)) (sorted_list_of_set (dom (tenants s)))"

definition migrate_all :: "outcome \<times> (nat \<Rightarrow> txn_env) \<Rightarrow> nat \<Rightarrow> (schema \<Rightarrow> db_error + schema) \<Rightarrow> database \<Rightarrow> nat option \<times> database" where
  "migrate_all cl v ddl s = migrate (query (fst cl) (schema_names s)) (snd cl) v ddl s"

definition add_column :: "string \<Rightarrow> schema \<Rightarrow> db_error + schema" where
  "add_column c sc = (if c \<in> set (columns sc) then Inl (Sqlstate ''42701'') else Inr (sc\<lparr>columns := columns sc @ [c]\<rparr>))"

text \<open>\<open>execAdmin\<close> with an ALTER TABLE of one schema: fatal unless it is acknowledged.\<close>

definition exec_admin :: "outcome \<Rightarrow> string \<Rightarrow> (schema \<Rightarrow> db_error + schema) \<Rightarrow> database \<Rightarrow> unit option \<times> database" where
  "exec_admin r n ddl s =
     (case schemas s n of
        None \<Rightarrow> (None, s)
      | Some sc \<Rightarrow> (case ddl sc of
            Inl _ \<Rightarrow> (None, s)
          | Inr sc' \<Rightarrow> must r (\<lambda>s. s\<lparr>schemas := (schemas s)(n \<mapsto> sc')\<rparr>) s))"

definition bulk_slug :: "nat \<Rightarrow> string" where
  "bulk_slug i = ''bulk'' @ [digit (i div 100 mod 10), digit (i div 10 mod 10), digit (i mod 10)]"

text \<open>A read whose answer is a parameter.\<close>

definition must_read :: "outcome \<times> 'a \<Rightarrow> database \<Rightarrow> 'a option \<times> database" where
  "must_read a s = (if err_of (fst a) = None then Some (snd a) else None, s)"

section \<open>The run\<close>

record schemas_env =
  opened :: "outcome list"   \<comment> \<open>New and Ping of the two pools\<close>
  leftover :: "db_error + string list"
  dropping :: "nat \<Rightarrow> outcome"
  provisioning :: "nat \<Rightarrow> txn_env"
  seeds :: "(string \<times> nat) list"
  seeding :: "nat \<Rightarrow> call \<times> outcome"
  routing :: "nat \<Rightarrow> call \<times> outcome"
  stealing :: "call \<times> outcome"
  leaking :: "outcome \<times> outcome \<times> outcome \<times> outcome"
  migrating :: "outcome \<times> (nat \<Rightarrow> txn_env)"
  again :: "outcome \<times> (nat \<Rightarrow> txn_env)"
  customizing :: outcome
  dumping :: "outcome \<times> nat"
  offboarding :: txn_env
  catalog_before :: "outcome \<times> nat \<times> nat"
  bulk :: "nat \<Rightarrow> txn_env"
  catalog_after :: "outcome \<times> nat \<times> nat"
  indexing :: "outcome \<times> (nat \<Rightarrow> txn_env)"

record schemas_report =
  routes :: "(string \<times> nat \<times> string option) list"
  stolen :: "db_error + nat"
  leak :: "string option \<times> (db_error + nat)"
  applied_to :: nat
  applied_again :: nat
  dump_bytes :: nat
  growth :: "(nat \<times> nat) \<times> nat \<times> nat"
  indexed :: nat

definition steal :: "call \<times> outcome \<Rightarrow> database \<Rightarrow> (db_error + nat) option \<times> database" where
  "steal cl s = (case in_tenant (fst cl) ''acme'' (sent (snd cl) (counting (Some (tenant_name ''globex'')))) s of (x, s') \<Rightarrow> (Some x, s'))"

definition schemas_main :: "schemas_env \<Rightarrow> database \<Rightarrow> schemas_report option \<times> database" where
  "schemas_main e =
     and_then (\<lambda>s. (if \<forall>r \<in> set (opened e). r = Done then Some () else None, s)) (\<lambda>_.
     and_then (drop_all_tenants (leftover e) (dropping e)) (\<lambda>_.
     and_then (provision_all (provisioning e) [''acme'', ''globex'', ''initech'']) (\<lambda>_.
     and_then (seed_all (seeding e) (seeds e)) (\<lambda>_.
     and_then (route_all (routing e) [''acme'', ''globex'', ''initech'']) (\<lambda>r.
     and_then (steal (stealing e)) (\<lambda>st.
     and_then (leak_demo (leaking e)) (\<lambda>l.
     and_then (migrate_all (migrating e) 2 (add_column ''archived'')) (\<lambda>n.
     and_then (migrate_all (again e) 2 (add_column ''archived'')) (\<lambda>n'.
     and_then (exec_admin (customizing e) (tenant_name ''acme'') (add_column ''sap_cost_center'')) (\<lambda>_.
     and_then (must_read (dumping e)) (\<lambda>d.
     and_then (offboard (begins (offboarding e)) (commits (offboarding e)) (stmts (offboarding e)) ''initech'') (\<lambda>_.
     and_then (must_read (catalog_before e)) (\<lambda>b.
     and_then (provision_all (bulk e) (map bulk_slug [0..<300])) (\<lambda>_.
     and_then (must_read (catalog_after e)) (\<lambda>a.
     and_then (migrate_all (indexing e) 3 Inr) (\<lambda>m.
     give \<lparr>routes = r, stolen = st, leak = l, applied_to = n, applied_again = n', dump_bytes = d, growth = (b, a), indexed = m\<rparr>))))))))))))))))"


section \<open>What the run does to the tenants\<close>

text \<open>
  The tenants as they are promised: for each slug the number of its projects, the columns of its table and the versions
  applied. The operations of the program refine the operations on this map, as far as they return.
\<close>

type_synonym tenancy = "string \<rightharpoonup> nat \<times> string list \<times> nat set"

definition tenancy :: "database \<Rightarrow> tenancy" where
  "tenancy s = (\<lambda>slug. map_option (\<lambda>sc. (length (projects sc), columns sc, versions sc)) (schemas s (tenant_name slug)))"

definition shows_tenants :: "tenancy \<Rightarrow> database \<Rightarrow> bool" where
  "shows_tenants A s \<longleftrightarrow> catalogue_ok s \<and> finite (dom (tenants s)) \<and> tenancy s = A"

definition new_tenant :: "nat \<times> string list \<times> nat set" where
  "new_tenant = (0, [''id'', ''name'', ''created_at''], {1})"

lemma tenancy_dom: "catalogue_ok s \<Longrightarrow> dom (tenancy s) = dom (tenants s)"
  by (auto simp: tenancy_def dom_def catalogue_slug(1))

lemma tenants_named: "catalogue_ok s \<Longrightarrow> tenants s slug = Some n \<longleftrightarrow> n = tenant_name slug \<and> schemas s n \<noteq> None"
  using catalogue_slug [of s slug] by (auto simp: present_def)

lemma provision_refines:
  "yields (shows_tenants A) (provision rb rc env slug) (\<lambda>_. shows_tenants (A(slug \<mapsto> new_tenant)))"
proof (rule yieldsI)
  fix s x s'
  assume s: "shows_tenants A s" and p: "provision rb rc env slug s = (Some x, s')"
  then obtain u where b: "begin_func rb rc (provision_tx env slug) s = (Inr u, s')"
    by (auto simp: provision_def split: if_splits prod.splits sum.splits)
  note t = tx.run_ok [OF b]
  have "catalogue_ok s'" using provision_tx_keeps [OF _ t] s by (simp add: shows_tenants_def)
  with s provision_tx_Inr [OF t] show "shows_tenants (A(slug \<mapsto> new_tenant)) s'"
    by (auto simp: shows_tenants_def tenancy_def fun_eq_iff new_tenant_def)
qed

lemma offboard_refines:
  "yields (shows_tenants A) (offboard rb rc env slug) (\<lambda>_. shows_tenants (A(slug := None)))"
proof (rule yieldsI)
  fix s x s'
  assume s: "shows_tenants A s" and p: "offboard rb rc env slug s = (Some x, s')"
  then obtain u where b: "begin_func rb rc (offboard_tx env slug) s = (Inr u, s')"
    by (auto simp: offboard_def split: prod.splits sum.splits)
  note t = tx.run_ok [OF b]
  have "catalogue_ok s'" using offboard_tx_keeps [OF _ t] s by (simp add: shows_tenants_def)
  with s offboard_tx_Inr [OF t] show "shows_tenants (A(slug := None)) s'"
    by (auto simp: shows_tenants_def tenancy_def fun_eq_iff)
qed

lemma drop_all_refines:
  "yields (shows_tenants A) (drop_all env slugs) (\<lambda>_. shows_tenants (A |` (- set slugs)))"
proof (induction slugs arbitrary: env A)
  case (Cons slug slugs)
  show ?case
  proof (rule yieldsI)
    fix s x s'
    assume s: "shows_tenants A s" and d: "drop_all env (slug # slugs) s = (Some x, s')"
    then obtain u t where o: "offboard (env 0) (env 1) (\<lambda>i. env (i + 2)) slug s = (Some u, t)" "drop_all (\<lambda>i. env (i + 5)) slugs t = (Some x, s')"
      by (auto split: prod.splits option.splits)
    from yieldsD [OF Cons.IH yieldsD [OF offboard_refines s o(1)] o(2)]
    have "shows_tenants (A(slug := None) |` (- set slugs)) s'" .
    moreover have "A(slug := None) |` (- set slugs) = A |` (- set (slug # slugs))" by (auto simp: restrict_map_def fun_eq_iff)
    ultimately show "shows_tenants (A |` (- set (slug # slugs))) s'" by simp
  qed
qed (simp add: yields_def restrict_map_def)

lemma provision_all_refines:
  "yields (shows_tenants A) (provision_all env slugs) (\<lambda>_. shows_tenants (\<lambda>t. if t \<in> set slugs then Some new_tenant else A t))"
proof (induction slugs arbitrary: env A)
  case (Cons slug slugs)
  show ?case unfolding provision_all.simps
  proof (rule yields_and_then [OF provision_refines])
    have "(\<lambda>t. if t \<in> set slugs then Some new_tenant else (A(slug \<mapsto> new_tenant)) t) = (\<lambda>t. if t \<in> set (slug # slugs) then Some new_tenant else A t)"
      by auto
    with Cons.IH [of "A(slug \<mapsto> new_tenant)" "env \<circ> Suc"]
    show "yields (shows_tenants (A(slug \<mapsto> new_tenant))) (provision_all (env \<circ> Suc) slugs)
        (\<lambda>_. shows_tenants (\<lambda>t. if t \<in> set (slug # slugs) then Some new_tenant else A t))" by (simp only:)
  qed
qed (simp add: yields_give)


lemma catalogue_cong:
  assumes "roles s' = roles s" and "grants s' = grants s" and "tenants s' = tenants s"
    and "\<And>n. map_option owner (schemas s' n) = map_option owner (schemas s n)"
  shows "catalogue_ok s' \<longleftrightarrow> catalogue_ok s"
proof -
  have n: "schemas s' n = None \<longleftrightarrow> schemas s n = None" for n using assms(4) [of n] by (metis map_option_is_None)
  then have "present s' sl = present s sl" "absent s' sl = absent s sl" for sl
    using assms by (simp_all add: present_def absent_def)
  moreover have "dom (schemas s') = dom (schemas s)" using n by (auto simp: dom_def)
  ultimately show ?thesis by (simp add: catalogue_ok_def)
qed

text \<open>Requests.\<close>

lemma add_all_run:
  assumes "schemas s me = Some sc" and "owner sc = me"
  shows "run_closure (run_request (set_local me)) (add_all ps) (False, s) =
    (Inr (), False, s\<lparr>schemas := (schemas s)(me \<mapsto> sc\<lparr>projects := projects sc @ ps\<rparr>)\<rparr>)"
  using assms
proof (induction ps arbitrary: s sc)
  case (Cons p ps)
  let ?s = "s\<lparr>schemas := (schemas s)(me \<mapsto> sc\<lparr>projects := projects sc @ [p]\<rparr>)\<rparr>"
  have "run_request (set_local me) (Add None p) s = (Inr 1, ?s)"
    using Cons.prems by (simp add: resolve_set_local)
  with Cons.IH [of ?s "sc\<lparr>projects := projects sc @ [p]\<rparr>"] Cons.prems show ?case by (simp add: in_block_def fun_upd_same del: fun_upd_apply run_request.simps)
qed (simp add: fun_upd_idem)

lemma in_tenant_run:
  assumes "catalogue_ok s" and "in_tenant cl slug fn s = (Inr x, s')"
  obtains sc where "schemas s (tenant_name slug) = Some sc" "owner sc = tenant_name slug"
    "run_closure (run_request (set_local (tenant_name slug))) fn (False, s) = (Inr x, False, s')"
proof -
  obtain rl rb rs rc where cl: "cl = (rl, rb, rs, rc)" by (metis prod_cases4)
  obtain se where w: "with_tenant rl rb rs rc slug fn (app_session, s) = (Inr x, se, s')"
    using assms(2) by (auto simp: in_tenant_def cl split: prod.splits)
  have "tenants s slug \<noteq> None" using w by (cases "tenants s slug") (simp_all add: with_tenant_unknown)
  then have p: "present s slug" using catalogue_slug [OF assms(1)] by simp
  then obtain sc where sc: "schemas s (tenant_name slug) = Some sc" "owner sc = tenant_name slug" by (auto simp: present_def)
  obtain y ab t where r: "run_closure (run_request (set_local (tenant_name slug))) fn (False, s) = (y, ab, t)" by (metis prod_cases3)
  have "y = Inr x \<and> \<not> ab \<and> t = s'"
    using w unfolding with_tenant_present [OF p] r by (auto split: option.splits sum.splits if_splits)
  with r sc that show thesis by simp
qed

lemma must_tenant_Some: "must_tenant cl slug fn s = (Some x, s') \<longleftrightarrow> in_tenant cl slug fn s = (Inr x, s')"
  by (auto simp: must_tenant_def split: prod.splits sum.splits)

lemma sent_run: "run_closure f (sent r c) st = (Inr x, ab, s') \<longleftrightarrow> r = Done \<and> run_closure f c st = (Inr x, ab, s')"
  by (cases r) (simp_all add: sent_def)

lemma seed_refines:
  "yields (shows_tenants A) (must_tenant cl t (sent r (add_all ps)))
     (\<lambda>_ s. \<exists>n c v. A t = Some (n, c, v) \<and> shows_tenants (A(t \<mapsto> (n + length ps, c, v))) s)"
proof (rule yieldsI)
  fix s x s'
  assume s: "shows_tenants A s" and "must_tenant cl t (sent r (add_all ps)) s = (Some x, s')"
  then have i: "in_tenant cl t (sent r (add_all ps)) s = (Inr x, s')" by (simp add: must_tenant_Some)
  have ok: "catalogue_ok s" using s by (simp add: shows_tenants_def)
  obtain sc where sc: "schemas s (tenant_name t) = Some sc" "owner sc = tenant_name t"
    and run: "run_closure (run_request (set_local (tenant_name t))) (sent r (add_all ps)) (False, s) = (Inr x, False, s')"
    by (rule in_tenant_run [OF ok i]) simp
  from run add_all_run [OF sc] have s': "s' = s\<lparr>schemas := (schemas s)(tenant_name t \<mapsto> sc\<lparr>projects := projects sc @ ps\<rparr>)\<rparr>"
    by (simp add: sent_run)
  have "catalogue_ok s'" using catalogue_cong [of s s'] ok sc by (simp add: s')
  moreover have "A t = Some (length (projects sc), columns sc, versions sc)" using s sc by (auto simp: shows_tenants_def tenancy_def)
  ultimately show "\<exists>n c v. A t = Some (n, c, v) \<and> shows_tenants (A(t \<mapsto> (n + length ps, c, v))) s'"
    using s by (auto simp: shows_tenants_def s' tenancy_def fun_eq_iff)
qed

lemma count_run:
  assumes "catalogue_ok s" and "schemas s me = Some sc" and "owner sc = me"
  shows "run_closure (run_request (set_local me)) (counting None) (False, s) = (Inr (length (projects sc)), False, s)"
  using assms by (simp add: counting_def in_block_def resolve_set_local)

lemma route_refines:
  "yields (shows_tenants A) (must_tenant cl t (sent r (counting None))) (\<lambda>k s. shows_tenants A s \<and> (\<exists>c v. A t = Some (k, c, v)))"
proof (rule yieldsI)
  fix s k s'
  assume s: "shows_tenants A s" and "must_tenant cl t (sent r (counting None)) s = (Some k, s')"
  then have i: "in_tenant cl t (sent r (counting None)) s = (Inr k, s')" by (simp add: must_tenant_Some)
  have ok: "catalogue_ok s" using s by (simp add: shows_tenants_def)
  obtain sc where sc: "schemas s (tenant_name t) = Some sc" "owner sc = tenant_name t"
    and run: "run_closure (run_request (set_local (tenant_name t))) (sent r (counting None)) (False, s) = (Inr k, False, s')"
    by (rule in_tenant_run [OF ok i]) simp
  from run count_run [OF ok sc] have "k = length (projects sc)" "s' = s" by (auto simp: sent_run)
  with s sc show "shows_tenants A s' \<and> (\<exists>c v. A t = Some (k, c, v))" by (auto simp: shows_tenants_def tenancy_def)
qed

text \<open>Acme's count of globex's table by its full name: an error, whatever it is.\<close>

lemma steal_refines: "yields (shows_tenants A) (steal cl) (\<lambda>x s. shows_tenants A s \<and> (\<forall>n. x \<noteq> Inr n))"
proof (rule yieldsI)
  fix s x s'
  assume s: "shows_tenants A s" and st: "steal cl s = (Some x, s')"
  let ?fn = "sent (snd cl) (counting (Some (tenant_name ''globex'')))"
  have ok: "catalogue_ok s" using s by (simp add: shows_tenants_def)
  obtain rl rb rs rc where cl: "fst cl = (rl, rb, rs, rc)" by (metis prod_cases4)
  have r: "fst (run_closure (run_request (set_local (tenant_name ''acme''))) ?fn (False, s)) \<noteq> Inr n" for n
  proof (cases "schemas s (tenant_name ''globex'')")
    case (Some sc)
    from catalogue_owner [OF ok this] Some show ?thesis
      by (cases "snd cl") (simp_all add: sent_def counting_def in_block_def resolve_set_local)
  qed (cases "snd cl"; simp add: sent_def counting_def in_block_def resolve_set_local)
  have "s' = s \<and> (\<forall>n. x \<noteq> Inr n)"
  proof (cases "tenants s ''acme''")
    case None
    with st show ?thesis by (auto simp: steal_def in_tenant_def cl with_tenant_unknown)
  next
    case (Some m)
    then have p: "present s ''acme''" using catalogue_slug [OF ok, of "''acme''"] by auto
    obtain y ab t where run: "run_closure (run_request (set_local (tenant_name ''acme''))) ?fn (False, s) = (y, ab, t)" by (metis prod_cases3)
    then obtain e where "y = Inl e" using r by (cases y) fastforce+
    with st run show ?thesis by (auto simp: steal_def in_tenant_def cl with_tenant_present [OF p] split: option.splits)
  qed
  with s show "shows_tenants A s' \<and> (\<forall>n. x \<noteq> Inr n)" by simp
qed


definition more_projects :: "(string \<times> nat) list \<Rightarrow> string \<Rightarrow> nat" where
  "more_projects xs t = sum_list (map snd (filter (\<lambda>x. fst x = t) xs))"

lemma seed_all_refines:
  "yields (shows_tenants A) (seed_all env xs)
     (\<lambda>_. shows_tenants (\<lambda>t. map_option (\<lambda>(n, c, v). (n + more_projects xs t, c, v)) (A t)))"
proof (induction xs arbitrary: env A)
  case Nil
  have "(\<lambda>t. map_option (\<lambda>(n, c, v). (n + more_projects [] t, c, v)) (A t)) = A"
    by (simp add: more_projects_def case_prod_beta option.map_id fun_eq_iff)
  then show ?case by (simp add: yields_give)
next
  case (Cons x xs)
  obtain t n where x: "x = (t, n)" by fastforce
  show ?case unfolding x seed_all.simps
  proof (rule yields_and_then [OF seed_refines], rule yieldsI, elim exE conjE)
    fix y s z s' k c v
    assume A: "A t = Some (k, c, v)" and s: "shows_tenants (A(t \<mapsto> (k + length (seed_projects t n), c, v))) s"
      and r: "seed_all (env \<circ> Suc) xs s = (Some z, s')"
    have "(\<lambda>u. map_option (\<lambda>(n, c, v). (n + more_projects xs u, c, v)) ((A(t \<mapsto> (k + length (seed_projects t n), c, v))) u)) =
        (\<lambda>u. map_option (\<lambda>(m, c, v). (m + more_projects ((t, n) # xs) u, c, v)) (A u))"
      using A by (auto simp: fun_eq_iff more_projects_def seed_projects_def simp del: upt_Suc)
    with yieldsD [OF Cons.IH s r]
    show "shows_tenants (\<lambda>u. map_option (\<lambda>(m, c, v). (m + more_projects ((t, n) # xs) u, c, v)) (A u)) s'" by simp
  qed
qed

lemma route_all_refines:
  "yields (shows_tenants A) (route_all env ts)
     (\<lambda>xs s. shows_tenants A s \<and> xs = map (\<lambda>t. (t, fst (the (A t)), Some (tenant_name t))) ts)"
proof (induction ts arbitrary: env)
  case (Cons t ts)
  show ?case unfolding route_all.simps
  proof (rule yields_and_then [OF route_refines], rule yieldsI, elim conjE exE)
    fix k s y s' c v
    assume s: "shows_tenants A s" and A: "A t = Some (k, c, v)"
      and r: "and_then (\<lambda>s. (Some (tenants s t), s)) (\<lambda>path. and_then (route_all (env \<circ> Suc) ts) (\<lambda>xs. give ((t, k, path) # xs))) s = (Some y, s')"
    from s A have "tenants s t = Some (tenant_name t)"
      by (auto simp: shows_tenants_def tenancy_def tenants_named)
    with r obtain xs where xs: "route_all (env \<circ> Suc) ts s = (Some xs, s')" "y = (t, k, Some (tenant_name t)) # xs"
      by (auto simp: and_then_Some give_def)
    from yieldsD [OF Cons.IH s xs(1)] xs(2) A
    show "shows_tenants A s' \<and> y = map (\<lambda>t. (t, fst (the (A t)), Some (tenant_name t))) (t # ts)" by simp
  qed
qed (simp add: yields_give)

lemma leak_refines:
  "yields (shows_tenants A) (leak_demo cl) (\<lambda>x s. shows_tenants A s \<and> fst x = Some (tenant_name ''acme'') \<and> (\<forall>n. snd x \<noteq> Inr n))"
proof (rule yieldsI)
  fix s x s'
  assume s: "shows_tenants A s" and l: "leak_demo cl s = (Some x, s')"
  have "''app_user'' \<noteq> tenant_name slug" for slug by (simp add: tenant_name_def)
  then have pl: "pool_leak (app_session, s) = (Some (tenant_name ''acme''), Inl (Sqlstate ''42P01''))"
    unfolding app_session_def using s by (intro pool_leak_reads_nothing) (simp_all add: shows_tenants_def)
  with s l show "shows_tenants A s' \<and> fst x = Some (tenant_name ''acme'') \<and> (\<forall>n. snd x \<noteq> Inr n)"
    by (auto simp: leak_demo_def pl split: prod.splits option.splits if_splits)
qed

text \<open>A migration adds its columns to the tenants that are behind.\<close>

definition bump :: "nat \<Rightarrow> string list \<Rightarrow> tenancy \<Rightarrow> tenancy" where
  "bump v cs A = (\<lambda>t. map_option (\<lambda>(n, c, vs). if v \<in> vs then (n, c, vs) else (n, c @ cs, insert v vs)) (A t))"

lemma filter_length_card: "distinct xs \<Longrightarrow> length (filter P xs) = card {x \<in> set xs. P x}"
  using distinct_card [of "filter P xs"] by simp

lemma names_of:
  assumes "catalogue_ok s" and "finite (dom (tenants s))"
  shows "set (schema_names s) = dom (schemas s)" "distinct (schema_names s)"
proof -
  have n: "schema_names s = map tenant_name (sorted_list_of_set (dom (tenants s)))"
    unfolding schema_names_def
  proof (rule map_cong, simp_all only: set_sorted_list_of_set [OF assms(2)])
    fix t assume "t \<in> dom (tenants s)"
    then obtain n where "tenants s t = Some n" by auto
    with tenants_named [OF assms(1), of t n] show "the (tenants s t) = tenant_name t" by simp
  qed
  then show "distinct (schema_names s)" by (simp add: distinct_map inj_on_def)
  have "dom (schemas s) = tenant_name ` dom (tenants s)"
    using assms(1) by (auto simp: tenants_named dom_def image_iff catalogue_ok_def subset_iff)
  with n assms(2) show "set (schema_names s) = dom (schemas s)" by simp
qed

lemma migrate_refines:
  assumes "\<And>sc x. ddl sc = Inr x \<Longrightarrow> owner x = owner sc \<and> projects x = projects sc \<and> columns x = columns sc @ cs \<and> versions x = versions sc"
  shows "yields (shows_tenants A) (migrate_all cl v ddl)
    (\<lambda>k s. shows_tenants (bump v cs A) s \<and> k = card {t \<in> dom A. v \<notin> snd (snd (the (A t)))})"
proof (rule yieldsI)
  fix s k s'
  assume s: "shows_tenants A s" and m: "migrate_all cl v ddl s = (Some k, s')"
  have ok: "catalogue_ok s" "finite (dom (tenants s))" "tenancy s = A" using s by (simp_all add: shows_tenants_def)
  from m have l: "migrate_loop (snd cl) v ddl (schema_names s) 0 s = (Some k, s')"
    by (cases "fst cl") (simp_all add: migrate_all_def migrate_def query_def)
  note r = migrate_loop_Some [OF names_of(2) [OF ok(1,2)] l, unfolded names_of(1) [OF ok(1,2)]]
  have e: "evolved v ddl s s'" using evolved_loop [of v ddl s "snd cl" "schema_names s" 0] by (simp add: l)
  have step: "schemas s' n = schemas s n \<and> (\<forall>sc. schemas s n = Some sc \<longrightarrow> v \<in> versions sc) \<or>
      (\<exists>sc x. schemas s n = Some sc \<and> v \<notin> versions sc \<and> ddl sc = Inr x \<and> schemas s' n = Some (x\<lparr>versions := insert v (versions x)\<rparr>))" for n
  proof (cases "schemas s n")
    case None
    with r show ?thesis by (simp add: domIff)
  next
    case (Some sc)
    then have u: "schemas s' n \<noteq> None" "\<not> behind v s' n" using r by auto
    show ?thesis
    proof (cases "v \<in> versions sc")
      case True
      have "schemas s' n = schemas s n \<or> (\<exists>sc sc'. schemas s n = Some sc \<and> schemas s' n = Some sc' \<and> migrated v ddl sc sc')"
        using e by (simp add: evolved_def)
      with True Some show ?thesis by (auto simp: migrated_def)
    next
      case False
      with u Some have "schemas s' n \<noteq> schemas s n" by (auto simp: behind_def)
      with e Some obtain sc' where "schemas s' n = Some sc'" "migrated v ddl sc sc'" unfolding evolved_def by (metis option.inject)
      with False Some show ?thesis by (auto simp: migrated_def)
    qed
  qed
  have te: "tenants s' = tenants s" using e by (simp add: evolved_def)
  have own: "map_option owner (schemas s' n) = map_option owner (schemas s n)" for n
    using step [of n] assms by auto
  have t: "tenancy s' sl = bump v cs A sl" for sl
    unfolding ok(3) [symmetric] bump_def tenancy_def using step [of "tenant_name sl"] assms by (cases "schemas s (tenant_name sl)") auto
  have b: "behind v s (tenant_name t) \<longleftrightarrow> t \<in> dom A \<and> v \<notin> snd (snd (the (A t)))" for t
    by (auto simp: ok(3) [symmetric] tenancy_def behind_def split: option.splits)
  have "{n \<in> dom (schemas s). behind v s n} = tenant_name ` {t. behind v s (tenant_name t)}"
    using ok(1) by (auto simp: catalogue_ok_def subset_iff image_iff) (auto simp: behind_def split: option.splits)
  then have "{n \<in> dom (schemas s). behind v s n} = tenant_name ` {t \<in> dom A. v \<notin> snd (snd (the (A t)))}" by (simp add: b)
  moreover have "k = card {n \<in> dom (schemas s). behind v s n}"
    using r filter_length_card [OF names_of(2) [OF ok(1,2)], of "behind v s"] by (simp add: names_of(1) [OF ok(1,2)])
  ultimately have "k = card {t \<in> dom A. v \<notin> snd (snd (the (A t)))}" by (simp add: card_image inj_on_def)
  moreover have "catalogue_ok s'" using catalogue_cong [of s s'] e own ok(1) by (simp add: evolved_def)
  ultimately show "shows_tenants (bump v cs A) s' \<and> k = card {t \<in> dom A. v \<notin> snd (snd (the (A t)))}"
    using t te ok(2) unfolding shows_tenants_def by (simp only: te) (simp add: fun_eq_iff)
qed

text \<open>One column of one tenant.\<close>

definition custom :: "string \<Rightarrow> string \<Rightarrow> tenancy \<Rightarrow> tenancy" where
  "custom c t A = A(t := map_option (\<lambda>(n, cs, vs). (n, cs @ [c], vs)) (A t))"

lemma exec_admin_refines:
  "yields (shows_tenants A) (exec_admin r (tenant_name t) (add_column c)) (\<lambda>_. shows_tenants (custom c t A))"
proof (rule yieldsI)
  fix s x s'
  assume s: "shows_tenants A s" and "exec_admin r (tenant_name t) (add_column c) s = (Some x, s')"
  then obtain sc where sc: "schemas s (tenant_name t) = Some sc"
    "s' = s\<lparr>schemas := (schemas s)(tenant_name t \<mapsto> sc\<lparr>columns := columns sc @ [c]\<rparr>)\<rparr>"
    by (auto simp: exec_admin_def add_column_def must_Some split: option.splits sum.splits if_splits)
  have "catalogue_ok s'" using catalogue_cong [of s s'] s sc by (simp add: shows_tenants_def)
  moreover have "tenancy s' = custom c t (tenancy s)" using sc by (auto simp: custom_def tenancy_def fun_eq_iff)
  ultimately show "shows_tenants (custom c t A) s'" using s sc(2) by (simp add: shows_tenants_def)
qed


section \<open>The whole run\<close>

definition after_run :: tenancy where
  "after_run = (\<lambda>t. if t = ''acme'' then Some (5, [''id'', ''name'', ''created_at'', ''archived'', ''sap_cost_center''], {1, 2, 3})
     else if t = ''globex'' then Some (3, [''id'', ''name'', ''created_at'', ''archived''], {1, 2, 3})
     else if t \<in> bulk_slug ` {..<300} then Some (0, [''id'', ''name'', ''created_at''], {1, 3}) else None)"

lemma bulk_not_named: "bulk_slug i \<noteq> ''acme''" "bulk_slug i \<noteq> ''globex''" "bulk_slug i \<noteq> ''initech''"
  by (simp_all add: bulk_slug_def)

lemma digit_inject: "m < 10 \<Longrightarrow> n < 10 \<Longrightarrow> digit m = digit n \<longleftrightarrow> m = n"
  by (metis add_left_cancel of_char_digit)

lemma three_digits:
  assumes "(i :: nat) < 1000"
  shows "i = 100 * (i div 100 mod 10) + 10 * (i div 10 mod 10) + i mod 10"
proof -
  have "i div 10 div 10 = i div 100" by (simp flip: div_mult2_eq)
  moreover have "i div 100 < 10" using assms by simp
  ultimately have "i div 100 mod 10 = i div 10 div 10" by simp
  moreover have "i = i div 10 * 10 + i mod 10" "i div 10 = i div 10 div 10 * 10 + i div 10 mod 10" by (simp_all only: div_mult_mod_eq)
  ultimately show ?thesis by linarith
qed

lemma bulk_slug_inj: "inj_on bulk_slug {..<300}"
proof (rule inj_onI)
  fix i j :: nat
  assume a: "i \<in> {..<300}" "j \<in> {..<300}" "bulk_slug i = bulk_slug j"
  then have "i div 100 mod 10 = j div 100 mod 10" "i div 10 mod 10 = j div 10 mod 10" "i mod 10 = j mod 10"
    by (simp_all add: bulk_slug_def digit_inject)
  with three_digits [of i] three_digits [of j] a(1,2) show "i = j" by simp
qed

lemma after_run_dom: "dom after_run = insert ''acme'' (insert ''globex'' (bulk_slug ` {..<300}))"
  by (auto simp: after_run_def split: if_splits)

lemma after_run_card: "card (dom after_run) = 302"
proof -
  have "''acme'' \<notin> insert ''globex'' (bulk_slug ` {..<300})" "''globex'' \<notin> bulk_slug ` {..<300}"
    using bulk_not_named by (auto dest: sym)
  moreover have "card (bulk_slug ` {..<300}) = 300" by (simp add: card_image [OF bulk_slug_inj])
  ultimately show ?thesis by (simp add: after_run_dom)
qed

text \<open>The stages of the run: three tenants, then acme with its column and globex, then these and the bulk.\<close>

definition three :: "nat \<Rightarrow> nat \<Rightarrow> nat \<Rightarrow> string list \<Rightarrow> nat set \<Rightarrow> tenancy" where
  "three p q r c v = [''acme'' \<mapsto> (p, c, v), ''globex'' \<mapsto> (q, c, v), ''initech'' \<mapsto> (r, c, v)]"

definition template_columns :: "string list" where
  "template_columns = [''id'', ''name'', ''created_at'']"

definition two_left :: tenancy where
  "two_left = [''acme'' \<mapsto> (5, template_columns @ [''archived'', ''sap_cost_center''], {1, 2}), ''globex'' \<mapsto> (3, template_columns @ [''archived''], {1, 2})]"

definition with_bulk :: tenancy where
  "with_bulk = (\<lambda>t. if t \<in> set (map bulk_slug [0..<300]) then Some new_tenant else two_left t)"

lemma yields_weaken: "yields P f Q \<Longrightarrow> (\<And>x s. Q x s \<Longrightarrow> R x s) \<Longrightarrow> yields P f R"
  unfolding yields_def by blast

lemma three_provisioned:
  "yields (shows_tenants Map.empty) (provision_all env [''acme'', ''globex'', ''initech'']) (\<lambda>_. shows_tenants (three 0 0 0 template_columns {1}))"
proof -
  have "(\<lambda>t. if t \<in> set [''acme'', ''globex'', ''initech''] then Some new_tenant else None) = three 0 0 0 template_columns {1}"
    by (auto simp: three_def template_columns_def new_tenant_def fun_eq_iff)
  with provision_all_refines [of Map.empty env "[''acme'', ''globex'', ''initech'']"] show ?thesis by (simp only:)
qed

lemma three_seeded:
  assumes "mset xs = {#(''acme'', 5), (''globex'', 3), (''initech'', 8)#}"
  shows "yields (shows_tenants (three 0 0 0 c v)) (seed_all env xs) (\<lambda>_. shows_tenants (three 5 3 8 c v))"
proof -
  have "more_projects xs t = sum_mset (image_mset snd (filter_mset (\<lambda>x. fst x = t) (mset xs)))" for t
    by (simp add: more_projects_def sum_mset_sum_list flip: mset_filter mset_map)
  then have "(\<lambda>t. map_option (\<lambda>(n, c, v). (n + more_projects xs t, c, v)) (three 0 0 0 c v t)) = three 5 3 8 c v"
    by (auto simp: assms three_def fun_eq_iff)
  with seed_all_refines [of "three 0 0 0 c v" env xs] show ?thesis by simp
qed

lemma add_column_Inr:
  "add_column c sc = Inr x \<Longrightarrow> owner x = owner sc \<and> projects x = projects sc \<and> columns x = columns sc @ [c] \<and> versions x = versions sc"
  by (auto simp: add_column_def split: if_splits)

lemma three_migrated:
  "yields (shows_tenants (three p q r c {1})) (migrate_all cl 2 (add_column ''archived''))
     (\<lambda>k s. shows_tenants (three p q r (c @ [''archived'']) {1, 2}) s \<and> k = 3)"
  "yields (shows_tenants (three p q r c {1, 2})) (migrate_all cl 2 (add_column ''archived'')) (\<lambda>k s. shows_tenants (three p q r c {1, 2}) s \<and> k = 0)"
proof -
  note m = migrate_refines [of "add_column ''archived''" "[''archived'']", OF add_column_Inr, where v = 2 and cl = cl]
  have "bump 2 [''archived''] (three p q r c {1}) = three p q r (c @ [''archived'']) {1, 2}"
    "{t \<in> dom (three p q r c {1}). 2 \<notin> snd (snd (the (three p q r c {1} t)))} = {''acme'', ''globex'', ''initech''}"
    by (auto simp: bump_def three_def fun_eq_iff split: if_splits)
  with m [of "three p q r c {1}"] show "yields (shows_tenants (three p q r c {1})) (migrate_all cl 2 (add_column ''archived''))
     (\<lambda>k s. shows_tenants (three p q r (c @ [''archived'']) {1, 2}) s \<and> k = 3)" by (simp add: numeral_3_eq_3)
  have b: "bump 2 [''archived''] (three p q r c {1, 2}) = three p q r c {1, 2}"
    "{t \<in> dom (three p q r c {1, 2}). 2 \<notin> snd (snd (the (three p q r c {1, 2} t)))} = {}"
    by (auto simp: bump_def three_def fun_eq_iff split: if_splits)
  from m [of "three p q r c {1, 2}"] show "yields (shows_tenants (three p q r c {1, 2})) (migrate_all cl 2 (add_column ''archived''))
     (\<lambda>k s. shows_tenants (three p q r c {1, 2}) s \<and> k = 0)" by (simp only: b card.empty)
qed

lemma two_are_left:
  "yields (shows_tenants (custom ''sap_cost_center'' ''acme'' (three 5 3 8 (template_columns @ [''archived'']) {1, 2}))) (offboard rb rc env ''initech'')
     (\<lambda>_. shows_tenants two_left)"
proof -
  have "(custom ''sap_cost_center'' ''acme'' (three 5 3 8 (template_columns @ [''archived'']) {1, 2}))(''initech'' := None) = two_left"
    by (auto simp: custom_def three_def two_left_def fun_eq_iff)
  with offboard_refines show ?thesis by metis
qed

lemma bulk_provisioned: "yields (shows_tenants two_left) (provision_all env (map bulk_slug [0..<300])) (\<lambda>_. shows_tenants with_bulk)"
  unfolding with_bulk_def by (rule provision_all_refines)

lemma all_indexed: "yields (shows_tenants with_bulk) (migrate_all cl 3 Inr) (\<lambda>k s. shows_tenants after_run s \<and> k = 302)"
proof -
  have n: "bulk_slug i \<noteq> ''acme'' \<and> bulk_slug i \<noteq> ''globex'' \<and> bulk_slug i \<noteq> ''initech''" for i using bulk_not_named by blast
  have b: "bump 3 [] with_bulk = after_run"
    unfolding bump_def after_run_def with_bulk_def two_left_def new_tenant_def template_columns_def using n
    by (auto simp: fun_eq_iff simp del: upt_Suc upt_rec_numeral)
  have "dom with_bulk = dom (bump 3 [] with_bulk)" by (auto simp: bump_def dom_def)
  moreover have "3 \<notin> snd (snd (the (with_bulk t)))" if "t \<in> dom with_bulk" for t
    using that by (auto simp: with_bulk_def two_left_def new_tenant_def simp del: upt_Suc upt_rec_numeral split: if_splits)
  ultimately have c: "{t \<in> dom with_bulk. 3 \<notin> snd (snd (the (with_bulk t)))} = dom after_run" unfolding b by blast
  have "yields (shows_tenants with_bulk) (migrate_all cl 3 Inr)
      (\<lambda>k s. shows_tenants (bump 3 [] with_bulk) s \<and> k = card {t \<in> dom with_bulk. 3 \<notin> snd (snd (the (with_bulk t)))})"
    by (rule migrate_refines) simp
  then show ?thesis by (simp only: b c after_run_card)
qed

text \<open>Whatever fails and wherever \<open>main\<close> stops, every slug is completely there or completely absent.\<close>

definition same_owners :: "database \<Rightarrow> database \<Rightarrow> bool" where
  "same_owners s t \<longleftrightarrow> roles t = roles s \<and> grants t = grants s \<and> tenants t = tenants s \<and> (\<forall>n. map_option owner (schemas t n) = map_option owner (schemas s n))"

lemma same_owners_ok: "same_owners s t \<Longrightarrow> catalogue_ok s \<Longrightarrow> catalogue_ok t"
  using catalogue_cong [of t s] by (simp add: same_owners_def)

lemma request_owners: "run_request se q t = (Inr x, t') \<Longrightarrow> same_owners t t'"
  by (cases q) (auto simp: same_owners_def resolve_def split: sum.splits option.splits if_splits)

lemma in_tenant_owners: "same_owners s (snd (in_tenant cl slug fn s))"
proof -
  have r: "same_owners s (snd (snd (run_closure (run_request se) fn (False, s))))" for se
    by (rule run_closure_relation [of same_owners]) (use request_owners in \<open>fastforce simp: same_owners_def\<close>)+
  have "same_owners s s" by (simp add: same_owners_def)
  with r show ?thesis
    by (auto simp: in_tenant_def with_tenant_def split: prod.splits option.splits sum.splits if_splits) (metis snd_conv)+
qed


lemma in_tenant_keeps: "catalogue_ok s \<Longrightarrow> catalogue_ok (snd (in_tenant cl slug fn s))"
  by (rule same_owners_ok [OF in_tenant_owners])

lemma call_keeps:
  "leads catalogue_ok (must_tenant cl slug fn) catalogue_ok" "leads catalogue_ok (steal c2) catalogue_ok" "leads catalogue_ok (leak_demo l) catalogue_ok"
proof -
  show "leads catalogue_ok (must_tenant cl slug fn) catalogue_ok"
    using in_tenant_keeps [of _ cl slug fn] by (auto simp: leads_def must_tenant_def split: prod.split sum.split) (metis snd_conv)+
  show "leads catalogue_ok (steal c2) catalogue_ok"
    by (simp add: leads_def steal_def case_prod_beta in_tenant_keeps)
  show "leads catalogue_ok (leak_demo l) catalogue_ok"
    by (auto simp: leads_def leak_demo_def split: prod.split)
qed

lemma control_keeps:
  "leads catalogue_ok (provision rb rc env slug) catalogue_ok" "leads catalogue_ok (offboard rb rc env slug) catalogue_ok"
  "leads catalogue_ok (drop_all_tenants left env2) catalogue_ok" "leads catalogue_ok (must_read a) catalogue_ok"
  by (auto simp: leads_def provision_keeps offboard_keeps drop_all_tenants_def drop_all_keeps must_read_def split: sum.split)

lemma leads_seq: "leads P f P \<Longrightarrow> (\<And>x. leads P (g x) P) \<Longrightarrow> leads P (and_then f g) P"
  by (rule leads_and_then) blast+

lemma loops_keep:
  "leads catalogue_ok (provision_all env ts) catalogue_ok" "leads catalogue_ok (seed_all env2 xs) catalogue_ok"
  "leads catalogue_ok (route_all env2 ts) catalogue_ok"
proof -
  show "leads catalogue_ok (provision_all env ts) catalogue_ok"
    by (induction ts arbitrary: env) (simp_all add: leads_give leads_seq control_keeps)
  show "leads catalogue_ok (seed_all env2 xs) catalogue_ok"
    by (induction xs arbitrary: env2) (auto simp: leads_give intro!: leads_seq call_keeps(1))
  show "leads catalogue_ok (route_all env2 ts) catalogue_ok"
  proof (induction ts arbitrary: env2)
    case (Cons t ts)
    show ?case unfolding route_all.simps
      by (intro leads_seq call_keeps(1) Cons.IH leads_give) (simp add: leads_same)
  qed (simp add: leads_give)
qed

lemma change_keeps:
  assumes "\<And>sc x. ddl sc = Inr x \<Longrightarrow> owner x = owner sc"
  shows "leads catalogue_ok (migrate_all cl v ddl) catalogue_ok" "leads catalogue_ok (exec_admin r n ddl) catalogue_ok"
proof -
  have "catalogue_ok (snd (migrate_all cl v ddl s))" if "catalogue_ok s" for s
  proof -
    have "evolved v ddl s (snd (migrate_all cl v ddl s))"
      by (simp add: migrate_all_def migrate_def evolved_refl evolved_loop split: sum.split)
    then have e: "evolved v ddl s t" if "t = snd (migrate_all cl v ddl s)" for t using that by simp
    have "map_option owner (schemas t n) = map_option owner (schemas s n)" if "t = snd (migrate_all cl v ddl s)" for t n
      using e [OF that] assms unfolding evolved_def migrated_def by (elim conjE allE [of _ n]) auto
    with e have "same_owners s (snd (migrate_all cl v ddl s))" by (simp add: same_owners_def evolved_def)
    from same_owners_ok [OF this that] show ?thesis .
  qed
  then show "leads catalogue_ok (migrate_all cl v ddl) catalogue_ok" by (simp add: leads_def)
  have "same_owners s (snd (exec_admin r n ddl s))" for s
    using assms by (auto simp: same_owners_def exec_admin_def must_def split: option.split sum.split)
  then show "leads catalogue_ok (exec_admin r n ddl) catalogue_ok" using same_owners_ok by (auto simp: leads_def)
qed

lemma main_keeps: "leads catalogue_ok (schemas_main e) catalogue_ok"
proof -
  have c: "owner x = owner sc" if "add_column c sc = Inr x" for c sc x using that by (auto simp: add_column_def split: if_splits)
  have i: "owner x = owner sc" if "Inr sc = (Inr x :: db_error + schema)" for sc x using that by simp
  show ?thesis unfolding schemas_main_def
  proof (intro leads_seq leads_give control_keeps loops_keep call_keeps change_keeps)
    show "leads catalogue_ok (\<lambda>s. (if \<forall>r \<in> set (opened e). r = Done then Some () else None, s)) catalogue_ok" by (rule leads_same) simp
  qed (use c i in blast)+
qed


text \<open>C29: 
  On a server where every slug is completely there or completely absent it stays so, whatever fails and
  wherever \<open>main\<close> stops. If \<open>main\<close> returns, each tenant saw its own projects, no request read another tenant's, the
  migration was applied to the three tenants once, initech is gone, and the 300 tenants provisioned after the
  migration got version 3 but never version 2: their tables lack the column \<open>archived\<close>.
\<close>

theorem schemas_main_result:
  assumes "catalogue_ok s" and "\<forall>ts. leftover e = Inr ts \<longrightarrow> set ts = dom (tenants s)"
    and "mset (seeds e) = {#(''acme'', 5), (''globex'', 3), (''initech'', 8)#}" and "schemas_main e s = (x, s')"
  shows "catalogue_ok s' \<and> (\<forall>y. x = Some y \<longrightarrow> tenancy s' = after_run \<and>
    routes y = [(''acme'', 5, Some (tenant_name ''acme'')), (''globex'', 3, Some (tenant_name ''globex'')), (''initech'', 8, Some (tenant_name ''initech''))] \<and>
    (\<forall>n. stolen y \<noteq> Inr n) \<and> fst (leak y) = Some (tenant_name ''acme'') \<and> (\<forall>n. snd (leak y) \<noteq> Inr n) \<and>
    applied_to y = 3 \<and> applied_again y = 0 \<and> indexed y = 302)"
proof (intro conjI allI impI)
  show "catalogue_ok s'" using leadsD [OF main_keeps assms(1), of e] assms(4) by simp
next
  fix y assume y: "x = Some y"
  from assms(4) [unfolded y schemas_main_def] obtain r st l n n' m s1 s2 s3 s4 s5 s6 s7 s8 s9 s10 s11 where
    run: "drop_all_tenants (leftover e) (dropping e) s = (Some (), s1)" "provision_all (provisioning e) [''acme'', ''globex'', ''initech''] s1 = (Some (), s2)"
    "seed_all (seeding e) (seeds e) s2 = (Some (), s3)" "route_all (routing e) [''acme'', ''globex'', ''initech''] s3 = (Some r, s4)"
    "steal (stealing e) s4 = (Some st, s5)" "leak_demo (leaking e) s5 = (Some l, s6)"
    "migrate_all (migrating e) 2 (add_column ''archived'') s6 = (Some n, s7)" "migrate_all (again e) 2 (add_column ''archived'') s7 = (Some n', s8)"
    "exec_admin (customizing e) (tenant_name ''acme'') (add_column ''sap_cost_center'') s8 = (Some (), s9)"
    "offboard (begins (offboarding e)) (commits (offboarding e)) (stmts (offboarding e)) ''initech'' s9 = (Some (), s10)"
    "provision_all (bulk e) (map bulk_slug [0..<300]) s10 = (Some (), s11)" "migrate_all (indexing e) 3 Inr s11 = (Some m, s')"
    "routes y = r" "stolen y = st" "leak y = l" "applied_to y = n" "applied_again y = n'" "indexed y = m"
    by (auto simp: and_then_Some must_read_def give_Some simp del: provision_all.simps seed_all.simps route_all.simps split: if_splits)
  obtain ts' where ts: "leftover e = Inr ts'" "drop_all (dropping e) ts' s = (Some (), s1)"
    using run(1) by (auto simp: drop_all_tenants_def split: sum.splits)
  have d: "set ts' = dom (tenancy s)" using assms(2) ts(1) tenancy_dom [OF assms(1)] by simp
  then have "finite (dom (tenants s))" using tenancy_dom [OF assms(1)] by (metis List.finite_set)
  with assms(1) have "shows_tenants (tenancy s) s" by (simp add: shows_tenants_def)
  have "tenancy s |` (- dom (tenancy s)) = Map.empty" by (rule ext) (metis ComplD domIff restrict_map_def)
  with yieldsD [OF drop_all_refines \<open>shows_tenants (tenancy s) s\<close> ts(2)] have "shows_tenants Map.empty s1" by (simp only: d)
  note t3 = yieldsD [OF three_seeded [OF assms(3)] yieldsD [OF three_provisioned this run(2)] run(3)]
  note t4 = yieldsD [OF route_all_refines t3 run(4)]
  note t5 = yieldsD [OF steal_refines conjunct1 [OF t4] run(5)]
  note t6 = yieldsD [OF leak_refines conjunct1 [OF t5] run(6)]
  note t7 = yieldsD [OF three_migrated(1) conjunct1 [OF t6] run(7)]
  note t8 = yieldsD [OF three_migrated(2) conjunct1 [OF t7] run(8)]
  note t10 = yieldsD [OF two_are_left yieldsD [OF exec_admin_refines conjunct1 [OF t8] run(9)] run(10)]
  note t12 = yieldsD [OF all_indexed yieldsD [OF bulk_provisioned t10 run(11)] run(12)]
  show "tenancy s' = after_run" using t12 by (simp add: shows_tenants_def)
  show "indexed y = 302" using t12 run(18) by simp
  show "routes y = [(''acme'', 5, Some (tenant_name ''acme'')), (''globex'', 3, Some (tenant_name ''globex'')), (''initech'', 8, Some (tenant_name ''initech''))]"
    using t4 run(13) by (simp add: three_def)
  show "stolen y \<noteq> Inr k" for k using t5 run(14) by simp
  show "fst (leak y) = Some (tenant_name ''acme'')" "snd (leak y) \<noteq> Inr k" for k using t6 run(15) by simp_all
  show "applied_to y = 3" "applied_again y = 0" using t7 t8 run(16,17) by simp_all
qed


section \<open>A server that answers\<close>

definition answers :: "(database \<Rightarrow> bool) \<Rightarrow> (database \<Rightarrow> 'a option \<times> database) \<Rightarrow> bool" where
  "answers P f \<longleftrightarrow> (\<forall>s. P s \<longrightarrow> fst (f s) \<noteq> None)"

lemma answersD: "answers P f \<Longrightarrow> P s \<Longrightarrow> fst (f s) \<noteq> None"
  by (simp add: answers_def)

lemma answers_and_then:
  assumes "answers P f" and "yields P f R" and "\<And>x. answers (R x) (g x)"
  shows "answers P (and_then f g)"
  unfolding answers_def
proof (intro allI impI)
  fix s assume "P s"
  then obtain x s' where f: "f s = (Some x, s')" using answersD [OF assms(1)] by (metis option.exhaust prod.collapse)
  from answersD [OF assms(3) yieldsD [OF assms(2) \<open>P s\<close> f]] show "fst (and_then f g s) \<noteq> None"
    by (simp add: and_then_def f)
qed

lemma answers_give: "answers P (give x)"
  by (simp add: answers_def give_def)

lemma absent_None:
  assumes "shows_tenants A s" and "A slug = None"
  shows "absent s slug"
proof -
  have "present s slug \<or> absent s slug" using assms(1) by (simp add: shows_tenants_def catalogue_ok_def)
  moreover have "\<not> present s slug" using assms by (auto simp: shows_tenants_def tenancy_def present_def)
  ultimately show ?thesis by blast
qed

lemma present_Some: "shows_tenants A s \<Longrightarrow> A slug \<noteq> None \<Longrightarrow> present s slug"
  using catalogue_slug(2) [of s slug] by (auto simp: shows_tenants_def tenancy_def)

lemma provision_answers:
  assumes "A slug = None" and "valid_slug slug"
  shows "answers (shows_tenants A) (provision Done Done (\<lambda>_. Done) slug)"
  unfolding answers_def
proof (intro allI impI)
  fix s assume s: "shows_tenants A s"
  have a: "absent s slug" by (rule absent_None [OF s assms(1)])
  have "tenant_name slug \<notin> ran (tenants s)"
    using s a tenants_named [of s] by (auto simp: shows_tenants_def ran_def absent_def)
  with a assms(2) show "fst (provision Done Done (\<lambda>_. Done) slug s) \<noteq> None"
    by (simp add: provision_def begin_func_Done provision_tx_def bind_tx_def stmt_Done create_role_def grant_role_def
        create_schema_def create_tables_def insert_tenant_def absent_def Let_def)
qed

lemma provision_all_answers:
  assumes "\<forall>t \<in> set ts. A t = None \<and> valid_slug t" and "distinct ts"
  shows "answers (shows_tenants A) (provision_all all_done ts)"
  using assms
proof (induction ts arbitrary: A)
  case (Cons t ts)
  have c: "all_done \<circ> Suc = all_done" by (simp add: all_done_def fun_eq_iff)
  have "answers (shows_tenants A) (and_then (provision Done Done (\<lambda>_. Done) t) (\<lambda>_. provision_all all_done ts))"
    by (rule answers_and_then [OF provision_answers provision_refines Cons.IH]) (use Cons.prems in auto)
  then show ?case by (simp add: c) (simp add: all_done_def)
qed (simp add: answers_give)

lemma offboard_answers:
  assumes "A slug \<noteq> None"
  shows "answers (shows_tenants A) (offboard Done Done (\<lambda>_. Done) slug)"
  unfolding answers_def
proof (intro allI impI)
  fix s assume s: "shows_tenants A s"
  have p: "present s slug" by (rule present_Some [OF s assms])
  have "owner sc = m" if "schemas s m = Some sc" for m sc using catalogue_owner s that by (auto simp: shows_tenants_def)
  with p show "fst (offboard Done Done (\<lambda>_. Done) slug s) \<noteq> None"
    by (auto simp: offboard_def begin_func_Done offboard_tx_def bind_tx_def stmt_Done drop_schema_def drop_role_def present_def Let_def split: if_splits)
qed

lemma in_tenant_answers:
  assumes "present s slug" and "run_closure (run_request (set_local (tenant_name slug))) fn (False, s) = (Inr x, False, s')"
  shows "must_tenant (Done, Done, Done, Done) slug fn s = (Some x, s')"
  using assms(2) by (simp add: must_tenant_Some in_tenant_def with_tenant_present [OF assms(1)])

lemma calls_answer:
  assumes "A t \<noteq> None"
  shows "answers (shows_tenants A) (must_tenant (Done, Done, Done, Done) t (sent Done (add_all ps)))"
    "answers (shows_tenants A) (must_tenant (Done, Done, Done, Done) t (sent Done (counting None)))"
proof -
  have *: "present s t \<and> (\<exists>sc. schemas s (tenant_name t) = Some sc \<and> owner sc = tenant_name t)" if "shows_tenants A s" for s
    using present_Some [OF that assms] by (auto simp: present_def)
  show "answers (shows_tenants A) (must_tenant (Done, Done, Done, Done) t (sent Done (add_all ps)))"
    unfolding answers_def using * in_tenant_answers [of _ t "sent Done (add_all ps)"] add_all_run [of _ "tenant_name t" _ ps]
    by (fastforce simp: sent_run)
  show "answers (shows_tenants A) (must_tenant (Done, Done, Done, Done) t (sent Done (counting None)))"
    unfolding answers_def using * in_tenant_answers [of _ t "sent Done (counting None)"] count_run [of _ "tenant_name t"]
    by (fastforce simp: sent_run shows_tenants_def)
qed


lemma seed_all_answers:
  assumes "\<forall>x \<in> set xs. A (fst x) \<noteq> None"
  shows "answers (shows_tenants A) (seed_all (\<lambda>_. ((Done, Done, Done, Done), Done)) xs)"
  using assms
proof (induction xs arbitrary: A)
  case (Cons x xs)
  obtain t n where x: "x = (t, n)" by fastforce
  have "answers (\<lambda>s. \<exists>k c v. A t = Some (k, c, v) \<and> shows_tenants (A(t \<mapsto> (k + length (seed_projects t n), c, v))) s)
      (seed_all (\<lambda>_. ((Done, Done, Done, Done), Done)) xs)"
    unfolding answers_def
  proof (intro allI impI, elim exE conjE)
    fix s k c v
    assume s: "shows_tenants (A(t \<mapsto> (k + length (seed_projects t n), c, v))) s"
    have "\<forall>x \<in> set xs. (A(t \<mapsto> (k + length (seed_projects t n), c, v))) (fst x) \<noteq> None" using Cons.prems by simp
    from answersD [OF Cons.IH [OF this] s] show "fst (seed_all (\<lambda>_. ((Done, Done, Done, Done), Done)) xs s) \<noteq> None" .
  qed
  with Cons.prems show ?case unfolding x seed_all.simps fst_conv snd_conv comp_def
    by (intro answers_and_then [OF calls_answer(1) seed_refines]) (simp_all add: x)
qed (simp add: answers_give)

lemma route_all_answers:
  assumes "\<forall>t \<in> set ts. A t \<noteq> None"
  shows "answers (shows_tenants A) (route_all (\<lambda>_. ((Done, Done, Done, Done), Done)) ts)"
  using assms
proof (induction ts)
  case (Cons t ts)
  let ?env = "\<lambda>_. ((Done, Done, Done, Done), Done)"
  have "answers (shows_tenants A) (\<lambda>s. and_then (\<lambda>s. (Some (tenants s t), s)) (\<lambda>path. and_then (route_all ?env ts) (\<lambda>xs. give ((t, n, path) # xs))) s)" for n
    unfolding answers_def
  proof (intro allI impI)
    fix s assume s: "shows_tenants A s"
    from Cons.IH Cons.prems have "answers (shows_tenants A) (route_all ?env ts)" by simp
    from answersD [OF this s] show "fst (and_then (\<lambda>s. (Some (tenants s t), s)) (\<lambda>path. and_then (route_all ?env ts) (\<lambda>xs. give ((t, n, path) # xs))) s) \<noteq> None"
      by (auto simp: and_then_def give_def split: prod.split option.split)
  qed
  then have "answers (\<lambda>s. shows_tenants A s \<and> (\<exists>c v. A t = Some (n, c, v)))
      (and_then (\<lambda>s. (Some (tenants s t), s)) (\<lambda>path. and_then (route_all ?env ts) (\<lambda>xs. give ((t, n, path) # xs))))" for n
    by (simp add: answers_def)
  with Cons.prems show ?case unfolding route_all.simps fst_conv snd_conv comp_def
    by (intro answers_and_then [OF calls_answer(2) route_refines]) simp_all
qed (simp add: answers_give)

lemma migrate_loop_answers:
  assumes "\<And>sc. v \<notin> versions sc \<Longrightarrow> P sc \<Longrightarrow> \<exists>x. ddl sc = Inr x \<and> versions x = versions sc" and "distinct ns"
    and "\<forall>n \<in> set ns. \<exists>sc. schemas s n = Some sc \<and> P sc"
  shows "fst (migrate_loop all_done v ddl ns k s) \<noteq> None"
  using assms(2,3)
proof (induction ns arbitrary: k s)
  case (Cons n ns)
  then obtain sc where sc: "schemas s n = Some sc" "P sc" by auto
  have c: "all_done \<circ> Suc = all_done" by (simp add: all_done_def fun_eq_iff)
  have p: "begins (all_done 0) = Done" "commits (all_done 0) = Done" "stmts (all_done 0) = (\<lambda>_. Done)" by (simp_all add: all_done_def)
  obtain did sc' where m: "migrate_schema Done Done (\<lambda>_. Done) v ddl n s = (Inr did, s\<lparr>schemas := (schemas s)(n \<mapsto> sc')\<rparr>)"
  proof (cases "v \<in> versions sc")
    case True
    with that up_to_date_schema [OF sc(1)] sc(1) show thesis by (metis (no_types, lifting) database.surjective database.update_convs(3) fun_upd_triv)
  next
    case False
    with assms(1) sc obtain x where "ddl sc = Inr x" "versions x = versions sc" by blast
    with False sc that show thesis by (auto simp: migrate_schema_def begin_func_Done migrate_tx_def bind_tx_def stmt_Done)
  qed
  have "\<forall>m \<in> set ns. \<exists>sc. schemas (s\<lparr>schemas := (schemas s)(n \<mapsto> sc')\<rparr>) m = Some sc \<and> P sc" using Cons.prems by auto
  with Cons.IH [of "s\<lparr>schemas := (schemas s)(n \<mapsto> sc')\<rparr>"] Cons.prems(1) m show ?case
    by (simp add: c p)
qed simp

lemma migrate_answers:
  assumes "\<And>sc. v \<notin> versions sc \<Longrightarrow> P (columns sc) (versions sc) \<Longrightarrow> \<exists>x. ddl sc = Inr x \<and> versions x = versions sc"
    and "\<forall>t n c vs. A t = Some (n, c, vs) \<longrightarrow> P c vs"
  shows "answers (shows_tenants A) (migrate_all (Done, all_done) v ddl)"
  unfolding answers_def
proof (intro allI impI)
  fix s assume s: "shows_tenants A s"
  then have ok: "catalogue_ok s" "finite (dom (tenants s))" by (simp_all add: shows_tenants_def)
  have "\<exists>sc. schemas s n = Some sc \<and> P (columns sc) (versions sc)" if "n \<in> set (schema_names s)" for n
  proof -
    from that names_of(1) [OF ok] obtain sc where sc: "schemas s n = Some sc" by auto
    then obtain t where "n = tenant_name t" using ok(1) by (auto simp: catalogue_ok_def)
    with sc s have "A t = Some (length (projects sc), columns sc, versions sc)" by (auto simp: shows_tenants_def tenancy_def)
    with assms(2) sc show ?thesis by blast
  qed
  then have "fst (migrate_loop all_done v ddl (schema_names s) 0 s) \<noteq> None"
    by (intro migrate_loop_answers [where P = "\<lambda>sc. P (columns sc) (versions sc)"] names_of(2) [OF ok]) (use assms(1) in blast)+
  then show "fst (migrate_all (Done, all_done) v ddl s) \<noteq> None" by (simp add: migrate_all_def migrate_def query_simps)
qed


lemma exec_admin_answers:
  assumes "A t = Some (n, cs, vs)" and "c \<notin> set cs"
  shows "answers (shows_tenants A) (exec_admin Done (tenant_name t) (add_column c))"
  using assms by (auto simp: answers_def exec_admin_def add_column_def must_def shows_tenants_def tenancy_def split: option.split)

text \<open>The first run on a new server where every statement is acknowledged.\<close>

definition first_run :: schemas_env where
  "first_run = \<lparr>opened = [Done, Done, Done, Done], leftover = Inr [], dropping = (\<lambda>_. Done), provisioning = all_done,
     seeds = [(''globex'', 3), (''initech'', 8), (''acme'', 5)], seeding = (\<lambda>_. ((Done, Done, Done, Done), Done)),
     routing = (\<lambda>_. ((Done, Done, Done, Done), Done)), stealing = ((Done, Done, Done, Done), Done), leaking = (Done, Done, Done, Done),
     migrating = (Done, all_done), again = (Done, all_done), customizing = Done, dumping = (Done, 4096),
     offboarding = all_done 0, catalog_before = (Done, 400, 3000), bulk = all_done, catalog_after = (Done, 2500, 12000), indexing = (Done, all_done)\<rparr>"

definition new_server :: database where
  "new_server = \<lparr>roles = {}, grants = {}, schemas = Map.empty, tenants = Map.empty\<rparr>"

lemma bulk_valid: "valid_slug (bulk_slug i)"
  by (simp add: bulk_slug_def valid_slug_def is_lower_def is_digit_digit)


lemma all_done_select: "begins (all_done i) = Done" "commits (all_done i) = Done" "stmts (all_done i) = (\<lambda>_. Done)"
  by (simp_all add: all_done_def)

lemma stages:
  "yields (shows_tenants A) (route_all env ts) (\<lambda>_. shows_tenants A)" "yields (shows_tenants A) (steal cl) (\<lambda>_. shows_tenants A)"
  "yields (shows_tenants A) (leak_demo l) (\<lambda>_. shows_tenants A)"
  "yields (shows_tenants (three p q r c {1})) (migrate_all m 2 (add_column ''archived'')) (\<lambda>_. shows_tenants (three p q r (c @ [''archived'']) {1, 2}))"
  "yields (shows_tenants (three p q r c {1, 2})) (migrate_all m 2 (add_column ''archived'')) (\<lambda>_. shows_tenants (three p q r c {1, 2}))"
  by (rule yields_weaken [OF route_all_refines] yields_weaken [OF steal_refines] yields_weaken [OF leak_refines]
      yields_weaken [OF three_migrated(1)] yields_weaken [OF three_migrated(2)], blast)+

lemma first_run_returns: "fst (schemas_main first_run new_server) \<noteq> None"
proof -
  let ?T = template_columns
  let ?U = "template_columns @ [''archived'']"
  let ?S = "custom ''sap_cost_center'' ''acme'' (three 5 3 8 ?U {1, 2})"
  have v: "valid_slug ''acme''" "valid_slug ''globex''" "valid_slug ''initech''" by (simp_all add: valid_slug_def is_lower_def)
  have n: "new_server = s \<Longrightarrow> shows_tenants Map.empty s" for s
    by (auto simp: shows_tenants_def new_server_def tenancy_def catalogue_ok_def present_def absent_def)
  have col: "\<exists>x. add_column c sc = Inr x \<and> versions x = versions sc" if "c \<notin> set (columns sc)" for c sc using that by (simp add: add_column_def)
  have a1: "answers (shows_tenants Map.empty) (provision_all all_done [''acme'', ''globex'', ''initech''])"
    by (rule provision_all_answers) (use v in auto)
  have a2: "answers (shows_tenants (three 0 0 0 ?T {1})) (seed_all (\<lambda>_. ((Done, Done, Done, Done), Done)) (seeds first_run))"
    by (rule seed_all_answers) (simp add: first_run_def three_def)
  have a3: "answers (shows_tenants (three 5 3 8 ?T {1})) (route_all (\<lambda>_. ((Done, Done, Done, Done), Done)) [''acme'', ''globex'', ''initech''])"
    by (rule route_all_answers) (simp add: three_def)
  have a4: "answers P (steal cl)" "answers P (leak_demo (Done, Done, Done, Done))" "answers P (must_read (Done, x))" for P cl and x :: "'x"
    by (simp_all add: answers_def steal_def leak_demo_def must_read_def split: prod.split)
  have a5: "answers (shows_tenants (three 5 3 8 ?T {1})) (migrate_all (Done, all_done) 2 (add_column ''archived''))"
    by (rule migrate_answers [where P = "\<lambda>c vs. ''archived'' \<notin> set c"]) (use col in \<open>auto simp: three_def template_columns_def split: if_splits\<close>)
  have a6: "answers (shows_tenants (three 5 3 8 ?U {1, 2})) (migrate_all (Done, all_done) 2 (add_column ''archived''))"
    by (rule migrate_answers [where P = "\<lambda>c vs. 2 \<in> vs"]) (auto simp: three_def split: if_splits)
  have a7: "answers (shows_tenants (three 5 3 8 ?U {1, 2})) (exec_admin Done (tenant_name ''acme'') (add_column ''sap_cost_center''))"
    by (rule exec_admin_answers [where n = 5 and cs = ?U]) (simp_all add: three_def template_columns_def)
  have a8: "answers (shows_tenants ?S) (offboard Done Done (\<lambda>_. Done) ''initech'')"
    by (rule offboard_answers) (simp add: custom_def three_def)
  have a9: "answers (shows_tenants two_left) (provision_all all_done (map bulk_slug [0..<300]))"
    by (rule provision_all_answers)
      (use bulk_valid bulk_not_named bulk_slug_inj in \<open>auto simp: two_left_def distinct_map atLeast0LessThan simp del: upt_Suc upt_rec_numeral\<close>)
  have a10: "answers (shows_tenants with_bulk) (migrate_all (Done, all_done) 3 Inr)"
    by (rule migrate_answers [where P = "\<lambda>c vs. True"]) simp_all
  have r: "yields P (must_read a) (\<lambda>_. P)" for P and a :: "outcome \<times> 'x" by (simp add: yields_def must_read_def)
  have o: "yields P (\<lambda>s. (Some (), s)) (\<lambda>_. P)" "answers P (\<lambda>s. (Some (), s))" for P by (simp_all add: yields_def answers_def)
  have d: "drop_all_tenants (Inr []) (\<lambda>_. Done) = (\<lambda>s. (Some (), s))" by (simp add: drop_all_tenants_def fun_eq_iff)
  have e: "mset [(''globex'', 3 :: nat), (''initech'', 8), (''acme'', 5)] = {#(''acme'', 5), (''globex'', 3), (''initech'', 8)#}" by simp
  have ok: "(\<lambda>s. (if \<forall>r \<in> set [Done, Done, Done, Done]. r = Done then Some () else None, s)) = (\<lambda>s :: database. (Some (), s))" by simp
  have "answers (shows_tenants Map.empty) (schemas_main first_run)"
    unfolding schemas_main_def first_run_def schemas_env.select_convs all_done_select d ok
    by (rule answers_and_then [OF o(2,1)] answers_and_then [OF a1 three_provisioned]
        answers_and_then [OF a2 [unfolded first_run_def schemas_env.select_convs] three_seeded [OF e]] answers_and_then [OF a3 stages(1)]
        answers_and_then [OF a4(1) stages(2)] answers_and_then [OF a4(2) stages(3)] answers_and_then [OF a5 stages(4)] answers_and_then [OF a6 stages(5)]
        answers_and_then [OF a7 exec_admin_refines] answers_and_then [OF a4(3) r] answers_and_then [OF a8 two_are_left]
        answers_and_then [OF a9 bulk_provisioned] answers_and_then [OF a10 all_indexed] answers_give)+
  from answersD [OF this n [OF refl]] show ?thesis .
qed


theorem schemas_main_result_witness:
  "\<exists>y s'. schemas_main first_run new_server = (Some y, s') \<and> tenancy s' (bulk_slug 7) = Some (0, [''id'', ''name'', ''created_at''], {1, 3}) \<and>
     tenancy s' ''initech'' = None \<and> map (\<lambda>(t, n, p). n) (routes y) = [5, 3, 8] \<and> applied_to y = 3 \<and> applied_again y = 0 \<and> indexed y = 302"
proof -
  obtain x s' where m: "schemas_main first_run new_server = (x, s')" by fastforce
  with first_run_returns obtain y where y: "x = Some y" by auto
  have "catalogue_ok new_server" "\<forall>ts. leftover first_run = Inr ts \<longrightarrow> set ts = dom (tenants new_server)"
    "mset (seeds first_run) = {#(''acme'', 5), (''globex'', 3), (''initech'', 8)#}"
    by (auto simp: catalogue_ok_def absent_def new_server_def first_run_def)
  note r = schemas_main_result [OF this m]
  have b: "bulk_slug 7 \<noteq> ''acme''" "bulk_slug 7 \<noteq> ''globex''" "bulk_slug 7 \<in> bulk_slug ` {..<300}" by (simp_all add: bulk_not_named)
  have i: "''initech'' \<notin> bulk_slug ` {..<300}" using bulk_not_named(3) by (auto dest: sym)
  have "after_run (bulk_slug 7) = Some (0, [''id'', ''name'', ''created_at''], {1, 3})" "after_run ''initech'' = None"
    using b i by (simp_all add: after_run_def)
  with r m y show ?thesis by simp
qed

end
