(* ===== verification/TenantDatabases.thy ===== *)
theory TenantDatabases
  imports Tenancy
begin

text \<open>
  \<open>simulate_multitenancy_separate_database/main.go\<close>: one database and one role per tenant on one of
  several servers, a catalogue that says where, and a router with one connection pool per tenant.
\<close>

section \<open>Servers, catalogue and router\<close>

record dbase =
  owner :: string
  conn_limit :: int
  timeout :: string
  public_connect :: bool
  tables_owner :: string
  invoices :: "(string \<times> int) list"
  versions :: "nat set"

record row =
  row_server :: string
  row_dbname :: string
  row_plan :: string

record world =
  control :: "string \<rightharpoonup> row"                    \<comment> \<open>tenants\<close>
  databases :: "string \<times> string \<rightharpoonup> dbase"      \<comment> \<open>by server and name\<close>
  roles :: "(string \<times> string) set"
  pools :: "string \<rightharpoonup> string \<times> string"        \<comment> \<open>\<open>Router.pools\<close>: where each cached pool connects\<close>

definition plan_limit :: "string \<Rightarrow> int" where
  "plan_limit p = (if p = ''standard'' then 3 else if p = ''premium'' then 20 else 0)"

definition plan_timeout :: "string \<Rightarrow> string" where
  "plan_timeout p = (if p = ''standard'' then ''1s'' else if p = ''premium'' then ''10s'' else [])"

definition template :: dbase where
  "template = \<lparr>owner = ''postgres'', conn_limit = - 1, timeout = [], public_connect = True, tables_owner = ''postgres'',
     invoices = [], versions = {1}\<rparr>"

section \<open>Autocommitted statements in sequence\<close>

text \<open>\<open>must2\<close> and the loops with \<open>log.Fatalf\<close>: the first failure ends the process with what was done so far.\<close>

definition auto_stmt :: "outcome \<Rightarrow> (world \<Rightarrow> (db_error + unit) \<times> world) \<Rightarrow> world \<Rightarrow> db_error option \<times> world" where
  "auto_stmt r f s = (if applied r then (case f s of (Inl e, _) \<Rightarrow> (Some e, s) | (Inr _, s') \<Rightarrow> (err_of r, s')) else (err_of r, s))"

fun run_steps :: "(nat \<Rightarrow> outcome) \<Rightarrow> (world \<Rightarrow> (db_error + unit) \<times> world) list \<Rightarrow> world \<Rightarrow> unit option \<times> world" where
  "run_steps env [] s = (Some (), s)"
| "run_steps env (f # fs) s =
     (case auto_stmt (env 0) f s of
        (Some e, s') \<Rightarrow> (None, s')
      | (None, s') \<Rightarrow> run_steps (env \<circ> Suc) fs s')"

definition create_role :: "string \<Rightarrow> string \<Rightarrow> world \<Rightarrow> (db_error + unit) \<times> world" where
  "create_role sv n s = (if (sv, n) \<in> roles s then (Inl (Sqlstate ''42710''), s)
     else (Inr (), s\<lparr>roles := insert (sv, n) (roles s)\<rparr>))"

definition create_database :: "string \<Rightarrow> string \<Rightarrow> world \<Rightarrow> (db_error + unit) \<times> world" where
  "create_database sv n s = (if databases s (sv, n) \<noteq> None then (Inl (Sqlstate ''42P04''), s)
     else (Inr (), s\<lparr>databases := (databases s)((sv, n) \<mapsto> template\<lparr>owner := n\<rparr>)\<rparr>))"

definition alter_database :: "(dbase \<Rightarrow> dbase) \<Rightarrow> string \<Rightarrow> string \<Rightarrow> world \<Rightarrow> (db_error + unit) \<times> world" where
  "alter_database f sv n s = (case databases s (sv, n) of
     None \<Rightarrow> (Inl (Sqlstate ''3D000''), s)
   | Some d \<Rightarrow> (Inr (), s\<lparr>databases := (databases s)((sv, n) \<mapsto> f d)\<rparr>))"

definition drop_database :: "bool \<Rightarrow> string \<Rightarrow> string \<Rightarrow> world \<Rightarrow> (db_error + unit) \<times> world" where
  "drop_database if_exists sv n s = (if databases s (sv, n) = None \<and> \<not> if_exists then (Inl (Sqlstate ''3D000''), s)
     else (Inr (), s\<lparr>databases := (databases s)((sv, n) := None)\<rparr>))"

definition drop_role :: "bool \<Rightarrow> string \<Rightarrow> string \<Rightarrow> world \<Rightarrow> (db_error + unit) \<times> world" where
  "drop_role if_exists sv n s = (if (sv, n) \<notin> roles s \<and> \<not> if_exists then (Inl (Sqlstate ''42704''), s)
     else (Inr (), s\<lparr>roles := roles s - {(sv, n)}\<rparr>))"

definition insert_tenant :: "string \<Rightarrow> row \<Rightarrow> world \<Rightarrow> (db_error + unit) \<times> world" where
  "insert_tenant slug r s =
     (if control s slug \<noteq> None \<or> (\<exists>r' \<in> ran (control s). row_server r' = row_server r \<and> row_dbname r' = row_dbname r)
      then (Inl (Sqlstate ''23505''), s)
      else (Inr (), s\<lparr>control := (control s)(slug \<mapsto> r)\<rparr>))"

section \<open>The control plane\<close>

definition provision_steps :: "string \<Rightarrow> string \<Rightarrow> string \<Rightarrow> (world \<Rightarrow> (db_error + unit) \<times> world) list" where
  "provision_steps slug sv plan =
     (let n = tenant_name slug in
      [create_role sv n,
       create_database sv n,
       alter_database (\<lambda>d. d\<lparr>conn_limit := plan_limit plan\<rparr>) sv n,
       alter_database (\<lambda>d. d\<lparr>timeout := plan_timeout plan\<rparr>) sv n,
       alter_database (\<lambda>d. d\<lparr>public_connect := False\<rparr>) sv n,
       alter_database (\<lambda>d. d\<lparr>tables_owner := n\<rparr>) sv n,
       insert_tenant slug \<lparr>row_server = sv, row_dbname = n, row_plan = plan\<rparr>])"

definition provision :: "(nat \<Rightarrow> outcome) \<Rightarrow> string \<Rightarrow> string \<Rightarrow> string \<Rightarrow> world \<Rightarrow> unit option \<times> world" where
  "provision env slug sv plan s =
     (if \<not> valid_slug slug then (None, s) else run_steps env (provision_steps slug sv plan) s)"

text \<open>\<open>Router.lookup\<close>: an error and an unknown tenant are fatal.\<close>

definition lookup :: "outcome \<Rightarrow> string \<Rightarrow> world \<Rightarrow> row option" where
  "lookup r slug s = (case query r (control s slug) of Inl _ \<Rightarrow> None | Inr x \<Rightarrow> x)"

text \<open>
  \<open>Router.Pool\<close>: \<open>None\<close> is fatal, \<open>Inl\<close> an error the caller gets. A new pool is kept only when the ping
  reaches the database.
\<close>

definition get_pool :: "outcome \<Rightarrow> outcome \<Rightarrow> string \<Rightarrow> world \<Rightarrow> (db_error + string \<times> string) option \<times> world" where
  "get_pool rl rp slug s =
     (case pools s slug of
        Some p \<Rightarrow> (Some (Inr p), s)
      | None \<Rightarrow>
          (case lookup rl slug s of
             None \<Rightarrow> (None, s)
           | Some r \<Rightarrow>
               (let p = (row_server r, row_dbname r) in
                case err_of rp of
                  Some e \<Rightarrow> (Some (Inl e), s)
                | None \<Rightarrow> (if databases s p = None then (Some (Inl (Sqlstate ''3D000'')), s)
                         else (Some (Inr p), s\<lparr>pools := (pools s)(slug \<mapsto> p)\<rparr>)))))"

definition drop_pool :: "string \<Rightarrow> world \<Rightarrow> world" where
  "drop_pool slug s = s\<lparr>pools := (pools s)(slug := None)\<rparr>"

text \<open>
  \<open>pg_dump -Fc | pg_restore -C\<close>: the target gets the contents. \<open>settings\<close> says which of the settings of
  the database travel with the dump, which is up to the tools.
\<close>

definition dump_restore :: "(dbase \<Rightarrow> dbase) \<Rightarrow> string \<Rightarrow> string \<Rightarrow> string \<Rightarrow> world \<Rightarrow> (db_error + unit) \<times> world" where
  "dump_restore settings src dst n s =
     (case databases s (src, n) of
        None \<Rightarrow> (Inl (Sqlstate ''3D000''), s)
      | Some d \<Rightarrow>
          (if databases s (dst, n) \<noteq> None then (Inl (Sqlstate ''42P04''), s)
           else (Inr (), s\<lparr>databases := (databases s)((dst, n) \<mapsto>
                  (settings d)\<lparr>owner := owner d, tables_owner := tables_owner d, invoices := invoices d, versions := versions d\<rparr>)\<rparr>)))"

definition point_to :: "string \<Rightarrow> string \<Rightarrow> world \<Rightarrow> (db_error + unit) \<times> world" where
  "point_to slug sv s = (Inr (), s\<lparr>control := (control s)(slug := map_option (\<lambda>r. r\<lparr>row_server := sv\<rparr>) (control s slug))\<rparr>)"

definition move_steps :: "(dbase \<Rightarrow> dbase) \<Rightarrow> string \<Rightarrow> row \<Rightarrow> string \<Rightarrow> (world \<Rightarrow> (db_error + unit) \<times> world) list" where
  "move_steps settings slug r dst =
     (let n = row_dbname r in
      [create_role dst n,
       dump_restore settings (row_server r) dst n,
       alter_database (\<lambda>d. d\<lparr>conn_limit := plan_limit (row_plan r)\<rparr>) dst n,
       alter_database (\<lambda>d. d\<lparr>timeout := plan_timeout (row_plan r)\<rparr>) dst n,
       point_to slug dst,
       drop_database False (row_server r) n,
       drop_role False (row_server r) n])"

definition move_tenant :: "outcome \<Rightarrow> (nat \<Rightarrow> outcome) \<Rightarrow> (dbase \<Rightarrow> dbase) \<Rightarrow> string \<Rightarrow> string \<Rightarrow> world \<Rightarrow> unit option \<times> world" where
  "move_tenant rl env settings slug dst s =
     (case lookup rl slug s of
        None \<Rightarrow> (None, s)
      | Some r \<Rightarrow> run_steps env (move_steps settings slug r dst) (drop_pool slug s))"

definition offboard :: "outcome \<Rightarrow> (nat \<Rightarrow> outcome) \<Rightarrow> string \<Rightarrow> world \<Rightarrow> unit option \<times> world" where
  "offboard rl env slug s =
     (case lookup rl slug s of
        None \<Rightarrow> (None, s)
      | Some r \<Rightarrow> run_steps env
          [drop_database True (row_server r) (row_dbname r),
           drop_role True (row_server r) (row_dbname r),
           \<lambda>s. (Inr (), s\<lparr>control := (control s)(slug := None)\<rparr>)] (drop_pool slug s))"

text \<open>\<open>migrate\<close> in one tenant database: \<open>Inr True\<close> when the DDL was applied.\<close>

definition migrate_tx :: "(nat \<Rightarrow> outcome) \<Rightarrow> nat \<Rightarrow> (dbase \<Rightarrow> db_error + dbase) \<Rightarrow> dbase \<Rightarrow> (db_error + bool) \<times> dbase" where
  "migrate_tx env v ddl =
     bind_tx (stmt (env 0) (\<lambda>d. (Inr (v \<in> versions d), d))) (\<lambda>has.
     if has then (\<lambda>d. (Inr False, d))
     else bind_tx (stmt (env 1) (\<lambda>d. case ddl d of Inl e \<Rightarrow> (Inl e, d) | Inr d' \<Rightarrow> (Inr (), d'))) (\<lambda>_.
          stmt (env 2) (\<lambda>d. if v \<in> versions d then (Inl (Sqlstate ''23505''), d)
             else (Inr True, d\<lparr>versions := insert v (versions d)\<rparr>))))"

text \<open>A statement or a transaction on a tenant's pool.\<close>

definition on_pool :: "string \<times> string \<Rightarrow> (dbase \<Rightarrow> (db_error + 'a) \<times> dbase) \<Rightarrow> world \<Rightarrow> (db_error + 'a) \<times> world" where
  "on_pool p f s =
     (case databases s p of
        None \<Rightarrow> (Inl (Sqlstate ''3D000''), s)
      | Some d \<Rightarrow> (case f d of (r, d') \<Rightarrow> (r, s\<lparr>databases := (databases s)(p \<mapsto> d')\<rparr>)))"

text \<open>
  \<open>migrate\<close> over all tenants: per tenant the answers to the lookup, the ping and the transaction. \<open>None\<close> is fatal.
  The answer to the query for the slugs may fail at once, or while the rows are collected, which the code ignores.
\<close>

record migrate_env =
  looked_up :: outcome
  pinged :: outcome
  began :: outcome
  committed :: outcome
  answers :: "nat \<Rightarrow> outcome"

fun migrate_loop :: "(nat \<Rightarrow> migrate_env) \<Rightarrow> nat \<Rightarrow> (dbase \<Rightarrow> db_error + dbase) \<Rightarrow> string list \<Rightarrow> nat \<Rightarrow> world \<Rightarrow> nat option \<times> world" where
  "migrate_loop env v ddl [] k s = (Some k, s)"
| "migrate_loop env v ddl (slug # slugs) k s =
     (case get_pool (looked_up (env 0)) (pinged (env 0)) slug s of
        (Some (Inr p), s1) \<Rightarrow>
          (case on_pool p (begin_func (began (env 0)) (committed (env 0)) (migrate_tx (answers (env 0)) v ddl)) s1 of
             (Inl e, s2) \<Rightarrow> (None, s2)
           | (Inr did, s2) \<Rightarrow> migrate_loop (env \<circ> Suc) v ddl slugs (if did then Suc k else k) s2)
      | (_, s1) \<Rightarrow> (None, s1))"

definition migrate :: "db_error + (db_error + string list) \<Rightarrow> (nat \<Rightarrow> migrate_env) \<Rightarrow> nat \<Rightarrow> (dbase \<Rightarrow> db_error + dbase) \<Rightarrow> world \<Rightarrow> nat option \<times> world" where
  "migrate names env v ddl s = (case names of
     Inl e \<Rightarrow> (None, s)
   | Inr (Inl e) \<Rightarrow> migrate_loop env v ddl [] 0 s
   | Inr (Inr slugs) \<Rightarrow> migrate_loop env v ddl slugs 0 s)"

text \<open>The invoices that \<open>main\<close> gives a new tenant.\<close>

definition add_invoices :: "outcome \<Rightarrow> string \<Rightarrow> dbase \<Rightarrow> (db_error + unit) \<times> dbase" where
  "add_invoices x slug d = (query x (), if applied x then
     d\<lparr>invoices := invoices d @ map (\<lambda>g. (slug @ ''-cust-'' @ dec g, int g * 10)) [1..<51]\<rparr> else d)"

definition seed_invoices :: "outcome \<Rightarrow> outcome \<Rightarrow> outcome \<Rightarrow> string \<Rightarrow> world \<Rightarrow> unit option \<times> world" where
  "seed_invoices rl rp x slug s =
     (case get_pool rl rp slug s of
        (Some (Inr p), s1) \<Rightarrow>
          (case on_pool p (add_invoices x slug) s1 of
             (Inl e, s2) \<Rightarrow> (None, s2)
           | (Inr u, s2) \<Rightarrow> (Some (), s2))
      | (_, s1) \<Rightarrow> (None, s1))"

text \<open>
  \<open>reset\<close>. A catalogue query that fails is fatal; one that breaks off while its rows are collected
  counts as an empty list.
\<close>

definition like_tenant :: "string \<Rightarrow> bool" where
  "like_tenant n = has_prefix n ''tenant_''"

definition listed :: "db_error + (db_error + string list) \<Rightarrow> (string \<Rightarrow> bool) \<Rightarrow> world \<Rightarrow> string list option \<times> world" where
  "listed a P s = (case a of Inl e \<Rightarrow> (None, s) | Inr (Inl e) \<Rightarrow> (Some [], s) | Inr (Inr names) \<Rightarrow> (Some (filter P names), s))"

record reset_env =
  dbs_found :: "db_error + (db_error + string list)"
  db_drops :: "nat \<Rightarrow> outcome"
  roles_found :: "db_error + (db_error + string list)"
  role_drops :: "nat \<Rightarrow> outcome"

definition reset_server :: "reset_env \<Rightarrow> string \<Rightarrow> world \<Rightarrow> unit option \<times> world" where
  "reset_server e sv =
     and_then (listed (dbs_found e) (\<lambda>n. like_tenant n \<and> n \<noteq> ''tenant_template'')) (\<lambda>dbs.
     and_then (run_steps (db_drops e) (map (drop_database False sv) dbs)) (\<lambda>_.
     and_then (listed (roles_found e) like_tenant) (\<lambda>rls.
     run_steps (role_drops e) (map (drop_role False sv) rls))))"

definition reset :: "(string \<Rightarrow> reset_env) \<Rightarrow> outcome \<Rightarrow> world \<Rightarrow> unit option \<times> world" where
  "reset e rt =
     and_then (reset_server (e ''server_a'') ''server_a'') (\<lambda>_.
     and_then (reset_server (e ''server_b'') ''server_b'') (\<lambda>_.
     must rt (\<lambda>s. s\<lparr>control := Map.empty\<rparr>)))"

section \<open>A pool per tenant\<close>

text \<open>\<open>explode\<close>: small tenants until a pool fails; the answers of provision and of the pool per tenant.\<close>

definition small_slug :: "nat \<Rightarrow> string" where
  "small_slug i = ''small'' @ [digit (i div 10 mod 10), digit (i mod 10)]"

fun explode_loop :: "(nat \<Rightarrow> nat \<Rightarrow> outcome) \<Rightarrow> nat \<Rightarrow> nat \<Rightarrow> nat \<Rightarrow> world \<Rightarrow> nat option \<times> world" where
  "explode_loop env 0 i opened s = (Some opened, s)"
| "explode_loop env (Suc k) i opened s =
     (case provision (env i) (small_slug i) ''server_a'' ''standard'' s of
        (None, s1) \<Rightarrow> (None, s1)
      | (Some _, s1) \<Rightarrow>
          (case get_pool (env i 7) (env i 8) (small_slug i) s1 of
             (None, s2) \<Rightarrow> (None, s2)
           | (Some (Inl e), s2) \<Rightarrow> (Some opened, s2)
           | (Some (Inr _), s2) \<Rightarrow> explode_loop env k (Suc i) (Suc opened) s2))"

definition explode :: "(nat \<Rightarrow> nat \<Rightarrow> outcome) \<Rightarrow> world \<Rightarrow> nat option \<times> world" where
  "explode env s =
     (case explode_loop env 40 0 0 s of
        (None, s1) \<Rightarrow> (None, s1)
      | (Some n, s1) \<Rightarrow> (Some n, fold (\<lambda>i. drop_pool (small_slug i)) [0..<40] s1))"

section \<open>Steps one by one\<close>

lemma step_Inr:
  "create_role sv n s = (Inr u, s') \<longleftrightarrow> (sv, n) \<notin> roles s \<and> s' = s\<lparr>roles := insert (sv, n) (roles s)\<rparr>"
  "create_database sv n s = (Inr u, s') \<longleftrightarrow> databases s (sv, n) = None \<and>
     s' = s\<lparr>databases := (databases s)((sv, n) \<mapsto> template\<lparr>owner := n\<rparr>)\<rparr>"
  "alter_database f sv n s = (Inr u, s') \<longleftrightarrow> (\<exists>d. databases s (sv, n) = Some d \<and>
     s' = s\<lparr>databases := (databases s)((sv, n) \<mapsto> f d)\<rparr>)"
  "drop_database b sv n s = (Inr u, s') \<longleftrightarrow> (databases s (sv, n) \<noteq> None \<or> b) \<and> s' = s\<lparr>databases := (databases s)((sv, n) := None)\<rparr>"
  "drop_role b sv n s = (Inr u, s') \<longleftrightarrow> ((sv, n) \<in> roles s \<or> b) \<and> s' = s\<lparr>roles := roles s - {(sv, n)}\<rparr>"
  "point_to slug sv s = (Inr u, s') \<longleftrightarrow>
     s' = s\<lparr>control := (control s)(slug := map_option (\<lambda>r. r\<lparr>row_server := sv\<rparr>) (control s slug))\<rparr>"
  "dump_restore settings src dst n s = (Inr u, s') \<longleftrightarrow> databases s (dst, n) = None \<and> (\<exists>d. databases s (src, n) = Some d \<and>
     s' = s\<lparr>databases := (databases s)((dst, n) \<mapsto>
       (settings d)\<lparr>owner := owner d, tables_owner := tables_owner d, invoices := invoices d, versions := versions d\<rparr>)\<rparr>)"
  by (auto simp: create_role_def create_database_def alter_database_def drop_database_def drop_role_def point_to_def
      dump_restore_def split: option.split)

lemma auto_stmt_cases:
  "snd (auto_stmt r f s) = s \<or> (\<exists>u. f s = (Inr u, snd (auto_stmt r f s)))"
  by (auto simp: auto_stmt_def split: sum.splits prod.splits)

lemma auto_stmt_None: "auto_stmt r f s = (None, s') \<Longrightarrow> f s = (Inr (), s')"
  by (auto simp: auto_stmt_def split: if_splits sum.splits prod.splits)

text \<open>Wherever a sequence stops, what holds before and after every step that was applied holds.\<close>

lemma run_steps_always:
  assumes "Q s" and "\<And>env s'. f s = (Inr (), s') \<Longrightarrow> Q s' \<and> Q (snd (run_steps env fs s'))"
  shows "Q (snd (run_steps env (f # fs) s))"
proof (cases "auto_stmt (env 0) f s")
  case (Pair e t)
  with auto_stmt_cases [of "env 0" f s] have t: "t = s \<or> f s = (Inr (), t)" by auto
  show ?thesis
  proof (cases e)
    case None
    with Pair auto_stmt_None have "f s = (Inr (), t)" by blast
    with Pair None assms(2) show ?thesis by simp
  next
    case (Some x)
    from t show ?thesis using Pair Some assms by auto
  qed
qed

lemma run_steps_ok_Cons: "run_steps env (f # fs) s = (Some (), s'') \<Longrightarrow>
  \<exists>s'. f s = (Inr (), s') \<and> run_steps (env \<circ> Suc) fs s' = (Some (), s'')"
  by (auto split: prod.splits option.splits dest: auto_stmt_None)

text \<open>A relation to the start that every step keeps.\<close>

lemma run_steps_invariant:
  assumes "Q s" and "\<And>f s s'. f \<in> set fs \<Longrightarrow> Q s \<Longrightarrow> f s = (Inr (), s') \<Longrightarrow> Q s'"
  shows "Q (snd (run_steps env fs s))"
  using assms
proof (induction fs arbitrary: env s)
  case (Cons f fs)
  have "Q s' \<and> Q (snd (run_steps env fs s'))" if "f s = (Inr (), s')" for env s'
  proof
    show "Q s'" using Cons.prems that by auto
    then show "Q (snd (run_steps env fs s'))"
      by (rule Cons.IH) (use Cons.prems(2) in \<open>meson list.set_intros(2)\<close>)
  qed
  from run_steps_always [OF Cons.prems(1) this] show ?case .
qed simp

text \<open>A chain of assertions between the steps, each of which implies \<open>Q\<close>: \<open>Q\<close> holds wherever the sequence stops.\<close>

fun chained :: "(world \<Rightarrow> bool) \<Rightarrow> (world \<Rightarrow> bool) \<Rightarrow> ((world \<Rightarrow> (db_error + unit) \<times> world) \<times> (world \<Rightarrow> bool)) list \<Rightarrow> bool" where
  "chained Q P [] = (\<forall>s. P s \<longrightarrow> Q s)"
| "chained Q P ((f, R) # fs) = ((\<forall>s. P s \<longrightarrow> Q s) \<and> (\<forall>s s'. P s \<longrightarrow> f s = (Inr (), s') \<longrightarrow> R s') \<and> chained Q R fs)"

lemma chained_Q: "chained Q P fs \<Longrightarrow> P s \<Longrightarrow> Q s"
  by (cases "(Q, P, fs)" rule: chained.cases) auto

lemma run_steps_chain: "chained Q P fs \<Longrightarrow> P s \<Longrightarrow> Q (snd (run_steps env (map fst fs) s))"
proof (induction Q P fs arbitrary: env s rule: chained.induct)
  case (2 Q P f R fs)
  from 2(2) have c: "chained Q R fs" "\<And>s s'. P s \<Longrightarrow> f s = (Inr (), s') \<Longrightarrow> R s'" by auto
  have "Q s' \<and> Q (snd (run_steps env (map fst fs) s'))" if f: "f s = (Inr (), s')" for env s'
    using c(2) [OF 2(3) f] chained_Q [OF c(1)] "2.IH" [OF c(1)] by blast
  from run_steps_always [of Q, OF chained_Q [OF 2(2,3)] this] show ?case by simp
qed simp

section \<open>Moving a tenant\<close>

text \<open>The catalogue leads to a database with these contents.\<close>

definition reachable :: "string \<Rightarrow> (string \<times> int) list \<Rightarrow> nat set \<Rightarrow> world \<Rightarrow> bool" where
  "reachable slug rows vs s \<longleftrightarrow> (case control s slug of
     None \<Rightarrow> False
   | Some r \<Rightarrow> (case databases s (row_server r, row_dbname r) of
       None \<Rightarrow> False | Some d \<Rightarrow> invoices d = rows \<and> versions d = vs))"

definition globex_row :: row where
  "globex_row = \<lparr>row_server = ''server_a'', row_dbname = tenant_name ''globex'', row_plan = ''standard''\<rparr>"

definition small_world :: world where
  "small_world = \<lparr>control = [''globex'' \<mapsto> globex_row],
     databases = [(''server_a'', tenant_name ''globex'') \<mapsto> template\<lparr>owner := tenant_name ''globex'', conn_limit := 3, invoices := [(''c'', 10)]\<rparr>],
     roles = {(''server_a'', tenant_name ''globex'')}, pools = [''globex'' \<mapsto> (''server_a'', tenant_name ''globex'')]\<rparr>"

text \<open>The three phases of a move of the tenant with row \<open>r\<close>.\<close>

definition before_copy :: "string \<Rightarrow> row \<Rightarrow> (string \<times> int) list \<Rightarrow> nat set \<Rightarrow> world \<Rightarrow> bool" where
  "before_copy slug r rows vs s \<longleftrightarrow> control s slug = Some r \<and> reachable slug rows vs s"

definition copied :: "string \<Rightarrow> row \<Rightarrow> string \<Rightarrow> (string \<times> int) list \<Rightarrow> nat set \<Rightarrow> world \<Rightarrow> bool" where
  "copied slug r dst rows vs s \<longleftrightarrow> before_copy slug r rows vs s \<and>
     (\<exists>d. databases s (dst, row_dbname r) = Some d \<and> invoices d = rows \<and> versions d = vs)"

definition moved :: "string \<Rightarrow> row \<Rightarrow> string \<Rightarrow> (string \<times> int) list \<Rightarrow> nat set \<Rightarrow> world \<Rightarrow> bool" where
  "moved slug r dst rows vs s \<longleftrightarrow> control s slug = Some (r\<lparr>row_server := dst\<rparr>) \<and> reachable slug rows vs s"

lemmas phases = before_copy_def copied_def moved_def reachable_def

lemma phase_role: "before_copy slug r rows vs s \<Longrightarrow> create_role sv n s = (Inr (), s') \<Longrightarrow> before_copy slug r rows vs s'"
  by (clarsimp simp: step_Inr phases)

lemma phase_copy:
  "before_copy slug r rows vs s \<Longrightarrow> row_server r \<noteq> dst \<Longrightarrow> dump_restore settings (row_server r) dst (row_dbname r) s = (Inr (), s') \<Longrightarrow>
   copied slug r dst rows vs s'"
  by (clarsimp simp: step_Inr phases)

lemma phase_alter:
  "copied slug r dst rows vs s \<Longrightarrow> row_server r \<noteq> dst \<Longrightarrow> alter_database f dst (row_dbname r) s = (Inr (), s') \<Longrightarrow>
   (\<And>d. invoices (f d) = invoices d \<and> versions (f d) = versions d) \<Longrightarrow> copied slug r dst rows vs s'"
  by (clarsimp simp: step_Inr phases)

lemma phase_switch: "copied slug r dst rows vs s \<Longrightarrow> point_to slug dst s = (Inr (), s') \<Longrightarrow> moved slug r dst rows vs s'"
  by (clarsimp simp: step_Inr phases)

lemma phase_drop:
  "moved slug r dst rows vs s \<Longrightarrow> row_server r \<noteq> dst \<Longrightarrow> drop_database b (row_server r) n s = (Inr (), s') \<Longrightarrow> moved slug r dst rows vs s'"
  "moved slug r dst rows vs s \<Longrightarrow> drop_role b sv n s = (Inr (), s') \<Longrightarrow> moved slug r dst rows vs s'"
  by (clarsimp simp: step_Inr phases)+

lemma move_chained:
  assumes "row_server r \<noteq> dst"
  shows "chained (reachable slug rows vs) (before_copy slug r rows vs)
    (zip (move_steps settings slug r dst)
      [before_copy slug r rows vs, copied slug r dst rows vs, copied slug r dst rows vs, copied slug r dst rows vs,
       moved slug r dst rows vs, moved slug r dst rows vs, moved slug r dst rows vs])"
proof -
  have q: "before_copy slug r rows vs s \<Longrightarrow> reachable slug rows vs s" "copied slug r dst rows vs s \<Longrightarrow> reachable slug rows vs s"
    "moved slug r dst rows vs s \<Longrightarrow> reachable slug rows vs s" for s
    by (simp_all add: before_copy_def copied_def moved_def)
  show ?thesis
    unfolding move_steps_def Let_def zip_Cons_Cons zip.simps(1) chained.simps
    by (intro conjI allI impI)
      (erule q | erule (1) phase_role | erule phase_copy, rule assms, assumption | erule phase_alter, rule assms, assumption, simp |
       erule (1) phase_switch | erule phase_drop(1), rule assms, assumption | erule (1) phase_drop(2))+
qed

text \<open>C31: Wherever a move stops, the catalogue leads to a database that holds the tenant's data: the original
  is dropped only after the catalogue points to a complete copy.\<close>

theorem move_keeps_data:
  assumes "control s slug = Some r" and "row_server r \<noteq> dst" and "reachable slug rows vs s"
  shows "reachable slug rows vs (snd (move_tenant rl env settings slug dst s))"
proof (cases "lookup rl slug s")
  case None
  with assms show ?thesis by (simp add: move_tenant_def)
next
  case (Some r')
  then have r': "r' = r" using assms(1) by (cases rl) (auto simp: lookup_def query_def)
  have "before_copy slug r rows vs (drop_pool slug s)"
    using assms(1,3) by (simp add: phases drop_pool_def)
  from run_steps_chain [OF move_chained [OF assms(2)] this, of env settings]
  have "reachable slug rows vs (snd (run_steps env (move_steps settings slug r dst) (drop_pool slug s)))"
    by (simp only: map_fst_zip move_steps_def Let_def list.size)
  then show ?thesis by (simp add: move_tenant_def Some r')
qed

theorem move_keeps_data_witness:
  "reachable ''globex'' [(''c'', 10)] {1}
     (snd (move_tenant Done (\<lambda>i. if i = 4 then Lost Transport else Done) id ''globex'' ''server_b'' small_world))"
  by (rule move_keeps_data [of _ _ globex_row]) (simp_all add: small_world_def globex_row_def reachable_def template_def)

lemma move_effect:
  assumes "control s slug = Some r" and "row_server r \<noteq> dst" and "databases s (row_server r, row_dbname r) = Some d"
    and "move_tenant rl env settings slug dst s = (Some (), s')"
  shows "\<exists>d'. invoices d' = invoices d \<and> versions d' = versions d \<and> owner d' = owner d \<and>
      conn_limit d' = plan_limit (row_plan r) \<and> timeout d' = plan_timeout (row_plan r) \<and>
      databases s' = (databases s)((dst, row_dbname r) \<mapsto> d', (row_server r, row_dbname r) := None) \<and> pools s' = (pools s)(slug := None) \<and>
      control s' = (control s)(slug \<mapsto> r\<lparr>row_server := dst\<rparr>)"
proof -
  from assms(4) have l: "lookup rl slug s = Some r"
    using assms(1) by (cases rl) (auto simp: move_tenant_def lookup_def query_def split: option.splits)
  from assms(4) have "run_steps env (move_steps settings slug r dst) (drop_pool slug s) = (Some (), s')"
    by (simp add: move_tenant_def l)
  then show ?thesis
    unfolding move_steps_def Let_def
    using assms(1-3)
    by (elim run_steps_ok_Cons [THEN exE] conjE, intro exI [of _ "(settings d)\<lparr>owner := owner d, tables_owner := tables_owner d,
        invoices := invoices d, versions := versions d, conn_limit := plan_limit (row_plan r), timeout := plan_timeout (row_plan r)\<rparr>"])
      (auto simp: step_Inr drop_pool_def)
qed

text \<open>A move that returns has the tenant on the new server with its data and the limits of its plan,
  whatever the dump carries over, the old database is gone, and the next request opens a pool there.\<close>

theorem move_result:
  assumes "control s slug = Some r" and "row_server r \<noteq> dst" and "reachable slug rows vs s"
    and "move_tenant rl env settings slug dst s = (Some (), s')"
  shows "databases s' (row_server r, row_dbname r) = None \<and>
    (\<exists>d. databases s' (dst, row_dbname r) = Some d \<and> invoices d = rows \<and> versions d = vs \<and>
       conn_limit d = plan_limit (row_plan r) \<and> timeout d = plan_timeout (row_plan r)) \<and>
    fst (get_pool Done Done slug s') = Some (Inr (dst, row_dbname r))"
proof -
  let ?n = "row_dbname r"
  from assms(3,1) obtain d where d: "databases s (row_server r, ?n) = Some d" "invoices d = rows" "versions d = vs"
    by (auto simp: reachable_def split: option.splits)
  from move_effect [OF assms(1,2) d(1) assms(4)] d(2,3)
  have "\<exists>d'. invoices d' = rows \<and> versions d' = vs \<and> conn_limit d' = plan_limit (row_plan r) \<and> timeout d' = plan_timeout (row_plan r) \<and>
      databases s' = (databases s)((dst, ?n) \<mapsto> d', (row_server r, ?n) := None) \<and> pools s' = (pools s)(slug := None) \<and>
      control s' = (control s)(slug \<mapsto> r\<lparr>row_server := dst\<rparr>)"
    by metis
  with assms(2) show ?thesis
    by (auto simp: get_pool_def lookup_def query_simps Let_def)
qed

theorem move_result_witness:
  "fst (get_pool Done Done ''globex'' (snd (move_tenant Done (\<lambda>_. Done) id ''globex'' ''server_b'' small_world))) =
     Some (Inr (''server_b'', tenant_name ''globex''))"
proof -
  define s' where "s' = snd (move_tenant Done (\<lambda>_. Done) id ''globex'' ''server_b'' small_world)"
  have "fst (move_tenant Done (\<lambda>_. Done) id ''globex'' ''server_b'' small_world) = Some ()"
    by (simp add: move_tenant_def lookup_def query_simps small_world_def globex_row_def move_steps_def Let_def auto_stmt_def
        create_role_def dump_restore_def alter_database_def point_to_def drop_database_def drop_role_def drop_pool_def template_def)
  then have m: "move_tenant Done (\<lambda>_. Done) id ''globex'' ''server_b'' small_world = (Some (), s')"
    unfolding s'_def by (metis prod.collapse)
  have "control small_world ''globex'' = Some globex_row" "row_server globex_row \<noteq> ''server_b''"
    "reachable ''globex'' [(''c'', 10)] {1} small_world"
    by (simp_all add: small_world_def globex_row_def reachable_def template_def)
  from move_result [OF this m] show ?thesis by (simp add: s'_def [symmetric] globex_row_def)
qed

lemma move_parts:
  "take 4 (move_steps settings slug r dst) =
     [create_role dst (row_dbname r), dump_restore settings (row_server r) dst (row_dbname r),
      alter_database (\<lambda>d. d\<lparr>conn_limit := plan_limit (row_plan r)\<rparr>) dst (row_dbname r),
      alter_database (\<lambda>d. d\<lparr>timeout := plan_timeout (row_plan r)\<rparr>) dst (row_dbname r)]"
  "drop 4 (move_steps settings slug r dst) =
     [point_to slug dst, drop_database False (row_server r) (row_dbname r), drop_role False (row_server r) (row_dbname r)]"
  by (simp_all add: move_steps_def Let_def)

text \<open>\<open>moveTenant\<close> drops the cached pool first and holds no lock: a request that opens the pool again
  while the copy runs caches the old location, and every later request gets that pool although the
  database behind it is gone.\<close>

theorem pool_opened_during_move_is_stale:
  assumes "control s slug = Some r" and "row_server r \<noteq> dst"
    and "run_steps env (take 4 (move_steps settings slug r dst)) (drop_pool slug s) = (Some (), s1)"
    and "get_pool Done Done slug s1 = (Some (Inr p), s2)"
    and "run_steps env' (drop 4 (move_steps settings slug r dst)) s2 = (Some (), s3)"
  shows "fst (get_pool Done Done slug s3) = Some (Inr (row_server r, row_dbname r)) \<and>
    databases s3 (row_server r, row_dbname r) = None"
proof -
  have "control s1 slug = Some r \<and> pools s1 slug = None"
    using assms(1,3) unfolding move_parts
    by (elim run_steps_ok_Cons [THEN exE] conjE) (auto simp: step_Inr drop_pool_def)
  with assms(4) have "pools s2 slug = Some (row_server r, row_dbname r)"
    by (auto simp: get_pool_def lookup_def query_simps Let_def split: if_splits)
  moreover have "pools s3 = pools s2 \<and> databases s3 (row_server r, row_dbname r) = None"
    using assms(5) unfolding move_parts
    by (elim run_steps_ok_Cons [THEN exE] conjE) (auto simp: step_Inr)
  ultimately show ?thesis by (simp add: get_pool_def)
qed

theorem pool_opened_during_move_is_stale_witness:
  "\<exists>s3. fst (get_pool Done Done ''globex'' s3) = Some (Inr (''server_a'', tenant_name ''globex'')) \<and>
     databases s3 (''server_a'', tenant_name ''globex'') = None"
proof -
  let ?steps = "move_steps id ''globex'' globex_row ''server_b''"
  note defs = small_world_def globex_row_def move_parts auto_stmt_def Let_def create_role_def dump_restore_def alter_database_def
    point_to_def drop_database_def drop_role_def drop_pool_def template_def get_pool_def lookup_def query_simps
  define s1 where "s1 = snd (run_steps (\<lambda>_. Done) (take 4 ?steps) (drop_pool ''globex'' small_world))"
  have r1: "fst (run_steps (\<lambda>_. Done) (take 4 ?steps) (drop_pool ''globex'' small_world)) = Some ()"
    by (simp add: defs)
  define s2 where "s2 = snd (get_pool Done Done ''globex'' s1)"
  have r2: "fst (get_pool Done Done ''globex'' s1) = Some (Inr (''server_a'', tenant_name ''globex''))"
    by (simp add: s1_def defs)
  define s3 where "s3 = snd (run_steps (\<lambda>_. Done) (drop 4 ?steps) s2)"
  have r3: "fst (run_steps (\<lambda>_. Done) (drop 4 ?steps) s2) = Some ()"
    by (simp add: s2_def s1_def defs)
  have "control small_world ''globex'' = Some globex_row" "row_server globex_row \<noteq> ''server_b''"
    by (simp_all add: small_world_def globex_row_def)
  from pool_opened_during_move_is_stale [OF this prod_eqI [of _ "(_, _)", simplified, OF r1 s1_def [symmetric]]
      prod_eqI [of _ "(_, _)", simplified, OF r2 s2_def [symmetric]] prod_eqI [of _ "(_, _)", simplified, OF r3 s3_def [symmetric]]]
  show ?thesis by (auto simp: globex_row_def)
qed

section \<open>The router's cache\<close>

definition pools_ok :: "world \<Rightarrow> bool" where
  "pools_ok s \<longleftrightarrow> (\<forall>slug p. pools s slug = Some p \<longrightarrow> (\<exists>r. control s slug = Some r \<and> p = (row_server r, row_dbname r)))"

datatype tenant_op =
    Provision "nat \<Rightarrow> outcome" string string string
  | Open outcome outcome string
  | Move outcome "nat \<Rightarrow> outcome" "dbase \<Rightarrow> dbase" string string
  | Offboard outcome "nat \<Rightarrow> outcome" string

fun run_op :: "tenant_op \<Rightarrow> world \<Rightarrow> world" where
  "run_op (Provision env slug sv plan) s = snd (provision env slug sv plan s)"
| "run_op (Open rl rp slug) s = snd (get_pool rl rp slug s)"
| "run_op (Move rl env settings slug dst) s = snd (move_tenant rl env settings slug dst s)"
| "run_op (Offboard rl env slug) s = snd (offboard rl env slug s)"

text \<open>Only \<open>slug\<close>'s row may change, and no pool is cached for it.\<close>

definition quiet :: "string \<Rightarrow> world \<Rightarrow> bool" where
  "quiet slug s \<longleftrightarrow> pools_ok s \<and> pools s slug = None"

lemma quiet_steps:
  assumes "quiet slug s" and "f \<in> {create_role sv n, create_database sv n, alter_database g sv n, drop_database b sv n,
    drop_role b sv n, dump_restore h src dst n, point_to slug sv, insert_tenant slug r, \<lambda>s. (Inr (), s\<lparr>control := (control s)(slug := None)\<rparr>)}"
    and "f s = (Inr (), s')"
  shows "quiet slug s'"
proof -
  from assms(2,3) have "pools s' = pools s \<and> (\<forall>k. k \<noteq> slug \<longrightarrow> control s' k = control s k)"
    by (auto simp: step_Inr insert_tenant_def split: if_splits)
  with assms(1) show ?thesis by (auto simp: quiet_def pools_ok_def) (metis option.distinct(1))
qed

lemma quiet_forget: "quiet slug s \<Longrightarrow> quiet slug (s\<lparr>control := (control s)(slug := None)\<rparr>)"
  by (rule quiet_steps [where f = "\<lambda>s. (Inr (), s\<lparr>control := (control s)(slug := None)\<rparr>)"]) simp_all

lemma drop_pool_quiet: "pools_ok s \<Longrightarrow> quiet slug (drop_pool slug s)"
  by (auto simp: quiet_def pools_ok_def drop_pool_def)

lemma run_steps_quiet:
  assumes "quiet slug s" and "\<And>f s s'. f \<in> set fs \<Longrightarrow> quiet slug s \<Longrightarrow> f s = (Inr (), s') \<Longrightarrow> quiet slug s'"
  shows "pools_ok (snd (run_steps env fs s))"
  using run_steps_invariant [of "quiet slug", OF assms] by (simp add: quiet_def)

lemma run_op_pools:
  assumes "pools_ok s"
  shows "pools_ok (run_op op s)"
proof (cases op)
  case (Provision env slug sv plan)
  have "pools_ok (snd (run_steps env (provision_steps slug sv plan) s))"
  proof (rule run_steps_invariant [of pools_ok, OF assms])
    fix f t t' assume f: "f \<in> set (provision_steps slug sv plan)" "pools_ok t" "f t = (Inr (), t')"
    from f(1,3) have "pools t' = pools t \<and> (\<forall>k. control t k \<noteq> None \<longrightarrow> control t' k = control t k)"
      by (auto simp: provision_steps_def Let_def step_Inr insert_tenant_def split: if_splits)
    with f(2) show "pools_ok t'" unfolding pools_ok_def by (metis option.distinct(1))
  qed
  with Provision assms show ?thesis by (simp add: provision_def)
next
  case (Open rl rp slug)
  with assms show ?thesis
    by (auto simp: get_pool_def lookup_def pools_ok_def Let_def query_def split: option.splits)
next
  case (Move rl env settings slug dst)
  have "pools_ok (snd (run_steps env (move_steps settings slug r dst) (drop_pool slug s)))" for r
    by (rule run_steps_quiet [OF drop_pool_quiet [OF assms]])
      (auto simp: move_steps_def Let_def elim: quiet_steps [rotated 2])
  with Move assms show ?thesis by (simp add: move_tenant_def split: option.split)
next
  case (Offboard rl env slug)
  have "pools_ok (snd (run_steps env [drop_database True sv n, drop_role True sv n,
      \<lambda>s. (Inr (), s\<lparr>control := (control s)(slug := None)\<rparr>)] (drop_pool slug s)))" for sv n
    by (rule run_steps_quiet [OF drop_pool_quiet [OF assms]]) (auto elim: quiet_steps [rotated 2] quiet_forget)
  with Offboard assms show ?thesis by (simp add: offboard_def split: option.split)
qed

text \<open>As long as control-plane operations and requests run one after the other, every cached pool connects
  to the place the catalogue names, whatever fails.\<close>

theorem cached_pools_follow_catalogue:
  assumes "pools_ok s" and "pools (fold run_op ops s) slug = Some p"
  shows "\<exists>r. control (fold run_op ops s) slug = Some r \<and> p = (row_server r, row_dbname r)"
proof -
  have "pools_ok (fold run_op ops s)"
    using assms(1) by (induction ops arbitrary: s) (auto simp: run_op_pools)
  with assms(2) show ?thesis unfolding pools_ok_def by blast
qed

theorem cached_pools_follow_catalogue_witness:
  "\<exists>r. control (fold run_op [Move Done (\<lambda>_. Done) id ''globex'' ''server_b'', Open Done Done ''globex''] small_world) ''globex'' = Some r \<and>
     pools (fold run_op [Move Done (\<lambda>_. Done) id ''globex'' ''server_b'', Open Done Done ''globex''] small_world) ''globex'' =
       Some (row_server r, row_dbname r)"
proof -
  let ?ops = "[Move Done (\<lambda>_. Done) id ''globex'' ''server_b'', Open Done Done ''globex'']"
  have ok: "pools_ok small_world" by (simp add: pools_ok_def small_world_def globex_row_def)
  have "pools (fold run_op ?ops small_world) ''globex'' \<noteq> None"
    by (simp add: move_tenant_def lookup_def query_simps small_world_def globex_row_def move_steps_def Let_def auto_stmt_def
        create_role_def dump_restore_def alter_database_def point_to_def drop_database_def drop_role_def drop_pool_def
        template_def get_pool_def)
  then obtain p where "pools (fold run_op ?ops small_world) ''globex'' = Some p" by blast
  from cached_pools_follow_catalogue [OF ok this] this show ?thesis by blast
qed

section \<open>Migrating all tenants\<close>

definition migrated :: "nat \<Rightarrow> (dbase \<Rightarrow> db_error + dbase) \<Rightarrow> dbase \<Rightarrow> dbase \<Rightarrow> bool" where
  "migrated v ddl d d' \<longleftrightarrow> v \<notin> versions d \<and> (\<exists>x. ddl d = Inr x \<and> d' = x\<lparr>versions := insert v (versions x)\<rparr>)"

lemma migrate_tx_db:
  "migrate_tx env v ddl d = (Inr did, d') \<Longrightarrow> (if v \<in> versions d then \<not> did \<and> d' = d else did \<and> migrated v ddl d d')"
  by (auto simp: migrate_tx_def tx_simps migrated_def split: if_splits sum.splits)

lemma get_pool_frame: "databases (snd (get_pool rl rp slug s)) = databases s \<and> control (snd (get_pool rl rp slug s)) = control s"
  by (auto simp: get_pool_def Let_def split: option.splits)

text \<open>Every database is as before or migrated once.\<close>

definition grown :: "nat \<Rightarrow> (dbase \<Rightarrow> db_error + dbase) \<Rightarrow> world \<Rightarrow> world \<Rightarrow> bool" where
  "grown v ddl s s' \<longleftrightarrow> control s' = control s \<and> (\<forall>p. databases s' p = databases s p \<or>
     (\<exists>d d'. databases s p = Some d \<and> databases s' p = Some d' \<and> migrated v ddl d d'))"

lemma grown_keeps:
  assumes "grown v ddl s s'" "databases s p = Some d" "v \<in> versions d"
  shows "databases s' p = Some d"
proof -
  from assms(1) have "databases s' p = databases s p \<or> (\<exists>d d'. databases s p = Some d \<and> databases s' p = Some d' \<and> migrated v ddl d d')"
    unfolding grown_def by blast
  with assms(2,3) show ?thesis by (auto simp: migrated_def)
qed

lemma grown_refl [simp]: "grown v ddl s s"
  by (simp add: grown_def)

lemma grown_trans:
  assumes "grown v ddl s t" "grown v ddl t u"
  shows "grown v ddl s u"
  unfolding grown_def
proof (intro conjI allI)
  show "control u = control s" using assms by (simp add: grown_def)
next
  fix p
  have v: "v \<in> versions d'" if "migrated v ddl d d'" for d d' using that by (auto simp: migrated_def)
  have n: "v \<notin> versions d" if "migrated v ddl d d'" for d d' using that by (simp add: migrated_def)
  from assms have "databases t p = databases s p \<or> (\<exists>d d'. databases s p = Some d \<and> databases t p = Some d' \<and> migrated v ddl d d')"
    "databases u p = databases t p \<or> (\<exists>d d'. databases t p = Some d \<and> databases u p = Some d' \<and> migrated v ddl d d')"
    unfolding grown_def by blast+
  then show "databases u p = databases s p \<or> (\<exists>d d'. databases s p = Some d \<and> databases u p = Some d' \<and> migrated v ddl d d')"
    using v n by (metis option.inject)
qed

lemma on_pool_grown: "grown v ddl s (snd (on_pool p (begin_func rb rc (migrate_tx env v ddl)) s))"
proof (cases "databases s p")
  case None
  then show ?thesis by (simp add: on_pool_def)
next
  case (Some d)
  define d' where "d' = snd (begin_func rb rc (migrate_tx env v ddl) d)"
  have e: "snd (on_pool p (begin_func rb rc (migrate_tx env v ddl)) s) = s\<lparr>databases := (databases s)(p \<mapsto> d')\<rparr>"
    by (simp add: on_pool_def Some d'_def split: prod.split)
  have "d' = d \<or> migrated v ddl d d'"
    using tx.run_state [of rb rc "migrate_tx env v ddl" d] by (auto simp: d'_def dest!: migrate_tx_db split: if_splits)
  then show ?thesis unfolding e using Some by (auto simp: grown_def)
qed

lemma get_pool_grown: "grown v ddl s (snd (get_pool rl rp slug s))"
  by (simp add: grown_def get_pool_frame)

lemma migrate_loop_grown: "grown v ddl s (snd (migrate_loop env v ddl slugs k s))"
proof (induction slugs arbitrary: env k s)
  case (Cons slug slugs)
  obtain r s1 where g: "get_pool (looked_up (env 0)) (pinged (env 0)) slug s = (r, s1)" by fastforce
  then have g1: "grown v ddl s s1" using get_pool_grown [of v ddl s "looked_up (env 0)" "pinged (env 0)" slug] by simp
  show ?case
  proof (cases "\<exists>p. r = Some (Inr p)")
    case True
    then obtain p where r: "r = Some (Inr p)" by blast
    obtain x s2 where o: "on_pool p (begin_func (began (env 0)) (committed (env 0)) (migrate_tx (answers (env 0)) v ddl)) s1 = (x, s2)"
      by fastforce
    then have "grown v ddl s s2"
      using grown_trans [OF g1 on_pool_grown [of v ddl s1 p "began (env 0)" "committed (env 0)" "answers (env 0)"]] by simp
    with Cons show ?thesis by (cases x) (auto simp: g r o intro: grown_trans)
  next
    case False
    with g1 show ?thesis by (auto simp: g split: option.split sum.split)
  qed
qed simp

text \<open>Over any number of runs of the migration that fail or stop anywhere, no tenant database gets the change
  twice, and a changed one has its version recorded.\<close>

theorem database_migration_applies_once:
  "databases (fold (\<lambda>(names, env) s. snd (migrate names env v ddl s)) runs s) p = databases s p \<or>
   (\<exists>d x. databases s p = Some d \<and> v \<notin> versions d \<and> ddl d = Inr x \<and>
      databases (fold (\<lambda>(names, env) s. snd (migrate names env v ddl s)) runs s) p = Some (x\<lparr>versions := insert v (versions x)\<rparr>))"
proof -
  have step: "grown v ddl s (snd (migrate names env v ddl s))" for names env s
    by (simp add: migrate_def migrate_loop_grown split: sum.split)
  have "grown v ddl s (fold (\<lambda>(names, env) s. snd (migrate names env v ddl s)) runs s)"
  proof (induction runs arbitrary: s)
    case (Cons run runs)
    with grown_trans [OF step [of s "fst run" "snd run"]] show ?case by (simp add: split_beta)
  qed simp
  then show ?thesis unfolding grown_def migrated_def by blast
qed

definition located :: "world \<Rightarrow> string \<Rightarrow> (string \<times> string) option" where
  "located s slug = map_option (\<lambda>r. (row_server r, row_dbname r)) (control s slug)"

definition behind :: "nat \<Rightarrow> world \<Rightarrow> string \<Rightarrow> bool" where
  "behind v s slug \<longleftrightarrow> (case located s slug of None \<Rightarrow> False | Some p \<Rightarrow>
     (case databases s p of None \<Rightarrow> False | Some d \<Rightarrow> v \<notin> versions d))"

definition up_to_date :: "nat \<Rightarrow> world \<Rightarrow> string \<Rightarrow> bool" where
  "up_to_date v s slug \<longleftrightarrow> (case located s slug of None \<Rightarrow> False | Some p \<Rightarrow>
     (case databases s p of None \<Rightarrow> False | Some d \<Rightarrow> v \<in> versions d))"

lemma get_pool_located:
  assumes "pools_ok s" "get_pool rl rp slug s = (Some (Inr p), s1)"
  shows "located s slug = Some p \<and> databases s1 = databases s \<and> control s1 = control s \<and> pools_ok s1"
proof -
  from assms have "located s slug = Some p"
    by (cases p) (auto simp: get_pool_def lookup_def pools_ok_def located_def Let_def query_def split: option.splits if_splits, metis)
  moreover have "pools_ok s1" using run_op_pools [OF assms(1), of "Open rl rp slug"] assms(2) by simp
  ultimately show ?thesis using get_pool_frame [of rl rp slug s] assms(2) by simp
qed

lemma on_pool_migrate:
  assumes "on_pool p (begin_func rb rc (migrate_tx env v ddl)) s = (Inr did, s')"
  obtains d d' where "databases s p = Some d" "v \<in> versions d'" "did \<longleftrightarrow> v \<notin> versions d"
    "s' = s\<lparr>databases := (databases s)(p \<mapsto> d')\<rparr>"
proof -
  from assms obtain d d' where d: "databases s p = Some d" "begin_func rb rc (migrate_tx env v ddl) d = (Inr did, d')"
    "s' = s\<lparr>databases := (databases s)(p \<mapsto> d')\<rparr>"
    by (auto simp: on_pool_def split: option.splits prod.splits)
  from migrate_tx_db [OF tx.run_ok [OF d(2)]] have "v \<in> versions d'" "did \<longleftrightarrow> v \<notin> versions d"
    by (auto simp: migrated_def split: if_splits)
  with d that show thesis by blast
qed

lemma migrate_loop_result:
  assumes "pools_ok s" "distinct slugs" "inj_on (located s) (set slugs)" "migrate_loop env v ddl slugs k s = (Some k', s')"
  shows "k' = k + length (filter (behind v s) slugs) \<and> (\<forall>slug \<in> set slugs. up_to_date v s' slug) \<and>
    pools_ok s' \<and> control s' = control s"
  using assms
proof (induction slugs arbitrary: env k s)
  case (Cons slug slugs)
  from Cons.prems(4) obtain p s1 did s2 where
    g: "get_pool (looked_up (env 0)) (pinged (env 0)) slug s = (Some (Inr p), s1)" and
    o: "on_pool p (begin_func (began (env 0)) (committed (env 0)) (migrate_tx (answers (env 0)) v ddl)) s1 = (Inr did, s2)" and
    loop: "migrate_loop (env \<circ> Suc) v ddl slugs (if did then Suc k else k) s2 = (Some k', s')"
    by (auto split: prod.splits option.splits sum.splits)
  from get_pool_located [OF Cons.prems(1) g] have l: "located s slug = Some p" "databases s1 = databases s"
    "control s1 = control s" "pools_ok s1" by simp_all
  obtain d d' where d: "databases s p = Some d" "v \<in> versions d'" "did \<longleftrightarrow> v \<notin> versions d"
    and s2: "s2 = s1\<lparr>databases := (databases s1)(p \<mapsto> d')\<rparr>"
    using on_pool_migrate [OF o] l(2) by metis
  have c2: "control s2 = control s" "pools_ok s2" using l(3,4) by (simp_all add: s2 pools_ok_def)
  then have loc: "located s2 = located s" by (simp add: located_def fun_eq_iff)
  have other: "behind v s2 x = behind v s x" if "x \<in> set slugs" for x
  proof -
    have "located s x \<noteq> located s slug" using Cons.prems(2,3) that by (auto simp: inj_on_def)
    moreover have "databases s2 q = databases s q" if "q \<noteq> p" for q using that by (simp add: s2 l(2))
    ultimately show ?thesis by (auto simp: behind_def loc l(1) split: option.split)
  qed
  have IH: "k' = (if did then Suc k else k) + length (filter (behind v s2) slugs)" "\<forall>x \<in> set slugs. up_to_date v s' x"
    "pools_ok s'" "control s' = control s2"
    using Cons.IH [OF c2(2) _ _ loop] Cons.prems(2,3) by (simp_all add: loc)
  have "filter (behind v s2) slugs = filter (behind v s) slugs" using other by (intro filter_cong) simp_all
  moreover have "behind v s slug \<longleftrightarrow> did" by (simp add: behind_def l(1) d(1,3))
  moreover have "up_to_date v s' slug"
  proof -
    have "databases s2 p = Some d'" by (simp add: s2)
    moreover have "grown v ddl s2 s'" using migrate_loop_grown [of v ddl s2 "env \<circ> Suc" slugs "if did then Suc k else k"] loop by simp
    ultimately have "databases s' p = Some d'" using grown_keeps d(2) by blast
    moreover have "located s' slug = Some p" using l(1) c2(1) IH(4) by (simp add: located_def)
    ultimately show ?thesis using d(2) by (simp add: up_to_date_def)
  qed
  ultimately show ?case using IH c2(1) by simp
qed simp

text \<open>A migration that returns has brought the database of every listed tenant to the version, where the catalogue
  says it is now, and the number it returns is that of the databases that were behind.\<close>

theorem database_migration_result:
  assumes "pools_ok s" and "distinct slugs" and "inj_on (located s) (set slugs)"
    and "migrate (Inr (Inr slugs)) env v ddl s = (Some k, s')"
  shows "k = length (filter (behind v s) slugs) \<and> (\<forall>slug \<in> set slugs. up_to_date v s' slug)"
  using migrate_loop_result [OF assms(1,2,3), of env v ddl 0 k s'] assms(4) by (simp add: migrate_def)

definition calm :: migrate_env where
  "calm = \<lparr>looked_up = Done, pinged = Done, began = Done, committed = Done, answers = (\<lambda>_. Done)\<rparr>"

theorem database_migration_result_witness:
  "\<exists>s'. migrate (Inr (Inr [''globex''])) (\<lambda>_. calm) 2 Inr small_world = (Some 1, s') \<and> up_to_date 2 s' ''globex''"
proof -
  have ok: "pools_ok small_world" by (simp add: pools_ok_def small_world_def globex_row_def)
  obtain s' where m: "migrate (Inr (Inr [''globex''])) (\<lambda>_. calm) 2 Inr small_world = (Some 1, s')"
    by (simp add: migrate_def calm_def get_pool_def on_pool_def begin_func_Done migrate_tx_def bind_tx_def stmt_Done
        small_world_def template_def)
  from database_migration_result [OF ok _ _ this] m show ?thesis by simp
qed

text \<open>When the list of tenants breaks off while it is collected, the migration reports success on no database.\<close>

theorem broken_listing_migrates_nothing: "migrate (Inr (Inl e)) env v ddl s = (Some 0, s)"
  by (simp add: migrate_def)

section \<open>Slugs and limits\<close>

text \<open>The slug \<open>template\<close> passes the check, but its database is the template itself: provisioning creates the
  role, fails on CREATE DATABASE and leaves the role behind, so trying again fails at the first step.\<close>

theorem template_slug_leaves_role:
  assumes "databases s (sv, ''tenant_template'') \<noteq> None" and "(sv, ''tenant_template'') \<notin> roles s"
  shows "valid_slug ''template'' \<and>
    provision (\<lambda>_. Done) ''template'' sv plan s = (None, s\<lparr>roles := insert (sv, ''tenant_template'') (roles s)\<rparr>) \<and>
    provision (\<lambda>_. Done) ''template'' sv plan (s\<lparr>roles := insert (sv, ''tenant_template'') (roles s)\<rparr>) =
      (None, s\<lparr>roles := insert (sv, ''tenant_template'') (roles s)\<rparr>)"
proof -
  have v: "valid_slug ''template''" by (simp add: valid_slug_def is_lower_def)
  have n: "tenant_name ''template'' = ''tenant_template''" by (simp add: tenant_name_def)
  from assms(1) obtain d where "databases s (sv, ''tenant_template'') = Some d" by blast
  with assms(2) show ?thesis
    by (simp add: v provision_def provision_steps_def Let_def n auto_stmt_def create_role_def create_database_def)
qed

theorem template_slug_leaves_role_witness:
  "fst (provision (\<lambda>_. Done) ''template'' ''server_a'' ''standard''
     (small_world\<lparr>databases := [(''server_a'', ''tenant_template'') \<mapsto> template]\<rparr>)) = None"
proof -
  let ?s = "small_world\<lparr>databases := [(''server_a'', ''tenant_template'') \<mapsto> template]\<rparr>"
  have "databases ?s (''server_a'', ''tenant_template'') \<noteq> None" "(''server_a'', ''tenant_template'') \<notin> roles ?s"
    by (simp_all add: small_world_def tenant_name_def)
  from template_slug_leaves_role [OF this] show ?thesis by simp
qed

lemma explode_loop_bound: "explode_loop env k i opened s = (Some n, s') \<Longrightarrow> opened \<le> n \<and> n \<le> opened + k"
proof (induction k arbitrary: i opened s)
  case (Suc k)
  from Suc.prems show ?case
    by (auto split: prod.splits option.splits sum.splits dest: Suc.IH)
qed simp

lemma small_slug_valid: "valid_slug (small_slug i)"
  by (simp add: small_slug_def valid_slug_def is_lower_def is_digit_digit)

end
