(* ===== verification/Polyglot.thy ===== *)
theory Polyglot
  imports Caching
begin

text \<open>
  \<open>simulate_polyglot_persistence/main.go\<close>: PostgreSQL as the system of record with an outbox, and a relay
  that applies its events to a search index (Elasticsearch), a cache and a leaderboard (Redis). Prices
  are in cents. Payloads are the values that were marshalled.
\<close>

section \<open>Stores\<close>

record item =
  pid :: nat
  title :: string
  text_of :: string
  group_of :: string
  cents :: int
  stock :: int
  ver :: nat

datatype event = Upserted item | Ordered nat int

record entry =
  oid :: nat
  event :: event
  processed :: bool

record derived =
  cache :: "string \<rightharpoonup> item"
  done_ids :: "nat set"            \<comment> \<open>the keys outbox:done:id\<close>
  board :: "nat \<Rightarrow> int"            \<comment> \<open>the sorted set bestsellers\<close>

record app =
  products :: "nat \<rightharpoonup> item"
  orders :: "(nat \<times> int) list"
  outbox :: "entry list"
  es :: "nat \<rightharpoonup> item"
  rdb :: derived

section \<open>Writes\<close>

definition emit :: "event \<Rightarrow> app \<Rightarrow> app" where
  "emit e s = s\<lparr>outbox := outbox s @ [\<lparr>oid = Suc (length (outbox s)), event = e, processed = False\<rparr>]\<rparr>"

text \<open>One product of \<open>seedProducts\<close>, with the identity value \<open>i\<close>.\<close>

definition seed_product :: "item \<Rightarrow> nat \<Rightarrow> app \<Rightarrow> (db_error + unit) \<times> app" where
  "seed_product p i s =
     (let q = p\<lparr>pid := i, ver := 1\<rparr> in
      if products s i \<noteq> None then (Inl (Sqlstate ''23505''), s)
      else (Inr (), emit (Upserted q) (s\<lparr>products := (products s)(i \<mapsto> q)\<rparr>)))"

fun seed_tx :: "(nat \<Rightarrow> outcome) \<Rightarrow> (nat \<times> item) list \<Rightarrow> app \<Rightarrow> (db_error + unit) \<times> app" where
  "seed_tx env [] s = (Inr (), s)"
| "seed_tx env ((i, p) # ps) s =
     bind_tx (stmt (env 0) (seed_product p i)) (\<lambda>_. seed_tx (env \<circ> Suc) ps) s"

definition seed_products :: "outcome \<Rightarrow> outcome \<Rightarrow> (nat \<Rightarrow> outcome) \<Rightarrow> (nat \<times> item) list \<Rightarrow> app \<Rightarrow> unit option \<times> app" where
  "seed_products rb rc env ps s =
     (case begin_func rb rc (seed_tx env ps) s of
        (Inl _, s') \<Rightarrow> (None, s')
      | (Inr _, s') \<Rightarrow> (Some (), s'))"

definition update_tx :: "(nat \<Rightarrow> outcome) \<Rightarrow> nat \<Rightarrow> string \<Rightarrow> int \<Rightarrow> app \<Rightarrow> (db_error + unit) \<times> app" where
  "update_tx env i n x =
     bind_tx (stmt (env 0) (\<lambda>s. case products s i of
        None \<Rightarrow> (Inl NoRows, s)
      | Some p \<Rightarrow> (let q = p\<lparr>title := n, cents := x, ver := Suc (ver p)\<rparr> in (Inr q, s\<lparr>products := (products s)(i \<mapsto> q)\<rparr>))))
     (\<lambda>q. stmt (env 1) (\<lambda>s. (Inr (), emit (Upserted q) s)))"

definition update_product :: "outcome \<Rightarrow> outcome \<Rightarrow> (nat \<Rightarrow> outcome) \<Rightarrow> nat \<Rightarrow> string \<Rightarrow> int \<Rightarrow> app \<Rightarrow> unit option \<times> app" where
  "update_product rb rc env i n x s =
     (case begin_func rb rc (update_tx env i n x) s of
        (Inl _, s') \<Rightarrow> (None, s')
      | (Inr _, s') \<Rightarrow> (Some (), s'))"

text \<open>\<open>placeRandomOrders\<close>: \<open>drawn\<close> are the random products and quantities.\<close>

fun orders_tx :: "(nat \<Rightarrow> outcome) \<Rightarrow> (nat \<times> int) list \<Rightarrow> app \<Rightarrow> (db_error + unit) \<times> app" where
  "orders_tx env [] s = (Inr (), s)"
| "orders_tx env ((i, n) # drawn) s =
     bind_tx (stmt (env 0) (\<lambda>s. if products s i = None then (Inl (Sqlstate ''23503''), s)
                            else (Inr (), s\<lparr>orders := orders s @ [(i, n)]\<rparr>)))
       (\<lambda>_. bind_tx (stmt (env 1) (\<lambda>s. (Inr (), emit (Ordered i n) s)))
       (\<lambda>_. orders_tx (\<lambda>k. env (k + 2)) drawn)) s"

definition place_random_orders :: "outcome \<Rightarrow> outcome \<Rightarrow> (nat \<Rightarrow> outcome) \<Rightarrow> (nat \<times> int) list \<Rightarrow> app \<Rightarrow> unit option \<times> app" where
  "place_random_orders rb rc env drawn s =
     (case begin_func rb rc (orders_tx env drawn) s of
        (Inl _, s') \<Rightarrow> (None, s')
      | (Inr _, s') \<Rightarrow> (Some (), s'))"

section \<open>Reads\<close>

text \<open>\<open>GetProduct\<close>: \<open>None\<close> is fatal. The flag tells whether the answer is from Redis.\<close>

definition get_item :: "outcome \<Rightarrow> outcome \<Rightarrow> outcome \<Rightarrow> nat \<Rightarrow> app \<Rightarrow> (item \<times> bool) option \<times> app" where
  "get_item rg q rs i s =
     (case (if err_of rg = None then cache (rdb s) (cache_key i) else None) of
        Some p \<Rightarrow> (Some (p, True), s)
      | None \<Rightarrow>
          (case query q (products s i) of
             Inl e \<Rightarrow> (None, s)
           | Inr None \<Rightarrow> (None, s)
           | Inr (Some p) \<Rightarrow>
               (Some (p, False),
                if applied rs then s\<lparr>rdb := (rdb s)\<lparr>cache := (cache (rdb s))(cache_key i \<mapsto> p)\<rparr>\<rparr> else s)))"

section \<open>Elasticsearch\<close>

text \<open>One item of a bulk request with external versioning.\<close>

definition index_doc :: "item \<Rightarrow> (nat \<rightharpoonup> item) \<Rightarrow> (nat \<rightharpoonup> item)" where
  "index_doc p m = (case m (pid p) of
     None \<Rightarrow> m(pid p \<mapsto> p)
   | Some q \<Rightarrow> if ver q < ver p then m(pid p \<mapsto> p) else m)"

text \<open>
  \<open>BulkIndex\<close>. A request that fails, as a whole or in some items, may have applied any of its items.
\<close>

datatype bulk_answer = Accepted | Failed db_error "nat \<Rightarrow> bool"

fun index_some :: "(nat \<Rightarrow> bool) \<Rightarrow> item list \<Rightarrow> (nat \<rightharpoonup> item) \<Rightarrow> (nat \<rightharpoonup> item)" where
  "index_some b [] m = m"
| "index_some b (p # ps) m = index_some (b \<circ> Suc) ps (if b 0 then index_doc p m else m)"

definition bulk_index :: "bulk_answer \<Rightarrow> item list \<Rightarrow> (nat \<rightharpoonup> item) \<Rightarrow> db_error option \<times> (nat \<rightharpoonup> item)" where
  "bulk_index a ds m = (case a of
     Accepted \<Rightarrow> (None, index_some (\<lambda>_. True) ds m)
   | Failed e b \<Rightarrow> (Some e, index_some b ds m))"

text \<open>\<open>reindex\<close>: \<open>ps\<close> are the products in the order of their ids.\<close>

fun reindex_chunks :: "(nat \<Rightarrow> bulk_answer) \<Rightarrow> item list list \<Rightarrow> (nat \<rightharpoonup> item) \<Rightarrow> db_error option \<times> (nat \<rightharpoonup> item)" where
  "reindex_chunks env [] m = (None, m)"
| "reindex_chunks env (c # cs) m =
     (case bulk_index (env 0) c m of
        (Some e, m') \<Rightarrow> (Some e, m')
      | (None, m') \<Rightarrow> reindex_chunks (env \<circ> Suc) cs m')"

definition reindex :: "(nat \<Rightarrow> bulk_answer) \<Rightarrow> item list \<Rightarrow> app \<Rightarrow> db_error option \<times> app" where
  "reindex env ps s = (case reindex_chunks env (chunk 1000 ps) (es s) of (e, m) \<Rightarrow> (e, s\<lparr>es := m\<rparr>))"

section \<open>The relay\<close>

text \<open>
  One command of the Redis pipeline. \<open>incrOnce\<close> answers \<open>false\<close> for an event that was applied before, which
  the client reports as the error \<open>redis.Nil\<close>.
\<close>

datatype cmd_error = Redis_Nil | Real db_error

definition incr_once :: "nat \<Rightarrow> nat \<Rightarrow> int \<Rightarrow> derived \<Rightarrow> bool \<times> derived" where
  "incr_once k i n d =
     (if k \<in> done_ids d then (False, d)
      else (True, d\<lparr>done_ids := insert k (done_ids d), board := (board d)(i := board d i + n)\<rparr>))"

definition apply_entry :: "entry \<Rightarrow> derived \<Rightarrow> bool \<times> derived" where
  "apply_entry x d = (case event x of
     Upserted p \<Rightarrow> (True, d\<lparr>cache := (cache d)(cache_key (pid p) := None)\<rparr>)
   | Ordered i n \<Rightarrow> incr_once (oid x) i n d)"

definition run_cmd :: "outcome \<Rightarrow> entry \<Rightarrow> derived \<Rightarrow> cmd_error option \<times> derived" where
  "run_cmd r x d =
     (case apply_entry x d of (ok, d') \<Rightarrow>
        (case err_of r of
           Some e \<Rightarrow> Some (Real e)
         | None \<Rightarrow> if ok then None else Some Redis_Nil,
         if applied r then d' else d))"

text \<open>\<open>pipe.Exec\<close> runs every command and returns the error of the first one that has one.\<close>

fun run_pipe :: "(nat \<Rightarrow> outcome) \<Rightarrow> entry list \<Rightarrow> derived \<Rightarrow> cmd_error option \<times> derived" where
  "run_pipe env [] d = (None, d)"
| "run_pipe env (x # xs) d =
     (case run_cmd (env 0) x d of (e, d1) \<Rightarrow>
        (case run_pipe (env \<circ> Suc) xs d1 of (e', d2) \<Rightarrow> (case e of None \<Rightarrow> e' | Some _ \<Rightarrow> e, d2)))"

record batch_env =
  r_begin :: outcome
  r_claim :: outcome
  r_bulk :: bulk_answer
  r_pipe :: "nat \<Rightarrow> outcome"
  r_mark :: outcome
  r_commit :: outcome

definition pending :: "app \<Rightarrow> entry list" where
  "pending s = filter (\<lambda>x. \<not> processed x) (outbox s)"

definition docs_of :: "entry list \<Rightarrow> item list" where
  "docs_of xs = List.map_filter (\<lambda>x. case event x of Upserted p \<Rightarrow> Some p | Ordered i n \<Rightarrow> None) xs"

definition mark_processed :: "nat set \<Rightarrow> app \<Rightarrow> app" where
  "mark_processed ks s = s\<lparr>outbox := map (\<lambda>x. if oid x \<in> ks then x\<lparr>processed := True\<rparr> else x) (outbox s)\<rparr>"

text \<open>\<open>processBatch\<close>: the count, the error, and the stores. Only the outbox is transactional.\<close>

definition process_batch :: "batch_env \<Rightarrow> app \<Rightarrow> nat \<times> db_error option \<times> app" where
  "process_batch e s =
     (if err_of (r_begin e) \<noteq> None then (0, err_of (r_begin e), s)
      else if err_of (r_claim e) \<noteq> None then (0, err_of (r_claim e), s)
      else
        (let xs = take 500 (pending s) in
         if xs = [] then (0, err_of (r_commit e), s)
         else
           (case (if docs_of xs = [] then (None, es s) else bulk_index (r_bulk e) (docs_of xs) (es s)) of
              (Some x, m) \<Rightarrow> (0, Some x, s\<lparr>es := m\<rparr>)
            | (None, m) \<Rightarrow>
                (case run_pipe (r_pipe e) xs (rdb s) of
                   (Some (Real x), d) \<Rightarrow> (0, Some x, s\<lparr>es := m, rdb := d\<rparr>)
                 | (_, d) \<Rightarrow>
                     (let s1 = s\<lparr>es := m, rdb := d\<rparr> in
                      if err_of (r_mark e) \<noteq> None then (length xs, err_of (r_mark e), s1)
                      else (length xs, err_of (r_commit e),
                            if applied (r_commit e) then mark_processed (oid ` set xs) s1 else s1))))))"

text \<open>\<open>Start\<close>: the loop runs batches until it is stopped; errors are logged and retried.\<close>

definition relay :: "batch_env list \<Rightarrow> app \<Rightarrow> app" where
  "relay envs s = fold (\<lambda>e s. snd (snd (process_batch e s))) envs s"

definition wait_drained :: "(nat \<times> bool) list \<Rightarrow> nat option" where
  "wait_drained attempts = poll_until 60000 100 0 attempts"

section \<open>Idempotent appliers\<close>

definition indexed :: "item \<Rightarrow> (nat \<rightharpoonup> item) \<Rightarrow> bool" where
  "indexed p m \<longleftrightarrow> (\<exists>q. m (pid p) = Some q \<and> ver p \<le> ver q)"

interpretation index: at_least_once index_doc indexed
  by unfold_locales (auto simp: index_doc_def indexed_def split: option.splits)

definition tallied :: "nat \<times> nat \<times> int \<Rightarrow> derived \<Rightarrow> bool" where
  "tallied x d \<longleftrightarrow> fst x \<in> done_ids d"

interpretation leaderboard: at_least_once "\<lambda>(k, i, n) d. snd (incr_once k i n d)" tallied
  by unfold_locales (auto simp: incr_once_def tallied_def)

interpretation product_cache: read_cache "\<lambda>k m. m k" "\<lambda>k v m. m(k \<mapsto> v)" "\<lambda>k m. m(k := None)" cache_key
  by unfold_locales (auto simp: cache_key_def)

lemma index_some_all: "index_some (\<lambda>_. True) ps m = index.deliver_all m ps"
  by (induction ps arbitrary: m) (simp_all add: comp_def)

lemma index_some_stays: "indexed p m \<Longrightarrow> indexed p (index_some b ps m)"
  by (induction ps arbitrary: b m) (simp_all add: index.done_stays)

lemma index_some_from: "index_some b ps m i = Some d \<Longrightarrow> m i = Some d \<or> (d \<in> set ps \<and> pid d = i)"
proof (induction ps arbitrary: b m)
  case (Cons p ps)
  then have "(if b 0 then index_doc p m else m) i = Some d \<or> d \<in> set ps \<and> pid d = i" by simp
  then show ?case by (auto simp: index_doc_def split: if_splits option.splits)
qed simp

lemma docs_of_set: "p \<in> set (docs_of xs) \<longleftrightarrow> (\<exists>x \<in> set xs. event x = Upserted p)"
  by (induction xs) (auto simp: docs_of_def List.map_filter_simps split: event.splits)

section \<open>What a batch does\<close>

lemma process_batch_cases:
  obtains (idle) "snd (snd (process_batch e s)) = s"
    | (bulk_failed) b where "snd (snd (process_batch e s)) = s\<lparr>es := index_some b (docs_of (take 500 (pending s))) (es s)\<rparr>"
    | (applied) d where "d = snd (run_pipe (r_pipe e) (take 500 (pending s)) (rdb s))"
        "snd (snd (process_batch e s)) = s\<lparr>es := index_some (\<lambda>_. True) (docs_of (take 500 (pending s))) (es s), rdb := d\<rparr>"
    | (marked) d where "d = snd (run_pipe (r_pipe e) (take 500 (pending s)) (rdb s))"
        "fst (run_pipe (r_pipe e) (take 500 (pending s)) (rdb s)) \<in> {None, Some Redis_Nil}"
        "snd (snd (process_batch e s)) = mark_processed (oid ` set (take 500 (pending s)))
           (s\<lparr>es := index_some (\<lambda>_. True) (docs_of (take 500 (pending s))) (es s), rdb := d\<rparr>)"
proof -
  let ?xs = "take 500 (pending s)"
  show thesis
  proof (cases "r_begin e = Done \<and> r_claim e = Done \<and> ?xs \<noteq> []")
    case False
    then show thesis using idle by (auto simp: process_batch_def Let_def)
  next
    case True
    show thesis
    proof (cases "docs_of ?xs \<noteq> [] \<and> r_bulk e \<noteq> Accepted")
      case bulk: True
      then obtain x b where "r_bulk e = Failed x b" by (cases "r_bulk e") auto
      then show thesis using True bulk bulk_failed [of b]
        by (simp add: process_batch_def Let_def bulk_index_def del: take_eq_Nil)
    next
      case False
      then have m: "(if docs_of ?xs = [] then (None, es s) else bulk_index (r_bulk e) (docs_of ?xs) (es s)) =
          (None, index_some (\<lambda>_. True) (docs_of ?xs) (es s))"
        by (auto simp: bulk_index_def)
      obtain pe d where p: "run_pipe (r_pipe e) ?xs (rdb s) = (pe, d)" by force
      show thesis
      proof (cases "(\<exists>x. pe = Some (Real x)) \<or> r_mark e \<noteq> Done \<or> \<not> applied (r_commit e)")
        case True
        then show thesis using \<open>r_begin e = Done \<and> _\<close> m p applied [of d]
          by (auto simp: process_batch_def Let_def simp del: take_eq_Nil split: option.splits cmd_error.splits)
      next
        case False
        then have "pe \<in> {None, Some Redis_Nil}" by (metis cmd_error.exhaust insert_iff not_None_eq)
        then show thesis using False \<open>r_begin e = Done \<and> _\<close> m p marked [of d]
          by (auto simp: process_batch_def Let_def simp del: take_eq_Nil)
      qed
    qed
  qed
qed

section \<open>The search index\<close>

definition numbered :: "app \<Rightarrow> bool" where
  "numbered s \<longleftrightarrow> map oid (outbox s) = [1..<Suc (length (outbox s))]"

text \<open>
  Whether the index is whole, dropped and not rebuilt since, or being rebuilt: then the documents that
  were read from PostgreSQL and are still to be sent. What an incomplete index may lack of the processed events.
\<close>

datatype build = Whole | Incomplete | Sending "item list"

fun missing :: "build \<Rightarrow> item \<Rightarrow> bool" where
  "missing Whole p = False"
| "missing Incomplete p = True"
| "missing (Sending ps) p = (\<exists>q \<in> set ps. pid q = pid p \<and> ver p \<le> ver q)"

fun unsent :: "build \<Rightarrow> item set" where
  "unsent (Sending ps) = set ps"
| "unsent _ = {}"

definition search_inv :: "build \<Rightarrow> app \<Rightarrow> bool" where
  "search_inv bd s \<longleftrightarrow> numbered s \<and>
     (\<forall>x \<in> set (outbox s). \<forall>p. event x = Upserted p \<longrightarrow>
        (\<exists>q. products s (pid p) = Some q \<and> (ver p < ver q \<or> p = q)) \<and> (processed x \<longrightarrow> missing bd p \<or> indexed p (es s))) \<and>
     (\<forall>q \<in> unsent bd. \<exists>x \<in> set (outbox s). event x = Upserted q) \<and>
     (\<forall>i q. products s i = Some q \<longrightarrow> pid q = i \<and> (\<exists>x \<in> set (outbox s). event x = Upserted q)) \<and>
     (\<forall>i d. es s i = Some d \<longrightarrow> pid d = i \<and> (\<exists>x \<in> set (outbox s). event x = Upserted d))"

lemma search_invD:
  assumes "search_inv bd s"
  shows "numbered s"
    "x \<in> set (outbox s) \<Longrightarrow> event x = Upserted p \<Longrightarrow> \<exists>q. products s (pid p) = Some q \<and> (ver p < ver q \<or> p = q)"
    "x \<in> set (outbox s) \<Longrightarrow> event x = Upserted p \<Longrightarrow> processed x \<Longrightarrow> missing bd p \<or> indexed p (es s)"
    "products s i = Some q \<Longrightarrow> pid q = i \<and> (\<exists>x \<in> set (outbox s). event x = Upserted q)"
    "es s i = Some d \<Longrightarrow> pid d = i \<and> (\<exists>x \<in> set (outbox s). event x = Upserted d)"
    "q \<in> unsent bd \<Longrightarrow> \<exists>x \<in> set (outbox s). event x = Upserted q"
  using assms unfolding search_inv_def by blast+

lemma numbered_emit: "numbered s \<Longrightarrow> numbered (emit e s)"
  by (simp add: numbered_def emit_def)

lemma numbered_distinct: "numbered s \<Longrightarrow> distinct (map oid (outbox s))"
  by (simp add: numbered_def del: upt_Suc)

text \<open>A new version of a product, or a new product, with its event.\<close>

lemma search_inv_upsert:
  assumes inv: "search_inv bd s" and q: "pid q = i" "\<And>p. products s i = Some p \<Longrightarrow> ver p < ver q"
  shows "search_inv bd (emit (Upserted q) (s\<lparr>products := (products s)(i \<mapsto> q)\<rparr>))"
proof -
  let ?t = "emit (Upserted q) (s\<lparr>products := (products s)(i \<mapsto> q)\<rparr>)"
  have "\<exists>r. products ?t (pid p) = Some r \<and> (ver p < ver r \<or> p = r)"
    if x: "x \<in> set (outbox s)" "event x = Upserted p" for x p
  proof (cases "pid p = i")
    case True
    from search_invD(2) [OF inv x] obtain r where "products s i = Some r" "ver p < ver r \<or> p = r" using True by auto
    with q(2) have "ver p < ver q" by auto
    with True show ?thesis by (simp add: emit_def)
  next
    case False
    with search_invD(2) [OF inv x] show ?thesis by (simp add: emit_def)
  qed
  moreover have "numbered ?t" using search_invD(1) [OF inv] by (simp add: numbered_def emit_def del: upt_Suc) simp
  ultimately show ?thesis
    using inv q(1) unfolding search_inv_def by (auto simp: emit_def)
qed

lemma search_inv_frame:
  assumes "search_inv bd s" "products t = products s" "es t = es s" "outbox t = outbox s"
  shows "search_inv bd t"
  using assms by (simp add: search_inv_def numbered_def)

lemma search_inv_order: "search_inv bd s \<Longrightarrow> search_inv bd (emit (Ordered i n) s)"
  using numbered_emit by (auto simp: search_inv_def emit_def)

lemma seed_tx_inv: "search_inv bd s \<Longrightarrow> seed_tx env ps s = (Inr u, s') \<Longrightarrow> search_inv bd s'"
proof (induction ps arbitrary: env s)
  case (Cons ip ps)
  obtain i p where ip: "ip = (i, p)" by force
  from Cons.prems(2) obtain t where t: "seed_product p i s = (Inr (), t)" "seed_tx (env \<circ> Suc) ps t = (Inr u, s')"
    by (auto simp: ip tx_simps)
  from t(1) have "t = emit (Upserted (p\<lparr>pid := i, ver := 1\<rparr>)) (s\<lparr>products := (products s)(i \<mapsto> p\<lparr>pid := i, ver := 1\<rparr>)\<rparr>)"
    "products s i = None"
    by (auto simp: seed_product_def Let_def split: if_splits)
  with search_inv_upsert [OF Cons.prems(1), of "p\<lparr>pid := i, ver := 1\<rparr>" i] have "search_inv bd t" by simp
  with Cons.IH t(2) show ?case by blast
qed simp

lemma update_tx_inv:
  assumes inv: "search_inv bd s" and "update_tx env i n x s = (Inr u, s')"
  shows "search_inv bd s'"
proof -
  from assms(2) obtain p where p: "products s i = Some p" and s': "s' = emit (Upserted (p\<lparr>title := n, cents := x, ver := Suc (ver p)\<rparr>))
      (s\<lparr>products := (products s)(i \<mapsto> p\<lparr>title := n, cents := x, ver := Suc (ver p)\<rparr>)\<rparr>)"
    by (auto simp: update_tx_def tx_simps Let_def split: option.splits)
  have "pid p = i" using search_invD(4) [OF inv p] by simp
  with p show ?thesis unfolding s' by (intro search_inv_upsert [OF inv]) simp_all
qed

lemma orders_tx_inv: "search_inv bd s \<Longrightarrow> orders_tx env drawn s = (Inr u, s') \<Longrightarrow> search_inv bd s'"
proof (induction drawn arbitrary: env s)
  case (Cons d drawn)
  obtain i n where d: "d = (i, n)" by force
  from Cons.prems(2) have t: "orders_tx (\<lambda>k. env (k + 2)) drawn (emit (Ordered i n) (s\<lparr>orders := orders s @ [(i, n)]\<rparr>)) = (Inr u, s')"
    by (auto simp: d tx_simps split: if_splits)
  have "search_inv bd (s\<lparr>orders := orders s @ [(i, n)]\<rparr>)" by (rule search_inv_frame [OF Cons.prems(1)]) simp_all
  from Cons.IH [OF search_inv_order [OF this] t] show ?case .
qed simp

lemma pending_subset: "set (take k (pending s)) \<subseteq> set (outbox s)"
  by (auto simp: pending_def dest: in_set_takeD)

lemma search_inv_indexed:
  assumes inv: "search_inv bd s" and ps: "\<And>p. p \<in> set ps \<Longrightarrow> \<exists>x \<in> set (outbox s). event x = Upserted p"
  shows "search_inv bd (s\<lparr>es := index_some b ps (es s), rdb := d\<rparr>)"
proof -
  have "pid a = i \<and> (\<exists>x \<in> set (outbox s). event x = Upserted a)" if "index_some b ps (es s) i = Some a" for i a
    using index_some_from [OF that] search_invD(5) [OF inv] ps by auto
  moreover have "missing bd p \<or> indexed p (index_some b ps (es s))" if "x \<in> set (outbox s)" "event x = Upserted p" "processed x" for x p
    using search_invD(3) [OF inv that] index_some_stays by blast
  ultimately show ?thesis using inv by (simp add: search_inv_def numbered_def)
qed

lemma search_inv_es:
  assumes "search_inv bd s" and "\<And>p. p \<in> set ps \<Longrightarrow> \<exists>x \<in> set (outbox s). event x = Upserted p"
  shows "search_inv bd (s\<lparr>es := index_some b ps (es s)\<rparr>)"
  by (rule search_inv_frame [OF search_inv_indexed [OF assms, where d = "rdb s"]]) simp_all

lemma batch_docs: "p \<in> set (docs_of (take k (pending s))) \<Longrightarrow> \<exists>x \<in> set (outbox s). event x = Upserted p"
  using pending_subset by (force simp: docs_of_set)

lemma mark_processed_simps [simp]:
  "products (mark_processed ks s) = products s" "es (mark_processed ks s) = es s" "rdb (mark_processed ks s) = rdb s"
  "orders (mark_processed ks s) = orders s"
  "outbox (mark_processed ks s) = map (\<lambda>x. if oid x \<in> ks then x\<lparr>processed := True\<rparr> else x) (outbox s)"
  by (simp_all add: mark_processed_def)

lemma in_batch:
  assumes "numbered s" "x \<in> set (outbox s)" "oid x \<in> oid ` set (take k (pending s))"
  shows "x \<in> set (take k (pending s))"
proof -
  from assms(3) obtain y where y: "y \<in> set (take k (pending s))" "oid y = oid x" by auto
  with pending_subset have "y \<in> set (outbox s)" by blast
  with y assms(2) numbered_distinct [OF assms(1)] have "y = x" by (auto simp: distinct_map inj_on_def)
  with y show ?thesis by simp
qed

lemma mark_oids: "map oid (map (\<lambda>x. if oid x \<in> ks then x\<lparr>processed := True\<rparr> else x) xs) = map oid xs"
  by (induction xs) auto

lemma bex_image: "(\<exists>y \<in> A. f y = e) \<longleftrightarrow> e \<in> f ` A"
  by auto

lemma search_inv_marked:
  assumes inv: "search_inv bd s"
  shows "search_inv bd (mark_processed (oid ` set (take k (pending s)))
    (s\<lparr>es := index_some (\<lambda>_. True) (docs_of (take k (pending s))) (es s), rdb := d\<rparr>))"
proof -
  let ?m = "index_some (\<lambda>_. True) (docs_of (take k (pending s))) (es s)"
  let ?t = "mark_processed (oid ` set (take k (pending s))) (s\<lparr>es := ?m, rdb := d\<rparr>)"
  have new: "search_inv bd (s\<lparr>es := ?m, rdb := d\<rparr>)" by (rule search_inv_indexed [OF inv batch_docs])
  have "event ` set (outbox ?t) = event ` set (outbox s)"
    unfolding mark_processed_simps by (subst image_set_map) simp_all
  note img = this
  have ev: "(\<exists>y \<in> set (outbox ?t). event y = e) \<longleftrightarrow> (\<exists>y \<in> set (outbox s). event y = e)" for e
    unfolding bex_image img ..
  have "indexed p ?m" if x: "x \<in> set (outbox s)" "event x = Upserted p" "oid x \<in> oid ` set (take k (pending s))" for x p
  proof -
    have "x \<in> set (take k (pending s))" by (rule in_batch [OF search_invD(1) [OF inv] x(1,3)])
    with x(2) have "p \<in> set (docs_of (take k (pending s)))" by (auto simp: docs_of_set)
    then show ?thesis unfolding index_some_all by (rule index.all_delivered)
  qed
  moreover have "numbered ?t" using search_invD(1) [OF inv] unfolding numbered_def mark_processed_simps
    by (simp add: mark_oids del: map_map upt_Suc)
  ultimately show ?thesis using new ev unfolding search_inv_def by auto
qed

lemma process_batch_inv:
  assumes "search_inv bd s"
  shows "search_inv bd (snd (snd (process_batch e s)))"
  using process_batch_cases [of e s]
proof cases
  case idle
  with assms show ?thesis by simp
next
  case (bulk_failed b)
  then show ?thesis using search_inv_es [OF assms batch_docs] by metis
next
  case (applied d)
  then show ?thesis using search_inv_indexed [OF assms batch_docs] by metis
next
  case (marked d)
  then show ?thesis using search_inv_marked [OF assms] by metis
qed

lemma reindex_chunks_inv:
  assumes "\<And>c b m. c \<in> set cs \<Longrightarrow> P m \<Longrightarrow> P (index_some b c m)" "P m"
  shows "P (snd (reindex_chunks env cs m))"
  using assms
proof (induction env cs m rule: reindex_chunks.induct)
  case (2 env c cs m)
  obtain b where b: "snd (bulk_index (env 0) c m) = index_some b c m"
    by (cases "env 0") (auto simp: bulk_index_def)
  obtain x m' where x: "bulk_index (env 0) c m = (x, m')" by force
  with b "2.prems" have "P m'" by auto
  with "2.IH" x "2.prems"(1) show ?case by (cases x) (auto simp: comp_def)
qed simp

lemma reindex_inv:
  assumes "search_inv bd s" "set ps \<subseteq> ran (products s)"
  shows "search_inv bd (snd (reindex env ps s))"
proof -
  have ps: "\<exists>x \<in> set (outbox s). event x = Upserted p" if "p \<in> set ps" for p
    using that assms(2) search_invD(4) [OF assms(1)] by (auto simp: ran_def)
  have "search_inv bd (s\<lparr>es := snd (reindex_chunks env (chunk 1000 ps) (es s))\<rparr>)"
  proof (rule reindex_chunks_inv [where P = "\<lambda>m. search_inv bd (s\<lparr>es := m\<rparr>)"])
    fix c b m assume c: "c \<in> set (chunk 1000 ps)" and m: "search_inv bd (s\<lparr>es := m\<rparr>)"
    have "set c \<subseteq> set ps" using c concat_chunk [of 1000 ps] by (metis UN_upper set_concat)
    with ps have "\<exists>x \<in> set (outbox (s\<lparr>es := m\<rparr>)). event x = Upserted p" if "p \<in> set c" for p using that by auto
    from search_inv_es [OF m this] show "search_inv bd (s\<lparr>es := index_some b c m\<rparr>)" by simp
  qed (use assms(1) in simp)
  then show ?thesis by (simp add: reindex_def split_beta)
qed

section \<open>Runs\<close>

text \<open>The error of the first command of the pipeline does not hide that another command failed.\<close>

definition unmasked :: "batch_env \<Rightarrow> app \<Rightarrow> bool" where
  "unmasked e s \<longleftrightarrow>
     (fst (run_pipe (r_pipe e) (take 500 (pending s)) (rdb s)) = Some Redis_Nil \<longrightarrow>
      (\<forall>k < length (take 500 (pending s)). r_pipe e k = Done))"

definition evict :: "nat \<Rightarrow> app \<Rightarrow> app" where
  "evict i s = s\<lparr>rdb := (rdb s)\<lparr>cache := (cache (rdb s))(cache_key i := None)\<rparr>\<rparr>"

text \<open>
  The program thread and the relay thread interleave; every statement may fail, with its effect or
  without. With the flag, no batch has its failure hidden.
\<close>

inductive poly_step :: "bool \<Rightarrow> app \<Rightarrow> app \<Rightarrow> bool" for strict where
  seeded: "poly_step strict s (snd (seed_products rb rc env ps s))"
| updated: "poly_step strict s (snd (update_product rb rc env i n x s))"
| ordered: "poly_step strict s (snd (place_random_orders rb rc env drawn s))"
| got: "poly_step strict s (snd (get_item rg q rs i s))"
| expired: "poly_step strict s (evict i s)"
| reindexed: "set ps = ran (products s) \<Longrightarrow> sorted (map pid ps) \<Longrightarrow> poly_step strict s (snd (reindex env ps s))"
| batch: "(strict \<longrightarrow> unmasked e s) \<Longrightarrow> poly_step strict s (snd (snd (process_batch e s)))"

inductive_cases poly_stepE: "poly_step strict s t"

definition empty_app :: app where
  "empty_app = \<lparr>products = (\<lambda>_. None), orders = [], outbox = [], es = (\<lambda>_. None),
     rdb = \<lparr>cache = (\<lambda>_. None), done_ids = {}, board = (\<lambda>_. 0)\<rparr>\<rparr>"

definition poly_reachable :: "bool \<Rightarrow> app \<Rightarrow> bool" where
  "poly_reachable strict s \<longleftrightarrow> (poly_step strict)\<^sup>*\<^sup>* empty_app s"

lemma poly_reachable_inv:
  assumes "poly_reachable strict s" "P empty_app" "\<And>s t. P s \<Longrightarrow> poly_step strict s t \<Longrightarrow> P t"
  shows "P s"
  using assms(1) unfolding poly_reachable_def
  by (induction rule: rtranclp_induct) (use assms(2,3) in auto)

lemma poly_relaxed: "poly_reachable strict s \<Longrightarrow> poly_reachable False s"
proof (erule poly_reachable_inv)
  show "poly_reachable False empty_app" by (simp add: poly_reachable_def)
  fix s t assume "poly_reachable False s" "poly_step strict s t"
  moreover have "poly_step False s t" using \<open>poly_step strict s t\<close>
    by cases (auto intro: poly_step.intros)
  ultimately show "poly_reachable False t" by (simp add: poly_reachable_def)
qed

text \<open>The wrappers of the writes keep what the bodies keep.\<close>

lemma write_states:
  "snd (seed_products rb rc env ps s) = snd (begin_func rb rc (seed_tx env ps) s)"
  "snd (update_product rb rc env i n x s) = snd (begin_func rb rc (update_tx env i n x) s)"
  "snd (place_random_orders rb rc env drawn s) = snd (begin_func rb rc (orders_tx env drawn) s)"
  by (simp_all add: seed_products_def update_product_def place_random_orders_def split_beta split: sum.splits)

lemma search_inv_empty: "search_inv Whole empty_app"
  by (simp add: search_inv_def numbered_def empty_app_def)

lemma get_item_frame:
  "products (snd (get_item rg q rs i s)) = products s \<and> es (snd (get_item rg q rs i s)) = es s \<and>
   outbox (snd (get_item rg q rs i s)) = outbox s \<and> orders (snd (get_item rg q rs i s)) = orders s \<and>
   done_ids (rdb (snd (get_item rg q rs i s))) = done_ids (rdb s) \<and> board (rdb (snd (get_item rg q rs i s))) = board (rdb s)"
  by (auto simp: get_item_def split: option.splits sum.splits)

lemma poly_step_search_inv:
  assumes "search_inv bd s" "poly_step strict s t"
  shows "search_inv bd t"
  using assms(2)
proof cases
  case seeded
  then show ?thesis unfolding write_states using tx.run_invariant [of "search_inv bd"] seed_tx_inv assms(1) by metis
next
  case updated
  then show ?thesis unfolding write_states using tx.run_invariant [of "search_inv bd"] update_tx_inv assms(1) by metis
next
  case ordered
  then show ?thesis unfolding write_states using tx.run_invariant [of "search_inv bd"] orders_tx_inv assms(1) by metis
next
  case (got rg q rs i)
  with search_inv_frame [OF assms(1)] get_item_frame show ?thesis by metis
next
  case (expired i)
  show ?thesis unfolding expired by (rule search_inv_frame [OF assms(1)]) (simp_all add: evict_def)
next
  case (reindexed ps env)
  with reindex_inv [OF assms(1)] show ?thesis by simp
next
  case (batch e)
  with process_batch_inv [OF assms(1)] show ?thesis by simp
qed

lemma reachable_search_inv: "poly_reachable strict s \<Longrightarrow> search_inv Whole s"
  by (erule poly_reachable_inv) (auto intro: search_inv_empty poly_step_search_inv)

lemma search_inv_drained:
  assumes inv: "search_inv Whole s" and "pending s = []"
  shows "es s = products s"
proof
  fix i
  have key: "es s i = Some q" if q: "products s i = Some q" for q
  proof -
    from search_invD(4) [OF inv q] obtain x where x: "x \<in> set (outbox s)" "event x = Upserted q" and i: "pid q = i" by auto
    from x(1) assms(2) have "processed x" by (simp add: pending_def filter_empty_conv)
    from search_invD(3) [OF inv x this] obtain d where d: "es s i = Some d" "ver q \<le> ver d" by (auto simp: indexed_def i)
    from search_invD(5) [OF inv d(1)] obtain y where y: "y \<in> set (outbox s)" "event y = Upserted d" "pid d = i" by auto
    from search_invD(2) [OF inv y(1,2)] y(3) q d(2) have "d = q" by auto
    with d(1) show ?thesis by simp
  qed
  show "es s i = products s i"
  proof (cases "es s i")
    case (Some d)
    from search_invD(5) [OF inv Some] obtain y where "y \<in> set (outbox s)" "event y = Upserted d" "pid d = i" by auto
    with search_invD(2) [OF inv] obtain q where "products s i = Some q" by metis
    with key show ?thesis by simp
  next
    case None
    with key show ?thesis by (metis not_None_eq)
  qed
qed

subsection \<open>Dropping and rebuilding the index while the shop runs\<close>

text \<open>
  \<open>ES.Reset\<close> empties the index without touching the outbox, and \<open>reindex\<close> then sends what it read from PostgreSQL in
  requests of a thousand documents, between which the relay and the program go on. A request that fails ends \<open>reindex\<close> with
  the rest unsent. An index that \<open>ES.Reset\<close> could not drop stays as it is; one it could not create again is created
  by the next bulk request.
\<close>

definition drop_docs :: "app \<Rightarrow> app" where
  "drop_docs s = s\<lparr>es := Map.empty\<rparr>"

definition send_chunk :: "bulk_answer \<Rightarrow> item list \<Rightarrow> app \<Rightarrow> app \<times> build" where
  "send_chunk a ps s = (case bulk_index a (take 1000 ps) (es s) of
     (None, m) \<Rightarrow> (s\<lparr>es := m\<rparr>, if drop 1000 ps = [] then Whole else Sending (drop 1000 ps))
   | (Some e, m) \<Rightarrow> (s\<lparr>es := m\<rparr>, Incomplete))"

inductive shop_step :: "bool \<Rightarrow> app \<times> build \<Rightarrow> app \<times> build \<Rightarrow> bool" for strict where
  ran: "poly_step strict s t \<Longrightarrow> shop_step strict (s, bd) (t, bd)"
| dropped: "shop_step strict (s, bd) (drop_docs s, Incomplete)"
| nothing_read: "products s = Map.empty \<Longrightarrow> shop_step strict (s, Incomplete) (s, Whole)"
| products_read: "set ps = ran (products s) \<Longrightarrow> sorted (map pid ps) \<Longrightarrow> ps \<noteq> [] \<Longrightarrow> shop_step strict (s, Incomplete) (s, Sending ps)"
| sent: "shop_step strict (s, Sending ps) (send_chunk a ps s)"

definition shop_reachable :: "bool \<Rightarrow> app \<Rightarrow> build \<Rightarrow> bool" where
  "shop_reachable strict s bd \<longleftrightarrow> (shop_step strict)\<^sup>*\<^sup>* (empty_app, Whole) (s, bd)"

lemma search_inv_weaken:
  assumes "search_inv bd s" and "\<And>x p. x \<in> set (outbox s) \<Longrightarrow> event x = Upserted p \<Longrightarrow> missing bd p \<Longrightarrow> missing bd' p \<or> indexed p (es s)"
    and "unsent bd' \<subseteq> unsent bd"
  shows "search_inv bd' s"
  using assms unfolding search_inv_def by blast

lemma search_inv_dropped: "search_inv bd s \<Longrightarrow> search_inv Incomplete (drop_docs s)"
  by (simp add: search_inv_def numbered_def drop_docs_def)

lemma search_inv_read:
  assumes inv: "search_inv bd s" and ps: "set ps = ran (products s)"
  shows "search_inv (Sending ps) s"
proof -
  have "missing (Sending ps) p" if "x \<in> set (outbox s)" "event x = Upserted p" for x p
  proof -
    from search_invD(2) [OF inv that] obtain q where q: "products s (pid p) = Some q" "ver p \<le> ver q" by fastforce
    with search_invD(4) [OF inv q(1)] have "q \<in> set ps" "pid q = pid p" by (auto simp: ps ran_def)
    with q(2) show ?thesis by auto
  qed
  moreover have "\<exists>x \<in> set (outbox s). event x = Upserted q" if "q \<in> set ps" for q
    using that search_invD(4) [OF inv] by (auto simp: ps ran_def)
  ultimately show ?thesis using inv unfolding search_inv_def by simp
qed

lemma search_inv_sent:
  assumes inv: "search_inv (Sending ps) s"
  shows "search_inv (Sending (drop k ps)) (s\<lparr>es := index_some (\<lambda>_. True) (take k ps) (es s)\<rparr>)"
proof (rule search_inv_weaken)
  have "\<exists>x \<in> set (outbox s). event x = Upserted q" if "q \<in> set (take k ps)" for q
    using search_invD(6) [OF inv, of q] in_set_takeD [OF that] by simp
  from search_inv_es [OF inv this] show "search_inv (Sending ps) (s\<lparr>es := index_some (\<lambda>_. True) (take k ps) (es s)\<rparr>)" .
  show "unsent (Sending (drop k ps)) \<subseteq> unsent (Sending ps)" by (auto dest: in_set_dropD)
  fix p assume "missing (Sending ps) p"
  then obtain q where q: "q \<in> set ps" "pid q = pid p" "ver p \<le> ver q" by auto
  then consider "q \<in> set (take k ps)" | "q \<in> set (drop k ps)" by (metis UnE append_take_drop_id set_append)
  then show "missing (Sending (drop k ps)) p \<or> indexed p (es (s\<lparr>es := index_some (\<lambda>_. True) (take k ps) (es s)\<rparr>))"
  proof cases
    case 1
    then have "indexed q (index_some (\<lambda>_. True) (take k ps) (es s))" unfolding index_some_all by (rule index.all_delivered)
    with q(2,3) show ?thesis by (auto simp: indexed_def)
  next
    case 2
    with q(2,3) show ?thesis by auto
  qed
qed

lemma search_inv_chunk:
  assumes inv: "search_inv (Sending ps) s" and "send_chunk a ps s = (t, bd)"
  shows "search_inv bd t"
proof (cases a)
  case Accepted
  with assms(2) have t: "t = s\<lparr>es := index_some (\<lambda>_. True) (take 1000 ps) (es s)\<rparr>"
    and bd: "bd = (if drop 1000 ps = [] then Whole else Sending (drop 1000 ps))" by (simp_all add: send_chunk_def bulk_index_def)
  note new = search_inv_sent [OF inv, of 1000, folded t]
  show ?thesis
  proof (cases "drop 1000 ps = []")
    case True
    have "search_inv Whole t" by (rule search_inv_weaken [OF new]) (use True in simp_all)
    with True bd show ?thesis by simp
  next
    case False
    with new bd show ?thesis by simp
  qed
next
  case (Failed e b)
  with assms(2) have t: "t = s\<lparr>es := index_some b (take 1000 ps) (es s)\<rparr>" "bd = Incomplete" by (simp_all add: send_chunk_def bulk_index_def)
  have "\<exists>x \<in> set (outbox s). event x = Upserted q" if "q \<in> set (take 1000 ps)" for q
    using search_invD(6) [OF inv, of q] in_set_takeD [OF that] by simp
  from search_inv_es [OF inv this, where b = b] show ?thesis unfolding t by (rule search_inv_weaken) simp_all
qed

lemma shop_reachable_inv: "shop_reachable strict s bd \<Longrightarrow> search_inv bd s"
proof -
  have "(shop_step strict)\<^sup>*\<^sup>* (empty_app, Whole) x \<Longrightarrow> search_inv (snd x) (fst x)" for x
  proof (induction rule: rtranclp_induct)
    case base
    show ?case by (simp add: search_inv_empty)
  next
    case (step y z)
    from step(2) show ?case
    proof cases
      case (ran s t bd)
      with step(3) poly_step_search_inv show ?thesis by simp
    next
      case (dropped s bd)
      with step(3) search_inv_dropped show ?thesis by simp
    next
      case (nothing_read s)
      with step(3) search_invD(2) [of Incomplete s] show ?thesis by (auto intro!: search_inv_weaken [of Incomplete s Whole])
    next
      case (products_read ps s)
      with step(3) search_inv_read show ?thesis by simp
    next
      case (sent s ps a)
      with step(3) search_inv_chunk [of ps s a] show ?thesis by (metis fst_conv prod.collapse snd_conv)
    qed
  qed
  from this [of "(s, bd)"] show "shop_reachable strict s bd \<Longrightarrow> search_inv bd s" by (simp add: shop_reachable_def)
qed

text \<open>C1: In every state the shop reaches from the one \<open>reset\<close> leaves, with the program and the relay interleaved, their statements
  and requests failing or repeated, and the index dropped and rebuilt at any time: once the outbox has no unprocessed event and the
  index was not dropped, or was rebuilt by a \<open>reindex\<close> all of whose requests succeeded after it was dropped last, the search index
  holds exactly the products of PostgreSQL.\<close>

theorem search_index_converges:
  assumes "shop_reachable strict s Whole" "pending s = []"
  shows "es s = products s"
  by (rule search_inv_drained [OF shop_reachable_inv [OF assms(1)] assms(2)])

text \<open>Without the rebuild an empty outbox says nothing: the events were processed before the index was dropped.\<close>

lemma shop_reachable_step: "shop_reachable strict s bd \<Longrightarrow> shop_step strict (s, bd) (t, bd') \<Longrightarrow> shop_reachable strict t bd'"
  unfolding shop_reachable_def by (rule rtranclp.rtrancl_into_rtrancl)

lemma shop_reachable_poly: "poly_reachable strict s \<Longrightarrow> shop_reachable strict s Whole"
  by (erule poly_reachable_inv) (simp add: shop_reachable_def, erule shop_reachable_step, rule shop_step.ran)

theorem failed_rebuild_stays_incomplete:
  assumes "shop_reachable strict s bd" and "pending s = []" and "products s i \<noteq> None" and "set ps = ran (products s)"
    and "sorted (map pid ps)" and "ps \<noteq> []"
  shows "\<exists>t. shop_reachable strict t Incomplete \<and> pending t = [] \<and> products t = products s \<and> es t i = None"
proof -
  let ?d = "drop_docs s"
  have "shop_reachable strict ?d Incomplete" by (rule shop_reachable_step [OF assms(1) shop_step.dropped])
  then have "shop_reachable strict ?d (Sending ps)"
    by (rule shop_reachable_step, intro shop_step.products_read) (use assms(4-6) in \<open>simp_all add: drop_docs_def\<close>)
  moreover have none: "index_some (\<lambda>_. False) cs m = m" for cs m by (induction cs) (simp_all add: comp_def)
  have "send_chunk (Failed Transport (\<lambda>_. False)) ps ?d = (?d, Incomplete)"
    by (simp add: send_chunk_def bulk_index_def none drop_docs_def)
  then have "shop_step strict (?d, Sending ps) (?d, Incomplete)" using shop_step.sent [of strict ?d ps] by metis
  ultimately have "shop_reachable strict ?d Incomplete" by (rule shop_reachable_step)
  with assms(2) show ?thesis by (intro exI [of _ ?d]) (simp add: drop_docs_def pending_def)
qed

section \<open>The leaderboard\<close>

text \<open>The quantities of product \<open>i\<close> in the order events whose key is in \<open>ks\<close>, and in the orders.\<close>

definition units :: "nat set \<Rightarrow> nat \<Rightarrow> entry \<Rightarrow> int" where
  "units ks i x = (case event x of Upserted p \<Rightarrow> 0 | Ordered j n \<Rightarrow> if j = i \<and> oid x \<in> ks then n else 0)"

definition tally :: "nat set \<Rightarrow> entry list \<Rightarrow> nat \<Rightarrow> int" where
  "tally ks xs i = (\<Sum>x \<leftarrow> xs. units ks i x)"

definition sold :: "app \<Rightarrow> nat \<Rightarrow> int" where
  "sold s i = (\<Sum>d \<leftarrow> orders s. if fst d = i then snd d else 0)"

lemma tally_simps [simp]:
  "tally ks [] i = 0" "tally ks (x # xs) i = units ks i x + tally ks xs i" "tally ks (xs @ ys) i = tally ks xs i + tally ks ys i"
  by (simp_all add: tally_def)

lemma tally_other: "k \<notin> oid ` set xs \<Longrightarrow> tally (insert k ks) xs = tally ks xs"
  by (rule ext, induction xs) (auto simp: units_def split: event.splits)

lemma tally_mark: "tally ks (map (\<lambda>x. if oid x \<in> js then x\<lparr>processed := True\<rparr> else x) xs) = tally ks xs"
  by (rule ext, induction xs) (auto simp: units_def split: event.splits)

lemma tally_insert:
  assumes "x \<in> set xs" "event x = Ordered j n" "oid x \<notin> ks" "distinct (map oid xs)"
  shows "tally (insert (oid x) ks) xs = (tally ks xs)(j := tally ks xs j + n)"
  using assms
proof (induction xs)
  case (Cons y ys)
  show ?case
  proof (cases "x = y")
    case True
    with Cons.prems have "oid y \<notin> oid ` set ys" by auto
    with True Cons.prems(2,3) show ?thesis
      by (auto simp: fun_eq_iff tally_other units_def)
  next
    case False
    with Cons have "tally (insert (oid x) ks) ys = (tally ks ys)(j := tally ks ys j + n)" by auto
    moreover have "units (insert (oid x) ks) i y = units ks i y" for i
      using False Cons.prems by (auto simp: units_def split: event.splits)
    ultimately show ?thesis by (auto simp: fun_eq_iff)
  qed
qed simp

lemma tally_full: "(\<And>x j n. x \<in> set xs \<Longrightarrow> event x = Ordered j n \<Longrightarrow> oid x \<in> ks) \<Longrightarrow> tally ks xs = tally UNIV xs"
  by (rule ext, induction xs) (auto simp: units_def split: event.splits)

definition counted :: "entry list \<Rightarrow> derived \<Rightarrow> bool" where
  "counted xs d \<longleftrightarrow> done_ids d \<subseteq> oid ` set xs \<and> board d = tally (done_ids d) xs"

lemma counted_apply:
  assumes "counted xs d" "x \<in> set xs" "distinct (map oid xs)"
  shows "counted xs (snd (apply_entry x d))"
proof (cases "event x")
  case (Ordered j n)
  with assms tally_insert [OF assms(2) Ordered _ assms(3)] show ?thesis
    by (auto simp: apply_entry_def counted_def incr_once_def)
qed (use assms in \<open>simp add: apply_entry_def counted_def\<close>)

lemma run_cmd_states: "snd (run_cmd r x d) \<in> {d, snd (apply_entry x d)}"
  by (simp add: run_cmd_def split_beta)

lemma run_pipe_Cons: "snd (run_pipe env (x # xs) d) = snd (run_pipe (env \<circ> Suc) xs (snd (run_cmd (env 0) x d)))"
  by (simp add: split_beta)

lemma run_pipe_inv:
  assumes "\<And>x d. x \<in> set xs \<Longrightarrow> P d \<Longrightarrow> P (snd (apply_entry x d))" "P d"
  shows "P (snd (run_pipe env xs d))"
  using assms
proof (induction xs arbitrary: env d)
  case (Cons x xs)
  have "P (snd (run_cmd (env 0) x d))" using run_cmd_states [of "env 0" x d] Cons.prems by auto
  with Cons show ?case unfolding run_pipe_Cons by simp
qed simp

definition board_inv :: "app \<Rightarrow> bool" where
  "board_inv s \<longleftrightarrow> numbered s \<and> counted (outbox s) (rdb s) \<and> sold s = tally UNIV (outbox s)"

lemma board_inv_emit:
  assumes "numbered s \<and> counted (outbox s) (rdb s)" "sold s = (\<lambda>i. tally UNIV (outbox s) i + tally UNIV [\<lparr>oid = 0, event = e, processed = False\<rparr>] i)"
  shows "board_inv (emit e s)"
proof -
  have "Suc (length (outbox s)) \<notin> oid ` set (outbox s)"
    using assms(1) by (metis atLeastLessThan_upt atLeastLessThan_iff less_irrefl numbered_def set_map)
  then have new: "Suc (length (outbox s)) \<notin> done_ids (rdb s)" using assms(1) by (auto simp: counted_def)
  have "units (done_ids (rdb s)) i \<lparr>oid = Suc (length (outbox s)), event = e, processed = False\<rparr> = 0" for i
    using new by (simp add: units_def split: event.splits)
  with assms numbered_emit [of s e] show ?thesis
    by (auto simp: board_inv_def counted_def emit_def sold_def fun_eq_iff units_def split: event.splits)
qed

lemma board_inv_upsert:
  assumes "board_inv s"
  shows "board_inv (emit (Upserted q) (s\<lparr>products := f\<rparr>))"
  using assms by (intro board_inv_emit) (simp_all add: board_inv_def numbered_def sold_def [abs_def] units_def del: upt_Suc)

lemma seed_tx_board: "board_inv s \<Longrightarrow> seed_tx env ps s = (Inr u, s') \<Longrightarrow> board_inv s'"
proof (induction ps arbitrary: env s)
  case (Cons ip ps)
  obtain i p where ip: "ip = (i, p)" by force
  from Cons.prems(2) obtain t where t: "seed_product p i s = (Inr (), t)" "seed_tx (env \<circ> Suc) ps t = (Inr u, s')"
    by (auto simp: ip tx_simps)
  from t(1) have "t = emit (Upserted (p\<lparr>pid := i, ver := 1\<rparr>)) (s\<lparr>products := (products s)(i \<mapsto> p\<lparr>pid := i, ver := 1\<rparr>)\<rparr>)"
    by (auto simp: seed_product_def Let_def split: if_splits)
  with Cons.prems(1) have "board_inv t" by (simp add: board_inv_upsert)
  with Cons.IH t(2) show ?case by blast
qed simp

lemma update_tx_board:
  assumes "board_inv s" and "update_tx env i n x s = (Inr u, s')"
  shows "board_inv s'"
proof -
  from assms(2) obtain q where "s' = emit (Upserted q) (s\<lparr>products := (products s)(i \<mapsto> q)\<rparr>)"
    by (auto simp: update_tx_def tx_simps Let_def split: option.splits)
  with assms(1) show ?thesis by (simp add: board_inv_upsert)
qed

lemma orders_tx_board: "board_inv s \<Longrightarrow> orders_tx env drawn s = (Inr u, s') \<Longrightarrow> board_inv s'"
proof (induction drawn arbitrary: env s)
  case (Cons d drawn)
  obtain i n where d: "d = (i, n)" by force
  from Cons.prems(2) have t: "orders_tx (\<lambda>k. env (k + 2)) drawn (emit (Ordered i n) (s\<lparr>orders := orders s @ [(i, n)]\<rparr>)) = (Inr u, s')"
    by (auto simp: d tx_simps split: if_splits)
  have "sold (s\<lparr>orders := orders s @ [(i, n)]\<rparr>) j = sold s j + (if i = j then n else 0)" for j
    by (simp add: sold_def)
  with Cons.prems(1) have "board_inv (emit (Ordered i n) (s\<lparr>orders := orders s @ [(i, n)]\<rparr>))"
    by (intro board_inv_emit) (auto simp: board_inv_def numbered_def units_def fun_eq_iff simp del: upt_Suc)
  from Cons.IH [OF this t] show ?case .
qed simp

lemma board_inv_pipe:
  assumes "board_inv s" "set xs \<subseteq> set (outbox s)"
  shows "board_inv (s\<lparr>es := m, rdb := snd (run_pipe env xs (rdb s))\<rparr>)"
proof -
  have "distinct (map oid (outbox s))" using assms(1) numbered_distinct by (simp add: board_inv_def)
  then have "counted (outbox s) (snd (apply_entry x d))" if "x \<in> set xs" "counted (outbox s) d" for x d
    using counted_apply [OF that(2)] that(1) assms(2) by blast
  moreover have "counted (outbox s) (rdb s)" using assms(1) by (simp add: board_inv_def)
  ultimately have "counted (outbox s) (snd (run_pipe env xs (rdb s)))" by (rule run_pipe_inv)
  with assms(1) show ?thesis by (simp add: board_inv_def numbered_def sold_def [abs_def] del: upt_Suc)
qed

lemma board_inv_mark:
  assumes "board_inv s"
  shows "board_inv (mark_processed ks s)"
proof -
  let ?f = "\<lambda>x. if oid x \<in> ks then x\<lparr>processed := True\<rparr> else x"
  have "numbered (mark_processed ks s)"
    using assms by (simp add: board_inv_def numbered_def mark_oids del: map_map upt_Suc)
  moreover have "oid ` set (map ?f (outbox s)) = oid ` set (outbox s)" by (rule image_set_map) simp
  ultimately show ?thesis using assms
    by (simp only: board_inv_def counted_def mark_processed_simps tally_mark sold_def [abs_def])
qed

lemma board_inv_frame:
  assumes "board_inv s" "outbox t = outbox s" "orders t = orders s" "done_ids (rdb t) = done_ids (rdb s)" "board (rdb t) = board (rdb s)"
  shows "board_inv t"
  using assms by (simp add: board_inv_def numbered_def counted_def sold_def [abs_def] del: upt_Suc)

lemma process_batch_board:
  assumes "board_inv s"
  shows "board_inv (snd (snd (process_batch e s)))"
  using process_batch_cases [of e s]
proof cases
  case idle
  with assms show ?thesis by simp
next
  case (bulk_failed b)
  show ?thesis unfolding bulk_failed by (rule board_inv_frame [OF assms]) simp_all
next
  case (applied d)
  show ?thesis unfolding applied by (rule board_inv_pipe [OF assms pending_subset])
next
  case (marked d)
  show ?thesis unfolding marked by (rule board_inv_mark [OF board_inv_pipe [OF assms pending_subset]])
qed

lemma reindex_frame:
  "products (snd (reindex env ps s)) = products s \<and> outbox (snd (reindex env ps s)) = outbox s \<and>
   orders (snd (reindex env ps s)) = orders s \<and> rdb (snd (reindex env ps s)) = rdb s"
  by (simp add: reindex_def split_beta)

lemma poly_step_board_inv:
  assumes "board_inv s" "poly_step strict s t"
  shows "board_inv t"
  using assms(2)
proof cases
  case seeded
  then show ?thesis unfolding write_states using tx.run_invariant [of board_inv] seed_tx_board assms(1) by metis
next
  case updated
  then show ?thesis unfolding write_states using tx.run_invariant [of board_inv] update_tx_board assms(1) by metis
next
  case ordered
  then show ?thesis unfolding write_states using tx.run_invariant [of board_inv] orders_tx_board assms(1) by metis
next
  case (got rg q rs i)
  show ?thesis unfolding got by (rule board_inv_frame [OF assms(1)]) (simp_all add: get_item_frame)
next
  case (expired i)
  show ?thesis unfolding expired by (rule board_inv_frame [OF assms(1)]) (simp_all add: evict_def)
next
  case (reindexed ps env)
  show ?thesis unfolding reindexed by (rule board_inv_frame [OF assms(1)]) (simp_all add: reindex_frame)
next
  case (batch e)
  with process_batch_board [OF assms(1)] show ?thesis by simp
qed

lemma board_inv_empty: "board_inv empty_app"
  by (simp add: board_inv_def numbered_def counted_def empty_app_def sold_def fun_eq_iff)

lemma reachable_board_inv: "poly_reachable strict s \<Longrightarrow> board_inv s"
  by (erule poly_reachable_inv) (auto intro: board_inv_empty poly_step_board_inv)

section \<open>Events that are marked as processed\<close>

text \<open>An event has reached Redis: its cache key was deleted after it, or its units are counted.\<close>

definition settled :: "entry \<Rightarrow> derived \<Rightarrow> bool" where
  "settled x d \<longleftrightarrow> (case event x of
     Upserted p \<Rightarrow> cache d (cache_key (pid p)) = None
   | Ordered i n \<Rightarrow> oid x \<in> done_ids d)"

interpretation redis: at_least_once "\<lambda>x d. snd (apply_entry x d)" settled
  by unfold_locales (auto simp: apply_entry_def incr_once_def settled_def fun_upd_idem split: event.splits)

lemma settled_stays: "settled x d \<Longrightarrow> settled x (snd (run_pipe env xs d))"
  by (rule run_pipe_inv) (simp_all add: redis.done_stays)

lemma run_cmd_None: "fst (run_cmd r x d) = None \<Longrightarrow> r = Done"
  by (cases r) (auto simp: run_cmd_def split_beta)

lemma run_pipe_None: "fst (run_pipe env xs d) = None \<Longrightarrow> k < length xs \<Longrightarrow> env k = Done"
proof (induction xs arbitrary: env d k)
  case (Cons x xs)
  from Cons.prems(1) have "fst (run_cmd (env 0) x d) = None" "fst (run_pipe (env \<circ> Suc) xs (snd (run_cmd (env 0) x d))) = None"
    by (auto simp: split_beta split: option.splits)
  with Cons.IH [of "env \<circ> Suc"] run_cmd_None Cons.prems(2) show ?case by (cases k) (auto simp: comp_def)
qed simp

lemma run_pipe_settles:
  assumes "\<And>k. k < length xs \<Longrightarrow> env k = Done" "x \<in> set xs"
  shows "settled x (snd (run_pipe env xs d))"
  using assms
proof (induction xs arbitrary: env d)
  case (Cons y ys)
  have run: "snd (run_cmd (env 0) y d) = snd (apply_entry y d)"
    using Cons.prems(1) [of 0] by (simp add: run_cmd_def split_beta)
  have rest: "(env \<circ> Suc) k = Done" if "k < length ys" for k using Cons.prems(1) [of "Suc k"] that by simp
  show ?case
  proof (cases "x = y")
    case True
    then show ?thesis unfolding run_pipe_Cons run by (intro settled_stays) (simp add: redis.done_after)
  next
    case False
    with Cons.prems(2) have "x \<in> set ys" by simp
    with rest have "settled x (snd (run_pipe (env \<circ> Suc) ys (snd (run_cmd (env 0) y d))))" by (rule Cons.IH)
    then show ?thesis unfolding run_pipe_Cons .
  qed
qed simp

text \<open>A batch whose failure is not hidden marks only events that it has settled.\<close>

lemma marked_settled:
  assumes "unmasked e s" "fst (run_pipe (r_pipe e) (take 500 (pending s)) (rdb s)) \<in> {None, Some Redis_Nil}"
    "x \<in> set (take 500 (pending s))"
  shows "settled x (snd (run_pipe (r_pipe e) (take 500 (pending s)) (rdb s)))"
proof (rule run_pipe_settles [OF _ assms(3)])
  fix k assume "k < length (take 500 (pending s))"
  with assms(1,2) run_pipe_None show "r_pipe e k = Done" unfolding unmasked_def by blast
qed

text \<open>
  With no hidden failure: the units of a processed order are counted, and a cached product is
  current or its invalidation is still pending.
\<close>

definition board_done :: "app \<Rightarrow> bool" where
  "board_done s \<longleftrightarrow> (\<forall>x \<in> set (outbox s). \<forall>i n. processed x \<longrightarrow> event x = Ordered i n \<longrightarrow> oid x \<in> done_ids (rdb s))"

definition cache_done :: "app \<Rightarrow> bool" where
  "cache_done s \<longleftrightarrow> (\<forall>i p. cache (rdb s) (cache_key i) = Some p \<longrightarrow>
     products s i = Some p \<or> (\<exists>x \<in> set (pending s). \<exists>q. event x = Upserted q \<and> pid q = i))"

definition settled_inv :: "app \<Rightarrow> bool" where
  "settled_inv s \<longleftrightarrow> search_inv Whole s \<and> board_done s \<and> cache_done s"

text \<open>What a committed write does to the outbox and the products.\<close>

definition extends :: "app \<Rightarrow> app \<Rightarrow> bool" where
  "extends s t \<longleftrightarrow> rdb t = rdb s \<and> (\<exists>xs. outbox t = outbox s @ xs \<and> (\<forall>x \<in> set xs. \<not> processed x) \<and>
     (\<forall>i. products t i \<noteq> products s i \<longrightarrow> (\<exists>x \<in> set xs. \<exists>q. event x = Upserted q \<and> pid q = i)))"

lemma extends_refl: "extends s s"
  by (auto simp: extends_def)

lemma extends_trans: "extends s t \<Longrightarrow> extends t u \<Longrightarrow> extends s u"
proof (unfold extends_def, elim conjE exE)
  fix xs ys
  assume "outbox t = outbox s @ xs" "outbox u = outbox t @ ys" "\<forall>x \<in> set xs. \<not> processed x" "\<forall>x \<in> set ys. \<not> processed x"
    and p: "\<forall>i. products t i \<noteq> products s i \<longrightarrow> (\<exists>x \<in> set xs. \<exists>q. event x = Upserted q \<and> pid q = i)"
      "\<forall>i. products u i \<noteq> products t i \<longrightarrow> (\<exists>x \<in> set ys. \<exists>q. event x = Upserted q \<and> pid q = i)"
    and "rdb t = rdb s" "rdb u = rdb t"
  moreover have "\<exists>x \<in> set (xs @ ys). \<exists>q. event x = Upserted q \<and> pid q = i" if "products u i \<noteq> products s i" for i
    using p that by (cases "products t i = products s i") (metis Un_iff set_append)+
  ultimately show "rdb u = rdb s \<and> (\<exists>xs. outbox u = outbox s @ xs \<and> (\<forall>x \<in> set xs. \<not> processed x) \<and>
      (\<forall>i. products u i \<noteq> products s i \<longrightarrow> (\<exists>x \<in> set xs. \<exists>q. event x = Upserted q \<and> pid q = i)))"
    by (intro conjI exI [of _ "xs @ ys"]) auto
qed

lemma extends_emit: "extends s (emit (Ordered i n) (s\<lparr>orders := os\<rparr>))"
  by (simp add: extends_def emit_def)

lemma extends_upsert: "pid q = i \<Longrightarrow> extends s (emit (Upserted q) (s\<lparr>products := (products s)(i \<mapsto> q)\<rparr>))"
  by (auto simp: extends_def emit_def)

lemma seed_tx_extends: "seed_tx env ps s = (Inr u, s') \<Longrightarrow> extends s s'"
proof (induction ps arbitrary: env s)
  case (Cons ip ps)
  obtain i p where ip: "ip = (i, p)" by force
  from Cons.prems obtain t where t: "seed_product p i s = (Inr (), t)" "seed_tx (env \<circ> Suc) ps t = (Inr u, s')"
    by (auto simp: ip tx_simps)
  from t(1) have "extends s t"
    by (auto simp: seed_product_def Let_def intro!: extends_upsert split: if_splits)
  with Cons.IH [OF t(2)] show ?case by (rule extends_trans [rotated])
qed (simp add: extends_refl)

lemma update_tx_extends:
  assumes "search_inv Whole s" "update_tx env i n x s = (Inr u, s')"
  shows "extends s s'"
proof -
  from assms(2) obtain p where p: "products s i = Some p" and s': "s' = emit (Upserted (p\<lparr>title := n, cents := x, ver := Suc (ver p)\<rparr>))
      (s\<lparr>products := (products s)(i \<mapsto> p\<lparr>title := n, cents := x, ver := Suc (ver p)\<rparr>)\<rparr>)"
    by (auto simp: update_tx_def tx_simps Let_def split: option.splits)
  from search_invD(4) [OF assms(1) p] show ?thesis unfolding s' by (intro extends_upsert) simp
qed

lemma orders_tx_extends: "orders_tx env drawn s = (Inr u, s') \<Longrightarrow> extends s s'"
proof (induction drawn arbitrary: env s)
  case (Cons d drawn)
  obtain i n where d: "d = (i, n)" by force
  from Cons.prems have t: "orders_tx (\<lambda>k. env (k + 2)) drawn (emit (Ordered i n) (s\<lparr>orders := orders s @ [(i, n)]\<rparr>)) = (Inr u, s')"
    by (auto simp: d tx_simps split: if_splits)
  from extends_trans [OF extends_emit Cons.IH [OF t]] show ?case .
qed (simp add: extends_refl)

lemma settled_inv_extends:
  assumes "settled_inv s" "search_inv Whole t" "extends s t"
  shows "settled_inv t"
proof -
  from assms(3) obtain xs where xs: "outbox t = outbox s @ xs" "\<forall>x \<in> set xs. \<not> processed x" "rdb t = rdb s"
    and p: "\<And>i. products t i \<noteq> products s i \<Longrightarrow> \<exists>x \<in> set xs. \<exists>q. event x = Upserted q \<and> pid q = i"
    unfolding extends_def by blast
  from xs have pend: "set (pending t) = set (pending s) \<union> set xs" by (auto simp: pending_def)
  have "cache_done t" unfolding cache_done_def
  proof (intro allI impI)
    fix i q assume "cache (rdb t) (cache_key i) = Some q"
    with assms(1) xs(3) have "products s i = Some q \<or> (\<exists>x \<in> set (pending s). \<exists>q. event x = Upserted q \<and> pid q = i)"
      unfolding settled_inv_def cache_done_def by metis
    then show "products t i = Some q \<or> (\<exists>x \<in> set (pending t). \<exists>q. event x = Upserted q \<and> pid q = i)"
      unfolding pend using p [of i] by (metis UnCI)
  qed
  moreover have "board_done t" using assms(1) xs by (auto simp: settled_inv_def board_done_def)
  ultimately show ?thesis using assms(2) by (simp add: settled_inv_def)
qed

lemma settled_inv_frame:
  assumes "settled_inv s" "outbox t = outbox s" "products t = products s" "search_inv Whole t" "done_ids (rdb s) \<subseteq> done_ids (rdb t)"
    "\<And>i p. cache (rdb t) (cache_key i) = Some p \<Longrightarrow> cache (rdb s) (cache_key i) = Some p \<or> products s i = Some p"
  shows "settled_inv t"
  using assms unfolding settled_inv_def board_done_def cache_done_def pending_def by (metis subsetD)

lemma run_pipe_grows: "done_ids d \<subseteq> done_ids (snd (run_pipe env xs d))"
  by (rule run_pipe_inv) (auto simp: apply_entry_def incr_once_def split: event.splits)

lemma run_pipe_cache: "cache (snd (run_pipe env xs d)) k = Some p \<Longrightarrow> cache d k = Some p"
  by (rule run_pipe_inv [where P = "\<lambda>d'. cache d' k = Some p \<longrightarrow> cache d k = Some p", THEN mp])
    (auto simp: apply_entry_def incr_once_def split: event.splits if_splits)

lemma settled_inv_get:
  assumes "settled_inv s"
  shows "settled_inv (snd (get_item rg q rs i s))"
proof (rule settled_inv_frame [OF assms])
  show "search_inv Whole (snd (get_item rg q rs i s))"
    using assms search_inv_frame get_item_frame unfolding settled_inv_def by metis
  fix j p assume "cache (rdb (snd (get_item rg q rs i s))) (cache_key j) = Some p"
  then show "cache (rdb s) (cache_key j) = Some p \<or> products s j = Some p"
    by (auto simp: get_item_def query_Inr product_cache.key_inj split: option.splits sum.splits if_splits)
qed (simp_all add: get_item_frame)

lemma settled_inv_pipe:
  assumes "settled_inv s" "search_inv Whole (s\<lparr>es := m, rdb := snd (run_pipe env xs (rdb s))\<rparr>)"
  shows "settled_inv (s\<lparr>es := m, rdb := snd (run_pipe env xs (rdb s))\<rparr>)"
  by (rule settled_inv_frame [OF assms(1) _ _ assms(2)]) (auto simp: run_pipe_grows dest: run_pipe_cache)

lemma cache_done_marked:
  assumes cd: "cache_done s" and st: "\<And>x. x \<in> set (outbox s) \<Longrightarrow> oid x \<in> ks \<Longrightarrow> settled x d"
    and d: "\<And>k p. cache d k = Some p \<Longrightarrow> cache (rdb s) k = Some p"
  shows "cache_done (mark_processed ks (s\<lparr>es := m, rdb := d\<rparr>))" (is "cache_done ?t")
  unfolding cache_done_def
proof (intro allI impI)
  fix i p assume "cache (rdb ?t) (cache_key i) = Some p"
  then have p: "cache d (cache_key i) = Some p" by simp
  then have "cache (rdb s) (cache_key i) = Some p" by (rule d)
  with cd consider "products s i = Some p" | x q where "x \<in> set (pending s)" "event x = Upserted q" "pid q = i"
    unfolding cache_done_def by metis
  then show "products ?t i = Some p \<or> (\<exists>x \<in> set (pending ?t). \<exists>q. event x = Upserted q \<and> pid q = i)"
  proof cases
    case (2 x q)
    then have x: "x \<in> set (outbox s)" "\<not> processed x" by (auto simp: pending_def)
    from 2 p have "\<not> settled x d" by (simp add: settled_def)
    with st x(1) have "oid x \<notin> ks" by blast
    with x have "x \<in> set (pending ?t)" by (force simp: pending_def)
    with 2 show ?thesis by blast
  qed simp
qed

lemma settled_inv_marked:
  assumes inv: "settled_inv s" and un: "unmasked e s"
    and pipe: "fst (run_pipe (r_pipe e) (take 500 (pending s)) (rdb s)) \<in> {None, Some Redis_Nil}"
    and d: "d = snd (run_pipe (r_pipe e) (take 500 (pending s)) (rdb s))"
  shows "settled_inv (mark_processed (oid ` set (take 500 (pending s)))
    (s\<lparr>es := index_some (\<lambda>_. True) (docs_of (take 500 (pending s))) (es s), rdb := d\<rparr>))" (is "settled_inv ?t")
proof -
  let ?xs = "take 500 (pending s)"
  have num: "numbered s" using inv by (simp add: settled_inv_def search_inv_def)
  have st: "settled x d" if "x \<in> set (outbox s)" "oid x \<in> oid ` set ?xs" for x
    unfolding d by (rule marked_settled [OF un pipe in_batch [OF num that]])
  have "board_done ?t"
    unfolding board_done_def
  proof (intro ballI allI impI)
    fix y i n assume y: "y \<in> set (outbox ?t)" "processed y" "event y = Ordered i n"
    then obtain x where x: "x \<in> set (outbox s)" "oid x = oid y" "event x = Ordered i n" "processed x \<or> oid x \<in> oid ` set ?xs"
      by (auto split: if_splits)
    show "oid y \<in> done_ids (rdb ?t)"
    proof (cases "processed x")
      case True
      with x inv have "oid x \<in> done_ids (rdb s)" unfolding settled_inv_def board_done_def by blast
      with x(2) run_pipe_grows [of "rdb s"] show ?thesis by (auto simp: d)
    next
      case False
      with x st have "settled x d" by blast
      with x show ?thesis by (simp add: settled_def)
    qed
  qed
  moreover have "cache_done ?t"
    by (rule cache_done_marked) (use inv st d in \<open>auto simp: settled_inv_def dest: run_pipe_cache\<close>)
  moreover have "search_inv Whole ?t" using inv search_inv_marked by (simp add: settled_inv_def)
  ultimately show ?thesis by (simp add: settled_inv_def)
qed

lemma poly_step_settled_inv:
  assumes inv: "settled_inv s" and step: "poly_step True s t"
  shows "settled_inv t"
proof -
  have sinv: "search_inv Whole s" using inv by (simp add: settled_inv_def)
  have tinv: "search_inv Whole t" by (rule poly_step_search_inv [OF sinv step])
  note ext = settled_inv_extends [OF inv tinv]
  show ?thesis using step
  proof cases
    case seeded
    then show ?thesis using tx.run_relation [of extends] extends_refl seed_tx_extends ext unfolding write_states by metis
  next
    case updated
    then show ?thesis using tx.run_relation [of extends] extends_refl update_tx_extends [OF sinv] ext unfolding write_states by metis
  next
    case ordered
    then show ?thesis using tx.run_relation [of extends] extends_refl orders_tx_extends ext unfolding write_states by metis
  next
    case (got rg q rs i)
    with settled_inv_get [OF inv] show ?thesis by simp
  next
    case (expired i)
    show ?thesis by (rule settled_inv_frame [OF inv _ _ tinv]) (auto simp: expired evict_def split: if_splits)
  next
    case (reindexed ps env)
    show ?thesis by (rule settled_inv_frame [OF inv _ _ tinv]) (auto simp: reindexed reindex_frame)
  next
    case (batch e)
    show ?thesis using process_batch_cases [of e s]
    proof cases
      case idle
      with batch inv show ?thesis by simp
    next
      case (bulk_failed b)
      show ?thesis by (rule settled_inv_frame [OF inv _ _ tinv]) (auto simp: batch bulk_failed)
    next
      case (applied d)
      then show ?thesis using settled_inv_pipe [OF inv] tinv batch by metis
    next
      case (marked d)
      then show ?thesis using settled_inv_marked [OF inv] batch by simp
    qed
  qed
qed

lemma reachable_settled_inv: "poly_reachable True s \<Longrightarrow> settled_inv s"
proof (erule poly_reachable_inv)
  show "settled_inv empty_app"
    by (simp add: settled_inv_def search_inv_empty board_done_def cache_done_def) (simp add: empty_app_def)
qed (rule poly_step_settled_inv)

section \<open>Draining and rebuilding\<close>

definition calm :: batch_env where
  "calm = \<lparr>r_begin = Done, r_claim = Done, r_bulk = Accepted, r_pipe = (\<lambda>_. Done), r_mark = Done, r_commit = Done\<rparr>"

lemma pending_marked:
  assumes "numbered s"
  shows "pending (mark_processed (oid ` set (take k (pending s))) s) = drop k (pending s)"
proof -
  let ?ks = "oid ` set (take k (pending s))"
  have "filter (\<lambda>x. \<not> processed x) (map (\<lambda>x. if oid x \<in> ks then x\<lparr>processed := True\<rparr> else x) xs) =
      filter (\<lambda>x. oid x \<notin> ks) (filter (\<lambda>x. \<not> processed x) xs)" for ks xs
    by (induction xs) auto
  then have "pending (mark_processed ?ks s) = filter (\<lambda>x. oid x \<notin> ?ks) (pending s)"
    by (simp add: pending_def)
  moreover have ks: "?ks = set (take k (map oid (pending s)))" by (simp add: take_map)
  moreover have "distinct (map oid (pending s))"
    using numbered_distinct [OF assms] by (simp add: pending_def distinct_map_filter)
  ultimately show ?thesis by (simp only: ks filter_notin_take)
qed

lemma process_batch_pending:
  assumes "numbered s"
  shows "pending (snd (snd (process_batch e s))) \<in> {pending s, drop 500 (pending s)}"
  using process_batch_cases [of e s]
proof cases
  case (marked d)
  have "pending (mark_processed ks (s\<lparr>es := m, rdb := d\<rparr>)) = pending (mark_processed ks s)" for ks m
    by (simp add: pending_def)
  with pending_marked [OF assms, of 500] show ?thesis unfolding marked by simp
qed (simp_all add: pending_def)

lemma run_pipe_calm: "fst (run_pipe (\<lambda>_. Done) xs d) \<in> {None, Some Redis_Nil}"
proof (induction xs arbitrary: d)
  case (Cons x xs)
  from Cons [of "snd (run_cmd Done x d)"] show ?case
    by (auto simp: comp_def split_beta run_cmd_def split: option.splits if_splits)
qed simp

lemma calm_batch:
  assumes "numbered s"
  shows "pending (snd (snd (process_batch calm s))) = drop 500 (pending s)"
proof (cases "pending s = []")
  case True
  then show ?thesis by (simp add: process_batch_def calm_def)
next
  case False
  let ?xs = "take 500 (pending s)"
  from False have xs: "?xs \<noteq> []" by simp
  obtain d where "run_pipe (\<lambda>_. Done) ?xs (rdb s) = (None, d) \<or> run_pipe (\<lambda>_. Done) ?xs (rdb s) = (Some Redis_Nil, d)"
    using run_pipe_calm [of ?xs "rdb s"] by (cases "run_pipe (\<lambda>_. Done) ?xs (rdb s)") auto
  moreover have "\<exists>m. (if docs_of ?xs = [] then (None, es s) else bulk_index Accepted (docs_of ?xs) (es s)) = (None, m)"
    by (simp add: bulk_index_def)
  then obtain m where "(if docs_of ?xs = [] then (None, es s) else bulk_index Accepted (docs_of ?xs) (es s)) = (None, m)" ..
  ultimately have "snd (snd (process_batch calm s)) = mark_processed (oid ` set ?xs) (s\<lparr>es := m, rdb := d\<rparr>)"
    using xs by (auto simp: process_batch_def calm_def Let_def simp del: take_eq_Nil)
  then have "pending (snd (snd (process_batch calm s))) = pending (mark_processed (oid ` set ?xs) s)"
    by (simp add: pending_def)
  with pending_marked [OF assms] show ?thesis by simp
qed

lemma poly_reachable_relay: "poly_reachable False s \<Longrightarrow> poly_reachable False (relay envs s)"
proof (induction envs arbitrary: s)
  case (Cons e envs)
  have "poly_step False s (snd (snd (process_batch e s)))" by (rule poly_step.batch) simp
  with Cons.prems have "poly_reachable False (snd (snd (process_batch e s)))"
    unfolding poly_reachable_def by (rule rtranclp.rtrancl_into_rtrancl)
  from Cons.IH [OF this] show ?case by (simp add: relay_def)
qed (simp add: relay_def)

lemma relay_pending:
  assumes "search_inv Whole s" "length (pending s) \<le> 500 * length (filter (\<lambda>e. e = calm) envs)"
  shows "pending (relay envs s) = []"
  using assms
proof (induction envs arbitrary: s)
  case Nil
  then show ?case by (simp add: relay_def)
next
  case (Cons e envs)
  let ?t = "snd (snd (process_batch e s))"
  have num: "numbered s" using Cons.prems(1) by (simp add: search_inv_def)
  have "length (pending ?t) \<le> 500 * length (filter (\<lambda>e. e = calm) envs)"
  proof (cases "e = calm")
    case True
    with Cons.prems(2) show ?thesis by (simp add: calm_batch [OF num])
  next
    case False
    with Cons.prems(2) process_batch_pending [OF num, of e] show ?thesis by auto
  qed
  with Cons.IH [OF process_batch_inv [OF Cons.prems(1)]] show ?case by (simp add: relay_def)
qed

lemma process_batch_products: "products (snd (snd (process_batch e s))) = products s"
  using process_batch_cases [of e s] by cases simp_all

lemma relay_products: "products (relay envs s) = products s"
  by (induction envs arbitrary: s) (simp_all add: relay_def process_batch_products)

lemma reindex_accepted: "reindex_chunks (\<lambda>_. Accepted) cs m = (None, index_some (\<lambda>_. True) (concat cs) m)"
  by (induction cs arbitrary: m) (simp_all add: bulk_index_def comp_def index_some_all)

text \<open>An order is counted at most once however often its event is delivered: the leaderboard is the sum over the events whose key is set.\<close>

theorem orders_counted_once:
  assumes "poly_reachable strict s"
  shows "done_ids (rdb s) \<subseteq> oid ` set (outbox s) \<and> distinct (map oid (outbox s)) \<and>
    (\<forall>i. board (rdb s) i = tally (done_ids (rdb s)) (outbox s) i) \<and> (\<forall>i. sold s i = tally UNIV (outbox s) i)"
  using reachable_board_inv [OF assms] numbered_distinct by (auto simp: board_inv_def counted_def)

text \<open>Without hidden failures, a drained outbox means that the leaderboard holds the sums of the orders and that every cached product is current.\<close>

theorem redis_converges:
  assumes "poly_reachable True s" "pending s = []"
  shows "(\<forall>i. board (rdb s) i = sold s i) \<and>
    (\<forall>i p. cache (rdb s) (cache_key i) = Some p \<longrightarrow> products s i = Some p)"
proof -
  note inv = reachable_settled_inv [OF assms(1)]
  have "processed x" if "x \<in> set (outbox s)" for x using that assms(2) by (simp add: pending_def filter_empty_conv)
  with inv have "tally (done_ids (rdb s)) (outbox s) = tally UNIV (outbox s)"
    by (intro tally_full) (auto simp: settled_inv_def board_done_def)
  moreover have "board_inv s" by (rule reachable_board_inv [OF assms(1)])
  moreover have "cache_done s" using inv by (simp add: settled_inv_def)
  ultimately show ?thesis using assms(2) by (auto simp: board_inv_def counted_def cache_done_def)
qed

text \<open>The relay drains the outbox: \<open>k\<close> batches without errors are enough for \<open>500 * k\<close> events, however many others fail in between, and the index is then the product table.\<close>

theorem relay_drains:
  assumes "poly_reachable False s" "length (pending s) \<le> 500 * length (filter (\<lambda>e. e = calm) envs)"
  shows "pending (relay envs s) = [] \<and> es (relay envs s) = products s"
proof -
  have "search_inv Whole (relay envs s)" by (rule reachable_search_inv [OF poly_reachable_relay [OF assms(1)]])
  moreover have "pending (relay envs s) = []" by (rule relay_pending [OF reachable_search_inv [OF assms(1)] assms(2)])
  ultimately show ?thesis using search_inv_drained relay_products by metis
qed

lemma index_all_products:
  assumes key: "\<And>i q. products s i = Some q \<Longrightarrow> pid q = i" and ps: "set ps = ran (products s)"
  shows "index_some (\<lambda>_. True) ps Map.empty = products s" (is "?m = _")
proof
  fix i
  have stored: "d \<in> ran (products s) \<and> pid d = i" if "?m i = Some d" for i d
    using index_some_from [OF that] ps by simp
  have unique: "products s i = Some d" if "d \<in> ran (products s)" "pid d = i" for i d
    using that key by (auto simp: ran_def)
  show "?m i = products s i"
  proof (cases "products s i")
    case (Some q)
    then have "q \<in> set ps" "pid q = i" using ps key by (auto simp: ran_def)
    with index.all_delivered [of q ps Map.empty] obtain d where "?m i = Some d"
      by (auto simp: indexed_def index_some_all)
    with stored unique show ?thesis by metis
  next
    case None
    with stored unique show ?thesis by (metis not_None_eq option.distinct(1))
  qed
qed

text \<open>Reindexing a dropped index from PostgreSQL rebuilds it, without regard to the outbox.\<close>

theorem reindex_rebuilds:
  assumes "poly_reachable strict s" "set ps = ran (products s)"
  shows "reindex (\<lambda>_. Accepted) ps (s\<lparr>es := Map.empty\<rparr>) = (None, s\<lparr>es := products s\<rparr>)"
proof -
  have "index_some (\<lambda>_. True) ps Map.empty = products s"
    by (rule index_all_products [OF _ assms(2)]) (use search_invD(4) [OF reachable_search_inv [OF assms(1)]] in blast)
  then show ?thesis by (simp add: reindex_def reindex_accepted concat_chunk index_some_all)
qed

lemma run_pipe_refused: "snd (run_pipe (\<lambda>_. Refused err) xs d) = d"
  by (induction xs arbitrary: d) (simp_all add: comp_def split_beta run_cmd_def)

text \<open>C17: \<open>processBatch\<close> ignores the error \<open>redis.Nil\<close> of a duplicate. When the first event of a batch is one, the commands of
  all later events may fail: the batch still succeeds, and its orders are marked but never counted.
\<close>

theorem hidden_failure_loses_order:
  assumes "take 500 (pending s) = x # xs" "event x = Ordered i n" "oid x \<in> done_ids (rdb s)"
    "e = calm\<lparr>r_pipe := \<lambda>k. if k = 0 then Done else Refused err\<rparr>"
    "y \<in> set xs" "oid y \<notin> done_ids (rdb s)"
  shows "\<exists>t. process_batch e s = (Suc (length xs), None, t) \<and> oid y \<notin> done_ids (rdb t) \<and>
    (\<forall>z \<in> set (outbox t). oid z = oid y \<longrightarrow> processed z)"
proof -
  have "run_pipe (r_pipe e) (x # xs) (rdb s) = (Some Redis_Nil, rdb s)"
    using assms(2-4) by (simp add: run_cmd_def apply_entry_def incr_once_def comp_def split_beta run_pipe_refused)
  moreover have "\<exists>m. (if docs_of (x # xs) = [] then (None, es s) else bulk_index (r_bulk e) (docs_of (x # xs)) (es s)) = (None, m)"
    using assms(4) by (simp add: bulk_index_def calm_def)
  then obtain m where "(if docs_of (x # xs) = [] then (None, es s) else bulk_index (r_bulk e) (docs_of (x # xs)) (es s)) = (None, m)" ..
  ultimately have "process_batch e s = (Suc (length xs), None, mark_processed (oid ` set (x # xs)) (s\<lparr>es := m\<rparr>))"
    using assms(4) unfolding process_batch_def assms(1) Let_def by (simp add: calm_def)
  with assms(5,6) show ?thesis by auto
qed

section \<open>A day of the shop\<close>

definition mouse :: item where
  "mouse = \<lparr>pid = 0, title = ''Wireless Mouse'', text_of = ''Model 1'', group_of = ''computing'', cents = 2499, stock = 7, ver = 0\<rparr>"

text \<open>Two products reach the derived stores; then a page view, orders and a price change.\<close>

definition seeded_shop :: app where
  "seeded_shop = snd (snd (process_batch calm (snd (seed_products Done Done (\<lambda>_. Done) [(1, mouse), (2, mouse)] empty_app))))"

definition shop_day :: app where
  "shop_day = snd (update_product Done Done (\<lambda>_. Done) 1 ''Mouse PRO'' 1999
     (snd (place_random_orders Done Done (\<lambda>_. Done) [(1, 2), (2, 3), (1, 1)] (snd (get_item Done Done Done 1 seeded_shop)))))"

text \<open>The orders are applied twice, and more are placed before the second time.\<close>

definition retried_day :: app where
  "retried_day = snd (place_random_orders Done Done (\<lambda>_. Done) [(2, 5)]
     (snd (snd (process_batch (calm\<lparr>r_mark := Refused Transport\<rparr>) shop_day))))"

lemma reachable_step: "poly_reachable strict s \<Longrightarrow> poly_step strict s t \<Longrightarrow> poly_reachable strict t"
  unfolding poly_reachable_def by (rule rtranclp.rtrancl_into_rtrancl)

lemma unmasked_calm: "r_pipe e = (\<lambda>_. Done) \<Longrightarrow> unmasked e s"
  by (simp add: unmasked_def)

lemma reachable_batch: "poly_reachable strict s \<Longrightarrow> r_pipe e = (\<lambda>_. Done) \<Longrightarrow> poly_reachable strict (snd (snd (process_batch e s)))"
  by (rule reachable_step [OF _ poly_step.batch]) (simp_all add: unmasked_calm)

lemma shop_day_reachable: "poly_reachable strict shop_day"
  unfolding shop_day_def seeded_shop_def
  by (rule reachable_step [OF _ poly_step.updated] reachable_step [OF _ poly_step.ordered]
        reachable_step [OF _ poly_step.got] reachable_batch reachable_step [OF _ poly_step.seeded])+
    (simp_all add: poly_reachable_def calm_def)

lemma retried_day_reachable: "poly_reachable strict retried_day"
  unfolding retried_day_def
  by (rule reachable_step [OF _ poly_step.ordered] reachable_batch shop_day_reachable)+ (simp add: calm_def)

lemma shop_day_drained: "pending (snd (snd (process_batch calm shop_day))) = []"
  by code_simp

text \<open>The index is dropped with events outstanding, rebuilt, and the relay runs again.\<close>

definition day_docs :: "item list" where
  "day_docs = [mouse\<lparr>pid := 1, title := ''Mouse PRO'', cents := 1999, ver := 2\<rparr>, mouse\<lparr>pid := 2, ver := 1\<rparr>]"

definition rebuilt_day :: app where
  "rebuilt_day = snd (snd (process_batch calm (fst (send_chunk Accepted day_docs (drop_docs shop_day)))))"

lemma seeded_products: "products (snd (seed_products Done Done (\<lambda>_. Done) [(1, mouse), (2, mouse)] empty_app)) =
    [1 \<mapsto> mouse\<lparr>pid := 1, ver := 1\<rparr>, 2 \<mapsto> mouse\<lparr>pid := 2, ver := 1\<rparr>]"
  by (simp add: seed_products_def begin_func_def stmt_def bind_tx_def seed_product_def emit_def empty_app_def Let_def comp_def)

lemma ordered_products: "products (snd (place_random_orders Done Done (\<lambda>_. Done) drawn s)) = products s"
proof -
  have "products (snd (orders_tx (\<lambda>_. Done) drawn s)) = products s" for drawn s
    by (induction drawn arbitrary: s) (auto simp: stmt_def bind_tx_def emit_def comp_def)
  then show ?thesis by (auto simp: place_random_orders_def begin_func_def split_beta split: sum.splits)
qed

lemma day_products: "products shop_day = [1 \<mapsto> mouse\<lparr>pid := 1, title := ''Mouse PRO'', cents := 1999, ver := 2\<rparr>, 2 \<mapsto> mouse\<lparr>pid := 2, ver := 1\<rparr>]"
proof -
  have u: "products s 1 = Some p \<Longrightarrow> products (snd (update_product Done Done (\<lambda>_. Done) 1 n x s)) =
      (products s)(1 \<mapsto> p\<lparr>title := n, cents := x, ver := Suc (ver p)\<rparr>)" for s p n x
    by (simp add: update_product_def begin_func_def update_tx_def stmt_def bind_tx_def Let_def emit_def)
  have s: "products seeded_shop = [1 \<mapsto> mouse\<lparr>pid := 1, ver := 1\<rparr>, 2 \<mapsto> mouse\<lparr>pid := 2, ver := 1\<rparr>]"
    by (simp add: seeded_shop_def process_batch_products seeded_products [simplified])
  have e: "(mouse\<lparr>pid := 1, ver := 1\<rparr>)\<lparr>title := n, cents := x, ver := Suc (ver (mouse\<lparr>pid := 1, ver := 1\<rparr>))\<rparr> =
      mouse\<lparr>pid := 1, title := n, cents := x, ver := 2\<rparr>" for n x
    by (simp add: mouse_def)
  let ?s = "snd (place_random_orders Done Done (\<lambda>_. Done) [(1, 2), (2, 3), (1, 1)] (snd (get_item Done Done Done 1 seeded_shop)))"
  have p: "products ?s = [1 \<mapsto> mouse\<lparr>pid := 1, ver := 1\<rparr>, 2 \<mapsto> mouse\<lparr>pid := 2, ver := 1\<rparr>]"
    by (simp only: ordered_products get_item_frame s)
  then have "products ?s 1 = Some (mouse\<lparr>pid := 1, ver := 1\<rparr>)" by simp
  from u [OF this, unfolded e p] show ?thesis unfolding shop_day_def by (simp only:) (rule ext, simp)
qed

lemma search_index_converges_witness:
  "es rebuilt_day 1 = Some (mouse\<lparr>pid := 1, title := ''Mouse PRO'', cents := 1999, ver := 2\<rparr>) \<and> es shop_day 1 \<noteq> es rebuilt_day 1"
proof -
  let ?d = "drop_docs shop_day"
  have "shop_reachable False ?d Incomplete"
    by (rule shop_reachable_step [OF shop_reachable_poly [OF shop_day_reachable] shop_step.dropped])
  then have "shop_reachable False ?d (Sending day_docs)"
    by (rule shop_reachable_step, intro shop_step.products_read) (simp_all add: drop_docs_def day_products ran_map_upd_Some day_docs_def insert_commute)
  moreover have "send_chunk Accepted day_docs ?d = (fst (send_chunk Accepted day_docs ?d), Whole)"
    by (simp add: send_chunk_def bulk_index_def day_docs_def)
  ultimately have "shop_reachable False (fst (send_chunk Accepted day_docs ?d)) Whole"
    using shop_reachable_step [of False ?d "Sending day_docs"] shop_step.sent [of False ?d day_docs Accepted] by metis
  then have r: "shop_reachable False rebuilt_day Whole" unfolding rebuilt_day_def
    by (rule shop_reachable_step) (intro shop_step.ran poly_step.batch, simp)
  have "pending rebuilt_day = []" by code_simp
  from search_index_converges [OF r this] have "es rebuilt_day 1 = products rebuilt_day 1" by simp
  also have "products rebuilt_day 1 = products shop_day 1"
    by (simp add: rebuilt_day_def process_batch_products send_chunk_def bulk_index_def drop_docs_def)
  also have "\<dots> = Some (mouse\<lparr>pid := 1, title := ''Mouse PRO'', cents := 1999, ver := 2\<rparr>)" by (simp add: day_products)
  finally have "es rebuilt_day 1 = Some (mouse\<lparr>pid := 1, title := ''Mouse PRO'', cents := 1999, ver := 2\<rparr>)" .
  moreover have "map_option ver (es shop_day 1) = Some 1" by code_simp
  ultimately show ?thesis by auto
qed

lemma orders_counted_once_witness:
  "(\<forall>i. board (rdb retried_day) i = tally (done_ids (rdb retried_day)) (outbox retried_day) i) \<and>
   board (rdb retried_day) 1 = 3 \<and> length (pending retried_day) = 5"
proof -
  have "board (rdb retried_day) 1 = 3 \<and> length (pending retried_day) = 5" by code_simp
  with orders_counted_once [OF retried_day_reachable [of False]] show ?thesis by blast
qed

lemma redis_converges_witness:
  "board (rdb (snd (snd (process_batch calm retried_day)))) 2 = 8"
proof -
  have "poly_reachable True (snd (snd (process_batch calm retried_day)))"
    by (rule reachable_batch [OF retried_day_reachable]) (simp add: calm_def)
  moreover have "pending (snd (snd (process_batch calm retried_day))) = []" by code_simp
  ultimately have "board (rdb (snd (snd (process_batch calm retried_day)))) 2 = sold (snd (snd (process_batch calm retried_day))) 2"
    using redis_converges by blast
  also have "\<dots> = 8" by code_simp
  finally show ?thesis .
qed

lemma relay_drains_witness:
  "pending (relay [calm\<lparr>r_commit := Lost Transport\<rparr>, calm\<lparr>r_bulk := Failed Transport (\<lambda>_. False)\<rparr>, calm] retried_day) = []"
proof -
  have "length (pending retried_day) = 5" by code_simp
  moreover have "length (filter (\<lambda>e. e = calm) [calm\<lparr>r_commit := Lost Transport\<rparr>, calm\<lparr>r_bulk := Failed Transport (\<lambda>_. False)\<rparr>, calm]) \<ge> 1"
    by simp
  ultimately show ?thesis using relay_drains [OF retried_day_reachable] by auto
qed

lemma reindex_rebuilds_witness:
  "es (snd (reindex (\<lambda>_. Accepted) [mouse\<lparr>pid := 1, ver := 1\<rparr>]
    ((snd (seed_products Done Done (\<lambda>_. Done) [(1, mouse)] empty_app))\<lparr>es := Map.empty\<rparr>))) 1 = Some (mouse\<lparr>pid := 1, ver := 1\<rparr>)"
proof -
  let ?s = "snd (seed_products Done Done (\<lambda>_. Done) [(1, mouse)] empty_app)"
  have p: "products ?s = [1 \<mapsto> mouse\<lparr>pid := 1, ver := 1\<rparr>]"
    by (simp add: write_states begin_func_Done bind_tx_def stmt_Done seed_product_def Let_def empty_app_def emit_def)
  have "poly_reachable False ?s"
    by (rule reachable_step [OF _ poly_step.seeded]) (simp add: poly_reachable_def)
  from reindex_rebuilds [OF this, of "[mouse\<lparr>pid := 1, ver := 1\<rparr>]"] p show ?thesis by simp
qed

lemma hidden_failure_loses_order_witness:
  "(\<exists>t. process_batch (calm\<lparr>r_pipe := \<lambda>k. if k = 0 then Done else Refused Transport\<rparr>) retried_day = (5, None, t) \<and> 7 \<notin> done_ids (rdb t)) \<and>
   board (rdb (snd (snd (process_batch (calm\<lparr>r_pipe := \<lambda>k. if k = 0 then Done else Refused Transport\<rparr>) retried_day)))) 2 = 3 \<and>
   sold retried_day 2 = 8"
proof -
  let ?p = "pending retried_day"
  have len: "length ?p = 5" by code_simp
  then have take: "take 500 ?p = hd ?p # tl ?p" by (cases ?p) simp_all
  have p: "event (hd ?p) = Ordered 1 2" "oid (hd ?p) \<in> done_ids (rdb retried_day)" "last (tl ?p) \<in> set (tl ?p)"
    "oid (last (tl ?p)) = 7" "7 \<notin> done_ids (rdb retried_day)"
    by code_simp+
  have "board (rdb (snd (snd (process_batch (calm\<lparr>r_pipe := \<lambda>k. if k = 0 then Done else Refused Transport\<rparr>) retried_day)))) 2 = 3"
    "sold retried_day 2 = 8" by code_simp+
  with hidden_failure_loses_order [OF take p(1,2) refl p(3), of Transport] p(4,5) len show ?thesis by auto
qed

end
