(* ===== verification/PolyglotMain.thy ===== *)
theory PolyglotMain
  imports Polyglot "HOL-Library.List_Lexorder" "HOL-Library.Product_Lexorder"
begin

text \<open>
  \<open>main\<close> of \<open>simulate_polyglot_persistence/main.go\<close> with \<open>reset\<close>, the client of Elasticsearch and the waits. Before
  every call of the program the relay may have run any batches, with any answers, if it was started. A call takes the
  answers of its tick, so that \<open>nat \<Rightarrow> tick_env\<close> is the whole environment of a run.
\<close>

section \<open>Seeds\<close>

text \<open>The dash in the descriptions is three bytes of UTF-8.\<close>

definition dash :: string where
  "dash = map char_of [226, 128, 148 :: nat]"

definition to_lower :: "string \<Rightarrow> string" where
  "to_lower = map (\<lambda>c. if 65 \<le> (of_char c :: nat) \<and> (of_char c :: nat) \<le> 90 then char_of (of_char c + (32 :: nat)) else c)"

definition adjectives :: "string list" where
  "adjectives = [''Aurora'', ''Nimbus'', ''Vertex'', ''Pulse'', ''Echo'', ''Zenith'', ''Nova'', ''Orbit'', ''Quantum'', ''Summit'']"

definition kinds :: "(string \<times> string list) list" where
  "kinds =
     [(''audio'', [''Wireless Headphones'', ''Bluetooth Speaker'', ''Noise Cancelling Earbuds'', ''Studio Monitor Headphones'']),
      (''computing'', [''Mechanical Keyboard'', ''Wireless Mouse'', ''USB-C Hub'', ''27-inch Monitor'']),
      (''home'', [''Smart Lamp'', ''Air Purifier'', ''Robot Vacuum'', ''Coffee Grinder'']),
      (''outdoor'', [''Trail Backpack'', ''Camping Lantern'', ''Insulated Bottle'', ''Wireless Bike Light''])]"

text \<open>Product \<open>i\<close> of \<open>seedProducts\<close>; the draws are the adjective, the price over 10.00 and the stock.\<close>

definition seed_item :: "nat \<Rightarrow> nat \<times> nat \<times> nat \<Rightarrow> item" where
  "seed_item i d = (case d of (a, extra, st) \<Rightarrow> case kinds ! (i mod 4) of (cat, names) \<Rightarrow>
     let it = names ! (i div 4 mod length names)
     in \<lparr>pid = 0, title = adjectives ! a @ '' '' @ it @ '' '' @ dec (100 + i),
         text_of = ''The '' @ to_lower cat @ '' '' @ to_lower it @ '' '' @ dash @ '' great for everyday use. Model '' @ dec i @ ''.'',
         group_of = cat, cents = int (1000 + extra), stock = int st, ver = 1\<rparr>)"

definition seed_items :: "nat \<Rightarrow> (nat \<Rightarrow> nat \<times> nat \<times> nat) \<Rightarrow> (nat \<times> item) list" where
  "seed_items n drawn = map (\<lambda>i. (Suc i, seed_item i (drawn i))) [0..<n]"

section \<open>The state of a run\<close>

record run =
  shop :: app
  shown :: "nat \<rightharpoonup> item"       \<comment> \<open>the documents that searches and counts see, since the last refresh\<close>
  there :: bool                   \<comment> \<open>the index exists\<close>
  running :: bool                 \<comment> \<open>the relay is started\<close>
  ticks :: nat

record tick_env =
  batches :: "batch_env list"
  begun :: outcome
  stmts :: "nat \<Rightarrow> outcome"
  committed :: outcome
  asked :: outcome                \<comment> \<open>the answer to a single statement or command\<close>
  http :: outcome                 \<comment> \<open>\<open>Transport\<close>: no answer; another error: a status from 300 on\<close>
  bulks :: "nat \<Rightarrow> bulk_answer"
  polls :: nat                    \<comment> \<open>how often a wait asks before its deadline\<close>

type_synonym env = "nat \<Rightarrow> tick_env"

definition call :: "env \<Rightarrow> (tick_env \<Rightarrow> run \<Rightarrow> 'a option \<times> run) \<Rightarrow> run \<Rightarrow> 'a option \<times> run" where
  "call e f s =
     (let x = e (ticks s)
      in f x (s\<lparr>ticks := Suc (ticks s), shop := if running s then Polyglot.relay (batches x) (shop s) else shop s\<rparr>))"

definition on_shop :: "(app \<Rightarrow> 'a option \<times> app) \<Rightarrow> run \<Rightarrow> 'a option \<times> run" where
  "on_shop f s = (case f (shop s) of (x, a) \<Rightarrow> (x, s\<lparr>shop := a\<rparr>))"

text \<open>A query whose error is fatal.\<close>

definition read :: "env \<Rightarrow> (app \<Rightarrow> 'a) \<Rightarrow> run \<Rightarrow> 'a option \<times> run" where
  "read e g = call e (\<lambda>x s. (if err_of (asked x) = None then Some (g (shop s)) else None, s))"

section \<open>The client of Elasticsearch\<close>

text \<open>\<open>do\<close>: no answer is fatal; the result says whether the status is below 300.\<close>

definition es_do :: "outcome \<Rightarrow> (run \<Rightarrow> run) \<Rightarrow> run \<Rightarrow> bool option \<times> run" where
  "es_do r f s = (if err_of r = Some Transport then None else Some (err_of r = None), if applied r then f s else s)"

definition set_es :: "(nat \<rightharpoonup> item) \<Rightarrow> run \<Rightarrow> run" where
  "set_es m s = s\<lparr>shop := (shop s)\<lparr>es := m\<rparr>\<rparr>"

definition drop_index :: "run \<Rightarrow> run" where
  "drop_index s = set_es Map.empty (s\<lparr>shown := Map.empty, there := False\<rparr>)"

definition create_index :: "run \<Rightarrow> run" where
  "create_index s = set_es Map.empty (s\<lparr>shown := Map.empty, there := True\<rparr>)"

text \<open>\<open>Reset\<close>: the status of the deletion is ignored; creating an index that exists is refused.\<close>

definition es_reset :: "env \<Rightarrow> run \<Rightarrow> unit option \<times> run" where
  "es_reset e =
     and_then (call e (\<lambda>x. es_do (http x) drop_index)) (\<lambda>_.
     and_then (call e (\<lambda>x s. es_do (if there s then Refused (Sqlstate ''400'') else http x) create_index s)) (\<lambda>ok s.
     (if ok then Some () else None, s)))"

definition es_refresh :: "env \<Rightarrow> run \<Rightarrow> unit option \<times> run" where
  "es_refresh e = and_then (call e (\<lambda>x. es_do (http x) (\<lambda>s. s\<lparr>shown := es (shop s)\<rparr>))) (\<lambda>_. give ())"

text \<open>\<open>Count\<close> and \<open>Get\<close>: the body of an error decodes to nothing.\<close>

definition es_count :: "env \<Rightarrow> run \<Rightarrow> nat option \<times> run" where
  "es_count e = and_then (call e (\<lambda>x. es_do (http x) id)) (\<lambda>ok s. (Some (if ok then card (dom (shown s)) else 0), s))"

definition es_title :: "env \<Rightarrow> nat \<Rightarrow> run \<Rightarrow> string option \<times> run" where
  "es_title e i = and_then (call e (\<lambda>x. es_do (http x) id)) (\<lambda>ok s.
     (Some (case (if ok then es (shop s) i else None) of None \<Rightarrow> '''' | Some p \<Rightarrow> title p), s))"

text \<open>\<open>Search\<close>: the decoded body, \<open>None\<close> if it is malformed.\<close>

record search_result =
  total :: nat
  top :: "item list"
  facets :: "(string \<times> nat) list"

definition search :: "env \<Rightarrow> ((nat \<rightharpoonup> item) \<Rightarrow> search_result option) \<Rightarrow> run \<Rightarrow> search_result option \<times> run" where
  "search e engine = and_then (call e (\<lambda>x. es_do (http x) id)) (\<lambda>ok s. (if ok then engine (shown s) else None, s))"

section \<open>The program\<close>

definition reset :: "env \<Rightarrow> run \<Rightarrow> unit option \<times> run" where
  "reset e =
     and_then (call e (\<lambda>x. on_shop (must (asked x) (\<lambda>a. a\<lparr>products := Map.empty, orders := [], outbox := []\<rparr>)))) (\<lambda>_.
     and_then (call e (\<lambda>x. on_shop (must (asked x) (\<lambda>a. a\<lparr>rdb := \<lparr>cache = Map.empty, done_ids = {}, board = (\<lambda>_. 0)\<rparr>\<rparr>)))) (\<lambda>_.
     es_reset e))"

text \<open>\<open>waitDrained\<close>.\<close>

fun drain_polls :: "env \<Rightarrow> nat \<Rightarrow> run \<Rightarrow> unit option \<times> run" where
  "drain_polls e 0 = (\<lambda>s. (None, s))"
| "drain_polls e (Suc k) =
     and_then (read e (\<lambda>a. length (pending a))) (\<lambda>n. if n = 0 then es_refresh e else drain_polls e k)"

definition wait_drained :: "env \<Rightarrow> run \<Rightarrow> unit option \<times> run" where
  "wait_drained e s = drain_polls e (polls (e (ticks s))) s"

definition get_product :: "env \<Rightarrow> nat \<Rightarrow> run \<Rightarrow> (item \<times> bool) option \<times> run" where
  "get_product e i = call e (\<lambda>x. on_shop (get_item (asked x) (stmts x 0) (stmts x 1) i))"

definition update :: "env \<Rightarrow> nat \<Rightarrow> string \<Rightarrow> int \<Rightarrow> run \<Rightarrow> unit option \<times> run" where
  "update e i n c = call e (\<lambda>x. on_shop (update_product (begun x) (committed x) (stmts x) i n c))"

text \<open>\<open>p.Name[:10]\<close> panics on a shorter name.\<close>

fun product_pages :: "env \<Rightarrow> nat \<Rightarrow> run \<Rightarrow> (item \<times> bool) list option \<times> run" where
  "product_pages e 0 = give []"
| "product_pages e (Suc k) =
     and_then (get_product e 42) (\<lambda>p.
     and_then (\<lambda>s. (if length (title (fst p)) < 10 then None else Some (), s)) (\<lambda>_.
     and_then (product_pages e k) (\<lambda>ps. give (p # ps))))"

fun clearance :: "env \<Rightarrow> nat \<Rightarrow> run \<Rightarrow> unit option \<times> run" where
  "clearance e 0 = give ()"
| "clearance e (Suc k) =
     and_then (clearance e k) (\<lambda>_. update e (100 + k) (''Clearance Item '' @ dec k) 999)"

text \<open>\<open>ZREVRANGE bestsellers 0 4\<close>: by score, then by member, from the highest.\<close>

definition leaders :: "app \<Rightarrow> (nat \<times> int) list" where
  "leaders a =
     (let ids = filter (\<lambda>i. board (rdb a) i \<noteq> 0) (remdups (map fst (orders a)))
      in map (\<lambda>i. (i, board (rdb a) i)) (take 5 (rev (sort_key (\<lambda>i. (board (rdb a) i, map of_char (dec i) :: nat list)) ids))))"

definition reindex_all :: "env \<Rightarrow> run \<Rightarrow> unit option \<times> run" where
  "reindex_all e =
     and_then (read e (\<lambda>a. map (\<lambda>i. the (products a i)) (filter (\<lambda>i. products a i \<noteq> None) [0..<Suc 3000]))) (\<lambda>ps.
     and_then (call e (\<lambda>x. on_shop (\<lambda>a. case reindex (bulks x) ps a of (r, a') \<Rightarrow> (if r = None then Some () else None, a')))) (\<lambda>_.
     es_refresh e))"

definition start_relay :: "run \<Rightarrow> unit option \<times> run" where
  "start_relay s = (Some (), s\<lparr>running := True\<rparr>)"

text \<open>\<open>Stop\<close> waits for the batch that the relay is in.\<close>

definition stop_relay :: "env \<Rightarrow> run \<Rightarrow> unit option \<times> run" where
  "stop_relay e = call e (\<lambda>_ s. (Some (), s\<lparr>running := False\<rparr>))"

record poly_result =
  stored :: nat
  indexed_docs :: nat
  found :: search_result
  pages :: "(item \<times> bool) list"
  bestsellers :: "(nat \<times> int) list"
  name_pg :: string
  name_es :: string
  name_es_later :: string
  page_later :: "item \<times> bool"
  backlog :: nat
  name_100 :: string
  docs_dropped :: nat
  docs_rebuilt :: nat

record draws =
  seeds :: "nat \<Rightarrow> nat \<times> nat \<times> nat"
  sales :: "(nat \<times> int) list"
  engine :: "(nat \<rightharpoonup> item) \<Rightarrow> search_result option"

definition pro :: string where
  "pro = ''Aurora Wireless Headphones PRO''"

definition poly_main :: "env \<Rightarrow> draws \<Rightarrow> run \<Rightarrow> poly_result option \<times> run" where
  "poly_main e d =
     and_then (reset e) (\<lambda>_.
     and_then (call e (\<lambda>x. on_shop (seed_products (begun x) (committed x) (stmts x) (seed_items 3000 (seeds d))))) (\<lambda>_.
     and_then start_relay (\<lambda>_.
     and_then (wait_drained e) (\<lambda>_.
     and_then (read e (\<lambda>a. card (dom (products a)))) (\<lambda>n_pg.
     and_then (es_count e) (\<lambda>n_es.
     and_then (read e (\<lambda>_. ())) (\<lambda>_.
     and_then (read e (\<lambda>_. ())) (\<lambda>_.
     and_then (search e (engine d)) (\<lambda>hits.
     and_then (product_pages e 3) (\<lambda>pgs.
     and_then (call e (\<lambda>x. on_shop (place_random_orders (begun x) (committed x) (stmts x) (sales d)))) (\<lambda>_.
     and_then (wait_drained e) (\<lambda>_.
     and_then (read e leaders) (\<lambda>best.
     and_then (read e (\<lambda>_. ())) (\<lambda>_.
     and_then (update e 42 pro 24900) (\<lambda>_.
     and_then (read e (\<lambda>a. map_option title (products a 42))) (\<lambda>npg.
     and_then (\<lambda>s. (npg, s)) (\<lambda>npg.
     and_then (es_title e 42) (\<lambda>nes.
     and_then (wait_drained e) (\<lambda>_.
     and_then (get_product e 42) (\<lambda>page.
     and_then (es_title e 42) (\<lambda>nes2.
     and_then (stop_relay e) (\<lambda>_.
     and_then (clearance e 50) (\<lambda>_.
     and_then (read e (\<lambda>a. length (pending a))) (\<lambda>n_back.
     and_then start_relay (\<lambda>_.
     and_then (wait_drained e) (\<lambda>_.
     and_then (es_title e 100) (\<lambda>n100.
     and_then (es_reset e) (\<lambda>_.
     and_then (es_count e) (\<lambda>n_drop.
     and_then (reindex_all e) (\<lambda>_.
     and_then (es_count e) (\<lambda>n_re.
     and_then (stop_relay e) (\<lambda>_.
     give \<lparr>stored = n_pg, indexed_docs = n_es, found = hits, pages = pgs, bestsellers = best, name_pg = npg, name_es = nes,
       name_es_later = nes2, page_later = page, backlog = n_back, name_100 = n100, docs_dropped = n_drop, docs_rebuilt = n_re\<rparr>
     ))))))))))))))))))))))))))))))))"

section \<open>The invariant of a run\<close>

definition pure :: "app \<Rightarrow> bool" where
  "pure a \<longleftrightarrow> (\<forall>x \<in> set (pending a). \<exists>p. event x = Upserted p) \<or> (\<forall>x \<in> set (pending a). \<exists>i n. event x = Ordered i n)"

definition ok :: "app \<Rightarrow> bool" where
  "ok a \<longleftrightarrow> poly_reachable False a \<and> cache_done a \<and> pure a"

lemma run_pipe_upserts:
  assumes "\<forall>x \<in> set xs. \<exists>p. event x = Upserted p"
  shows "fst (run_pipe env xs d) \<noteq> Some Redis_Nil"
  using assms
proof (induction xs arbitrary: env d)
  case (Cons x xs)
  then have "fst (run_cmd (env 0) x d) \<noteq> Some Redis_Nil"
    by (auto simp: run_cmd_def apply_entry_def split: option.splits)
  with Cons.IH [of "env \<circ> Suc" "snd (run_cmd (env 0) x d)"] Cons.prems show ?case
    by (auto simp: split_beta comp_def split: option.splits)
qed simp

lemma cache_done_frame:
  assumes "cache_done a" "outbox b = outbox a" "products b = products a"
    "\<And>i p. cache (rdb b) (cache_key i) = Some p \<Longrightarrow> cache (rdb a) (cache_key i) = Some p \<or> products a i = Some p"
  shows "cache_done b"
  using assms unfolding cache_done_def pending_def by metis

lemma cache_done_batch:
  assumes "cache_done a" "numbered a" "pure a"
  shows "cache_done (snd (snd (process_batch e a)))"
  using process_batch_cases [of e a]
proof cases
  case (bulk_failed b)
  show ?thesis unfolding bulk_failed by (rule cache_done_frame [OF assms(1)]) simp_all
next
  case (applied d)
  show ?thesis unfolding applied by (rule cache_done_frame [OF assms(1)]) (auto dest: run_pipe_cache)
next
  case (marked d)
  let ?xs = "take 500 (pending a)" and ?ks = "oid ` set (take 500 (pending a))"
  note d = run_pipe_cache [where d = "rdb a" and env = "r_pipe e" and xs = ?xs, folded marked(1)]
  show ?thesis
  proof (cases "\<forall>x \<in> set (pending a). \<exists>p. event x = Upserted p")
    case True
    then have "unmasked e a" unfolding unmasked_def using run_pipe_upserts by (metis in_set_takeD)
    then have "settled x d" if "x \<in> set (outbox a)" "oid x \<in> ?ks" for x
      unfolding marked(1) by (rule marked_settled [OF _ marked(2) in_batch [OF assms(2) that]])
    then show ?thesis unfolding marked(3) by (intro cache_done_marked [OF assms(1)]) (use d in blast)+
  next
    case False
    with assms(3) have "\<forall>x \<in> set (pending a). \<exists>i n. event x = Ordered i n" by (auto simp: pure_def)
    with assms(1) have "products a i = Some p" if "cache (rdb a) (cache_key i) = Some p" for i p
      using that unfolding cache_done_def by fastforce
    with d show ?thesis unfolding marked(3) cache_done_def by auto
  qed
qed (use assms in simp)

lemma ok_numbered: "ok a \<Longrightarrow> numbered a"
  using reachable_search_inv by (auto simp: ok_def search_inv_def)

lemma pure_pending: "pure a \<Longrightarrow> set (pending b) \<subseteq> set (pending a) \<Longrightarrow> pure b"
  by (auto simp: pure_def)

lemma ok_batch:
  assumes "ok a"
  shows "ok (snd (snd (process_batch e a)))"
proof -
  have "poly_reachable False (snd (snd (process_batch e a)))"
    using assms poly_reachable_relay [of a "[e]"] by (simp add: ok_def relay_def)
  moreover have "set (pending (snd (snd (process_batch e a)))) \<subseteq> set (pending a)"
    using process_batch_pending [OF ok_numbered [OF assms], of e] by (auto dest: in_set_dropD)
  ultimately show ?thesis
    using cache_done_batch [OF _ ok_numbered [OF assms]] assms pure_pending by (auto simp: ok_def)
qed

lemma process_batch_idle: "pending a = [] \<Longrightarrow> snd (snd (process_batch e a)) = a"
  by (simp add: process_batch_def)

lemma process_batch_orders: "orders (snd (snd (process_batch e a))) = orders a"
  using process_batch_cases [of e a] by cases simp_all

text \<open>What the relay does while the program is between two calls.\<close>

definition later :: "app \<Rightarrow> app \<Rightarrow> bool" where
  "later a b \<longleftrightarrow> products b = products a \<and> orders b = orders a \<and> (pending a = [] \<longrightarrow> b = a) \<and>
     (ok a \<longrightarrow> ok b \<and> length (pending b) \<le> length (pending a))"

lemma later_refl: "later a a"
  by (simp add: later_def)

lemma later_relay: "later a (Polyglot.relay bs a)"
proof (induction bs arbitrary: a)
  case (Cons e bs)
  have "later a (snd (snd (process_batch e a)))"
    using process_batch_pending [OF ok_numbered, of a e]
    by (auto simp: later_def process_batch_products process_batch_orders process_batch_idle ok_batch)
  with Cons.IH [of "snd (snd (process_batch e a))"] show ?case
    by (auto simp: later_def relay_def)
qed (simp add: later_refl relay_def)

lemma call_Some:
  assumes "call e f s = (Some v, s')"
  shows "\<exists>s1 x. f x s1 = (Some v, s') \<and> later (shop s) (shop s1) \<and> shown s1 = shown s \<and> there s1 = there s \<and> running s1 = running s \<and>
    (\<not> running s \<longrightarrow> shop s1 = shop s) \<and> x \<in> range e"
  using assms later_relay later_refl unfolding call_def Let_def
  by (intro exI [of _ "s\<lparr>ticks := Suc (ticks s), shop := if running s then Polyglot.relay (batches (e (ticks s))) (shop s) else shop s\<rparr>"]
      exI [of _ "e (ticks s)"]) auto

section \<open>Calls that only read\<close>

text \<open>The parts of the state that the program sees are unchanged, up to what the relay does.\<close>

definition same_run :: "run \<Rightarrow> run \<Rightarrow> bool" where
  "same_run s t \<longleftrightarrow> later (shop s) (shop t) \<and> shown t = shown s \<and> there t = there s \<and> running t = running s \<and> (\<not> running s \<longrightarrow> shop t = shop s)"

lemma read_Some: "read e g s = (Some v, t) \<Longrightarrow> v = g (shop t) \<and> same_run s t"
  unfolding read_def by (drule call_Some) (auto simp: same_run_def split: if_splits)

definition no_bad_status :: "env \<Rightarrow> bool" where
  "no_bad_status e \<longleftrightarrow> (\<forall>t x. err_of (http (e t)) = Some x \<longrightarrow> x = Transport)"

lemma es_do_Some: "es_do r f s = (Some b, t) \<Longrightarrow> (b \<longleftrightarrow> r = Done) \<and> t = (if applied r then f s else s) \<and> err_of r \<noteq> Some Transport"
  by (cases r) (auto simp: es_do_def split: if_splits)

lemma http_done: "no_bad_status e \<Longrightarrow> x \<in> range e \<Longrightarrow> err_of (http x) \<noteq> Some Transport \<Longrightarrow> http x = Done"
  unfolding no_bad_status_def by (metis err_of_None(1) option.exhaust rangeE)

lemma es_ask:
  assumes "no_bad_status e" "and_then (call e (\<lambda>x. es_do (http x) id)) (\<lambda>ok s. (g ok s, s)) s = (Some v, t)"
  shows "g True t = Some v \<and> same_run s t"
proof -
  from assms(2) obtain b s1 where "call e (\<lambda>x. es_do (http x) id) s = (Some b, s1)" and t: "g b s1 = Some v" "t = s1"
    by (auto simp: and_then_Some)
  from call_Some [OF this(1)] obtain s0 x where x: "es_do (http x) id s0 = (Some b, s1)" "x \<in> range e"
    and s0: "later (shop s) (shop s0)" "shown s0 = shown s" "there s0 = there s" "running s0 = running s" "\<not> running s \<longrightarrow> shop s0 = shop s"
    by blast
  from es_do_Some [OF x(1)] http_done [OF assms(1) x(2)] have "b" "s1 = s0" by auto
  with t s0 show ?thesis by (simp add: same_run_def)
qed

lemma es_refresh_Some:
  assumes "no_bad_status e" "es_refresh e s = (Some u, t)"
  shows "later (shop s) (shop t) \<and> shown t = es (shop t) \<and> there t = there s \<and> running t = running s"
proof -
  from assms(2) obtain b where "call e (\<lambda>x. es_do (http x) (\<lambda>s. s\<lparr>shown := es (shop s)\<rparr>)) s = (Some b, t)"
    by (auto simp: es_refresh_def and_then_Some give_Some)
  from call_Some [OF this] obtain s0 x where x: "es_do (http x) (\<lambda>s. s\<lparr>shown := es (shop s)\<rparr>) s0 = (Some b, t)" "x \<in> range e"
    and s0: "later (shop s) (shop s0)" "there s0 = there s" "running s0 = running s"
    by blast
  from es_do_Some [OF x(1)] http_done [OF assms(1) x(2)] have "t = s0\<lparr>shown := es (shop s0)\<rparr>" by auto
  with s0 show ?thesis by simp
qed

text \<open>While nothing is pending or the relay is stopped, a call leaves the shop alone.\<close>

definition still :: "run \<Rightarrow> bool" where
  "still s \<longleftrightarrow> pending (shop s) = [] \<or> \<not> running s"

lemma call_still:
  assumes "call e f s = (Some v, s')" "still s"
  shows "\<exists>x n. f x (s\<lparr>ticks := n\<rparr>) = (Some v, s')"
proof -
  have "Polyglot.relay bs (shop s) = shop s" if "running s" for bs
    using later_relay [of "shop s" bs] assms(2) that by (simp add: later_def still_def)
  then have "(if running s then Polyglot.relay (batches (e (ticks s))) (shop s) else shop s) = shop s" by simp
  with assms(1) have "f (e (ticks s)) (s\<lparr>ticks := Suc (ticks s)\<rparr>) = (Some v, s')" by (simp add: call_def Let_def)
  then show ?thesis by blast
qed

lemma es_reset_Some:
  assumes "es_reset e s = (Some u, t)" "still s"
  shows "shown t = Map.empty \<and> there t \<and> running t = running s \<and> shop t = (shop s)\<lparr>es := Map.empty\<rparr>"
proof -
  from assms(1) obtain b s1 b' where c: "call e (\<lambda>x. es_do (http x) drop_index) s = (Some b, s1)"
    "call e (\<lambda>x s. es_do (if there s then Refused (Sqlstate ''400'') else http x) create_index s) s1 = (Some b', t)" "b'"
    by (auto simp: es_reset_def and_then_Some split: if_splits)
  from call_still [OF c(1) assms(2)] obtain x :: tick_env and n where "es_do (http x) drop_index (s\<lparr>ticks := n\<rparr>) = (Some b, s1)" by blast
  from es_do_Some [OF this] have s1: "still s1" "running s1 = running s" "(shop s1)\<lparr>es := Map.empty\<rparr> = (shop s)\<lparr>es := Map.empty\<rparr>"
    using assms(2) by (auto simp: drop_index_def set_es_def still_def pending_def)
  from call_still [OF c(2) s1(1)] obtain y :: tick_env and m where
    "es_do (if there s1 then Refused (Sqlstate ''400'') else http y) create_index (s1\<lparr>ticks := m\<rparr>) = (Some b', t)" by auto
  from es_do_Some [OF this] \<open>b'\<close> show ?thesis using s1 by (auto simp: create_index_def set_es_def split: if_splits)
qed

lemma on_shop_Some: "on_shop f s = (Some v, t) \<longleftrightarrow> (\<exists>a. f (shop s) = (Some v, a) \<and> t = s\<lparr>shop := a\<rparr>)"
  by (auto simp: on_shop_def split: prod.splits)

lemma reset_Some:
  assumes "reset e s = (Some u, t)" "\<not> running s"
  shows "shop t = empty_app \<and> \<not> running t"
proof -
  from assms(1) obtain s1 s2 where c:
    "call e (\<lambda>x. on_shop (must (asked x) (\<lambda>a. a\<lparr>products := Map.empty, orders := [], outbox := []\<rparr>))) s = (Some (), s1)"
    "call e (\<lambda>x. on_shop (must (asked x) (\<lambda>a. a\<lparr>rdb := \<lparr>cache = Map.empty, done_ids = {}, board = (\<lambda>_. 0)\<rparr>\<rparr>))) s1 = (Some (), s2)"
    "es_reset e s2 = (Some u, t)"
    by (auto simp: reset_def and_then_Some)
  have s1: "shop s1 = (shop s)\<lparr>products := Map.empty, orders := [], outbox := []\<rparr>" "running s1 = running s"
    using call_still [OF c(1)] assms(2) by (auto simp: still_def on_shop_Some must_Some)
  have s2: "shop s2 = (shop s1)\<lparr>rdb := \<lparr>cache = Map.empty, done_ids = {}, board = (\<lambda>_. 0)\<rparr>\<rparr>" "running s2 = running s"
    using call_still [OF c(2)] assms(2) s1 by (auto simp: still_def on_shop_Some must_Some)
  from es_reset_Some [OF c(3)] show ?thesis using s1 s2 assms(2) by (simp add: still_def empty_app_def)
qed

lemma call_on_shop:
  assumes "call e (\<lambda>x. on_shop (f x)) s = (Some v, t)"
  shows "\<exists>a x. later (shop s) a \<and> f x a = (Some v, shop t) \<and> there t = there s \<and> running t = running s \<and> (\<not> running s \<longrightarrow> a = shop s)"
  using call_Some [OF assms] by (fastforce simp: on_shop_Some)

lemma drain_polls_Some:
  assumes "no_bad_status e"
  shows "drain_polls e k s = (Some u, t) \<Longrightarrow> ok (shop s) \<Longrightarrow>
    ok (shop t) \<and> pending (shop t) = [] \<and> es (shop t) = products (shop t) \<and> shown t = products (shop t) \<and>
    products (shop t) = products (shop s) \<and> orders (shop t) = orders (shop s) \<and> there t = there s \<and> running t = running s"
proof (induction k arbitrary: s)
  case (Suc k)
  from Suc.prems(1) obtain n s1 where r: "read e (\<lambda>a. length (pending a)) s = (Some n, s1)"
    and rest: "(if n = 0 then es_refresh e else drain_polls e k) s1 = (Some u, t)"
    by (auto simp: and_then_Some)
  from read_Some [OF r] have s1: "n = length (pending (shop s1))" "same_run s s1" by auto
  then have l: "products (shop s1) = products (shop s)" "orders (shop s1) = orders (shop s)" "there s1 = there s" "running s1 = running s"
    and ok1: "ok (shop s1)" using Suc.prems(2) by (auto simp: same_run_def later_def)
  show ?case
  proof (cases "n = 0")
    case True
    then have p: "pending (shop s1) = []" using s1(1) by simp
    from es_refresh_Some [OF assms] rest True have t: "later (shop s1) (shop t)" "shown t = es (shop t)" "there t = there s1" "running t = running s1"
      by auto
    then have "shop t = shop s1" using p by (simp add: later_def)
    moreover have "es (shop s1) = products (shop s1)"
      using ok1 p search_inv_drained reachable_search_inv by (auto simp: ok_def)
    ultimately show ?thesis using l ok1 p t by simp
  next
    case False
    with rest Suc.IH [of s1] ok1 l show ?thesis by simp
  qed
qed simp

lemma ok_write:
  assumes "ok a" "poly_step False a b" "extends a b" "pure b"
  shows "ok b"
proof -
  from assms(1,2) have r: "poly_reachable False b" by (auto simp: ok_def intro: reachable_step)
  from assms(3) obtain xs where xs: "outbox b = outbox a @ xs" "\<forall>x \<in> set xs. \<not> processed x" "rdb b = rdb a"
    and p: "\<And>i. products b i \<noteq> products a i \<Longrightarrow> \<exists>x \<in> set xs. \<exists>q. event x = Upserted q \<and> pid q = i"
    unfolding extends_def by blast
  from xs have pend: "set (pending b) = set (pending a) \<union> set xs" by (auto simp: pending_def)
  have "cache_done b" unfolding cache_done_def
  proof (intro allI impI)
    fix i q assume "cache (rdb b) (cache_key i) = Some q"
    with assms(1) xs(3) have "products a i = Some q \<or> (\<exists>x \<in> set (pending a). \<exists>q. event x = Upserted q \<and> pid q = i)"
      unfolding ok_def cache_done_def by metis
    then show "products b i = Some q \<or> (\<exists>x \<in> set (pending b). \<exists>q. event x = Upserted q \<and> pid q = i)"
      unfolding pend using p [of i] by (metis UnCI)
  qed
  with r assms(4) show ?thesis by (simp add: ok_def)
qed

section \<open>The writes\<close>

lemma committed_tx: "begin_func rb rc f s = (Inr x, s') \<Longrightarrow> f s = (Inr x, s')"
  by (rule tx.run_ok)

lemma seed_tx_effect:
  assumes "seed_tx env ps a = (Inr u, b)"
  shows "products b = (\<lambda>i. case map_of ps i of Some p \<Rightarrow> Some (p\<lparr>pid := i, ver := 1\<rparr>) | None \<Rightarrow> products a i) \<and> orders b = orders a \<and>
    (\<forall>x \<in> set (pending b). x \<in> set (pending a) \<or> (\<exists>p. event x = Upserted p)) \<and> (\<forall>i \<in> fst ` set ps. products a i = None)"
  using assms
proof (induction ps arbitrary: env a)
  case (Cons ip ps)
  obtain i p where ip: "ip = (i, p)" by force
  from Cons.prems obtain c where c: "seed_product p i a = (Inr (), c)" "seed_tx (env \<circ> Suc) ps c = (Inr u, b)"
    by (auto simp: ip tx_simps)
  from c(1) have cc: "c = emit (Upserted (p\<lparr>pid := i, ver := 1\<rparr>)) (a\<lparr>products := (products a)(i \<mapsto> p\<lparr>pid := i, ver := 1\<rparr>)\<rparr>)" "products a i = None"
    by (auto simp: seed_product_def Let_def split: if_splits)
  note IH = Cons.IH [OF c(2)]
  from IH cc have "i \<notin> fst ` set ps" by (auto simp: emit_def)
  then have m: "map_of ps i = None" by (simp add: map_of_eq_None_iff)
  have "products b = (\<lambda>j. case map_of ((i, p) # ps) j of Some p \<Rightarrow> Some (p\<lparr>pid := j, ver := 1\<rparr>) | None \<Rightarrow> products a j)"
    using IH m by (auto simp: cc(1) emit_def fun_eq_iff split: option.splits)
  moreover have "orders b = orders a" using IH by (simp add: cc(1) emit_def)
  moreover have "\<forall>x \<in> set (pending b). x \<in> set (pending a) \<or> (\<exists>p. event x = Upserted p)"
    using IH by (fastforce simp: cc(1) emit_def pending_def)
  moreover have "\<forall>j \<in> fst ` set ps. products a j = None" using IH \<open>i \<notin> fst ` set ps\<close> by (auto simp: cc(1) emit_def split: if_splits)
  ultimately show ?case using cc(2) by (simp add: ip)
qed (auto simp: fun_eq_iff)

lemma seed_Some:
  assumes "seed_products rb rc env (seed_items n d) empty_app = (Some u, b)"
  shows "ok b \<and> products b = (\<lambda>i. if 0 < i \<and> i \<le> n then Some ((seed_item (i - 1) (d (i - 1)))\<lparr>pid := i, ver := 1\<rparr>) else None) \<and> orders b = []"
proof -
  from assms have b: "begin_func rb rc (seed_tx env (seed_items n d)) empty_app = (Inr (), b)"
    by (auto simp: seed_products_def split: prod.splits sum.splits)
  then have t: "seed_tx env (seed_items n d) empty_app = (Inr (), b)" by (rule committed_tx)
  note eff = seed_tx_effect [OF t]
  have m: "map_of (seed_items n d) i = (if 0 < i \<and> i \<le> n then Some (seed_item (i - 1) (d (i - 1))) else None)" for i
  proof -
    have "map_of (map (\<lambda>i. (Suc i, g i)) [0..<n]) i = (if 0 < i \<and> i \<le> n then Some (g (i - 1)) else None)" for g :: "nat \<Rightarrow> item"
      by (induction n) (auto simp: map_of_append map_add_def le_Suc_eq split: option.splits)
    then show ?thesis by (simp add: seed_items_def)
  qed
  have step: "poly_step False empty_app b"
    using poly_step.seeded [of False empty_app rb rc env "seed_items n d"] assms by simp
  have start: "ok empty_app" by (simp add: ok_def poly_reachable_def cache_done_def pure_def) (simp add: empty_app_def pending_def)
  have "pure b" using eff by (auto simp: pure_def empty_app_def pending_def)
  from ok_write [OF start step seed_tx_extends [OF t] this] eff show ?thesis
    by (auto simp: m fun_eq_iff empty_app_def)
qed

lemma orders_tx_effect:
  assumes "orders_tx env ds a = (Inr u, b)"
  shows "products b = products a \<and> orders b = orders a @ ds \<and> (\<forall>x \<in> set (pending b). x \<in> set (pending a) \<or> (\<exists>i n. event x = Ordered i n))"
  using assms
proof (induction ds arbitrary: env a)
  case (Cons d ds)
  obtain i n where d: "d = (i, n)" by force
  from Cons.prems have t: "orders_tx (\<lambda>k. env (k + 2)) ds (emit (Ordered i n) (a\<lparr>orders := orders a @ [(i, n)]\<rparr>)) = (Inr u, b)"
    by (auto simp: d tx_simps split: if_splits)
  from Cons.IH [OF t] show ?case by (auto simp: d emit_def pending_def)
qed simp

lemma orders_Some:
  assumes "place_random_orders rb rc env ds a = (Some u, b)" "ok a" "pending a = []"
  shows "ok b \<and> products b = products a \<and> orders b = orders a @ ds"
proof -
  from assms(1) have "begin_func rb rc (orders_tx env ds) a = (Inr (), b)"
    by (auto simp: place_random_orders_def split: prod.splits sum.splits)
  then have t: "orders_tx env ds a = (Inr (), b)" by (rule committed_tx)
  note eff = orders_tx_effect [OF t]
  have step: "poly_step False a b"
    using poly_step.ordered [of False a rb rc env ds] assms(1) by simp
  have "pure b" using eff assms(3) by (auto simp: pure_def)
  from ok_write [OF assms(2) step orders_tx_extends [OF t] this] eff show ?thesis by simp
qed

lemma update_Some:
  assumes "update_product rb rc env i n c a = (Some u, b)" "ok a" "\<forall>x \<in> set (pending a). \<exists>p. event x = Upserted p"
  shows "ok b \<and> orders b = orders a \<and> length (pending b) = Suc (length (pending a)) \<and> (\<forall>x \<in> set (pending b). \<exists>p. event x = Upserted p) \<and>
    (\<exists>p. products a i = Some p \<and> products b = (products a)(i \<mapsto> p\<lparr>title := n, cents := c, ver := Suc (ver p)\<rparr>))"
proof -
  from assms(1) have "begin_func rb rc (update_tx env i n c) a = (Inr (), b)"
    by (auto simp: update_product_def split: prod.splits sum.splits)
  then have t: "update_tx env i n c a = (Inr (), b)" by (rule committed_tx)
  then obtain p where p: "products a i = Some p" "b = emit (Upserted (p\<lparr>title := n, cents := c, ver := Suc (ver p)\<rparr>))
      (a\<lparr>products := (products a)(i \<mapsto> p\<lparr>title := n, cents := c, ver := Suc (ver p)\<rparr>)\<rparr>)"
    by (auto simp: update_tx_def tx_simps Let_def split: option.splits)
  then have ev: "\<forall>x \<in> set (pending b). \<exists>p. event x = Upserted p" "length (pending b) = Suc (length (pending a))" "orders b = orders a"
    using assms(3) by (auto simp: pending_def emit_def)
  have step: "poly_step False a b"
    using poly_step.updated [of False a rb rc env i n c] assms(1) by simp
  have inv: "search_inv Whole a" using assms(2) reachable_search_inv by (auto simp: ok_def)
  have "pure b" using ev(1) by (simp add: pure_def)
  from ok_write [OF assms(2) step update_tx_extends [OF inv t] this] ev p show ?thesis by (simp add: emit_def)
qed

lemma get_Some:
  assumes "get_item rg q rs i a = (Some (p, hit), b)" "ok a" "pending a = []"
  shows "products a i = Some p \<and> ok b \<and> products b = products a \<and> orders b = orders a \<and> pending b = [] \<and> es b = es a"
proof -
  have cached: "products a j = Some x" if "cache (rdb a) (cache_key j) = Some x" for j x
    using assms(2,3) that by (auto simp: ok_def cache_done_def)
  from assms(1) have p: "products a i = Some p"
    using cached [of i] by (auto simp: get_item_def query_Inr split: option.splits sum.splits if_splits)
  have fr: "products b = products a" "orders b = orders a" "outbox b = outbox a" "es b = es a"
    using get_item_frame [of rg q rs i a] assms(1) by simp_all
  have "poly_step False a b" using poly_step.got [of False a rg q rs i] assms(1) by simp
  then have "poly_reachable False b" using assms(2) by (auto simp: ok_def intro: reachable_step)
  moreover have "cache_done b"
  proof (rule cache_done_frame [of a])
    fix j x assume "cache (rdb b) (cache_key j) = Some x"
    with assms(1) show "cache (rdb a) (cache_key j) = Some x \<or> products a j = Some x"
      by (auto simp: get_item_def query_Inr product_cache.key_inj split: option.splits sum.splits if_splits)
  qed (use assms(2) fr in \<open>simp_all add: ok_def\<close>)
  ultimately show ?thesis using p fr assms(3) by (simp add: ok_def pure_def pending_def)
qed

section \<open>The loops\<close>

lemma get_product_Some:
  assumes "get_product e i s = (Some p, t)" "ok (shop s)" "pending (shop s) = []"
  shows "products (shop s) i = Some (fst p) \<and> ok (shop t) \<and> products (shop t) = products (shop s) \<and> orders (shop t) = orders (shop s) \<and>
    pending (shop t) = [] \<and> es (shop t) = es (shop s) \<and> running t = running s"
proof -
  from call_on_shop [OF assms(1) [unfolded get_product_def]] obtain a and x :: tick_env where
    "later (shop s) a" "get_item (asked x) (stmts x 0) (stmts x 1) i a = (Some p, shop t)" "running t = running s" by blast
  moreover from this have "a = shop s" using assms(3) by (simp add: later_def)
  ultimately show ?thesis using get_Some [of _ _ _ _ _ "fst p" "snd p"] assms(2,3) by (metis prod.collapse)
qed

lemma product_pages_Some:
  "product_pages e k s = (Some ps, t) \<Longrightarrow> ok (shop s) \<Longrightarrow> pending (shop s) = [] \<Longrightarrow>
    ok (shop t) \<and> pending (shop t) = [] \<and> products (shop t) = products (shop s) \<and> orders (shop t) = orders (shop s) \<and>
    running t = running s \<and> length ps = k \<and> (\<forall>p \<in> set ps. products (shop s) 42 = Some (fst p))"
proof (induction k arbitrary: s ps)
  case (Suc k)
  from Suc.prems(1) obtain p s1 qs where g: "get_product e 42 s = (Some p, s1)" and rest: "product_pages e k s1 = (Some qs, t)" and ps: "ps = p # qs"
    by (auto simp: and_then_Some give_Some split: if_splits)
  from get_product_Some [OF g Suc.prems(2,3)] Suc.IH [OF rest] ps show ?case by simp
qed (auto simp: give_def)

lemma update_run:
  assumes "update e i n c s = (Some u, t)" "ok (shop s)" "\<forall>x \<in> set (pending (shop s)). \<exists>p. event x = Upserted p"
    "pending (shop s) = [] \<or> \<not> running s"
  shows "ok (shop t) \<and> running t = running s \<and> orders (shop t) = orders (shop s) \<and> length (pending (shop t)) = Suc (length (pending (shop s))) \<and>
    (\<forall>x \<in> set (pending (shop t)). \<exists>p. event x = Upserted p) \<and>
    (\<exists>p. products (shop s) i = Some p \<and> products (shop t) = (products (shop s))(i \<mapsto> p\<lparr>title := n, cents := c, ver := Suc (ver p)\<rparr>))"
proof -
  from call_on_shop [OF assms(1) [unfolded update_def]] obtain a and x :: tick_env where
    a: "later (shop s) a" "update_product (begun x) (committed x) (stmts x) i n c a = (Some u, shop t)" "running t = running s"
      "\<not> running s \<longrightarrow> a = shop s" by blast
  with assms(4) have "a = shop s" by (auto simp: later_def)
  with a(2,3) update_Some [OF _ assms(2,3)] show ?thesis by simp
qed

lemma clearance_Some:
  "clearance e k s = (Some u, t) \<Longrightarrow> ok (shop s) \<Longrightarrow> pending (shop s) = [] \<Longrightarrow> \<not> running s \<Longrightarrow>
    ok (shop t) \<and> \<not> running t \<and> orders (shop t) = orders (shop s) \<and> length (pending (shop t)) = k \<and>
    (\<forall>x \<in> set (pending (shop t)). \<exists>p. event x = Upserted p) \<and> dom (products (shop t)) = dom (products (shop s)) \<and>
    (\<forall>j < k. map_option title (products (shop t) (100 + j)) = Some (''Clearance Item '' @ dec j))"
proof (induction k arbitrary: u t)
  case (Suc k)
  from Suc.prems(1) obtain s1 where c: "clearance e k s = (Some (), s1)" and w: "update e (100 + k) (''Clearance Item '' @ dec k) 999 s1 = (Some u, t)"
    by (auto simp: and_then_Some)
  note IH = Suc.IH [OF c Suc.prems(2-4)]
  have ih: "ok (shop s1)" "\<forall>x \<in> set (pending (shop s1)). \<exists>p. event x = Upserted p" "pending (shop s1) = [] \<or> \<not> running s1"
    using IH by blast+
  from update_run [OF w ih] obtain p where t: "products (shop s1) (100 + k) = Some p"
    "products (shop t) = (products (shop s1))(100 + k \<mapsto> p\<lparr>title := ''Clearance Item '' @ dec k, cents := 999, ver := Suc (ver p)\<rparr>)"
    "ok (shop t)" "running t = running s1" "orders (shop t) = orders (shop s1)" "length (pending (shop t)) = Suc (length (pending (shop s1)))"
    "\<forall>x \<in> set (pending (shop t)). \<exists>p. event x = Upserted p"
    by blast
  have "dom (products (shop t)) = dom (products (shop s1))" using t(1,2) by auto
  moreover have "map_option title (products (shop t) (100 + j)) = Some (''Clearance Item '' @ dec j)" if "j < Suc k" for j
  proof (cases "j = k")
    case False
    with that IH have "map_option title (products (shop s1) (100 + j)) = Some (''Clearance Item '' @ dec j)" by simp
    with False show ?thesis by (simp add: t(2))
  qed (simp add: t(2))
  moreover have "length (pending (shop s1)) = k" "dom (products (shop s1)) = dom (products (shop s))" "orders (shop s1) = orders (shop s)" "\<not> running s1"
    using IH by blast+
  ultimately show ?case using t(3-7) by presburger
qed (auto simp: give_def)

lemma reindex_chunks_None: "reindex_chunks env cs m = (None, m') \<Longrightarrow> m' = index_some (\<lambda>_. True) (concat cs) m"
proof (induction env cs m rule: reindex_chunks.induct)
  case (2 env c cs m)
  from "2.prems" have "env 0 = Accepted" by (cases "env 0") (auto simp: bulk_index_def)
  with 2 show ?case by (simp add: bulk_index_def index_some_all comp_def)
qed simp

lemma reindex_all_Some:
  assumes http: "no_bad_status e" and run: "reindex_all e s = (Some u, t)" and still: "pending (shop s) = []" and empty: "es (shop s) = Map.empty"
    and key: "\<And>i q. products (shop s) i = Some q \<Longrightarrow> pid q = i \<and> i \<le> 3000"
  shows "es (shop t) = products (shop s) \<and> products (shop t) = products (shop s) \<and> orders (shop t) = orders (shop s) \<and>
    pending (shop t) = [] \<and> shown t = products (shop s) \<and> running t = running s"
proof -
  from run obtain ps s1 s2 where
    c1: "read e (\<lambda>a. map (\<lambda>i. the (products a i)) (filter (\<lambda>i. products a i \<noteq> None) [0..<Suc 3000])) s = (Some ps, s1)" and
    c2: "call e (\<lambda>x. on_shop (\<lambda>a. case reindex (bulks x) ps a of (r, a') \<Rightarrow> (if r = None then Some () else None, a'))) s1 = (Some (), s2)" and
    c3: "es_refresh e s2 = (Some u, t)"
    by (auto simp: reindex_all_def and_then_Some simp del: upt_Suc)
  from read_Some [OF c1] have s1: "ps = map (\<lambda>i. the (products (shop s) i)) (filter (\<lambda>i. products (shop s) i \<noteq> None) [0..<Suc 3000])"
    "shop s1 = shop s" "running s1 = running s"
    using still by (auto simp: same_run_def later_def)
  have ps: "set ps = ran (products (shop s))"
  proof -
    have "ran (products (shop s)) = (\<lambda>i. the (products (shop s) i)) ` dom (products (shop s))" by (force simp: ran_def)
    moreover have "dom (products (shop s)) = {i \<in> {0..<Suc 3000}. products (shop s) i \<noteq> None}" using key by fastforce
    ultimately show ?thesis unfolding s1(1) by (simp del: upt_Suc)
  qed
  from call_on_shop [OF c2] obtain a and x :: tick_env where a0: "later (shop s1) a" "running s2 = running s1"
    "(case reindex (bulks x) ps a of (r, a') \<Rightarrow> (if r = None then Some () else None, a')) = (Some (), shop s2)" by blast
  then have a: "later (shop s1) a" "reindex (bulks x) ps a = (None, shop s2)" "running s2 = running s1"
    by (cases "reindex (bulks x) ps a", simp split: if_splits)+
  then have "a = shop s" using still s1(2) by (simp add: later_def)
  with a(2) have "shop s2 = (shop s)\<lparr>es := index_some (\<lambda>_. True) ps Map.empty\<rparr>"
    using reindex_chunks_None [of "bulks x" "chunk 1000 ps" Map.empty] empty
    by (auto simp: reindex_def concat_chunk split: prod.splits)
  moreover have "index_some (\<lambda>_. True) ps Map.empty = products (shop s)" by (rule index_all_products [OF _ ps]) (use key in blast)
  ultimately have s2: "shop s2 = (shop s)\<lparr>es := products (shop s)\<rparr>" by simp
  then have p2: "pending (shop s2) = []" using still by (simp add: pending_def)
  from es_refresh_Some [OF http c3] have t: "later (shop s2) (shop t)" "shown t = es (shop t)" "running t = running s2" by auto
  then have "shop t = shop s2" using p2 by (simp add: later_def)
  with t s2 p2 a(3) s1(3) show ?thesis by simp
qed

section \<open>The whole run\<close>

definition seeded :: "draws \<Rightarrow> nat \<rightharpoonup> item" where
  "seeded d i = (if 0 < i \<and> i \<le> 3000 then Some ((seed_item (i - 1) (seeds d (i - 1)))\<lparr>pid := i, ver := 1\<rparr>) else None)"

lemma seeded_dom: "dom (seeded d) = {1..3000}"
  by (auto simp: seeded_def split: if_splits)

text \<open>The first part: the products are stored, indexed and searched, the pages are read.\<close>

definition after_pages :: "draws \<Rightarrow> run \<Rightarrow> bool" where
  "after_pages d s \<longleftrightarrow> ok (shop s) \<and> pending (shop s) = [] \<and> products (shop s) = seeded d \<and> orders (shop s) = [] \<and> running s"

definition after_sales :: "draws \<Rightarrow> run \<Rightarrow> bool" where
  "after_sales d s \<longleftrightarrow> ok (shop s) \<and> pending (shop s) = [] \<and> dom (products (shop s)) = {1..3000} \<and> orders (shop s) = sales d"

lemma first_part:
  assumes http: "no_bad_status e" and start: "\<not> running s"
    and run: "reset e s = (Some (), s1)"
      "call e (\<lambda>x. on_shop (seed_products (begun x) (committed x) (stmts x) (seed_items 3000 (seeds d)))) s1 = (Some (), s2)"
      "start_relay s2 = (Some (), s3)" "wait_drained e s3 = (Some (), s4)" "read e (\<lambda>a. card (dom (products a))) s4 = (Some n_pg, s5)"
      "es_count e s5 = (Some n_es, s6)" "read e (\<lambda>_. ()) s6 = (Some (), s7)" "read e (\<lambda>_. ()) s7 = (Some (), s8)"
      "search e (engine d) s8 = (Some answer, s9)" "product_pages e 3 s9 = (Some pgs, s10)"
  shows "n_pg = 3000 \<and> n_es = 3000 \<and> engine d (seeded d) = Some answer \<and> (\<forall>p \<in> set pgs. seeded d 42 = Some (fst p)) \<and>
    after_pages d s10"
proof -
  from reset_Some [OF run(1) start] have s1: "shop s1 = empty_app" "\<not> running s1" by auto
  from call_on_shop [OF run(2)] obtain x :: tick_env where
    "seed_products (begun x) (committed x) (stmts x) (seed_items 3000 (seeds d)) empty_app = (Some (), shop s2)" using s1 by auto
  from seed_Some [OF this] have s2: "ok (shop s2)" "products (shop s2) = seeded d" "orders (shop s2) = []"
    by (simp_all add: seeded_def [abs_def])
  have s3: "shop s3 = shop s2" "running s3" using run(3) by (auto simp: start_relay_def)
  from drain_polls_Some [OF http run(4) [unfolded wait_drained_def]] s2 s3
  have s4: "ok (shop s4)" "pending (shop s4) = []" "shown s4 = seeded d" "products (shop s4) = seeded d" "orders (shop s4) = []" "running s4"
    by simp_all
  from read_Some [OF run(5)] s4(2) have s5: "n_pg = card (dom (products (shop s5)))" "shop s5 = shop s4" "shown s5 = shown s4" "running s5 = running s4"
    by (auto simp: same_run_def later_def)
  from es_ask [OF http run(6) [unfolded es_count_def]] s4(2) s5(2)
  have s6: "n_es = card (dom (shown s6))" "shop s6 = shop s4" "shown s6 = shown s4" "running s6 = running s4"
    using s5 by (auto simp: same_run_def later_def)
  from read_Some [OF run(7)] s4(2) s6 have s7: "shop s7 = shop s4" "shown s7 = shown s4" "running s7 = running s4"
    by (auto simp: same_run_def later_def)
  from read_Some [OF run(8)] s4(2) s7 have s8: "shop s8 = shop s4" "shown s8 = shown s4" "running s8 = running s4"
    by (auto simp: same_run_def later_def)
  have "and_then (call e (\<lambda>x. es_do (http x) id)) (\<lambda>ok s. ((\<lambda>ok s. if ok then engine d (shown s) else None) ok s, s)) s8 = (Some answer, s9)"
    using run(9) by (simp add: search_def)
  from es_ask [OF http this] s4(2) s8 have s9: "engine d (shown s9) = Some answer" "shop s9 = shop s4" "shown s9 = shown s4" "running s9 = running s4"
    by (auto simp: same_run_def later_def)
  from product_pages_Some [OF run(10)] s4 s9 have s10: "ok (shop s10)" "pending (shop s10) = []" "products (shop s10) = seeded d"
    "orders (shop s10) = []" "running s10" "\<forall>p \<in> set pgs. seeded d 42 = Some (fst p)" by simp_all
  have "n_pg = 3000" "n_es = 3000" using s4 s5 s6 by (simp_all add: seeded_dom)
  then show ?thesis using s4 s9 s10 by (simp add: after_pages_def)
qed

lemma dec_0: "dec 0 = ''0''"
  by code_simp

lemma es_title_still:
  assumes "no_bad_status e" "es_title e i s = (Some n, t)" "pending (shop s) = []"
  shows "n = (case es (shop s) i of None \<Rightarrow> [] | Some p \<Rightarrow> title p) \<and> shop t = shop s \<and> running t = running s"
proof -
  have "and_then (call e (\<lambda>x. es_do (http x) id)) (\<lambda>ok s. ((\<lambda>ok s. Some (case (if ok then es (shop s) i else None) of None \<Rightarrow> [] | Some p \<Rightarrow> title p)) ok s, s)) s = (Some n, t)"
    using assms(2) by (simp add: es_title_def)
  from es_ask [OF assms(1) this] assms(3) show ?thesis by (auto simp: same_run_def later_def)
qed

lemma es_title_ok: "es_title e i s = (Some n, t) \<Longrightarrow> later (shop s) (shop t) \<and> running t = running s"
proof -
  assume "es_title e i s = (Some n, t)"
  then obtain b where "call e (\<lambda>x. es_do (http x) id) s = (Some b, t)" by (auto simp: es_title_def and_then_Some)
  from call_Some [OF this] obtain s0 and x :: tick_env where "es_do (http x) id s0 = (Some b, t)" "later (shop s) (shop s0)" "running s0 = running s"
    by blast
  with es_do_Some [of "http x" id s0 b t] show ?thesis by (cases "applied (http x)") simp_all
qed

text \<open>The second part: orders, an update of product 42 that all stores see after the wait.\<close>

lemma second_part:
  assumes http: "no_bad_status e" and init: "after_pages d s"
    and run: "call e (\<lambda>x. on_shop (place_random_orders (begun x) (committed x) (stmts x) (sales d))) s = (Some (), s1)"
      "wait_drained e s1 = (Some (), s2)" "read e leaders s2 = (Some best, s3)" "read e (\<lambda>_. ()) s3 = (Some (), s4)"
      "update e 42 pro 24900 s4 = (Some (), s5)" "read e (\<lambda>a. map_option title (products a 42)) s5 = (Some (Some npg), s6)"
      "es_title e 42 s6 = (Some nes, s7)" "wait_drained e s7 = (Some (), s8)" "get_product e 42 s8 = (Some page, s9)" "es_title e 42 s9 = (Some nes2, s10)"
  shows "npg = pro \<and> nes2 = pro \<and> title (fst page) = pro \<and>
after_sales d s10"
proof -
  have start: "ok (shop s)" "pending (shop s) = []" "products (shop s) = seeded d" "orders (shop s) = []" "running s"
    using init by (simp_all add: after_pages_def)
  from call_on_shop [OF run(1)] obtain a and x :: tick_env where
    "later (shop s) a" "place_random_orders (begun x) (committed x) (stmts x) (sales d) a = (Some (), shop s1)" "running s1 = running s" by blast
  moreover from this start(2) have "a = shop s" by (simp add: later_def)
  ultimately have s1: "ok (shop s1)" "products (shop s1) = seeded d" "orders (shop s1) = sales d" "running s1"
    using orders_Some start by auto
  from drain_polls_Some [OF http run(2) [unfolded wait_drained_def]] s1
  have s2: "ok (shop s2)" "pending (shop s2) = []" "products (shop s2) = seeded d" "orders (shop s2) = sales d" "running s2" by simp_all
  from read_Some [OF run(3)] s2 have s3: "shop s3 = shop s2" "running s3" by (auto simp: same_run_def later_def)
  from read_Some [OF run(4)] s2 s3 have s4: "shop s4 = shop s2" "running s4" by (auto simp: same_run_def later_def)
  have s4': "ok (shop s4)" "\<forall>x \<in> set (pending (shop s4)). \<exists>p. event x = Upserted p" "pending (shop s4) = [] \<or> \<not> running s4"
    using s2 s4 by simp_all
  from update_run [OF run(5) s4'] s2 s4 obtain p where s5: "ok (shop s5)" "orders (shop s5) = sales d" "running s5"
    "seeded d 42 = Some p" "products (shop s5) = (seeded d)(42 \<mapsto> p\<lparr>title := pro, cents := 24900, ver := Suc (ver p)\<rparr>)"
    by (metis (no_types, lifting))
  have t42: "map_option title (products (shop s5) 42) = Some pro" "dom (products (shop s5)) = dom (seeded d)"
    using s5(4) by (auto simp: s5(5))
  from read_Some [OF run(6)] s5 have s6: "Some npg = map_option title (products (shop s6) 42)" "ok (shop s6)" "products (shop s6) = products (shop s5)"
    "orders (shop s6) = sales d" "running s6"
    by (auto simp: same_run_def later_def)
  from es_title_ok [OF run(7)] s6 have s7: "ok (shop s7)" "products (shop s7) = products (shop s5)" "orders (shop s7) = sales d" "running s7"
    by (auto simp: later_def)
  from drain_polls_Some [OF http run(8) [unfolded wait_drained_def]] s7
  have s8: "ok (shop s8)" "pending (shop s8) = []" "es (shop s8) = products (shop s8)" "products (shop s8) = products (shop s5)"
    "orders (shop s8) = sales d" "running s8" by simp_all
  from get_product_Some [OF run(9) s8(1,2)] s8 have s9: "products (shop s5) 42 = Some (fst page)" "ok (shop s9)" "pending (shop s9) = []"
    "products (shop s9) = products (shop s5)" "es (shop s9) = products (shop s5)" "orders (shop s9) = sales d" "running s9" by simp_all
  from es_title_still [OF http run(10) s9(3)] have s10: "shop s10 = shop s9" "running s10" "nes2 = (case products (shop s5) 42 of None \<Rightarrow> [] | Some p \<Rightarrow> title p)"
    using s9 by simp_all
  from t42(1) s6(1,3) s9(1) have "npg = pro" "title (fst page) = pro" by simp_all
  with s10 s9 t42 show ?thesis by (simp add: after_sales_def seeded_dom)
qed

text \<open>The last part: the relay is down, the backlog is drained, the index is dropped and rebuilt.\<close>

lemma last_part:
  assumes http: "no_bad_status e" and init: "after_sales d s"
    and run: "stop_relay e s = (Some (), s1)" "clearance e 50 s1 = (Some (), s2)" "read e (\<lambda>a. length (pending a)) s2 = (Some n_back, s3)"
      "start_relay s3 = (Some (), s4)" "wait_drained e s4 = (Some (), s5)" "es_title e 100 s5 = (Some n100, s6)"
      "es_reset e s6 = (Some (), s7)" "es_count e s7 = (Some n_drop, s8)" "reindex_all e s8 = (Some (), s9)" "es_count e s9 = (Some n_re, s10)"
      "stop_relay e s10 = (Some (), s11)"
  shows "n_back = 50 \<and> n100 = ''Clearance Item 0'' \<and> n_drop = 0 \<and> n_re = 3000 \<and>
    es (shop s11) = products (shop s11) \<and> pending (shop s11) = [] \<and> orders (shop s11) = sales d"
proof -
  have start: "ok (shop s)" "pending (shop s) = []" "dom (products (shop s)) = {1..3000}" "orders (shop s) = sales d"
    using init by (simp_all add: after_sales_def)
  from call_Some [OF run(1) [unfolded stop_relay_def]] have s1: "shop s1 = shop s" "\<not> running s1"
    using start(2) by (auto simp: later_def)
  from clearance_Some [OF run(2)] s1 start
  have s2: "ok (shop s2)" "\<not> running s2" "orders (shop s2) = orders (shop s)" "length (pending (shop s2)) = 50" "dom (products (shop s2)) = {1..3000}"
    by simp_all
  have "\<forall>j < 50. map_option title (products (shop s2) (100 + j)) = Some (''Clearance Item '' @ dec j)"
    using clearance_Some [OF run(2)] s1 start by metis
  then have t100: "map_option title (products (shop s2) 100) = Some (''Clearance Item '' @ dec 0)"
    by (metis add.right_neutral zero_less_numeral)
  from read_Some [OF run(3)] s2 have s3: "n_back = 50" "shop s3 = shop s2" by (auto simp: same_run_def)
  have s4: "shop s4 = shop s2" "running s4" using run(4) s3 by (auto simp: start_relay_def)
  from drain_polls_Some [OF http run(5) [unfolded wait_drained_def]] s2 s4
  have s5: "ok (shop s5)" "pending (shop s5) = []" "es (shop s5) = products (shop s2)" "products (shop s5) = products (shop s2)"
    "orders (shop s5) = orders (shop s)" by simp_all
  from es_title_still [OF http run(6) s5(2)] s5 have s6: "shop s6 = shop s5" "n100 = (case products (shop s2) 100 of None \<Rightarrow> [] | Some p \<Rightarrow> title p)"
    by simp_all
  with t100 have n100: "n100 = ''Clearance Item 0''" by (auto simp: dec_0 split: option.splits)
  have still6: "still s6" using s6 s5(2) by (simp add: still_def)
  from es_reset_Some [OF run(7) still6] have s7: "shown s7 = Map.empty" "shop s7 = (shop s5)\<lparr>es := Map.empty\<rparr>" by (simp_all add: s6(1))
  then have p7: "pending (shop s7) = []" using s5(2) by (simp add: pending_def)
  from es_ask [OF http run(8) [unfolded es_count_def]] p7 have s8: "n_drop = card (dom (shown s8))" "shown s8 = shown s7" "shop s8 = shop s7"
    by (auto simp: same_run_def later_def)
  have key: "pid q = i \<and> i \<le> 3000" if "products (shop s8) i = Some q" for i q
  proof -
    from that have q: "products (shop s5) i = Some q" by (simp add: s8(3) s7(2))
    then have "i \<in> dom (products (shop s2))" by (auto simp: s5(4) [symmetric])
    moreover have "search_inv Whole (shop s5)" using s5(1) reachable_search_inv by (auto simp: ok_def)
    ultimately show ?thesis using search_invD(4) [OF _ q] s2(5) by simp
  qed
  have r8: "pending (shop s8) = []" "es (shop s8) = Map.empty" using p7 by (simp_all add: s8(3) s7(2))
  from reindex_all_Some [OF http run(9) r8 key] have s9: "es (shop s9) = products (shop s9)" "pending (shop s9) = []" "shown s9 = products (shop s9)"
    "products (shop s9) = products (shop s2)" "orders (shop s9) = orders (shop s)"
    using s5 by (simp_all add: s8(3) s7(2))
  from es_ask [OF http run(10) [unfolded es_count_def]] s9(2) have s10: "n_re = card (dom (shown s10))" "shown s10 = shown s9" "shop s10 = shop s9"
    by (auto simp: same_run_def later_def)
  from call_Some [OF run(11) [unfolded stop_relay_def]] s9(2) s10(3) have "shop s11 = shop s9" by (auto simp: later_def)
  with s3 n100 s7 s8 s9 s10 s2(5) start(4) show ?thesis by simp
qed

lemma and_thenE:
  assumes "and_then f g s = (Some y, t)"
  obtains x s' where "f s = (Some x, s')" "g x s' = (Some y, t)"
  using assms by (auto simp: and_then_Some)

text \<open>C16: Assume that Elasticsearch answers no request of \<open>main\<close> with an error status (it may fail to answer; a 5xx on
  \<open>_count\<close> would be read as 0, and the count printed would be wrong) and that no relay runs yet. Whatever batches the relay
  runs between the calls, however they fail and repeat: if \<open>main\<close> ends, both stores count 3000 products, the pages show the stored product 42, the update of product 42 is seen
  by PostgreSQL at once and by the cache and the index after the wait, the backlog of the stopped relay is exactly 50, the
  index that was dropped is rebuilt to 3000 documents and is the product table in the end, with nothing pending.\<close>

theorem poly_main_result:
  assumes "no_bad_status e" and "\<not> running s" and run: "poly_main e d s = (Some r, t)"
  shows "stored r = 3000 \<and> indexed_docs r = 3000 \<and> engine d (seeded d) = Some (found r) \<and> (\<forall>p \<in> set (pages r). seeded d 42 = Some (fst p)) \<and>
    name_pg r = pro \<and> name_es_later r = pro \<and> title (fst (page_later r)) = pro \<and> backlog r = 50 \<and> name_100 r = ''Clearance Item 0'' \<and>
    docs_dropped r = 0 \<and> docs_rebuilt r = 3000 \<and> es (shop t) = products (shop t) \<and> pending (shop t) = [] \<and> orders (shop t) = sales d"
proof -
  show ?thesis
    using run unfolding poly_main_def
    apply (elim and_thenE)
    apply simp
    subgoal premises p
    proof -
      note f = first_part [OF assms(1,2) p(1-10)]
      note g = second_part [OF assms(1) f [THEN conjunct2, THEN conjunct2, THEN conjunct2, THEN conjunct2] p(11-16) p(18-21)]
      note h = last_part [OF assms(1) g [THEN conjunct2, THEN conjunct2, THEN conjunct2] p(22-32)]
      show ?thesis using f g h p(33) p(17) by (auto simp: give_Some)
    qed
    done
qed

section \<open>A run that ends\<close>

definition quiet_tick :: tick_env where
  "quiet_tick = \<lparr>batches = replicate 7 calm, begun = Done, stmts = (\<lambda>_. Done), committed = Done, asked = Done, http = Done,
     bulks = (\<lambda>_. Accepted), polls = 1\<rparr>"

definition quiet :: env where
  "quiet = (\<lambda>_. quiet_tick)"

definition one_sale :: draws where
  "one_sale = \<lparr>seeds = (\<lambda>_. (0, 0, 0)), sales = [(42, 1)], engine = (\<lambda>_. Some \<lparr>total = 0, top = [], facets = []\<rparr>)\<rparr>"

lemma quiet_at: "quiet n = quiet_tick"
  by (simp add: quiet_def)

lemma quiet_sel [simp]: "begun quiet_tick = Done" "stmts quiet_tick = (\<lambda>_. Done)" "committed quiet_tick = Done"
  "asked quiet_tick = Done" "http quiet_tick = Done" "bulks quiet_tick = (\<lambda>_. Accepted)" "polls quiet_tick = 1" "batches quiet_tick = replicate 7 calm"
  by (simp_all add: quiet_tick_def)

lemma quiet_call: "call quiet f s = f quiet_tick (s\<lparr>ticks := Suc (ticks s), shop := if running s then Polyglot.relay (replicate 7 calm) (shop s) else shop s\<rparr>)"
  by (simp add: call_def quiet_at)

lemma quiet_reads: "\<exists>v t. read quiet g s = (Some v, t)" "\<exists>t. es_refresh quiet s = (Some (), t)" "\<exists>n t. es_count quiet s = (Some n, t)"
  "\<exists>n t. es_title quiet i s = (Some n, t)" "\<exists>x t. search quiet (engine one_sale) s = (Some x, t)" "\<exists>t. stop_relay quiet s = (Some (), t)"
  "\<exists>t. es_reset quiet s = (Some (), t)" "\<exists>t. reset quiet s = (Some (), t)"
  by (simp_all add: read_def quiet_call es_refresh_def es_do_def and_then_def give_def es_count_def es_title_def search_def one_sale_def
      stop_relay_def es_reset_def reset_def on_shop_def must_def drop_index_def set_es_def)

lemma quiet_read: obtains v t where "read quiet g s = (Some v, t)"
  using quiet_reads(1) [of g s] by auto

lemma quiet_ask: obtains t where "read quiet (\<lambda>_. ()) s = (Some (), t)"
  using quiet_reads(1) [of "\<lambda>_. ()" s] by auto

lemma quiet_wait:
  assumes "ok (shop s)" "length (pending (shop s)) \<le> 3500" "running s"
  shows "\<exists>t. wait_drained quiet s = (Some (), t)"
proof -
  have "search_inv Whole (shop s)" using assms(1) reachable_search_inv by (auto simp: ok_def)
  then have "pending (Polyglot.relay (replicate 7 calm) (shop s)) = []" using assms(2) by (intro relay_pending) simp_all
  then show ?thesis
    using assms(3) quiet_reads(2) by (simp add: wait_drained_def quiet_at and_then_def read_def quiet_call)
qed

lemma seed_tx_Done:
  assumes "distinct (map fst ps)" "\<forall>i \<in> fst ` set ps. products a i = None"
  shows "\<exists>b. seed_tx (\<lambda>_. Done) ps a = (Inr (), b) \<and> length (outbox b) = length (outbox a) + length ps"
  using assms
proof (induction ps arbitrary: a)
  case (Cons ip ps)
  obtain i p where ip: "ip = (i, p)" by force
  let ?a = "emit (Upserted (p\<lparr>pid := i, ver := 1\<rparr>)) (a\<lparr>products := (products a)(i \<mapsto> p\<lparr>pid := i, ver := 1\<rparr>)\<rparr>)"
  have "seed_product p i a = (Inr (), ?a)" using Cons.prems(2) by (simp add: seed_product_def Let_def ip)
  moreover have "\<exists>b. seed_tx (\<lambda>_. Done) ps ?a = (Inr (), b) \<and> length (outbox b) = length (outbox ?a) + length ps"
    by (rule Cons.IH) (use Cons.prems in \<open>auto simp: ip emit_def\<close>)
  ultimately show ?case by (auto simp: ip bind_tx_def stmt_Done comp_def emit_def)
qed simp

lemma quiet_seed:
  assumes "shop s = empty_app" "\<not> running s"
  shows "\<exists>t. call quiet (\<lambda>x. on_shop (seed_products (begun x) (committed x) (stmts x) (seed_items 3000 d))) s = (Some (), t) \<and>
    length (pending (shop t)) \<le> 3500"
proof -
  have "distinct (map fst (seed_items 3000 d))" by (simp add: seed_items_def comp_def distinct_map inj_on_def del: upt_Suc)
  then obtain b where b: "seed_tx (\<lambda>_. Done) (seed_items 3000 d) empty_app = (Inr (), b)" "length (outbox b) = 3000"
    using seed_tx_Done [of "seed_items 3000 d" empty_app] by (auto simp: empty_app_def seed_items_def)
  have "length (pending b) \<le> length (outbox b)" unfolding pending_def by (rule length_filter_le)
  with b assms show ?thesis
    by (simp add: quiet_call on_shop_def seed_products_def begin_func_Done del: upt_Suc)
qed

lemma quiet_get:
  assumes "products (shop s) i \<noteq> None"
  shows "\<exists>p t. get_product quiet i s = (Some p, t)"
  using assms
  by (auto simp: get_product_def quiet_call on_shop_def get_item_def query_simps relay_products split: option.splits)

lemma title_42: "products a = seeded one_sale \<Longrightarrow> products a 42 = Some p \<Longrightarrow> 10 \<le> length (title p)"
  by (auto simp: seeded_def seed_item_def one_sale_def kinds_def adjectives_def)

lemma quiet_pages:
  assumes "ok (shop s)" "pending (shop s) = []" "products (shop s) = seeded one_sale"
  shows "\<exists>ps t. product_pages quiet k s = (Some ps, t)"
  using assms
proof (induction k arbitrary: s)
  case (Suc k)
  have "products (shop s) 42 \<noteq> None" using Suc.prems(3) by (simp add: seeded_def)
  from quiet_get [OF this] obtain p t where p: "get_product quiet 42 s = (Some p, t)" by blast
  note t = get_product_Some [OF p Suc.prems(1,2)]
  from Suc.IH [of t] t Suc.prems(3) obtain ps u where "product_pages quiet k t = (Some ps, u)" by auto
  moreover have "10 \<le> length (title (fst p))" using t Suc.prems(3) by (intro title_42 [of "shop s"]) simp_all
  ultimately show ?case using p by (simp add: and_then_def give_def)
qed (simp add: give_def)

lemma quiet_update:
  assumes "products (shop s) i \<noteq> None"
  shows "\<exists>t. update quiet i n c s = (Some (), t)"
  using assms
  by (auto simp: update_def quiet_call on_shop_def update_product_def begin_func_Done update_tx_def bind_tx_def stmt_Done relay_products Let_def split: option.splits)

lemma quiet_sale:
  assumes "products (shop s) 42 \<noteq> None"
  shows "\<exists>t. call quiet (\<lambda>x. on_shop (place_random_orders (begun x) (committed x) (stmts x) (sales one_sale))) s = (Some (), t) \<and>
    (pending (shop s) = [] \<longrightarrow> length (pending (shop t)) \<le> 3500)"
proof -
  have "Polyglot.relay bs (shop s) = shop s" if "pending (shop s) = []" for bs using later_relay [of "shop s" bs] that by (simp add: later_def)
  then show ?thesis using assms
    by (simp add: quiet_call on_shop_def place_random_orders_def begin_func_Done one_sale_def bind_tx_def stmt_Done relay_products emit_def pending_def)
qed

lemma quiet_clearance:
  assumes "ok (shop s)" "pending (shop s) = []" "\<not> running s" "dom (products (shop s)) = {1..3000}" "k \<le> 50"
  shows "\<exists>t. clearance quiet k s = (Some (), t)"
  using assms(5)
proof (induction k)
  case (Suc k)
  then obtain t where t: "clearance quiet k s = (Some (), t)" by auto
  have "dom (products (shop t)) = {1..3000}" using clearance_Some [OF t assms(1-3)] assms(4) by blast
  moreover have "100 + k \<in> {1..3000}" using Suc.prems by simp
  ultimately have "products (shop t) (100 + k) \<noteq> None" by blast
  from quiet_update [OF this] t show ?case by (simp add: and_then_def)
qed (simp add: give_def)

lemma quiet_reindex: "\<exists>t. reindex_all quiet s = (Some (), t)"
proof -
  obtain ps s1 where r: "read quiet (\<lambda>a. map (\<lambda>i. the (products a i)) (filter (\<lambda>i. products a i \<noteq> None) [0..<Suc 3000])) s = (Some ps, s1)"
    by (rule quiet_read)
  let ?f = "\<lambda>x. on_shop (\<lambda>a. case reindex (bulks x) ps a of (r, a') \<Rightarrow> (if r = None then Some () else None, a'))"
  have "fst (call quiet ?f s1) = Some ()" by (simp add: quiet_call on_shop_def reindex_def reindex_accepted)
  then obtain s2 where c: "call quiet ?f s1 = (Some (), s2)" by (metis prod.collapse)
  obtain t where "es_refresh quiet s2 = (Some (), t)" using quiet_reads(2) by blast
  then show ?thesis
    unfolding reindex_all_def by (simp only: and_then_def r c prod.case option.case) simp
qed

lemma quiet_first:
  assumes "\<not> running s"
  obtains s1 s2 s3 s4 s5 s6 s7 s8 s9 s10 n_pg n_es answer pgs where "reset quiet s = (Some (), s1)"
    "call quiet (\<lambda>x. on_shop (seed_products (begun x) (committed x) (stmts x) (seed_items 3000 (seeds one_sale)))) s1 = (Some (), s2)"
    "start_relay s2 = (Some (), s3)" "wait_drained quiet s3 = (Some (), s4)" "read quiet (\<lambda>a. card (dom (products a))) s4 = (Some n_pg, s5)"
    "es_count quiet s5 = (Some n_es, s6)" "read quiet (\<lambda>_. ()) s6 = (Some (), s7)" "read quiet (\<lambda>_. ()) s7 = (Some (), s8)"
    "search quiet (engine one_sale) s8 = (Some answer, s9)" "product_pages quiet 3 s9 = (Some pgs, s10)" "after_pages one_sale s10"
proof -
  have http: "no_bad_status quiet" by (simp add: no_bad_status_def quiet_at)
  from quiet_reads(8) obtain s1 where s1: "reset quiet s = (Some (), s1)" by blast
  note r = reset_Some [OF s1 assms]
  from quiet_seed [of s1] r obtain s2 where s2: "call quiet (\<lambda>x. on_shop (seed_products (begun x) (committed x) (stmts x) (seed_items 3000 (seeds one_sale)))) s1 = (Some (), s2)"
    "length (pending (shop s2)) \<le> 3500" by blast
  from call_on_shop [OF s2(1)] obtain x :: tick_env where
    "seed_products (begun x) (committed x) (stmts x) (seed_items 3000 (seeds one_sale)) empty_app = (Some (), shop s2)" using r by auto
  from seed_Some [OF this] have o2: "ok (shop s2)" "products (shop s2) = seeded one_sale" by (simp_all add: seeded_def [abs_def])
  define s3 where "s3 = s2\<lparr>running := True\<rparr>"
  have s3: "start_relay s2 = (Some (), s3)" by (simp add: start_relay_def s3_def)
  from quiet_wait [of s3] o2 s2(2) obtain s4 where s4: "wait_drained quiet s3 = (Some (), s4)" by (auto simp: s3_def)
  from drain_polls_Some [OF http s4 [unfolded wait_drained_def]] o2
  have o4: "ok (shop s4)" "pending (shop s4) = []" "products (shop s4) = seeded one_sale" by (simp_all add: s3_def)
  obtain n_pg s5 where s5: "read quiet (\<lambda>a. card (dom (products a))) s4 = (Some n_pg, s5)" by (rule quiet_read)
  from quiet_reads(3) obtain n_es s6 where s6: "es_count quiet s5 = (Some n_es, s6)" by blast
  obtain s7 where s7: "read quiet (\<lambda>_. ()) s6 = (Some (), s7)" by (rule quiet_ask)
  obtain s8 where s8: "read quiet (\<lambda>_. ()) s7 = (Some (), s8)" by (rule quiet_ask)
  from quiet_reads(5) obtain answer s9 where s9: "search quiet (engine one_sale) s8 = (Some answer, s9)" by blast
  have q5: "shop s5 = shop s4" using read_Some [OF s5] o4 by (auto simp: same_run_def later_def)
  have q6: "shop s6 = shop s4" using es_ask [OF http s6 [unfolded es_count_def]] o4 q5 by (auto simp: same_run_def later_def)
  have q7: "shop s7 = shop s4" using read_Some [OF s7] o4 q6 by (auto simp: same_run_def later_def)
  have q8: "shop s8 = shop s4" using read_Some [OF s8] o4 q7 by (auto simp: same_run_def later_def)
  have "and_then (call quiet (\<lambda>x. es_do (http x) id)) (\<lambda>ok s. ((\<lambda>ok s. if ok then engine one_sale (shown s) else None) ok s, s)) s8 = (Some answer, s9)"
    using s9 by (simp add: search_def)
  from es_ask [OF http this] o4 q8 have q9: "shop s9 = shop s4" by (auto simp: same_run_def later_def)
  from quiet_pages [of s9 3] o4 q9 obtain pgs s10 where s10: "product_pages quiet 3 s9 = (Some pgs, s10)" by auto
  from first_part [OF http assms s1 s2(1) s3 s4 s5 s6 s7 s8 s9 s10] have "after_pages one_sale s10" by blast
  from that [OF s1 s2(1) s3 s4 s5 s6 s7 s8 s9 s10 this] show thesis .
qed

lemma quiet_second:
  assumes "after_pages one_sale s"
  obtains s1 s2 s3 s4 s5 s6 s7 s8 s9 s10 best npg nes page nes2 where
    "call quiet (\<lambda>x. on_shop (place_random_orders (begun x) (committed x) (stmts x) (sales one_sale))) s = (Some (), s1)"
    "wait_drained quiet s1 = (Some (), s2)" "read quiet leaders s2 = (Some best, s3)" "read quiet (\<lambda>_. ()) s3 = (Some (), s4)"
    "update quiet 42 pro 24900 s4 = (Some (), s5)" "read quiet (\<lambda>a. map_option title (products a 42)) s5 = (Some (Some npg), s6)"
    "es_title quiet 42 s6 = (Some nes, s7)" "wait_drained quiet s7 = (Some (), s8)" "get_product quiet 42 s8 = (Some page, s9)"
    "es_title quiet 42 s9 = (Some nes2, s10)" "after_sales one_sale s10"
proof -
  have http: "no_bad_status quiet" by (simp add: no_bad_status_def quiet_at)
  have a: "ok (shop s)" "pending (shop s) = []" "products (shop s) = seeded one_sale" "orders (shop s) = []" "running s"
    using assms by (simp_all add: after_pages_def)
  have p42: "seeded one_sale 42 \<noteq> None" by (simp add: seeded_def)
  from quiet_sale [of s] a p42 obtain s1 where s1: "call quiet (\<lambda>x. on_shop (place_random_orders (begun x) (committed x) (stmts x) (sales one_sale))) s = (Some (), s1)"
    "length (pending (shop s1)) \<le> 3500" by auto
  from call_on_shop [OF s1(1)] obtain b and x :: tick_env where
    b: "later (shop s) b" "place_random_orders (begun x) (committed x) (stmts x) (sales one_sale) b = (Some (), shop s1)" "running s1 = running s" by blast
  from b(1) a(2) have "b = shop s" by (simp add: later_def)
  with b orders_Some [OF _ a(1,2)] a have o1: "ok (shop s1)" "products (shop s1) = seeded one_sale" "running s1" by auto
  from quiet_wait [OF o1(1) s1(2) o1(3)] obtain s2 where s2: "wait_drained quiet s1 = (Some (), s2)" by blast
  from drain_polls_Some [OF http s2 [unfolded wait_drained_def] o1(1)] o1
  have o2: "ok (shop s2)" "pending (shop s2) = []" "products (shop s2) = seeded one_sale" "running s2" by simp_all
  obtain best s3 where s3: "read quiet leaders s2 = (Some best, s3)" by (rule quiet_read)
  obtain s4 where s4: "read quiet (\<lambda>_. ()) s3 = (Some (), s4)" by (rule quiet_ask)
  have o3: "shop s3 = shop s2" "running s3" using read_Some [OF s3] o2 by (auto simp: same_run_def later_def)
  have o4: "shop s4 = shop s2" "running s4" using read_Some [OF s4] o2 o3 by (auto simp: same_run_def later_def)
  from quiet_update [of s4 42 pro 24900] o4 o2 p42 obtain s5 where s5: "update quiet 42 pro 24900 s4 = (Some (), s5)" by auto
  from update_run [OF s5] o2 o4 have "ok (shop s5) \<and> running s5 \<and> length (pending (shop s5)) = 1 \<and> products (shop s5) 42 \<noteq> None"
    by auto
  then have o5: "ok (shop s5)" "running s5" "length (pending (shop s5)) = 1" "products (shop s5) 42 \<noteq> None" by auto
  obtain q s6 where q: "read quiet (\<lambda>a. map_option title (products a 42)) s5 = (Some q, s6)" by (rule quiet_read)
  from read_Some [OF q] o5 have o6: "q = map_option title (products (shop s6) 42)" "ok (shop s6)" "products (shop s6) = products (shop s5)" "running s6"
    "length (pending (shop s6)) \<le> 1"
    by (auto simp: same_run_def later_def)
  then obtain npg where npg: "q = Some npg" using o5(4) by auto
  from quiet_reads(4) obtain nes s7 where s7: "es_title quiet 42 s6 = (Some nes, s7)" by blast
  from es_title_ok [OF s7] o6 have o7: "ok (shop s7)" "products (shop s7) = products (shop s5)" "running s7" "length (pending (shop s7)) \<le> 1"
    by (auto simp: later_def)
  from quiet_wait [of s7] o7 obtain s8 where s8: "wait_drained quiet s7 = (Some (), s8)" by auto
  from drain_polls_Some [OF http s8 [unfolded wait_drained_def] o7(1)] o7 o5(4)
  have o8: "products (shop s8) 42 \<noteq> None" by simp
  from quiet_get [OF o8] obtain page s9 where s9: "get_product quiet 42 s8 = (Some page, s9)" by blast
  from quiet_reads(4) obtain nes2 s10 where s10: "es_title quiet 42 s9 = (Some nes2, s10)" by blast
  from second_part [OF http assms s1(1) s2 s3 s4 s5 q [unfolded npg] s7 s8 s9 s10] have "after_sales one_sale s10" by blast
  from that [OF s1(1) s2 s3 s4 s5 q [unfolded npg] s7 s8 s9 s10 this] show thesis .
qed

lemma quiet_last:
  assumes "after_sales one_sale s"
  obtains s1 s2 s3 s4 s5 s6 s7 s8 s9 s10 s11 n_back n100 n_drop n_re where
    "stop_relay quiet s = (Some (), s1)" "clearance quiet 50 s1 = (Some (), s2)" "read quiet (\<lambda>a. length (pending a)) s2 = (Some n_back, s3)"
    "start_relay s3 = (Some (), s4)" "wait_drained quiet s4 = (Some (), s5)" "es_title quiet 100 s5 = (Some n100, s6)"
    "es_reset quiet s6 = (Some (), s7)" "es_count quiet s7 = (Some n_drop, s8)" "reindex_all quiet s8 = (Some (), s9)"
    "es_count quiet s9 = (Some n_re, s10)" "stop_relay quiet s10 = (Some (), s11)"
proof -
  have a: "ok (shop s)" "pending (shop s) = []" "dom (products (shop s)) = {1..3000}" using assms by (simp_all add: after_sales_def)
  from quiet_reads(6) obtain s1 where s1: "stop_relay quiet s = (Some (), s1)" by blast
  from call_Some [OF s1 [unfolded stop_relay_def]] a(2) have o1: "shop s1 = shop s" "\<not> running s1" by (auto simp: later_def)
  from quiet_clearance [of s1 50] a o1 obtain s2 where s2: "clearance quiet 50 s1 = (Some (), s2)" by auto
  have o2: "ok (shop s2)" "length (pending (shop s2)) = 50" "\<not> running s2"
    using clearance_Some [OF s2] a o1 by (metis, metis, metis)
  obtain n_back s3 where s3: "read quiet (\<lambda>a. length (pending a)) s2 = (Some n_back, s3)" by (rule quiet_read)
  define s4 where "s4 = s3\<lparr>running := True\<rparr>"
  have s4: "start_relay s3 = (Some (), s4)" by (simp add: start_relay_def s4_def)
  have "shop s3 = shop s2" using read_Some [OF s3] o2 by (auto simp: same_run_def)
  with quiet_wait [of s4] o2 obtain s5 where s5: "wait_drained quiet s4 = (Some (), s5)" by (auto simp: s4_def)
  from quiet_reads(4) obtain n100 s6 where s6: "es_title quiet 100 s5 = (Some n100, s6)" by blast
  from quiet_reads(7) obtain s7 where s7: "es_reset quiet s6 = (Some (), s7)" by blast
  from quiet_reads(3) obtain n_drop s8 where s8: "es_count quiet s7 = (Some n_drop, s8)" by blast
  from quiet_reindex obtain s9 where s9: "reindex_all quiet s8 = (Some (), s9)" by blast
  from quiet_reads(3) obtain n_re s10 where s10: "es_count quiet s9 = (Some n_re, s10)" by blast
  from quiet_reads(6) obtain s11 where s11: "stop_relay quiet s10 = (Some (), s11)" by blast
  from that [OF s1 s2 s3 s4 s5 s6 s7 s8 s9 s10 s11] show thesis .
qed

definition new_shop :: run where
  "new_shop = \<lparr>shop = empty_app, shown = Map.empty, there = False, running = False, ticks = 0\<rparr>"

theorem poly_main_result_witness:
  "\<exists>r t. poly_main quiet one_sale new_shop = (Some r, t) \<and> stored r = 3000 \<and> backlog r = 50 \<and> es (shop t) = products (shop t) \<and>
     orders (shop t) = [(42, 1)]"
proof -
  have start: "\<not> running new_shop" by (simp add: new_shop_def)
  obtain s1 s2 s3 s4 s5 s6 s7 s8 s9 s10 n_pg n_es answer pgs where first: "reset quiet new_shop = (Some (), s1)"
    "call quiet (\<lambda>x. on_shop (seed_products (begun x) (committed x) (stmts x) (seed_items 3000 (seeds one_sale)))) s1 = (Some (), s2)"
    "start_relay s2 = (Some (), s3)" "wait_drained quiet s3 = (Some (), s4)" "read quiet (\<lambda>a. card (dom (products a))) s4 = (Some n_pg, s5)"
    "es_count quiet s5 = (Some n_es, s6)" "read quiet (\<lambda>_. ()) s6 = (Some (), s7)" "read quiet (\<lambda>_. ()) s7 = (Some (), s8)"
    "search quiet (engine one_sale) s8 = (Some answer, s9)" "product_pages quiet 3 s9 = (Some pgs, s10)" "after_pages one_sale s10"
    by (rule quiet_first [OF start])
  obtain u1 u2 u3 u4 u5 u6 u7 u8 u9 u10 best npg nes page nes2 where second:
    "call quiet (\<lambda>x. on_shop (place_random_orders (begun x) (committed x) (stmts x) (sales one_sale))) s10 = (Some (), u1)"
    "wait_drained quiet u1 = (Some (), u2)" "read quiet leaders u2 = (Some best, u3)" "read quiet (\<lambda>_. ()) u3 = (Some (), u4)"
    "update quiet 42 pro 24900 u4 = (Some (), u5)" "read quiet (\<lambda>a. map_option title (products a 42)) u5 = (Some (Some npg), u6)"
    "es_title quiet 42 u6 = (Some nes, u7)" "wait_drained quiet u7 = (Some (), u8)" "get_product quiet 42 u8 = (Some page, u9)"
    "es_title quiet 42 u9 = (Some nes2, u10)" "after_sales one_sale u10"
    by (rule quiet_second [OF first(11)])
  obtain v1 v2 v3 v4 v5 v6 v7 v8 v9 v10 v11 n_back n100 n_drop n_re where last:
    "stop_relay quiet u10 = (Some (), v1)" "clearance quiet 50 v1 = (Some (), v2)" "read quiet (\<lambda>a. length (pending a)) v2 = (Some n_back, v3)"
    "start_relay v3 = (Some (), v4)" "wait_drained quiet v4 = (Some (), v5)" "es_title quiet 100 v5 = (Some n100, v6)"
    "es_reset quiet v6 = (Some (), v7)" "es_count quiet v7 = (Some n_drop, v8)" "reindex_all quiet v8 = (Some (), v9)"
    "es_count quiet v9 = (Some n_re, v10)" "stop_relay quiet v10 = (Some (), v11)"
    by (rule quiet_last [OF second(11)])
  obtain r where run: "poly_main quiet one_sale new_shop = (Some r, v11)"
    unfolding poly_main_def by (simp only: and_then_def first second last prod.case option.case give_def)
  have "no_bad_status quiet" by (simp add: no_bad_status_def quiet_at)
  from poly_main_result [OF this start run] run show ?thesis by (auto simp: one_sale_def)
qed

end
