(* ===== verification/Spec2Isabelle.thy ===== *)
theory Spec2Isabelle
  imports HashRing EventSourcing Cqrs RangeMain DirectoryMain HashSharding ArchivalMain NewSqlMain CachingMain Routing ReadReplicas FailoverMain
    Federation LoadBalancing IndexPlans VerticalPartitioning PartitioningMain ConnectionPooling HotStandby SyncReplication
    Tiering Denormalization MatViews MultiPrimaryMain TenantSchemasMain TenantDatabasesMain PolyglotMain
begin

text \<open>
  This development models the Go programs of the repository, one directory \<open>simulate_<name>\<close> with one
  \<open>main.go\<close> each, and proves what their logic promises. Each program is a client of one or more PostgreSQL
  servers (and of Redis, Elasticsearch or CockroachDB); the programs share no code, but several repeat the
  same patterns: a transaction with \<open>pgx.BeginFunc\<close>, an outbox with a relay that delivers at least once, a
  cache beside a system of record, a router over several pools. The patterns are stated once, in the shared
  theories, and each program is a theory over them.

  \<^bold>\<open>Shared theories.\<close> \<open>Prelude\<close>: Go integers, decimal formatting, the outcome of a statement (\<open>Done\<close>;
  \<open>Refused\<close>, without effect; \<open>Lost\<close>, applied but reported as failed), \<open>begin_func\<close> with its contract
  \<open>txn_runner\<close>, and the contract \<open>at_least_once\<close> of a sink that may be fed twice. \<open>GoStd\<close>: the functions of Go's
  library that the programs compute with (CRC-32, FNV-1a, binary search, chunks, prefixes, JSON numbers,
  polling until a deadline). \<open>Tenancy\<close>: slugs and the closures that run inside a tenant's transaction.

  \<^bold>\<open>Placement.\<close> \<open>HashRing\<close> (consistent hashing: the ring, \<open>AddNode\<close>, \<open>RemoveNode\<close>, the churn of keys);
  \<open>RangeSharding\<close> (the range map, splits that move the rows of one range, range queries), \<open>RangeMain\<close> (its \<open>main\<close> from the calendar to the contents of the four shards);
  \<open>DirectorySharding\<close> (a directory with versions, routers with caches, moves of tenants under concurrent
  writes), \<open>DirectoryMain\<close> (the whole run of its \<open>main\<close>, which refines a placement of tenants by load); \<open>HashSharding\<close> (shards by hash modulo their number, scatter-gather; the abstract specification is one
  table with a primary key); \<open>Tiering\<close> (monthly partitions on three tablespaces); \<open>Archival\<close> (batches from a
  hot table to an archive and an export file), \<open>ArchivalMain\<close> (its \<open>main\<close> with the seed of the init script: typed under every failure, and its numbers on a server that answers); \<open>TablePartitioning\<close> (range, list and hash partitions of the program
  \<open>database_partitioning\<close>, with inserts that fail and a batch that fails as a whole), \<open>PartitioningMain\<close> (its demonstrations and what they print); \<open>Federation\<close> (users and
  orders in two databases, the join in the application against the join over foreign tables, and the orphans
  that a deletion between validation and insert leaves).

  \<^bold>\<open>Layout of one database.\<close> \<open>VerticalPartitioning\<close> (a wide table against a core, a profile and an avatar table
  with a view over them; the split tables refine the wide one); \<open>IndexPlans\<close> (the walk over the plan tree that
  finds the first scan, and the catalog of \<open>indexing_strategies\<close>: every statement of \<open>main\<close> that creates, rebuilds or
  drops an index or a constraint, and the reset at the start of the next run).

  \<^bold>\<open>Derived data.\<close> \<open>EventSourcing\<close> (an append-only log with optimistic versions and snapshots); \<open>Cqrs\<close> (a write
  store with an outbox, a projector and a read store, interleaved in a step relation); \<open>MatViews\<close> (a refreshed
  view and an incremental summary with a watermark); \<open>Denormalization\<close> (copies maintained by triggers and the
  job that repairs them); \<open>Caching\<close> (cache-aside with Redis expiry, contract \<open>read_cache\<close>), \<open>CachingMain\<close> (its demonstrations under every failure); \<open>Polyglot\<close> (products
  and orders in PostgreSQL, a relay that feeds a search index and Redis, interleaved in a step relation), \<open>PolyglotMain\<close> (its \<open>main\<close>, with any batches
  of the relay between its calls).

  \<^bold>\<open>Replication and transactions.\<close> \<open>Routing\<close> (round robin over replicas, reads at an LSN);
  \<open>ReadReplicas\<close> (the probe of the replication lag, read-your-writes on the primary, the status of the replicas); \<open>Failover\<close> (probes,
  promotion, redirection), \<open>FailoverMain\<close> (its \<open>main\<close> over an asynchronous standby: when it ends normally and what the promoted node has then); \<open>MultiPrimary\<close> (two nodes that resolve conflicts by the last writer),
  \<open>MultiPrimaryMain\<close> (its \<open>main\<close>, with the apply workers and the writing goroutines interleaved); \<open>NewSql\<close>
  (transfers retried on serialization failures), \<open>NewSqlMain\<close> (its \<open>main\<close>, from a cluster that is starting to the last balances); \<open>SyncReplication\<close> (a primary and its standbys, each with the
  positions it has received, flushed and replayed; when a commit may return under each setting and level,
  interleaved with the replication in a step relation); \<open>HotStandby\<close> (\<open>main\<close> as a sequence of statements and waits
  over the WAL: a streaming standby, an archive of segments, promotion, recovery to a restore point).

  \<^bold>\<open>Connections.\<close> \<open>ConnectionPooling\<close> (\<open>newPool\<close>, the load over the slots of a server with or without a queue in a
  step relation, the sampler of backends, the columns of the statistics); \<open>LoadBalancing\<close> (the rows of the
  statistics page, the wait for servers to reach a status, the counts of answers per server).

  \<^bold>\<open>Tenants.\<close> \<open>Tenancy\<close> (row-level security in a shared schema); \<open>TenantSchemas\<close> (a schema and a role per tenant,
  migrations), \<open>TenantSchemasMain\<close> (its \<open>main\<close>, which refines a map from slugs to what each tenant has); \<open>TenantDatabases\<close> (a database per tenant, moves between servers, cached pools), \<open>TenantDatabasesMain\<close> (its \<open>main\<close>: who can log in where, wherever it stops, and what it reports).

  \<^bold>\<open>State and operations.\<close> A table is a map from its key or a list of rows, as the code relies on the key or on
  the order; a struct is a record with the fields of the source. An operation of the program is one definition
  with the name of the function, its statements in their order, and one \<open>outcome\<close> per statement (or a function
  that yields them), so that every error path is a branch; \<open>log.Fatal\<close> and panics are \<open>None\<close>. A SQL statement
  that the source sends is modelled by its documented effect on the tables. Where threads or processes run
  concurrently the theory has an inductive step relation whose steps are the transactions.

  \<^bold>\<open>Lemmas.\<close> Each theory proves the invariant of its state for every operation, then the behaviour that the
  program promises; the errors that it does not survive are theorems too. Properties are the theorems that
  carry a claim id.

  \<^bold>\<open>Bounds and fuel.\<close> Loops over the answers of servers recurse on the list of answers, so that the end of the list is
  the deadline or the interruption; no other fuel is used. Hash values are words of 32 bits, the round-robin
  counter has 64 bits and wraps; quantities and cents are integers and the checks of INT columns are
  written out where a program can meet them.

  \<^bold>\<open>Not modelled.\<close> Output, durations and measurements (sizes, buffers, WAL volumes, latencies), which the programs
  only print; floating-point rounding (amounts are cents); the SQL parser, the planner and the storage of the
  servers; HAProxy, PgBouncer, the container tool and the progress of replication, which are parameters or steps
  of the models; HTTP and the JSON syntax (\<open>IndexPlans\<close> and \<open>Polyglot\<close> work on the decoded values); the ranking of
  the full-text search; identity values that a rolled-back transaction leaves unused; the expiry of Redis keys
  where a program does not rely on it within a run (the deduplication keys of \<open>Polyglot\<close> live for a day).
\<close>

end
